(* ===== verification/Prelude.thy ===== *)
theory Prelude
  imports Main "HOL-Library.Word" "HOL-Library.Sublist"
begin

text \<open>
  Shared ground of the httpdirfs development: the limits of the platform, the C conversions
  between \<open>off_t\<close> and \<open>size_t\<close>, C strings and the \<open>string.h\<close> functions the
  sources use, little-endian integer encodings, and the generic list lemmas that the
  component theories share.

  Conventions.  A C string is the list of its characters without the terminating NUL; a
  pointer that the code compares with NULL is an \<open>option\<close>.  A signed C integer is an
  \<open>int\<close> and an unsigned \<open>size_t\<close> a \<open>nat\<close>; every conversion between the two is
  written with \<open>to_off\<close> and \<open>to_size\<close>, which wrap at 64 bits as the C conversion does
  on the LP64 platforms the program runs on.  A call of \<open>lprintf(fatal, ...)\<close> ends the
  process: such a function returns an \<open>option\<close> whose \<open>None\<close> is that exit.
\<close>

named_theorems cstr_simps "lemmas on C strings"
named_theorems cint_simps "lemmas on C integer conversions"

section \<open>Platform limits\<close>

abbreviation (input) NAME_MAX :: nat where "NAME_MAX \<equiv> 255"
abbreviation (input) PATH_MAX :: nat where "PATH_MAX \<equiv> 4096"
abbreviation (input) INT_MAX :: int where "INT_MAX \<equiv> 2147483647"
abbreviation (input) INT64_MAX :: int where "INT64_MAX \<equiv> 9223372036854775807"
abbreviation (input) SIZE_MAX :: nat where "SIZE_MAX \<equiv> 18446744073709551615"

text \<open>The \<open>errno\<close> values the sources return.\<close>

abbreviation (input) ENOENT :: int where "ENOENT \<equiv> 2"
abbreviation (input) EIO :: int where "EIO \<equiv> 5"
abbreviation (input) EAGAIN :: int where "EAGAIN \<equiv> 11"
abbreviation (input) EINVAL :: int where "EINVAL \<equiv> 22"
abbreviation (input) EROFS :: int where "EROFS \<equiv> 30"
abbreviation (input) EBADMSG :: int where "EBADMSG \<equiv> 74"

type_synonym cstr = string
type_synonym byte = "8 word"

section \<open>C integer conversions\<close>

definition to_off :: "nat \<Rightarrow> int" where
  "to_off n = (let m = n mod 2 ^ 64 in if m < 2 ^ 63 then int m else int m - 2 ^ 64)"

definition to_size :: "int \<Rightarrow> nat" where
  "to_size i = nat (i mod 2 ^ 64)"

text \<open>A value stored into a 32-bit signed \<open>int\<close>, wrapping in two's complement.\<close>

definition to_int32 :: "int \<Rightarrow> int" where
  "to_int32 i = (i + 2 ^ 31) mod 2 ^ 32 - 2 ^ 31"

lemma to_int32_small [cint_simps]: "- (2 ^ 31) \<le> i \<Longrightarrow> i < 2 ^ 31 \<Longrightarrow> to_int32 i = i"
  by (simp add: to_int32_def)

text \<open>Division and remainder of signed integers truncate towards zero.\<close>

definition c_div :: "int \<Rightarrow> int \<Rightarrow> int" where
  "c_div a b = sgn a * sgn b * (\<bar>a\<bar> div \<bar>b\<bar>)"

definition c_mod :: "int \<Rightarrow> int \<Rightarrow> int" where
  "c_mod a b = a - c_div a b * b"

lemma to_off_small [cint_simps]: "n < 2 ^ 63 \<Longrightarrow> to_off n = int n"
  by (simp add: to_off_def)

lemma to_off_neg: "2 ^ 63 \<le> n \<Longrightarrow> n < 2 ^ 64 \<Longrightarrow> to_off n < 0"
  by (simp add: to_off_def Let_def)

lemma to_size_nonneg [cint_simps]: "0 \<le> i \<Longrightarrow> i < 2 ^ 64 \<Longrightarrow> to_size i = nat i"
  by (simp add: to_size_def)

lemma to_off_nonneg_iff: "n < 2 ^ 64 \<Longrightarrow> 0 \<le> to_off n \<longleftrightarrow> n < 2 ^ 63"
  by (auto simp: to_off_def Let_def)

lemma to_size_to_off: "n < 2 ^ 64 \<Longrightarrow> to_size (to_off n) = n"
  by (auto simp: to_off_def to_size_def Let_def)

lemma to_off_range: "- (2 ^ 63) \<le> to_off n \<and> to_off n < 2 ^ 63"
proof -
  have "n mod 2 ^ 64 < (2::nat) ^ 64" by simp
  then show ?thesis by (auto simp: to_off_def Let_def)
qed

lemma c_div_nonneg [cint_simps]: "0 \<le> a \<Longrightarrow> 0 < b \<Longrightarrow> c_div a b = a div b"
  by (cases "a = 0") (simp_all add: c_div_def)

lemma c_mod_nonneg [cint_simps]: "0 \<le> a \<Longrightarrow> 0 < b \<Longrightarrow> c_mod a b = a mod b"
  by (simp add: c_mod_def c_div_nonneg minus_div_mult_eq_mod)

lemma div_mult_le_self: "0 < (b::int) \<Longrightarrow> a div b * b \<le> a"
proof -
  assume "0 < b"
  then have "0 \<le> a mod b" by simp
  moreover have "a = a div b * b + a mod b" by simp
  ultimately show ?thesis by linarith
qed

lemma less_div_mult_add: "0 < (b::int) \<Longrightarrow> a < a div b * b + b"
proof -
  assume "0 < b"
  then have "a mod b < b" by simp
  moreover have "a = a div b * b + a mod b" by simp
  ultimately show ?thesis by linarith
qed

section \<open>C strings\<close>

text \<open>The character at an index not beyond the terminating NUL.\<close>

definition c_at :: "cstr \<Rightarrow> nat \<Rightarrow> char" where
  "c_at s i = (if i < length s then s ! i else CHR 0x00)"

definition strnlen :: "cstr \<Rightarrow> nat \<Rightarrow> nat" where
  "strnlen s n = min (length s) n"

definition strndup :: "cstr \<Rightarrow> nat \<Rightarrow> cstr" where
  "strndup s n = take n s"

text \<open>\<open>strncmp(a, b, n) == 0\<close> and \<open>strncasecmp(a, b, n) == 0\<close>.\<close>

definition strncmp_eq :: "cstr \<Rightarrow> cstr \<Rightarrow> nat \<Rightarrow> bool" where
  "strncmp_eq a b n = (take n a = take n b)"

definition c_tolower :: "char \<Rightarrow> char" where
  "c_tolower c = (if 65 \<le> (of_char c :: nat) \<and> (of_char c :: nat) \<le> 90
                  then char_of ((of_char c :: nat) + 32) else c)"

definition strncasecmp_eq :: "cstr \<Rightarrow> cstr \<Rightarrow> nat \<Rightarrow> bool" where
  "strncasecmp_eq a b n = (map c_tolower (take n a) = map c_tolower (take n b))"

text \<open>
  \<open>strchr\<close>, \<open>strrchr\<close>, \<open>strpbrk\<close> and \<open>strstr\<close> return the index of the match.
\<close>

fun find_index :: "('a \<Rightarrow> bool) \<Rightarrow> 'a list \<Rightarrow> nat option" where
  "find_index p [] = None"
| "find_index p (x # xs) = (if p x then Some 0 else map_option Suc (find_index p xs))"

definition strchr :: "cstr \<Rightarrow> char \<Rightarrow> nat option" where
  "strchr s c = find_index (\<lambda>x. x = c) s"

definition strpbrk :: "cstr \<Rightarrow> char list \<Rightarrow> nat option" where
  "strpbrk s cs = find_index (\<lambda>x. x \<in> set cs) s"

definition strrchr :: "cstr \<Rightarrow> char \<Rightarrow> nat option" where
  "strrchr s c = map_option (\<lambda>i. length s - 1 - i) (find_index (\<lambda>x. x = c) (rev s))"

definition c_isprint :: "char \<Rightarrow> bool" where
  "c_isprint c = (32 \<le> (of_char c :: nat) \<and> (of_char c :: nat) \<le> 126)"

definition c_isspace :: "char \<Rightarrow> bool" where
  "c_isspace c = (of_char c \<in> {9, 10, 11, 12, 13, 32 :: nat})"

abbreviation (input) slash :: char where "slash \<equiv> CHR ''/''"

lemma find_index_None: "find_index p xs = None \<longleftrightarrow> (\<forall>x \<in> set xs. \<not> p x)"
  by (induction xs) auto

lemma find_index_Some:
  "find_index p xs = Some i \<Longrightarrow> i < length xs \<and> p (xs ! i) \<and> (\<forall>j < i. \<not> p (xs ! j))"
proof (induction xs arbitrary: i)
  case Nil
  then show ?case by simp
next
  case (Cons x xs)
  show ?case
  proof (cases "p x")
    case True
    with Cons.prems show ?thesis by simp
  next
    case False
    with Cons.prems obtain k where k: "find_index p xs = Some k" "i = Suc k" by auto
    from Cons.IH [OF k(1)] k(2) False show ?thesis
      by (auto simp: less_Suc_eq_0_disj)
  qed
qed

lemma find_index_take: "find_index p xs = Some i \<Longrightarrow> \<forall>x \<in> set (take i xs). \<not> p x"
  using find_index_Some [of p xs i] by (auto simp: in_set_conv_nth)

lemma strchr_None: "strchr s c = None \<longleftrightarrow> c \<notin> set s"
  by (auto simp: strchr_def find_index_None)

lemma strchr_Some:
  "strchr s c = Some i \<Longrightarrow> i < length s \<and> s ! i = c \<and> c \<notin> set (take i s)"
  by (auto simp: strchr_def dest: find_index_Some find_index_take)

lemma strrchr_None: "strrchr s c = None \<longleftrightarrow> c \<notin> set s"
  by (auto simp: strrchr_def find_index_None)

lemma strrchr_Some:
  assumes "strrchr s c = Some i"
  shows "i < length s \<and> s ! i = c \<and> c \<notin> set (drop (Suc i) s)"
proof -
  from assms obtain k where k: "find_index (\<lambda>x. x = c) (rev s) = Some k" "i = length s - 1 - k"
    by (auto simp: strrchr_def)
  from find_index_Some [OF k(1)] have kl: "k < length s" and at: "rev s ! k = c" by auto
  have "drop (Suc i) s = rev (take k (rev s))"
    using kl k(2) by (simp add: take_rev Suc_diff_Suc)
  moreover have "c \<notin> set (take k (rev s))" using find_index_take [OF k(1)] by auto
  ultimately have "c \<notin> set (drop (Suc i) s)" by simp
  moreover have "s ! i = c" using at kl k(2) by (simp add: rev_nth)
  ultimately show ?thesis using kl k(2) by simp
qed

lemma strnlen_le [simp]: "strnlen s n \<le> n" "strnlen s n \<le> length s"
  by (simp_all add: strnlen_def)

lemma c_at_nth [simp]: "i < length s \<Longrightarrow> c_at s i = s ! i"
  by (simp add: c_at_def)

lemma c_at_Cons_0 [simp]: "c_at (x # s) 0 = x"
  by simp

lemma c_at_Nil [simp]: "c_at [] i = CHR 0x00"
  by (simp add: c_at_def)

section \<open>Little-endian encodings of the integers that \<open>fwrite\<close> stores\<close>

fun le_bytes :: "nat \<Rightarrow> nat \<Rightarrow> byte list" where
  "le_bytes 0 n = []"
| "le_bytes (Suc k) n = word_of_nat (n mod 256) # le_bytes k (n div 256)"

fun le_val :: "byte list \<Rightarrow> nat" where
  "le_val [] = 0"
| "le_val (b # bs) = unat b + 256 * le_val bs"

lemma length_le_bytes [simp]: "length (le_bytes k n) = k"
  by (induction k arbitrary: n) auto

lemma unat_of_nat_mod_256 [simp]: "unat (word_of_nat (n mod 256) :: byte) = n mod 256"
  by (simp add: unat_of_nat)

lemma le_val_le_bytes: "le_val (le_bytes k n) = n mod 256 ^ k"
proof (induction k arbitrary: n)
  case 0
  then show ?case by simp
next
  case (Suc k)
  have "le_val (le_bytes (Suc k) n) = n mod 256 + 256 * (n div 256 mod 256 ^ k)"
    by (simp add: Suc.IH)
  also have "\<dots> = n mod (256 * 256 ^ k)"
    by (metis mod_mult2_eq add.commute)
  finally show ?case by simp
qed

text \<open>A signed integer of \<open>k\<close> bytes in two's complement.\<close>

definition enc_int :: "nat \<Rightarrow> int \<Rightarrow> byte list" where
  "enc_int k i = le_bytes k (nat (i mod 256 ^ k))"

definition dec_int :: "nat \<Rightarrow> byte list \<Rightarrow> int" where
  "dec_int k bs = (let n = int (le_val bs) in if 2 * n < 256 ^ k then n else n - 256 ^ k)"

lemma length_enc_int [simp]: "length (enc_int k i) = k"
  by (simp add: enc_int_def)

lemma dec_enc_int:
  assumes "- (256 ^ k) \<le> 2 * i" and "2 * i < 256 ^ k"
  shows "dec_int k (enc_int k i) = i"
proof -
  have "int (nat (i mod 256 ^ k) mod 256 ^ k) = i mod 256 ^ k"
    by (simp add: nat_mod_distrib zmod_int)
  then have v: "int (le_val (enc_int k i)) = i mod 256 ^ k"
    by (simp add: enc_int_def le_val_le_bytes)
  show ?thesis
  proof (cases "0 \<le> i")
    case True
    with assms have "i mod 256 ^ k = i" by simp
    with assms v True show ?thesis by (simp add: dec_int_def)
  next
    case False
    have "(i + 256 ^ k) mod 256 ^ k = i + 256 ^ k"
      using False assms by (intro mod_pos_pos_trivial) auto
    then have "i mod 256 ^ k = i + 256 ^ k" by simp
    with assms v False show ?thesis by (simp add: dec_int_def)
  qed
qed

lemma dec_enc_int8:
  "- (2 ^ 63) \<le> i \<Longrightarrow> i < 2 ^ 63 \<Longrightarrow> dec_int 8 (enc_int 8 i) = i"
  by (rule dec_enc_int) auto

lemma dec_enc_int4:
  "- (2 ^ 31) \<le> i \<Longrightarrow> i < 2 ^ 31 \<Longrightarrow> dec_int 4 (enc_int 4 i) = i"
  by (rule dec_enc_int) auto

lemma le_val_bound: "le_val bs < 256 ^ length bs"
proof (induction bs)
  case (Cons b bs)
  have "unat b < 256" using unsigned_less [of b] by (simp del: unsigned_less)
  with Cons show ?case by simp
qed simp

lemma le_bytes_le_val: "le_bytes (length bs) (le_val bs) = bs"
proof (induction bs)
  case (Cons b bs)
  have "unat b < 256" using unsigned_less [of b] by (simp del: unsigned_less)
  then have "(unat b + 256 * le_val bs) mod 256 = unat b" "(unat b + 256 * le_val bs) div 256 = le_val bs" by simp_all
  with Cons show ?case by simp
qed simp

lemma enc_dec_int:
  assumes "length bs = k"
  shows "enc_int k (dec_int k bs) = bs"
proof -
  let ?n = "int (le_val bs)"
  have "?n < 256 ^ k" using le_val_bound [of bs] assms by (metis of_nat_less_iff of_nat_numeral of_nat_power)
  then have "?n mod 256 ^ k = ?n" "(?n - 256 ^ k) mod 256 ^ k = ?n" by simp_all
  then have "dec_int k bs mod 256 ^ k = ?n" by (simp add: dec_int_def Let_def)
  then show ?thesis using le_bytes_le_val [of bs] assms by (simp add: enc_int_def)
qed

lemma dec_int_bounds:
  assumes "length bs = k"
  shows "- (256 ^ k) \<le> 2 * dec_int k bs" "2 * dec_int k bs < 256 ^ k"
proof -
  have "int (le_val bs) < int (256 ^ k)" using le_val_bound [of bs] assms by (simp only: of_nat_less_iff)
  then have "int (le_val bs) < 256 ^ k" by simp
  moreover have "0 \<le> int (le_val bs)" by simp
  ultimately show "- (256 ^ k) \<le> 2 * dec_int k bs" "2 * dec_int k bs < 256 ^ k"
    unfolding dec_int_def Let_def by (simp_all split: if_split del: of_nat_less_iff of_nat_power of_nat_less_numeral_power_cancel_iff of_nat_less_of_nat_power_cancel_iff)
qed

section \<open>Overwriting a range of a list\<close>

text \<open>
  Writing \<open>ys\<close> at position \<open>n\<close> of a file: the bytes before are kept, a hole is filled with
  zeros, and the bytes after the written range are kept.
\<close>

definition overwrite :: "'a \<Rightarrow> nat \<Rightarrow> 'a list \<Rightarrow> 'a list \<Rightarrow> 'a list" where
  "overwrite z n ys xs =
     take n xs @ replicate (n - length xs) z @ ys @ drop (n + length ys) xs"

definition slice :: "nat \<Rightarrow> nat \<Rightarrow> 'a list \<Rightarrow> 'a list" where
  "slice n k xs = take k (drop n xs)"

lemma length_overwrite [simp]:
  "length (overwrite z n ys xs) = max (length xs) (n + length ys)"
  by (simp add: overwrite_def)

lemma nth_overwrite:
  assumes "i < max (length xs) (n + length ys)"
  shows "overwrite z n ys xs ! i =
    (if n \<le> i \<and> i < n + length ys then ys ! (i - n)
     else if i < length xs then xs ! i else z)"
  using assms unfolding overwrite_def
  by (auto simp: nth_append min_def)

lemma length_slice [simp]: "length (slice n k xs) = min k (length xs - n)"
  by (simp add: slice_def)

lemma nth_slice [simp]: "i < k \<Longrightarrow> n + i < length xs \<Longrightarrow> slice n k xs ! i = xs ! (n + i)"
  by (simp add: slice_def)

lemma slice_overwrite_same: "slice n (length ys) (overwrite z n ys xs) = ys"
  by (rule nth_equalityI) (auto simp: nth_overwrite)

lemma slice_overwrite_disjoint:
  assumes "m + k \<le> n \<or> n + length ys \<le> m" and "m + k \<le> length xs"
  shows "slice m k (overwrite z n ys xs) = slice m k xs"
  using assms by (intro nth_equalityI) (auto simp: nth_overwrite)

lemma slice_slice: "i + j \<le> k \<Longrightarrow> slice i j (slice n k xs) = slice (n + i) j xs"
  by (simp add: slice_def drop_take add.commute min_def)

lemma slice_append: "slice n j xs @ slice (n + j) k xs = slice n (j + k) xs"
  by (simp add: slice_def take_add add.commute)

section \<open>Counting the elements of an array that satisfy a predicate\<close>

definition cnt :: "('a \<Rightarrow> bool) \<Rightarrow> 'a list \<Rightarrow> nat" where
  "cnt p xs = length (filter p xs)"

lemma cnt_Nil [simp]: "cnt p [] = 0"
  by (simp add: cnt_def)

lemma cnt_Cons [simp]: "cnt p (x # xs) = (if p x then 1 else 0) + cnt p xs"
  by (simp add: cnt_def)

lemma cnt_append [simp]: "cnt p (xs @ ys) = cnt p xs + cnt p ys"
  by (simp add: cnt_def)

lemma cnt_update:
  "i < length xs \<Longrightarrow>
   cnt p (xs[i := x]) + (if p (xs ! i) then 1 else 0) = cnt p xs + (if p x then 1 else 0)"
proof (induction xs arbitrary: i)
  case Nil
  then show ?case by simp
next
  case (Cons y ys)
  show ?case
  proof (cases i)
    case 0
    then show ?thesis by simp
  next
    case (Suc j)
    with Cons.prems Cons.IH [of j] show ?thesis by simp
  qed
qed

lemma cnt_pos: "i < length xs \<Longrightarrow> p (xs ! i) \<Longrightarrow> 0 < cnt p xs"
  by (auto simp: cnt_def filter_empty_conv dest: nth_mem)

lemma cnt_0: "cnt p xs = 0 \<longleftrightarrow> (\<forall>x \<in> set xs. \<not> p x)"
  by (auto simp: cnt_def filter_empty_conv)

text \<open>The same count as an integer, so that it can be part of a balance.\<close>

definition icnt :: "('a \<Rightarrow> bool) \<Rightarrow> 'a list \<Rightarrow> int" where
  "icnt p xs = int (cnt p xs)"

lemma icnt_simps [simp]:
  "icnt p [] = 0"
  "icnt p (x # xs) = of_bool (p x) + icnt p xs"
  "icnt p (xs @ ys) = icnt p xs + icnt p ys"
  by (simp_all add: icnt_def)

lemma icnt_nonneg [simp]: "0 \<le> icnt p xs"
  by (simp add: icnt_def)

lemma icnt_update:
  "t < length xs \<Longrightarrow> icnt p (xs[t := x]) = icnt p xs - of_bool (p (xs ! t)) + of_bool (p x)"
  using cnt_update [of t xs p x] by (simp add: icnt_def split: if_splits)

lemma icnt_pos: "t < length xs \<Longrightarrow> p (xs ! t) \<Longrightarrow> 1 \<le> icnt p xs"
  using cnt_pos [of t xs p] by (simp add: icnt_def)

lemma icnt_two:
  assumes "i < length xs" "j < length xs" "i \<noteq> j" "p (xs ! i)" "p (xs ! j)" "\<not> p z"
  shows "2 \<le> icnt p xs"
proof -
  have "icnt p (xs[i := z]) = icnt p xs - 1" using assms by (simp add: icnt_update)
  moreover have "1 \<le> icnt p (xs[i := z])" using assms by (intro icnt_pos [of j]) simp_all
  ultimately show ?thesis by simp
qed

lemma icnt_zero: "icnt p xs = 0 \<longleftrightarrow> (\<forall>x \<in> set xs. \<not> p x)"
  by (simp add: icnt_def cnt_0)

section \<open>State machines\<close>

text \<open>A start predicate, a step relation and an invariant; what refines a machine keeps its invariant.\<close>

locale machine =
  fixes start :: "'s \<Rightarrow> bool" and step :: "'s \<Rightarrow> 's \<Rightarrow> bool" and inv :: "'s \<Rightarrow> bool"
  assumes start_inv: "start s \<Longrightarrow> inv s"
    and step_inv: "step s s' \<Longrightarrow> inv s \<Longrightarrow> inv s'"
begin

lemma steps_inv: "step\<^sup>*\<^sup>* s s' \<Longrightarrow> inv s \<Longrightarrow> inv s'"
  by (induction rule: rtranclp_induct) (auto intro: step_inv)

lemma reachable_inv: "start s \<Longrightarrow> step\<^sup>*\<^sup>* s s' \<Longrightarrow> inv s'"
  by (rule steps_inv [OF _ start_inv])

end

text \<open>\<open>view\<close> maps a concrete state to an abstract one; \<open>good\<close> is what else holds of concrete states.\<close>

locale refined_machine = machine start step inv
  for start :: "'s \<Rightarrow> bool" and step :: "'s \<Rightarrow> 's \<Rightarrow> bool" and inv :: "'s \<Rightarrow> bool" +
  fixes cstart :: "'c \<Rightarrow> bool" and cstep :: "'c \<Rightarrow> 'c \<Rightarrow> bool" and good :: "'c \<Rightarrow> bool" and view :: "'c \<Rightarrow> 's"
  assumes cstart_ok: "cstart c \<Longrightarrow> start (view c) \<and> good c"
    and cstep_ok: "cstep c c' \<Longrightarrow> good c \<Longrightarrow> inv (view c) \<Longrightarrow> step\<^sup>*\<^sup>* (view c) (view c') \<and> good c'"
begin

lemma csteps_ok:
  assumes "cstart c0" "cstep\<^sup>*\<^sup>* c0 c"
  shows "step\<^sup>*\<^sup>* (view c0) (view c) \<and> good c \<and> inv (view c)"
  using assms(2)
proof (induction rule: rtranclp_induct)
  case base
  with cstart_ok [OF assms(1)] start_inv show ?case by blast
next
  case (step c c')
  with cstep_ok [of c c'] have "step\<^sup>*\<^sup>* (view c) (view c')" "good c'" by blast+
  with step steps_inv show ?case by (meson rtranclp_trans)
qed

end

end
