(* ===== verification/Util.thy ===== *)
theory Util
  imports Prelude
begin

text \<open>
  \<open>src/util.c\<close>: path concatenation, hexadecimal encoding, the counting semaphore, and the
  allocation tracker of the debug build.

  The tracker's hash table \<open>mem_hash_table\<close> is a function from bucket numbers to the
  bucket's chain of \<open>MemNode\<close>s, newest first.  The addresses that the C allocator returns
  are arguments of the operations: what the code relies on is that a fresh block's address is
  not the address of a block that is still tracked.
\<close>

section \<open>\<open>path_append\<close>\<close>

definition path_append :: "cstr \<Rightarrow> cstr \<Rightarrow> cstr" where
  "path_append path filename =
    (let ul = strnlen path PATH_MAX;
         fl = strnlen filename PATH_MAX;
         needs_separator = 0 < ul \<and> path ! (ul - 1) \<noteq> slash;
         skip = (if 0 < ul then length (takeWhile (\<lambda>c. c = slash) (take fl filename)) else 0);
         sl = fl - skip
     in take ul path @ (if needs_separator then [slash] else []) @ take sl (drop skip filename))"

text \<open>With the check of the two pointers: a NULL argument is fatal.\<close>

definition path_append_ptr :: "cstr option \<Rightarrow> cstr option \<Rightarrow> cstr option" where
  "path_append_ptr path filename =
    (case (path, filename) of
       (Some p, Some f) \<Rightarrow> Some (path_append p f)
     | _ \<Rightarrow> None)"

lemma take_drop_takeWhile:
  "take (n - length (takeWhile P (take n xs))) (drop (length (takeWhile P (take n xs))) xs)
   = dropWhile P (take n xs)"
  by (metis drop_take dropWhile_eq_drop)

lemma path_append_short:
  assumes "length p \<le> PATH_MAX" "length f \<le> PATH_MAX" "p \<noteq> []"
  shows "path_append p f =
    p @ (if last p = slash then [] else [slash]) @ dropWhile (\<lambda>c. c = slash) f"
proof -
  have "strnlen p PATH_MAX = length p" "strnlen f PATH_MAX = length f"
    using assms by (simp_all add: strnlen_def)
  moreover have "p ! (length p - 1) = last p" using assms by (simp add: last_conv_nth)
  ultimately show ?thesis
    using assms take_drop_takeWhile [of "length f" "\<lambda>c. c = slash" f]
    by (simp add: path_append_def Let_def)
qed

lemma path_append_empty: "length f \<le> PATH_MAX \<Longrightarrow> path_append [] f = f"
  by (simp add: path_append_def strnlen_def)

text \<open>What the callers rely on: directory and name are recovered from the joined path.\<close>

lemma path_append_inj:
  assumes "path_append d f = path_append d g"
    and "length d \<le> PATH_MAX" "length f \<le> PATH_MAX" "length g \<le> PATH_MAX"
    and "f = [] \<or> hd f \<noteq> slash" "g = [] \<or> hd g \<noteq> slash"
  shows "f = g"
proof (cases "d = []")
  case True
  then show ?thesis using assms by (simp add: path_append_empty)
next
  case False
  have "dropWhile (\<lambda>c. c = slash) f = f" "dropWhile (\<lambda>c. c = slash) g = g"
    using assms(5,6) by (cases f; cases g; simp)+
  then show ?thesis using assms False by (simp add: path_append_short split: if_splits)
qed

section \<open>\<open>str_to_hex\<close>\<close>

definition hex_digit :: "nat \<Rightarrow> char" where
  "hex_digit n = ''0123456789abcdef'' ! (n mod 16)"

definition hex_byte :: "char \<Rightarrow> cstr" where
  "hex_byte c = [hex_digit (of_char c div 16), hex_digit (of_char c)]"

definition str_to_hex :: "cstr \<Rightarrow> cstr" where
  "str_to_hex s = concat (map hex_byte (take (strnlen s PATH_MAX) s))"

text \<open>The decoder that the server applies to the \<open>enc:\<close> form of a password.\<close>

definition unhex_digit :: "char \<Rightarrow> nat" where
  "unhex_digit c = (if of_char c < (58 :: nat) then of_char c - 48 else of_char c - 87)"

fun unhex :: "cstr \<Rightarrow> cstr" where
  "unhex (a # b # s) = char_of (16 * unhex_digit a + unhex_digit b) # unhex s"
| "unhex _ = []"

lemma unhex_digits: "list_all (\<lambda>n. unhex_digit (hex_digit n) = n) [0..<16]"
  by code_simp

lemma unhex_hex_digit: "unhex_digit (hex_digit n) = n mod 16"
proof -
  have "n mod 16 \<in> set [0..<16]" by simp
  then have "unhex_digit (hex_digit (n mod 16)) = n mod 16"
    using unhex_digits unfolding list_all_iff by blast
  moreover have "hex_digit (n mod 16) = hex_digit n" by (simp add: hex_digit_def)
  ultimately show ?thesis by simp
qed

lemma of_char_less: "(of_char c :: nat) < 256"
  by (metis of_char_mod_256 mod_less_divisor zero_less_numeral)

lemma unhex_hex_byte: "unhex (hex_byte c @ s) = c # unhex s"
proof -
  have "of_char c div 16 mod 16 = (of_char c div 16 :: nat)"
    using of_char_less [of c] by (intro mod_less) (simp add: less_mult_imp_div_less)
  then have "16 * unhex_digit (hex_digit (of_char c div 16)) + unhex_digit (hex_digit (of_char c))
      = (of_char c :: nat)"
    by (simp add: unhex_hex_digit)
  then show ?thesis by (simp add: hex_byte_def)
qed

section \<open>Counting semaphores (\<open>sys_sem_t\<close>)\<close>

text \<open>
  The state of a semaphore is its count.  \<open>sem_wait_wrapper\<close> blocks while the count is not
  positive (None: the caller cannot proceed in this state); \<open>sys_sem_trywait_wrapper\<close> returns
  0 and takes a unit, or returns -1.
\<close>

definition sem_init :: "nat \<Rightarrow> int" where
  "sem_init value = int value"

definition sem_wait :: "int \<Rightarrow> int option" where
  "sem_wait count = (if count \<le> 0 then None else Some (count - 1))"

definition sem_post :: "int \<Rightarrow> int" where
  "sem_post count = count + 1"

definition sem_trywait :: "int \<Rightarrow> int \<times> int" where
  "sem_trywait count = (if count > 0 then (0, count - 1) else (-1, count))"

section \<open>\<open>erase_string\<close>\<close>

definition erase_string :: "nat \<Rightarrow> cstr \<Rightarrow> cstr" where
  "erase_string max_len s =
    (let l = strnlen s max_len
     in replicate l (CHR 0x08) @ replicate l (CHR '' '') @ replicate l (CHR 0x08))"

section \<open>The allocation tracker\<close>

abbreviation (input) MEM_HASH_SIZE :: nat where "MEM_HASH_SIZE \<equiv> 8192"

record mem_node =
  mn_ptr :: "64 word"
  mn_size :: nat
  mn_file :: cstr
  mn_func :: cstr
  mn_line :: int

type_synonym mem_table = "nat \<Rightarrow> mem_node list"

unbundle bit_operations_syntax

definition hash_ptr :: "64 word \<Rightarrow> nat" where
  "hash_ptr ptr = unat ((drop_bit 3 ptr XOR drop_bit 16 ptr) AND 8191)"

text \<open>
  Recording a fresh block: the second half of \<open>malloc_wrapper_internal\<close>, \<open>CALLOC_wrapper\<close>
  and \<open>REALPATH_wrapper\<close>.  A NULL pointer (a zero-size request) is not recorded.
\<close>

definition mem_track :: "mem_node \<Rightarrow> mem_table \<Rightarrow> mem_table" where
  "mem_track node tbl =
    (if mn_ptr node = 0 then tbl
     else (let idx = hash_ptr (mn_ptr node) in tbl(idx := node # tbl idx)))"

text \<open>Walking a chain with \<open>curr = &(*curr)->next\<close> and unlinking the first match.\<close>

fun chain_unlink :: "64 word \<Rightarrow> mem_node list \<Rightarrow> mem_node option \<times> mem_node list" where
  "chain_unlink p [] = (None, [])"
| "chain_unlink p (n # ns) =
    (if mn_ptr n = p then (Some n, ns)
     else (case chain_unlink p ns of (r, ns') \<Rightarrow> (r, n # ns')))"

definition mem_unlink :: "64 word \<Rightarrow> mem_table \<Rightarrow> mem_node option \<times> mem_table" where
  "mem_unlink p tbl =
    (let idx = hash_ptr p; (r, chain) = chain_unlink p (tbl idx) in (r, tbl(idx := chain)))"

text \<open>
  \<open>FREE_wrapper\<close>: NULL is ignored; a block that the tracker does not know is freed with a
  warning and leaves the table alone.  The flag says whether the block was tracked.
\<close>

definition mem_free :: "64 word \<Rightarrow> mem_table \<Rightarrow> bool \<times> mem_table" where
  "mem_free p tbl =
    (if p = 0 then (True, tbl)
     else case mem_unlink p tbl of
            (Some _, tbl') \<Rightarrow> (True, tbl')
          | (None, _) \<Rightarrow> (False, tbl))"

text \<open>
  \<open>REALLOC_wrapper\<close> of a non-NULL block with a non-zero size: the tracked node moves to the
  bucket of the new address; a block that is not tracked gets a new node.
\<close>

definition mem_realloc :: "64 word \<Rightarrow> mem_node \<Rightarrow> mem_table \<Rightarrow> mem_table" where
  "mem_realloc p node tbl =
    (case mem_unlink p tbl of
       (Some _, tbl') \<Rightarrow> mem_track node tbl'
     | (None, _) \<Rightarrow> mem_track node tbl)"

definition REALLOC :: "64 word \<Rightarrow> mem_node \<Rightarrow> mem_table \<Rightarrow> mem_table" where
  "REALLOC p node tbl =
    (if p = 0 then mem_track node tbl
     else if mn_size node = 0 then snd (mem_free p tbl)
     else mem_realloc p node tbl)"

text \<open>The count of \<open>mem_cleanup\<close>: the nodes left in all buckets.\<close>

definition mem_leak_count :: "mem_table \<Rightarrow> nat" where
  "mem_leak_count tbl = sum_list (map (\<lambda>i. length (tbl i)) [0..<MEM_HASH_SIZE])"

text \<open>What the table promises: the map from addresses to the recorded node.\<close>

definition mem_lookup :: "mem_table \<Rightarrow> 64 word \<Rightarrow> mem_node option" where
  "mem_lookup tbl p = find (\<lambda>n. mn_ptr n = p) (tbl (hash_ptr p))"

definition mem_invar :: "mem_table \<Rightarrow> bool" where
  "mem_invar tbl \<longleftrightarrow>
    (\<forall>i. distinct (map mn_ptr (tbl i))) \<and>
    (\<forall>i. \<forall>n \<in> set (tbl i). hash_ptr (mn_ptr n) = i \<and> mn_ptr n \<noteq> 0)"

lemma hash_ptr_less: "hash_ptr p < MEM_HASH_SIZE"
proof -
  have "unat ((drop_bit 3 p XOR drop_bit 16 p) AND 8191) \<le> unat (8191 :: 64 word)"
    by (rule word_and_le1 [THEN word_le_nat_alt [THEN iffD1]])
  then show ?thesis by (simp add: hash_ptr_def)
qed

lemma chain_unlink_eq:
  "distinct (map mn_ptr ns) \<Longrightarrow>
   chain_unlink p ns = (find (\<lambda>n. mn_ptr n = p) ns, filter (\<lambda>n. mn_ptr n \<noteq> p) ns)"
proof (induction ns)
  case Nil
  then show ?case by simp
next
  case (Cons n ns)
  show ?case
  proof (cases "mn_ptr n = p")
    case True
    with Cons.prems have "\<forall>m \<in> set ns. mn_ptr m \<noteq> p" by (auto simp: image_iff)
    then have "filter (\<lambda>m. mn_ptr m \<noteq> p) ns = ns" by (simp add: filter_id_conv)
    with True show ?thesis by simp
  next
    case False
    with Cons show ?thesis by simp
  qed
qed

lemma find_filter_other: "q \<noteq> p \<Longrightarrow>
  find (\<lambda>n. mn_ptr n = q) (filter (\<lambda>n. mn_ptr n \<noteq> p) ns) = find (\<lambda>n. mn_ptr n = q) ns"
  by (induction ns) auto

lemma find_filter_same: "find (\<lambda>n. mn_ptr n = p) (filter (\<lambda>n. mn_ptr n \<noteq> p) ns) = None"
  by (induction ns) auto

lemma mem_unlink_fst: "mem_invar tbl \<Longrightarrow> fst (mem_unlink p tbl) = mem_lookup tbl p"
  by (simp add: mem_unlink_def mem_lookup_def mem_invar_def chain_unlink_eq Let_def)

lemma mem_unlink_invar: "mem_invar tbl \<Longrightarrow> mem_invar (snd (mem_unlink p tbl))"
  by (auto simp: mem_unlink_def mem_invar_def chain_unlink_eq distinct_map_filter Let_def)

lemma mem_unlink_lookup:
  "mem_invar tbl \<Longrightarrow> mem_lookup (snd (mem_unlink p tbl)) = (mem_lookup tbl)(p := None)"
  by (rule ext)
    (auto simp: mem_unlink_def mem_lookup_def mem_invar_def chain_unlink_eq Let_def
      find_filter_other find_filter_same)

lemma mem_track_lookup:
  "mn_ptr node \<noteq> 0 \<Longrightarrow> mem_lookup (mem_track node tbl) = (mem_lookup tbl)(mn_ptr node \<mapsto> node)"
  by (rule ext) (auto simp: mem_track_def mem_lookup_def Let_def)

lemma mem_lookup_None: "mem_lookup tbl p = None \<longleftrightarrow> (\<forall>n \<in> set (tbl (hash_ptr p)). mn_ptr n \<noteq> p)"
  by (auto simp: mem_lookup_def find_None_iff)

lemma mem_track_invar:
  "mem_invar tbl \<Longrightarrow> mem_lookup tbl (mn_ptr node) = None \<Longrightarrow> mem_invar (mem_track node tbl)"
  by (auto simp: mem_track_def mem_invar_def mem_lookup_None Let_def)

lemma mem_free_lookup:
  "mem_invar tbl \<Longrightarrow> mem_lookup (snd (mem_free p tbl)) = (mem_lookup tbl)(p := None)"
proof -
  assume inv: "mem_invar tbl"
  show ?thesis
  proof (cases "p = 0")
    case True
    have "mem_lookup tbl 0 = None"
      using inv by (auto simp: mem_lookup_None mem_invar_def)
    with True show ?thesis by (auto simp: mem_free_def fun_eq_iff)
  next
    case False
    have *: "fst (mem_unlink p tbl) = None \<Longrightarrow> (mem_lookup tbl)(p := None) = mem_lookup tbl"
      using inv by (auto simp: mem_unlink_fst fun_eq_iff)
    show ?thesis
      using False inv * mem_unlink_lookup [OF inv, of p]
      by (cases "mem_unlink p tbl") (auto simp: mem_free_def split: option.splits)
  qed
qed

lemma mem_free_invar: "mem_invar tbl \<Longrightarrow> mem_invar (snd (mem_free p tbl))"
  using mem_unlink_invar [of tbl p]
  by (cases "mem_unlink p tbl") (auto simp: mem_free_def split: option.splits)

text \<open>
  The interface that the rest of the program sees: a finite map from live addresses to the
  record of their allocation.
\<close>

locale allocation_tracker =
  fixes lookup :: "'t \<Rightarrow> 'p \<Rightarrow> 'n option"
    and track :: "'n \<Rightarrow> 't \<Rightarrow> 't"
    and release :: "'p \<Rightarrow> 't \<Rightarrow> 't"
    and addr :: "'n \<Rightarrow> 'p"
    and null :: 'p
    and invar :: "'t \<Rightarrow> bool"
  assumes lookup_track: "addr n \<noteq> null \<Longrightarrow> lookup (track n t) = (lookup t)(addr n \<mapsto> n)"
    and lookup_release: "invar t \<Longrightarrow> lookup (release p t) = (lookup t)(p := None)"
    and invar_track: "invar t \<Longrightarrow> lookup t (addr n) = None \<Longrightarrow> invar (track n t)"
    and invar_release: "invar t \<Longrightarrow> invar (release p t)"
begin

lemma release_track:
  assumes "invar t" "lookup t (addr n) = None" "addr n \<noteq> null"
  shows "lookup (release (addr n) (track n t)) = lookup t"
  using assms by (simp add: lookup_track lookup_release invar_track fun_upd_idem)

lemma release_track_other:
  assumes "invar t" "lookup t (addr n) = None" "addr n \<noteq> null" "p \<noteq> addr n"
  shows "lookup (release p (track n t)) = lookup (track n (release p t))"
  using assms by (simp add: lookup_track lookup_release invar_track fun_upd_twist)

end

interpretation mt: allocation_tracker mem_lookup mem_track "\<lambda>p t. snd (mem_free p t)" mn_ptr 0 mem_invar
  by unfold_locales
    (simp_all add: mem_track_lookup mem_free_lookup mem_track_invar mem_free_invar)

section \<open>Properties\<close>

text \<open>
  \<open>path_append\<close> of a directory and a name, both within \<open>PATH_MAX\<close>, puts exactly one
  separator between them whatever slashes the directory ends in or the name starts with: the
  result is the directory without its last slash, a slash, and the name without its leading
  slashes.
\<close>

theorem path_append_one_separator:
  assumes "p \<noteq> []" "length p \<le> PATH_MAX" "length f \<le> PATH_MAX"
  shows "\<exists>d name. (p = d \<and> (d = [] \<or> last d \<noteq> slash) \<or> p = d @ [slash]) \<and>
    f = takeWhile (\<lambda>c. c = slash) f @ name \<and> (name = [] \<or> hd name \<noteq> slash) \<and>
    path_append p f = d @ [slash] @ name"
proof -
  let ?name = "dropWhile (\<lambda>c. c = slash) f"
  have 1: "f = takeWhile (\<lambda>c. c = slash) f @ ?name" by simp
  have 2: "?name = [] \<or> hd ?name \<noteq> slash"
    using hd_dropWhile [of "\<lambda>c. c = slash" f] by blast
  have 3: "path_append p f = p @ (if last p = slash then [] else [slash]) @ ?name"
    using assms(2,3,1) by (rule path_append_short)
  show ?thesis
  proof (cases "last p = slash")
    case True
    then obtain d where "p = d @ [slash]" using assms(1) by (metis append_butlast_last_id)
    with 1 2 3 show ?thesis by (intro exI [of _ d] exI [of _ ?name]) simp
  next
    case False
    with 1 2 3 show ?thesis by (intro exI [of _ p] exI [of _ ?name]) simp
  qed
qed

theorem path_append_one_separator_witness:
  "\<exists>d name. (''/home/'' = d \<and> (d = [] \<or> last d \<noteq> slash) \<or> ''/home/'' = d @ [slash]) \<and>
    ''//docs'' = takeWhile (\<lambda>c. c = slash) ''//docs'' @ name \<and> (name = [] \<or> hd name \<noteq> slash) \<and>
    path_append ''/home/'' ''//docs'' = d @ [slash] @ name"
  by (rule path_append_one_separator) simp_all

text \<open>
  \<open>str_to_hex\<close> writes two digits for each of the first \<open>PATH_MAX\<close> characters, and the
  server's decoder recovers the string from them.
\<close>

theorem str_to_hex_roundtrip:
  "unhex (str_to_hex s) = take PATH_MAX s \<and> length (str_to_hex s) = 2 * min (length s) PATH_MAX"
proof -
  have dec: "unhex (concat (map hex_byte t)) = t" for t
    by (induction t) (simp_all add: unhex_hex_byte)
  have len: "length (concat (map hex_byte t)) = 2 * length t" for t
    by (induction t) (simp_all add: hex_byte_def)
  have "take (strnlen s PATH_MAX) s = take PATH_MAX s"
    by (cases "length s \<le> PATH_MAX") (simp_all add: strnlen_def)
  then show ?thesis by (simp add: str_to_hex_def dec len min.commute)
qed

lemma finite_chain: "finite {p. find (\<lambda>n. mn_ptr n = p) ns \<noteq> None}"
  by (rule finite_subset [of _ "mn_ptr ` set ns"]) (auto simp: find_None_iff)

lemma mem_lookup_dom:
  "mem_invar tbl \<Longrightarrow> dom (mem_lookup tbl) = (\<Union>i < MEM_HASH_SIZE. mn_ptr ` set (tbl i))"
proof (intro equalityI subsetI)
  fix p
  assume "p \<in> dom (mem_lookup tbl)"
  then obtain n where "n \<in> set (tbl (hash_ptr p))" "mn_ptr n = p"
    by (auto simp: mem_lookup_def find_Some_iff) (metis nth_mem)
  with hash_ptr_less [of p] show "p \<in> (\<Union>i < MEM_HASH_SIZE. mn_ptr ` set (tbl i))" by blast
next
  fix p
  assume inv: "mem_invar tbl" and "p \<in> (\<Union>i < MEM_HASH_SIZE. mn_ptr ` set (tbl i))"
  then obtain i n where n: "n \<in> set (tbl i)" "mn_ptr n = p" by blast
  with inv have "hash_ptr p = i" by (auto simp: mem_invar_def)
  with n show "p \<in> dom (mem_lookup tbl)" by (auto simp: mem_lookup_None domIff)
qed

lemma mem_leak_count_exact_parts:
  assumes "mem_invar tbl"
  shows "mem_leak_count tbl = card (dom (mem_lookup tbl))"
    and "mn_ptr n \<noteq> 0 \<Longrightarrow> mem_lookup tbl (mn_ptr n) = None \<Longrightarrow>
      mem_lookup (snd (mem_free (mn_ptr n) (mem_track n tbl))) = mem_lookup tbl"
proof -
  have dist: "distinct (map mn_ptr (tbl i))" for i using assms by (simp add: mem_invar_def)
  have card: "card (mn_ptr ` set (tbl i)) = length (tbl i)" for i
    using distinct_card [OF dist [of i]] by simp
  have home: "p \<in> mn_ptr ` set (tbl i) \<Longrightarrow> hash_ptr p = i" for p i
    using assms by (auto simp: mem_invar_def)
  have disj: "mn_ptr ` set (tbl i) \<inter> mn_ptr ` set (tbl j) = {}" if "i \<noteq> j" for i j
    using home [of _ i] home [of _ j] that by blast
  have sum: "card (\<Union>i < N. mn_ptr ` set (tbl i)) = (\<Sum>i < N. length (tbl i))" for N
    by (subst card_UN_disjoint) (simp_all add: card disj)
  have upt: "sum_list (map (\<lambda>i. length (tbl i)) [0..<N]) = (\<Sum>i < N. length (tbl i))" for N
    by (simp add: sum_list_distinct_conv_sum_set lessThan_atLeast0)
  have "mem_leak_count tbl = (\<Sum>i < MEM_HASH_SIZE. length (tbl i))"
    unfolding mem_leak_count_def by (rule upt)
  also have "\<dots> = card (\<Union>i < MEM_HASH_SIZE. mn_ptr ` set (tbl i))" by (rule sum [symmetric])
  finally show "mem_leak_count tbl = card (dom (mem_lookup tbl))"
    by (simp only: mem_lookup_dom [OF assms])
  show "mn_ptr n \<noteq> 0 \<Longrightarrow> mem_lookup tbl (mn_ptr n) = None \<Longrightarrow>
      mem_lookup (snd (mem_free (mn_ptr n) (mem_track n tbl))) = mem_lookup tbl"
    using mt.release_track [OF assms] by blast
qed

text \<open>
  The leak report is exact: on a well-formed table the count of \<open>mem_cleanup\<close> is the
  number of addresses that are allocated and not freed, and allocating a fresh block and
  freeing it again leaves both the table's contents and the count as they were.
\<close>

theorem mem_leak_count_exact:
  assumes "mem_invar tbl"
  shows "mem_leak_count tbl = card (dom (mem_lookup tbl)) \<and>
    (mn_ptr n \<noteq> 0 \<longrightarrow> mem_lookup tbl (mn_ptr n) = None \<longrightarrow> mem_lookup (snd (mem_free (mn_ptr n) (mem_track n tbl))) = mem_lookup tbl)"
  using mem_leak_count_exact_parts [OF assms] by blast

theorem mem_leak_count_exact_witness:
  "mem_leak_count (\<lambda>_. []) = card (dom (mem_lookup (\<lambda>_. []))) \<and>
   mem_lookup (snd (mem_free 16 (mem_track
      \<lparr>mn_ptr = 16, mn_size = 8, mn_file = ''link.c'', mn_func = ''Link_new'', mn_line = 69\<rparr> (\<lambda>_. []))))
    = mem_lookup (\<lambda>_. [])"
proof -
  have inv: "mem_invar (\<lambda>_. [])" by (simp add: mem_invar_def)
  show ?thesis
    using mem_leak_count_exact [OF inv, of
        "\<lparr>mn_ptr = 16, mn_size = 8, mn_file = ''link.c'', mn_func = ''Link_new'', mn_line = 69\<rparr>"]
    by (simp add: mem_lookup_def)
qed

end
