(* ===== verification/LinkNames.thy ===== *)
theory LinkNames
  imports Util
begin

text \<open>
  \<open>src/link.c\<close> and \<open>src/link.h\<close>, the link names: the \<open>LinkType\<close> enumeration, the
  classification of a relative \<open>href\<close> (\<open>linkname_to_LinkType\<close>), the comparison of two
  names up to one trailing slash (\<open>link_linknames_equal\<close>), and the string hash that must
  agree with it (\<open>link_hash_str\<close>).
\<close>

section \<open>\<open>LinkType\<close>\<close>

text \<open>
  The enumeration, and a value outside it, which only a corrupted table file can supply.
\<close>

datatype LinkType =
    LINK_HEAD | LINK_DIR | LINK_FILE | LINK_INVALID
  | LINK_UNINITIALISED_FILE | LINK_UNINITIALISED_DIR
  | LINK_UNKNOWN int

fun LinkType_code :: "LinkType \<Rightarrow> int" where
  "LinkType_code LINK_HEAD = 72"
| "LinkType_code LINK_DIR = 68"
| "LinkType_code LINK_FILE = 70"
| "LinkType_code LINK_INVALID = 73"
| "LinkType_code LINK_UNINITIALISED_FILE = 85"
| "LinkType_code LINK_UNINITIALISED_DIR = 86"
| "LinkType_code (LINK_UNKNOWN i) = i"

definition LinkType_of_code :: "int \<Rightarrow> LinkType" where
  "LinkType_of_code i =
    (if i = 72 then LINK_HEAD else if i = 68 then LINK_DIR else if i = 70 then LINK_FILE
     else if i = 73 then LINK_INVALID else if i = 85 then LINK_UNINITIALISED_FILE
     else if i = 86 then LINK_UNINITIALISED_DIR else LINK_UNKNOWN i)"

definition LinkType_enum :: "LinkType \<Rightarrow> bool" where
  "LinkType_enum t \<longleftrightarrow> (\<forall>i. t \<noteq> LINK_UNKNOWN i)"

lemma LinkType_of_code_code: "LinkType_enum t \<Longrightarrow> LinkType_of_code (LinkType_code t) = t"
  by (cases t) (simp_all add: LinkType_of_code_def LinkType_enum_def)

lemma LinkType_code_of_code: "LinkType_code (LinkType_of_code i) = i"
  by (simp add: LinkType_of_code_def)

section \<open>\<open>linkname_to_LinkType\<close>\<close>

definition linkname_to_LinkType :: "cstr \<Rightarrow> LinkType" where
  "linkname_to_LinkType linkname =
    (if c_at linkname 0 = CHR 0x00 \<or> c_at linkname 0 = slash then LINK_INVALID
     else if \<not> list_all c_isprint linkname then LINK_INVALID
     else if (case strchr linkname slash of
                None \<Rightarrow> False
              | Some i \<Rightarrow> int i \<noteq> int (strnlen linkname NAME_MAX) - 1) then LINK_INVALID
     else if c_at linkname (strnlen linkname NAME_MAX - 1) = slash then LINK_UNINITIALISED_DIR
     else LINK_UNINITIALISED_FILE)"

text \<open>
  The names the classification accepts: nonempty, printable, and with a slash nowhere but
  at the end.
\<close>

lemma linkname_valid_cases:
  assumes "linkname_to_LinkType s \<noteq> LINK_INVALID" and "length s \<le> NAME_MAX"
  shows "s \<noteq> []" and "list_all c_isprint s" and "slash \<notin> set (butlast s)"
    and "linkname_to_LinkType s =
      (if last s = slash then LINK_UNINITIALISED_DIR else LINK_UNINITIALISED_FILE)"
proof -
  show ne: "s \<noteq> []" using assms(1) by (auto simp: linkname_to_LinkType_def)
  show "list_all c_isprint s"
    using assms(1) unfolding linkname_to_LinkType_def by (metis (full_types))
  have len: "strnlen s NAME_MAX = length s" using assms(2) by (simp add: strnlen_def)
  have c: "case strchr s slash of None \<Rightarrow> True | Some i \<Rightarrow> i = length s - 1"
  proof (cases "strchr s slash")
    case (Some i)
    have "int i = int (length s) - 1"
      using assms(1) Some len unfolding linkname_to_LinkType_def by (simp split: if_split_asm)
    with Some show ?thesis by simp
  qed simp
  show "slash \<notin> set (butlast s)"
  proof (cases "strchr s slash")
    case None
    then show ?thesis by (auto simp: strchr_None dest: in_set_butlastD)
  next
    case (Some i)
    with c have "i = length s - 1" by simp
    with strchr_Some [OF Some] show ?thesis by (simp add: butlast_conv_take)
  qed
  show "linkname_to_LinkType s =
      (if last s = slash then LINK_UNINITIALISED_DIR else LINK_UNINITIALISED_FILE)"
    using assms(1) ne len unfolding linkname_to_LinkType_def
    by (simp add: last_conv_nth split: if_split_asm)
qed

section \<open>\<open>link_linknames_equal\<close>\<close>

text \<open>The comparison of two strings that are not NULL.\<close>

definition linknames_equal :: "cstr \<Rightarrow> cstr \<Rightarrow> bool" where
  "linknames_equal str_a str_b =
    (let len_a = strnlen str_a NAME_MAX;
         len_b = strnlen str_b NAME_MAX;
         max_len = max len_a len_b;
         comp_len = min len_a len_b
     in if max_len - comp_len > 1 then False
        else if comp_len \<noteq> 0 then
          (if strncmp_eq str_a str_b comp_len then
             (if len_a = len_b then True
              else (let longer_str = (if len_a > len_b then str_a else str_b)
                    in c_at longer_str comp_len = slash))
           else False)
        else False)"

definition link_linknames_equal :: "cstr option \<Rightarrow> cstr option \<Rightarrow> bool" where
  "link_linknames_equal str_a str_b =
    (case (str_a, str_b) of
       (Some a, Some b) \<Rightarrow> linknames_equal a b
     | _ \<Rightarrow> False)"

lemma linknames_equal_sym: "linknames_equal a b = linknames_equal b a"
  by (auto simp: linknames_equal_def Let_def strncmp_eq_def min.commute max.commute)

lemma linknames_equal_refl: "a \<noteq> [] \<Longrightarrow> linknames_equal a a"
  by (simp add: linknames_equal_def strnlen_def strncmp_eq_def)

text \<open>The relation in closed form, on the parts of the names that are looked at.\<close>

lemma linknames_equal_iff:
  "linknames_equal a b \<longleftrightarrow>
    (let a' = take NAME_MAX a; b' = take NAME_MAX b
     in a' \<noteq> [] \<and> b' \<noteq> [] \<and> (a' = b' \<or> a' = b' @ [slash] \<or> b' = a' @ [slash]))"
proof -
  define a' where "a' = take NAME_MAX a"
  define b' where "b' = take NAME_MAX b"
  have la: "strnlen a NAME_MAX = length a'" and lb: "strnlen b NAME_MAX = length b'"
    by (simp_all add: a'_def b'_def strnlen_def)
  have at_a: "c_at a i = a' ! i" "take i a = take i a'" if "i < length a'" for i
    using that by (simp_all add: a'_def min_absorb1)
  have at_b: "c_at b i = b' ! i" "take i b = take i b'" if "i < length b'" for i
    using that by (simp_all add: b'_def min_absorb1)
  have full: "take (length a') a = a'" "take (length b') b = b'"
    by (cases "length a \<le> NAME_MAX"; simp add: a'_def)
      (cases "length b \<le> NAME_MAX"; simp add: b'_def)
  have one: "ys = xs @ [slash] \<longleftrightarrow> take (length xs) ys = xs \<and> ys ! length xs = slash"
    if "length ys = Suc (length xs)" for xs ys :: cstr
    using that by (metis append_eq_conv_conj id_take_nth_drop lessI drop_all order_refl nth_append_length)
  consider "length a' = length b'" | "length a' = Suc (length b')" | "length b' = Suc (length a')"
    | "length a' > Suc (length b')" | "length b' > Suc (length a')" by linarith
  then show ?thesis
  proof cases
    case 1
    have t: "take (length b') a = a'" using full(1) 1 by simp
    have n: "a' \<noteq> b' @ [slash]" "b' \<noteq> a' @ [slash]" using 1 by auto
    have "linknames_equal a b \<longleftrightarrow> b' \<noteq> [] \<and> a' = b'"
      by (simp add: linknames_equal_def Let_def la lb 1 strncmp_eq_def t full(2))
    with n show ?thesis
      by (auto simp: Let_def a'_def [symmetric] b'_def [symmetric])
  next
    case 2
    then show ?thesis
      using one [of a' b'] at_a [of "length b'"] full(2)
      by (auto simp: linknames_equal_def Let_def la lb strncmp_eq_def a'_def [symmetric]
          b'_def [symmetric])
  next
    case 3
    then show ?thesis
      using one [of b' a'] at_b [of "length a'"] full(1)
      by (auto simp: linknames_equal_def Let_def la lb strncmp_eq_def a'_def [symmetric]
          b'_def [symmetric])
  next
    case 4
    then show ?thesis
      by (auto simp: linknames_equal_def Let_def la lb a'_def [symmetric] b'_def [symmetric])
  next
    case 5
    then show ?thesis
      by (auto simp: linknames_equal_def Let_def la lb a'_def [symmetric] b'_def [symmetric])
  qed
qed

section \<open>\<open>link_hash_str\<close>\<close>

text \<open>The loop that drops the trailing slashes: the length that remains.\<close>

fun strip_slashes :: "cstr \<Rightarrow> nat \<Rightarrow> nat" where
  "strip_slashes str 0 = 0"
| "strip_slashes str (Suc n) = (if str ! n = slash then strip_slashes str n else Suc n)"

definition hash_step :: "32 word \<Rightarrow> char \<Rightarrow> 32 word" where
  "hash_step hash c = (push_bit 5 hash + hash) + word_of_nat (of_char c)"

definition link_hash_str :: "cstr \<Rightarrow> 32 word" where
  "link_hash_str str =
    (let len = strip_slashes str (strnlen str NAME_MAX)
     in foldl hash_step 5381 (take len str))"

lemma strip_slashes_le: "strip_slashes s n \<le> n"
  by (induction n) auto

lemma strip_slashes_take: "n \<le> m \<Longrightarrow> strip_slashes (take m s) n = strip_slashes s n"
  by (induction n) auto

lemma strip_slashes_append: "n \<le> length s \<Longrightarrow> strip_slashes (s @ t) n = strip_slashes s n"
  by (induction n) (auto simp: nth_append)

lemma link_hash_str_take: "link_hash_str s = link_hash_str (take NAME_MAX s)"
proof -
  have "take (strip_slashes s (strnlen s NAME_MAX)) s
      = take (strip_slashes s (strnlen s NAME_MAX)) (take NAME_MAX s)"
    using order_trans [OF strip_slashes_le strnlen_le(1) [of s NAME_MAX], of s]
    by (simp add: min_absorb1)
  then show ?thesis
    by (simp add: link_hash_str_def Let_def strip_slashes_take strnlen_def)
qed

lemma link_hash_str_slash:
  assumes "length s < NAME_MAX"
  shows "link_hash_str (s @ [slash]) = link_hash_str s"
proof -
  have "strnlen (s @ [slash]) NAME_MAX = Suc (length s)" "strnlen s NAME_MAX = length s"
    using assms by (simp_all add: strnlen_def)
  then show ?thesis
    using strip_slashes_le [of s "length s"]
    by (simp add: link_hash_str_def Let_def strip_slashes_append)
qed

text \<open>The law the hash set depends on: names that compare equal have the same hash.\<close>

lemma linknames_equal_hash:
  assumes "linknames_equal a b"
  shows "link_hash_str a = link_hash_str b"
proof -
  define a' where "a' = take NAME_MAX a"
  define b' where "b' = take NAME_MAX b"
  from assms consider "a' = b'" | "a' = b' @ [slash]" | "b' = a' @ [slash]"
    by (auto simp: linknames_equal_iff Let_def a'_def b'_def)
  then have "link_hash_str a' = link_hash_str b'"
  proof cases
    case 2
    have "length a' \<le> NAME_MAX" by (simp add: a'_def)
    with 2 show ?thesis by (simp add: link_hash_str_slash)
  next
    case 3
    have "length b' \<le> NAME_MAX" by (simp add: b'_def)
    with 3 show ?thesis by (simp add: link_hash_str_slash)
  qed simp
  then show ?thesis by (simp add: a'_def b'_def link_hash_str_take [symmetric])
qed

section \<open>Properties\<close>

text \<open>
  \<open>linkname_to_LinkType\<close> on a name that fits \<open>NAME_MAX\<close>: a name is a candidate for the
  table exactly when it is nonempty, printable and has no slash except possibly at its end,
  and that last slash alone decides between directory and file.
\<close>

theorem linkname_to_LinkType_spec:
  assumes "length s \<le> NAME_MAX"
  shows "linkname_to_LinkType s =
    (if s = [] \<or> \<not> list_all c_isprint s \<or> slash \<in> set (butlast s) \<or> s = [slash]
     then LINK_INVALID
     else if last s = slash then LINK_UNINITIALISED_DIR else LINK_UNINITIALISED_FILE)"
proof (cases "linkname_to_LinkType s = LINK_INVALID")
  case False
  moreover have "s \<noteq> [slash]" using False by (auto simp: linkname_to_LinkType_def)
  ultimately show ?thesis using linkname_valid_cases [OF False assms] by simp
next
  case True
  show ?thesis
  proof (rule ccontr)
    assume "\<not> ?thesis"
    with True have ok: "s \<noteq> []" "list_all c_isprint s" "slash \<notin> set (butlast s)" "s \<noteq> [slash]"
      by (auto split: if_splits)
    have len: "strnlen s NAME_MAX = length s" using assms by (simp add: strnlen_def)
    have hd: "s ! 0 \<noteq> slash" "s ! 0 \<noteq> CHR 0x00"
    proof -
      show "s ! 0 \<noteq> slash"
        using ok(1,3,4) by (cases s) (auto split: if_splits)
      show "s ! 0 \<noteq> CHR 0x00" using ok(1,2) by (cases s) (auto simp: c_isprint_def)
    qed
    have "case strchr s slash of None \<Rightarrow> True | Some i \<Rightarrow> int i = int (length s) - 1"
    proof (cases "strchr s slash")
      case (Some i)
      from strchr_Some [OF this] have i: "i < length s" "s ! i = slash" by auto
      have "\<not> i < length s - 1"
        using ok(3) i(2) by (metis length_butlast nth_butlast nth_mem)
      with i(1) Some show ?thesis by simp
    qed simp
    with True ok hd len show False
      by (auto simp: linkname_to_LinkType_def split: if_splits option.splits)
  qed
qed

theorem linkname_to_LinkType_spec_witness:
  "linkname_to_LinkType ''dir/'' =
    (if ''dir/'' = [] \<or> \<not> list_all c_isprint ''dir/'' \<or> slash \<in> set (butlast ''dir/'') \<or> ''dir/'' = [slash]
     then LINK_INVALID
     else if last ''dir/'' = slash then LINK_UNINITIALISED_DIR else LINK_UNINITIALISED_FILE)"
  by (rule linkname_to_LinkType_spec) simp

lemma link_hash_respects_equality_parts:
  assumes "link_linknames_equal (Some a) (Some b)"
  shows "link_hash_str a = link_hash_str b" and "link_linknames_equal (Some b) (Some a)"
    and "length a + 2 \<le> NAME_MAX \<Longrightarrow> link_linknames_equal (Some a) (Some (a @ [slash]))"
    and "length a + 2 \<le> NAME_MAX \<Longrightarrow> \<not> link_linknames_equal (Some a) (Some (a @ [slash, slash]))"
proof -
  have eq: "linknames_equal a b" using assms by (simp add: link_linknames_equal_def)
  show "link_hash_str a = link_hash_str b" by (rule linknames_equal_hash [OF eq])
  show "link_linknames_equal (Some b) (Some a)"
    using eq by (simp add: link_linknames_equal_def linknames_equal_sym)
  from eq have "a \<noteq> []" by (auto simp: linknames_equal_iff)
  then show "length a + 2 \<le> NAME_MAX \<Longrightarrow> link_linknames_equal (Some a) (Some (a @ [slash]))"
    and "length a + 2 \<le> NAME_MAX \<Longrightarrow> \<not> link_linknames_equal (Some a) (Some (a @ [slash, slash]))"
    by (simp_all add: link_linknames_equal_def linknames_equal_iff)
qed

text \<open>
  The comparison and the hash agree: names that \<open>link_linknames_equal\<close> identifies have
  the same \<open>link_hash_str\<close>, so a duplicate is always looked for in the right chain; and the
  comparison identifies a nonempty name with itself and with its form with one slash added,
  but never with two.
\<close>

theorem link_hash_respects_equality:
  assumes "link_linknames_equal (Some a) (Some b)"
  shows "link_hash_str a = link_hash_str b \<and>
    link_linknames_equal (Some b) (Some a) \<and>
    (length a + 2 \<le> NAME_MAX \<longrightarrow> link_linknames_equal (Some a) (Some (a @ [slash]))) \<and>
    (length a + 2 \<le> NAME_MAX \<longrightarrow> \<not> link_linknames_equal (Some a) (Some (a @ [slash, slash])))"
  using link_hash_respects_equality_parts [OF assms] by blast

theorem link_hash_respects_equality_witness:
  "link_hash_str ''dir'' = link_hash_str ''dir/'' \<and>
   link_linknames_equal (Some ''dir'') (Some (''dir'' @ [slash])) \<and>
   \<not> link_linknames_equal (Some ''dir'') (Some (''dir'' @ [slash, slash]))"
proof -
  have h: "link_linknames_equal (Some ''dir'') (Some ''dir/'')"
    by (simp add: link_linknames_equal_def linknames_equal_iff)
  show ?thesis
    using link_hash_respects_equality [OF h, THEN conjunct1, rule_format] link_hash_respects_equality [OF h, THEN conjunct2, THEN conjunct2, THEN conjunct1, rule_format]
      link_hash_respects_equality [OF h, THEN conjunct2, THEN conjunct2, THEN conjunct2, rule_format] by simp
qed

end
