(* ===== verification/LinkHashSet.thy ===== *)
theory LinkHashSet
  imports LinkNames
begin

text \<open>
  \<open>src/link.c\<close>, \<open>struct LinkHashSet\<close>: the open-addressing hash set that removes duplicate
  names from a directory listing.  The bucket array is a list of optional strings; both
  probing loops carry fuel equal to the capacity, which \<open>probe_free_enough\<close> and
  \<open>probe_add_enough\<close> show to be enough whenever a bucket is free.  The capacity is a power
  of two, so the code's \<open>& (capacity - 1)\<close> is a remainder.
\<close>

unbundle bit_operations_syntax

record LinkHashSet =
  buckets :: "cstr option list"
  capacity :: int
  hs_size :: int

section \<open>Operations\<close>

text \<open>The loop \<open>while (power < capacity && power < (1 << 30)) power <<= 1\<close>, from \<open>2 ^ k\<close>.\<close>

function next_power :: "nat \<Rightarrow> int \<Rightarrow> int" where
  "next_power k cap = (if 2 ^ k < cap \<and> (2::int) ^ k < 2 ^ 30 then next_power (Suc k) cap else 2 ^ k)"
  by pat_completeness auto
termination
proof (relation "measure (\<lambda>(k, cap). 30 - k)")
  fix k :: nat and cap :: int
  assume "2 ^ k < cap \<and> (2::int) ^ k < 2 ^ 30"
  then have "k < 30" using power_less_imp_less_exp [of "2::int" k 30] by simp
  then show "((Suc k, cap), k, cap) \<in> measure (\<lambda>(k, cap). 30 - k)" by simp
qed simp

declare next_power.simps [simp del]

definition LinkHashSet_new :: "int \<Rightarrow> LinkHashSet" where
  "LinkHashSet_new cap =
    (let cap' = (if cap \<le> 0 then 16 else next_power 0 cap)
     in \<lparr>buckets = replicate (nat cap') None, capacity = cap', hs_size = 0\<rparr>)"

text \<open>\<open>hash & (set->capacity - 1)\<close> and \<open>(bucket + 1) & (set->capacity - 1)\<close>.\<close>

definition first_bucket :: "int \<Rightarrow> cstr \<Rightarrow> nat" where
  "first_bucket cap s = unat (link_hash_str s AND word_of_int (cap - 1))"

definition next_bucket :: "int \<Rightarrow> nat \<Rightarrow> nat" where
  "next_bucket cap bucket = nat ((int bucket + 1) AND (cap - 1))"

fun probe_free :: "nat \<Rightarrow> int \<Rightarrow> cstr option list \<Rightarrow> nat \<Rightarrow> nat option" where
  "probe_free 0 cap bs bucket = None"
| "probe_free (Suc fuel) cap bs bucket =
    (if bs ! bucket \<noteq> None then probe_free fuel cap bs (next_bucket cap bucket)
     else Some bucket)"

definition rehash_one :: "int \<Rightarrow> cstr option list \<Rightarrow> cstr \<Rightarrow> cstr option list option" where
  "rehash_one cap bs s =
    map_option (\<lambda>bucket. bs[bucket := Some s]) (probe_free (nat cap) cap bs (first_bucket cap s))"

fun rehash :: "int \<Rightarrow> cstr option list \<Rightarrow> cstr option list \<Rightarrow> cstr option list option" where
  "rehash cap bs [] = Some bs"
| "rehash cap bs (None # old) = rehash cap bs old"
| "rehash cap bs (Some s # old) =
    Option.bind (rehash_one cap bs s) (\<lambda>bs'. rehash cap bs' old)"

text \<open>The capacity overflow is fatal.\<close>

definition LinkHashSet_resize :: "LinkHashSet \<Rightarrow> LinkHashSet option" where
  "LinkHashSet_resize hs =
    (if capacity hs \<le> 0 then Some hs
     else if capacity hs > INT_MAX div 2 then None
     else (let cap = capacity hs * 2
           in map_option (\<lambda>bs. hs\<lparr>capacity := cap, buckets := bs\<rparr>)
                (rehash cap (replicate (nat cap) None) (buckets hs))))"

text \<open>The probing loop of \<open>LinkHashSet_add\<close>: a duplicate, or the first free bucket.\<close>

datatype probe = Duplicate | Free nat

fun probe_add :: "nat \<Rightarrow> int \<Rightarrow> cstr option list \<Rightarrow> cstr \<Rightarrow> nat \<Rightarrow> probe option" where
  "probe_add 0 cap bs linkname bucket = None"
| "probe_add (Suc fuel) cap bs linkname bucket =
    (if bs ! bucket \<noteq> None then
       (if link_linknames_equal (bs ! bucket) (Some linkname) then Some Duplicate
        else probe_add fuel cap bs linkname (next_bucket cap bucket))
     else Some (Free bucket))"

definition LinkHashSet_insert :: "LinkHashSet \<Rightarrow> cstr \<Rightarrow> (int \<times> LinkHashSet) option" where
  "LinkHashSet_insert hs linkname =
    (case probe_add (nat (capacity hs)) (capacity hs) (buckets hs) linkname
            (first_bucket (capacity hs) linkname) of
       None \<Rightarrow> None
     | Some Duplicate \<Rightarrow> Some (0, hs)
     | Some (Free bucket) \<Rightarrow>
         Some (1, hs\<lparr>buckets := (buckets hs)[bucket := Some linkname],
                      hs_size := hs_size hs + 1\<rparr>))"

definition LinkHashSet_add :: "LinkHashSet \<Rightarrow> cstr \<Rightarrow> (int \<times> LinkHashSet) option" where
  "LinkHashSet_add hs linkname =
    (if capacity hs \<le> 0 then Some (0, hs)
     else if hs_size hs \<ge> capacity hs div 2 then
       Option.bind (LinkHashSet_resize hs) (\<lambda>hs'. LinkHashSet_insert hs' linkname)
     else LinkHashSet_insert hs linkname)"

text \<open>\<open>LinkHashSet_free\<close> releases exactly the stored strings, in bucket order.\<close>

definition LinkHashSet_free :: "LinkHashSet \<Rightarrow> cstr list" where
  "LinkHashSet_free hs = List.map_filter id (buckets hs)"

section \<open>The probe sequence\<close>

definition members :: "LinkHashSet \<Rightarrow> cstr set" where
  "members hs = {s. Some s \<in> set (buckets hs)}"

definition occupied :: "cstr option list \<Rightarrow> nat" where
  "occupied bs = cnt (\<lambda>b. b \<noteq> None) bs"

text \<open>Every stored name is reached from its first bucket through occupied buckets.\<close>

definition chains :: "nat \<Rightarrow> cstr option list \<Rightarrow> bool" where
  "chains n bs \<longleftrightarrow>
    (\<forall>i s. i < n \<and> bs ! i = Some s \<longrightarrow>
       (\<exists>d < n. i = (unat (link_hash_str s) + d) mod n \<and>
          (\<forall>j < d. bs ! ((unat (link_hash_str s) + j) mod n) \<noteq> None)))"

definition hs_shape :: "nat \<Rightarrow> int \<Rightarrow> cstr option list \<Rightarrow> bool" where
  "hs_shape k cap bs \<longleftrightarrow> cap = 2 ^ k \<and> k \<le> 30 \<and> length bs = 2 ^ k \<and> chains (2 ^ k) bs"

definition hs_inv :: "LinkHashSet \<Rightarrow> bool" where
  "hs_inv hs \<longleftrightarrow>
    (\<exists>k. hs_shape k (capacity hs) (buckets hs)) \<and>
    hs_size hs = int (occupied (buckets hs)) \<and> hs_size hs \<le> capacity hs div 2"

lemma next_bucket_mod: "cap = 2 ^ k \<Longrightarrow> next_bucket cap b = (b + 1) mod 2 ^ k"
proof -
  assume "cap = 2 ^ k"
  then have "(int b + 1) AND (cap - 1) = (int b + 1) mod 2 ^ k"
    by (simp add: mask_eq_exp_minus_1 [symmetric] take_bit_eq_mask [symmetric] take_bit_eq_mod)
  also have "\<dots> = int ((b + 1) mod 2 ^ k)" by (simp add: zmod_int add.commute)
  finally show ?thesis by (simp add: next_bucket_def)
qed

lemma first_bucket_mod:
  assumes "cap = 2 ^ k" "k \<le> 30"
  shows "first_bucket cap s = unat (link_hash_str s) mod 2 ^ k"
proof -
  have "(word_of_int (cap - 1) :: 32 word) = mask k"
    using assms by (simp add: mask_eq_exp_minus_1)
  then have "first_bucket cap s = unat (take_bit k (link_hash_str s))"
    by (simp add: first_bucket_def take_bit_eq_mask)
  also have "\<dots> = take_bit k (unat (link_hash_str s))" by (rule unsigned_take_bit_eq)
  finally show ?thesis by (simp add: take_bit_eq_mod)
qed

lemma probe_add_find:
  assumes cap: "cap = 2 ^ k" and free: "bs ! ((a + d) mod 2 ^ k) = None" "d < fuel"
  shows "\<exists>r. probe_add fuel cap bs x ((a) mod 2 ^ k) = Some r \<and>
    (case r of
       Duplicate \<Rightarrow> \<exists>j y. bs ! ((a + j) mod 2 ^ k) = Some y \<and> linknames_equal y x
     | Free b \<Rightarrow> \<exists>e \<le> d. b = (a + e) mod 2 ^ k \<and> bs ! b = None \<and>
         (\<forall>j < e. \<exists>y. bs ! ((a + j) mod 2 ^ k) = Some y \<and> \<not> linknames_equal y x))"
  using free
proof (induction fuel arbitrary: a d)
  case 0
  then show ?case by simp
next
  case (Suc fuel)
  show ?case
  proof (cases "bs ! (a mod 2 ^ k)")
    case None
    then show ?thesis by (auto intro!: exI [of _ "0::nat"])
  next
    case (Some y)
    show ?thesis
    proof (cases "linknames_equal y x")
      case True
      with Some show ?thesis
        by (auto simp: link_linknames_equal_def intro!: exI [of _ "0::nat"])
    next
      case False
      from Some Suc.prems have "d \<noteq> 0" by (cases d) auto
      then obtain d' where d': "d = Suc d'" by (cases d) auto
      have step: "next_bucket cap (a mod 2 ^ k) = Suc a mod 2 ^ k"
        using next_bucket_mod [OF cap] by (simp add: mod_Suc_eq)
      from Suc.prems d' have "bs ! ((Suc a + d') mod 2 ^ k) = None" "d' < fuel" by simp_all
      from Suc.IH [OF this] obtain r where r: "probe_add fuel cap bs x (Suc a mod 2 ^ k) = Some r"
        and spec: "case r of
           Duplicate \<Rightarrow> \<exists>j y. bs ! ((Suc a + j) mod 2 ^ k) = Some y \<and> linknames_equal y x
         | Free b \<Rightarrow> \<exists>e \<le> d'. b = (Suc a + e) mod 2 ^ k \<and> bs ! b = None \<and>
             (\<forall>j < e. \<exists>y. bs ! ((Suc a + j) mod 2 ^ k) = Some y \<and> \<not> linknames_equal y x)"
        by blast
      have res: "probe_add (Suc fuel) cap bs x (a mod 2 ^ k) = Some r"
        using Some False step r by (simp add: link_linknames_equal_def)
      show ?thesis
      proof (cases r)
        case Duplicate
        with spec obtain j y where "bs ! ((Suc a + j) mod 2 ^ k) = Some y" "linknames_equal y x"
          by auto
        with Duplicate res show ?thesis by (auto intro!: exI [of _ "Suc j"])
      next
        case (Free b)
        with spec obtain e where e: "e \<le> d'" "b = (Suc a + e) mod 2 ^ k" "bs ! b = None"
          and pre: "\<forall>j < e. \<exists>y. bs ! ((Suc a + j) mod 2 ^ k) = Some y \<and> \<not> linknames_equal y x"
          by auto
        have "\<exists>y. bs ! ((a + j) mod 2 ^ k) = Some y \<and> \<not> linknames_equal y x" if "j < Suc e" for j
          using that pre Some False by (cases j) auto
        with e d' Free res show ?thesis by (auto intro!: exI [of _ "Suc e"])
      qed
    qed
  qed
qed

lemma probe_free_find:
  assumes cap: "cap = 2 ^ k" and free: "bs ! ((a + d) mod 2 ^ k) = None" "d < fuel"
  shows "\<exists>e \<le> d. probe_free fuel cap bs (a mod 2 ^ k) = Some ((a + e) mod 2 ^ k) \<and>
     bs ! ((a + e) mod 2 ^ k) = None \<and> (\<forall>j < e. bs ! ((a + j) mod 2 ^ k) \<noteq> None)"
  using free
proof (induction fuel arbitrary: a d)
  case 0
  then show ?case by simp
next
  case (Suc fuel)
  show ?case
  proof (cases "bs ! (a mod 2 ^ k)")
    case None
    then show ?thesis by (auto intro!: exI [of _ "0::nat"])
  next
    case (Some y)
    with Suc.prems have "d \<noteq> 0" by (cases d) auto
    then obtain d' where d': "d = Suc d'" by (cases d) auto
    have step: "next_bucket cap (a mod 2 ^ k) = Suc a mod 2 ^ k"
      using next_bucket_mod [OF cap] by (simp add: mod_Suc_eq)
    from Suc.prems d' have "bs ! ((Suc a + d') mod 2 ^ k) = None" "d' < fuel" by simp_all
    from Suc.IH [OF this] obtain e where e: "e \<le> d'"
      "probe_free fuel cap bs (Suc a mod 2 ^ k) = Some ((Suc a + e) mod 2 ^ k)"
      "bs ! ((Suc a + e) mod 2 ^ k) = None"
      and pre: "\<forall>j < e. bs ! ((Suc a + j) mod 2 ^ k) \<noteq> None" by blast
    have "bs ! ((a + j) mod 2 ^ k) \<noteq> None" if "j < Suc e" for j
      using that pre Some by (cases j) auto
    with e d' step Some show ?thesis by (auto intro!: exI [of _ "Suc e"])
  qed
qed

text \<open>Every bucket is at some distance below the capacity from any starting point.\<close>

lemma distance_exists:
  assumes "i < (n::nat)"
  shows "\<exists>d < n. i = (a + d) mod n"
proof (intro exI conjI)
  let ?d = "(i + (n - a mod n)) mod n"
  have n: "0 < n" using assms by simp
  show "?d < n" using n by simp
  have "(a + ?d) mod n = (a mod n + (i + (n - a mod n))) mod n" by (simp add: mod_simps)
  also have "a mod n + (i + (n - a mod n)) = i + n"
    using mod_less_divisor [OF n, of a] by simp
  finally show "i = (a + ?d) mod n" using assms by simp
qed

lemma occupied_less_free:
  assumes "occupied bs < length bs"
  shows "\<exists>i < length bs. bs ! i = None"
proof (rule ccontr)
  assume "\<not> ?thesis"
  then have "\<forall>b \<in> set bs. b \<noteq> None" by (auto simp: in_set_conv_nth)
  then have "filter (\<lambda>b. b \<noteq> None) bs = bs" by (simp add: filter_id_conv)
  with assms show False by (simp add: occupied_def cnt_def)
qed

lemma free_distance:
  assumes "hs_shape k cap bs" "occupied bs < 2 ^ k"
  shows "\<exists>d < 2 ^ k. bs ! ((a + d) mod 2 ^ k) = None"
proof -
  from assms occupied_less_free [of bs] obtain i where "i < 2 ^ k" "bs ! i = None"
    by (auto simp: hs_shape_def)
  with distance_exists [of i "2 ^ k" a] show ?thesis by auto
qed

section \<open>Storing a name\<close>

lemma chains_store:
  assumes "chains n bs" "length bs = n" "b = (unat (link_hash_str s) + e) mod n" "e < n"
    and "\<forall>j < e. bs ! ((unat (link_hash_str s) + j) mod n) \<noteq> None"
  shows "chains n (bs[b := Some s])"
  unfolding chains_def
proof (intro allI impI)
  fix i t
  assume it: "i < n \<and> bs[b := Some s] ! i = Some t"
  have n: "0 < n" using it by simp
  have keep: "bs[b := Some s] ! (x mod n) \<noteq> None" if "bs ! (x mod n) \<noteq> None" for x
    using that assms(2) n by (cases "x mod n = b") (auto simp: nth_list_update)
  show "\<exists>d<n. i = (unat (link_hash_str t) + d) mod n \<and>
      (\<forall>j<d. bs[b := Some s] ! ((unat (link_hash_str t) + j) mod n) \<noteq> None)"
  proof (cases "i = b")
    case True
    with it assms(2) have "t = s" by auto
    with True assms(3-5) keep show ?thesis by blast
  next
    case False
    with it have "bs ! i = Some t" by simp
    with it assms(1) obtain d where "d < n" "i = (unat (link_hash_str t) + d) mod n"
      "\<forall>j<d. bs ! ((unat (link_hash_str t) + j) mod n) \<noteq> None"
      unfolding chains_def by blast
    with keep show ?thesis by blast
  qed
qed

lemma hs_shape_store:
  assumes "hs_shape k cap bs" "b = (unat (link_hash_str s) + e) mod 2 ^ k" "e < 2 ^ k"
    and "\<forall>j < e. bs ! ((unat (link_hash_str s) + j) mod 2 ^ k) \<noteq> None"
  shows "hs_shape k cap (bs[b := Some s])"
  using assms chains_store [of "2 ^ k" bs b s e] by (simp add: hs_shape_def)

lemma occupied_store:
  "b < length bs \<Longrightarrow> bs ! b = None \<Longrightarrow> occupied (bs[b := Some s]) = Suc (occupied bs)"
  using cnt_update [of b bs "\<lambda>b. b \<noteq> None" "Some s"] by (simp add: occupied_def)

lemma set_store:
  "b < length bs \<Longrightarrow> bs ! b = None \<Longrightarrow>
   {s. Some s \<in> set (bs[b := Some x])} = insert x {s. Some s \<in> set bs}"
  by (auto simp: in_set_conv_nth nth_list_update) (metis option.distinct(1))+

lemma hs_shape_empty: "k \<le> 30 \<Longrightarrow> hs_shape k (2 ^ k) (replicate (2 ^ k) None)"
  by (auto simp: hs_shape_def chains_def)

lemma occupied_replicate [simp]: "occupied (replicate n None) = 0"
  by (simp add: occupied_def cnt_def)

section \<open>Creating and resizing\<close>

lemma next_power_pow: "k \<le> 30 \<Longrightarrow> \<exists>j. k \<le> j \<and> j \<le> 30 \<and> next_power k cap = 2 ^ j"
proof (induction k cap rule: next_power.induct)
  case (1 k cap)
  show ?case
  proof (cases "2 ^ k < cap \<and> (2::int) ^ k < 2 ^ 30")
    case True
    then have "Suc k \<le> 30" using power_less_imp_less_exp [of "2::int" k 30] by simp
    from "1.IH" [OF True this] True show ?thesis
      by (auto simp: next_power.simps [of k cap])
  next
    case False
    with "1.prems" show ?thesis by (auto simp: next_power.simps [of k cap])
  qed
qed

lemma next_power_ge: "cap \<le> 2 ^ 30 \<Longrightarrow> cap \<le> next_power k cap"
proof (induction k cap rule: next_power.induct)
  case (1 k cap)
  show ?case
  proof (cases "2 ^ k < cap \<and> (2::int) ^ k < 2 ^ 30")
    case True
    with "1.IH" [OF True] "1.prems" show ?thesis by (simp add: next_power.simps [of k cap])
  next
    case False
    with "1.prems" show ?thesis by (auto simp: next_power.simps [of k cap])
  qed
qed

lemma new_inv: "hs_inv (LinkHashSet_new cap)"
proof -
  obtain k where k: "k \<le> 30" "capacity (LinkHashSet_new cap) = 2 ^ k"
  proof (cases "cap \<le> 0")
    case True
    then show ?thesis using that [of 4] by (simp add: LinkHashSet_new_def Let_def)
  next
    case False
    then show ?thesis
      using that next_power_pow [of 0 cap] by (auto simp: LinkHashSet_new_def Let_def)
  qed
  have "buckets (LinkHashSet_new cap) = replicate (nat (capacity (LinkHashSet_new cap))) None"
    "hs_size (LinkHashSet_new cap) = 0"
    by (simp_all add: LinkHashSet_new_def Let_def)
  with k hs_shape_empty [OF k(1)] show ?thesis
    by (auto simp: hs_inv_def nat_power_eq)
qed

lemma new_members: "members (LinkHashSet_new cap) = {}"
  by (auto simp: members_def LinkHashSet_new_def Let_def)

lemma rehash_one_correct:
  assumes "hs_shape k cap bs" "occupied bs < 2 ^ k"
  shows "\<exists>bs'. rehash_one cap bs s = Some bs' \<and> hs_shape k cap bs' \<and>
    occupied bs' = Suc (occupied bs) \<and>
    {t. Some t \<in> set bs'} = insert s {t. Some t \<in> set bs}"
proof -
  let ?h = "unat (link_hash_str s)"
  have cap: "cap = 2 ^ k" "k \<le> 30" "length bs = 2 ^ k" using assms(1) by (auto simp: hs_shape_def)
  from free_distance [OF assms, of ?h] obtain d where
    d: "d < 2 ^ k" "bs ! ((?h + d) mod 2 ^ k) = None" by blast
  from probe_free_find [OF cap(1) d(2), of "nat cap"] d(1) cap(1) obtain e where
    e: "e \<le> d" "probe_free (nat cap) cap bs (?h mod 2 ^ k) = Some ((?h + e) mod 2 ^ k)"
    "bs ! ((?h + e) mod 2 ^ k) = None" "\<forall>j < e. bs ! ((?h + j) mod 2 ^ k) \<noteq> None"
    by (auto simp: nat_power_eq)
  let ?b = "(?h + e) mod 2 ^ k"
  have "rehash_one cap bs s = Some (bs[?b := Some s])"
    using e(2) by (simp add: rehash_one_def first_bucket_mod [OF cap(1,2)])
  moreover have "hs_shape k cap (bs[?b := Some s])"
    using hs_shape_store [OF assms(1), of ?b s e] e d(1) by simp
  ultimately show ?thesis
    using occupied_store [of ?b bs s] set_store [of ?b bs s] e(3) cap(3) by auto
qed

lemma rehash_correct:
  assumes "hs_shape k cap bs" "occupied bs + occupied old < 2 ^ k"
  shows "\<exists>bs'. rehash cap bs old = Some bs' \<and> hs_shape k cap bs' \<and>
    occupied bs' = occupied bs + occupied old \<and>
    {t. Some t \<in> set bs'} = {t. Some t \<in> set bs} \<union> {t. Some t \<in> set old}"
  using assms
proof (induction old arbitrary: bs)
  case Nil
  then show ?case by (simp add: occupied_def)
next
  case (Cons b old)
  show ?case
  proof (cases b)
    case None
    with Cons.prems Cons.IH [of bs] show ?thesis by (simp add: occupied_def)
  next
    case (Some s)
    from Cons.prems have "occupied bs < 2 ^ k" by simp
    from rehash_one_correct [OF Cons.prems(1) this, of s] obtain bs1 where
      bs1: "rehash_one cap bs s = Some bs1" "hs_shape k cap bs1"
      "occupied bs1 = Suc (occupied bs)"
      "{t. Some t \<in> set bs1} = insert s {t. Some t \<in> set bs}" by blast
    from Cons.prems(2) bs1(3) Some have "occupied bs1 + occupied old < 2 ^ k"
      by (simp add: occupied_def)
    from Cons.IH [OF bs1(2) this] bs1 Some show ?thesis by (auto simp: occupied_def)
  qed
qed

lemma resize_some:
  assumes inv: "hs_shape k (capacity hs) (buckets hs)"
    "hs_size hs = int (occupied (buckets hs))" "hs_size hs \<le> capacity hs div 2"
    and small: "\<not> capacity hs > INT_MAX div 2"
  shows "\<exists>hs'. LinkHashSet_resize hs = Some hs' \<and> hs_inv hs' \<and> members hs' = members hs \<and>
    hs_size hs' = hs_size hs \<and> capacity hs' = 2 * capacity hs"
proof -
  have cap: "capacity hs = 2 ^ k" "k \<le> 30" using inv(1) by (auto simp: hs_shape_def)
  have pos: "(0::int) < 2 ^ k" by simp
  with small cap have "(2::int) ^ k < 2 ^ 30" by simp
  then have k: "Suc k \<le> 30" using power_less_imp_less_exp [of "2::int" k 30] by simp
  have shape0: "hs_shape (Suc k) (capacity hs * 2) (replicate (nat (capacity hs * 2)) None)"
    using hs_shape_empty [OF k] cap by (simp add: nat_mult_distrib nat_power_eq mult.commute)
  have occle: "occupied (buckets hs) \<le> 2 ^ k"
  proof -
    have half: "x div 2 \<le> x" if "0 < x" for x :: int using that by arith
    have "int (occupied (buckets hs)) \<le> 2 ^ k div 2" using inv(2,3) cap by simp
    also have "\<dots> \<le> 2 ^ k" by (rule half [OF pos])
    finally have "int (occupied (buckets hs)) \<le> int (2 ^ k)" by simp
    then show ?thesis by (simp only: of_nat_le_iff)
  qed
  have "(0::nat) < 2 ^ k" by simp
  with occle have occ: "occupied (replicate (nat (capacity hs * 2)) None) + occupied (buckets hs)
      < 2 ^ Suc k" unfolding occupied_replicate power_Suc by linarith
  from rehash_correct [OF shape0 occ] obtain bs' where
    bs': "rehash (capacity hs * 2) (replicate (nat (capacity hs * 2)) None) (buckets hs) = Some bs'"
    "hs_shape (Suc k) (capacity hs * 2) bs'" "occupied bs' = occupied (buckets hs)"
    "{t. Some t \<in> set bs'} = {t. Some t \<in> set (buckets hs)}" by auto
  have "LinkHashSet_resize hs = Some (hs\<lparr>capacity := capacity hs * 2, buckets := bs'\<rparr>)"
    using small bs'(1) cap pos by (simp add: LinkHashSet_resize_def Let_def)
  with bs' inv cap occle show ?thesis by (auto simp: hs_inv_def members_def)
qed

lemma resize_correct:
  assumes "hs_shape k (capacity hs) (buckets hs)"
    "hs_size hs = int (occupied (buckets hs))" "hs_size hs \<le> capacity hs div 2"
    and "LinkHashSet_resize hs = Some hs'"
  shows "hs_inv hs' \<and> members hs' = members hs \<and> hs_size hs' = hs_size hs \<and>
    capacity hs' = 2 * capacity hs"
proof -
  have "0 < capacity hs" using assms(1) by (simp add: hs_shape_def)
  with assms(4) have "\<not> capacity hs > INT_MAX div 2"
    by (auto simp: LinkHashSet_resize_def split: if_splits)
  from resize_some [OF assms(1-3) this] assms(4) show ?thesis by auto
qed

section \<open>Adding a name\<close>

text \<open>What an addition promises: first wins, up to one trailing slash.\<close>

definition add_spec :: "cstr set \<Rightarrow> cstr \<Rightarrow> int \<Rightarrow> cstr set \<Rightarrow> bool" where
  "add_spec names x r names' \<longleftrightarrow>
    (if \<exists>y \<in> names. linknames_equal y x then r = 0 \<and> names' = names
     else r = 1 \<and> names' = insert x names)"

lemma insert_correct:
  assumes inv: "hs_shape k (capacity hs) (buckets hs)"
    "hs_size hs = int (occupied (buckets hs))" "hs_size hs < capacity hs div 2"
  shows "\<exists>r hs'. LinkHashSet_insert hs x = Some (r, hs') \<and> hs_inv hs' \<and>
    add_spec (members hs) x r (members hs')"
proof -
  let ?h = "unat (link_hash_str x)"
  let ?bs = "buckets hs"
  have cap: "capacity hs = 2 ^ k" "k \<le> 30" "length ?bs = 2 ^ k"
    using inv(1) by (auto simp: hs_shape_def)
  have "x div 2 \<le> x" if "0 \<le> x" for x :: int using that by arith
  from this [of "2 ^ k"] have "(2::int) ^ k div 2 \<le> 2 ^ k" by simp
  with inv(2,3) cap(1) have "int (occupied ?bs) < 2 ^ k" by linarith
  then have occ: "occupied ?bs < 2 ^ k" by simp
  from free_distance [OF inv(1) occ, of ?h] obtain d where
    d: "d < 2 ^ k" "?bs ! ((?h + d) mod 2 ^ k) = None" by blast
  from probe_add_find [OF cap(1) d(2), of "nat (capacity hs)" x] d(1) cap(1) obtain r where
    r: "probe_add (nat (capacity hs)) (capacity hs) ?bs x (?h mod 2 ^ k) = Some r"
    and spec: "case r of
       Duplicate \<Rightarrow> \<exists>j y. ?bs ! ((?h + j) mod 2 ^ k) = Some y \<and> linknames_equal y x
     | Free b \<Rightarrow> \<exists>e \<le> d. b = (?h + e) mod 2 ^ k \<and> ?bs ! b = None \<and>
         (\<forall>j < e. \<exists>y. ?bs ! ((?h + j) mod 2 ^ k) = Some y \<and> \<not> linknames_equal y x)"
    by (auto simp: nat_power_eq)
  have fb: "first_bucket (capacity hs) x = ?h mod 2 ^ k" by (rule first_bucket_mod [OF cap(1,2)])
  show ?thesis
  proof (cases r)
    case Duplicate
    with spec obtain j y where jy: "?bs ! ((?h + j) mod 2 ^ k) = Some y" "linknames_equal y x"
      by auto
    then have "Some y \<in> set ?bs" using cap(3) by (metis mod_less_divisor nth_mem zero_less_numeral zero_less_power)
    then have "y \<in> members hs" by (simp add: members_def)
    moreover have "LinkHashSet_insert hs x = Some (0, hs)"
      using r Duplicate fb by (simp add: LinkHashSet_insert_def)
    ultimately show ?thesis using inv jy(2) by (auto simp: hs_inv_def add_spec_def)
  next
    case (Free b)
    with spec obtain e where e: "e \<le> d" "b = (?h + e) mod 2 ^ k" "?bs ! b = None"
      and pre: "\<forall>j < e. \<exists>y. ?bs ! ((?h + j) mod 2 ^ k) = Some y \<and> \<not> linknames_equal y x"
      by auto
    have b: "b < length ?bs" using e(2) cap(3) by simp
    have new: "\<not> linknames_equal y x" if "y \<in> members hs" for y
    proof
      assume eq: "linknames_equal y x"
      from that obtain i where i: "i < 2 ^ k" "?bs ! i = Some y"
        using cap(3) by (auto simp: members_def in_set_conv_nth)
      with inv(1) obtain c where c: "c < 2 ^ k" "i = (unat (link_hash_str y) + c) mod 2 ^ k"
        "\<forall>j < c. ?bs ! ((unat (link_hash_str y) + j) mod 2 ^ k) \<noteq> None"
        unfolding hs_shape_def chains_def by blast
      note h = linknames_equal_hash [OF eq]
      show False
      proof (cases "c < e")
        case True
        with pre c(2) i(2) eq h show False by force
      next
        case False
        have "e \<noteq> c" using e(2,3) c(2) i(2) h by auto
        with False have "e < c" by simp
        with c(3) h have "?bs ! ((?h + e) mod 2 ^ k) \<noteq> None" by simp
        with e(2,3) show False by simp
      qed
    qed
    let ?hs' = "hs\<lparr>buckets := ?bs[b := Some x], hs_size := hs_size hs + 1\<rparr>"
    have "LinkHashSet_insert hs x = Some (1, ?hs')"
      using r Free fb by (simp add: LinkHashSet_insert_def)
    moreover have "hs_shape k (capacity hs) (?bs[b := Some x])"
      using hs_shape_store [OF inv(1) e(2)] e(1) d(1) pre by fastforce
    then have "hs_inv ?hs'"
      using inv(2,3) occupied_store [OF b e(3)] by (auto simp: hs_inv_def)
    moreover have "members ?hs' = insert x (members hs)"
      using set_store [OF b e(3)] by (simp add: members_def)
    ultimately show ?thesis using new by (auto simp: add_spec_def)
  qed
qed

text \<open>
  \<open>LinkHashSet_add\<close> on a well-formed set: the only failure is the fatal capacity overflow of
  a set that already holds \<open>2 ^ 29\<close> names.
\<close>

lemma add_cases:
  assumes inv: "hs_inv hs"
  shows "(LinkHashSet_add hs x = None \<and> hs_size hs \<ge> 2 ^ 29) \<or>
    (\<exists>r hs'. LinkHashSet_add hs x = Some (r, hs') \<and> hs_inv hs' \<and>
       add_spec (members hs) x r (members hs'))"
proof -
  from inv obtain k where k: "hs_shape k (capacity hs) (buckets hs)"
    and sz: "hs_size hs = int (occupied (buckets hs))" "hs_size hs \<le> capacity hs div 2"
    by (auto simp: hs_inv_def)
  have pos: "0 < capacity hs" using k by (simp add: hs_shape_def)
  show ?thesis
  proof (cases "hs_size hs \<ge> capacity hs div 2")
    case False
    then have "LinkHashSet_add hs x = LinkHashSet_insert hs x"
      using pos by (simp add: LinkHashSet_add_def)
    with insert_correct [OF k sz(1), of x] False show ?thesis by simp
  next
    case True
    then have add: "LinkHashSet_add hs x =
        Option.bind (LinkHashSet_resize hs) (\<lambda>hs'. LinkHashSet_insert hs' x)"
      using pos by (simp add: LinkHashSet_add_def)
    show ?thesis
    proof (cases "LinkHashSet_resize hs")
      case None
      with resize_some [OF k sz] have "capacity hs > INT_MAX div 2" by fastforce
      with True add None show ?thesis by simp
    next
      case (Some hs1)
      from resize_correct [OF k sz Some] have r: "hs_inv hs1" "members hs1 = members hs"
        "hs_size hs1 = hs_size hs" "capacity hs1 = 2 * capacity hs" by auto
      from r(1) obtain k1 where k1: "hs_shape k1 (capacity hs1) (buckets hs1)"
        "hs_size hs1 = int (occupied (buckets hs1))" by (auto simp: hs_inv_def)
      have "c div 2 < c" if "0 < c" for c :: int using that by arith
      from this [OF pos] have "hs_size hs1 < capacity hs1 div 2" using r(3,4) sz(2) by simp
      from insert_correct [OF k1 this, of x] add Some r(2) show ?thesis by simp
    qed
  qed
qed

lemma add_some:
  assumes "hs_inv hs" "hs_size hs < 2 ^ 29"
  shows "\<exists>r hs'. LinkHashSet_add hs x = Some (r, hs')"
  using add_cases [OF assms(1), of x] assms(2) by auto

lemma add_inv:
  assumes "hs_inv hs" "LinkHashSet_add hs x = Some (r, hs')"
  shows "hs_inv hs'"
  using add_cases [OF assms(1), of x] assms(2) by auto

lemma add_members:
  assumes "hs_inv hs" "LinkHashSet_add hs x = Some (r, hs')"
  shows "add_spec (members hs) x r (members hs')"
  using add_cases [OF assms(1), of x] assms(2) by auto

section \<open>The interface of the duplicate filter\<close>

text \<open>
  What the HTML scanner relies on: a set of names with an addition that answers whether the
  name is new up to the relation \<open>same\<close>.  Inside the locale, feeding a list of names keeps
  exactly the names no earlier kept name is \<open>same\<close> to.
\<close>

locale name_filter =
  fixes add :: "'s \<Rightarrow> 'n \<Rightarrow> (int \<times> 's) option"
    and invar :: "'s \<Rightarrow> bool"
    and names :: "'s \<Rightarrow> 'n set"
    and same :: "'n \<Rightarrow> 'n \<Rightarrow> bool"
  assumes add_invar: "invar s \<Longrightarrow> add s x = Some (r, s') \<Longrightarrow> invar s'"
    and add_old: "invar s \<Longrightarrow> add s x = Some (r, s') \<Longrightarrow> y \<in> names s \<Longrightarrow> same y x \<Longrightarrow>
      r = 0 \<and> names s' = names s"
    and add_new: "invar s \<Longrightarrow> add s x = Some (r, s') \<Longrightarrow> \<forall>y \<in> names s. \<not> same y x \<Longrightarrow>
      r = 1 \<and> names s' = insert x (names s)"
begin

lemma add_cases_names:
  assumes "invar s" "add s x = Some (r, s')"
  shows "r = 0 \<and> names s' = names s \<and> (\<exists>y \<in> names s. same y x) \<or>
    r = 1 \<and> names s' = insert x (names s) \<and> (\<forall>y \<in> names s. \<not> same y x)"
  using add_old [OF assms] add_new [OF assms] by blast

lemma add_mono: "invar s \<Longrightarrow> add s x = Some (r, s') \<Longrightarrow> names s \<subseteq> names s'"
  using add_cases_names by blast

lemma add_twice:
  assumes "invar s" "add s x = Some (r, s')" "same x x" "add s' x = Some (r', s'')"
  shows "r' = 0"
proof -
  have "\<exists>y \<in> names s'. same y x" using add_cases_names [OF assms(1,2)] assms(3) by auto
  then show ?thesis using add_old [OF add_invar [OF assms(1,2)] assms(4)] by blast
qed

end

interpretation hs: name_filter LinkHashSet_add hs_inv members linknames_equal
  by unfold_locales (auto dest: add_inv add_members simp: add_spec_def split: if_splits)

lemma capacity_ge: "0 < cap \<Longrightarrow> cap \<le> 2 ^ 30 \<Longrightarrow> cap \<le> capacity (LinkHashSet_new cap)"
  using next_power_ge [of cap 0] by (simp add: LinkHashSet_new_def Let_def)

section \<open>Properties\<close>

lemma LinkHashSet_add_correct_parts:
  assumes "hs_inv hs"
  shows "hs_size hs < 2 ^ 29 \<Longrightarrow> \<exists>r hs'. LinkHashSet_add hs x = Some (r, hs')"
    and "LinkHashSet_add hs x = Some (r, hs') \<Longrightarrow> hs_inv hs' \<and>
      (r = 0 \<longleftrightarrow> (\<exists>y \<in> members hs. link_linknames_equal (Some y) (Some x))) \<and>
      members hs' = (if r = 0 then members hs else insert x (members hs))"
proof -
  show "hs_size hs < 2 ^ 29 \<Longrightarrow> \<exists>r hs'. LinkHashSet_add hs x = Some (r, hs')"
    by (rule add_some [OF assms])
  assume add: "LinkHashSet_add hs x = Some (r, hs')"
  show "hs_inv hs' \<and>
      (r = 0 \<longleftrightarrow> (\<exists>y \<in> members hs. link_linknames_equal (Some y) (Some x))) \<and>
      members hs' = (if r = 0 then members hs else insert x (members hs))"
    using add_inv [OF assms add] hs.add_cases_names [OF assms add]
    by (auto simp: link_linknames_equal_def)
qed

text \<open>
  C34.  \<open>LinkHashSet_add\<close> refines first-wins insertion into a set of names.  On a well-formed
  set it returns (the probing loop ends) unless the set already holds \<open>2 ^ 29\<close> names; the
  result is 0 exactly when some stored name equals the new one up to a trailing slash, and
  then nothing changes; otherwise it is 1 and the name is stored; the set stays well-formed,
  also when the addition doubles and rehashes the bucket array.
\<close>

theorem LinkHashSet_add_correct:
  assumes "hs_inv hs"
  shows "(hs_size hs < 2 ^ 29 \<longrightarrow> (\<exists>r hs'. LinkHashSet_add hs x = Some (r, hs'))) \<and>
    (LinkHashSet_add hs x = Some (r, hs') \<longrightarrow> (hs_inv hs' \<and> (r = 0 \<longleftrightarrow> (\<exists>y \<in> members hs. link_linknames_equal (Some y) (Some x))) \<and> members hs' = (if r = 0 then members hs else insert x (members hs))))"
  using LinkHashSet_add_correct_parts [OF assms] by blast

theorem LinkHashSet_add_correct_witness:
  "\<exists>r hs'. LinkHashSet_add (LinkHashSet_new 2) ''a/'' = Some (r, hs') \<and> hs_inv hs' \<and>
     members hs' = {''a/''} \<and> r = 1"
proof -
  have inv: "hs_inv (LinkHashSet_new 2)" by (rule new_inv)
  have "hs_size (LinkHashSet_new 2) < 2 ^ 29" by (simp add: LinkHashSet_new_def Let_def)
  from LinkHashSet_add_correct [OF inv, THEN conjunct1, rule_format, OF this] obtain r hs' where
    add: "LinkHashSet_add (LinkHashSet_new 2) ''a/'' = Some (r, hs')" by blast
  from LinkHashSet_add_correct [OF inv, THEN conjunct2, rule_format, OF add] hs.add_cases_names [OF inv add] add
  show ?thesis by (auto simp: new_members)
qed

text \<open>
  The bucket array is always a power of two between 1 and \<open>2 ^ 30\<close>, at least the
  requested capacity when that is at most \<open>2 ^ 30\<close>, and a new set is well-formed and empty;
  so \<open>hash & (capacity - 1)\<close> is the remainder modulo the capacity and always in range.
\<close>

theorem LinkHashSet_new_capacity:
  "hs_inv (LinkHashSet_new cap) \<and> members (LinkHashSet_new cap) = {} \<and>
   (\<exists>k \<le> 30. capacity (LinkHashSet_new cap) = 2 ^ k \<and>
     first_bucket (2 ^ k) s = unat (link_hash_str s) mod 2 ^ k) \<and>
   (cap \<le> 0 \<or> cap > 2 ^ 30 \<or> cap \<le> capacity (LinkHashSet_new cap))"
proof -
  have inv: "hs_inv (LinkHashSet_new cap)" by (rule new_inv)
  then obtain k where "hs_shape k (capacity (LinkHashSet_new cap)) (buckets (LinkHashSet_new cap))"
    by (auto simp: hs_inv_def)
  then have k: "capacity (LinkHashSet_new cap) = 2 ^ k" "k \<le> 30" by (auto simp: hs_shape_def)
  have "cap \<le> 0 \<or> cap > 2 ^ 30 \<or> cap \<le> capacity (LinkHashSet_new cap)"
    using capacity_ge [of cap] by linarith
  with inv k first_bucket_mod [OF refl k(2)] show ?thesis by (auto simp: new_members)
qed

end
