(* ===== verification/Url.thy ===== *)
theory Url
  imports LinkHashSet
begin

text \<open>
  \<open>src/link.c\<close>, the URL functions: the origin of a URL and the cross-origin test that decides
  which links are external and which requests carry the user's credentials, the file name of
  an external link, the cache key of a URL, and the conversion of path-absolute links to
  relative ones.

  The percent-decoding of libcurl (\<open>curl_easy_unescape\<close>) is the argument \<open>unescape\<close>; it
  answers the decoded C string (up to a decoded NUL), or None for its NULL.
\<close>

section \<open>\<open>is_external_url\<close>\<close>

definition external_url :: "cstr \<Rightarrow> bool" where
  "external_url url =
    (strncasecmp_eq url ''http://'' 7 \<or> strncasecmp_eq url ''https://'' 8)"

definition is_external_url :: "cstr option \<Rightarrow> bool" where
  "is_external_url url = (case url of None \<Rightarrow> False | Some u \<Rightarrow> external_url u)"

section \<open>\<open>parse_origin\<close>\<close>

text \<open>The index of the first \<open>://\<close> with all three characters within the origin.\<close>

definition scheme_end :: "cstr \<Rightarrow> nat \<Rightarrow> nat option" where
  "scheme_end url origin_len =
    find (\<lambda>i. c_at url i = CHR '':'' \<and> c_at url (i + 1) = slash \<and> c_at url (i + 2) = slash)
      [0..<origin_len - 2]"

text \<open>
  The loop over the digits of the port.  The accumulator is a C \<open>int\<close>; it wraps here as it
  does with the compilers the program is built with.
\<close>

fun parse_port :: "int \<Rightarrow> cstr \<Rightarrow> int option" where
  "parse_port p_val [] = Some p_val"
| "parse_port p_val (c # cs) =
    (if 48 \<le> (of_char c :: nat) \<and> (of_char c :: nat) \<le> 57
     then parse_port (to_int32 (p_val * 10 + (int (of_char c) - 48))) cs
     else None)"

definition default_port :: "cstr \<Rightarrow> int" where
  "default_port scheme =
    (if scheme = ''http'' then 80 else if scheme = ''https'' then 443 else 0)"

definition port_colon :: "cstr \<Rightarrow> nat option" where
  "port_colon host_part =
    (let bracket_close = (if c_at host_part 0 = CHR ''['' then strchr host_part (CHR '']'') else None)
     in case bracket_close of
          Some b \<Rightarrow> map_option (\<lambda>i. b + 1 + i) (strchr (drop (b + 1) host_part) (CHR '':''))
        | None \<Rightarrow> strchr host_part (CHR '':''))"

text \<open>The scheme and the host are lowercased; \<open>None\<close> is the return value -1.\<close>

definition parse_origin :: "cstr \<Rightarrow> nat \<Rightarrow> nat \<Rightarrow> nat \<Rightarrow> (cstr \<times> cstr \<times> int) option" where
  "parse_origin url origin_len scheme_max host_max =
    (if origin_len = 0 then None
     else case scheme_end url origin_len of
       None \<Rightarrow> None
     | Some scheme_len \<Rightarrow>
         if scheme_len \<ge> scheme_max then None
         else (let scheme = map c_tolower (take scheme_len url);
                   host_part = drop (scheme_len + 3) (take origin_len url)
               in if host_part = [] then None
                  else (let pc = port_colon host_part;
                            port = (case pc of
                                      Some c \<Rightarrow> parse_port 0 (drop (c + 1) host_part)
                                    | None \<Rightarrow> Some (default_port scheme));
                            host_len = (case pc of Some c \<Rightarrow> c | None \<Rightarrow> length host_part)
                        in case port of
                             None \<Rightarrow> None
                           | Some p \<Rightarrow>
                               if host_len \<ge> host_max then None
                               else Some (scheme, map c_tolower (take host_len host_part), p))))"

section \<open>\<open>is_cross_origin\<close>\<close>

text \<open>
  The walk to the third slash, which stops at the end of the string or at a query or
  fragment: the number of slashes seen and the position reached.
\<close>

fun origin_walk :: "cstr \<Rightarrow> nat \<Rightarrow> nat \<Rightarrow> nat \<times> nat" where
  "origin_walk [] slashes pos = (slashes, pos)"
| "origin_walk (c # cs) slashes pos =
    (if slashes < 3 \<and> c \<noteq> CHR ''?'' \<and> c \<noteq> CHR ''#''
     then origin_walk cs (if c = slash then slashes + 1 else slashes) (pos + 1)
     else (slashes, pos))"

definition origin_length :: "cstr \<Rightarrow> nat option" where
  "origin_length url =
    (case origin_walk url 0 0 of (slashes, pos) \<Rightarrow>
       if slashes < 3 then
         (if external_url url then
            Some (case strpbrk url ''?#'' of Some q \<Rightarrow> q | None \<Rightarrow> length url)
          else None)
       else Some (pos - 1))"

definition is_cross_origin :: "cstr option \<Rightarrow> cstr option \<Rightarrow> bool" where
  "is_cross_origin page_url link_url =
    (case (page_url, link_url) of
       (Some page, Some link) \<Rightarrow>
         (case origin_length page of
            None \<Rightarrow> True
          | Some page_origin_len \<Rightarrow>
              (case origin_length link of
                 None \<Rightarrow> True
               | Some link_origin_len \<Rightarrow>
                   (case parse_origin page page_origin_len 32 PATH_MAX of
                      None \<Rightarrow> True
                    | Some (page_scheme, page_host, page_port) \<Rightarrow>
                        (case parse_origin link link_origin_len 32 PATH_MAX of
                           None \<Rightarrow> True
                         | Some (link_scheme, link_host, link_port) \<Rightarrow>
                             if page_scheme \<noteq> link_scheme then True
                             else if page_host \<noteq> link_host then True
                             else if page_port \<noteq> link_port then True
                             else False))))
     | _ \<Rightarrow> True)"

text \<open>The origin of a URL, as the comparison sees it.\<close>

definition url_origin :: "cstr \<Rightarrow> (cstr \<times> cstr \<times> int) option" where
  "url_origin url = Option.bind (origin_length url) (\<lambda>n. parse_origin url n 32 PATH_MAX)"

lemma is_cross_origin_iff:
  "is_cross_origin (Some p) (Some l) \<longleftrightarrow> url_origin p = None \<or> url_origin p \<noteq> url_origin l"
  by (cases "origin_length p"; cases "origin_length l";
      cases "parse_origin p (the (origin_length p)) 32 PATH_MAX";
      cases "parse_origin l (the (origin_length l)) 32 PATH_MAX")
    (auto simp: is_cross_origin_def url_origin_def)

lemma is_cross_origin_NULL [simp]: "is_cross_origin None l" "is_cross_origin p None"
  by (simp_all add: is_cross_origin_def split: option.split)

lemma is_cross_origin_bind:
  "is_cross_origin a b \<longleftrightarrow> Option.bind a url_origin = None \<or> Option.bind a url_origin \<noteq> Option.bind b url_origin"
proof (cases a)
  case (Some p)
  then show ?thesis by (cases b; cases "url_origin p") (simp_all add: is_cross_origin_iff)
qed simp

section \<open>\<open>external_url_to_filename\<close>\<close>

text \<open>The walk past the third slash: the rest of the URL.\<close>

fun skip_origin :: "nat \<Rightarrow> cstr \<Rightarrow> cstr" where
  "skip_origin slashes [] = []"
| "skip_origin slashes (c # cs) =
    (if slashes < 3 then skip_origin (if c = slash then slashes + 1 else slashes) cs
     else c # cs)"

definition strip_query :: "cstr \<Rightarrow> cstr" where
  "strip_query s = (case strpbrk s ''?#'' of Some q \<Rightarrow> take q s | None \<Rightarrow> s)"

definition strip_trailing_slash :: "cstr \<Rightarrow> cstr" where
  "strip_trailing_slash s = (if s \<noteq> [] \<and> last s = slash then butlast s else s)"

definition after_last_slash :: "cstr \<Rightarrow> cstr" where
  "after_last_slash s = (case strrchr s slash of Some i \<Rightarrow> drop (i + 1) s | None \<Rightarrow> s)"

definition external_url_to_filename :: "(cstr \<Rightarrow> cstr option) \<Rightarrow> cstr option \<Rightarrow> cstr" where
  "external_url_to_filename unescape url =
    (case url of
       None \<Rightarrow> ''''
     | Some u \<Rightarrow>
         (let p = skip_origin 0 u
          in if p = [] then ''''
             else (let filename = after_last_slash (strip_trailing_slash (strip_query p))
                   in case unescape filename of
                        None \<Rightarrow> filename
                      | Some decoded \<Rightarrow> map (\<lambda>c. if c = slash then CHR ''_'' else c) decoded)))"

lemma after_last_slash_no_slash: "slash \<notin> set (after_last_slash s)"
  by (auto simp: after_last_slash_def strrchr_None dest: strrchr_Some split: option.splits)

lemma external_filename_no_slash: "slash \<notin> set (external_url_to_filename unescape url)"
  using after_last_slash_no_slash
  by (auto simp: external_url_to_filename_def Let_def split: option.splits)

section \<open>\<open>url_to_cache_path\<close>\<close>

text \<open>The loop over the matches of \<open>strstr(p, "..")\<close>.\<close>

fun sanitize_dots :: "cstr \<Rightarrow> cstr" where
  "sanitize_dots (a # b # s) =
    (if a = CHR ''.'' \<and> b = CHR ''.'' then CHR ''_'' # CHR ''_'' # sanitize_dots s
     else a # sanitize_dots (b # s))"
| "sanitize_dots s = s"

definition sanitize_separators :: "cstr \<Rightarrow> cstr" where
  "sanitize_separators s = map (\<lambda>c. if c = slash \<or> c = CHR '':'' then CHR ''_'' else c) s"

text \<open>
  \<open>root_url\<close> is the URL of the head link of the root table, None while there is no root
  table; \<open>root_offset\<close> is \<open>ROOT_LINK_OFFSET\<close>.
\<close>

definition url_to_cache_path ::
    "(cstr \<Rightarrow> cstr option) \<Rightarrow> cstr option \<Rightarrow> int \<Rightarrow> cstr option \<Rightarrow> cstr option" where
  "url_to_cache_path unescape root_url root_offset url =
    (case url of
       None \<Rightarrow> None
     | Some u \<Rightarrow>
         if root_url \<noteq> None \<and> is_cross_origin root_url (Some u) then
           (let unescaped_path = (case unescape u of Some t \<Rightarrow> t | None \<Rightarrow> u)
            in Some (sanitize_separators (sanitize_dots unescaped_path)))
         else
           (let offset_url = (if length u \<ge> to_size root_offset then drop (to_size root_offset) u else u)
            in Some (case unescape offset_url of Some t \<Rightarrow> t | None \<Rightarrow> offset_url)))"

text \<open>Two adjacent dots.\<close>

fun has_dotdot :: "cstr \<Rightarrow> bool" where
  "has_dotdot (a # b # s) = (a = CHR ''.'' \<and> b = CHR ''.'' \<or> has_dotdot (b # s))"
| "has_dotdot s = False"

lemma has_dotdot_Cons: "a \<noteq> CHR ''.'' \<Longrightarrow> has_dotdot (a # s) = has_dotdot s"
  by (cases s) auto

lemma sanitize_dots_no_dotdot: "\<not> has_dotdot (sanitize_dots s)"
proof (induction s rule: sanitize_dots.induct)
  case (1 a b s)
  show ?case
  proof (cases "a = CHR ''.'' \<and> b = CHR ''.''")
    case True
    with 1 show ?thesis by (simp add: has_dotdot_Cons)
  next
    case False
    have "\<exists>c t. sanitize_dots (b # s) = c # t \<and> (c = b \<or> c = CHR ''_'')" by (cases s) auto
    then obtain c t where ct: "sanitize_dots (b # s) = c # t" "c = b \<or> c = CHR ''_''" by blast
    with False 1 show ?thesis by (auto split: if_splits)
  qed
qed simp_all

lemma sanitize_separators_dotdot: "has_dotdot (sanitize_separators s) = has_dotdot s"
  by (induction s rule: has_dotdot.induct) (auto simp: sanitize_separators_def)

section \<open>\<open>make_link_relative\<close>\<close>

text \<open>The walk to the slash after the host name: the slashes still to find and the rest.\<close>

fun host_slash :: "nat \<Rightarrow> cstr \<Rightarrow> nat \<times> cstr" where
  "host_slash left [] = (left, [])"
| "host_slash left (c # cs) =
    (if c = slash then (if left - 1 = 0 then (0, c # cs) else host_slash (left - 1) cs)
     else host_slash left cs)"

text \<open>The common tail, once the path of the page is known.\<close>

definition relative_to :: "cstr \<Rightarrow> cstr \<Rightarrow> cstr" where
  "relative_to page_path link_url =
    (if \<not> prefix page_path link_url then link_url
     else (let skip_len = length page_path
           in if c_at page_path (skip_len - 1) \<noteq> slash then
                (if c_at page_path skip_len \<noteq> slash then link_url
                 else drop (skip_len + 1) link_url)
              else drop skip_len link_url))"

definition make_link_relative :: "cstr \<Rightarrow> cstr \<Rightarrow> cstr" where
  "make_link_relative page_url link_url =
    (if c_at link_url 0 = CHR ''.'' \<and> c_at link_url 1 = slash then drop 2 link_url
     else if c_at link_url 0 \<noteq> slash then link_url
     else case host_slash 3 page_url of (slashes_left_to_find, rest) \<Rightarrow>
       if slashes_left_to_find \<noteq> 0 then
         (if slashes_left_to_find = 1 \<and> rest = [] then relative_to ''/'' link_url
          else link_url)
       else relative_to rest link_url)"

lemma relative_to_dir: "relative_to (d @ [slash]) ((d @ [slash]) @ name) = name"
  by (simp add: relative_to_def)

lemma relative_to_no_slash:
  "page \<noteq> [] \<Longrightarrow> last page \<noteq> slash \<Longrightarrow> relative_to page link_url = link_url"
  by (auto simp: relative_to_def Let_def c_at_def last_conv_nth)

section \<open>Truncation of a link at its first slash\<close>

text \<open>
  \<open>HTML_to_LinkTable\<close> cuts a relative link after its first slash, unless that slash belongs
  to \<open>://\<close> or is doubled.
\<close>

definition truncate_at_slash :: "cstr \<Rightarrow> cstr" where
  "truncate_at_slash s =
    (case strchr s slash of
       None \<Rightarrow> s
     | Some i \<Rightarrow>
         if i = 0 then s
         else if c_at s (i - 1) \<noteq> CHR '':'' \<and> c_at s (i + 1) \<noteq> slash then take (i + 1) s
         else s)"

section \<open>Properties\<close>

lemma same_origin_equivalence_parts:
  "is_cross_origin a b = is_cross_origin b a"
  "\<not> is_cross_origin a b \<Longrightarrow> \<not> is_cross_origin b c \<Longrightarrow> \<not> is_cross_origin a c"
  "\<not> is_cross_origin a b \<Longrightarrow> \<not> is_cross_origin a a"
  "is_cross_origin a a \<Longrightarrow> is_cross_origin a b"
  unfolding is_cross_origin_bind by metis+

text \<open>
  Same-origin is an equivalence on the URLs that have an origin: the test is symmetric
  and transitive in the accepting direction, a URL with an origin is same-origin with itself,
  and a URL without one (malformed, or NULL) is cross-origin with everything.
\<close>

theorem same_origin_equivalence:
  "is_cross_origin a b = is_cross_origin b a \<and>
    (\<not> is_cross_origin a b \<longrightarrow> \<not> is_cross_origin b c \<longrightarrow> \<not> is_cross_origin a c) \<and>
    (\<not> is_cross_origin a b \<longrightarrow> \<not> is_cross_origin a a) \<and>
    (is_cross_origin a a \<longrightarrow> is_cross_origin a b)"
  using same_origin_equivalence_parts by blast

theorem same_origin_equivalence_witness:
  "\<not> is_cross_origin (Some ''http://h/'') (Some ''HTTP://H:80?q'') \<and>
   is_cross_origin (Some ''ftp'') (Some ''http://h/'')"
proof -
  have 1: "\<not> is_cross_origin (Some ''http://h/'') (Some ''http://H:80/'')"
    and 2: "\<not> is_cross_origin (Some ''http://H:80/'') (Some ''HTTP://H:80?q'')"
    and 3: "is_cross_origin (Some ''ftp'') (Some ''ftp'')" by code_simp+
  show ?thesis
    using same_origin_equivalence [THEN conjunct2, THEN conjunct1, rule_format, OF 1 2] same_origin_equivalence [THEN conjunct2, THEN conjunct2, THEN conjunct2, rule_format, OF 3] by simp
qed

lemma external_cache_path_confined_parts:
  assumes "is_cross_origin (Some root) (Some u)"
    and "url_to_cache_path unescape (Some root) offset (Some u) = Some path"
  shows "slash \<notin> set path" and "CHR '':'' \<notin> set path" and "\<not> has_dotdot path"
proof -
  obtain t where t: "path = sanitize_separators (sanitize_dots t)"
    using assms by (auto simp: url_to_cache_path_def Let_def split: option.splits)
  show "\<not> has_dotdot path"
    by (simp only: t sanitize_separators_dotdot sanitize_dots_no_dotdot not_False_eq_True)
  show "slash \<notin> set path" "CHR '':'' \<notin> set path"
    by (auto simp: t sanitize_separators_def)
qed

text \<open>
  C40.  The cache key of an external (cross-origin) URL stays inside the cache directory
  whatever the server put into the URL and however it decodes: it contains no slash, no colon
  and no \<open>..\<close>.
\<close>

theorem external_cache_path_confined:
  assumes "is_cross_origin (Some root) (Some u)"
    and "url_to_cache_path unescape (Some root) offset (Some u) = Some path"
  shows "slash \<notin> set path \<and>
    CHR '':'' \<notin> set path \<and>
    \<not> has_dotdot path"
  using external_cache_path_confined_parts [OF assms] by blast

theorem external_cache_path_confined_witness:
  "slash \<notin> set ''http___b____etc'' \<and> \<not> has_dotdot ''http___b____etc''"
proof -
  have 1: "is_cross_origin (Some ''http://a/'') (Some ''http://b/../etc'')"
    and 2: "url_to_cache_path Some (Some ''http://a/'') 8 (Some ''http://b/../etc'') =
      Some ''http___b____etc''" by code_simp+
  show ?thesis
    using external_cache_path_confined [OF 1 2, THEN conjunct1, rule_format] external_cache_path_confined [OF 1 2, THEN conjunct2, THEN conjunct2, rule_format] by simp
qed

text \<open>
  The key of a same-origin URL is not confined that way: it is the decoded rest of the
  URL after the root, unchanged, so a percent-encoded \<open>..%2F\<close> in a link of the mounted server
  becomes a path that leaves the cache directory.
\<close>

theorem same_origin_cache_path_verbatim:
  assumes "\<not> is_cross_origin (Some root) (Some u)" and "unescape (drop (nat offset) u) = Some path"
    and "0 \<le> offset" "offset \<le> int (length u)" "length u < 2 ^ 63"
  shows "url_to_cache_path unescape (Some root) offset (Some u) = Some path"
proof -
  have "nat offset \<le> length u" "to_size offset = nat offset"
    using assms(3-5) by (auto intro!: to_size_nonneg)
  with assms(1,2) show ?thesis by (simp add: url_to_cache_path_def Let_def)
qed

theorem same_origin_cache_path_verbatim_witness:
  "\<exists>unescape. url_to_cache_path unescape (Some ''http://a/'') 8 (Some ''http://a/..%2F..%2Fx'') =
      Some ''/../../x'' \<and> has_dotdot ''/../../x''"
proof -
  have 1: "\<not> is_cross_origin (Some ''http://a/'') (Some ''http://a/..%2F..%2Fx'')" by code_simp
  have "url_to_cache_path (\<lambda>s. if s = ''/..%2F..%2Fx'' then Some ''/../../x'' else Some s)
      (Some ''http://a/'') 8 (Some ''http://a/..%2F..%2Fx'') = Some ''/../../x''"
    by (rule same_origin_cache_path_verbatim [OF 1]) simp_all
  moreover have "has_dotdot ''/../../x''" by simp
  ultimately show ?thesis by blast
qed

text \<open>
  The name of an external link is a single path component: no slash, for every URL and
  every decoder.
\<close>

theorem external_filename_single_component:
  "slash \<notin> set (external_url_to_filename unescape url)"
  by (rule external_filename_no_slash)

lemma make_link_relative_dir_parts:
  assumes "slash \<notin> set host" "slash \<notin> set scheme"
  shows "make_link_relative (scheme @ ''://'' @ host @ slash # dir @ [slash]) ((slash # dir @ [slash]) @ name) = name"
    and "make_link_relative (scheme @ ''://'' @ host @ [slash]) (slash # name) = name"
    and "make_link_relative (scheme @ ''://'' @ host) (slash # name) = name"
proof -
  have skip: "slash \<notin> set s \<Longrightarrow> host_slash n (s @ t) = host_slash n t" for s t n
    by (induction s) auto
  have *: "host_slash 3 (scheme @ ''://'' @ host @ t) = host_slash (Suc 0) t" for t
    using assms skip [of scheme 3] skip [of host "Suc 0"] by (simp add: eval_nat_numeral)
  show "make_link_relative (scheme @ ''://'' @ host @ slash # dir @ [slash]) ((slash # dir @ [slash]) @ name) = name"
    using * [of "slash # dir @ [slash]"] relative_to_dir [of "slash # dir" name]
    by (simp add: make_link_relative_def)
  show "make_link_relative (scheme @ ''://'' @ host @ [slash]) (slash # name) = name"
    using * [of "[slash]"] relative_to_dir [of "[]" name] by (simp add: make_link_relative_def)
  show "make_link_relative (scheme @ ''://'' @ host) (slash # name) = name"
    using * [of "[]"] relative_to_dir [of "[]" name] by (simp add: make_link_relative_def)
qed

text \<open>
  \<open>make_link_relative\<close> recovers the relative name of a path-absolute link when the page's
  path ends in a slash, also at the top level of a site without a trailing slash.
\<close>

theorem make_link_relative_dir:
  assumes "slash \<notin> set host" "slash \<notin> set scheme"
  shows "make_link_relative (scheme @ ''://'' @ host @ slash # dir @ [slash]) ((slash # dir @ [slash]) @ name) = name \<and>
    make_link_relative (scheme @ ''://'' @ host @ [slash]) (slash # name) = name \<and>
    make_link_relative (scheme @ ''://'' @ host) (slash # name) = name"
  using make_link_relative_dir_parts [OF assms] by blast

theorem make_link_relative_dir_witness:
  "make_link_relative ''http://h/d/'' ''/d/f'' = ''f'' \<and> make_link_relative ''http://h'' ''/f'' = ''f''"
  using make_link_relative_dir [of "''h''" "''http''" "''d''" "''f''", THEN conjunct1, rule_format]
    make_link_relative_dir [of "''h''" "''http''" "''d''" "''f''", THEN conjunct2, THEN conjunct2, rule_format]
  by (simp add: make_link_relative_def relative_to_def)

text \<open>
  When the path of the page does not end in a slash, the branch that should skip the
  slash after it is never taken: the code looks at the terminating NUL of the page's own path,
  so every path-absolute link is returned unchanged.
\<close>

theorem make_link_relative_no_trailing_slash:
  assumes "slash \<notin> set host" "slash \<notin> set scheme" "last (slash # dir) \<noteq> slash"
  shows "make_link_relative (scheme @ ''://'' @ host @ slash # dir) (slash # link) = slash # link"
proof -
  have skip: "slash \<notin> set s \<Longrightarrow> host_slash n (s @ t) = host_slash n t" for s t n
    by (induction s) auto
  have "host_slash 3 (scheme @ ''://'' @ host @ slash # dir) = (0, slash # dir)"
    using assms skip [of scheme 3] skip [of host "Suc 0"] by (simp add: eval_nat_numeral)
  then show ?thesis
    using relative_to_no_slash [OF _ assms(3)] by (simp add: make_link_relative_def)
qed

theorem make_link_relative_no_trailing_slash_witness:
  "make_link_relative ''http://h/d'' ''/d/f'' = ''/d/f''"
  using make_link_relative_no_trailing_slash [of "''h''" "''http:''" "''d''" "''d/f''"]
    make_link_relative_no_trailing_slash [of "''h''" "''http''" "''d''" "''d/f''"] by simp

end
