(* ===== verification/Config.thy ===== *)
theory Config
  imports Util
begin

text \<open>
  \<open>src/config.c\<close> and \<open>src/log.c\<close>: the configuration record with its defaults and its clean-up,
  and the log: what \<open>lprintf\<close> prints and whether it ends the process.  The version string is a
  build-time parameter.
\<close>

datatype OperationMode = NORMAL | SONIC | SINGLE

record ConfigStruct =
  mode :: OperationMode
  log_type :: int
  http_username :: "cstr option"
  http_password :: "cstr option"
  proxy :: "cstr option"
  proxy_username :: "cstr option"
  proxy_password :: "cstr option"
  proxy_cafile :: "cstr option"
  proxy_capath :: "cstr option"
  max_conns :: int
  user_agent :: "cstr option"
  http_wait_sec :: int
  http_headers :: "cstr list"
  no_range_check :: bool
  zero_len_is_dir :: bool
  insecure_tls :: bool
  cafile :: "cstr option"
  capath :: "cstr option"
  refresh_timeout :: int
  invalid_refresh :: bool
  external_links :: bool
  cache_enabled :: bool
  cfg_cache_dir :: "cstr option"
  data_blksz :: int
  cache_min_size :: int
  cache_max_size :: int
  sonic_username :: "cstr option"
  sonic_password :: "cstr option"
  sonic_id3 :: bool
  sonic_insecure :: bool

abbreviation (input) DEFAULT_NETWORK_MAX_CONNS :: int where "DEFAULT_NETWORK_MAX_CONNS \<equiv> 6"
abbreviation (input) DEFAULT_REFRESH_TIMEOUT :: int where "DEFAULT_REFRESH_TIMEOUT \<equiv> 3600"
abbreviation (input) DEFAULT_HTTP_WAIT_SEC :: int where "DEFAULT_HTTP_WAIT_SEC \<equiv> 5"
abbreviation (input) DEFAULT_DATA_BLKSZ :: int where "DEFAULT_DATA_BLKSZ \<equiv> 8 * 1024 * 1024"

section \<open>Log levels\<close>

text \<open>The flags of \<open>LogType\<close>.\<close>

abbreviation (input) log_fatal :: int where "log_fatal \<equiv> 1"
abbreviation (input) log_error :: int where "log_error \<equiv> 2"
abbreviation (input) log_warning :: int where "log_warning \<equiv> 4"
abbreviation (input) log_info :: int where "log_info \<equiv> 8"
abbreviation (input) log_debug :: int where "log_debug \<equiv> 16"
abbreviation (input) libcurl_debug :: int where "libcurl_debug \<equiv> 256"

unbundle bit_operations_syntax

definition DEFAULT_LOG_LEVEL :: int where
  "DEFAULT_LOG_LEVEL = log_fatal OR log_error OR log_warning OR log_info"

text \<open>
  \<open>log_level_init\<close>: the value of \<open>HTTPDIRFS_LOG_LEVEL\<close>, as \<open>strtol\<close> reads it, narrowed to
  an \<open>int\<close>; without the variable the default of the build.
\<close>

definition log_level_init :: "bool \<Rightarrow> (cstr \<Rightarrow> int) \<Rightarrow> cstr option \<Rightarrow> int" where
  "log_level_init debug_build strtol10 env =
    (case env of
       Some e \<Rightarrow> to_int32 (strtol10 e)
     | None \<Rightarrow> if debug_build then DEFAULT_LOG_LEVEL OR log_debug else DEFAULT_LOG_LEVEL)"

text \<open>
  \<open>vlog_printf\<close>: what goes to the standard error.  \<open>dec\<close> and \<open>hex\<close> write a number as \<open>%d\<close> and
  \<open>%x\<close> do, and \<open>msg\<close> is the formatted message.
\<close>

definition vlog_prefix :: "(int \<Rightarrow> cstr) \<Rightarrow> int \<Rightarrow> cstr" where
  "vlog_prefix hex type =
    (if type = log_fatal then ''Fatal:''
     else if type = log_error then ''Error:''
     else if type = log_warning then ''Warning:''
     else if type = log_info then []
     else ''Debug'' @ (if type \<noteq> log_debug then ''('' @ hex type @ '')'' else []) @ '':'')"

definition vlog_printf ::
    "(int \<Rightarrow> cstr) \<Rightarrow> (int \<Rightarrow> cstr) \<Rightarrow> int \<Rightarrow> cstr \<Rightarrow> cstr \<Rightarrow> int \<Rightarrow> cstr \<Rightarrow> cstr" where
  "vlog_printf dec hex type fl func line msg =
    vlog_prefix hex type @ (if type = log_info then [] else fl @ '':'' @ dec line @ '':'') @ func @ '': '' @ msg"

definition log_printf ::
    "(int \<Rightarrow> cstr) \<Rightarrow> (int \<Rightarrow> cstr) \<Rightarrow> ConfigStruct \<Rightarrow> int \<Rightarrow> cstr \<Rightarrow> cstr \<Rightarrow> int \<Rightarrow> cstr \<Rightarrow> cstr" where
  "log_printf dec hex cfg type fl func line msg =
    (if type AND log_type cfg \<noteq> 0 then vlog_printf dec hex type fl func line msg else [])"

text \<open>It prints whatever the configured level is, and then the process exits.\<close>

definition fatal_log_printf ::
    "(int \<Rightarrow> cstr) \<Rightarrow> (int \<Rightarrow> cstr) \<Rightarrow> cstr \<Rightarrow> cstr \<Rightarrow> int \<Rightarrow> cstr \<Rightarrow> cstr" where
  "fatal_log_printf dec hex fl func line msg = vlog_printf dec hex log_fatal fl func line msg"

text \<open>The macro \<open>lprintf\<close>: the output, and whether the process exits.\<close>

definition lprintf ::
    "(int \<Rightarrow> cstr) \<Rightarrow> (int \<Rightarrow> cstr) \<Rightarrow> ConfigStruct \<Rightarrow> int \<Rightarrow> cstr \<Rightarrow> cstr \<Rightarrow> int \<Rightarrow> cstr \<Rightarrow> cstr \<times> bool" where
  "lprintf dec hex cfg type fl func line msg =
    (if type AND log_fatal \<noteq> 0 then (fatal_log_printf dec hex fl func line msg, True)
     else (log_printf dec hex cfg type fl func line msg, False))"

section \<open>Defaults and clean-up\<close>

text \<open>
  \<open>Config_init\<close> assigns every field but \<open>max_segbc\<close>, which nothing reads, and \<open>external_links\<close>,
  which keeps the zero of the static variable.
\<close>

definition Config_init :: "cstr \<Rightarrow> int \<Rightarrow> ConfigStruct" where
  "Config_init default_user_agent log_level =
    \<lparr>mode = NORMAL, log_type = log_level,
     http_username = None, http_password = None,
     proxy = None, proxy_username = None, proxy_password = None,
     proxy_cafile = None, proxy_capath = None,
     max_conns = DEFAULT_NETWORK_MAX_CONNS, user_agent = Some default_user_agent,
     http_wait_sec = DEFAULT_HTTP_WAIT_SEC, http_headers = [],
     no_range_check = False, zero_len_is_dir = False, insecure_tls = False,
     cafile = None, capath = None,
     refresh_timeout = DEFAULT_REFRESH_TIMEOUT, invalid_refresh = False,
     external_links = False,
     cache_enabled = False, cfg_cache_dir = None,
     data_blksz = DEFAULT_DATA_BLKSZ, cache_min_size = -1, cache_max_size = -1,
     sonic_username = None, sonic_password = None,
     sonic_id3 = False, sonic_insecure = False\<rparr>"

text \<open>
  \<open>Config_cleanup\<close>: \<open>FREE\<close> clears each pointer; the user agent is freed only when it is not
  the literal default.
\<close>

definition Config_cleanup :: "cstr \<Rightarrow> ConfigStruct \<Rightarrow> ConfigStruct" where
  "Config_cleanup default_user_agent cfg =
    (let cfg1 = cfg\<lparr>http_username := None, http_password := None, proxy := None,
           proxy_username := None, proxy_password := None, proxy_cafile := None,
           proxy_capath := None\<rparr>;
         cfg2 = (case user_agent cfg1 of
             Some ua \<Rightarrow> if ua \<noteq> default_user_agent then cfg1\<lparr>user_agent := None\<rparr> else cfg1
           | None \<Rightarrow> cfg1)
     in cfg2\<lparr>cafile := None, capath := None, cfg_cache_dir := None,
           sonic_username := None, sonic_password := None\<rparr>)"

text \<open>The secrets of a configuration.\<close>

definition secrets :: "ConfigStruct \<Rightarrow> cstr set" where
  "secrets cfg = set_option (http_password cfg) \<union> set_option (proxy_password cfg) \<union>
     set_option (sonic_password cfg)"

lemma Config_cleanup_secrets: "secrets (Config_cleanup ua cfg) = {}"
  by (simp add: Config_cleanup_def secrets_def Let_def split: option.split)

text \<open>A message that is not fatal says where it comes from, unless it is information, and is silent below the level.\<close>

lemma lprintf_default_levels:
  assumes "log_type cfg = DEFAULT_LOG_LEVEL"
  shows "lprintf dec hex cfg log_error fl func line msg = (''Error:'' @ fl @ '':'' @ dec line @ '':'' @ func @ '': '' @ msg, False)"
    "lprintf dec hex cfg log_info fl func line msg = (func @ '': '' @ msg, False)"
    "lprintf dec hex cfg log_debug fl func line msg = ([], False)"
  using assms by (simp_all add: lprintf_def log_printf_def vlog_printf_def vlog_prefix_def DEFAULT_LOG_LEVEL_def)

lemma lprintf_exits: "snd (lprintf dec hex cfg type fl func line msg) \<longleftrightarrow> odd type"
  by (simp add: lprintf_def and_one_eq odd_iff_mod_2_eq_one)

end
