(* ===== verification/LinkTree.thy ===== *)
theory LinkTree
  imports LinkNames Config
begin

text \<open>
  \<open>src/link.c\<close>, the tree of link tables: its heap, the reference counts and the orphan flag
  that decide when a table is freed, and the resolution of a path to a link.

  A \<open>LinkTable *\<close> is a number, the key of the table in the heap; a \<open>Link *\<close> is the pair of
  its table and its position there, so \<open>link->parent_table\<close> is the first component.  A table
  that has been freed is not in the heap, and an operation that would touch it returns
  \<open>None\<close>: that a pointer is never used after its table was freed is a theorem here, not an
  assumption.  Every operation below runs under \<open>link_lock\<close>; where the code releases the
  lock in between, the parts are separate operations.
\<close>

section \<open>Data\<close>

record Sonic =
  sonic_ident :: "cstr option"
  depth :: int

type_synonym tblptr = nat
type_synonym linkptr = "tblptr \<times> nat"

record Link =
  linkname :: cstr
  linkpath :: cstr
  f_url :: cstr
  link_type :: LinkType
  content_length :: nat
  next_table :: "tblptr option"
  link_time :: int
  cache_ptr :: "nat option"
  sonic :: Sonic

record LinkTable =
  index_time :: int
  links :: "Link list"
  refcount :: int
  orphaned :: bool
  parent_tbl :: "tblptr option"
  parent_link :: "linkptr option"

text \<open>The heap: the live tables, the root table and the next address of the allocator.\<close>

record lheap =
  tables :: "tblptr \<Rightarrow> LinkTable option"
  root_tbl :: "tblptr option"
  next_addr :: nat

definition put :: "tblptr \<Rightarrow> LinkTable \<Rightarrow> lheap \<Rightarrow> lheap" where
  "put p t h = h\<lparr>tables := (tables h)(p \<mapsto> t)\<rparr>"

definition unput :: "tblptr \<Rightarrow> lheap \<Rightarrow> lheap" where
  "unput p h = h\<lparr>tables := (tables h)(p := None)\<rparr>"

text \<open>Storing into \<open>link->next_table\<close>.\<close>

definition set_next :: "linkptr \<Rightarrow> tblptr option \<Rightarrow> lheap \<Rightarrow> lheap option" where
  "set_next l q h =
    (case l of (p, i) \<Rightarrow>
      (case tables h p of
         Some t \<Rightarrow> if i < length (links t)
                   then Some (put p (t\<lparr>links := (links t)[i := (links t ! i)\<lparr>next_table := q\<rparr>]\<rparr>) h)
                   else None
       | None \<Rightarrow> None))"

section \<open>Reference counting\<close>

definition LinkTable_ref :: "tblptr option \<Rightarrow> lheap \<Rightarrow> lheap option" where
  "LinkTable_ref tbl h =
    (case tbl of
       None \<Rightarrow> Some h
     | Some p \<Rightarrow>
         (case tables h p of
            None \<Rightarrow> None
          | Some t \<Rightarrow> Some (put p (t\<lparr>refcount := refcount t + 1, orphaned := False\<rparr>) h)))"

definition LinkTable_mark_orphaned :: "tblptr option \<Rightarrow> lheap \<Rightarrow> lheap option" where
  "LinkTable_mark_orphaned tbl h =
    (case tbl of
       None \<Rightarrow> Some h
     | Some p \<Rightarrow>
         (case tables h p of
            None \<Rightarrow> None
          | Some t \<Rightarrow> Some (put p (t\<lparr>orphaned := True\<rparr>) h)))"

text \<open>
  \<open>LinkTable_free\<close> frees the sub-tables of the entries first.  The fuel bounds the nesting; an
  exhausted fuel and a table that is already free are both None.
\<close>

fun LinkTable_free :: "nat \<Rightarrow> tblptr option \<Rightarrow> lheap \<Rightarrow> lheap option"
  and LinkTable_free_entries :: "nat \<Rightarrow> Link list \<Rightarrow> lheap \<Rightarrow> lheap option" where
  "LinkTable_free fuel None h = Some h"
| "LinkTable_free 0 (Some p) h = None"
| "LinkTable_free (Suc fuel) (Some p) h =
    (case tables h p of
       None \<Rightarrow> None
     | Some t \<Rightarrow>
         (case LinkTable_free_entries fuel (links t) h of
            None \<Rightarrow> None
          | Some h' \<Rightarrow> Some (unput p h')))"
| "LinkTable_free_entries fuel [] h = Some h"
| "LinkTable_free_entries fuel (l # ls) h =
    (case LinkTable_free fuel (next_table l) h of
       None \<Rightarrow> None
     | Some h' \<Rightarrow> LinkTable_free_entries fuel ls h')"

text \<open>
  One round of \<open>LinkTable_unref\<close>: drop a reference; a table that is orphaned and has lost its
  last reference is detached from its parent link and freed, and its own reference on the
  parent table is the next one to drop (the second component).
\<close>

definition unref_step :: "nat \<Rightarrow> tblptr \<Rightarrow> lheap \<Rightarrow> (lheap \<times> tblptr option) option" where
  "unref_step fuel p h =
    (case tables h p of
       None \<Rightarrow> None
     | Some t \<Rightarrow>
         (let t' = t\<lparr>refcount := refcount t - 1\<rparr>;
              h1 = put p t' h
          in if refcount t' = 0 \<and> orphaned t' then
               (case (case parent_link t' of None \<Rightarrow> Some h1 | Some l \<Rightarrow> set_next l None h1) of
                  None \<Rightarrow> None
                | Some h2 \<Rightarrow>
                    (case LinkTable_free fuel (Some p) h2 of
                       None \<Rightarrow> None
                     | Some h3 \<Rightarrow> Some (h3, parent_tbl t')))
             else Some (h1, None)))"

fun LinkTable_unref :: "nat \<Rightarrow> tblptr option \<Rightarrow> lheap \<Rightarrow> lheap option" where
  "LinkTable_unref fuel None h = Some h"
| "LinkTable_unref 0 (Some p) h = None"
| "LinkTable_unref (Suc fuel) (Some p) h =
    (case unref_step (Suc fuel) p h of
       None \<Rightarrow> None
     | Some (h', parent) \<Rightarrow> LinkTable_unref fuel parent h')"

section \<open>Attaching a table that has just been loaded\<close>

text \<open>
  The critical section after a download: the new table becomes the \<open>next_table\<close> of its link
  unless another thread was faster, in which case it is freed (it is not in the heap yet, so
  it is just dropped).  \<open>fresh_refs\<close> is 1 in \<open>path_to_LinkTable\<close>, whose caller holds the
  result, and 0 in \<open>path_to_Link_recursive\<close>.  The result is the table to go on with.
\<close>

definition attach :: "int \<Rightarrow> linkptr \<Rightarrow> LinkTable \<Rightarrow> lheap \<Rightarrow> (tblptr \<times> lheap) option" where
  "attach fresh_refs l new_table h =
    (case l of (p, i) \<Rightarrow>
      (case tables h p of
         None \<Rightarrow> None
       | Some t \<Rightarrow>
           if i \<ge> length (links t) then None
           else case next_table (links t ! i) of
             None \<Rightarrow>
               (let q = next_addr h;
                    new' = new_table\<lparr>parent_tbl := Some p, parent_link := Some l,
                                     refcount := refcount new_table + fresh_refs\<rparr>;
                    t' = t\<lparr>links := (links t)[i := (links t ! i)\<lparr>next_table := Some q\<rparr>],
                           refcount := refcount t + 1\<rparr>
                in Some (q, put q new' (put p t' (h\<lparr>next_addr := Suc q\<rparr>))))
           | Some q \<Rightarrow>
               (case tables h q of
                  None \<Rightarrow> None
                | Some u \<Rightarrow>
                    Some (q, put q (if fresh_refs = 0 then u
                                    else u\<lparr>refcount := refcount u + fresh_refs, orphaned := False\<rparr>) h))))"

definition add_ref :: "int \<Rightarrow> tblptr \<Rightarrow> lheap \<Rightarrow> lheap option" where
  "add_ref d p h =
    (case tables h p of
       None \<Rightarrow> None
     | Some t \<Rightarrow> Some (put p (t\<lparr>refcount := refcount t + d\<rparr>) h))"

section \<open>Resolving a path\<close>

text \<open>The loop over the entries after the head link: the first whose name matches.\<close>

fun find_entry :: "cstr \<Rightarrow> nat \<Rightarrow> Link list \<Rightarrow> nat option" where
  "find_entry name i [] = None"
| "find_entry name i (l # ls) =
    (if strncmp_eq name (linkname l) NAME_MAX then Some i else find_entry name (Suc i) ls)"

definition lookup_entry :: "cstr \<Rightarrow> LinkTable \<Rightarrow> nat option" where
  "lookup_entry name t = find_entry name 1 (tl (links t))"

text \<open>Skipping one leading slash and removing one trailing slash.\<close>

definition skip_leading :: "cstr \<Rightarrow> cstr" where
  "skip_leading path = (if path \<noteq> [] \<and> hd path = slash then tl path else path)"

definition drop_trailing :: "cstr \<Rightarrow> cstr" where
  "drop_trailing path =
    (let path_len = strnlen path PATH_MAX
     in if 0 < path_len \<and> path ! (path_len - 1) = slash then take (path_len - 1) path else path)"

lemma length_skip_leading: "length (skip_leading path) \<le> length path"
  by (simp add: skip_leading_def)

lemma length_drop_trailing: "length (drop_trailing path) \<le> length path"
  by (simp add: drop_trailing_def Let_def)

lemma drop_shorter:
  "path0 \<noteq> [] \<Longrightarrow> length (drop_trailing (skip_leading path0)) - Suc s < length path0"
  using length_drop_trailing [of "skip_leading path0"] length_skip_leading [of path0]
  by (cases path0) auto

text \<open>
  \<open>path_to_Link_recursive\<close>, run by one thread.  \<open>load\<close> is what \<open>LinkTable_new\<close> (or its Sonic
  counterpart) builds for a link's URL, None when that fails; it runs without the lock, with
  the table pinned.  The result is None when the process exits (single-file mode cannot
  descend) or a freed table is touched; otherwise the link found, if any, and the heap.
\<close>

function path_to_Link_recursive ::
    "OperationMode \<Rightarrow> (Link \<Rightarrow> LinkTable option) \<Rightarrow> nat \<Rightarrow> cstr \<Rightarrow> tblptr option \<Rightarrow> lheap
     \<Rightarrow> (linkptr option \<times> lheap) option" where
  "path_to_Link_recursive md load fuel path0 tbl h =
    (case tbl of
       None \<Rightarrow> Some (None, h)
     | Some p \<Rightarrow>
       if path0 = [] then Some (None, h)
       else (let path = drop_trailing (skip_leading path0) in
         case tables h p of
           None \<Rightarrow> None
         | Some t \<Rightarrow>
           (case strchr path slash of
              None \<Rightarrow> Some (map_option (\<lambda>i. (p, i)) (lookup_entry path t), h)
            | Some s \<Rightarrow>
              (case lookup_entry (take s path) t of
                 None \<Rightarrow> Some (None, h)
               | Some i \<Rightarrow>
                 (case next_table (links t ! i) of
                    Some q \<Rightarrow> path_to_Link_recursive md load fuel (drop (Suc s) path) (Some q) h
                  | None \<Rightarrow>
                    if md = SINGLE then None
                    else (case add_ref 1 p h of
                      None \<Rightarrow> None
                    | Some h1 \<Rightarrow>
                      (case load (links t ! i) of
                         None \<Rightarrow> map_option (\<lambda>h2. (None, h2)) (LinkTable_unref fuel (Some p) h1)
                       | Some new_table \<Rightarrow>
                         (case attach 0 (p, i) new_table h1 of
                            None \<Rightarrow> None
                          | Some (q, h2) \<Rightarrow>
                            (case add_ref (-1) p h2 of
                               None \<Rightarrow> None
                             | Some h3 \<Rightarrow>
                               path_to_Link_recursive md load fuel (drop (Suc s) path) (Some q) h3)))))))))"
  by pat_completeness auto

termination
  by (relation "measure (\<lambda>(md, load, fuel, path0, tbl, h). length path0)")
    (simp_all add: drop_shorter)

declare path_to_Link_recursive.simps [simp del]

text \<open>\<open>path_to_Link\<close>: the parent table of the link found gets a reference for the caller.\<close>

definition path_to_Link ::
    "OperationMode \<Rightarrow> (Link \<Rightarrow> LinkTable option) \<Rightarrow> nat \<Rightarrow> cstr \<Rightarrow> lheap
     \<Rightarrow> (linkptr option \<times> lheap) option" where
  "path_to_Link md load fuel path h =
    (case path_to_Link_recursive md load fuel (strndup path PATH_MAX) (root_tbl h) h of
       None \<Rightarrow> None
     | Some (None, h') \<Rightarrow> Some (None, h')
     | Some (Some l, h') \<Rightarrow> map_option (\<lambda>h''. (Some l, h'')) (add_ref 1 (fst l) h'))"

definition get_link :: "linkptr \<Rightarrow> lheap \<Rightarrow> Link option" where
  "get_link l h =
    (case tables h (fst l) of
       None \<Rightarrow> None
     | Some t \<Rightarrow> if snd l < length (links t) then Some (links t ! snd l) else None)"

text \<open>
  \<open>path_to_LinkTable\<close>: the table of a directory, loaded on demand, with a reference for the
  caller (the directory handle).  \<open>refill\<close> is \<open>LinkTable_uninitialised_fill\<close> on the table.
\<close>

definition path_to_LinkTable ::
    "ConfigStruct \<Rightarrow> (Link \<Rightarrow> LinkTable option) \<Rightarrow> (LinkTable \<Rightarrow> LinkTable) \<Rightarrow> nat \<Rightarrow> cstr \<Rightarrow> lheap
     \<Rightarrow> (tblptr option \<times> lheap) option" where
  "path_to_LinkTable cfg load refill fuel path h =
    (if path = [slash] then map_option (\<lambda>h'. (root_tbl h, h')) (LinkTable_ref (root_tbl h) h)
     else (case path_to_Link (mode cfg) load fuel path h of
       None \<Rightarrow> None
     | Some (None, h1) \<Rightarrow> Some (None, h1)
     | Some (Some l, h1) \<Rightarrow>
       (case get_link l h1 of
          None \<Rightarrow> None
        | Some link \<Rightarrow>
          (case next_table link of
             Some q \<Rightarrow>
               (case LinkTable_ref (Some q) h1 of
                  None \<Rightarrow> None
                | Some h2 \<Rightarrow>
                    map_option (\<lambda>h3. (Some q, h3)) (LinkTable_unref fuel (Some (fst l)) h2))
           | None \<Rightarrow>
               (case load link of
                  None \<Rightarrow> map_option (\<lambda>h2. (None, h2)) (LinkTable_unref fuel (Some (fst l)) h1)
                | Some new_table \<Rightarrow>
                  (case attach 1 l new_table h1 of
                     None \<Rightarrow> None
                   | Some (q, h2) \<Rightarrow>
                     (let h3 = (if invalid_refresh cfg
                                then (case tables h2 q of
                                        Some u \<Rightarrow> put q (refill u) h2
                                      | None \<Rightarrow> h2)
                                else h2)
                      in map_option (\<lambda>h4. (Some q, h4)) (LinkTable_unref fuel (Some (fst l)) h3))))))))"

end
