(* ===== verification/LinkTreeRefs.thy ===== *)
theory LinkTreeRefs
  imports LinkTree
begin

text \<open>
  Reference counting of link tables is exact.  The invariant relates the counts to the
  references that threads really hold (a ghost function \<open>e\<close>: how many references on each table
  are outstanding: open directory handles, links returned by \<open>path_to_Link\<close>, open cache files,
  pins during a download) plus one for every attached sub-table.  Every critical section keeps
  it, in any interleaving, so no table is freed while somebody holds it.
\<close>

section \<open>The invariant\<close>

definition children :: "lheap \<Rightarrow> tblptr \<Rightarrow> tblptr set" where
  "children h p = {q. \<exists>u. tables h q = Some u \<and> parent_tbl u = Some p}"

definition up_ok :: "lheap \<Rightarrow> bool" where
  "up_ok h \<longleftrightarrow> (\<forall>q u. tables h q = Some u \<longrightarrow>
     (case parent_tbl u of
        None \<Rightarrow> parent_link u = None
      | Some p \<Rightarrow> \<exists>i t. parent_link u = Some (p, i) \<and> tables h p = Some t \<and> i < length (links t) \<and>
                       next_table (links t ! i) = Some q))"

definition down_ok :: "lheap \<Rightarrow> bool" where
  "down_ok h \<longleftrightarrow> (\<forall>p t i q. tables h p = Some t \<longrightarrow> i < length (links t) \<longrightarrow>
     next_table (links t ! i) = Some q \<longrightarrow>
     (\<exists>u. tables h q = Some u \<and> parent_tbl u = Some p \<and> parent_link u = Some (p, i)))"

definition root_ok :: "lheap \<Rightarrow> bool" where
  "root_ok h \<longleftrightarrow> (\<forall>r. root_tbl h = Some r \<longrightarrow>
     (\<exists>t. tables h r = Some t \<and> \<not> orphaned t \<and> parent_tbl t = None))"

definition addr_ok :: "lheap \<Rightarrow> bool" where
  "addr_ok h \<longleftrightarrow> finite (dom (tables h)) \<and> (\<forall>p \<in> dom (tables h). p < next_addr h)"

definition counts_ok :: "(tblptr \<Rightarrow> nat) \<Rightarrow> lheap \<Rightarrow> bool" where
  "counts_ok e h \<longleftrightarrow> (\<forall>p. 0 < e p \<longrightarrow> tables h p \<noteq> None) \<and>
     (\<forall>p t. tables h p = Some t \<longrightarrow> refcount t = int (e p + card (children h p)))"

definition tree_inv :: "(tblptr \<Rightarrow> nat) \<Rightarrow> lheap \<Rightarrow> bool" where
  "tree_inv e h \<longleftrightarrow> up_ok h \<and> down_ok h \<and> root_ok h \<and> addr_ok h \<and> counts_ok e h"

lemmas tree_inv_defs = tree_inv_def up_ok_def down_ok_def root_ok_def addr_ok_def counts_ok_def

lemma tree_invD:
  "tree_inv e h \<Longrightarrow> up_ok h" "tree_inv e h \<Longrightarrow> down_ok h" "tree_inv e h \<Longrightarrow> root_ok h"
  "tree_inv e h \<Longrightarrow> addr_ok h" "tree_inv e h \<Longrightarrow> counts_ok e h"
  by (simp_all add: tree_inv_def)

lemma held_live: "tree_inv e h \<Longrightarrow> 0 < e p \<Longrightarrow> \<exists>t. tables h p = Some t"
  using tree_invD(5) [of e h] by (simp add: counts_ok_def)

lemma up_ok_None:
  assumes "up_ok h" "tables h q = Some u" "parent_tbl u = None"
  shows "parent_link u = None"
  using assms(1) [unfolded up_ok_def, rule_format, OF assms(2)] assms(3) by simp

lemma up_ok_Some:
  assumes "up_ok h" "tables h q = Some u" "parent_tbl u = Some p"
  obtains i t where "parent_link u = Some (p, i)" "tables h p = Some t" "i < length (links t)"
    "next_table (links t ! i) = Some q"
proof -
  have "case parent_tbl u of None \<Rightarrow> parent_link u = None
      | Some p \<Rightarrow> \<exists>i t. parent_link u = Some (p, i) \<and> tables h p = Some t \<and> i < length (links t) \<and>
                       next_table (links t ! i) = Some q"
    by (rule assms(1) [unfolded up_ok_def, rule_format, OF assms(2)])
  with assms(3) have "\<exists>i t. parent_link u = Some (p, i) \<and> tables h p = Some t \<and>
      i < length (links t) \<and> next_table (links t ! i) = Some q" by simp
  then show thesis by (elim exE conjE) (rule that)
qed

lemma down_okD:
  assumes "down_ok h" "tables h p = Some t" "i < length (links t)" "next_table (links t ! i) = Some q"
  obtains u where "tables h q = Some u" "parent_tbl u = Some p" "parent_link u = Some (p, i)"
proof -
  have "\<exists>u. tables h q = Some u \<and> parent_tbl u = Some p \<and> parent_link u = Some (p, i)"
    by (rule assms(1) [unfolded down_ok_def, rule_format, OF assms(2-4)])
  then show thesis by (elim exE conjE) (rule that)
qed

lemma finite_children: "addr_ok h \<Longrightarrow> finite (children h p)"
  by (rule finite_subset [of _ "dom (tables h)"]) (auto simp: addr_ok_def children_def)

lemma tables_put [simp]: "tables (put p t h) = (tables h)(p \<mapsto> t)"
  by (simp add: put_def)

lemma tables_unput [simp]: "tables (unput p h) = (tables h)(p := None)"
  by (simp add: unput_def)

lemma heap_rest [simp]:
  "root_tbl (put p t h) = root_tbl h" "next_addr (put p t h) = next_addr h"
  "root_tbl (unput p h) = root_tbl h" "next_addr (unput p h) = next_addr h"
  by (simp_all add: put_def unput_def)

section \<open>Operations that only change the counts of a table\<close>

text \<open>A change of \<open>refcount\<close> and \<open>orphaned\<close>, or of the data of the links, that leaves the pointers.\<close>

definition same_links :: "LinkTable \<Rightarrow> LinkTable \<Rightarrow> bool" where
  "same_links t t' \<longleftrightarrow> map next_table (links t') = map next_table (links t) \<and> parent_tbl t' = parent_tbl t \<and> parent_link t' = parent_link t"

lemma same_links_nth:
  assumes "same_links t t'"
  shows "length (links t') = length (links t)"
    and "i < length (links t) \<Longrightarrow> next_table (links t' ! i) = next_table (links t ! i)"
proof -
  have *: "map next_table (links t') = map next_table (links t)" using assms by (simp add: same_links_def)
  then show "length (links t') = length (links t)" by (metis length_map)
  with * show "i < length (links t) \<Longrightarrow> next_table (links t' ! i) = next_table (links t ! i)"
    by (metis nth_map)
qed

lemma children_put: "tables h p = Some t \<Longrightarrow> same_links t t' \<Longrightarrow> children (put p t' h) = children h"
  by (auto simp: children_def same_links_def fun_eq_iff)

lemma up_ok_put:
  assumes "up_ok h" "tables h p = Some t" "same_links t t'"
  shows "up_ok (put p t' h)"
  unfolding up_ok_def
proof (intro allI impI)
  fix q u
  assume q: "tables (put p t' h) q = Some u"
  obtain u0 where u0: "tables h q = Some u0" "parent_tbl u = parent_tbl u0" "parent_link u = parent_link u0"
    using q assms(2,3) by (auto simp: same_links_def split: if_splits)
  show "case parent_tbl u of None \<Rightarrow> parent_link u = None
      | Some p' \<Rightarrow> \<exists>i ta. parent_link u = Some (p', i) \<and> tables (put p t' h) p' = Some ta \<and>
          i < length (links ta) \<and> next_table (links ta ! i) = Some q"
  proof (cases "parent_tbl u0")
    case None
    with up_ok_None [OF assms(1) u0(1)] u0 show ?thesis by simp
  next
    case (Some p')
    obtain i ta where "parent_link u0 = Some (p', i)" "tables h p' = Some ta"
      "i < length (links ta)" "next_table (links ta ! i) = Some q"
      by (rule up_ok_Some [OF assms(1) u0(1) Some])
    with Some u0 assms(2) same_links_nth [OF assms(3)] show ?thesis by auto
  qed
qed

lemma down_ok_put:
  assumes "down_ok h" "tables h p = Some t" "same_links t t'"
  shows "down_ok (put p t' h)"
  unfolding down_ok_def
proof (intro allI impI)
  fix p' ta i q
  assume *: "tables (put p t' h) p' = Some ta" "i < length (links ta)" "next_table (links ta ! i) = Some q"
  then obtain tb where "tables h p' = Some tb" "i < length (links tb)" "next_table (links tb ! i) = Some q"
    using assms(2) same_links_nth [OF assms(3)] by (auto split: if_splits)
  with assms(1) obtain u where "tables h q = Some u" "parent_tbl u = Some p'" "parent_link u = Some (p', i)"
    unfolding down_ok_def by metis
  then show "\<exists>u. tables (put p t' h) q = Some u \<and> parent_tbl u = Some p' \<and> parent_link u = Some (p', i)"
    using assms(2,3) by (auto simp: same_links_def)
qed

lemma tree_inv_put:
  assumes "tree_inv e h" "tables h p = Some t" "same_links t t'"
    and "root_tbl h = Some p \<Longrightarrow> \<not> orphaned t'"
    and "refcount t' = refcount t + int n - int (e p)"
  shows "tree_inv (e(p := n)) (put p t' h)"
proof -
  have "up_ok (put p t' h)" "down_ok (put p t' h)"
    using assms(1-3) up_ok_put down_ok_put by (auto simp: tree_inv_def)
  moreover have "root_ok (put p t' h)"
    using assms(1-4) by (auto simp: tree_inv_def root_ok_def same_links_def)
  moreover have "addr_ok (put p t' h)" using assms(1,2) by (auto simp: tree_inv_def addr_ok_def)
  moreover have "counts_ok (e(p := n)) (put p t' h)"
    using assms(1,2,5) children_put [OF assms(2,3)] by (auto simp: tree_inv_def counts_ok_def)
  ultimately show ?thesis by (simp add: tree_inv_def)
qed

lemma LinkTable_ref_inv:
  assumes "tree_inv e h" "LinkTable_ref (Some p) h = Some h'"
  shows "tree_inv (e(p := e p + 1)) h'"
proof -
  from assms(2) obtain t where t: "tables h p = Some t"
    "h' = put p (t\<lparr>refcount := refcount t + 1, orphaned := False\<rparr>) h"
    by (auto simp: LinkTable_ref_def split: option.splits)
  show ?thesis unfolding t(2)
    by (rule tree_inv_put [OF assms(1) t(1)]) (simp_all add: same_links_def)
qed

lemma root_not_orphaned: "tree_inv e h \<Longrightarrow> root_tbl h = Some p \<Longrightarrow> tables h p = Some t \<Longrightarrow> \<not> orphaned t"
  by (auto simp: tree_inv_def root_ok_def)

lemma add_ref_inv:
  assumes "tree_inv e h" "add_ref (int n - int (e p)) p h = Some h'"
  shows "tree_inv (e(p := n)) h'"
proof -
  from assms(2) obtain t where t: "tables h p = Some t"
    "h' = put p (t\<lparr>refcount := refcount t + (int n - int (e p))\<rparr>) h"
    by (auto simp: add_ref_def split: option.splits)
  show ?thesis unfolding t(2)
    by (rule tree_inv_put [OF assms(1) t(1)])
      (use root_not_orphaned [OF assms(1) _ t(1)] in \<open>simp_all add: same_links_def\<close>)
qed

lemma mark_orphaned_inv:
  assumes "tree_inv e h" "root_tbl h \<noteq> Some p" "LinkTable_mark_orphaned (Some p) h = Some h'"
  shows "tree_inv e h'"
proof -
  from assms(3) obtain t where t: "tables h p = Some t" "h' = put p (t\<lparr>orphaned := True\<rparr>) h"
    by (auto simp: LinkTable_mark_orphaned_def split: option.splits)
  have "tree_inv (e(p := e p)) (put p (t\<lparr>orphaned := True\<rparr>) h)"
    by (rule tree_inv_put [OF assms(1) t(1)]) (simp_all add: same_links_def assms(2))
  then show ?thesis by (simp add: t(2))
qed

section \<open>Dropping a reference\<close>

lemma free_entries_leaf:
  "\<forall>l \<in> set ls. next_table l = None \<Longrightarrow> LinkTable_free_entries fuel ls h = Some h"
  by (induction ls) simp_all

text \<open>A table without references and without sub-tables: freeing it touches no other table.\<close>

lemma no_children_leaf:
  assumes "down_ok h" "tables h p = Some t" "children h p = {}"
  shows "\<forall>l \<in> set (links t). next_table l = None"
proof
  fix l
  assume "l \<in> set (links t)"
  then obtain i where i: "i < length (links t)" "l = links t ! i" by (auto simp: in_set_conv_nth)
  show "next_table l = None"
  proof (rule ccontr)
    assume "next_table l \<noteq> None"
    then obtain q where "next_table (links t ! i) = Some q" using i by auto
    from down_okD [OF assms(1,2) i(1) this] assms(3) show False by (auto simp: children_def)
  qed
qed

text \<open>The heap after the table \<open>p\<close> was detached from its parent link and freed.\<close>

definition clear_link :: "linkptr option \<Rightarrow> (tblptr \<Rightarrow> LinkTable option) \<Rightarrow> tblptr \<Rightarrow> LinkTable option" where
  "clear_link l T = (case l of None \<Rightarrow> T | Some (p, i) \<Rightarrow>
     (case T p of None \<Rightarrow> T
      | Some t \<Rightarrow> T(p \<mapsto> t\<lparr>links := (links t)[i := (links t ! i)\<lparr>next_table := None\<rparr>]\<rparr>)))"

lemma unref_step_free:
  assumes "tree_inv e h" "0 < e p" "tables h p = Some t" "refcount t = 1" "orphaned t"
  shows "unref_step (Suc n) p h =
    Some (h\<lparr>tables := (clear_link (parent_link t) (tables h))(p := None)\<rparr>, parent_tbl t)"
    and "children h p = {}" and "e p = 1"
proof -
  have "int (e p + card (children h p)) = 1"
    using assms(1,3,4) by (auto simp: tree_inv_def counts_ok_def)
  with assms(2) show e1: "e p = 1" by simp
  then have "card (children h p) = 0" using \<open>int (e p + card (children h p)) = 1\<close> by simp
  with assms(1) show ch: "children h p = {}"
    by (simp add: tree_inv_def finite_children)
  have leaf: "\<forall>l \<in> set (links t). next_table l = None"
    using no_children_leaf [OF _ assms(3) ch] assms(1) by (simp add: tree_inv_def)
  let ?t' = "t\<lparr>refcount := refcount t - 1\<rparr>"
  show "unref_step (Suc n) p h =
    Some (h\<lparr>tables := (clear_link (parent_link t) (tables h))(p := None)\<rparr>, parent_tbl t)"
  proof (cases "parent_tbl t")
    case None
    then have "parent_link t = None" using assms(1,3) up_ok_None by (auto simp: tree_inv_def)
    with None assms(3-5) leaf show ?thesis
      by (simp add: unref_step_def Let_def free_entries_leaf put_def unput_def clear_link_def)
  next
    case (Some pp)
    obtain i tp where up: "parent_link t = Some (pp, i)" "tables h pp = Some tp" "i < length (links tp)"
      by (rule up_ok_Some [OF tree_invD(1) [OF assms(1)] assms(3) Some])
    have "p \<in> children h pp" using assms(3) Some by (auto simp: children_def)
    with ch have ne: "pp \<noteq> p" by auto
    with Some up assms(3-5) leaf show ?thesis
      by (simp add: unref_step_def Let_def free_entries_leaf set_next_def put_def unput_def clear_link_def
          fun_upd_twist)
  qed
qed

definition clear_at :: "linkptr option \<Rightarrow> tblptr \<Rightarrow> LinkTable \<Rightarrow> LinkTable" where
  "clear_at l q u = (case l of
     Some (p, i) \<Rightarrow> if p = q then u\<lparr>links := (links u)[i := (links u ! i)\<lparr>next_table := None\<rparr>]\<rparr> else u
   | None \<Rightarrow> u)"

lemma clear_at_simps [simp]:
  "parent_tbl (clear_at l q u) = parent_tbl u" "parent_link (clear_at l q u) = parent_link u"
  "refcount (clear_at l q u) = refcount u" "orphaned (clear_at l q u) = orphaned u"
  "length (links (clear_at l q u)) = length (links u)"
  by (simp_all add: clear_at_def split: option.split)

lemma clear_at_next:
  "j < length (links u) \<Longrightarrow> next_table (links (clear_at l q u) ! j) =
     (if l = Some (q, j) then None else next_table (links u ! j))"
  by (auto simp: clear_at_def nth_list_update split: option.split)

lemma clear_link_eq: "clear_link l T q = map_option (clear_at l q) (T q)"
  by (cases l; cases "T q") (auto simp: clear_link_def clear_at_def split: option.split)

lemma detached_inv:
  assumes inv: "tree_inv e h" and t: "tables h p = Some t" and "orphaned t"
    and ch: "children h p = {}" and "e p = 1"
  shows "tree_inv (case parent_tbl t of None \<Rightarrow> e(p := 0) | Some x \<Rightarrow> (e(p := 0))(x := e x + 1))
    (h\<lparr>tables := (clear_link (parent_link t) (tables h))(p := None)\<rparr>)"
    (is "tree_inv ?e ?h")
proof -
  let ?c = "\<lambda>q. clear_at (parent_link t) q"
  have not_child: "tables h q = Some u \<Longrightarrow> parent_tbl u \<noteq> Some p" for q u
    using ch by (auto simp: children_def)
  have ch': "children ?h x = children h x - {p}" for x
    by (auto simp: children_def clear_link_eq)
  have pnext: "\<exists>tx. tables h x = Some tx \<and> i < length (links tx) \<and> next_table (links tx ! i) = Some p"
    if "parent_link t = Some (x, i)" for x i
  proof -
    have "parent_tbl t \<noteq> None" using that up_ok_None [OF tree_invD(1) [OF inv] t] by auto
    then obtain y where y: "parent_tbl t = Some y" by blast
    show ?thesis by (rule up_ok_Some [OF tree_invD(1) [OF inv] t y]) (use that in simp)
  qed
  have "up_ok ?h" unfolding up_ok_def
  proof (intro allI impI)
    fix q u'
    assume "tables ?h q = Some u'"
    then obtain u where u: "q \<noteq> p" "tables h q = Some u" "u' = ?c q u" by (auto simp: clear_link_eq split: if_splits)
    show "case parent_tbl u' of None \<Rightarrow> parent_link u' = None
      | Some x \<Rightarrow> \<exists>i tx. parent_link u' = Some (x, i) \<and> tables ?h x = Some tx \<and>
          i < length (links tx) \<and> next_table (links tx ! i) = Some q"
    proof (cases "parent_tbl u")
      case None
      with up_ok_None [OF tree_invD(1) [OF inv] u(2)] u(3) show ?thesis by simp
    next
      case (Some x)
      obtain i tx where x: "parent_link u = Some (x, i)" "tables h x = Some tx" "i < length (links tx)"
        "next_table (links tx ! i) = Some q"
        by (rule up_ok_Some [OF tree_invD(1) [OF inv] u(2) Some])
      have "x \<noteq> p" using not_child [OF u(2)] Some by auto
      moreover have "parent_link t \<noteq> Some (x, i)" using pnext [of x i] x u(1) by auto
      ultimately show ?thesis using Some u(3) x by (simp add: clear_link_eq clear_at_next)
    qed
  qed
  moreover have "down_ok ?h" unfolding down_ok_def
  proof (intro allI impI)
    fix x tx' i q
    assume *: "tables ?h x = Some tx'" "i < length (links tx')" "next_table (links tx' ! i) = Some q"
    then obtain tx where tx: "x \<noteq> p" "tables h x = Some tx" "tx' = ?c x tx" by (auto simp: clear_link_eq split: if_splits)
    with * have i: "i < length (links tx)" "next_table (links tx ! i) = Some q" "parent_link t \<noteq> Some (x, i)"
      by (auto simp: clear_at_next split: if_splits)
    obtain u where "tables h q = Some u" "parent_tbl u = Some x" "parent_link u = Some (x, i)"
      by (rule down_okD [OF tree_invD(2) [OF inv] tx(2) i(1,2)])
    then show "\<exists>u. tables ?h q = Some u \<and> parent_tbl u = Some x \<and> parent_link u = Some (x, i)"
      using i(3) t by (cases "q = p") (simp_all add: clear_link_eq)
  qed
  moreover have "root_ok ?h" unfolding root_ok_def
  proof (intro allI impI)
    fix r
    assume "root_tbl ?h = Some r"
    with tree_invD(3) [OF inv] obtain tr where "tables h r = Some tr" "\<not> orphaned tr" "parent_tbl tr = None"
      by (auto simp: root_ok_def)
    with t assms(3) show "\<exists>t. tables ?h r = Some t \<and> \<not> orphaned t \<and> parent_tbl t = None"
      by (cases "r = p") (simp_all add: clear_link_eq)
  qed
  moreover have "addr_ok ?h"
  proof -
    have "dom (clear_link (parent_link t) (tables h)) = dom (tables h)"
      by (auto simp: clear_link_eq dom_def)
    with tree_invD(4) [OF inv] show ?thesis by (simp add: addr_ok_def)
  qed
  moreover have "counts_ok ?e ?h"
  proof -
    have e: "?e x = (if x = p then 0 else e x) + (if parent_tbl t = Some x then 1 else 0)" for x
      using not_child [OF t] by (auto split: option.split)
    have "tables ?h x \<noteq> None" if "0 < ?e x" for x
    proof -
      have "x \<noteq> p" using that not_child [OF t] by (auto simp: e split: if_splits)
      moreover have "tables h x \<noteq> None"
      proof (cases "parent_tbl t = Some x")
        case True
        then show ?thesis by (rule up_ok_Some [OF tree_invD(1) [OF inv] t]) simp
      next
        case False
        with that have "0 < e x" by (simp add: e split: if_splits)
        with tree_invD(5) [OF inv] show ?thesis by (simp add: counts_ok_def)
      qed
      ultimately show ?thesis by (simp add: clear_link_eq)
    qed
    moreover have "refcount u' = int (?e x + card (children ?h x))" if live: "tables ?h x = Some u'" for x u'
    proof -
      obtain u where u: "x \<noteq> p" "tables h x = Some u" "u' = ?c x u" using live by (auto simp: clear_link_eq split: if_splits)
      have "refcount u = int (e x + card (children h x))"
        using tree_invD(5) [OF inv] u(2) by (simp add: counts_ok_def)
      moreover have "card (children h x) = card (children h x - {p}) + (if parent_tbl t = Some x then 1 else 0)"
      proof (cases "parent_tbl t = Some x")
        case True
        then have "p \<in> children h x" using t by (simp add: children_def)
        with True finite_children [OF tree_invD(4) [OF inv], of x] show ?thesis
          by (simp add: card_gt_0_iff) (metis Suc_pred card_gt_0_iff empty_iff)
      next
        case False
        then have "p \<notin> children h x" using t by (simp add: children_def)
        with False show ?thesis by simp
      qed
      ultimately show ?thesis using u by (simp only: e ch' clear_at_simps) simp
    qed
    ultimately show ?thesis unfolding counts_ok_def by blast
  qed
  ultimately show ?thesis by (simp add: tree_inv_def)
qed

text \<open>The ghost counts after a round of \<open>LinkTable_unref\<close>: the caller may now owe one on the parent.\<close>

definition moved :: "tblptr \<Rightarrow> tblptr option \<Rightarrow> (tblptr \<Rightarrow> nat) \<Rightarrow> tblptr \<Rightarrow> nat" where
  "moved p parent e = (let e' = e(p := e p - 1) in
     case parent of None \<Rightarrow> e' | Some x \<Rightarrow> e'(x := e' x + 1))"

lemma unref_step_inv:
  assumes inv: "tree_inv e h" and "0 < e p"
  shows "\<exists>h' parent. unref_step (Suc n) p h = Some (h', parent) \<and> tree_inv (moved p parent e) h' \<and>
    card (dom (tables h')) \<le> card (dom (tables h)) \<and>
    (parent \<noteq> None \<longrightarrow> card (dom (tables h')) < card (dom (tables h)))"
proof -
  obtain t where t: "tables h p = Some t" using held_live [OF assms] by blast
  show ?thesis
  proof (cases "refcount t = 1 \<and> orphaned t")
    case True
    let ?h = "h\<lparr>tables := (clear_link (parent_link t) (tables h))(p := None)\<rparr>"
    note free = unref_step_free [OF inv assms(2) t True [THEN conjunct1] True [THEN conjunct2]]
    have "moved p (parent_tbl t) e =
      (case parent_tbl t of None \<Rightarrow> e(p := 0) | Some x \<Rightarrow> (e(p := 0))(x := e x + 1))"
    proof (cases "parent_tbl t")
      case None
      with free(3) show ?thesis by (simp add: moved_def)
    next
      case (Some x)
      then have "x \<noteq> p" using free(2) t by (auto simp: children_def)
      with Some free(3) show ?thesis by (simp add: moved_def)
    qed
    with detached_inv [OF inv t True [THEN conjunct2] free(2,3)] have "tree_inv (moved p (parent_tbl t) e) ?h"
      by simp
    moreover have "dom (tables ?h) = dom (tables h) - {p}"
      by (auto simp: clear_link_eq dom_def)
    then have "card (dom (tables ?h)) < card (dom (tables h))"
      using t tree_invD(4) [OF inv] by (auto simp: addr_ok_def intro!: psubset_card_mono)
    ultimately show ?thesis using free(1) less_imp_le by blast
  next
    case False
    let ?t' = "t\<lparr>refcount := refcount t - 1\<rparr>"
    have "unref_step (Suc n) p h = Some (put p ?t' h, None)"
      using t False by (auto simp: unref_step_def Let_def)
    moreover have "tree_inv (e(p := e p - 1)) (put p ?t' h)"
      by (rule tree_inv_put [OF inv t])
        (use root_not_orphaned [OF inv _ t] assms(2) in \<open>auto simp: same_links_def\<close>)
    moreover have "dom (tables (put p ?t' h)) = dom (tables h)" using t by auto
    ultimately show ?thesis by (auto simp: moved_def)
  qed
qed

text \<open>
  The whole of \<open>LinkTable_unref\<close>: with at least as much fuel as there are tables it returns,
  it never meets a freed table, and what remains satisfies the invariant for the ghost counts
  with one reference less on \<open>p\<close>.
\<close>

lemma moved_parent: "parent \<noteq> None \<Longrightarrow> 0 < moved p parent e (the parent)"
  by (auto simp: moved_def Let_def)

lemma LinkTable_unref_inv:
  "tree_inv e h \<Longrightarrow> 0 < e p \<Longrightarrow> card (dom (tables h)) \<le> fuel \<Longrightarrow>
   \<exists>h'. LinkTable_unref fuel (Some p) h = Some h' \<and> tree_inv (e(p := e p - 1)) h' \<and>
     card (dom (tables h')) \<le> card (dom (tables h))"
proof (induction fuel arbitrary: e h p)
  case 0
  from held_live [OF 0(1,2)] have "p \<in> dom (tables h)" by auto
  moreover have "finite (dom (tables h))" using tree_invD(4) [OF 0(1)] by (simp add: addr_ok_def)
  ultimately have "card (dom (tables h)) \<noteq> 0" by auto
  with 0(3) show ?case by simp
next
  case (Suc n)
  from unref_step_inv [OF Suc.prems(1,2), of n] obtain h' parent where
    step: "unref_step (Suc n) p h = Some (h', parent)" and inv: "tree_inv (moved p parent e) h'" and
    less: "parent \<noteq> None \<longrightarrow> card (dom (tables h')) < card (dom (tables h))" and
    le: "card (dom (tables h')) \<le> card (dom (tables h))" by blast
  show ?case
  proof (cases parent)
    case None
    with step inv le show ?thesis by (simp add: moved_def fun_upd_def)
  next
    case (Some x)
    have "0 < moved p parent e x" using moved_parent [of parent p e] Some by simp
    moreover have "card (dom (tables h')) \<le> n" using less Some Suc.prems(3) by simp
    ultimately obtain h'' where "LinkTable_unref n (Some x) h' = Some h''"
      "tree_inv ((moved p parent e)(x := moved p parent e x - 1)) h''"
      "card (dom (tables h'')) \<le> card (dom (tables h))"
      using le le_trans Suc.IH [OF inv] by blast
    moreover have "(moved p parent e)(x := moved p parent e x - 1) = e(p := e p - 1)"
      using Some by (auto simp: moved_def Let_def fun_eq_iff)
    ultimately show ?thesis using step Some by (simp add: fun_upd_def)
  qed
qed

section \<open>Attaching a table\<close>

text \<open>What \<open>LinkTable_new\<close> returns: no references, no parent, no sub-tables yet.\<close>

definition fresh_table :: "LinkTable \<Rightarrow> bool" where
  "fresh_table t \<longleftrightarrow> refcount t = 0 \<and> \<not> orphaned t \<and> parent_tbl t = None \<and> parent_link t = None \<and>
     (\<forall>l \<in> set (links t). next_table l = None)"

lemma attach_inv:
  assumes inv: "tree_inv e h" and "attach (int r) (p, i) nt h = Some (q, h')" and fresh: "fresh_table nt"
  shows "tree_inv (e(q := e q + r)) h'"
proof -
  from assms(2) obtain t where t: "tables h p = Some t" and i: "i < length (links t)"
    by (auto simp: attach_def split: option.splits if_splits)
  show ?thesis
  proof (cases "next_table (links t ! i)")
    case (Some q')
    with assms(2) t i obtain u where u: "q = q'" "tables h q = Some u"
      "h' = put q (if r = 0 then u else u\<lparr>refcount := refcount u + int r, orphaned := False\<rparr>) h"
      by (auto simp: attach_def split: option.splits)
    show ?thesis unfolding u(3)
      by (rule tree_inv_put [OF inv u(2)])
        (use root_not_orphaned [OF inv _ u(2)] in \<open>auto simp: same_links_def\<close>)
  next
    case None
    let ?nt = "nt\<lparr>parent_tbl := Some p, parent_link := Some (p, i), refcount := int r\<rparr>"
    let ?t = "t\<lparr>links := (links t)[i := (links t ! i)\<lparr>next_table := Some q\<rparr>], refcount := refcount t + 1\<rparr>"
    have q: "q = next_addr h" and h': "h' = put q ?nt (put p ?t (h\<lparr>next_addr := Suc q\<rparr>))"
      using assms(2) t i None fresh by (auto simp: attach_def fresh_table_def Let_def)
    have new: "tables h q = None"
      using tree_invD(4) [OF inv] q unfolding addr_ok_def by (metis domIff less_irrefl)
    have pq: "p \<noteq> q" using t new by auto
    have T: "tables h' x = (if x = q then Some ?nt else if x = p then Some ?t else tables h x)" for x
      by (simp add: h')
    have lt: "next_table (links ?t ! j) = (if j = i then Some q else next_table (links t ! j))"
      if "j < length (links t)" for j using that by (simp add: nth_list_update)
    have leaf: "j < length (links nt) \<Longrightarrow> next_table (links nt ! j) = None" for j
      using fresh by (simp add: fresh_table_def)
    have ch: "children h' x = (if x = p then insert q (children h x) else children h x)" for x
      using t pq new by (auto simp: children_def T)
    have noq: "parent_tbl u \<noteq> Some q" if "tables h x = Some u" for x u
      using up_ok_Some [OF tree_invD(1) [OF inv] that, of q] new by auto
    have "up_ok h'" unfolding up_ok_def
    proof (intro allI impI)
      fix x u
      assume x: "tables h' x = Some u"
      show "case parent_tbl u of None \<Rightarrow> parent_link u = None
        | Some y \<Rightarrow> \<exists>j ty. parent_link u = Some (y, j) \<and> tables h' y = Some ty \<and>
            j < length (links ty) \<and> next_table (links ty ! j) = Some x"
      proof (cases "x = q")
        case True
        with x have "u = ?nt" by (simp add: T)
        with True pq i lt [OF i] show ?thesis by (simp add: T)
      next
        case False
        then obtain u0 where u0: "tables h x = Some u0" "parent_tbl u = parent_tbl u0" "parent_link u = parent_link u0"
          using x t by (auto simp: T split: if_splits)
        show ?thesis
        proof (cases "parent_tbl u0")
          case None
          with up_ok_None [OF tree_invD(1) [OF inv] u0(1)] u0 show ?thesis by simp
        next
          case (Some y)
          obtain j ty where y: "parent_link u0 = Some (y, j)" "tables h y = Some ty" "j < length (links ty)"
            "next_table (links ty ! j) = Some x"
            by (rule up_ok_Some [OF tree_invD(1) [OF inv] u0(1) Some])
          have "y \<noteq> q" using y(2) new by auto
          with y u0 Some t lt [of j] \<open>next_table (links t ! i) = None\<close> show ?thesis
            by (cases "y = p") (auto simp: T)
        qed
      qed
    qed
    moreover have "down_ok h'" unfolding down_ok_def
    proof (intro allI impI)
      fix x tx j z
      assume *: "tables h' x = Some tx" "j < length (links tx)" "next_table (links tx ! j) = Some z"
      have "x \<noteq> q" using * leaf by (auto simp: T)
      show "\<exists>u. tables h' z = Some u \<and> parent_tbl u = Some x \<and> parent_link u = Some (x, j)"
      proof (cases "x = p \<and> j = i")
        case True
        with * pq i lt [OF i] show ?thesis by (auto simp: T)
      next
        case False
        then obtain t0 where t0: "tables h x = Some t0" "j < length (links t0)" "next_table (links t0 ! j) = Some z"
          using * \<open>x \<noteq> q\<close> t lt [of j] by (cases "x = p") (auto simp: T)
        obtain u where u: "tables h z = Some u" "parent_tbl u = Some x" "parent_link u = Some (x, j)"
          by (rule down_okD [OF tree_invD(2) [OF inv] t0])
        have "z \<noteq> q" using u(1) new by auto
        with u t show ?thesis by (cases "z = p") (simp_all add: T)
      qed
    qed
    moreover have "root_ok h'" using tree_invD(3) [OF inv] t new by (auto simp: root_ok_def T h')
    moreover have "addr_ok h'"
    proof -
      have fin: "finite (dom (tables h))" and below: "x \<in> dom (tables h) \<Longrightarrow> x < next_addr h" for x
        using tree_invD(4) [OF inv] by (simp_all add: addr_ok_def)
      have "p < next_addr h" using t by (intro below) auto
      then show ?thesis using fin below q by (auto simp: addr_ok_def h' less_SucI)
    qed
    moreover have "counts_ok (e(q := e q + r)) h'" unfolding counts_ok_def
    proof (intro conjI allI impI)
      have e: "0 < e x \<Longrightarrow> tables h x \<noteq> None" for x using tree_invD(5) [OF inv] by (simp add: counts_ok_def)
      have eq: "e q = 0" using e [of q] new by auto
      show "tables h' x \<noteq> None" if "0 < (e(q := e q + r)) x" for x
        using that e [of x] by (auto simp: T split: if_splits)
      show "refcount u = int ((e(q := e q + r)) x + card (children h' x))" if "tables h' x = Some u" for x u
      proof -
        have rc: "tables h x = Some v \<Longrightarrow> refcount v = int (e x + card (children h x))" for v
          using tree_invD(5) [OF inv] by (simp add: counts_ok_def)
        have "children h q = {}" using noq by (auto simp: children_def)
        moreover have "q \<notin> children h p" using new by (simp add: children_def)
        ultimately show ?thesis
          using that pq rc t eq finite_children [OF tree_invD(4) [OF inv], of p]
          by (auto simp: T ch split: if_splits)
      qed
    qed
    ultimately show ?thesis by (simp add: tree_inv_def)
  qed
qed

section \<open>All interleavings\<close>

text \<open>
  One critical section of some thread, with the ghost counts.  A thread only touches a table
  that it holds or has just read from the root or from a link of a live table.
\<close>

definition visible :: "lheap \<Rightarrow> tblptr \<Rightarrow> bool" where
  "visible h p \<longleftrightarrow> root_tbl h = Some p \<or>
     (\<exists>q t i. tables h q = Some t \<and> i < length (links t) \<and> next_table (links t ! i) = Some p)"

inductive tree_step :: "lheap \<times> (tblptr \<Rightarrow> nat) \<Rightarrow> lheap \<times> (tblptr \<Rightarrow> nat) \<Rightarrow> bool" where
  open_dir: "visible h p \<Longrightarrow> LinkTable_ref (Some p) h = Some h' \<Longrightarrow>
     tree_step (h, e) (h', e(p := e p + 1))"
| pin: "visible h p \<or> 0 < e p \<Longrightarrow> add_ref 1 p h = Some h' \<Longrightarrow>
     tree_step (h, e) (h', e(p := e p + 1))"
| unpin: "0 < e p \<Longrightarrow> add_ref (-1) p h = Some h' \<Longrightarrow>
     tree_step (h, e) (h', e(p := e p - 1))"
| orphan: "0 < e p \<Longrightarrow> root_tbl h \<noteq> Some p \<Longrightarrow> LinkTable_mark_orphaned (Some p) h = Some h' \<Longrightarrow>
     tree_step (h, e) (h', e)"
| unref: "0 < e p \<Longrightarrow> unref_step (Suc n) p h = Some (h', parent) \<Longrightarrow>
     tree_step (h, e) (h', moved p parent e)"
| attach: "0 < e p \<Longrightarrow> fresh_table nt \<Longrightarrow> attach (int r) (p, i) nt h = Some (q, h') \<Longrightarrow>
     tree_step (h, e) (h', e(q := e q + r))"

inductive tree_reachable :: "lheap \<times> (tblptr \<Rightarrow> nat) \<Rightarrow> bool" where
  init: "fresh_table t \<Longrightarrow>
     tree_reachable (\<lparr>tables = [0 \<mapsto> t], root_tbl = Some 0, next_addr = 1\<rparr>, \<lambda>_. 0)"
| step: "tree_reachable s \<Longrightarrow> tree_step s s' \<Longrightarrow> tree_reachable s'"

inductive_cases tree_stepE: "tree_step (h, e) s'"

lemma init_inv:
  assumes "fresh_table t"
  shows "tree_inv (\<lambda>_. 0) \<lparr>tables = [0 \<mapsto> t], root_tbl = Some 0, next_addr = 1\<rparr>"
  using assms by (auto simp: tree_inv_defs fresh_table_def children_def split: if_splits)

lemma tree_step_inv:
  assumes "tree_step (h, e) (h', e')" "tree_inv e h"
  shows "tree_inv e' h'"
  using assms(1)
proof (cases rule: tree_step.cases)
  case (open_dir p)
  then show ?thesis using LinkTable_ref_inv [OF assms(2)] by simp
next
  case (pin p)
  then show ?thesis using add_ref_inv [OF assms(2), of "e p + 1" p] by simp
next
  case (unpin p)
  then have "int (e p - 1) - int (e p) = -1" by simp
  with unpin show ?thesis using add_ref_inv [OF assms(2), of "e p - 1" p] by simp
next
  case (orphan p)
  then show ?thesis using mark_orphaned_inv [OF assms(2)] by simp
next
  case (unref p n parent)
  then show ?thesis using unref_step_inv [OF assms(2), of p n] by auto
next
  case (attach p nt r i q)
  then show ?thesis using attach_inv [OF assms(2)] by simp
qed

lemma tree_reachable_inv:
  assumes "tree_reachable (h, e)"
  shows "tree_inv e h"
proof -
  have "tree_reachable s \<Longrightarrow> tree_inv (snd s) (fst s)" for s
  proof (induction rule: tree_reachable.induct)
    case (init t)
    show ?case using init_inv [OF init] by (simp only: fst_conv snd_conv)
  next
    case (step s s')
    then show ?case using tree_step_inv [of "fst s" "snd s" "fst s'" "snd s'"] by simp
  qed
  from this [OF assms] show ?thesis by simp
qed

text \<open>A scenario for the witnesses: the root is pinned, a sub-table is loaded and opened.\<close>

definition demo_link :: Link where
  "demo_link = \<lparr>linkname = ''d'', linkpath = ''d/'', f_url = ''http://h/d/'', link_type = LINK_DIR,
    content_length = 0, next_table = None, link_time = 0, cache_ptr = None,
    sonic = \<lparr>sonic_ident = None, depth = 0\<rparr>\<rparr>"

definition demo_table :: LinkTable where
  "demo_table = \<lparr>index_time = 0, links = [demo_link], refcount = 0, orphaned = False,
    parent_tbl = None, parent_link = None\<rparr>"

lemma demo_reachable:
  "\<exists>h. tree_reachable (h, (\<lambda>_. 0)(1 := 1)) \<and> card (dom (tables h)) = 2 \<and> tables h 0 \<noteq> None"
proof -
  let ?h0 = "\<lparr>tables = [0 \<mapsto> demo_table], root_tbl = Some 0, next_addr = 1\<rparr>"
  let ?h1 = "put 0 (demo_table\<lparr>refcount := 1\<rparr>) ?h0"
  have fresh: "fresh_table demo_table" by (simp add: fresh_table_def demo_table_def demo_link_def)
  have h1: "add_ref 1 0 ?h0 = Some ?h1" by (simp add: add_ref_def demo_table_def)
  let ?e1 = "(\<lambda>_. 0)(0 := 1) :: nat \<Rightarrow> nat"
  let ?e2 = "?e1(1 := ?e1 1 + 1)"
  have v: "visible ?h0 0" by (simp add: visible_def)
  have "tree_step (?h0, \<lambda>_. 0) (?h1, ?e1)"
    using tree_step.pin [of ?h0 0 "\<lambda>_. 0" ?h1] v h1 by simp
  with tree_reachable.init [OF fresh] have s1: "tree_reachable (?h1, ?e1)" by (rule tree_reachable.step)
  obtain h2 where h2: "attach (int 1) (0, 0) demo_table ?h1 = Some (1, h2)"
    and t2: "dom (tables h2) = {0, 1}" "tables h2 0 \<noteq> None"
    by (auto simp: attach_def Let_def demo_table_def demo_link_def)
  have "tree_step (?h1, ?e1) (h2, ?e2)"
    by (rule tree_step.attach [OF _ fresh h2]) simp
  with s1 have s2: "tree_reachable (h2, ?e2)" by (rule tree_reachable.step)
  obtain h3 where h3: "add_ref (-1) 0 h2 = Some h3" and t3: "dom (tables h3) = {0, 1}"
    using t2 by (auto simp: add_ref_def)
  let ?e = ?e2
  have "tree_step (h2, ?e) (h3, ?e(0 := ?e 0 - 1))" by (rule tree_step.unpin [OF _ h3]) simp
  with s2 have "tree_reachable (h3, ?e(0 := ?e 0 - 1))" by (rule tree_reachable.step)
  moreover have "?e(0 := ?e 0 - 1) = (\<lambda>_. 0)(1 := 1)" by (auto simp: fun_eq_iff)
  moreover have "card (dom (tables h3)) = 2" "tables h3 0 \<noteq> None" using t3 by auto
  ultimately show ?thesis by metis
qed

lemma link_tree_refcounts_exact_parts:
  assumes "tree_reachable (h, e)"
  shows "tables h p = Some t \<Longrightarrow>
      refcount t = int (e p + card {q. \<exists>u. tables h q = Some u \<and> parent_tbl u = Some p})"
    and "0 < e p \<Longrightarrow> tables h p \<noteq> None"
    and "tables h p = Some t \<Longrightarrow> i < length (links t) \<Longrightarrow> next_table (links t ! i) = Some q \<Longrightarrow>
      \<exists>u. tables h q = Some u \<and> parent_tbl u = Some p \<and> parent_link u = Some (p, i)"
    and "root_tbl h = Some r \<Longrightarrow> tables h r \<noteq> None"
proof -
  have inv: "tree_inv e h" by (rule tree_reachable_inv [OF assms])
  show "tables h p = Some t \<Longrightarrow>
      refcount t = int (e p + card {q. \<exists>u. tables h q = Some u \<and> parent_tbl u = Some p})"
    using tree_invD(5) [OF inv] by (simp add: counts_ok_def children_def)
  show "0 < e p \<Longrightarrow> tables h p \<noteq> None" using held_live [OF inv, of p] by auto
  show "tables h p = Some t \<Longrightarrow> i < length (links t) \<Longrightarrow> next_table (links t ! i) = Some q \<Longrightarrow>
      \<exists>u. tables h q = Some u \<and> parent_tbl u = Some p \<and> parent_link u = Some (p, i)"
    by (rule down_okD [OF tree_invD(2) [OF inv]]) auto
  show "root_tbl h = Some r \<Longrightarrow> tables h r \<noteq> None"
    using tree_invD(3) [OF inv] by (auto simp: root_ok_def)
qed

text \<open>
  C19.  The reference counts of link tables are exact in every reachable state, whatever the
  interleaving of the threads' critical sections: the count of a live table is the number of
  references that threads hold on it plus the number of its attached sub-tables; a table on
  which a reference is held is live; the sub-table pointer of a link and the parent pointers of
  the sub-table agree; and the root is live.
\<close>

theorem link_tree_refcounts_exact:
  assumes "tree_reachable (h, e)"
  shows "(tables h p = Some t \<longrightarrow> (refcount t = int (e p + card {q. \<exists>u. tables h q = Some u \<and> parent_tbl u = Some p}))) \<and>
    (0 < e p \<longrightarrow> tables h p \<noteq> None) \<and>
    (tables h p = Some t \<longrightarrow> i < length (links t) \<longrightarrow> next_table (links t ! i) = Some q \<longrightarrow> (\<exists>u. tables h q = Some u \<and> parent_tbl u = Some p \<and> parent_link u = Some (p, i))) \<and>
    (root_tbl h = Some r \<longrightarrow> tables h r \<noteq> None)"
  using link_tree_refcounts_exact_parts [OF assms] by blast

theorem link_tree_refcounts_exact_witness:
  "\<exists>(h :: lheap) t. tables h 1 = Some t \<and>
     refcount t = int (1 + card {q. \<exists>u. tables h q = Some u \<and> parent_tbl u = Some 1})"
proof -
  obtain h where r: "tree_reachable (h, (\<lambda>_. 0)(1 := 1))" using demo_reachable by blast
  have "tables h 1 \<noteq> None" by (rule link_tree_refcounts_exact [OF r, THEN conjunct2, THEN conjunct1, rule_format]) simp
  then obtain t where t: "tables h 1 = Some t" by blast
  show ?thesis using link_tree_refcounts_exact [OF r, THEN conjunct1, rule_format, OF t] t
    by (intro exI [of _ h] exI [of _ t]) simp
qed

text \<open>
  No use after free.  In a reachable state \<open>LinkTable_unref\<close> of a reference that is held
  returns: it never reads a freed table, and as much fuel as there are live tables covers the
  walk up through the parents.  Afterwards every table on which a reference is still held is
  live, and the root is.
\<close>

theorem LinkTable_unref_safe:
  assumes "tree_reachable (h, e)" and "0 < e p" and "card (dom (tables h)) \<le> fuel"
  shows "\<exists>h'. LinkTable_unref fuel (Some p) h = Some h' \<and>
    (\<forall>q. 0 < (e(p := e p - 1)) q \<longrightarrow> tables h' q \<noteq> None) \<and>
    (\<forall>r. root_tbl h' = Some r \<longrightarrow> tables h' r \<noteq> None)"
proof -
  from LinkTable_unref_inv [OF tree_reachable_inv [OF assms(1)], where p = p and fuel = fuel] assms(2,3)
  obtain h' where h': "LinkTable_unref fuel (Some p) h = Some h'" "tree_inv (e(p := e p - 1)) h'"
    by blast
  have "tables h' q \<noteq> None" if "0 < (e(p := e p - 1)) q" for q
    using held_live [OF h'(2) that] by blast
  moreover have "tables h' r \<noteq> None" if "root_tbl h' = Some r" for r
    using tree_invD(3) [OF h'(2)] that by (auto simp: root_ok_def)
  ultimately show ?thesis using h'(1) by blast
qed

theorem LinkTable_unref_safe_witness:
  "\<exists>h h'. card (dom (tables h)) = 2 \<and> LinkTable_unref 2 (Some 1) h = Some h' \<and>
     (\<forall>r. root_tbl h' = Some r \<longrightarrow> tables h' r \<noteq> None)"
proof -
  obtain h where h: "tree_reachable (h, (\<lambda>_. 0)(1 := 1))" "card (dom (tables h)) = 2"
    using demo_reachable by blast
  have "0 < ((\<lambda>_. 0)(1 := 1 :: nat)) (1 :: nat)" "card (dom (tables h)) \<le> 2" using h(2) by simp_all
  from LinkTable_unref_safe [OF h(1) this] h(2) show ?thesis by blast
qed

end
