(* ===== verification/LinkTreePath.thy ===== *)
theory LinkTreePath
  imports LinkTreeRefs
begin

text \<open>
  Path resolution.  \<open>path_to_Link\<close> edits a buffer in place (one leading slash off, one
  trailing slash off, a terminator at the next slash); here it is shown to be the walk over the
  list of path components, and to hand out a counted reference.
\<close>

section \<open>The walk over path components\<close>

datatype walk_result = Found linkptr | Missing | Unloaded linkptr | Dangling

fun walk :: "lheap \<Rightarrow> tblptr \<Rightarrow> cstr list \<Rightarrow> walk_result" where
  "walk h p [] = Missing"
| "walk h p (n # ns) =
    (case tables h p of
       None \<Rightarrow> Dangling
     | Some t \<Rightarrow>
         (case lookup_entry n t of
            None \<Rightarrow> Missing
          | Some i \<Rightarrow>
              if ns = [] then Found (p, i)
              else (case next_table (links t ! i) of
                      None \<Rightarrow> Unloaded (p, i)
                    | Some q \<Rightarrow> walk h q ns)))"

definition component :: "cstr \<Rightarrow> bool" where
  "component n \<longleftrightarrow> n \<noteq> [] \<and> slash \<notin> set n"

definition join :: "cstr list \<Rightarrow> cstr" where
  "join ns = concat (map (\<lambda>n. slash # n) ns)"

lemma join_simps [simp]: "join [] = []" "join (n # ns) = slash # n @ join ns"
  by (simp_all add: join_def)

lemma find_entry_Some:
  "find_entry n k ls = Some i \<Longrightarrow>
   k \<le> i \<and> i < k + length ls \<and> take NAME_MAX (linkname (ls ! (i - k))) = take NAME_MAX n \<and>
   (\<forall>j < i - k. take NAME_MAX (linkname (ls ! j)) \<noteq> take NAME_MAX n)"
proof (induction ls arbitrary: k)
  case Nil
  then show ?case by simp
next
  case (Cons l ls)
  show ?case
  proof (cases "strncmp_eq n (linkname l) NAME_MAX")
    case True
    with Cons.prems show ?thesis by (simp add: strncmp_eq_def)
  next
    case False
    with Cons.prems have "find_entry n (Suc k) ls = Some i" by simp
    from Cons.IH [OF this] False show ?thesis
      by (auto simp: strncmp_eq_def nth_Cons less_Suc_eq_0_disj Suc_diff_le split: nat.splits)
  qed
qed

lemma find_entry_None:
  "find_entry n k ls = None \<longleftrightarrow> (\<forall>l \<in> set ls. take NAME_MAX (linkname l) \<noteq> take NAME_MAX n)"
  by (induction ls arbitrary: k) (auto simp: strncmp_eq_def)

text \<open>The entry found is the first after the head link with that name.\<close>

lemma lookup_entry_Some:
  assumes "lookup_entry n t = Some i"
  shows "1 \<le> i \<and> i < length (links t) \<and> take NAME_MAX (linkname (links t ! i)) = take NAME_MAX n"
proof -
  have *: "find_entry n 1 (tl (links t)) = Some i" using assms by (simp add: lookup_entry_def)
  from find_entry_Some [OF *] have "1 \<le> i" "i < 1 + length (tl (links t))"
    "take NAME_MAX (linkname (tl (links t) ! (i - 1))) = take NAME_MAX n" by simp_all
  then show ?thesis by (cases "links t") (auto simp: nth_Cons')
qed

lemma component_last: "component n \<Longrightarrow> last n \<noteq> slash"
  unfolding component_def by (metis last_in_set)

lemma join_last: "list_all component ns \<Longrightarrow> component n \<Longrightarrow> last (n @ join ns) \<noteq> slash"
proof (induction ns arbitrary: n)
  case Nil
  then show ?case by (simp add: component_last)
next
  case (Cons m ms)
  then have "last (m @ join ms) \<noteq> slash" by simp
  moreover have "m \<noteq> []" using Cons.prems by (simp add: component_def)
  ultimately show ?case by simp
qed

lemma skip_leading_component: "component n \<Longrightarrow> skip_leading (n @ s) = n @ s"
  by (cases n) (auto simp: skip_leading_def component_def)

lemma drop_trailing_join:
  assumes "list_all component ns" "component n" "length (n @ join ns) \<le> PATH_MAX"
  shows "drop_trailing (n @ join ns) = n @ join ns"
proof -
  let ?p = "n @ join ns"
  have "strnlen ?p PATH_MAX = length ?p" using assms(3) by (simp add: strnlen_def)
  moreover have "?p \<noteq> []" using assms(2) by (simp add: component_def)
  then have "?p ! (length ?p - 1) \<noteq> slash"
    using join_last [OF assms(1,2)] by (metis last_conv_nth)
  ultimately show ?thesis by (simp add: drop_trailing_def Let_def)
qed

lemma find_index_append: "\<forall>x \<in> set xs. \<not> P x \<Longrightarrow> P y \<Longrightarrow> find_index P (xs @ y # ys) = Some (length xs)"
  by (induction xs) auto

lemma strchr_join:
  "component n \<Longrightarrow> strchr (n @ join ns) slash = (if ns = [] then None else Some (length n))"
proof (cases ns)
  case Nil
  then show "component n \<Longrightarrow> ?thesis" by (auto simp: strchr_def component_def find_index_None)
next
  case (Cons m ms)
  assume "component n"
  then have "\<forall>x \<in> set n. x \<noteq> slash" by (auto simp: component_def)
  with Cons show ?thesis by (simp add: strchr_def find_index_append)
qed

lemma path_to_Link_recursive_walk:
  assumes "list_all component (n # ns)" "length (join (n # ns)) \<le> PATH_MAX"
    and "path0 = join (n # ns) \<or> path0 = n @ join ns"
  shows "walk h p (n # ns) = Found l \<Longrightarrow>
      path_to_Link_recursive md load fuel path0 (Some p) h = Some (Some l, h)"
    and "walk h p (n # ns) = Missing \<Longrightarrow>
      path_to_Link_recursive md load fuel path0 (Some p) h = Some (None, h)"
  using assms
proof (induction ns arbitrary: n p path0)
  case Nil
  {
    case (1 n p path0)
    then have path: "drop_trailing (skip_leading path0) = n" "path0 \<noteq> []"
      using drop_trailing_join [of "[]" n] skip_leading_component [of n "[]"]
      by (auto simp: skip_leading_def component_def)
    then show ?case using 1 strchr_join [of n "[]"]
      by (subst path_to_Link_recursive.simps) (auto split: option.splits)
  next
    case (2 n p path0)
    then have path: "drop_trailing (skip_leading path0) = n" "path0 \<noteq> []"
      using drop_trailing_join [of "[]" n] skip_leading_component [of n "[]"]
      by (auto simp: skip_leading_def component_def)
    then show ?case using 2 strchr_join [of n "[]"]
      by (subst path_to_Link_recursive.simps) (auto split: option.splits)
  }
next
  case (Cons m ms)
  have path: "drop_trailing (skip_leading path0) = n @ join (m # ms)" "path0 \<noteq> []"
    "strchr (n @ join (m # ms)) slash = Some (length n)"
    if "list_all component (n # m # ms)" "length (join (n # m # ms)) \<le> PATH_MAX"
      "path0 = join (n # m # ms) \<or> path0 = n @ join (m # ms)" for n path0
  proof -
    have sk: "skip_leading path0 = n @ join (m # ms)"
      using that skip_leading_component [of n "join (m # ms)"] by (auto simp: skip_leading_def)
    show "drop_trailing (skip_leading path0) = n @ join (m # ms)"
      unfolding sk by (rule drop_trailing_join) (use that in auto)
    show "path0 \<noteq> []" using that by (auto simp: component_def)
    show "strchr (n @ join (m # ms)) slash = Some (length n)"
      using that strchr_join [of n "m # ms"] by simp
  qed
  {
    case (1 n p path0)
    then obtain t i q where t: "tables h p = Some t" "lookup_entry n t = Some i"
      "next_table (links t ! i) = Some q" "walk h q (m # ms) = Found l"
      by (auto split: option.splits)
    have "path_to_Link_recursive md load fuel (m @ join ms) (Some q) h = Some (Some l, h)"
      by (rule Cons.IH(1) [OF t(4)]) (use 1 in auto)
    with t path [OF 1(2-4)] show ?case
      by (subst path_to_Link_recursive.simps) (simp del: join_simps, simp)
  next
    case (2 n p path0)
    note p = path [OF 2(2-4)]
    from 2 obtain t where t: "tables h p = Some t" by (auto split: option.splits)
    show ?case
    proof (cases "lookup_entry n t")
      case None
      with t p show ?thesis by (subst path_to_Link_recursive.simps) simp
    next
      case (Some i)
      with 2 t obtain q where q: "next_table (links t ! i) = Some q" "walk h q (m # ms) = Missing"
        by (auto split: option.splits)
      have "path_to_Link_recursive md load fuel (m @ join ms) (Some q) h = Some (None, h)"
        by (rule Cons.IH(2) [OF q(2)]) (use 2 in auto)
      with t Some q p show ?thesis
        by (subst path_to_Link_recursive.simps) (simp del: join_simps, simp)
    qed
  }
qed

section \<open>Resolution keeps the counts, also when it loads tables on the way\<close>

definition load_ok :: "(Link \<Rightarrow> LinkTable option) \<Rightarrow> bool" where
  "load_ok load \<longleftrightarrow> (\<forall>l t. load l = Some t \<longrightarrow> fresh_table t)"

lemma add_ref_Some: "tables h p = Some t \<Longrightarrow> add_ref d p h = Some (put p (t\<lparr>refcount := refcount t + d\<rparr>) h)"
  by (simp add: add_ref_def)

lemma attach_ok:
  assumes "tree_inv e h" "tables h p = Some t" "i < length (links t)"
  shows "\<exists>q h'. attach r (p, i) nt h = Some (q, h') \<and> tables h' q \<noteq> None \<and> tables h' p \<noteq> None \<and>
    card (dom (tables h')) \<le> card (dom (tables h)) + 1 \<and> root_tbl h' = root_tbl h"
proof (cases "next_table (links t ! i)")
  case None
  have "card (insert (next_addr h) (insert p (dom (tables h)))) \<le> card (dom (tables h)) + 1"
    using assms(2) tree_invD(4) [OF assms(1)]
    by (simp add: addr_ok_def card_insert_if insert_absorb domI)
  then show ?thesis using None assms(2,3) by (auto simp: attach_def Let_def)
next
  case (Some q)
  obtain u where "tables h q = Some u" by (rule down_okD [OF tree_invD(2) [OF assms(1)] assms(2,3) Some])
  then show ?thesis using Some assms(2,3)
    by (auto simp: attach_def insert_absorb domI)
qed

lemma pinned_again: "(e(p := e p + 1))(p := (e(p := e p + 1)) p - 1) = (e :: tblptr \<Rightarrow> nat)"
  by auto

lemma path_to_Link_recursive_safe:
  assumes "load_ok load" "md \<noteq> SINGLE"
  shows "tree_inv e h \<Longrightarrow> (\<And>p. tbl = Some p \<Longrightarrow> tables h p \<noteq> None) \<Longrightarrow>
    card (dom (tables h)) + length path0 \<le> fuel \<Longrightarrow>
    \<exists>r h'. path_to_Link_recursive md load fuel path0 tbl h = Some (r, h') \<and> tree_inv e h' \<and>
      card (dom (tables h')) \<le> card (dom (tables h)) + length path0 \<and>
      (\<forall>l. r = Some l \<longrightarrow> (\<exists>t. tables h' (fst l) = Some t \<and> 1 \<le> snd l \<and> snd l < length (links t)))"
proof (induction path0 arbitrary: tbl h rule: length_induct)
  case (1 path0)
  note inv = "1.prems"(1)
  show ?case
  proof (cases "tbl = None \<or> path0 = []")
    case True
    with inv show ?thesis by (subst path_to_Link_recursive.simps) (auto split: option.split)
  next
    case False
    then obtain p t where p: "tbl = Some p" "tables h p = Some t" "path0 \<noteq> []" using "1.prems"(2) by auto
    let ?path = "drop_trailing (skip_leading path0)"
    show ?thesis
    proof (cases "strchr ?path slash")
      case None
      with p inv show ?thesis
        by (subst path_to_Link_recursive.simps) (auto dest: lookup_entry_Some)
    next
      case (Some s)
      let ?rest = "drop (Suc s) ?path"
      have shorter: "length ?rest < length path0" using drop_shorter [OF p(3), of s] by simp
      show ?thesis
      proof (cases "lookup_entry (take s ?path) t")
        case None
        with p Some inv show ?thesis by (subst path_to_Link_recursive.simps) simp
      next
        case (Some i)
        note entry = this
        have i: "i < length (links t)" using lookup_entry_Some [OF Some] by simp
        show ?thesis
        proof (cases "next_table (links t ! i)")
          case (Some q)
          then obtain u where "tables h q = Some u" by (rule down_okD [OF tree_invD(2) [OF inv] p(2) i])
          with "1.IH" [rule_format, OF shorter inv, of "Some q"] "1.prems"(3) shorter
          have "\<exists>r h'. path_to_Link_recursive md load fuel ?rest (Some q) h = Some (r, h') \<and> tree_inv e h' \<and>
            card (dom (tables h')) \<le> card (dom (tables h)) + length path0 \<and>
            (\<forall>l. r = Some l \<longrightarrow> (\<exists>t. tables h' (fst l) = Some t \<and> 1 \<le> snd l \<and> snd l < length (links t)))"
            by fastforce
          with p entry Some \<open>strchr ?path slash = Some s\<close> show ?thesis
            by (subst path_to_Link_recursive.simps) simp
        next
          case None
          define h1 where "h1 = put p (t\<lparr>refcount := refcount t + 1\<rparr>) h"
          have h1: "add_ref 1 p h = Some h1" using p(2) by (simp add: add_ref_Some h1_def)
          have inv1: "tree_inv (e(p := e p + 1)) h1" using add_ref_inv [OF inv, of "e p + 1" p] h1 by simp
          have t1: "tables h1 p = Some (t\<lparr>refcount := refcount t + 1\<rparr>)" by (simp add: h1_def)
          have c1: "card (dom (tables h1)) = card (dom (tables h))"
            using p(2) by (simp add: h1_def insert_absorb domI)
          show ?thesis
          proof (cases "load (links t ! i)")
            case None
            have "0 < (e(p := e p + 1)) p" "card (dom (tables h1)) \<le> fuel" using c1 "1.prems"(3) by simp_all
            from LinkTable_unref_inv [OF inv1 this] obtain h2 where
              "LinkTable_unref fuel (Some p) h1 = Some h2" "tree_inv e h2"
              "card (dom (tables h2)) \<le> card (dom (tables h))" unfolding pinned_again c1 by blast
            with p entry \<open>strchr ?path slash = Some s\<close> \<open>next_table (links t ! i) = None\<close> None h1 assms(2)
            show ?thesis by (subst path_to_Link_recursive.simps) simp
          next
            case (Some nt)
            then have fresh: "fresh_table nt" using assms(1) by (simp add: load_ok_def)
            from attach_ok [OF inv1 t1, of i 0 nt] i obtain q h2 where
              h2: "attach 0 (p, i) nt h1 = Some (q, h2)" "tables h2 q \<noteq> None" "tables h2 p \<noteq> None"
                "card (dom (tables h2)) \<le> card (dom (tables h1)) + 1" by auto
            have inv2: "tree_inv (e(p := e p + 1)) h2"
              using attach_inv [OF inv1, of 0 p i nt q h2] h2(1) fresh by (simp add: fun_upd_idem)
            obtain t2 where t2: "tables h2 p = Some t2" using h2(3) by blast
            define h3 where "h3 = put p (t2\<lparr>refcount := refcount t2 - 1\<rparr>) h2"
            have h3: "add_ref (-1) p h2 = Some h3" using t2 by (simp add: add_ref_Some h3_def)
            have "tree_inv ((e(p := e p + 1))(p := e p)) h3"
              by (rule add_ref_inv [OF inv2]) (simp add: h3)
            then have inv3: "tree_inv e h3" by simp
            have q3: "tables h3 q \<noteq> None" using h2(2) t2 by (simp add: h3_def)
            have c3: "card (dom (tables h3)) = card (dom (tables h2))"
              using t2 by (simp add: h3_def insert_absorb domI)
            have le3: "card (dom (tables h3)) + length ?rest \<le> card (dom (tables h)) + length path0"
              using c3 h2(4) c1 shorter by linarith
            then have "card (dom (tables h3)) + length ?rest \<le> fuel" using "1.prems"(3) by linarith
            with "1.IH" [rule_format, OF shorter inv3, of "Some q"] q3 le3
            have "\<exists>r h'. path_to_Link_recursive md load fuel ?rest (Some q) h3 = Some (r, h') \<and> tree_inv e h' \<and>
              card (dom (tables h')) \<le> card (dom (tables h)) + length path0 \<and>
              (\<forall>l. r = Some l \<longrightarrow> (\<exists>t. tables h' (fst l) = Some t \<and> 1 \<le> snd l \<and> snd l < length (links t)))"
              by fastforce
            with p entry \<open>strchr ?path slash = Some s\<close> \<open>next_table (links t ! i) = None\<close> Some h1 h2(1) h3 assms(2)
            show ?thesis by (subst path_to_Link_recursive.simps) simp
          qed
        qed
      qed
    qed
  qed
qed

lemma path_to_Link_safe_inv:
  assumes "load_ok load" "md \<noteq> SINGLE" and inv: "tree_inv e h"
    and fuel: "card (dom (tables h)) + length path \<le> fuel"
  shows "\<exists>r h'. path_to_Link md load fuel path h = Some (r, h') \<and>
    card (dom (tables h')) \<le> card (dom (tables h)) + length path \<and>
    (case r of None \<Rightarrow> tree_inv e h'
     | Some l \<Rightarrow> tree_inv (e(fst l := e (fst l) + 1)) h' \<and> get_link l h' \<noteq> None)"
proof -
  have root: "tables h p \<noteq> None" if "root_tbl h = Some p" for p
    using tree_invD(3) [OF inv] that by (auto simp: root_ok_def)
  have "card (dom (tables h)) + length (strndup path PATH_MAX) \<le> fuel"
    using fuel by (simp add: strndup_def)
  from path_to_Link_recursive_safe [OF assms(1,2) inv root this] obtain r h' where
    r: "path_to_Link_recursive md load fuel (strndup path PATH_MAX) (root_tbl h) h = Some (r, h')"
    and inv': "tree_inv e h'"
    and c': "card (dom (tables h')) \<le> card (dom (tables h)) + length (strndup path PATH_MAX)"
    and l: "\<forall>l. r = Some l \<longrightarrow> (\<exists>t. tables h' (fst l) = Some t \<and> 1 \<le> snd l \<and> snd l < length (links t))"
    by blast
  have c: "card (dom (tables h')) \<le> card (dom (tables h)) + length path"
    using c' by (simp add: strndup_def)
  show ?thesis
  proof (cases r)
    case None
    with r inv' c show ?thesis by (simp add: path_to_Link_def)
  next
    case (Some k)
    with l obtain t where t: "tables h' (fst k) = Some t" "snd k < length (links t)" by blast
    let ?h = "put (fst k) (t\<lparr>refcount := refcount t + 1\<rparr>) h'"
    have a: "add_ref 1 (fst k) h' = Some ?h" using t by (simp add: add_ref_Some)
    have "tree_inv (e(fst k := e (fst k) + 1)) ?h"
      using add_ref_inv [OF inv', of "e (fst k) + 1" "fst k"] a by simp
    moreover have "get_link k ?h \<noteq> None" using t by (simp add: get_link_def)
    moreover have "dom (tables ?h) = dom (tables h')" using t by auto
    ultimately show ?thesis using r Some a c by (simp add: path_to_Link_def)
  qed
qed

section \<open>Properties\<close>

lemma path_to_Link_resolves_parts:
  assumes "list_all component ns" "ns \<noteq> []" "length (join ns) \<le> PATH_MAX" "root_tbl h = Some r"
  shows "walk h r ns = Missing \<Longrightarrow> path_to_Link md load fuel (join ns) h = Some (None, h)"
    and "walk h r ns = Found (p, i) \<Longrightarrow> tables h p = Some t \<Longrightarrow>
      path_to_Link md load fuel (join ns) h =
        Some (Some (p, i), put p (t\<lparr>refcount := refcount t + 1\<rparr>) h)"
proof -
  obtain n ms where ns: "ns = n # ms" using assms(2) by (cases ns) auto
  have dup: "strndup (join ns) PATH_MAX = join ns" using assms(3) by (simp add: strndup_def)
  have all: "list_all component (n # ms)" "length (join (n # ms)) \<le> PATH_MAX"
    using assms(1,3) by (simp_all only: ns)
  have rec1: "path_to_Link_recursive md load fuel (join ns) (Some r) h = Some (None, h)"
    if "walk h r ns = Missing"
    unfolding ns by (rule path_to_Link_recursive_walk(2) [OF all disjI1 [OF refl]])
      (use that in \<open>simp only: ns\<close>)
  have rec2: "path_to_Link_recursive md load fuel (join ns) (Some r) h = Some (Some (p, i), h)"
    if "walk h r ns = Found (p, i)"
    unfolding ns by (rule path_to_Link_recursive_walk(1) [OF all disjI1 [OF refl]])
      (use that in \<open>simp only: ns\<close>)
  show "path_to_Link md load fuel (join ns) h = Some (None, h)" if "walk h r ns = Missing"
    using rec1 [OF that] by (simp add: path_to_Link_def dup assms(4))
  show "path_to_Link md load fuel (join ns) h =
        Some (Some (p, i), put p (t\<lparr>refcount := refcount t + 1\<rparr>) h)"
    if "walk h r ns = Found (p, i)" "tables h p = Some t"
    using rec2 [OF that(1)] that(2) by (simp add: path_to_Link_def dup assms(4) add_ref_Some)
qed


definition demo_dir :: LinkTable where
  "demo_dir = demo_table\<lparr>links := [demo_link\<lparr>linkname := ''/''\<rparr>, demo_link]\<rparr>"


text \<open>
  Resolution is safe, also when it loads the tables of directories on its way and releases
  the lock while it does: in a reachable state \<open>path_to_Link\<close> returns, touches no freed table,
  hands out a link of a live table with exactly one new reference on that table, and leaves
  every other count as it was (also after a download that failed).
\<close>

theorem path_to_Link_safe:
  assumes "tree_reachable (h, e)" "load_ok load" "md \<noteq> SINGLE"
    and "card (dom (tables h)) + length path \<le> fuel"
  shows "\<exists>r h'. path_to_Link md load fuel path h = Some (r, h') \<and>
    (case r of None \<Rightarrow> tree_inv e h'
     | Some l \<Rightarrow> tree_inv (e(fst l := e (fst l) + 1)) h' \<and> get_link l h' \<noteq> None)"
  using path_to_Link_safe_inv [OF assms(2,3) tree_reachable_inv [OF assms(1)] assms(4)] by blast

theorem path_to_Link_safe_witness:
  "\<exists>h r h'. tables h 0 \<noteq> None \<and> path_to_Link NORMAL (\<lambda>_. Some demo_table) 6 ''/d/d'' h = Some (r, h')"
proof -
  obtain h where h: "tree_reachable (h, (\<lambda>_. 0)(1 := 1))" "card (dom (tables h)) = 2" "tables h 0 \<noteq> None"
    using demo_reachable by blast
  have l: "load_ok (\<lambda>_. Some demo_table)"
    by (simp add: load_ok_def fresh_table_def demo_table_def demo_link_def)
  have "card (dom (tables h)) + length ''/d/d'' \<le> 6" using h(2) by simp
  from path_to_Link_safe [OF h(1) l _ this, of NORMAL] h(3) show ?thesis by auto
qed

definition refill_ok :: "(LinkTable \<Rightarrow> LinkTable) \<Rightarrow> bool" where
  "refill_ok refill \<longleftrightarrow> (\<forall>t. same_links t (refill t) \<and> refcount (refill t) = refcount t \<and>
     orphaned (refill t) = orphaned t)"

lemma refill_inv:
  assumes "tree_inv e h" "refill_ok refill" "tables h q = Some u"
  shows "tree_inv e (put q (refill u) h)"
proof -
  have "same_links u (refill u)" "refcount (refill u) = refcount u" "orphaned (refill u) = orphaned u"
    using assms(2) by (simp_all add: refill_ok_def)
  with tree_inv_put [OF assms(1,3), of "refill u" "e q"] root_not_orphaned [OF assms(1) _ assms(3)]
  show ?thesis by simp
qed

lemma path_to_LinkTable_safe_inv:
  assumes "load_ok load" "refill_ok refill" "mode cfg \<noteq> SINGLE" and inv: "tree_inv e h"
    and fuel: "card (dom (tables h)) + length path + 1 \<le> fuel"
  shows "\<exists>r h'. path_to_LinkTable cfg load refill fuel path h = Some (r, h') \<and>
    card (dom (tables h')) \<le> card (dom (tables h)) + length path + 1 \<and>
    (case r of None \<Rightarrow> tree_inv e h'
     | Some q \<Rightarrow> tree_inv (e(q := e q + 1)) h' \<and> tables h' q \<noteq> None)"
proof (cases "path = [slash]")
  case True
  show ?thesis
  proof (cases "root_tbl h")
    case None
    with True inv show ?thesis by (simp add: path_to_LinkTable_def LinkTable_ref_def)
  next
    case (Some p)
    then obtain t where "tables h p = Some t" using tree_invD(3) [OF inv] by (auto simp: root_ok_def)
    then obtain h' where h': "LinkTable_ref (Some p) h = Some h'" "tables h' p \<noteq> None" "dom (tables h') = dom (tables h)"
      by (auto simp: LinkTable_ref_def)
    with LinkTable_ref_inv [OF inv h'(1)] True Some show ?thesis
      by (simp add: path_to_LinkTable_def)
  qed
next
  case False
  have "card (dom (tables h)) + length path \<le> fuel" using fuel by simp
  from path_to_Link_safe_inv [OF assms(1,3) inv this] obtain r h1 where
    r: "path_to_Link (mode cfg) load fuel path h = Some (r, h1)"
    and c1: "card (dom (tables h1)) \<le> card (dom (tables h)) + length path"
    and s1: "case r of None \<Rightarrow> tree_inv e h1
     | Some l \<Rightarrow> tree_inv (e(fst l := e (fst l) + 1)) h1 \<and> get_link l h1 \<noteq> None" by blast
  show ?thesis
  proof (cases r)
    case None
    with r c1 s1 False show ?thesis by (simp add: path_to_LinkTable_def)
  next
    case (Some l)
    let ?p = "fst l"
    let ?e1 = "e(?p := e ?p + 1)"
    from s1 Some obtain link where inv1: "tree_inv ?e1 h1" and link: "get_link l h1 = Some link" by auto
    then obtain t where t: "tables h1 ?p = Some t" "snd l < length (links t)" "link = links t ! snd l"
      by (auto simp: get_link_def split: option.splits if_splits)
    have drop: "\<exists>h'. LinkTable_unref fuel (Some ?p) g = Some h' \<and> tree_inv (e(q := e q + n)) h' \<and>
        card (dom (tables h')) \<le> card (dom (tables g))"
      if "tree_inv (?e1(q := ?e1 q + n)) g" "card (dom (tables g)) \<le> fuel" for g q n
    proof -
      let ?e = "?e1(q := ?e1 q + n)"
      have "0 < ?e ?p" by simp
      from LinkTable_unref_inv [OF that(1) this that(2)] obtain h' where
        "LinkTable_unref fuel (Some ?p) g = Some h'" "tree_inv (?e(?p := ?e ?p - 1)) h'"
        "card (dom (tables h')) \<le> card (dom (tables g))" by blast
      moreover have "?e(?p := ?e ?p - 1) = e(q := e q + n)" by (auto simp: fun_eq_iff)
      ultimately show ?thesis by auto
    qed
    show ?thesis
    proof (cases "next_table link")
      case (Some q)
      then obtain u where u: "tables h1 q = Some u"
        using down_okD [OF tree_invD(2) [OF inv1] t(1,2)] t(3) by metis
      then obtain h2 where h2: "LinkTable_ref (Some q) h1 = Some h2" "dom (tables h2) = dom (tables h1)"
        by (auto simp: LinkTable_ref_def)
      from LinkTable_ref_inv [OF inv1 h2(1)] drop [of q 1 h2] h2(2) c1 fuel obtain h3 where
        h3: "LinkTable_unref fuel (Some ?p) h2 = Some h3" "tree_inv (e(q := e q + 1)) h3"
        "card (dom (tables h3)) \<le> card (dom (tables h2))" by auto
      moreover have "tables h3 q \<noteq> None" using held_live [OF h3(2), of q] by auto
      ultimately show ?thesis using False r \<open>r = Some l\<close> link Some h2 c1
        by (simp add: path_to_LinkTable_def)
    next
      case None
      show ?thesis
      proof (cases "load link")
        case None
        have "tree_inv (?e1(0 := ?e1 0 + 0)) h1" using inv1 by (simp add: fun_upd_idem)
        from drop [OF this] c1 fuel obtain h2 where
          "LinkTable_unref fuel (Some ?p) h1 = Some h2" "tree_inv e h2"
          "card (dom (tables h2)) \<le> card (dom (tables h1))" by (auto simp: fun_upd_idem)
        then show ?thesis using False r \<open>r = Some l\<close> link \<open>next_table link = None\<close> None c1
          by (simp add: path_to_LinkTable_def)
      next
        case (Some nt)
        then have fresh: "fresh_table nt" using assms(1) by (simp add: load_ok_def)
        from attach_ok [OF inv1 t(1,2), of 1 nt] obtain q h2 where
          h2: "attach 1 l nt h1 = Some (q, h2)" "tables h2 q \<noteq> None"
            "card (dom (tables h2)) \<le> card (dom (tables h1)) + 1" by auto
        have inv2: "tree_inv (?e1(q := ?e1 q + 1)) h2"
          using attach_inv [OF inv1, of 1 ?p "snd l" nt q h2] h2(1) fresh by simp
        let ?h3 = "if invalid_refresh cfg then (case tables h2 q of Some u \<Rightarrow> put q (refill u) h2 | None \<Rightarrow> h2)
          else h2"
        have inv3: "tree_inv (?e1(q := ?e1 q + 1)) ?h3"
          using inv2 refill_inv [OF inv2 assms(2)] by (auto split: option.split)
        have "dom (tables ?h3) = dom (tables h2)" by (auto split: option.split)
        then have c3: "card (dom (tables ?h3)) \<le> card (dom (tables h)) + length path + 1" using h2(3) c1 by simp
        then have "card (dom (tables ?h3)) \<le> fuel" using fuel by simp
        from drop [OF inv3 this] obtain h4 where
          h4: "LinkTable_unref fuel (Some ?p) ?h3 = Some h4" "tree_inv (e(q := e q + 1)) h4"
          "card (dom (tables h4)) \<le> card (dom (tables ?h3))" by blast
        moreover have "tables h4 q \<noteq> None" using held_live [OF h4(2), of q] by auto
        ultimately show ?thesis using False r \<open>r = Some l\<close> link \<open>next_table link = None\<close> Some h2(1) c3
          by (simp add: path_to_LinkTable_def Let_def)
      qed
    qed
  qed
qed

text \<open>
  \<open>path_to_LinkTable\<close>, behind \<open>opendir\<close>, hands out a live table with exactly one new
  reference for the directory handle, and drops the reference on the parent that the lookup
  took, whether the table was there, had to be downloaded, or could not be.
\<close>

theorem path_to_LinkTable_safe:
  assumes "tree_reachable (h, e)" "load_ok load" "refill_ok refill" "mode cfg \<noteq> SINGLE"
    and "card (dom (tables h)) + length path + 1 \<le> fuel"
  shows "\<exists>r h'. path_to_LinkTable cfg load refill fuel path h = Some (r, h') \<and>
    (case r of None \<Rightarrow> tree_inv e h'
     | Some q \<Rightarrow> tree_inv (e(q := e q + 1)) h' \<and> tables h' q \<noteq> None)"
proof -
  note inv = tree_reachable_inv [OF assms(1)]
  show ?thesis using path_to_LinkTable_safe_inv [OF assms(2-4) inv assms(5)] by blast
qed

theorem path_to_LinkTable_safe_witness:
  "\<exists>h r h'. path_to_LinkTable (Config_init ''httpdirfs'' 15) (\<lambda>_. Some demo_table) id 7 ''/d/d'' h = Some (r, h')"
proof -
  obtain h where h: "tree_reachable (h, (\<lambda>_. 0)(1 := 1))" "card (dom (tables h)) = 2"
    using demo_reachable by blast
  have l: "load_ok (\<lambda>_. Some demo_table)"
    by (simp add: load_ok_def fresh_table_def demo_table_def demo_link_def)
  have r: "refill_ok id" by (simp add: refill_ok_def same_links_def)
  have "card (dom (tables h)) + length ''/d/d'' + 1 \<le> 7" using h(2) by simp
  from path_to_LinkTable_safe [OF h(1) l r _ this, of "Config_init ''httpdirfs'' 15"]
  show ?thesis by (auto simp: Config_init_def)
qed

end
