(* ===== verification/CacheFile.thy ===== *)
theory CacheFile
  imports LinkTree
begin

text \<open>
  \<open>src/cache.c\<close>, the files of the permanent cache: the metadata file (\<open>Meta_read\<close>,
  \<open>Meta_write\<close>), the sparse data file (\<open>Data_*\<close>), the segment map (\<open>Seg_exist\<close>,
  \<open>Seg_set\<close>) and the pairing check \<open>Cache_exist\<close>.

  The file system is a map from full path names to contents; an open \<open>FILE *\<close> is the path it
  was opened with (no cache file is unlinked while it is open in a \<open>Cache\<close>).  What the system
  calls may do wrong is an argument: a record that says which of the calls of this invocation
  fail, and after how many bytes a read or write stops.
\<close>

type_synonym fs = "cstr \<Rightarrow> byte list option"

record cache_dirs =
  META_DIR :: cstr
  DATA_DIR :: cstr

record faults =
  f_open :: bool
  f_create :: bool
  f_seek :: bool
  f_close :: bool
  f_stat_meta :: bool
  f_stat_data :: bool
  f_unlink :: bool
  f_truncate :: bool
  f_read_core :: bool
  f_read_rest :: "nat option"
  f_write :: "nat option"

definition no_faults :: faults where
  "no_faults = \<lparr>f_open = False, f_create = False, f_seek = False, f_close = False,
     f_stat_meta = False, f_stat_data = False, f_unlink = False, f_truncate = False,
     f_read_core = False, f_read_rest = None, f_write = None\<rparr>"

text \<open>The fields of \<open>Cache\<close>; the list of active downloads has its own model.\<close>

record Cache =
  cache_opened :: int
  dfp :: "cstr option"
  mfp :: "cstr option"
  cpath :: cstr
  clink :: "linkptr option"
  blksz :: int
  segbc :: int
  seg :: "byte list"
  bgt_sem :: int
  waiters :: int
  shutting_down :: bool
  num_bg_workers :: int

definition contents :: "fs \<Rightarrow> cstr \<Rightarrow> byte list" where
  "contents fs p = (case fs p of Some bs \<Rightarrow> bs | None \<Rightarrow> [])"

lemma contents_upd [simp]: "contents (fs(p \<mapsto> bs)) q = (if q = p then bs else contents fs q)"
  by (simp add: contents_def)

section \<open>The segment count\<close>

text \<open>\<open>max_segbc\<close> of \<open>Meta_read\<close>, with the cap at \<open>INT_MAX\<close>.\<close>

definition max_segbc_of :: "int \<Rightarrow> int \<Rightarrow> int" where
  "max_segbc_of disk_content_length bs =
    (let m = c_div disk_content_length bs
     in if m \<ge> INT_MAX then INT_MAX
        else if c_mod disk_content_length bs \<noteq> 0 then m + 1 else m)"

text \<open>\<open>expected_segbc\<close> of \<open>Meta_write\<close>.\<close>

definition expected_segbc_of :: "int \<Rightarrow> int \<Rightarrow> int" where
  "expected_segbc_of write_content_length bs =
    (if bs > 0 \<and> write_content_length > 0 then
       (let m = c_div write_content_length bs
        in if m \<ge> INT_MAX then INT_MAX
           else if c_mod write_content_length bs \<noteq> 0 then m + 1 else m)
     else 0)"

text \<open>The computation of \<open>Cache_create\<close>, in unsigned arithmetic.\<close>

definition create_segbc :: "nat \<Rightarrow> int \<Rightarrow> int" where
  "create_segbc len bs =
    (let calculated_segbc = len div to_size bs
     in if int calculated_segbc \<ge> INT_MAX then INT_MAX
        else if len mod to_size bs \<noteq> 0 then int calculated_segbc + 1 else int calculated_segbc)"

section \<open>The metadata file\<close>

definition Meta_read :: "Link option \<Rightarrow> faults \<Rightarrow> fs \<Rightarrow> Cache \<Rightarrow> int \<times> Cache" where
  "Meta_read link flt fs cf =
    (case mfp cf of
       None \<Rightarrow> (EIO, cf)
     | Some fp \<Rightarrow>
       if f_seek flt then (EIO, cf)
       else case link of
         None \<Rightarrow> (EINVAL, cf)
       | Some lk \<Rightarrow>
         (let bs = contents fs fp;
              disk_time = dec_int 8 (slice 0 8 bs);
              disk_content_length = dec_int 8 (slice 8 8 bs);
              cf1 = (if 20 \<le> length bs then cf\<lparr>blksz := dec_int 4 (slice 16 4 bs)\<rparr> else cf);
              cf2 = (if 28 \<le> length bs then cf1\<lparr>segbc := dec_int 8 (slice 20 8 bs)\<rparr> else cf1)
          in if length bs < 28 \<or> f_read_core flt then (EIO, cf2)
             else if disk_content_length \<le> 0 \<or> blksz cf2 \<le> 0 \<or> segbc cf2 \<le> 0 then (EBADMSG, cf2)
             else if disk_content_length > INT64_MAX - blksz cf2 then (EBADMSG, cf2)
             else if disk_time \<noteq> link_time lk then (EBADMSG, cf2)
             else if to_size disk_content_length \<noteq> content_length lk then (EBADMSG, cf2)
             else if segbc cf2 \<noteq> max_segbc_of disk_content_length (blksz cf2) then (EBADMSG, cf2)
             else (let n = nat (segbc cf2);
                       got = (case f_read_rest flt of
                                None \<Rightarrow> slice 28 n bs
                              | Some k \<Rightarrow> take k (slice 28 n bs));
                       nmemb = length got;
                       eof = (f_read_rest flt = None \<and> length bs - 28 < n);
                       cf3 = cf2\<lparr>seg := got @ replicate (n - nmemb) 0\<rparr>
                   in if eof then (EBADMSG, cf3)
                      else if f_read_rest flt \<noteq> None then (EIO, cf3)
                      else if nmemb \<noteq> n then (EBADMSG, cf3)
                      else (0, cf3))))"

definition meta_bytes :: "Link \<Rightarrow> Cache \<Rightarrow> byte list" where
  "meta_bytes lk cf =
     enc_int 8 (link_time lk) @ enc_int 8 (to_off (content_length lk)) @ enc_int 4 (blksz cf) @
     enc_int 8 (segbc cf) @ take (nat (segbc cf)) (seg cf)"

definition Meta_write :: "Link option \<Rightarrow> faults \<Rightarrow> fs \<Rightarrow> Cache \<Rightarrow> int \<times> fs" where
  "Meta_write link flt fs cf =
    (case mfp cf of
       None \<Rightarrow> (-1, fs)
     | Some fp \<Rightarrow>
       if f_seek flt then (-1, fs)
       else case link of
         None \<Rightarrow> (-1, fs)
       | Some lk \<Rightarrow>
         (let write_content_length = to_off (content_length lk)
          in if write_content_length \<le> 0 \<or> to_size write_content_length \<noteq> content_length lk \<or>
                blksz cf \<le> 0 \<or> segbc cf \<noteq> expected_segbc_of write_content_length (blksz cf) \<or>
                segbc cf \<le> 0
             then (-1, fs)
             else (case f_write flt of
                     None \<Rightarrow> (0, fs(fp \<mapsto> overwrite 0 0 (meta_bytes lk cf) (contents fs fp)))
                   | Some k \<Rightarrow>
                       (-1, fs(fp \<mapsto> overwrite 0 0 (take k (meta_bytes lk cf)) (contents fs fp))))))"

section \<open>The data file\<close>

definition Data_create :: "cache_dirs \<Rightarrow> Link option \<Rightarrow> faults \<Rightarrow> fs \<Rightarrow> Cache \<Rightarrow> fs option" where
  "Data_create d link flt fs cf =
    (let datafn = path_append (DATA_DIR d) (cpath cf)
     in if f_create flt then None
        else (let fs1 = (if fs datafn = None then fs(datafn \<mapsto> []) else fs)
              in case link of
                   None \<Rightarrow> None
                 | Some lk \<Rightarrow>
                   (let truncate_size = to_off (content_length lk)
                    in if truncate_size < 0 \<or> to_size truncate_size \<noteq> content_length lk then None
                       else (let n = nat truncate_size;
                                 old = contents fs1 datafn;
                                 fs2 = (if f_truncate flt then fs1
                                        else fs1(datafn \<mapsto> take n old @ replicate (n - length old) 0))
                             in if f_close flt then None else Some fs2))))"

definition Data_size :: "cache_dirs \<Rightarrow> faults \<Rightarrow> fs \<Rightarrow> cstr \<Rightarrow> int" where
  "Data_size d flt fs fn =
    (case fs (path_append (DATA_DIR d) fn) of
       None \<Rightarrow> -1
     | Some bs \<Rightarrow> if f_stat_data flt then -1 else int (length bs))"

text \<open>\<open>Data_read\<close> returns the byte count or an error, and the bytes stored into the buffer.\<close>

definition Data_read :: "Link option \<Rightarrow> faults \<Rightarrow> fs \<Rightarrow> Cache \<Rightarrow> int \<Rightarrow> int \<Rightarrow> int \<times> byte list" where
  "Data_read link flt fs cf len offset =
    (case link of
       None \<Rightarrow> (- EINVAL, [])
     | Some lk \<Rightarrow>
       (let total_len = to_off (content_length lk)
        in if total_len < 0 \<or> to_size total_len \<noteq> content_length lk then (- EINVAL, [])
           else if len < 0 then (- EINVAL, [])
           else if len = 0 then (- EINVAL, [])
           else if offset < 0 \<or> offset \<ge> total_len then (0, [])
           else (let len' = (if len > total_len - offset then total_len - offset else len)
                 in if f_seek flt then (- EIO, [])
                    else (let bs = slice (nat offset) (nat len')
                                     (case dfp cf of Some fp \<Rightarrow> contents fs fp | None \<Rightarrow> []);
                              got = (case f_read_rest flt of None \<Rightarrow> bs | Some k \<Rightarrow> take k bs)
                          in (int (length got), got)))))"

text \<open>\<open>Data_write\<close> of the first \<open>len\<close> bytes of the buffer.\<close>

definition Data_write :: "faults \<Rightarrow> fs \<Rightarrow> Cache \<Rightarrow> byte list \<Rightarrow> int \<Rightarrow> int \<Rightarrow> int \<times> fs" where
  "Data_write flt fs cf buf len offset =
    (if len \<le> 0 then (- EINVAL, fs)
     else if f_seek flt \<or> offset < 0 then (- EIO, fs)
     else (case dfp cf of
             None \<Rightarrow> (- EIO, fs)
           | Some fp \<Rightarrow>
             (let bs = take (nat len) buf;
                  put_bytes = (case f_write flt of None \<Rightarrow> bs | Some k \<Rightarrow> take k bs)
              in (int (length put_bytes),
                  if put_bytes = [] then fs
                  else fs(fp \<mapsto> overwrite 0 (nat offset) put_bytes (contents fs fp))))))"

section \<open>The segment map\<close>

definition Seg_exist :: "Cache \<Rightarrow> int \<Rightarrow> int" where
  "Seg_exist cf offset =
    (if segbc cf \<le> 0 \<or> blksz cf \<le> 0 then 0
     else (let i = c_div offset (blksz cf)
           in if i < 0 \<or> i \<ge> segbc cf then 0 else uint (seg cf ! nat i)))"

definition Seg_set :: "Cache \<Rightarrow> int \<Rightarrow> byte \<Rightarrow> Cache" where
  "Seg_set cf offset v =
    (if segbc cf \<le> 0 \<or> blksz cf \<le> 0 then cf
     else (let i = c_div offset (blksz cf)
           in if i < 0 \<or> i \<ge> segbc cf then cf else cf\<lparr>seg := (seg cf)[nat i := v]\<rparr>))"

section \<open>Allocation, opening and the pairing of the two files\<close>

definition Cache_alloc :: "ConfigStruct \<Rightarrow> Cache" where
  "Cache_alloc cfg =
    (let n = c_div (min (max_conns cfg) DEFAULT_NETWORK_MAX_CONNS) 2;
         workers = (if n \<le> 0 then 1 else n)
     in \<lparr>cache_opened = 1, dfp = None, mfp = None, cpath = [], clink = None, blksz = 0, segbc = 0,
         seg = [], bgt_sem = sem_init (nat workers), waiters = 0, shutting_down = False,
         num_bg_workers = workers\<rparr>)"

definition Data_open :: "cache_dirs \<Rightarrow> faults \<Rightarrow> fs \<Rightarrow> Cache \<Rightarrow> int \<times> Cache" where
  "Data_open d flt fs cf =
    (let datafn = path_append (DATA_DIR d) (cpath cf)
     in if fs datafn = None \<or> f_open flt then (-1, cf\<lparr>dfp := None\<rparr>)
        else (0, cf\<lparr>dfp := Some datafn\<rparr>))"

definition Meta_open :: "cache_dirs \<Rightarrow> faults \<Rightarrow> fs \<Rightarrow> Cache \<Rightarrow> int \<times> Cache" where
  "Meta_open d flt fs cf =
    (let metafn = path_append (META_DIR d) (cpath cf)
     in if fs metafn = None \<or> f_open flt then (-1, cf\<lparr>mfp := None\<rparr>)
        else (0, cf\<lparr>mfp := Some metafn\<rparr>))"

definition Meta_create :: "cache_dirs \<Rightarrow> faults \<Rightarrow> fs \<Rightarrow> Cache \<Rightarrow> fs option" where
  "Meta_create d flt fs cf =
    (if f_create flt then None else Some (fs(path_append (META_DIR d) (cpath cf) \<mapsto> [])))"

text \<open>\<open>unlink\<close> with ENOENT ignored; the flag is any other failure.\<close>

definition unlink_file :: "faults \<Rightarrow> fs \<Rightarrow> cstr \<Rightarrow> bool \<times> fs" where
  "unlink_file flt fs p = (if f_unlink flt then (fs p = None, fs) else (True, fs(p := None)))"

definition Cache_exist :: "cache_dirs \<Rightarrow> faults \<Rightarrow> fs \<Rightarrow> cstr \<Rightarrow> (int \<times> fs) option" where
  "Cache_exist d flt fs fn =
    (let metafn = path_append (META_DIR d) fn;
         datafn = path_append (DATA_DIR d) fn;
         no_meta = (f_stat_meta flt \<or> fs metafn = None \<or> fs metafn = Some []);
         no_data = (f_stat_data flt \<or> fs datafn = None \<or> fs datafn = Some []);
         ret = (if no_meta \<or> no_data then 1 else 0)
     in if no_meta = no_data then Some (ret, fs)
        else (let (ok1, fs1) = (if no_meta then unlink_file flt fs datafn else (True, fs))
              in if \<not> ok1 then None
                 else (let (ok2, fs2) = (if no_data then unlink_file flt fs1 metafn else (True, fs1))
                       in if \<not> ok2 then None else Some (ret, fs2))))"

definition CacheDir_create :: "cache_dirs \<Rightarrow> (cstr \<Rightarrow> bool) \<Rightarrow> cstr \<Rightarrow> (int \<times> cstr list) option" where
  "CacheDir_create d mkdir_fails dirn =
    (let metadirn = path_append (META_DIR d) dirn; datadirn = path_append (DATA_DIR d) dirn
     in if mkdir_fails metadirn \<or> mkdir_fails datadirn then None
        else Some (0, [metadirn, datadirn]))"

section \<open>Waiting for the background workers\<close>

text \<open>
  The loop of \<open>Cache_close\<close> that takes every unit of the semaphore: None while a worker still
  has its unit.
\<close>

fun drain_bgt_sem :: "nat \<Rightarrow> int \<Rightarrow> int option" where
  "drain_bgt_sem 0 c = Some c"
| "drain_bgt_sem (Suc n) c = (case sem_wait c of None \<Rightarrow> None | Some c' \<Rightarrow> drain_bgt_sem n c')"

lemma drain_eq: "drain_bgt_sem n c = (if n = 0 \<or> int n \<le> c then Some (c - int n) else None)"
  by (induction n arbitrary: c) (auto simp: sem_wait_def)

section \<open>The segment count covers the file\<close>

lemma max_segbc_bounds:
  assumes "0 < len" "0 < bs"
  shows "0 < max_segbc_of len bs" "max_segbc_of len bs \<le> INT_MAX"
    and "max_segbc_of len bs < INT_MAX \<Longrightarrow> 0 \<le> o' \<Longrightarrow> o' < len \<Longrightarrow> o' div bs < max_segbc_of len bs"
    and "0 \<le> o' \<Longrightarrow> o' div bs < max_segbc_of len bs \<Longrightarrow> o' div bs * bs < len"
proof -
  have m: "max_segbc_of len bs = (if len div bs \<ge> INT_MAX then INT_MAX
      else if len mod bs \<noteq> 0 then len div bs + 1 else len div bs)"
    using assms by (simp add: max_segbc_of_def Let_def cint_simps)
  have eq: "len = len div bs * bs + len mod bs" by simp
  have nonneg: "0 \<le> len div bs" using assms by (simp add: pos_imp_zdiv_nonneg_iff)
  have pos: "len mod bs = 0 \<Longrightarrow> 0 < len div bs"
  proof -
    assume "len mod bs = 0"
    with eq assms have "0 < len div bs * bs" by simp
    then show ?thesis using assms(2) by (simp add: zero_less_mult_iff)
  qed
  show "0 < max_segbc_of len bs" "max_segbc_of len bs \<le> INT_MAX"
    using nonneg pos by (auto simp: m)
  show "o' div bs < max_segbc_of len bs" if "max_segbc_of len bs < INT_MAX" "0 \<le> o'" "o' < len"
  proof -
    have le: "o' div bs \<le> len div bs" using that(3) assms(2) by (intro zdiv_mono1) simp_all
    have "len mod bs = 0 \<Longrightarrow> o' div bs \<noteq> len div bs"
    proof
      assume "len mod bs = 0" "o' div bs = len div bs"
      with eq have "len = o' div bs * bs" by simp
      also have "\<dots> \<le> o'" by (rule div_mult_le_self [OF assms(2)])
      finally show False using that(3) by simp
    qed
    with le that(1) show ?thesis by (auto simp: m split: if_splits)
  qed
  show "o' div bs * bs < len" if "0 \<le> o'" "o' div bs < max_segbc_of len bs"
  proof (cases "o' div bs < len div bs")
    case True
    then have "(o' div bs + 1) * bs \<le> len div bs * bs" using assms(2) by (intro mult_right_mono) simp_all
    also have "\<dots> \<le> len" by (rule div_mult_le_self [OF assms(2)])
    finally show ?thesis using assms(2) by (simp add: algebra_simps)
  next
    case False
    with that(2) have "len mod bs \<noteq> 0" "o' div bs = len div bs" by (auto simp: m split: if_splits)
    moreover have "0 \<le> len mod bs" using assms(2) by simp
    ultimately have "0 < len mod bs" "o' div bs * bs = len div bs * bs" by simp_all
    then show ?thesis using eq by linarith
  qed
qed

lemma expected_segbc_eq: "0 < len \<Longrightarrow> 0 < bs \<Longrightarrow> expected_segbc_of len bs = max_segbc_of len bs"
  by (simp add: expected_segbc_of_def max_segbc_of_def)

lemma create_segbc_eq:
  assumes "0 < len" "len < 2 ^ 63" "0 < bs" "bs < 2 ^ 31"
  shows "create_segbc len bs = max_segbc_of (int len) bs"
proof -
  have "to_size bs = nat bs" using assms by (intro to_size_nonneg) simp_all
  moreover have "int (len div nat bs) = int len div bs" "int (len mod nat bs) = int len mod bs"
    using assms by (simp_all add: zdiv_int zmod_int)
  moreover have "len mod nat bs \<noteq> 0 \<longleftrightarrow> int len mod bs \<noteq> 0"
    using \<open>int (len mod nat bs) = int len mod bs\<close> by linarith
  ultimately show ?thesis
    using assms by (simp add: create_segbc_def max_segbc_of_def Let_def cint_simps)
qed

section \<open>Reading back a metadata file\<close>

text \<open>What \<open>Meta_write\<close> checks, for a cache whose segment array has its full length.\<close>

definition meta_ok :: "Link \<Rightarrow> Cache \<Rightarrow> bool" where
  "meta_ok lk cf \<longleftrightarrow> 0 < content_length lk \<and> content_length lk < 2 ^ 63 \<and>
     0 < blksz cf \<and> blksz cf < 2 ^ 31 \<and> int (content_length lk) \<le> INT64_MAX - blksz cf \<and>
     segbc cf = max_segbc_of (int (content_length lk)) (blksz cf) \<and> length (seg cf) = nat (segbc cf) \<and>
     - (2 ^ 63) \<le> link_time lk \<and> link_time lk < 2 ^ 63"

lemma meta_bytes_slices:
  assumes "length (seg cf) = nat (segbc cf)"
  shows "slice 0 8 (meta_bytes lk cf @ r) = enc_int 8 (link_time lk)"
    "slice 8 8 (meta_bytes lk cf @ r) = enc_int 8 (to_off (content_length lk))"
    "slice 16 4 (meta_bytes lk cf @ r) = enc_int 4 (blksz cf)"
    "slice 20 8 (meta_bytes lk cf @ r) = enc_int 8 (segbc cf)"
    "slice 28 (nat (segbc cf)) (meta_bytes lk cf @ r) = seg cf"
  using assms by (simp_all add: slice_def meta_bytes_def)

lemma length_meta_bytes:
  "length (seg cf) = nat (segbc cf) \<Longrightarrow> length (meta_bytes lk cf) = 28 + nat (segbc cf)"
  by (simp add: meta_bytes_def)

lemma meta_bytes_seg:
  "meta_bytes lk (cf\<lparr>seg := b\<rparr>) =
     enc_int 8 (link_time lk) @ enc_int 8 (to_off (content_length lk)) @ enc_int 4 (blksz cf) @
     enc_int 8 (segbc cf) @ take (nat (segbc cf)) b"
  by (simp add: meta_bytes_def)

text \<open>A prefix of one string over another that has the same head.\<close>

lemma take_drop_same_head:
  assumes "length xs = length ys"
  shows "take k (h @ xs) @ drop (length (take k (h @ xs))) (h @ ys) =
    h @ take (k - length h) xs @ drop (k - length h) ys"
proof (cases "k \<le> length h")
  case True
  then have "take k (h @ xs) @ drop (length (take k (h @ xs))) (h @ ys) = take k h @ drop k h @ ys"
    by (simp add: min_def)
  then show ?thesis using True by simp
next
  case False
  with assms show ?thesis by (cases "k - length h \<le> length xs") (simp_all add: min_def)
qed

lemma Meta_read_header:
  assumes ok: "meta_ok lk cf" and seek: "\<not> f_seek flt" "\<not> f_read_core flt" "f_read_rest flt = None"
    and fp: "mfp cf' = Some fp" and bs: "28 + nat (segbc cf) \<le> length (contents fs fp)"
    and head: "slice 0 8 (contents fs fp) = enc_int 8 (link_time lk)"
      "slice 8 8 (contents fs fp) = enc_int 8 (to_off (content_length lk))"
      "slice 16 4 (contents fs fp) = enc_int 4 (blksz cf)"
      "slice 20 8 (contents fs fp) = enc_int 8 (segbc cf)"
  shows "Meta_read (Some lk) flt fs cf' =
    (0, cf'\<lparr>blksz := blksz cf, segbc := segbc cf, seg := slice 28 (nat (segbc cf)) (contents fs fp)\<rparr>)"
proof -
  have o: "to_off (content_length lk) = int (content_length lk)"
    using ok by (simp add: meta_ok_def cint_simps)
  have s: "0 < segbc cf" "segbc cf < 2 ^ 31"
    using ok max_segbc_bounds(1,2) [of "int (content_length lk)" "blksz cf"] by (auto simp: meta_ok_def)
  have d: "dec_int 8 (slice 0 8 (contents fs fp)) = link_time lk"
    "dec_int 8 (slice 8 8 (contents fs fp)) = int (content_length lk)"
    "dec_int 4 (slice 16 4 (contents fs fp)) = blksz cf"
    "dec_int 8 (slice 20 8 (contents fs fp)) = segbc cf"
    unfolding head o using ok s by (simp_all add: meta_ok_def dec_enc_int8 dec_enc_int4)
  have t: "to_size (int (content_length lk)) = content_length lk"
    using ok by (simp add: meta_ok_def to_size_nonneg)
  have l: "length (slice 28 (nat (segbc cf)) (contents fs fp)) = nat (segbc cf)" using bs by simp
  have g: "28 \<le> length (contents fs fp)" "20 \<le> length (contents fs fp)" using bs by simp_all
  show ?thesis
    using ok fp seek s g bs l
    unfolding Meta_read_def by (simp add: d t Let_def meta_ok_def)
qed

lemma Meta_write_ok:
  assumes "meta_ok lk cf" "mfp cf = Some fp" "\<not> f_seek flt"
  shows "Meta_write (Some lk) flt fs cf =
    (case f_write flt of
       None \<Rightarrow> (0, fs(fp \<mapsto> overwrite 0 0 (meta_bytes lk cf) (contents fs fp)))
     | Some k \<Rightarrow> (-1, fs(fp \<mapsto> overwrite 0 0 (take k (meta_bytes lk cf)) (contents fs fp))))"
proof -
  have "to_off (content_length lk) = int (content_length lk)" using assms(1) by (simp add: meta_ok_def cint_simps)
  moreover have "to_size (int (content_length lk)) = content_length lk"
    using assms(1) by (simp add: meta_ok_def to_size_nonneg)
  moreover have "0 < segbc cf"
    using assms(1) max_segbc_bounds(1) [of "int (content_length lk)" "blksz cf"] by (auto simp: meta_ok_def)
  moreover have "segbc cf = expected_segbc_of (int (content_length lk)) (blksz cf)"
    using assms(1) by (simp add: meta_ok_def expected_segbc_eq)
  ultimately show ?thesis using assms unfolding Meta_write_def
    by (simp add: meta_ok_def Let_def)
qed

lemma overwrite_0: "overwrite z 0 ys xs = ys @ drop (length ys) xs"
  by (simp add: overwrite_def)

section \<open>Interfaces\<close>

text \<open>
  What the download code relies on: a bitmap over the segments of a file, and a store of byte
  ranges in which a range that was written reads back and the other ranges are untouched.
\<close>

locale segment_map =
  fixes wf :: "'c \<Rightarrow> bool"
    and present :: "'c \<Rightarrow> int \<Rightarrow> bool"
    and mark :: "'c \<Rightarrow> int \<Rightarrow> 'c"
    and covered :: "'c \<Rightarrow> int \<Rightarrow> bool"
    and segment :: "'c \<Rightarrow> int \<Rightarrow> int"
  assumes wf_mark: "wf c \<Longrightarrow> wf (mark c a)"
    and present_mark: "wf c \<Longrightarrow> covered c a \<Longrightarrow>
      present (mark c a) b \<longleftrightarrow> segment c a = segment c b \<or> present c b"
    and mark_uncovered: "\<not> covered c a \<Longrightarrow> mark c a = c"
    and present_covered: "present c a \<Longrightarrow> covered c a"
begin

lemma mark_keeps: "wf c \<Longrightarrow> present c b \<Longrightarrow> present (mark c a) b"
  by (cases "covered c a") (simp_all add: present_mark mark_uncovered)

lemma mark_present: "wf c \<Longrightarrow> present (mark c a) a \<longleftrightarrow> covered c a"
  using present_covered [of c a] by (cases "covered c a") (auto simp: present_mark mark_uncovered)

lemma mark_only: "wf c \<Longrightarrow> present (mark c a) b \<Longrightarrow> present c b \<or> segment c a = segment c b"
  by (cases "covered c a") (auto simp: present_mark mark_uncovered)

end

locale byte_store =
  fixes store :: "'s \<Rightarrow> nat \<Rightarrow> byte list \<Rightarrow> 's"
    and load :: "'s \<Rightarrow> nat \<Rightarrow> nat \<Rightarrow> byte list"
    and extent :: "'s \<Rightarrow> nat"
  assumes load_same: "ys \<noteq> [] \<Longrightarrow> n + length ys \<le> extent (store s n ys) \<Longrightarrow>
      load (store s n ys) n (length ys) = ys"
    and load_other: "m + k \<le> n \<or> n + length ys \<le> m \<Longrightarrow> 0 < k \<Longrightarrow> m + k \<le> extent s \<Longrightarrow>
      load (store s n ys) m k = load s m k"
    and extent_store: "extent s \<le> extent (store s n ys)"
    and load_split: "0 < i \<Longrightarrow> 0 < j \<Longrightarrow> n + i + j \<le> extent s \<Longrightarrow>
      load s n i @ load s (n + i) j = load s n (i + j)"
begin

lemma load_adjacent:
  assumes "xs \<noteq> []" "ys \<noteq> []" "n + length xs + length ys \<le> extent s"
  shows "load (store (store s n xs) (n + length xs) ys) n (length xs + length ys) = xs @ ys"
proof -
  let ?s1 = "store s n xs"
  let ?s2 = "store ?s1 (n + length xs) ys"
  have e: "extent s \<le> extent ?s1" "extent ?s1 \<le> extent ?s2" by (rule extent_store)+
  have "load ?s2 n (length xs) = load ?s1 n (length xs)"
    using assms e by (intro load_other) simp_all
  also have "\<dots> = xs" using assms e by (intro load_same) simp_all
  finally have 1: "load ?s2 n (length xs) = xs" .
  have 2: "load ?s2 (n + length xs) (length ys) = ys" using assms e by (intro load_same) simp_all
  show ?thesis using load_split [of "length xs" "length ys" n ?s2] assms e 1 2 by simp
qed

end

text \<open>Both are provided by the cache: the bitmap of a \<open>Cache\<close>, and an open data file.\<close>

definition seg_wf :: "Cache \<Rightarrow> bool" where
  "seg_wf cf \<longleftrightarrow> length (seg cf) = nat (segbc cf)"

definition seg_covered :: "Cache \<Rightarrow> int \<Rightarrow> bool" where
  "seg_covered cf offset \<longleftrightarrow>
     0 < segbc cf \<and> 0 < blksz cf \<and> 0 \<le> c_div offset (blksz cf) \<and> c_div offset (blksz cf) < segbc cf"

definition seg_of :: "Cache \<Rightarrow> int \<Rightarrow> int" where
  "seg_of cf offset = c_div offset (blksz cf)"

lemma Seg_exist_eq: "Seg_exist cf a = (if seg_covered cf a then uint (seg cf ! nat (seg_of cf a)) else 0)"
  by (auto simp: Seg_exist_def seg_covered_def seg_of_def Let_def)

lemma Seg_set_eq: "Seg_set cf a v = (if seg_covered cf a then cf\<lparr>seg := (seg cf)[nat (seg_of cf a) := v]\<rparr> else cf)"
  by (auto simp: Seg_set_def seg_covered_def seg_of_def Let_def)

lemma seg_covered_index: "seg_wf cf \<Longrightarrow> seg_covered cf a \<Longrightarrow> nat (seg_of cf a) < length (seg cf)"
  by (auto simp: seg_wf_def seg_covered_def seg_of_def)

interpretation sm: segment_map seg_wf "\<lambda>cf a. Seg_exist cf a \<noteq> 0" "\<lambda>cf a. Seg_set cf a 1" seg_covered seg_of
proof unfold_locales
  fix c a
  show "seg_wf c \<Longrightarrow> seg_wf (Seg_set c a 1)" by (simp add: Seg_set_eq seg_wf_def)
  show "\<not> seg_covered c a \<Longrightarrow> Seg_set c a 1 = c" by (simp add: Seg_set_eq)
  show "Seg_exist c a \<noteq> 0 \<Longrightarrow> seg_covered c a" by (simp add: Seg_exist_eq split: if_splits)
next
  fix c a b
  assume wf: "seg_wf c" and a: "seg_covered c a"
  have i: "nat (seg_of c a) < length (seg c)" by (rule seg_covered_index [OF wf a])
  show "Seg_exist (Seg_set c a 1) b \<noteq> 0 \<longleftrightarrow> seg_of c a = seg_of c b \<or> Seg_exist c b \<noteq> 0"
  proof (cases "seg_of c a = seg_of c b")
    case True
    then have "seg_covered c b" using a by (simp add: seg_covered_def seg_of_def)
    with True a i show ?thesis
      by (simp add: Seg_exist_eq Seg_set_eq seg_covered_def seg_of_def)
  next
    case False
    have ne: "nat (seg_of c a) \<noteq> nat (seg_of c b)" if "seg_covered c b"
      using False that a by (simp add: seg_covered_def seg_of_def eq_nat_nat_iff)
    have [simp]: "seg_covered (c\<lparr>seg := l\<rparr>) b = seg_covered c b" "seg_of (c\<lparr>seg := l\<rparr>) b = seg_of c b" for l
      by (simp_all add: seg_covered_def seg_of_def)
    show ?thesis using False a ne by (auto simp: Seg_exist_eq Seg_set_eq)
  qed
qed

text \<open>An open cache on the data file \<open>fp\<close>; \<open>Data_read\<close> and \<open>Data_write\<close> use no other field.\<close>

definition cache_on :: "cstr \<Rightarrow> Cache" where
  "cache_on fp = \<lparr>cache_opened = 1, dfp = Some fp, mfp = None, cpath = [], clink = None, blksz = 0, segbc = 0,
     seg = [], bgt_sem = 0, waiters = 0, shutting_down = False, num_bg_workers = 1\<rparr>"

definition data_store :: "cstr \<Rightarrow> fs \<Rightarrow> nat \<Rightarrow> byte list \<Rightarrow> fs" where
  "data_store fp fs n ys = snd (Data_write no_faults fs (cache_on fp) ys (int (length ys)) (int n))"

definition data_load :: "cstr \<Rightarrow> Link \<Rightarrow> fs \<Rightarrow> nat \<Rightarrow> nat \<Rightarrow> byte list" where
  "data_load fp lk fs n k = snd (Data_read (Some lk) no_faults fs (cache_on fp) (int k) (int n))"

definition data_extent :: "cstr \<Rightarrow> Link \<Rightarrow> fs \<Rightarrow> nat" where
  "data_extent fp lk fs =
    (if content_length lk < 2 ^ 63 then min (content_length lk) (length (contents fs fp)) else 0)"

lemma data_store_eq: "contents (data_store fp fs n ys) fp =
    (if ys = [] then contents fs fp else overwrite 0 n ys (contents fs fp))"
  by (simp add: data_store_def Data_write_def no_faults_def cache_on_def Let_def)

lemma data_load_eq:
  assumes "0 < k" "n + k \<le> data_extent fp lk fs"
  shows "data_load fp lk fs n k = slice n k (contents fs fp)"
proof -
  have c: "content_length lk < 2 ^ 63" "n + k \<le> content_length lk"
    using assms by (auto simp: data_extent_def split: if_splits)
  then have o: "to_off (content_length lk) = int (content_length lk)"
    "to_size (int (content_length lk)) = content_length lk"
    by (simp_all add: to_off_small to_size_nonneg)
  show ?thesis using assms(1) c
    by (simp add: data_load_def Data_read_def o no_faults_def cache_on_def Let_def)
qed

interpretation data: byte_store "data_store fp" "data_load fp lk" "data_extent fp lk" for fp lk
proof unfold_locales
  fix ys n s
  assume "ys \<noteq> []" "n + length ys \<le> data_extent fp lk (data_store fp s n ys)"
  then show "data_load fp lk (data_store fp s n ys) n (length ys) = ys"
    by (simp add: data_load_eq data_store_eq slice_overwrite_same)
next
  fix m k n :: nat and ys :: "byte list" and s
  assume *: "m + k \<le> n \<or> n + length ys \<le> m" "0 < k" "m + k \<le> data_extent fp lk s"
  have ext: "data_extent fp lk s \<le> data_extent fp lk (data_store fp s n ys)"
    by (auto simp: data_extent_def data_store_eq)
  have "m + k \<le> length (contents s fp)" using *(3) by (auto simp: data_extent_def split: if_splits)
  with * ext show "data_load fp lk (data_store fp s n ys) m k = data_load fp lk s m k"
    by (simp add: data_load_eq data_store_eq slice_overwrite_disjoint)
next
  fix s n and ys :: "byte list"
  show "data_extent fp lk s \<le> data_extent fp lk (data_store fp s n ys)"
    by (auto simp: data_extent_def data_store_eq)
next
  fix i j n s
  assume "0 < i" "0 < j" "n + i + j \<le> data_extent fp lk s"
  then show "data_load fp lk s n i @ data_load fp lk s (n + i) j = data_load fp lk s n (i + j)"
    by (simp add: data_load_eq slice_append)
qed

section \<open>Properties\<close>

lemma mfp_cases: "Meta_read link flt fs cf = (0, cf') \<Longrightarrow> \<exists>fp lk. mfp cf = Some fp \<and> link = Some lk \<and> \<not> f_seek flt"
  by (auto simp: Meta_read_def split: option.splits if_splits)

lemma Meta_read_accepted:
  assumes read: "Meta_read link flt fs cf = (0, cf')"
  shows "\<exists>fp lk. mfp cf = Some fp \<and> link = Some lk \<and> 0 < blksz cf' \<and>
    dec_int 8 (slice 0 8 (contents fs fp)) = link_time lk \<and>
    to_size (dec_int 8 (slice 8 8 (contents fs fp))) = content_length lk \<and>
    segbc cf' = max_segbc_of (dec_int 8 (slice 8 8 (contents fs fp))) (blksz cf') \<and>
    seg_wf cf' \<and> 0 < segbc cf' \<and>
    (\<forall>o'. 0 \<le> o' \<and> o' < dec_int 8 (slice 8 8 (contents fs fp)) \<longrightarrow>
       c_div o' (blksz cf') * blksz cf' + blksz cf' \<le> INT64_MAX)"
proof -
  obtain fp lk where fp: "mfp cf = Some fp" "link = Some lk" "\<not> f_seek flt" using mfp_cases [OF read] by blast
  let ?bs = "contents fs fp"
  let ?len = "dec_int 8 (slice 8 8 ?bs)"
  let ?cf2 = "cf\<lparr>blksz := dec_int 4 (slice 16 4 ?bs), segbc := dec_int 8 (slice 20 8 ?bs)\<rparr>"
  let ?n = "nat (segbc ?cf2)"
  have 28: "28 \<le> length ?bs" "20 \<le> length ?bs"
    using read fp by (auto simp: Meta_read_def Let_def split: if_splits)
  have c: "\<not> (?len \<le> 0 \<or> blksz ?cf2 \<le> 0 \<or> segbc ?cf2 \<le> 0)" "\<not> ?len > INT64_MAX - blksz ?cf2"
    "dec_int 8 (slice 0 8 ?bs) = link_time lk" "to_size ?len = content_length lk"
    "segbc ?cf2 = max_segbc_of ?len (blksz ?cf2)"
    using read fp 28 by (auto simp: Meta_read_def Let_def split: if_splits)
  have rest: "f_read_rest flt = None" "length (slice 28 ?n ?bs) = ?n"
    and cf': "cf' = ?cf2\<lparr>seg := slice 28 ?n ?bs\<rparr>"
    using read fp 28 c by (auto simp: Meta_read_def Let_def split: if_splits option.splits)
  have "c_div o' (blksz cf') * blksz cf' + blksz cf' \<le> INT64_MAX" if "0 \<le> o'" "o' < ?len" for o'
  proof -
    have b: "0 < blksz cf'" using c(1) by (simp add: cf')
    have "c_div o' (blksz cf') * blksz cf' \<le> o'"
      using that b by (simp add: c_div_nonneg div_mult_le_self)
    then show ?thesis using that c(2) by (simp add: cf')
  qed
  with fp c rest(2) show ?thesis by (auto simp: cf' seg_wf_def)
qed

text \<open>
  C25.  Whatever is in the metadata file and whichever system call fails, when \<open>Meta_read\<close>
  succeeds the cache it has filled in fits the live link: the stored time and length are the
  link's, the block size and segment count are positive, the count is the one that the length
  calls for, the bitmap has that many entries, and no segment's end overflows an \<open>off_t\<close>.
\<close>

theorem Meta_read_accepts:
  assumes read: "Meta_read link flt fs cf = (0, cf')"
  shows "\<exists>fp lk. mfp cf = Some fp \<and> link = Some lk \<and> 0 < blksz cf' \<and>
    dec_int 8 (slice 0 8 (contents fs fp)) = link_time lk \<and>
    to_size (dec_int 8 (slice 8 8 (contents fs fp))) = content_length lk \<and>
    segbc cf' = max_segbc_of (dec_int 8 (slice 8 8 (contents fs fp))) (blksz cf') \<and>
    seg_wf cf' \<and> 0 < segbc cf' \<and>
    (\<forall>o'. 0 \<le> o' \<and> o' < dec_int 8 (slice 8 8 (contents fs fp)) \<longrightarrow>
       c_div o' (blksz cf') * blksz cf' + blksz cf' \<le> INT64_MAX)"
  by (rule Meta_read_accepted [OF read])

definition demo_file :: Link where
  "demo_file = \<lparr>linkname = ''f'', linkpath = ''f'', f_url = ''http://h/f'', link_type = LINK_FILE,
    content_length = 5, next_table = None, link_time = 7, cache_ptr = None,
    sonic = \<lparr>sonic_ident = None, depth = 0\<rparr>\<rparr>"

definition demo_cache :: "byte list \<Rightarrow> Cache" where
  "demo_cache bits = (cache_on ''/data/f'')\<lparr>mfp := Some ''/meta/f'', blksz := 4, segbc := 2, seg := bits\<rparr>"

lemma demo_meta_ok: "length bits = 2 \<Longrightarrow> meta_ok demo_file (demo_cache bits)"
  by (simp add: meta_ok_def demo_file_def demo_cache_def max_segbc_of_def cint_simps c_mod_nonneg)

lemma Meta_roundtrip_parts:
  assumes "meta_ok lk cf" "mfp cf = Some fp" "mfp cf' = Some fp"
  shows "fst (Meta_write (Some lk) no_faults fs cf) = 0"
    and "Meta_read (Some lk) no_faults (snd (Meta_write (Some lk) no_faults fs cf)) cf' =
      (0, cf'\<lparr>blksz := blksz cf, segbc := segbc cf, seg := seg cf\<rparr>)"
proof -
  have nf: "\<not> f_seek no_faults" "\<not> f_read_core no_faults" "f_read_rest no_faults = None"
    "f_write no_faults = None" by (simp_all add: no_faults_def)
  have w: "Meta_write (Some lk) no_faults fs cf =
      (0, fs(fp \<mapsto> meta_bytes lk cf @ drop (length (meta_bytes lk cf)) (contents fs fp)))"
    using Meta_write_ok [OF assms(1,2) nf(1), of fs] nf(4) by (simp add: overwrite_0)
  then show "fst (Meta_write (Some lk) no_faults fs cf) = 0" by simp
  have len: "length (seg cf) = nat (segbc cf)" using assms(1) by (simp add: meta_ok_def)
  note sl = meta_bytes_slices [OF len, of lk]
  show "Meta_read (Some lk) no_faults (snd (Meta_write (Some lk) no_faults fs cf)) cf' =
      (0, cf'\<lparr>blksz := blksz cf, segbc := segbc cf, seg := seg cf\<rparr>)"
    unfolding w snd_conv
    by (subst Meta_read_header [OF assms(1) nf(1-3) assms(3)]) (simp_all add: sl length_meta_bytes len)
qed

text \<open>
  C26.  Metadata round trip: when \<open>Meta_write\<close> accepts a cache and no call fails, \<open>Meta_read\<close>
  of the file it wrote, also over an older and longer file, returns the same block size,
  segment count and bitmap.
\<close>

theorem Meta_roundtrip:
  assumes "meta_ok lk cf" "mfp cf = Some fp" "mfp cf' = Some fp"
  shows "fst (Meta_write (Some lk) no_faults fs cf) = 0 \<and>
    Meta_read (Some lk) no_faults (snd (Meta_write (Some lk) no_faults fs cf)) cf' = (0, cf'\<lparr>blksz := blksz cf, segbc := segbc cf, seg := seg cf\<rparr>)"
  using Meta_roundtrip_parts [OF assms] by blast

theorem Meta_roundtrip_witness:
  "Meta_read (Some demo_file) no_faults
     (snd (Meta_write (Some demo_file) no_faults (\<lambda>_. None) (demo_cache [1, 0]))) (demo_cache []) =
   (0, demo_cache [1, 0])"
  using Meta_roundtrip [OF demo_meta_ok [of "[1, 0]"], of "''/meta/f''" "demo_cache []" "\<lambda>_. None"]
  by (simp add: demo_cache_def cache_on_def)

theorem Meta_read_accepts_witness:
  "\<exists>cf'. seg_wf cf' \<and> blksz cf' = 4 \<and> segbc cf' = 2 \<and> seg cf' = [1, 0]"
proof -
  have ok: "meta_ok demo_file (demo_cache [1, 0])" by (simp add: demo_meta_ok)
  let ?fs = "snd (Meta_write (Some demo_file) no_faults (\<lambda>_. None) (demo_cache [1, 0]))"
  have nf: "\<not> f_seek no_faults" "\<not> f_read_core no_faults" "f_read_rest no_faults = None"
    "f_write no_faults = None" by (simp_all add: no_faults_def)
  have fp: "mfp (demo_cache bits) = Some ''/meta/f''" for bits by (simp add: demo_cache_def)
  have len: "length (seg (demo_cache [1, 0])) = nat (segbc (demo_cache [1, 0]))" by (simp add: demo_cache_def)
  have w: "?fs = [''/meta/f'' \<mapsto> meta_bytes demo_file (demo_cache [1, 0])]"
    using Meta_write_ok [OF ok fp nf(1)] nf(4) by (simp add: overwrite_0 contents_def)
  have "Meta_read (Some demo_file) no_faults ?fs (demo_cache []) = (0, demo_cache [1, 0])"
    unfolding w
    by (subst Meta_read_header [OF ok nf(1-3) fp])
      (use meta_bytes_slices [OF len, of demo_file "[]"] in \<open>simp_all add: demo_cache_def length_meta_bytes\<close>)
  from Meta_read_accepts [OF this] show ?thesis
    by (intro exI [of _ "demo_cache [1, 0]"]) (simp add: demo_cache_def)
qed

text \<open>
  A metadata write that stops part way (a full disk, a crash) over the metadata of the
  same version of the file does no harm: the file still reads back, and every segment is
  marked as it was before or as it was to be written.
\<close>

theorem Meta_write_torn:
  assumes "meta_ok lk cf" "meta_ok lk old" "blksz old = blksz cf" "mfp cf = Some fp" "mfp cf' = Some fp"
    and "contents fs fp = meta_bytes lk old" "f_write flt = Some k" "\<not> f_seek flt"
  shows "\<exists>bits. Meta_read (Some lk) no_faults (snd (Meta_write (Some lk) flt fs cf)) cf' =
      (0, cf'\<lparr>blksz := blksz cf, segbc := segbc cf, seg := bits\<rparr>) \<and>
    length bits = nat (segbc cf) \<and> (\<forall>i < length bits. bits ! i = seg old ! i \<or> bits ! i = seg cf ! i)"
proof -
  have nf: "\<not> f_seek no_faults" "\<not> f_read_core no_faults" "f_read_rest no_faults = None"
    by (simp_all add: no_faults_def)
  have same: "segbc old = segbc cf" using assms(1-3) by (simp add: meta_ok_def)
  have len: "length (seg cf) = nat (segbc cf)" "length (seg old) = nat (segbc cf)"
    using assms(1,2) same by (simp_all add: meta_ok_def)
  let ?h = "enc_int 8 (link_time lk) @ enc_int 8 (to_off (content_length lk)) @ enc_int 4 (blksz cf) @
     enc_int 8 (segbc cf)"
  have new: "meta_bytes lk cf = ?h @ seg cf" and oldb: "meta_bytes lk old = ?h @ seg old"
    using len assms(3) same by (simp_all add: meta_bytes_def)
  have hl: "length ?h = 28" by simp
  let ?b = "take k (meta_bytes lk cf) @ drop (length (take k (meta_bytes lk cf))) (meta_bytes lk old)"
  let ?bits = "take (k - 28) (seg cf) @ drop (k - 28) (seg old)"
  have b: "?b = ?h @ ?bits"
    unfolding new oldb using take_drop_same_head [of "seg cf" "seg old" k ?h] len hl by simp
  have w: "snd (Meta_write (Some lk) flt fs cf) = fs(fp \<mapsto> ?h @ ?bits)"
    using Meta_write_ok [OF assms(1,4,8), of fs] assms(6,7) b by (simp add: overwrite_0)
  have bl: "length ?bits = nat (segbc cf)" using len by simp
  let ?c = "cf\<lparr>seg := ?bits\<rparr>"
  have all: "take (nat (segbc cf)) ?bits = ?bits" by (rule take_all) (simp only: bl order.refl)
  have "meta_bytes lk ?c = ?h @ take (nat (segbc cf)) ?bits"
    by (simp only: meta_bytes_seg append_assoc)
  then have mb: "meta_bytes lk ?c = ?h @ ?bits" by (simp only: all)
  have lc: "length (seg ?c) = nat (segbc ?c)" using bl by simp
  have "Meta_read (Some lk) no_faults (fs(fp \<mapsto> meta_bytes lk ?c)) cf' =
      (0, cf'\<lparr>blksz := blksz cf, segbc := segbc cf, seg := ?bits\<rparr>)"
    by (subst Meta_read_header [OF assms(1) nf assms(5)])
      (use meta_bytes_slices [OF lc, of lk "[]"] bl in \<open>simp_all add: length_meta_bytes\<close>)
  then have "Meta_read (Some lk) no_faults (snd (Meta_write (Some lk) flt fs cf)) cf' =
      (0, cf'\<lparr>blksz := blksz cf, segbc := segbc cf, seg := ?bits\<rparr>)"
    by (simp only: w mb)
  moreover have "\<forall>i < length ?bits. ?bits ! i = seg old ! i \<or> ?bits ! i = seg cf ! i"
    using len by (auto simp: nth_append min_def split: if_splits)
  ultimately show ?thesis using bl by blast
qed

theorem Meta_write_torn_witness:
  "\<exists>bits. Meta_read (Some demo_file) no_faults
      (snd (Meta_write (Some demo_file) (no_faults\<lparr>f_write := Some 29\<rparr>)
        [''/meta/f'' \<mapsto> meta_bytes demo_file (demo_cache [0, 0])] (demo_cache [1, 1]))) (demo_cache []) =
      (0, demo_cache bits) \<and> length bits = 2"
proof -
  have 1: "meta_ok demo_file (demo_cache [1, 1])" "meta_ok demo_file (demo_cache [0, 0])"
    by (simp_all add: demo_meta_ok)
  have 2: "blksz (demo_cache [0, 0]) = blksz (demo_cache [1, 1])" "mfp (demo_cache [1, 1]) = Some ''/meta/f''"
    "mfp (demo_cache []) = Some ''/meta/f''" by (simp_all add: demo_cache_def)
  have 3: "contents [''/meta/f'' \<mapsto> meta_bytes demo_file (demo_cache [0, 0])] ''/meta/f'' =
      meta_bytes demo_file (demo_cache [0, 0])" by (simp add: contents_def)
  have 4: "f_write (no_faults\<lparr>f_write := Some 29\<rparr>) = Some 29" "\<not> f_seek (no_faults\<lparr>f_write := Some 29\<rparr>)"
    by (simp_all add: no_faults_def)
  have c: "(demo_cache [])\<lparr>blksz := blksz (demo_cache [1, 1]), segbc := segbc (demo_cache [1, 1]), seg := b\<rparr> =
      demo_cache b" for b by (simp add: demo_cache_def)
  have n: "nat (segbc (demo_cache [1, 1])) = 2" by (simp add: demo_cache_def)
  from Meta_write_torn [OF 1 2 3 4] show ?thesis unfolding c n by blast
qed

lemma segment_count_covers_parts:
  assumes "0 < len" "len < 2 ^ 63" "0 < bs" "bs < 2 ^ 31"
  shows "create_segbc len bs = max_segbc_of (int len) bs"
    and "expected_segbc_of (int len) bs = max_segbc_of (int len) bs"
    and "max_segbc_of (int len) bs < INT_MAX \<Longrightarrow> 0 \<le> off \<Longrightarrow> off < int len \<Longrightarrow>
      off div bs < max_segbc_of (int len) bs"
    and "0 \<le> off \<Longrightarrow> off div bs < max_segbc_of (int len) bs \<Longrightarrow> off div bs * bs < int len"
  using assms create_segbc_eq [OF assms] expected_segbc_eq [of "int len" bs]
    max_segbc_bounds(3,4) [of "int len" bs off] by auto

text \<open>
  The three computations of the segment count agree, and the count covers the file
  exactly: every offset of the file has a segment of its own number, and every segment starts
  inside the file; unless the count reaches \<open>INT_MAX\<close>.
\<close>

theorem segment_count_covers:
  assumes "0 < len" "len < 2 ^ 63" "0 < bs" "bs < 2 ^ 31"
  shows "create_segbc len bs = max_segbc_of (int len) bs \<and>
    expected_segbc_of (int len) bs = max_segbc_of (int len) bs \<and>
    (max_segbc_of (int len) bs < INT_MAX \<longrightarrow> 0 \<le> off \<longrightarrow> off < int len \<longrightarrow> off div bs < max_segbc_of (int len) bs) \<and>
    (0 \<le> off \<longrightarrow> off div bs < max_segbc_of (int len) bs \<longrightarrow> off div bs * bs < int len)"
  using segment_count_covers_parts [OF assms] by blast

theorem segment_count_covers_witness:
  "create_segbc 9 4 = 3 \<and> (8::int) div 4 < max_segbc_of (int 9) 4"
proof -
  have m: "max_segbc_of (int 9) 4 = 3" by (simp add: max_segbc_of_def c_div_nonneg c_mod_nonneg)
  have 1: "create_segbc 9 4 = max_segbc_of (int 9) 4" by (rule segment_count_covers [THEN conjunct1, rule_format]) simp_all
  have "max_segbc_of (int 9) 4 < INT_MAX" by (simp only: m)
  then have "(8::int) div 4 < max_segbc_of (int 9) 4"
    by (intro segment_count_covers [THEN conjunct2, THEN conjunct2, THEN conjunct1, rule_format]) simp_all
  with 1 m show ?thesis by simp
qed

lemma segment_cap_never_cached_parts:
  assumes "seg_wf cf" "segbc cf \<le> INT_MAX" "0 < blksz cf" "0 \<le> off" "INT_MAX * blksz cf \<le> off"
  shows "Seg_exist cf off = 0" "Seg_set cf off v = cf"
proof -
  have "INT_MAX \<le> off div blksz cf"
    using assms(3,5) by (metis nonzero_mult_div_cancel_right zdiv_mono1 less_irrefl)
  then have "\<not> seg_covered cf off"
    using assms(2-4) by (simp add: seg_covered_def c_div_nonneg)
  then show "Seg_exist cf off = 0" "Seg_set cf off v = cf"
    by (simp_all add: Seg_exist_eq Seg_set_eq)
qed

text \<open>
  A file of more than \<open>INT_MAX\<close> segments is cached only in part: beyond the cap no segment
  is ever present, and marking one has no effect, so those ranges are downloaded again on
  every read.
\<close>

theorem segment_cap_never_cached:
  assumes "seg_wf cf" "segbc cf \<le> INT_MAX" "0 < blksz cf" "0 \<le> off" "INT_MAX * blksz cf \<le> off"
  shows "Seg_exist cf off = 0 \<and>
    Seg_set cf off v = cf"
  using segment_cap_never_cached_parts [OF assms] by blast

theorem segment_cap_never_cached_witness:
  "Seg_exist (demo_cache [1, 0]) 8589934588 = 0"
  by (rule segment_cap_never_cached [THEN conjunct1, rule_format]) (simp_all add: demo_cache_def seg_wf_def)

lemma Cache_exist_pairs_parts:
  assumes "Cache_exist d flt fs fn = Some (r, fs')" "\<not> f_stat_meta flt" "\<not> f_stat_data flt"
    and "path_append (META_DIR d) fn \<noteq> path_append (DATA_DIR d) fn"
  shows "r = 0 \<longleftrightarrow> contents fs (path_append (META_DIR d) fn) \<noteq> [] \<and> contents fs (path_append (DATA_DIR d) fn) \<noteq> []"
    and "r = 0 \<Longrightarrow> fs' = fs"
    and "r \<noteq> 0 \<Longrightarrow> r = 1 \<and> contents fs' (path_append (META_DIR d) fn) = [] \<and>
      contents fs' (path_append (DATA_DIR d) fn) = []"
    and "p \<noteq> path_append (META_DIR d) fn \<Longrightarrow> p \<noteq> path_append (DATA_DIR d) fn \<Longrightarrow> fs' p = fs p"
proof -
  let ?m = "path_append (META_DIR d) fn"
  let ?d = "path_append (DATA_DIR d) fn"
  have nm: "(fs q = None \<or> fs q = Some []) \<longleftrightarrow> contents fs q = []" for q
    by (simp add: contents_def split: option.split)
  have eq: "Some (r, fs') =
    (if (contents fs ?m = []) = (contents fs ?d = []) then Some (if contents fs ?m = [] then 1 else 0, fs)
     else if contents fs ?m = [] then
       (if fst (unlink_file flt fs ?d) then Some (1, snd (unlink_file flt fs ?d)) else None)
     else (if fst (unlink_file flt fs ?m) then Some (1, snd (unlink_file flt fs ?m)) else None))"
    using assms(1-3) by (auto simp: Cache_exist_def Let_def nm split: prod.splits if_splits)
  have u: "fst (unlink_file flt fs q) \<Longrightarrow> snd (unlink_file flt fs q) = fs(q := None)" for q
    by (auto simp: unlink_file_def fun_eq_iff split: if_splits)
  show "r = 0 \<longleftrightarrow> contents fs ?m \<noteq> [] \<and> contents fs ?d \<noteq> []"
    using eq by (auto split: if_splits)
  show "r = 0 \<Longrightarrow> fs' = fs" using eq by (auto split: if_splits)
  show "r \<noteq> 0 \<Longrightarrow> r = 1 \<and> contents fs' ?m = [] \<and> contents fs' ?d = []"
    using eq assms(4) by (auto simp: u contents_def split: if_splits)
  show "p \<noteq> ?m \<Longrightarrow> p \<noteq> ?d \<Longrightarrow> fs' p = fs p"
    using eq by (auto simp: u split: if_splits)
qed

text \<open>
  \<open>Cache_exist\<close> leaves no half of a pair behind.  It returns 0 exactly when both files are
  there and not empty, and then changes nothing; otherwise it returns 1, and afterwards neither
  file is there with any contents.  It never touches another file.
\<close>

theorem Cache_exist_pairs:
  assumes "Cache_exist d flt fs fn = Some (r, fs')" "\<not> f_stat_meta flt" "\<not> f_stat_data flt"
    and "path_append (META_DIR d) fn \<noteq> path_append (DATA_DIR d) fn"
  shows "(r = 0 \<longleftrightarrow> contents fs (path_append (META_DIR d) fn) \<noteq> [] \<and> contents fs (path_append (DATA_DIR d) fn) \<noteq> []) \<and>
    (r = 0 \<longrightarrow> fs' = fs) \<and>
    (r \<noteq> 0 \<longrightarrow> (r = 1 \<and> contents fs' (path_append (META_DIR d) fn) = [] \<and> contents fs' (path_append (DATA_DIR d) fn) = [])) \<and>
    (p \<noteq> path_append (META_DIR d) fn \<longrightarrow> p \<noteq> path_append (DATA_DIR d) fn \<longrightarrow> fs' p = fs p)"
  using Cache_exist_pairs_parts [OF assms] by blast

theorem Cache_exist_pairs_witness:
  "\<exists>fs'. Cache_exist \<lparr>META_DIR = ''/m/'', DATA_DIR = ''/d/''\<rparr> no_faults [''/d/f'' \<mapsto> [1]] ''f'' = Some (1, fs') \<and>
     contents fs' ''/d/f'' = []"
proof -
  let ?d = "\<lparr>META_DIR = ''/m/'', DATA_DIR = ''/d/''\<rparr>"
  have p: "path_append (META_DIR ?d) ''f'' = ''/m/f''" "path_append (DATA_DIR ?d) ''f'' = ''/d/f''"
    by (simp_all add: path_append_def strnlen_def Let_def)
  have c: "Cache_exist ?d no_faults [''/d/f'' \<mapsto> [1]] ''f'' = Some (1, [''/d/f'' \<mapsto> [1]](''/d/f'' := None))"
    unfolding Cache_exist_def p by (simp add: no_faults_def unlink_file_def)
  from Cache_exist_pairs [OF c, THEN conjunct2, THEN conjunct2, THEN conjunct1, rule_format] c p show ?thesis by (simp add: no_faults_def)
qed

end
