(* ===== verification/CacheDl.thy ===== *)
theory CacheDl
  imports CacheFile
begin

text \<open>
  \<open>src/cache.c\<close> from \<open>ActiveDownload_find\<close> on, with \<open>Link_download\<close> and
  \<open>Link_download_finish_transfer\<close> of \<open>src/link.c\<close> and \<open>write_memory_callback\<close> of
  \<open>src/memcache.c\<close>: the concurrent download of the segments of one open cache file.

  The state holds the \<open>Cache\<close>, the file system, the heap of \<open>ActiveDownload\<close> nodes with the
  list \<open>active_dls\<close>, the owner of \<open>w_lock\<close>, and the threads: FUSE readers running
  \<open>Cache_read\<close> and background workers running \<open>Cache_bgdl\<close>.  A thread has a program counter and
  the locals it keeps between two of its steps; its \<open>TransferStruct\<close> lives on its stack, so a
  pointer to one is the number of its thread.

  One step is the code between two points where another thread may run.  The sections under
  \<open>dl_lock\<close> take no other lock inside and block only in \<open>pthread_cond_wait\<close>, which releases
  it; each is one step.  \<open>w_lock\<close> is held across several steps, so its owner is part of the
  state and a step that locks it is enabled only when it is free.  A wake-up of
  \<open>pthread_cond_wait\<close> may be spurious: the waiting step is always enabled and tests the
  condition again.
\<close>

section \<open>State\<close>

record AD =
  ad_offset :: int
  ad_ts :: "nat option"
  ad_refcount :: int
  ad_unlinked :: bool

text \<open>
  \<open>Reader off len\<close> is a call \<open>Cache_read(cf, buf, len, off)\<close>; \<open>Worker o\<close> a background download
  of the segment at \<open>o\<close>.
\<close>

datatype kind = Reader int int | Worker int

text \<open>How a transfer ended: \<open>Link_download_cleanup\<close>'s result.\<close>

datatype pc =
    R_retry | R_trysem | R_bgadd | R_launch | R_create | R_syncdl
  | R_wait nat | R_relock
  | L_attach | L_recv | L_fin int
  | D_done int
  | R_bgdl int | R_bgdl2 int | R_bgdl3 int | R_bglaunch int | R_bgcreate int
  | R_ret int | Finished int
  | B_remove | B_post | B_exit

record thread =
  kind :: kind
  pc :: pc
  cur :: int
  rem :: int
  sent :: int
  out :: "byte list"
  seg_out :: "byte list"
  rbuf :: "byte list"
  tdata :: "byte list option"
  tad :: "nat option"

record dl =
  cache :: Cache
  lnk :: Link
  fsys :: fs
  ads :: "nat \<Rightarrow> AD option"
  active :: "nat list"
  next_ad :: nat
  w_lock :: "nat option"
  threads :: "thread list"
  bad :: bool

definition set_thread :: "nat \<Rightarrow> thread \<Rightarrow> dl \<Rightarrow> dl" where
  "set_thread t th s = s\<lparr>threads := (threads s)[t := th]\<rparr>"

definition goto_pc :: "nat \<Rightarrow> pc \<Rightarrow> dl \<Rightarrow> dl" where
  "goto_pc t p s = set_thread t ((threads s ! t)\<lparr>pc := p\<rparr>) s"

definition lock_w :: "nat \<Rightarrow> dl \<Rightarrow> dl" where
  "lock_w t s = s\<lparr>w_lock := Some t\<rparr>"

definition unlock_w :: "dl \<Rightarrow> dl" where
  "unlock_w s = s\<lparr>w_lock := None\<rparr>"

section \<open>Active downloads\<close>

text \<open>Walking the list; a node that is not in the heap would be a dangling list entry.\<close>

fun ad_search :: "(nat \<Rightarrow> AD option) \<Rightarrow> int \<Rightarrow> nat list \<Rightarrow> nat option" where
  "ad_search h off [] = None"
| "ad_search h off (a # as) =
    (case h a of
       Some A \<Rightarrow> if ad_offset A = off then Some a else ad_search h off as
     | None \<Rightarrow> ad_search h off as)"

definition ActiveDownload_find :: "dl \<Rightarrow> int \<Rightarrow> nat option" where
  "ActiveDownload_find s off = ad_search (ads s) off (active s)"

definition ActiveDownload_add :: "int \<Rightarrow> dl \<Rightarrow> dl" where
  "ActiveDownload_add off s =
    (let a = next_ad s
     in s\<lparr>ads := (ads s)(a \<mapsto> \<lparr>ad_offset = off, ad_ts = None, ad_refcount = 1, ad_unlinked = False\<rparr>),
          active := a # active s, next_ad := Suc a\<rparr>)"

text \<open>Using a node that was freed sets \<open>bad\<close>.\<close>

definition ActiveDownload_unref :: "nat \<Rightarrow> dl \<Rightarrow> dl" where
  "ActiveDownload_unref a s =
    (case ads s a of
       None \<Rightarrow> s\<lparr>bad := True\<rparr>
     | Some A \<Rightarrow>
         if ad_refcount A - 1 = 0 then s\<lparr>ads := (ads s)(a := None)\<rparr>
         else s\<lparr>ads := (ads s)(a \<mapsto> A\<lparr>ad_refcount := ad_refcount A - 1\<rparr>)\<rparr>)"

definition ad_ref :: "nat \<Rightarrow> dl \<Rightarrow> dl" where
  "ad_ref a s =
    (case ads s a of
       None \<Rightarrow> s\<lparr>bad := True\<rparr>
     | Some A \<Rightarrow> s\<lparr>ads := (ads s)(a \<mapsto> A\<lparr>ad_refcount := ad_refcount A + 1\<rparr>)\<rparr>)"

definition ActiveDownload_remove :: "int \<Rightarrow> dl \<Rightarrow> dl" where
  "ActiveDownload_remove off s =
    (case ActiveDownload_find s off of
       None \<Rightarrow> s
     | Some a \<Rightarrow>
         (case ads s a of
            None \<Rightarrow> s\<lparr>bad := True\<rparr>
          | Some A \<Rightarrow>
              ActiveDownload_unref a
                (s\<lparr>active := remove1 a (active s), ads := (ads s)(a \<mapsto> A\<lparr>ad_unlinked := True\<rparr>)\<rparr>)))"

definition waiter_add :: "int \<Rightarrow> dl \<Rightarrow> dl" where
  "waiter_add d s = s\<lparr>cache := (cache s)\<lparr>waiters := waiters (cache s) + d\<rparr>\<rparr>"

definition Cache_waiter_decrement :: "dl \<Rightarrow> dl" where
  "Cache_waiter_decrement s = waiter_add (-1) s"

definition set_sem :: "int \<Rightarrow> dl \<Rightarrow> dl" where
  "set_sem n s = s\<lparr>cache := (cache s)\<lparr>bgt_sem := n\<rparr>\<rparr>"

definition post_sem :: "dl \<Rightarrow> dl" where
  "post_sem s = set_sem (sem_post (bgt_sem (cache s))) s"

section \<open>Offsets\<close>

definition blk :: "dl \<Rightarrow> int" where
  "blk s = blksz (cache s)"

definition flen :: "dl \<Rightarrow> int" where
  "flen s = int (content_length (lnk s))"

text \<open>\<open>start / cf->blksz * cf->blksz\<close>, and the end of the part of a read in one segment.\<close>

definition dl_offset_of :: "dl \<Rightarrow> int \<Rightarrow> int" where
  "dl_offset_of s start = c_div start (blk s) * blk s"

definition seg_end :: "dl \<Rightarrow> int \<Rightarrow> int \<Rightarrow> int" where
  "seg_end s start len =
    (let e = dl_offset_of s start + blk s in if e > start + len then start + len else e)"

definition seg_len :: "dl \<Rightarrow> thread \<Rightarrow> int" where
  "seg_len s th = seg_end s (cur th) (rem th) - cur th"

text \<open>The offset that a thread's own download is for.\<close>

definition own_offset :: "dl \<Rightarrow> thread \<Rightarrow> int" where
  "own_offset s th = (case kind th of Worker off \<Rightarrow> off | Reader _ _ \<Rightarrow> dl_offset_of s (cur th))"

text \<open>\<open>req_size\<close> of \<open>Link_download\<close> after the clip to what remains of the file.\<close>

definition req_size :: "dl \<Rightarrow> int \<Rightarrow> int" where
  "req_size s off = (if blk s > flen s - off then flen s - off else blk s)"

text \<open>A full segment, or the offset at which the last segment starts.\<close>

definition full_or_last :: "dl \<Rightarrow> int \<Rightarrow> int \<Rightarrow> bool" where
  "full_or_last s recv off \<longleftrightarrow>
     recv = blk s \<or> off = int (content_length (lnk s) div nat (blk s) * nat (blk s))"

section \<open>\<open>Cache_read\<close>: the call, and its loop over segments\<close>

definition new_thread :: "kind \<Rightarrow> pc \<Rightarrow> int \<Rightarrow> int \<Rightarrow> thread" where
  "new_thread k p start len =
    \<lparr>kind = k, pc = p, cur = start, rem = len, sent = 0, out = [], seg_out = [], rbuf = [],
     tdata = None, tad = None\<rparr>"

text \<open>
  The entry checks of \<open>Cache_read\<close>; those of \<open>Cache_read_segment\<close> are the same tests on the
  start of a segment and never fail after them.
\<close>

definition Cache_read_start :: "int \<Rightarrow> int \<Rightarrow> dl \<Rightarrow> thread" where
  "Cache_read_start len offset_start s =
    (let k = Reader offset_start len
     in if len < 0 then new_thread k (Finished (- EINVAL)) offset_start len
        else if offset_start < 0 \<or> offset_start \<ge> flen s then new_thread k (Finished 0) offset_start len
        else (let remaining = flen s - offset_start;
                  len' = (if len > remaining then remaining else len)
              in if len' \<le> 0 then new_thread k (Finished 0) offset_start len'
                 else new_thread k R_retry offset_start len'))"

text \<open>The end of one round: \<open>send\<close> is what \<open>Cache_read_segment\<close> returned.\<close>

definition st_ret :: "nat \<Rightarrow> int \<Rightarrow> dl \<Rightarrow> dl" where
  "st_ret t send s =
    (let th = threads s ! t
     in if send < 0 then set_thread t (th\<lparr>pc := Finished send\<rparr>) s
        else (let n = seg_len s th;
                  th1 = th\<lparr>sent := sent th + send, out := out th @ take (nat send) (seg_out th),
                           seg_out := []\<rparr>
              in if send < n \<or> rem th - n \<le> 0
                 then set_thread t (th1\<lparr>pc := Finished (sent th1)\<rparr>) s
                 else set_thread t (th1\<lparr>rem := rem th - n, cur := cur th + n, pc := R_retry\<rparr>) s))"

section \<open>\<open>Cache_read_segment\<close>\<close>

text \<open>A segment that is in the cache file: \<open>Data_read\<close> under \<open>w_lock\<close>, then \<open>goto bgdl\<close>.\<close>

definition read_cached :: "nat \<Rightarrow> faults \<Rightarrow> dl \<Rightarrow> dl" where
  "read_cached t flt s =
    (let th = threads s ! t
     in case Data_read (Some (lnk s)) flt (fsys s) (cache s) (seg_len s th) (cur th) of
          (send, bytes) \<Rightarrow>
            unlock_w (set_thread t (th\<lparr>pc := R_bgdl send, seg_out := bytes\<rparr>) s))"

text \<open>
  The body of the waiting loop, entered with a counted reference on the node: copy the bytes
  of the running transfer when there are enough of them, leave when the node is unlinked, else
  wait again.
\<close>

definition wait_check :: "nat \<Rightarrow> nat \<Rightarrow> dl \<Rightarrow> dl" where
  "wait_check t a s =
    (case ads s a of
       None \<Rightarrow> s\<lparr>bad := True\<rparr>
     | Some A \<Rightarrow>
         (let th = threads s ! t;
              skip = cur th - dl_offset_of s (cur th);
              len = seg_len s th
          in if \<not> shutting_down (cache s) \<and> \<not> ad_unlinked A then
               (case ad_ts A of
                  None \<Rightarrow> goto_pc t (R_wait a) s
                | Some u \<Rightarrow>
                    if u \<ge> length (threads s) then s\<lparr>bad := True\<rparr>
                    else (case tdata (threads s ! u) of
                       None \<Rightarrow> goto_pc t (R_wait a) s
                     | Some d \<Rightarrow>
                         if length d \<ge> to_size (skip + len) then
                           ActiveDownload_unref a (Cache_waiter_decrement
                             (set_thread t (th\<lparr>pc := R_bgdl len,
                                seg_out := slice (nat skip) (nat len) d\<rparr>) s))
                         else goto_pc t (R_wait a) s))
             else ActiveDownload_unref a (Cache_waiter_decrement
                    (goto_pc t (if shutting_down (cache s) then R_ret (- EIO) else R_relock) s))))"

definition st_retry :: "nat \<Rightarrow> faults \<Rightarrow> dl \<Rightarrow> dl" where
  "st_retry t flt s =
    (let dl_offset = dl_offset_of s (cur (threads s ! t)); s1 = lock_w t s
     in if Seg_exist (cache s1) dl_offset \<noteq> 0 then read_cached t flt s1
        else (case ActiveDownload_find s1 dl_offset of
                Some a \<Rightarrow> wait_check t a (waiter_add 1 (ad_ref a (unlock_w s1)))
              | None \<Rightarrow> goto_pc t R_trysem s1))"

definition st_trysem :: "nat \<Rightarrow> dl \<Rightarrow> dl" where
  "st_trysem t s =
    (case sem_trywait (bgt_sem (cache s)) of
       (ret, n) \<Rightarrow> if ret = 0 then goto_pc t R_bgadd (set_sem n s) else goto_pc t R_syncdl s)"

definition st_bgadd :: "nat \<Rightarrow> dl \<Rightarrow> dl" where
  "st_bgadd t s =
    (let dl_offset = dl_offset_of s (cur (threads s ! t))
     in case ActiveDownload_find s dl_offset of
          None \<Rightarrow> goto_pc t R_launch (ActiveDownload_add dl_offset s)
        | Some _ \<Rightarrow> goto_pc t R_syncdl (post_sem s))"

text \<open>\<open>Cache_bgdl_launcher\<close>: count the worker, then create its thread.\<close>

definition st_launch :: "nat \<Rightarrow> dl \<Rightarrow> dl" where
  "st_launch t s = goto_pc t R_create (waiter_add 1 s)"

definition spawn_worker :: "int \<Rightarrow> dl \<Rightarrow> dl" where
  "spawn_worker off s = s\<lparr>threads := threads s @ [new_thread (Worker off) L_attach off 0]\<rparr>"

definition st_create :: "nat \<Rightarrow> dl \<Rightarrow> dl" where
  "st_create t s =
    unlock_w (spawn_worker (dl_offset_of s (cur (threads s ! t))) (goto_pc t R_retry s))"

definition st_syncdl :: "nat \<Rightarrow> dl \<Rightarrow> dl" where
  "st_syncdl t s =
    (let dl_offset = dl_offset_of s (cur (threads s ! t))
     in case ActiveDownload_find s dl_offset of
          Some _ \<Rightarrow> unlock_w (goto_pc t R_retry s)
        | None \<Rightarrow> unlock_w (goto_pc t L_attach (waiter_add 1 (ActiveDownload_add dl_offset s))))"

definition st_relock :: "nat \<Rightarrow> faults \<Rightarrow> dl \<Rightarrow> dl" where
  "st_relock t flt s =
    (let dl_offset = dl_offset_of s (cur (threads s ! t)); s1 = lock_w t s
     in if Seg_exist (cache s1) dl_offset \<noteq> 0 then read_cached t flt s1
        else goto_pc t R_syncdl s1)"

text \<open>Storing a downloaded segment and marking it, under \<open>w_lock\<close>.\<close>

definition store_segment :: "faults \<Rightarrow> byte list \<Rightarrow> int \<Rightarrow> int \<Rightarrow> dl \<Rightarrow> dl" where
  "store_segment flt buf recv dl_offset s =
    (case Data_write flt (fsys s) (cache s) buf recv dl_offset of
       (n, fs') \<Rightarrow>
         s\<lparr>fsys := fs', cache := (if n = recv then Seg_set (cache s) dl_offset 1 else cache s)\<rparr>)"

definition drop_download :: "int \<Rightarrow> dl \<Rightarrow> dl" where
  "drop_download off s = Cache_waiter_decrement (ActiveDownload_remove off s)"

definition st_sync_done :: "nat \<Rightarrow> faults \<Rightarrow> int \<Rightarrow> dl \<Rightarrow> dl" where
  "st_sync_done t flt recv s =
    (let th = threads s ! t;
         dl_offset = dl_offset_of s (cur th);
         skip = cur th - dl_offset;
         len = seg_len s th
     in if recv < 0 then drop_download dl_offset (goto_pc t (R_ret recv) s)
        else if full_or_last s recv dl_offset then
          (if recv < skip + len then drop_download dl_offset (goto_pc t (R_ret (- EIO)) s)
           else (let s1 = store_segment flt (rbuf th) recv dl_offset s
                 in drop_download dl_offset
                      (if cur th < dl_offset \<or> skip + len > blk s
                       then set_thread t (th\<lparr>pc := R_bgdl 0, seg_out := []\<rparr>) s1
                       else set_thread t (th\<lparr>pc := R_bgdl len,
                              seg_out := slice (nat skip) (nat len) (rbuf th)\<rparr>) s1)))
        else drop_download dl_offset (goto_pc t (R_ret (- EIO)) s))"

text \<open>The read-ahead after the label \<open>bgdl\<close>.\<close>

definition next_offset :: "dl \<Rightarrow> nat \<Rightarrow> int" where
  "next_offset s t = dl_offset_of s (cur (threads s ! t)) + blk s"

definition st_bgdl :: "nat \<Rightarrow> int \<Rightarrow> dl \<Rightarrow> dl" where
  "st_bgdl t send s =
    (if next_offset s t < flen s \<and> Seg_exist (cache s) (next_offset s t) = 0
     then goto_pc t (R_bgdl2 send) s else goto_pc t (R_ret send) s)"

definition st_bgdl2 :: "nat \<Rightarrow> int \<Rightarrow> dl \<Rightarrow> dl" where
  "st_bgdl2 t send s =
    (case sem_trywait (bgt_sem (cache s)) of
       (ret, n) \<Rightarrow> if ret = 0 then goto_pc t (R_bgdl3 send) (set_sem n s)
                   else goto_pc t (R_ret send) s)"

definition st_bgdl3 :: "nat \<Rightarrow> int \<Rightarrow> dl \<Rightarrow> dl" where
  "st_bgdl3 t send s =
    (let off = next_offset s t
     in if Seg_exist (cache s) off = 0 \<and> ActiveDownload_find s off = None
        then goto_pc t (R_bglaunch send) (ActiveDownload_add off s)
        else goto_pc t (R_ret send) (post_sem s))"

definition st_bglaunch :: "nat \<Rightarrow> int \<Rightarrow> dl \<Rightarrow> dl" where
  "st_bglaunch t send s = goto_pc t (R_bgcreate send) (waiter_add 1 s)"

definition st_bgcreate :: "nat \<Rightarrow> int \<Rightarrow> dl \<Rightarrow> dl" where
  "st_bgcreate t send s = spawn_worker (next_offset s t) (goto_pc t (R_ret send) s)"

section \<open>\<open>Link_download\<close> for a cache\<close>

text \<open>
  One round of its loop: attach the transfer to the node of this offset, receive, and finish.
  The result of a round is a byte count or a negative error; \<open>-EAGAIN\<close> and a count that is not
  the requested size start another round.
\<close>

definition st_attach :: "nat \<Rightarrow> dl \<Rightarrow> dl" where
  "st_attach t s =
    (let th = threads s ! t; off = own_offset s th
     in if blk s = 0 \<or> flen s = 0 \<or> off < 0 \<or> off \<ge> flen s then goto_pc t (D_done 0) s
        else (case ActiveDownload_find s off of
          None \<Rightarrow> set_thread t (th\<lparr>pc := L_recv, tdata := None, tad := None\<rparr>) s
        | Some a \<Rightarrow>
            (case ads s a of
               None \<Rightarrow> s\<lparr>bad := True\<rparr>
             | Some A \<Rightarrow>
                 ad_ref a (set_thread t (th\<lparr>pc := L_recv, tdata := None, tad := Some a\<rparr>)
                   (s\<lparr>ads := (ads s)(a \<mapsto> A\<lparr>ad_ts := Some t\<rparr>)\<rparr>)))))"

text \<open>\<open>write_memory_callback\<close>.\<close>

definition st_chunk :: "nat \<Rightarrow> byte list \<Rightarrow> dl \<Rightarrow> dl" where
  "st_chunk t chunk s =
    (let th = threads s ! t
     in set_thread t (th\<lparr>tdata := Some ((case tdata th of Some d \<Rightarrow> d | None \<Rightarrow> []) @ chunk)\<rparr>) s)"

text \<open>
  \<open>Link_download_cleanup\<close>: the response code decides whether the number of bytes that libcurl
  counted is the result.
\<close>

definition Link_download_cleanup :: "int \<Rightarrow> int \<Rightarrow> int" where
  "Link_download_cleanup http_resp size_download =
    (if http_resp = 200 \<or> http_resp = 206 \<or> http_resp = 416 then size_download
     else if http_resp \<in> {429, 520, 524} then - EAGAIN else - ENOENT)"

definition Link_download_finish_transfer :: "nat \<Rightarrow> dl \<Rightarrow> dl" where
  "Link_download_finish_transfer t s =
    (let th = threads s ! t;
         s1 = (case ActiveDownload_find s (own_offset s th) of
                 None \<Rightarrow> s
               | Some a \<Rightarrow>
                   (case ads s a of
                      None \<Rightarrow> s\<lparr>bad := True\<rparr>
                    | Some A \<Rightarrow> if ad_ts A = Some t then s\<lparr>ads := (ads s)(a \<mapsto> A\<lparr>ad_ts := None\<rparr>)\<rparr> else s));
         s2 = set_thread t (th\<lparr>tad := None\<rparr>) s1
     in case tad th of None \<Rightarrow> s2 | Some a \<Rightarrow> ActiveDownload_unref a s2)"

definition st_fin :: "nat \<Rightarrow> int \<Rightarrow> dl \<Rightarrow> dl" where
  "st_fin t recv_sz s =
    (let th = threads s ! t;
         s1 = Link_download_finish_transfer t s;
         th1 = (threads s1 ! t)\<lparr>tdata := None\<rparr>;
         d = (case tdata th of Some d \<Rightarrow> d | None \<Rightarrow> [])
     in if recv_sz < 0 then
          (if recv_sz = - EAGAIN then set_thread t (th1\<lparr>pc := L_attach\<rparr>) s1
           else set_thread t (th1\<lparr>pc := D_done recv_sz\<rparr>) s1)
        else if recv_sz \<noteq> req_size s (own_offset s th) then set_thread t (th1\<lparr>pc := L_attach\<rparr>) s1
        else set_thread t (th1\<lparr>pc := D_done recv_sz, rbuf := take (nat recv_sz) d\<rparr>) s1)"

section \<open>\<open>Cache_bgdl\<close>\<close>

definition st_bg_done :: "nat \<Rightarrow> faults \<Rightarrow> int \<Rightarrow> int \<Rightarrow> dl \<Rightarrow> dl" where
  "st_bg_done t flt recv off s =
    (if recv < 0 then goto_pc t B_post (drop_download off s)
     else (let s1 = (if full_or_last s recv off
                     then store_segment flt (rbuf (threads s ! t)) recv off s else s)
           in goto_pc t B_remove s1))"

definition st_bg_remove :: "nat \<Rightarrow> int \<Rightarrow> dl \<Rightarrow> dl" where
  "st_bg_remove t off s = goto_pc t B_post (drop_download off s)"

definition st_bg_post :: "nat \<Rightarrow> dl \<Rightarrow> dl" where
  "st_bg_post t s = goto_pc t B_exit (post_sem s)"

section \<open>One step of a thread\<close>

text \<open>
  What the environment contributes: the failures of file system calls, a chunk of the body, or
  the end of the transfer with its response code and byte count.
\<close>

datatype event = Go faults | Chunk "byte list" | Complete int int

definition needs_w :: "thread \<Rightarrow> bool" where
  "needs_w th \<longleftrightarrow> (case pc th of
      R_retry \<Rightarrow> True | R_relock \<Rightarrow> True
    | D_done recv \<Rightarrow> (case kind th of Reader _ _ \<Rightarrow> True | Worker _ \<Rightarrow> 0 \<le> recv)
    | R_bgdl _ \<Rightarrow> True | R_bgdl3 _ \<Rightarrow> True
    | _ \<Rightarrow> False)"

definition step_thread :: "nat \<Rightarrow> event \<Rightarrow> dl \<Rightarrow> dl option" where
  "step_thread t ev s =
    (if t \<ge> length (threads s) then None
     else (let th = threads s ! t
       in if needs_w th \<and> w_lock s \<noteq> None then None
          else (case ev of
            Chunk c \<Rightarrow> if pc th = L_recv then Some (st_chunk t c s) else None
          | Complete resp n \<Rightarrow>
              if pc th = L_recv then Some (goto_pc t (L_fin (Link_download_cleanup resp n)) s) else None
          | Go flt \<Rightarrow>
              (case pc th of
                 R_retry \<Rightarrow> Some (st_retry t flt s)
               | R_trysem \<Rightarrow> Some (st_trysem t s)
               | R_bgadd \<Rightarrow> Some (st_bgadd t s)
               | R_launch \<Rightarrow> Some (st_launch t s)
               | R_create \<Rightarrow> Some (st_create t s)
               | R_syncdl \<Rightarrow> Some (st_syncdl t s)
               | R_wait a \<Rightarrow> Some (wait_check t a s)
               | R_relock \<Rightarrow> Some (st_relock t flt s)
               | L_attach \<Rightarrow> Some (st_attach t s)
               | L_recv \<Rightarrow> None
               | L_fin recv \<Rightarrow> Some (st_fin t recv s)
               | D_done recv \<Rightarrow>
                   (case kind th of
                      Reader _ _ \<Rightarrow> Some (st_sync_done t flt recv s)
                    | Worker off \<Rightarrow> Some (st_bg_done t flt recv off s))
               | R_bgdl send \<Rightarrow> Some (st_bgdl t send s)
               | R_bgdl2 send \<Rightarrow> Some (st_bgdl2 t send s)
               | R_bgdl3 send \<Rightarrow> Some (st_bgdl3 t send s)
               | R_bglaunch send \<Rightarrow> Some (st_bglaunch t send s)
               | R_bgcreate send \<Rightarrow> Some (st_bgcreate t send s)
               | R_ret send \<Rightarrow> Some (st_ret t send s)
               | Finished _ \<Rightarrow> None
               | B_remove \<Rightarrow>
                   (case kind th of Worker off \<Rightarrow> Some (st_bg_remove t off s) | Reader _ _ \<Rightarrow> None)
               | B_post \<Rightarrow> Some (st_bg_post t s)
               | B_exit \<Rightarrow> None))))"

text \<open>A new call of \<open>Cache_read\<close>.\<close>

definition start_read :: "int \<Rightarrow> int \<Rightarrow> dl \<Rightarrow> dl" where
  "start_read len off s = s\<lparr>threads := threads s @ [Cache_read_start len off s]\<rparr>"

end
