(* ===== verification/CacheDlInv.thy ===== *)
theory CacheDlInv
  imports CacheDl
begin

text \<open>
  Accounting invariants of the concurrent download: the reference counts of the
  \<open>ActiveDownload\<close> nodes, the ownership of the entries of \<open>active_dls\<close>, the counter \<open>waiters\<close>
  and the semaphore \<open>bgt_sem\<close> all equal what the program counters of the threads say.

  The invariant \<open>ginv\<close> carries four ghost surpluses, so that each primitive of a step can be
  treated alone: references, owned offsets, waiters and semaphore units that the step has
  taken or given back before it has moved the thread.  Between steps all four are zero.
\<close>

section \<open>What a program counter stands for\<close>

definition holds_w :: "thread \<Rightarrow> bool" where
  "holds_w th \<longleftrightarrow> pc th \<in> {R_trysem, R_bgadd, R_launch, R_create, R_syncdl}"

text \<open>The thread holds a counted reference on node \<open>a\<close>.\<close>

definition refs :: "nat \<Rightarrow> thread \<Rightarrow> bool" where
  "refs a th \<longleftrightarrow> pc th = R_wait a \<or> tad th = Some a"

fun in_download :: "pc \<Rightarrow> bool" where
  "in_download L_attach = True"
| "in_download L_recv = True"
| "in_download (L_fin _) = True"
| "in_download (D_done _) = True"
| "in_download _ = False"

text \<open>The offset whose entry in \<open>active_dls\<close> the thread has to remove, or hand to a worker.\<close>

definition owned :: "int \<Rightarrow> thread \<Rightarrow> int option" where
  "owned b th =
    (case kind th of
       Reader _ _ \<Rightarrow>
         (let o1 = c_div (cur th) b * b
          in if in_download (pc th) \<or> pc th = R_launch \<or> pc th = R_create then Some o1
             else (case pc th of R_bglaunch _ \<Rightarrow> Some (o1 + b) | R_bgcreate _ \<Rightarrow> Some (o1 + b) | _ \<Rightarrow> None))
     | Worker off \<Rightarrow> if in_download (pc th) \<or> pc th = B_remove then Some off else None)"

definition waits :: "thread \<Rightarrow> bool" where
  "waits th \<longleftrightarrow> in_download (pc th) \<or>
     (case pc th of R_wait _ \<Rightarrow> True | R_create \<Rightarrow> True | R_bgcreate _ \<Rightarrow> True | B_remove \<Rightarrow> True | _ \<Rightarrow> False)"

definition units :: "thread \<Rightarrow> bool" where
  "units th \<longleftrightarrow> (case kind th of
     Worker _ \<Rightarrow> pc th \<noteq> B_exit
   | Reader _ _ \<Rightarrow> (case pc th of R_bgadd \<Rightarrow> True | R_launch \<Rightarrow> True | R_create \<Rightarrow> True
       | R_bgdl3 _ \<Rightarrow> True | R_bglaunch _ \<Rightarrow> True | R_bgcreate _ \<Rightarrow> True | _ \<Rightarrow> False))"

fun reader_pc :: "pc \<Rightarrow> bool" where
  "reader_pc B_remove = False"
| "reader_pc B_post = False"
| "reader_pc B_exit = False"
| "reader_pc _ = True"

fun worker_pc :: "pc \<Rightarrow> bool" where
  "worker_pc B_remove = True"
| "worker_pc B_post = True"
| "worker_pc B_exit = True"
| "worker_pc p = in_download p"

definition valid :: "thread \<Rightarrow> bool" where
  "valid th \<longleftrightarrow> (case kind th of Reader _ _ \<Rightarrow> reader_pc (pc th) | Worker _ \<Rightarrow> worker_pc (pc th)) \<and>
     (tad th \<noteq> None \<longrightarrow> (case pc th of L_recv \<Rightarrow> True | L_fin _ \<Rightarrow> True | _ \<Rightarrow> False))"

section \<open>The invariant with surpluses\<close>

definition ad_off :: "dl \<Rightarrow> nat \<Rightarrow> int" where
  "ad_off s a = (case ads s a of Some A \<Rightarrow> ad_offset A | None \<Rightarrow> 0)"

definition active_off :: "dl \<Rightarrow> int \<Rightarrow> bool" where
  "active_off s off \<longleftrightarrow> (\<exists>a \<in> set (active s). ad_off s a = off)"

definition heap_ok :: "dl \<Rightarrow> bool" where
  "heap_ok s \<longleftrightarrow> distinct (active s) \<and> (\<forall>a. ads s a \<noteq> None \<longrightarrow> a < next_ad s) \<and>
     (\<forall>a \<in> set (active s). \<exists>A. ads s a = Some A \<and> \<not> ad_unlinked A) \<and>
     (\<forall>a \<in> set (active s). \<forall>b \<in> set (active s). ad_off s a = ad_off s b \<longrightarrow> a = b)"

text \<open>The count of a node, given whether it is listed and how many references are held.\<close>

fun ref_eq :: "AD option \<Rightarrow> bool \<Rightarrow> int \<Rightarrow> bool" where
  "ref_eq None listed n \<longleftrightarrow> n = 0"
| "ref_eq (Some A) listed n \<longleftrightarrow> ad_refcount A = of_bool listed + n \<and> 0 < ad_refcount A"

definition refs_ok :: "(nat \<Rightarrow> int) \<Rightarrow> dl \<Rightarrow> bool" where
  "refs_ok er s \<longleftrightarrow> (\<forall>a. 0 \<le> er a) \<and>
     (\<forall>a. ref_eq (ads s a) (a \<in> set (active s)) (icnt (refs a) (threads s) + er a))"

definition owners_ok :: "(int \<Rightarrow> int) \<Rightarrow> dl \<Rightarrow> bool" where
  "owners_ok eo s \<longleftrightarrow> (\<forall>off. icnt (\<lambda>th. owned (blk s) th = Some off) (threads s) + eo off = of_bool (active_off s off))"

definition ginv :: "(nat \<Rightarrow> int) \<Rightarrow> (int \<Rightarrow> int) \<Rightarrow> int \<Rightarrow> int \<Rightarrow> dl \<Rightarrow> bool" where
  "ginv er eo ew es s \<longleftrightarrow> heap_ok s \<and> refs_ok er s \<and> owners_ok eo s \<and>
     waiters (cache s) = icnt waits (threads s) + ew \<and>
     bgt_sem (cache s) + icnt units (threads s) + es = num_bg_workers (cache s) \<and>
     \<not> bad s"

lemma ginvD:
  "ginv er eo ew es s \<Longrightarrow> heap_ok s" "ginv er eo ew es s \<Longrightarrow> refs_ok er s"
  "ginv er eo ew es s \<Longrightarrow> owners_ok eo s" "ginv er eo ew es s \<Longrightarrow> \<not> bad s"
  by (simp_all add: ginv_def)

subsection \<open>Lookups\<close>

lemma ad_search_Some: "ad_search h off as = Some a \<Longrightarrow> a \<in> set as \<and> (\<exists>A. h a = Some A \<and> ad_offset A = off)"
  by (induction as) (auto split: option.splits if_splits)

lemma ad_search_None: "ad_search h off as = None \<longleftrightarrow> (\<forall>a \<in> set as. \<forall>A. h a = Some A \<longrightarrow> ad_offset A \<noteq> off)"
  by (induction as) (auto split: option.splits if_splits)

lemma find_Some:
  "ActiveDownload_find s off = Some a \<Longrightarrow> a \<in> set (active s) \<and> (\<exists>A. ads s a = Some A \<and> ad_offset A = off)"
  unfolding ActiveDownload_find_def by (rule ad_search_Some)

lemma find_None:
  assumes "heap_ok s"
  shows "ActiveDownload_find s off = None \<longleftrightarrow> \<not> active_off s off"
proof -
  have ex: "\<exists>A. ads s a = Some A" if "a \<in> set (active s)" for a
    using assms that unfolding heap_ok_def by blast
  have "(\<forall>A. ads s a = Some A \<longrightarrow> ad_offset A \<noteq> off) \<longleftrightarrow> ad_off s a \<noteq> off" if "a \<in> set (active s)" for a
    using ex [OF that] by (auto simp: ad_off_def)
  then show ?thesis unfolding ActiveDownload_find_def ad_search_None active_off_def by blast
qed

lemma find_eq:
  "heap_ok s \<Longrightarrow> a \<in> set (active s) \<Longrightarrow> ads s a = Some A \<Longrightarrow> ActiveDownload_find s (ad_offset A) = Some a"
proof -
  assume h: "heap_ok s" and a: "a \<in> set (active s)" "ads s a = Some A"
  then have "ad_off s a = ad_offset A" by (simp add: ad_off_def)
  with a have "active_off s (ad_offset A)" unfolding active_off_def by blast
  with find_None [OF h] obtain b where b: "ActiveDownload_find s (ad_offset A) = Some b" by fastforce
  from find_Some [OF b] obtain B where "b \<in> set (active s)" "ads s b = Some B" "ad_offset B = ad_offset A"
    by blast
  moreover have "ad_off s b = ad_off s a" using calculation a by (simp add: ad_off_def)
  ultimately have "b = a" using h a unfolding heap_ok_def by blast
  with b show ?thesis by simp
qed

subsection \<open>Primitives\<close>

lemma set_thread_simps [simp]:
  "cache (set_thread t th s) = cache s" "lnk (set_thread t th s) = lnk s"
  "fsys (set_thread t th s) = fsys s" "ads (set_thread t th s) = ads s"
  "active (set_thread t th s) = active s" "next_ad (set_thread t th s) = next_ad s"
  "w_lock (set_thread t th s) = w_lock s" "bad (set_thread t th s) = bad s"
  "threads (set_thread t th s) = (threads s)[t := th]"
  by (simp_all add: set_thread_def)

lemma lock_simps [simp]:
  "cache (lock_w t s) = cache s" "lnk (lock_w t s) = lnk s" "fsys (lock_w t s) = fsys s"
  "ads (lock_w t s) = ads s" "active (lock_w t s) = active s" "next_ad (lock_w t s) = next_ad s"
  "bad (lock_w t s) = bad s" "threads (lock_w t s) = threads s" "w_lock (lock_w t s) = Some t"
  "cache (unlock_w s) = cache s" "lnk (unlock_w s) = lnk s" "fsys (unlock_w s) = fsys s"
  "ads (unlock_w s) = ads s" "active (unlock_w s) = active s" "next_ad (unlock_w s) = next_ad s"
  "bad (unlock_w s) = bad s" "threads (unlock_w s) = threads s" "w_lock (unlock_w s) = None"
  by (simp_all add: lock_w_def unlock_w_def)

text \<open>\<open>ginv\<close> depends on these fields only.\<close>

definition same_view :: "dl \<Rightarrow> dl \<Rightarrow> bool" where
  "same_view s s' \<longleftrightarrow> ads s' = ads s \<and> active s' = active s \<and> next_ad s' = next_ad s \<and> threads s' = threads s \<and>
     bad s' = bad s \<and> blk s' = blk s \<and> waiters (cache s') = waiters (cache s) \<and>
     bgt_sem (cache s') = bgt_sem (cache s) \<and> num_bg_workers (cache s') = num_bg_workers (cache s)"

lemma ginv_view:
  assumes "same_view s s'"
  shows "ginv er eo ew es s' = ginv er eo ew es s"
proof -
  have e: "ads s' = ads s" "active s' = active s" "next_ad s' = next_ad s" "threads s' = threads s"
    "bad s' = bad s" "blk s' = blk s" "waiters (cache s') = waiters (cache s)"
    "bgt_sem (cache s') = bgt_sem (cache s)" "num_bg_workers (cache s') = num_bg_workers (cache s)"
    using assms by (simp_all add: same_view_def)
  show ?thesis unfolding ginv_def heap_ok_def refs_ok_def owners_ok_def active_off_def ad_off_def e ..
qed

lemma ginv_lock [simp]:
  "ginv er eo ew es (lock_w t s) = ginv er eo ew es s" "ginv er eo ew es (unlock_w s) = ginv er eo ew es s"
  by (rule ginv_view, simp add: same_view_def blk_def)+

lemma blk_simps [simp]:
  "blk (set_thread t th s) = blk s" "blk (lock_w t s) = blk s" "blk (unlock_w s) = blk s"
  by (simp_all add: blk_def)

lemma ginv_set_thread:
  assumes g: "ginv er eo ew es s" and t: "t < length (threads s)"
    and er: "\<And>a. er' a = er a + of_bool (refs a (threads s ! t)) - of_bool (refs a th)"
    and nonneg: "\<And>a. 0 \<le> er' a"
    and eo: "\<And>off. eo' off = eo off + of_bool (owned (blk s) (threads s ! t) = Some off) - of_bool (owned (blk s) th = Some off)"
    and ew: "ew' = ew + of_bool (waits (threads s ! t)) - of_bool (waits th)"
    and es: "es' = es + of_bool (units (threads s ! t)) - of_bool (units th)"
  shows "ginv er' eo' ew' es' (set_thread t th s)"
proof -
  have "heap_ok (set_thread t th s)" using g by (simp add: ginv_def heap_ok_def ad_off_def)
  moreover have "refs_ok er' (set_thread t th s)"
    using g nonneg unfolding ginv_def refs_ok_def
    by (simp add: icnt_update [OF t] er)
  moreover have "owners_ok eo' (set_thread t th s)"
  proof -
    have "active_off (set_thread t th s) off = active_off s off" for off
      by (simp add: active_off_def ad_off_def)
    then show ?thesis using g unfolding ginv_def owners_ok_def
      by (simp add: icnt_update [OF t] eo)
  qed
  ultimately show ?thesis using g unfolding ginv_def by (simp add: icnt_update [OF t] ew es)
qed

lemma ginv_waiter_add: "ginv er eo ew es s \<Longrightarrow> ginv er eo (ew + d) es (waiter_add d s)"
  unfolding waiter_add_def ginv_def heap_ok_def refs_ok_def owners_ok_def active_off_def ad_off_def blk_def
  by simp

lemma ginv_set_sem:
  "ginv er eo ew es s \<Longrightarrow> ginv er eo ew (es + bgt_sem (cache s) - n) (set_sem n s)"
  unfolding set_sem_def ginv_def heap_ok_def refs_ok_def owners_ok_def active_off_def ad_off_def blk_def
  by simp

lemma ginv_post_sem: "ginv er eo ew es s \<Longrightarrow> ginv er eo ew (es - 1) (post_sem s)"
  using ginv_set_sem [of er eo ew es s "bgt_sem (cache s) + 1"] by (simp add: post_sem_def sem_post_def)

lemma ginv_append:
  assumes g: "ginv er eo ew es s" and r: "\<And>a. \<not> refs a th"
    and eo: "\<And>off. eo' off = eo off - of_bool (owned (blk s) th = Some off)"
    and ew: "ew' = ew - of_bool (waits th)" and es: "es' = es - of_bool (units th)"
  shows "ginv er eo' ew' es' (s\<lparr>threads := threads s @ [th]\<rparr>)"
proof -
  let ?s = "s\<lparr>threads := threads s @ [th]\<rparr>"
  have ao: "active_off ?s off = active_off s off" for off by (simp add: active_off_def ad_off_def)
  have b: "blk ?s = blk s" by (simp add: blk_def)
  have "heap_ok ?s" using ginvD(1) [OF g] by (simp add: heap_ok_def ad_off_def)
  moreover have "refs_ok er ?s" using ginvD(2) [OF g] r by (simp add: refs_ok_def)
  moreover have "owners_ok eo' ?s" using ginvD(3) [OF g] by (simp add: owners_ok_def ao b eo)
  ultimately show ?thesis using g by (simp add: ginv_def ew es)
qed

lemma ginv_add:
  assumes g: "ginv er eo ew es s" and free: "ActiveDownload_find s off = None"
  shows "ginv er (eo(off := eo off + 1)) ew es (ActiveDownload_add off s)"
proof -
  let ?a = "next_ad s"
  let ?s = "ActiveDownload_add off s"
  have h: "heap_ok s" using g by (simp add: ginv_def)
  have new: "ads s ?a = None" using h unfolding heap_ok_def by blast
  have na: "?a \<notin> set (active s)" using h new by (auto simp: heap_ok_def)
  have noff: "\<not> active_off s off" using find_None [OF h] free by simp
  have f: "ads ?s = (ads s)(?a \<mapsto> \<lparr>ad_offset = off, ad_ts = None, ad_refcount = 1, ad_unlinked = False\<rparr>)"
    "active ?s = ?a # active s" "next_ad ?s = Suc ?a" "threads ?s = threads s" "cache ?s = cache s"
    "bad ?s = bad s" "blk ?s = blk s"
    by (simp_all add: ActiveDownload_add_def Let_def blk_def)
  have ao: "ad_off ?s b = (if b = ?a then off else ad_off s b)" for b
    by (simp add: ad_off_def f)
  have "heap_ok ?s"
    using h na noff by (auto simp: heap_ok_def f ao active_off_def less_SucI)
  moreover have "refs_ok er ?s"
    unfolding refs_ok_def f
  proof (intro conjI allI)
    have r: "refs_ok er s" using g by (simp add: ginv_def)
    then show "0 \<le> er b" for b by (simp add: refs_ok_def)
    have za: "icnt (refs ?a) (threads s) = 0" "er ?a = 0"
    proof -
      have "ref_eq (ads s ?a) (?a \<in> set (active s)) (icnt (refs ?a) (threads s) + er ?a)" "0 \<le> er ?a"
        using r by (simp_all add: refs_ok_def)
      then show "icnt (refs ?a) (threads s) = 0" "er ?a = 0"
        using new icnt_nonneg [of "refs ?a" "threads s"] by (simp_all del: icnt_nonneg)
    qed
    fix b
    have "ref_eq (ads s b) (b \<in> set (active s)) (icnt (refs b) (threads s) + er b)"
      using r by (simp add: refs_ok_def)
    then show "ref_eq (((ads s)(?a \<mapsto> \<lparr>ad_offset = off, ad_ts = None, ad_refcount = 1, ad_unlinked = False\<rparr>)) b)
        (b \<in> set (?a # active s)) (icnt (refs b) (threads s) + er b)"
      using za by (cases "b = ?a") simp_all
  qed
  moreover have "owners_ok (eo(off := eo off + 1)) ?s"
  proof -
    have "active_off ?s o' = (o' = off \<or> active_off s o')" for o'
      using na by (auto simp: active_off_def f ao)
    then show ?thesis using g noff by (auto simp: ginv_def owners_ok_def f)
  qed
  ultimately show ?thesis using g by (simp add: ginv_def f)
qed

lemma ginv_ref:
  assumes g: "ginv er eo ew es s" and a: "ads s a \<noteq> None"
  shows "ginv (er(a := er a + 1)) eo ew es (ad_ref a s)"
proof -
  obtain A where A: "ads s a = Some A" using a by blast
  let ?s = "ad_ref a s"
  have f: "ads ?s = (ads s)(a \<mapsto> A\<lparr>ad_refcount := ad_refcount A + 1\<rparr>)" "active ?s = active s"
    "next_ad ?s = next_ad s" "threads ?s = threads s" "cache ?s = cache s" "bad ?s = bad s" "blk ?s = blk s"
    by (simp_all add: ad_ref_def A blk_def)
  have ao: "ad_off ?s = ad_off s" by (auto simp: ad_off_def f A fun_eq_iff)
  have "heap_ok ?s" using g A by (auto simp: ginv_def heap_ok_def f ao)
  moreover have "refs_ok (er(a := er a + 1)) ?s"
  proof -
    have r: "ref_eq (ads s b) (b \<in> set (active s)) (icnt (refs b) (threads s) + er b)" "0 \<le> er b" for b
      using ginvD(2) [OF g] by (simp_all add: refs_ok_def)
    have "ref_eq (ads ?s b) (b \<in> set (active s)) (icnt (refs b) (threads s) + (er(a := er a + 1)) b)" for b
      using r(1) [of b] A by (cases "b = a") (simp_all add: f)
    then show ?thesis using r(2) unfolding refs_ok_def f by (simp add: add_nonneg_nonneg)
  qed
  moreover have "owners_ok eo ?s" using g by (simp add: ginv_def owners_ok_def active_off_def f ao)
  ultimately show ?thesis using g by (simp add: ginv_def f)
qed

lemma ginv_unref:
  assumes g: "ginv er eo ew es s" and er: "1 \<le> er a"
  shows "ginv (er(a := er a - 1)) eo ew es (ActiveDownload_unref a s)"
proof -
  have r: "ref_eq (ads s b) (b \<in> set (active s)) (icnt (refs b) (threads s) + er b)" "0 \<le> er b" for b
    using ginvD(2) [OF g] by (simp_all add: refs_ok_def)
  have n: "1 \<le> icnt (refs a) (threads s) + er a" using er icnt_nonneg [of "refs a" "threads s"] by linarith
  obtain A where A: "ads s a = Some A" using r(1) [of a] n by (cases "ads s a") simp_all
  have rc: "ad_refcount A = of_bool (a \<in> set (active s)) + icnt (refs a) (threads s) + er a"
    using r(1) [of a] A by simp
  have h: "heap_ok s" using ginvD(1) [OF g] .
  show ?thesis
  proof (cases "ad_refcount A - 1 = 0")
    case True
    let ?s = "s\<lparr>ads := (ads s)(a := None)\<rparr>"
    have u: "ActiveDownload_unref a s = ?s" using True A by (simp add: ActiveDownload_unref_def)
    have na: "a \<notin> set (active s)" and z: "icnt (refs a) (threads s) + er a = 1"
      using True rc n by (cases "a \<in> set (active s)"; simp)+
    have ao: "ad_off ?s b = ad_off s b" if "b \<in> set (active s)" for b using na that by (auto simp: ad_off_def)
    have "heap_ok ?s" unfolding heap_ok_def
    proof (intro conjI ballI allI impI)
      show "distinct (active ?s)" using h by (simp add: heap_ok_def)
      show "b < next_ad ?s" if "ads ?s b \<noteq> None" for b using h that by (auto simp: heap_ok_def split: if_splits)
      show "\<exists>A. ads ?s b = Some A \<and> \<not> ad_unlinked A" if "b \<in> set (active ?s)" for b
        using h that na by (auto simp: heap_ok_def)
      show "b = c" if "b \<in> set (active ?s)" "c \<in> set (active ?s)" "ad_off ?s b = ad_off ?s c" for b c
        using h that ao by (simp add: heap_ok_def)
    qed
    moreover have "refs_ok (er(a := er a - 1)) ?s"
      using r z er na by (auto simp: refs_ok_def)
    moreover have "active_off ?s off = active_off s off" for off using ao by (simp add: active_off_def)
    then have "owners_ok eo ?s" using ginvD(3) [OF g] by (simp add: owners_ok_def blk_def)
    ultimately show ?thesis using g unfolding u by (simp add: ginv_def)
  next
    case False
    let ?s = "s\<lparr>ads := (ads s)(a \<mapsto> A\<lparr>ad_refcount := ad_refcount A - 1\<rparr>)\<rparr>"
    have u: "ActiveDownload_unref a s = ?s" using False A by (simp add: ActiveDownload_unref_def)
    have ao: "ad_off ?s = ad_off s" by (auto simp: ad_off_def A fun_eq_iff)
    have "heap_ok ?s" using h A by (auto simp: heap_ok_def ao)
    moreover have "refs_ok (er(a := er a - 1)) ?s"
      using r r(1) [of a] er A False by (auto simp: refs_ok_def)
    moreover have "owners_ok eo ?s" using ginvD(3) [OF g] by (simp add: owners_ok_def active_off_def ao blk_def)
    ultimately show ?thesis using g unfolding u by (simp add: ginv_def)
  qed
qed

text \<open>An offset that a thread owns is listed, and so is one that is owned by surplus.\<close>

lemma surplus_active: "ginv er eo ew es s \<Longrightarrow> 1 \<le> eo off \<Longrightarrow> active_off s off"
proof -
  assume g: "ginv er eo ew es s" and eo: "1 \<le> eo off"
  have "icnt (\<lambda>th. owned (blk s) th = Some off) (threads s) + eo off = of_bool (active_off s off)"
    using ginvD(3) [OF g] by (simp add: owners_ok_def)
  with eo show ?thesis using icnt_nonneg [of "\<lambda>th. owned (blk s) th = Some off" "threads s"]
    by (cases "active_off s off") (simp_all del: icnt_nonneg)
qed

lemma owned_active:
  assumes g: "ginv er eo ew es s" and "0 \<le> eo off" "t < length (threads s)" "owned (blk s) (threads s ! t) = Some off"
  shows "active_off s off"
proof -
  have "icnt (\<lambda>th. owned (blk s) th = Some off) (threads s) + eo off = of_bool (active_off s off)"
    using ginvD(3) [OF g] by (simp add: owners_ok_def)
  moreover have "1 \<le> icnt (\<lambda>th. owned (blk s) th = Some off) (threads s)"
    using assms(3,4) by (intro icnt_pos [of t]) simp_all
  ultimately show ?thesis using assms(2) by (cases "active_off s off") simp_all
qed

lemma ginv_remove:
  assumes g: "ginv er eo ew es s" and act: "active_off s off"
  shows "ginv er (eo(off := eo off - 1)) ew es (ActiveDownload_remove off s)"
proof -
  have h: "heap_ok s" using ginvD(1) [OF g] .
  from act find_None [OF h, of off] obtain a where a: "ActiveDownload_find s off = Some a" by (metis option.exhaust)
  from find_Some [OF a] obtain A where A: "a \<in> set (active s)" "ads s a = Some A" "ad_offset A = off" by blast
  let ?s = "s\<lparr>active := remove1 a (active s), ads := (ads s)(a \<mapsto> A\<lparr>ad_unlinked := True\<rparr>)\<rparr>"
  have d: "distinct (active s)" using h by (simp add: heap_ok_def)
  have set1: "set (remove1 a (active s)) = set (active s) - {a}" using d by (rule set_remove1_eq)
  have ao: "ad_off ?s = ad_off s" by (auto simp: ad_off_def A fun_eq_iff)
  have r: "ref_eq (ads s b) (b \<in> set (active s)) (icnt (refs b) (threads s) + er b)" "0 \<le> er b" for b
    using ginvD(2) [OF g] by (simp_all add: refs_ok_def)
  have "heap_ok ?s" using h A by (auto simp: heap_ok_def set1 ao)
  moreover have "refs_ok (er(a := er a + 1)) ?s"
    using r r(1) [of a] A by (auto simp: refs_ok_def set1 add_nonneg_nonneg)
  moreover have "owners_ok (eo(off := eo off - 1)) ?s"
  proof -
    have off: "ad_off s a = off" using A by (simp add: ad_off_def)
    have "active_off ?s o' = (o' \<noteq> off \<and> active_off s o')" for o'
    proof
      assume "active_off ?s o'"
      then obtain b where b: "b \<in> set (active s)" "b \<noteq> a" "ad_off s b = o'"
        by (auto simp: active_off_def ao set1)
      then have "ad_off s b \<noteq> ad_off s a" using h A(1) unfolding heap_ok_def by blast
      with b off show "o' \<noteq> off \<and> active_off s o'" by (auto simp: active_off_def)
    next
      assume "o' \<noteq> off \<and> active_off s o'"
      then obtain b where b: "b \<in> set (active s)" "ad_off s b = o'" "o' \<noteq> off" by (auto simp: active_off_def)
      then have "b \<noteq> a" using off by auto
      with b show "active_off ?s o'" by (auto simp: active_off_def ao set1)
    qed
    moreover have "icnt (\<lambda>th. owned (blk s) th = Some o') (threads s) + eo o' = of_bool (active_off s o')" for o'
      using ginvD(3) [OF g] by (simp add: owners_ok_def)
    note own = this
    have one: "icnt (\<lambda>th. owned (blk s) th = Some off) (threads s) + eo off = 1"
      using own [of off] act by simp
    have "icnt (\<lambda>th. owned (blk s) th = Some o') (threads s) + (eo(off := eo off - 1)) o' =
        of_bool (o' \<noteq> off \<and> active_off s o')" for o'
    proof (cases "o' = off")
      case True
      with one show ?thesis by simp
    next
      case False
      with own [of o'] show ?thesis by simp
    qed
    ultimately show ?thesis by (simp add: owners_ok_def blk_def)
  qed
  ultimately have "ginv (er(a := er a + 1)) (eo(off := eo off - 1)) ew es ?s" using g by (simp add: ginv_def)
  from ginv_unref [OF this, of a] r(2) [of a]
  have "ginv er (eo(off := eo off - 1)) ew es (ActiveDownload_unref a ?s)" by simp
  then show ?thesis by (simp add: ActiveDownload_remove_def a A)
qed

lemma ginv_drop:
  assumes g: "ginv er eo ew es s" and act: "active_off s off"
  shows "ginv er (eo(off := eo off - 1)) (ew - 1) es (drop_download off s)"
  using ginv_waiter_add [OF ginv_remove [OF assms], of "-1"]
  by (simp add: drop_download_def Cache_waiter_decrement_def)

subsection \<open>Between steps\<close>

definition ainv :: "dl \<Rightarrow> bool" where
  "ainv s \<longleftrightarrow> ginv (\<lambda>_. 0) (\<lambda>_. 0) 0 0 s"

text \<open>The last primitive of a step: the thread moves, and the surpluses vanish.\<close>

lemma ainv_set_thread:
  assumes g: "ginv er eo ew es s" and t: "t < length (threads s)"
    and er: "\<And>a. er a + of_bool (refs a (threads s ! t)) = of_bool (refs a th)"
    and eo: "\<And>off. eo off + of_bool (owned (blk s) (threads s ! t) = Some off) = of_bool (owned (blk s) th = Some off)"
    and ew: "ew + of_bool (waits (threads s ! t)) = of_bool (waits th)"
    and es: "es + of_bool (units (threads s ! t)) = of_bool (units th)"
  shows "ainv (set_thread t th s)"
  unfolding ainv_def
  by (rule ginv_set_thread [OF g t]) (simp_all add: er eo ew es)

lemma ainv_same:
  assumes "ainv s" "t < length (threads s)"
    and "\<And>a. refs a th = refs a (threads s ! t)" "owned (blk s) th = owned (blk s) (threads s ! t)"
    and "waits th = waits (threads s ! t)" "units th = units (threads s ! t)"
  shows "ainv (set_thread t th s)"
  by (rule ainv_set_thread [OF assms(1) [unfolded ainv_def] assms(2)]) (simp_all add: assms(3-6))

lemma ainv_lock [simp]: "ainv (lock_w t s) = ainv s" "ainv (unlock_w s) = ainv s"
  by (simp_all add: ainv_def)

lemmas sig_defs = refs_def owned_def waits_def units_def

section \<open>Every step keeps the accounts\<close>

lemma goto_simps [simp]:
  "cache (goto_pc t p s) = cache s" "lnk (goto_pc t p s) = lnk s" "fsys (goto_pc t p s) = fsys s"
  "ads (goto_pc t p s) = ads s" "active (goto_pc t p s) = active s" "w_lock (goto_pc t p s) = w_lock s"
  "blk (goto_pc t p s) = blk s" "flen (goto_pc t p s) = flen s"
  "threads (goto_pc t p s) = (threads s)[t := (threads s ! t)\<lparr>pc := p\<rparr>]"
  by (simp_all add: goto_pc_def flen_def)

text \<open>The thread \<open>t\<close> is about to take a step from \<open>p\<close>.\<close>

definition at :: "nat \<Rightarrow> pc \<Rightarrow> dl \<Rightarrow> bool" where
  "at t p s \<longleftrightarrow> t < length (threads s) \<and> pc (threads s ! t) = p \<and> valid (threads s ! t)"

lemma at_reader:
  assumes "at t p s" "\<not> worker_pc p"
  obtains off len where "kind (threads s ! t) = Reader off len"
  using assms by (cases "kind (threads s ! t)") (auto simp: at_def valid_def)

lemma at_tad: "at t p s \<Longrightarrow> p \<noteq> L_recv \<Longrightarrow> (\<And>r. p \<noteq> L_fin r) \<Longrightarrow> tad (threads s ! t) = None"
  by (auto simp: at_def valid_def split: pc.splits)

lemma sem_simps [simp]:
  "threads (set_sem n s) = threads s" "threads (post_sem s) = threads s" "threads (waiter_add d s) = threads s"
  "blk (set_sem n s) = blk s" "blk (post_sem s) = blk s" "blk (waiter_add d s) = blk s"
  "ads (waiter_add d s) = ads s" "active (waiter_add d s) = active s" "ads (set_sem n s) = ads s"
  "active (set_sem n s) = active s" "ads (post_sem s) = ads s" "active (post_sem s) = active s"
  "threads (ActiveDownload_add off s) = threads s" "blk (ActiveDownload_add off s) = blk s"
  by (simp_all add: set_sem_def post_sem_def waiter_add_def ActiveDownload_add_def Let_def blk_def)

lemma ginv_trysem: "ainv s \<Longrightarrow> ginv (\<lambda>_. 0) (\<lambda>_. 0) 0 1 (set_sem (bgt_sem (cache s) - 1) s)"
  using ginv_set_sem [of "\<lambda>_. 0" "\<lambda>_. 0" 0 0 s "bgt_sem (cache s) - 1"] by (simp add: ainv_def)

lemma ainv_add:
  "ainv s \<Longrightarrow> ActiveDownload_find s off = None \<Longrightarrow>
   ginv (\<lambda>_. 0) (\<lambda>o'. of_bool (o' = off)) 0 0 (ActiveDownload_add off s)"
  unfolding ainv_def using ginv_add [of "\<lambda>_. 0" "\<lambda>_. 0" 0 0 s off]
  by (simp add: fun_upd_def of_bool_def)

lemma ainv_trysem:
  assumes inv: "ainv s" and at: "at t R_trysem s"
  shows "ainv (st_trysem t s)"
proof -
  obtain off len where k: "kind (threads s ! t) = Reader off len" by (rule at_reader [OF at]) simp_all
  have t: "t < length (threads s)" "pc (threads s ! t) = R_trysem" "tad (threads s ! t) = None"
    using at at_tad [OF at] by (simp_all add: at_def)
  have 1: "ainv (goto_pc t R_bgadd (set_sem (bgt_sem (cache s) - 1) s))"
    unfolding goto_pc_def
    by (rule ainv_set_thread [OF ginv_trysem [OF inv]]) (use t k in \<open>simp_all add: sig_defs\<close>)
  have 2: "ainv (goto_pc t R_syncdl s)"
    unfolding goto_pc_def by (rule ainv_same [OF inv]) (use t k in \<open>simp_all add: sig_defs\<close>)
  from 1 2 show ?thesis by (simp add: st_trysem_def sem_trywait_def)
qed

lemma ainv_bgadd:
  assumes inv: "ainv s" and at: "at t R_bgadd s"
  shows "ainv (st_bgadd t s)"
proof -
  obtain off len where k: "kind (threads s ! t) = Reader off len" by (rule at_reader [OF at]) simp_all
  have t: "t < length (threads s)" "pc (threads s ! t) = R_bgadd" "tad (threads s ! t) = None"
    using at at_tad [OF at] by (simp_all add: at_def)
  let ?o = "dl_offset_of s (cur (threads s ! t))"
  have 1: "ainv (goto_pc t R_launch (ActiveDownload_add ?o s))" if "ActiveDownload_find s ?o = None"
    unfolding goto_pc_def
    by (rule ainv_set_thread [OF ainv_add [OF inv that]]) (use t k in \<open>auto simp: sig_defs dl_offset_of_def\<close>)
  have 2: "ainv (goto_pc t R_syncdl (post_sem s))"
    unfolding goto_pc_def
    by (rule ainv_set_thread [OF ginv_post_sem [OF inv [unfolded ainv_def]]]) (use t k in \<open>simp_all add: sig_defs\<close>)
  from 1 2 show ?thesis by (auto simp: st_bgadd_def Let_def split: option.split)
qed

lemma ainv_launch:
  assumes inv: "ainv s" and at: "at t R_launch s"
  shows "ainv (st_launch t s)"
proof -
  obtain off len where k: "kind (threads s ! t) = Reader off len" by (rule at_reader [OF at]) simp_all
  have t: "t < length (threads s)" "pc (threads s ! t) = R_launch" "tad (threads s ! t) = None"
    using at at_tad [OF at] by (simp_all add: at_def)
  show ?thesis unfolding st_launch_def goto_pc_def
    by (rule ainv_set_thread [OF ginv_waiter_add [OF inv [unfolded ainv_def]]])
      (use t k in \<open>simp_all add: sig_defs\<close>)
qed

lemma new_worker_sig:
  "\<not> refs a (new_thread (Worker off) L_attach x y)" "owned b (new_thread (Worker off) L_attach x y) = Some off"
  "waits (new_thread (Worker off) L_attach x y)" "units (new_thread (Worker off) L_attach x y)"
  by (simp_all add: sig_defs new_thread_def)

lemma ainv_create:
  assumes inv: "ainv s" and at: "at t R_create s"
  shows "ainv (st_create t s)"
proof -
  obtain off len where k: "kind (threads s ! t) = Reader off len" by (rule at_reader [OF at]) simp_all
  have t: "t < length (threads s)" "pc (threads s ! t) = R_create" "tad (threads s ! t) = None"
    using at at_tad [OF at] by (simp_all add: at_def)
  let ?o = "dl_offset_of s (cur (threads s ! t))"
  have "ginv (\<lambda>_. 0) (\<lambda>o'. of_bool (o' = ?o)) 1 1 (goto_pc t R_retry s)"
    unfolding goto_pc_def
    by (rule ginv_set_thread [OF inv [unfolded ainv_def]]) (use t k in \<open>auto simp: sig_defs dl_offset_of_def\<close>)
  then have "ainv (spawn_worker ?o (goto_pc t R_retry s))"
    unfolding ainv_def spawn_worker_def
    by (rule ginv_append) (auto simp: new_worker_sig)
  then show ?thesis by (simp add: st_create_def)
qed

lemma ainv_syncdl:
  assumes inv: "ainv s" and at: "at t R_syncdl s"
  shows "ainv (st_syncdl t s)"
proof -
  obtain off len where k: "kind (threads s ! t) = Reader off len" by (rule at_reader [OF at]) simp_all
  have t: "t < length (threads s)" "pc (threads s ! t) = R_syncdl" "tad (threads s ! t) = None"
    using at at_tad [OF at] by (simp_all add: at_def)
  let ?o = "dl_offset_of s (cur (threads s ! t))"
  have 1: "ainv (goto_pc t L_attach (waiter_add 1 (ActiveDownload_add ?o s)))" if "ActiveDownload_find s ?o = None"
    unfolding goto_pc_def
    by (rule ainv_set_thread [OF ginv_waiter_add [OF ainv_add [OF inv that]]])
      (use t k in \<open>auto simp: sig_defs dl_offset_of_def\<close>)
  have 2: "ainv (goto_pc t R_retry s)"
    unfolding goto_pc_def by (rule ainv_same [OF inv]) (use t k in \<open>simp_all add: sig_defs\<close>)
  from 1 2 show ?thesis by (auto simp: st_syncdl_def Let_def split: option.split)
qed

lemma ainv_read_cached:
  assumes inv: "ainv s" and at: "at t p s" "p = R_retry \<or> p = R_relock"
  shows "ainv (read_cached t flt s)"
proof -
  obtain off len where k: "kind (threads s ! t) = Reader off len"
    using at(2) by (elim disjE) (auto intro: at_reader [OF at(1)])
  have t: "t < length (threads s)" "pc (threads s ! t) = p" "tad (threads s ! t) = None"
    using at at_tad [OF at(1)] by (auto simp: at_def)
  show ?thesis unfolding read_cached_def Let_def
    by (split prod.split, intro allI impI, simp, rule ainv_same [OF inv])
      (use t k at(2) in \<open>auto simp: sig_defs\<close>)
qed

text \<open>A transfer that a node points to is running, on that node, for that node's offset.\<close>

definition receiving :: "thread \<Rightarrow> bool" where
  "receiving th \<longleftrightarrow> (case pc th of L_recv \<Rightarrow> True | L_fin _ \<Rightarrow> True | _ \<Rightarrow> False)"

definition ts_ok :: "dl \<Rightarrow> bool" where
  "ts_ok s \<longleftrightarrow> (\<forall>a A u. ads s a = Some A \<longrightarrow> ad_ts A = Some u \<longrightarrow>
     u < length (threads s) \<and> receiving (threads s ! u) \<and> tad (threads s ! u) = Some a \<and>
     own_offset s (threads s ! u) = ad_offset A)"

lemma ginv_live: "ginv er eo ew es s \<Longrightarrow> 1 \<le> er a \<Longrightarrow> ads s a \<noteq> None"
proof -
  assume g: "ginv er eo ew es s" and er: "1 \<le> er a"
  have "ref_eq (ads s a) (a \<in> set (active s)) (icnt (refs a) (threads s) + er a)"
    using ginvD(2) [OF g] by (simp add: refs_ok_def)
  moreover have "1 \<le> icnt (refs a) (threads s) + er a" using er icnt_nonneg [of "refs a" "threads s"] by linarith
  ultimately show ?thesis by (cases "ads s a") simp_all
qed

lemma ginv_live_ref:
  assumes g: "ginv er eo ew es s" and "t < length (threads s)" "refs a (threads s ! t)"
  shows "ads s a \<noteq> None"
proof -
  have "ref_eq (ads s a) (a \<in> set (active s)) (icnt (refs a) (threads s) + er a)" "0 \<le> er a"
    using ginvD(2) [OF g] by (simp_all add: refs_ok_def)
  moreover have "1 \<le> icnt (refs a) (threads s)" using assms(2,3) by (rule icnt_pos)
  ultimately show ?thesis by (cases "ads s a") simp_all
qed

lemma zero_fun: "(\<lambda>b. of_bool (b = a) :: int)(a := 0) = (\<lambda>_. 0)"
  by auto

text \<open>Leaving the wait: the waiter's count and its reference on the node go.\<close>

lemma ainv_leave:
  assumes g: "ginv er (\<lambda>_. 0) ew 0 s" and t: "t < length (threads s)"
    and er: "\<And>b. er b + of_bool (refs b (threads s ! t)) = of_bool (b = a)"
    and ew: "ew + of_bool (waits (threads s ! t)) = 1"
    and old: "owned (blk s) (threads s ! t) = None" "\<not> units (threads s ! t)"
    and new: "\<And>b. \<not> refs b th" "owned (blk s) th = None" "\<not> waits th" "\<not> units th"
  shows "ainv (ActiveDownload_unref a (Cache_waiter_decrement (set_thread t th s)))"
proof -
  have "ginv (\<lambda>b. of_bool (b = a)) (\<lambda>_. 0) 1 0 (set_thread t th s)"
    by (rule ginv_set_thread [OF g t]) (use er ew old new in \<open>simp_all add: algebra_simps\<close>)
  from ginv_waiter_add [OF this, of "-1"]
  have "ginv (\<lambda>b. of_bool (b = a)) (\<lambda>_. 0) 0 0 (Cache_waiter_decrement (set_thread t th s))"
    by (simp add: Cache_waiter_decrement_def)
  from ginv_unref [OF this, of a] show ?thesis by (simp add: ainv_def zero_fun)
qed

lemma ainv_wait_check:
  assumes g: "ginv er (\<lambda>_. 0) ew 0 s" and t: "t < length (threads s)"
    and er: "\<And>b. er b + of_bool (refs b (threads s ! t)) = of_bool (b = a)"
    and ew: "ew + of_bool (waits (threads s ! t)) = 1"
    and old: "owned (blk s) (threads s ! t) = None" "\<not> units (threads s ! t)"
    and k: "kind (threads s ! t) = Reader off len" and tn: "tad (threads s ! t) = None" and ts: "ts_ok s"
  shows "ainv (wait_check t a s)"
proof -
  have "ads s a \<noteq> None"
  proof (cases "refs a (threads s ! t)")
    case True
    with g t show ?thesis by (rule ginv_live_ref)
  next
    case False
    with er [of a] g show ?thesis by (intro ginv_live [OF g]) simp
  qed
  then obtain A where A: "ads s a = Some A" by blast
  have stay: "ainv (goto_pc t (R_wait a) s)" unfolding goto_pc_def
    by (rule ainv_set_thread [OF g t]) (use er ew old k tn in \<open>auto simp: sig_defs\<close>)
  have leave: "ainv (ActiveDownload_unref a (Cache_waiter_decrement (set_thread t th s)))"
    if "kind th = Reader off len" "tad th = None" "pc th = R_relock \<or> (\<exists>r. pc th = R_ret r) \<or> (\<exists>r. pc th = R_bgdl r)"
    for th
    by (rule ainv_leave [OF g t er ew old]) (use that k tn in \<open>auto simp: sig_defs\<close>)
  show ?thesis
  proof (cases "shutting_down (cache s) \<or> ad_unlinked A")
    case True
    then have "wait_check t a s = ActiveDownload_unref a (Cache_waiter_decrement (set_thread t
        ((threads s ! t)\<lparr>pc := if shutting_down (cache s) then R_ret (- EIO) else R_relock\<rparr>) s))"
      using A by (auto simp: wait_check_def goto_pc_def Let_def)
    then show ?thesis using leave k tn by simp
  next
    case False
    show ?thesis
    proof (cases "ad_ts A")
      case None
      with False A stay show ?thesis by (simp add: wait_check_def Let_def)
    next
      case (Some u)
      have u: "u < length (threads s)" using ts A Some unfolding ts_ok_def by blast
      show ?thesis
      proof (cases "tdata (threads s ! u)")
        case None
        with False A Some u stay show ?thesis by (simp add: wait_check_def Let_def)
      next
        case d: (Some d)
        show ?thesis using False A Some u d stay k tn
          by (simp add: wait_check_def Let_def) (auto intro!: leave)
      qed
    qed
  qed
qed

lemma ainv_wait:
  assumes inv: "ainv s" and at: "at t (R_wait a) s" and ts: "ts_ok s"
  shows "ainv (wait_check t a s)"
proof -
  obtain off len where k: "kind (threads s ! t) = Reader off len" by (rule at_reader [OF at]) simp_all
  have t: "t < length (threads s)" "pc (threads s ! t) = R_wait a" "tad (threads s ! t) = None"
    using at at_tad [OF at] by (simp_all add: at_def)
  show ?thesis
    by (rule ainv_wait_check [OF inv [unfolded ainv_def] t(1) _ _ _ _ k t(3) ts])
      (use t k in \<open>auto simp: sig_defs\<close>)
qed

lemma ref_simps [simp]:
  "threads (ad_ref a s) = threads s" "blk (ad_ref a s) = blk s" "cache (ad_ref a s) = cache s"
  "active (ad_ref a s) = active s"
  by (simp_all add: ad_ref_def blk_def split: option.split)

lemma ts_ok_view:
  assumes "ts_ok s" "threads s' = threads s" "blk s' = blk s"
    and "\<And>a A. ads s' a = Some A \<Longrightarrow> \<exists>B. ads s a = Some B \<and> ad_ts B = ad_ts A \<and> ad_offset B = ad_offset A"
  shows "ts_ok s'"
  using assms unfolding ts_ok_def own_offset_def dl_offset_of_def by metis

lemma ainv_retry:
  assumes inv: "ainv s" and at: "at t R_retry s" and ts: "ts_ok s"
  shows "ainv (st_retry t flt s)"
proof -
  obtain off len where k: "kind (threads s ! t) = Reader off len" by (rule at_reader [OF at]) simp_all
  have t: "t < length (threads s)" "pc (threads s ! t) = R_retry" "tad (threads s ! t) = None"
    using at at_tad [OF at] by (simp_all add: at_def)
  let ?s1 = "lock_w t s"
  have inv1: "ainv ?s1" and at1: "at t R_retry ?s1" using inv at by (simp_all add: at_def)
  have 1: "ainv (read_cached t flt ?s1)" by (rule ainv_read_cached [OF inv1 at1]) simp
  have 2: "ainv (goto_pc t R_trysem ?s1)"
    unfolding goto_pc_def by (rule ainv_same [OF inv1]) (use t k in \<open>simp_all add: sig_defs\<close>)
  have 3: "ainv (wait_check t a (waiter_add 1 (ad_ref a (unlock_w ?s1))))"
    if find: "ActiveDownload_find ?s1 o' = Some a" for a o'
  proof -
    let ?s2 = "waiter_add 1 (ad_ref a (unlock_w ?s1))"
    obtain A where A: "ads s a = Some A" using find_Some [OF find] by auto
    have "ginv ((\<lambda>_. 0)(a := 0 + 1)) (\<lambda>_. 0) 0 0 (ad_ref a (unlock_w ?s1))"
      by (rule ginv_ref) (use inv A in \<open>simp_all add: ainv_def\<close>)
    then have g: "ginv ((\<lambda>_. 0)(a := 0 + 1)) (\<lambda>_. 0) (0 + 1) 0 ?s2" by (rule ginv_waiter_add)
    have same: "threads ?s2 = threads s" "blk ?s2 = blk s" by simp_all
    have ts2: "ts_ok ?s2"
      by (rule ts_ok_view [OF ts same]) (auto simp: ad_ref_def A split: if_splits)
    show ?thesis
      by (rule ainv_wait_check [OF g _ _ _ _ _ _ _ ts2]) (use t k in \<open>auto simp: sig_defs\<close>)
  qed
  from 1 2 3 show ?thesis by (auto simp: st_retry_def Let_def split: option.split)
qed

lemma ainv_relock:
  assumes inv: "ainv s" and at: "at t R_relock s"
  shows "ainv (st_relock t flt s)"
proof -
  obtain off len where k: "kind (threads s ! t) = Reader off len" by (rule at_reader [OF at]) simp_all
  have t: "t < length (threads s)" "pc (threads s ! t) = R_relock" "tad (threads s ! t) = None"
    using at at_tad [OF at] by (simp_all add: at_def)
  let ?s1 = "lock_w t s"
  have inv1: "ainv ?s1" and at1: "at t R_relock ?s1" using inv at by (simp_all add: at_def)
  have 1: "ainv (read_cached t flt ?s1)" by (rule ainv_read_cached [OF inv1 at1]) simp
  have 2: "ainv (goto_pc t R_syncdl ?s1)"
    unfolding goto_pc_def by (rule ainv_same [OF inv1]) (use t k in \<open>simp_all add: sig_defs\<close>)
  from 1 2 show ?thesis by (auto simp: st_relock_def Let_def)
qed

lemma ainv_store: "ainv (store_segment flt buf recv off s) = ainv s"
proof -
  have "same_view s (store_segment flt buf recv off s)"
    by (auto simp: store_segment_def same_view_def blk_def Seg_set_eq split: prod.split)
  then show ?thesis unfolding ainv_def by (rule ginv_view)
qed

lemma store_simps [simp]:
  "threads (store_segment flt buf recv off s) = threads s" "ads (store_segment flt buf recv off s) = ads s"
  "active (store_segment flt buf recv off s) = active s" "blk (store_segment flt buf recv off s) = blk s"
  "w_lock (store_segment flt buf recv off s) = w_lock s" "lnk (store_segment flt buf recv off s) = lnk s"
  by (simp_all add: store_segment_def blk_def Seg_set_eq split: prod.split)

text \<open>The owner of a download finishes it.\<close>

lemma ainv_finish:
  assumes inv: "ainv s" and t: "t < length (threads s)"
    and old: "owned (blk s) (threads s ! t) = Some off" "waits (threads s ! t)" "\<And>b. \<not> refs b (threads s ! t)"
    and new: "\<And>b. \<not> refs b th" "owned (blk s) th = None" "\<not> waits th" "units th = units (threads s ! t)"
  shows "ainv (drop_download off (set_thread t th s))"
proof -
  have g: "ginv (\<lambda>_. 0) (\<lambda>o'. of_bool (o' = off)) 1 0 (set_thread t th s)"
    by (rule ginv_set_thread [OF inv [unfolded ainv_def] t]) (use old new in auto)
  have "active_off (set_thread t th s) off" by (rule surplus_active [OF g]) simp
  from ginv_drop [OF g this] show ?thesis by (simp add: ainv_def zero_fun)
qed

lemma ainv_sync_done:
  assumes inv: "ainv s" and at: "at t (D_done recv) s" and k: "kind (threads s ! t) = Reader o' n"
  shows "ainv (st_sync_done t flt recv s)"
proof -
  have t: "t < length (threads s)" "pc (threads s ! t) = D_done recv" "tad (threads s ! t) = None"
    using at at_tad [OF at] by (simp_all add: at_def)
  let ?o = "dl_offset_of s (cur (threads s ! t))"
  have fin: "ainv (drop_download ?o (set_thread t th s1))"
    if "ainv s1" "threads s1 = threads s" "blk s1 = blk s" "kind th = Reader o' n" "tad th = None"
      "(\<exists>r. pc th = R_ret r) \<or> (\<exists>r. pc th = R_bgdl r)" for s1 th
    by (rule ainv_finish [OF that(1)]) (use that t k in \<open>auto simp: sig_defs dl_offset_of_def\<close>)
  show ?thesis
    using t k inv by (auto simp: st_sync_done_def Let_def goto_pc_def ainv_store intro!: fin)
qed

lemma unref_simps [simp]:
  "threads (ActiveDownload_unref a s) = threads s" "blk (ActiveDownload_unref a s) = blk s"
  "cache (ActiveDownload_unref a s) = cache s" "lnk (ActiveDownload_unref a s) = lnk s"
  "fsys (ActiveDownload_unref a s) = fsys s" "w_lock (ActiveDownload_unref a s) = w_lock s"
  "active (ActiveDownload_unref a s) = active s"
  by (simp_all add: ActiveDownload_unref_def blk_def split: option.split)

lemma remove_simps [simp]:
  "threads (ActiveDownload_remove off s) = threads s" "blk (ActiveDownload_remove off s) = blk s"
  "cache (ActiveDownload_remove off s) = cache s" "lnk (ActiveDownload_remove off s) = lnk s"
  "fsys (ActiveDownload_remove off s) = fsys s" "w_lock (ActiveDownload_remove off s) = w_lock s"
  by (simp_all add: ActiveDownload_remove_def blk_def split: option.split)

lemma drop_simps [simp]:
  "threads (drop_download off s) = threads s" "blk (drop_download off s) = blk s"
  "lnk (drop_download off s) = lnk s" "fsys (drop_download off s) = fsys s"
  "w_lock (drop_download off s) = w_lock s"
  by (simp_all add: drop_download_def Cache_waiter_decrement_def) (simp_all add: waiter_add_def)

lemma ainv_bg_drop:
  assumes inv: "ainv s" and t: "t < length (threads s)"
    and old: "owned (blk s) (threads s ! t) = Some off" "waits (threads s ! t)" "units (threads s ! t)"
      "\<And>b. \<not> refs b (threads s ! t)"
    and k: "kind (threads s ! t) = Worker off" and tn: "tad (threads s ! t) = None"
  shows "ainv (goto_pc t B_post (drop_download off s))"
proof -
  have "active_off s off" by (rule owned_active [OF inv [unfolded ainv_def] _ t old(1)]) simp
  from ginv_drop [OF inv [unfolded ainv_def] this]
  have "ginv (\<lambda>_. 0) ((\<lambda>_. 0)(off := 0 - 1)) (0 - 1) 0 (drop_download off s)" .
  then show ?thesis unfolding goto_pc_def
    by (rule ainv_set_thread) (use t old k tn in \<open>auto simp: refs_def owned_def waits_def units_def\<close>)
qed

lemma ainv_bg_remove:
  assumes inv: "ainv s" and at: "at t B_remove s" and k: "kind (threads s ! t) = Worker off"
  shows "ainv (st_bg_remove t off s)"
proof -
  have t: "t < length (threads s)" "pc (threads s ! t) = B_remove" "tad (threads s ! t) = None"
    using at at_tad [OF at] by (simp_all add: at_def)
  show ?thesis unfolding st_bg_remove_def
    by (rule ainv_bg_drop [OF inv t(1)]) (use t k in \<open>simp_all add: sig_defs\<close>)
qed

lemma ainv_bg_done:
  assumes inv: "ainv s" and at: "at t (D_done recv) s" and k: "kind (threads s ! t) = Worker off"
  shows "ainv (st_bg_done t flt recv off s)"
proof -
  have t: "t < length (threads s)" "pc (threads s ! t) = D_done recv" "tad (threads s ! t) = None"
    using at at_tad [OF at] by (simp_all add: at_def)
  have 1: "ainv (goto_pc t B_post (drop_download off s))"
    by (rule ainv_bg_drop [OF inv t(1)]) (use t k in \<open>simp_all add: sig_defs\<close>)
  have 2: "ainv (goto_pc t B_remove s1)" if "ainv s1" "threads s1 = threads s" "blk s1 = blk s" for s1
    unfolding goto_pc_def by (rule ainv_same [OF that(1)]) (use that t k in \<open>simp_all add: sig_defs\<close>)
  from 1 show ?thesis using inv by (auto simp: st_bg_done_def Let_def ainv_store intro!: 2)
qed

lemma ainv_bg_post:
  assumes inv: "ainv s" and at: "at t B_post s"
  shows "ainv (st_bg_post t s)"
proof -
  have t: "t < length (threads s)" "pc (threads s ! t) = B_post" "tad (threads s ! t) = None"
    using at at_tad [OF at] by (simp_all add: at_def)
  obtain off where k: "kind (threads s ! t) = Worker off"
    using at by (cases "kind (threads s ! t)") (auto simp: at_def valid_def)
  show ?thesis unfolding st_bg_post_def goto_pc_def
    by (rule ainv_set_thread [OF ginv_post_sem [OF inv [unfolded ainv_def]]])
      (use t k in \<open>simp_all add: sig_defs\<close>)
qed

lemma ainv_bgdl:
  assumes inv: "ainv s" and at: "at t (R_bgdl send) s"
  shows "ainv (st_bgdl t send s)"
proof -
  obtain off len where k: "kind (threads s ! t) = Reader off len" by (rule at_reader [OF at]) simp_all
  have t: "t < length (threads s)" "pc (threads s ! t) = R_bgdl send" "tad (threads s ! t) = None"
    using at at_tad [OF at] by (simp_all add: at_def)
  have "ainv (goto_pc t p s)" if "p = R_bgdl2 send \<or> p = R_ret send" for p
    unfolding goto_pc_def by (rule ainv_same [OF inv]) (use t k that in \<open>auto simp: sig_defs\<close>)
  then show ?thesis by (simp add: st_bgdl_def)
qed

lemma ainv_bgdl2:
  assumes inv: "ainv s" and at: "at t (R_bgdl2 send) s"
  shows "ainv (st_bgdl2 t send s)"
proof -
  obtain off len where k: "kind (threads s ! t) = Reader off len" by (rule at_reader [OF at]) simp_all
  have t: "t < length (threads s)" "pc (threads s ! t) = R_bgdl2 send" "tad (threads s ! t) = None"
    using at at_tad [OF at] by (simp_all add: at_def)
  have 1: "ainv (goto_pc t (R_bgdl3 send) (set_sem (bgt_sem (cache s) - 1) s))"
    unfolding goto_pc_def
    by (rule ainv_set_thread [OF ginv_trysem [OF inv]]) (use t k in \<open>simp_all add: sig_defs\<close>)
  have 2: "ainv (goto_pc t (R_ret send) s)"
    unfolding goto_pc_def by (rule ainv_same [OF inv]) (use t k in \<open>simp_all add: sig_defs\<close>)
  from 1 2 show ?thesis by (simp add: st_bgdl2_def sem_trywait_def)
qed

lemma ainv_bgdl3:
  assumes inv: "ainv s" and at: "at t (R_bgdl3 send) s"
  shows "ainv (st_bgdl3 t send s)"
proof -
  obtain off len where k: "kind (threads s ! t) = Reader off len" by (rule at_reader [OF at]) simp_all
  have t: "t < length (threads s)" "pc (threads s ! t) = R_bgdl3 send" "tad (threads s ! t) = None"
    using at at_tad [OF at] by (simp_all add: at_def)
  let ?o = "next_offset s t"
  have 1: "ainv (goto_pc t (R_bglaunch send) (ActiveDownload_add ?o s))" if "ActiveDownload_find s ?o = None"
    unfolding goto_pc_def
    by (rule ainv_set_thread [OF ainv_add [OF inv that]])
      (use t k in \<open>auto simp: sig_defs next_offset_def dl_offset_of_def\<close>)
  have 2: "ainv (goto_pc t (R_ret send) (post_sem s))"
    unfolding goto_pc_def
    by (rule ainv_set_thread [OF ginv_post_sem [OF inv [unfolded ainv_def]]]) (use t k in \<open>simp_all add: sig_defs\<close>)
  from 1 2 show ?thesis by (simp add: st_bgdl3_def Let_def)
qed

lemma ainv_bglaunch:
  assumes inv: "ainv s" and at: "at t (R_bglaunch send) s"
  shows "ainv (st_bglaunch t send s)"
proof -
  obtain off len where k: "kind (threads s ! t) = Reader off len" by (rule at_reader [OF at]) simp_all
  have t: "t < length (threads s)" "pc (threads s ! t) = R_bglaunch send" "tad (threads s ! t) = None"
    using at at_tad [OF at] by (simp_all add: at_def)
  show ?thesis unfolding st_bglaunch_def goto_pc_def
    by (rule ainv_set_thread [OF ginv_waiter_add [OF inv [unfolded ainv_def]]])
      (use t k in \<open>simp_all add: sig_defs\<close>)
qed

lemma ainv_bgcreate:
  assumes inv: "ainv s" and at: "at t (R_bgcreate send) s"
  shows "ainv (st_bgcreate t send s)"
proof -
  obtain off len where k: "kind (threads s ! t) = Reader off len" by (rule at_reader [OF at]) simp_all
  have t: "t < length (threads s)" "pc (threads s ! t) = R_bgcreate send" "tad (threads s ! t) = None"
    using at at_tad [OF at] by (simp_all add: at_def)
  let ?o = "next_offset s t"
  have "ginv (\<lambda>_. 0) (\<lambda>o'. of_bool (o' = ?o)) 1 1 (goto_pc t (R_ret send) s)"
    unfolding goto_pc_def
    by (rule ginv_set_thread [OF inv [unfolded ainv_def]])
      (use t k in \<open>auto simp: sig_defs next_offset_def dl_offset_of_def\<close>)
  then show ?thesis
    unfolding ainv_def spawn_worker_def st_bgcreate_def
    by (rule ginv_append) (auto simp: new_worker_sig)
qed

lemma ainv_ret:
  assumes inv: "ainv s" and at: "at t (R_ret send) s"
  shows "ainv (st_ret t send s)"
proof -
  obtain off len where k: "kind (threads s ! t) = Reader off len" by (rule at_reader [OF at]) simp_all
  have t: "t < length (threads s)" "pc (threads s ! t) = R_ret send" "tad (threads s ! t) = None"
    using at at_tad [OF at] by (simp_all add: at_def)
  have "ainv (set_thread t th s)" if "kind th = Reader off len" "tad th = None" "pc th = R_retry \<or> (\<exists>n. pc th = Finished n)" for th
    by (rule ainv_same [OF inv]) (use t k that in \<open>auto simp: sig_defs\<close>)
  then show ?thesis using k t by (simp add: st_ret_def Let_def)
qed

section \<open>The steps of a transfer\<close>

lemma ginv_ts:
  assumes "ginv er eo ew es s" "ads s a = Some A"
  shows "ginv er eo ew es (s\<lparr>ads := (ads s)(a \<mapsto> A\<lparr>ad_ts := x\<rparr>)\<rparr>)"
proof -
  let ?s = "s\<lparr>ads := (ads s)(a \<mapsto> A\<lparr>ad_ts := x\<rparr>)\<rparr>"
  have ao: "ad_off ?s = ad_off s" by (auto simp: ad_off_def assms(2) fun_eq_iff)
  have "heap_ok ?s" using ginvD(1) [OF assms(1)] assms(2) by (auto simp: heap_ok_def ao)
  moreover have r: "ref_eq (ads s b) (b \<in> set (active s)) (icnt (refs b) (threads s) + er b)" "0 \<le> er b" for b
    using ginvD(2) [OF assms(1)] by (simp_all add: refs_ok_def)
  have "refs_ok er ?s" using r r(1) [of a] assms(2) by (auto simp: refs_ok_def)
  moreover have "owners_ok eo ?s" using ginvD(3) [OF assms(1)] by (simp add: owners_ok_def active_off_def ao blk_def)
  ultimately show ?thesis using assms(1) by (simp add: ginv_def)
qed

lemma ad_ref_set_thread: "ad_ref a (set_thread t th s) = set_thread t th (ad_ref a s)"
  by (simp add: ad_ref_def set_thread_def split: option.split)

lemma ainv_attach:
  assumes inv: "ainv s" and at: "at t L_attach s"
  shows "ainv (st_attach t s)"
proof -
  have t: "t < length (threads s)" "pc (threads s ! t) = L_attach" "tad (threads s ! t) = None"
    using at at_tad [OF at] by (simp_all add: at_def)
  let ?off = "own_offset s (threads s ! t)"
  have 1: "ainv (goto_pc t (D_done 0) s)" unfolding goto_pc_def
    by (rule ainv_same [OF inv]) (use t in \<open>simp_all add: sig_defs split: kind.split\<close>)
  have 2: "ainv (set_thread t ((threads s ! t)\<lparr>pc := L_recv, tdata := None, tad := None\<rparr>) s)"
    by (rule ainv_same [OF inv]) (use t in \<open>simp_all add: sig_defs split: kind.split\<close>)
  have 3: "ainv (ad_ref a (set_thread t ((threads s ! t)\<lparr>pc := L_recv, tdata := None, tad := Some a\<rparr>)
      (s\<lparr>ads := (ads s)(a \<mapsto> A\<lparr>ad_ts := Some t\<rparr>)\<rparr>)))" if A: "ads s a = Some A" for a A
  proof -
    let ?s = "s\<lparr>ads := (ads s)(a \<mapsto> A\<lparr>ad_ts := Some t\<rparr>)\<rparr>"
    have "ginv (\<lambda>_. 0) (\<lambda>_. 0) 0 0 ?s" by (rule ginv_ts [OF inv [unfolded ainv_def] A])
    then have "ginv ((\<lambda>_. 0)(a := 0 + 1)) (\<lambda>_. 0) 0 0 (ad_ref a ?s)" by (rule ginv_ref) simp
    then show ?thesis unfolding ad_ref_set_thread
      by (rule ainv_set_thread) (use t in \<open>auto simp: sig_defs blk_def split: kind.split\<close>)
  qed
  have "ads s a \<noteq> None" if "ActiveDownload_find s ?off = Some a" for a using find_Some [OF that] by auto
  with 1 2 3 show ?thesis by (auto simp: st_attach_def Let_def split: option.split)
qed

lemma ainv_recv_step:
  assumes inv: "ainv s" and at: "at t L_recv s" and th: "th = (threads s ! t)\<lparr>pc := p, tdata := d\<rparr>"
    and p: "p = L_recv \<or> (\<exists>r. p = L_fin r)"
  shows "ainv (set_thread t th s)"
  by (rule ainv_same [OF inv]) (use at th p in \<open>auto simp: at_def sig_defs split: kind.split\<close>)

lemma ainv_finish_transfer:
  assumes inv: "ainv s" and at: "at t (L_fin r) s"
  shows "ainv (Link_download_finish_transfer t s)"
proof -
  have t: "t < length (threads s)" "pc (threads s ! t) = L_fin r" using at by (simp_all add: at_def)
  define s1 where "s1 = (case ActiveDownload_find s (own_offset s (threads s ! t)) of
                 None \<Rightarrow> s
               | Some a \<Rightarrow>
                   (case ads s a of
                      None \<Rightarrow> s\<lparr>bad := True\<rparr>
                    | Some A \<Rightarrow> if ad_ts A = Some t then s\<lparr>ads := (ads s)(a \<mapsto> A\<lparr>ad_ts := None\<rparr>)\<rparr> else s))"
  have g1: "ginv (\<lambda>_. 0) (\<lambda>_. 0) 0 0 s1"
  proof (cases "ActiveDownload_find s (own_offset s (threads s ! t))")
    case None
    then show ?thesis using inv by (simp add: s1_def ainv_def)
  next
    case (Some a)
    then obtain A where "ads s a = Some A" using find_Some [OF Some] by blast
    then show ?thesis using inv ginv_ts [OF inv [unfolded ainv_def], of a A] Some
      by (simp add: s1_def ainv_def)
  qed
  have same: "threads s1 = threads s" "blk s1 = blk s" by (auto simp: s1_def blk_def split: option.split)
  let ?th = "(threads s ! t)\<lparr>tad := None\<rparr>"
  have eq: "Link_download_finish_transfer t s =
      (case tad (threads s ! t) of None \<Rightarrow> set_thread t ?th s1
       | Some a \<Rightarrow> ActiveDownload_unref a (set_thread t ?th s1))"
    unfolding Link_download_finish_transfer_def s1_def Let_def by (rule refl)
  show ?thesis
  proof (cases "tad (threads s ! t)")
    case None
    have "ainv (set_thread t ?th s1)"
      by (rule ainv_same [OF g1 [folded ainv_def]]) (use t same None in \<open>simp_all add: sig_defs split: kind.split\<close>)
    then show ?thesis by (simp add: eq None)
  next
    case (Some a)
    have "ginv (\<lambda>b. of_bool (b = a)) (\<lambda>_. 0) 0 0 (set_thread t ?th s1)"
      by (rule ginv_set_thread [OF g1]) (use t same Some in \<open>auto simp: sig_defs split: kind.split\<close>)
    from ginv_unref [OF this, of a] show ?thesis by (simp add: eq Some ainv_def zero_fun)
  qed
qed

lemma finish_simps [simp]:
  "threads (Link_download_finish_transfer t s) = (threads s)[t := (threads s ! t)\<lparr>tad := None\<rparr>]"
  "blk (Link_download_finish_transfer t s) = blk s" "cache (Link_download_finish_transfer t s) = cache s"
  "lnk (Link_download_finish_transfer t s) = lnk s" "fsys (Link_download_finish_transfer t s) = fsys s"
  "w_lock (Link_download_finish_transfer t s) = w_lock s" "active (Link_download_finish_transfer t s) = active s"
  by (simp_all add: Link_download_finish_transfer_def Let_def blk_def split: option.split)

lemma ainv_fin:
  assumes inv: "ainv s" and at: "at t (L_fin r) s"
  shows "ainv (st_fin t r s)"
proof -
  have t: "t < length (threads s)" "pc (threads s ! t) = L_fin r" using at by (simp_all add: at_def)
  let ?s1 = "Link_download_finish_transfer t s"
  have inv1: "ainv ?s1" by (rule ainv_finish_transfer [OF inv at])
  have "ainv (set_thread t th ?s1)"
    if "kind th = kind (threads s ! t)" "cur th = cur (threads s ! t)" "tad th = None"
      "pc th = L_attach \<or> (\<exists>n. pc th = D_done n)" for th
    by (rule ainv_same [OF inv1]) (use t that in \<open>auto simp: sig_defs split: kind.split\<close>)
  then show ?thesis using t by (simp add: st_fin_def Let_def)
qed

section \<open>Transfers and their nodes\<close>

text \<open>A thread that is attached to a node is attached to a listed one, of its own offset.\<close>

definition tad_ok :: "dl \<Rightarrow> bool" where
  "tad_ok s \<longleftrightarrow> (\<forall>i < length (threads s). \<forall>a. tad (threads s ! i) = Some a \<longrightarrow>
     a \<in> set (active s) \<and> ad_off s a = own_offset s (threads s ! i))"

definition tinv :: "dl \<Rightarrow> bool" where
  "tinv s \<longleftrightarrow> ts_ok s \<and> tad_ok s"

text \<open>No node gets a new transfer.\<close>

definition ts_sub :: "dl \<Rightarrow> dl \<Rightarrow> bool" where
  "ts_sub s s' \<longleftrightarrow> (\<forall>a A u. ads s' a = Some A \<longrightarrow> ad_ts A = Some u \<longrightarrow>
     (\<exists>B. ads s a = Some B \<and> ad_ts B = Some u \<and> ad_offset B = ad_offset A))"

text \<open>The nodes that a thread is attached to stay listed.\<close>

definition act_sub :: "dl \<Rightarrow> dl \<Rightarrow> bool" where
  "act_sub s s' \<longleftrightarrow> (\<forall>a \<in> set (active s). (\<exists>i < length (threads s). tad (threads s ! i) = Some a) \<longrightarrow>
     a \<in> set (active s') \<and> ad_off s' a = ad_off s a)"

lemma ts_sub_refl [intro]: "ads s' = ads s \<Longrightarrow> ts_sub s s'"
  by (simp add: ts_sub_def)

lemma ts_sub_trans: "ts_sub s s1 \<Longrightarrow> ts_sub s1 s2 \<Longrightarrow> ts_sub s s2"
  unfolding ts_sub_def by metis

lemma act_sub_refl [intro]: "ads s' = ads s \<Longrightarrow> active s' = active s \<Longrightarrow> act_sub s s'"
  by (simp add: act_sub_def ad_off_def)

lemma ts_sub_unref: "ts_sub s (ActiveDownload_unref a s)"
  by (auto simp: ts_sub_def ActiveDownload_unref_def split: option.splits if_splits)

lemma ts_sub_ref: "ts_sub s (ad_ref a s)"
  by (auto simp: ts_sub_def ad_ref_def split: option.splits if_splits)

lemma ts_sub_add: "ts_sub s (ActiveDownload_add off s)"
  by (auto simp: ts_sub_def ActiveDownload_add_def Let_def split: if_splits)

lemma ts_sub_remove: "ts_sub s (ActiveDownload_remove off s)"
  by (auto simp: ts_sub_def ActiveDownload_remove_def ActiveDownload_unref_def split: option.splits if_splits)

lemma own_offset_blk: "blk s' = blk s \<Longrightarrow> own_offset s' th = own_offset s th"
  by (simp add: own_offset_def dl_offset_of_def split: kind.split)

text \<open>The step of a thread that no node points to any more.\<close>

lemma tinv_release:
  assumes inv: "tinv s" and b: "blk s' = blk s" and t: "t < length (threads s)" "\<And>a A. ads s' a = Some A \<Longrightarrow> ad_ts A \<noteq> Some t"
    and th: "threads s' = (threads s)[t := x] @ ys" "tad x = None" "\<forall>y \<in> set ys. tad y = None"
    and sub: "ts_sub s s'" "act_sub s s'"
  shows "tinv s'"
proof -
  have old: "threads s' ! i = (if i = t then x else threads s ! i)" if "i < length (threads s)" for i
    using that th(1) by (simp add: nth_append)
  have new: "tad (threads s' ! i) = None" if "i < length (threads s')" "\<not> i < length (threads s)" for i
    using that th by (auto simp: nth_append)
  have "ts_ok s'" unfolding ts_ok_def
  proof (intro allI impI)
    fix a A u
    assume A: "ads s' a = Some A" "ad_ts A = Some u"
    from A sub(1) obtain B where B: "ads s a = Some B" "ad_ts B = Some u" "ad_offset B = ad_offset A"
      unfolding ts_sub_def by blast
    with inv have u: "u < length (threads s)" "receiving (threads s ! u)" "tad (threads s ! u) = Some a"
      "own_offset s (threads s ! u) = ad_offset A" unfolding tinv_def ts_ok_def by auto
    have "u \<noteq> t" using t(2) A by auto
    with u old [OF u(1)] th(1) show "u < length (threads s') \<and> receiving (threads s' ! u) \<and>
        tad (threads s' ! u) = Some a \<and> own_offset s' (threads s' ! u) = ad_offset A"
      by (simp add: own_offset_blk [OF b])
  qed
  moreover have "tad_ok s'" unfolding tad_ok_def
  proof (intro allI impI)
    fix i a
    assume i: "i < length (threads s')" "tad (threads s' ! i) = Some a"
    then have il: "i < length (threads s)" using new by fastforce
    with i old th(2) have it: "i \<noteq> t" "threads s' ! i = threads s ! i" by (auto split: if_splits)
    with i inv il have "a \<in> set (active s)" "ad_off s a = own_offset s (threads s ! i)"
      unfolding tinv_def tad_ok_def by auto
    moreover have "\<exists>i < length (threads s). tad (threads s ! i) = Some a" using i it il by auto
    ultimately have "a \<in> set (active s')" "ad_off s' a = ad_off s a"
      using sub(2) unfolding act_sub_def by blast+
    with \<open>ad_off s a = own_offset s (threads s ! i)\<close> it
    show "a \<in> set (active s') \<and> ad_off s' a = own_offset s' (threads s' ! i)"
      by (simp add: own_offset_blk [OF b])
  qed
  ultimately show ?thesis by (simp add: tinv_def)
qed

lemma tinv_move:
  assumes inv: "tinv s" and b: "blk s' = blk s" and t: "t < length (threads s)" "tad (threads s ! t) = None"
    and th: "threads s' = (threads s)[t := x] @ ys" "tad x = None" "\<forall>y \<in> set ys. tad y = None"
    and sub: "ts_sub s s'" "act_sub s s'"
  shows "tinv s'"
proof (rule tinv_release [OF inv b t(1) _ th sub])
  fix a A
  assume "ads s' a = Some A"
  show "ad_ts A \<noteq> Some t"
  proof
    assume "ad_ts A = Some t"
    with sub(1) \<open>ads s' a = Some A\<close> obtain B where "ads s a = Some B" "ad_ts B = Some t"
      unfolding ts_sub_def by blast
    with inv have "tad (threads s ! t) = Some a" unfolding tinv_def ts_ok_def by blast
    with t(2) show False by simp
  qed
qed

lemma ad_off_ref: "ad_off (ad_ref a s) = ad_off s"
  by (auto simp: ad_off_def ad_ref_def fun_eq_iff split: option.split)

lemma act_sub_ref: "act_sub s (ad_ref a s)"
  by (auto simp: act_sub_def ad_off_ref)

lemma ad_off_unref: "ads (ActiveDownload_unref a s) b \<noteq> None \<Longrightarrow> ad_off (ActiveDownload_unref a s) b = ad_off s b"
  by (auto simp: ad_off_def ActiveDownload_unref_def split: option.splits if_splits)

text \<open>Dropping the last reference of a node leaves the listed ones alone.\<close>

lemma act_sub_unref:
  assumes "heap_ok (ActiveDownload_unref a s)"
  shows "act_sub s (ActiveDownload_unref a s)"
  unfolding act_sub_def
proof (intro ballI impI)
  fix b
  assume b: "b \<in> set (active s)"
  with assms have "ads (ActiveDownload_unref a s) b \<noteq> None" unfolding heap_ok_def by auto
  with b show "b \<in> set (active (ActiveDownload_unref a s)) \<and> ad_off (ActiveDownload_unref a s) b = ad_off s b"
    by (simp add: ad_off_unref)
qed

lemma act_sub_add:
  assumes "heap_ok s"
  shows "act_sub s (ActiveDownload_add off s)"
proof -
  have "b \<noteq> next_ad s" if "b \<in> set (active s)" for b
    using assms that unfolding heap_ok_def by (metis less_irrefl option.distinct(1))
  then show ?thesis by (auto simp: act_sub_def ActiveDownload_add_def Let_def ad_off_def)
qed

text \<open>Only the owner removes a node, and it is not attached to one.\<close>

lemma unique_owner:
  assumes inv: "ainv s" and "i < length (threads s)" "j < length (threads s)"
    and "owned (blk s) (threads s ! i) = Some off" "owned (blk s) (threads s ! j) = Some off"
  shows "i = j"
proof (rule ccontr)
  assume "i \<noteq> j"
  let ?z = "new_thread (Worker off) B_exit 0 0"
  have "2 \<le> icnt (\<lambda>th. owned (blk s) th = Some off) (threads s)"
    by (rule icnt_two [where i = i and j = j and z = ?z])
      (use assms \<open>i \<noteq> j\<close> in \<open>simp_all add: owned_def new_thread_def\<close>)
  moreover have "icnt (\<lambda>th. owned (blk s) th = Some off) (threads s) + 0 = of_bool (active_off s off)"
    using ginvD(3) [OF inv [unfolded ainv_def]] by (simp add: owners_ok_def)
  ultimately show False by (cases "active_off s off") simp_all
qed

lemma tad_owned:
  assumes "valid th" "tad th \<noteq> None"
  shows "owned (blk s) th = Some (own_offset s th)"
  using assms by (auto simp: valid_def owned_def own_offset_def dl_offset_of_def split: kind.splits pc.splits)

lemma act_sub_drop:
  assumes inv: "ainv s" and tinv: "tinv s" and all: "\<forall>th \<in> set (threads s). valid th"
    and t: "t < length (threads s)" "owned (blk s) (threads s ! t) = Some off" "tad (threads s ! t) = None"
    and h: "heap_ok (drop_download off s)"
  shows "act_sub s (drop_download off s)"
  unfolding act_sub_def
proof (intro ballI impI)
  fix b
  assume b: "b \<in> set (active s)" and "\<exists>i < length (threads s). tad (threads s ! i) = Some b"
  then obtain i where i: "i < length (threads s)" "tad (threads s ! i) = Some b" by blast
  have "valid (threads s ! i)" using all i(1) by simp
  then have own: "owned (blk s) (threads s ! i) = Some (own_offset s (threads s ! i))"
    using tad_owned [of "threads s ! i" s] i(2) by simp
  have "i \<noteq> t" using i(2) t(3) by auto
  with unique_owner [OF inv i(1) t(1)] own t(2) have ne: "own_offset s (threads s ! i) \<noteq> off" by auto
  have off: "ad_off s b = own_offset s (threads s ! i)" using tinv i by (auto simp: tinv_def tad_ok_def)
  have "act": "b \<in> set (active (drop_download off s))"
  proof (cases "ActiveDownload_find s off")
    case None
    then show ?thesis using b
      by (simp add: drop_download_def ActiveDownload_remove_def Cache_waiter_decrement_def)
  next
    case (Some a)
    then obtain A where A: "ads s a = Some A" "ad_offset A = off" using find_Some [OF Some] by blast
    then have "b \<noteq> a" using ne off by (auto simp: ad_off_def)
    with b Some A show ?thesis
      by (simp add: drop_download_def ActiveDownload_remove_def Cache_waiter_decrement_def)
  qed
  moreover have "ad_off (drop_download off s) b = ad_off s b"
  proof -
    have "ads (drop_download off s) b \<noteq> None" using h act unfolding heap_ok_def by auto
    then show ?thesis
      by (auto simp: drop_download_def ActiveDownload_remove_def Cache_waiter_decrement_def
          waiter_add_def ad_off_def ActiveDownload_unref_def split: option.splits if_splits)
  qed
  ultimately show "b \<in> set (active (drop_download off s)) \<and> ad_off (drop_download off s) b = ad_off s b" ..
qed

lemma ts_sub_drop: "ts_sub s (drop_download off s)"
  using ts_sub_remove [of s off]
  by (simp add: drop_download_def Cache_waiter_decrement_def waiter_add_def ts_sub_def)

end
