(* ===== verification/CacheDlSafe.thy ===== *)
theory CacheDlSafe
  imports CacheDlInv
begin

text \<open>
  Safety of the concurrent download: the accounting invariants, the ownership of \<open>w_lock\<close> and
  the pointers to running transfers hold in every reachable state, for any number of readers
  and workers, any interleaving, any server and any file system failures.
\<close>

section \<open>The whole invariant\<close>

definition lock_ok :: "dl \<Rightarrow> bool" where
  "lock_ok s \<longleftrightarrow> (\<forall>i < length (threads s). holds_w (threads s ! i) \<longrightarrow> w_lock s = Some i) \<and>
     (\<forall>t. w_lock s = Some t \<longrightarrow> t < length (threads s) \<and> holds_w (threads s ! t))"

definition all_valid :: "dl \<Rightarrow> bool" where
  "all_valid s \<longleftrightarrow> (\<forall>th \<in> set (threads s). valid th)"

definition cinv :: "dl \<Rightarrow> bool" where
  "cinv s \<longleftrightarrow> ainv s \<and> tinv s \<and> all_valid s \<and> lock_ok s"

text \<open>A move of thread \<open>t\<close> that is not inside a transfer, with what it may change.\<close>

definition moves :: "nat \<Rightarrow> dl \<Rightarrow> dl \<Rightarrow> thread \<Rightarrow> thread list \<Rightarrow> bool" where
  "moves t s s' x ys \<longleftrightarrow> threads s' = (threads s)[t := x] @ ys \<and> tad x = None \<and> valid x \<and>
     (\<forall>y \<in> set ys. tad y = None \<and> valid y \<and> \<not> holds_w y) \<and> blk s' = blk s \<and>
     w_lock s' = (if holds_w x then Some t else if w_lock s = Some t then None else w_lock s) \<and>
     (holds_w x \<longrightarrow> w_lock s = None \<or> w_lock s = Some t)"

lemma lock_ok_set:
  assumes "lock_ok s" "t < length (threads s)" "threads s' = (threads s)[t := x] @ ys"
    and "\<forall>y \<in> set ys. \<not> holds_w y"
    and "w_lock s' = (if holds_w x then Some t else if w_lock s = Some t then None else w_lock s)"
    and "holds_w x \<longrightarrow> w_lock s = None \<or> w_lock s = Some t"
  shows "lock_ok s'"
proof -
  have old: "threads s' ! i = (if i = t then x else threads s ! i)" if "i < length (threads s)" for i
    using that assms(3) by (simp add: nth_append)
  have new: "\<not> holds_w (threads s' ! i)" if "i < length (threads s')" "\<not> i < length (threads s)" for i
    using that assms(3,4) by (auto simp: nth_append)
  show ?thesis unfolding lock_ok_def
  proof (intro conjI allI impI)
    fix i
    assume i: "i < length (threads s')" "holds_w (threads s' ! i)"
    then have "i < length (threads s)" using new by blast
    show "w_lock s' = Some i"
    proof (cases "i = t")
      case True
      with i(2) old [OF assms(2)] have "holds_w x" by simp
      with assms(5) True show ?thesis by simp
    next
      case False
      with i(2) old [OF \<open>i < length (threads s)\<close>] have "holds_w (threads s ! i)" by simp
      with assms(1) \<open>i < length (threads s)\<close> have "w_lock s = Some i" unfolding lock_ok_def by blast
      with False assms(5,6) show ?thesis by auto
    qed
  next
    fix u
    assume u: "w_lock s' = Some u"
    then have "u = t \<or> w_lock s = Some u" using assms(5) by (auto split: if_splits)
    then have "u < length (threads s)" using assms(1,2) unfolding lock_ok_def by blast
    then show "u < length (threads s')" using assms(3) by simp
    show "holds_w (threads s' ! u)"
    proof (cases "u = t")
      case True
      with u assms(5) old [OF assms(2)] show ?thesis by (auto split: if_splits)
    next
      case False
      then have "w_lock s = Some u" using u assms(5) by (auto split: if_splits)
      with assms(1) have "u < length (threads s)" "holds_w (threads s ! u)" unfolding lock_ok_def by blast+
      with old [of u] False show ?thesis by simp
    qed
  qed
qed

lemma cinv_moves:
  assumes inv: "cinv s" and a: "ainv s'" and t: "t < length (threads s)" "tad (threads s ! t) = None"
    and m: "moves t s s' x ys" and sub: "ts_sub s s'" "act_sub s s'"
  shows "cinv s'"
proof -
  have th: "threads s' = (threads s)[t := x] @ ys" using m by (simp add: moves_def)
  have "tinv s'"
    by (rule tinv_move [OF _ _ t th]) (use inv m sub in \<open>auto simp: cinv_def moves_def\<close>)
  moreover have "all_valid s'"
    using inv m th set_update_subset_insert [of "threads s" t x] by (auto simp: cinv_def all_valid_def moves_def)
  moreover have "lock_ok s'"
    by (rule lock_ok_set [OF _ t(1) th]) (use inv m in \<open>auto simp: cinv_def moves_def\<close>)
  ultimately show ?thesis using a by (simp add: cinv_def)
qed

lemma cinvD:
  "cinv s \<Longrightarrow> ainv s" "cinv s \<Longrightarrow> tinv s" "cinv s \<Longrightarrow> ts_ok s" "cinv s \<Longrightarrow> heap_ok s"
proof -
  show "cinv s \<Longrightarrow> ainv s" "cinv s \<Longrightarrow> tinv s" by (simp_all add: cinv_def)
  then show "cinv s \<Longrightarrow> ts_ok s" "cinv s \<Longrightarrow> heap_ok s"
    using ginvD(1) [of "\<lambda>_. 0" "\<lambda>_. 0" 0 0 s] by (simp_all add: tinv_def ainv_def)
qed

lemma cinv_at: "cinv s \<Longrightarrow> t < length (threads s) \<Longrightarrow> at t (pc (threads s ! t)) s"
  by (simp add: cinv_def all_valid_def at_def)

lemma cinv_holds: "cinv s \<Longrightarrow> t < length (threads s) \<Longrightarrow> holds_w (threads s ! t) \<Longrightarrow> w_lock s = Some t"
  unfolding cinv_def lock_ok_def by blast

lemma cinv_not_holds: "cinv s \<Longrightarrow> \<not> holds_w (threads s ! t) \<Longrightarrow> w_lock s \<noteq> Some t"
  unfolding cinv_def lock_ok_def by blast

text \<open>The case that the step leaves nodes and list alone.\<close>

lemma cinv_plain:
  assumes inv: "cinv s" and a: "ainv s'" and at: "at t p s" "tad (threads s ! t) = None"
    and s': "ads s' = ads s" "active s' = active s"
    and m: "moves t s s' x ys"
  shows "cinv s'"
  by (rule cinv_moves [OF inv a _ at(2) m]) (use at s' in \<open>auto simp: at_def\<close>)

lemmas step_simps = holds_w_def valid_def new_thread_def

lemma w_simps [simp]:
  "w_lock (goto_pc t p s) = w_lock s" "w_lock (set_sem n s) = w_lock s" "w_lock (post_sem s) = w_lock s"
  "w_lock (waiter_add d s) = w_lock s" "w_lock (ActiveDownload_add off s) = w_lock s"
  "w_lock (ad_ref a s) = w_lock s"
  by (simp_all add: goto_pc_def set_sem_def post_sem_def waiter_add_def ActiveDownload_add_def ad_ref_def Let_def
      split: option.split)

lemma cinv_trysem:
  assumes inv: "cinv s" and at: "at t R_trysem s"
  shows "cinv (st_trysem t s)"
proof -
  obtain off len where k: "kind (threads s ! t) = Reader off len" by (rule at_reader [OF at]) simp_all
  have t: "t < length (threads s)" "pc (threads s ! t) = R_trysem" "tad (threads s ! t) = None"
    using at at_tad [OF at] by (simp_all add: at_def)
  have w: "w_lock s = Some t" by (rule cinv_holds [OF inv t(1)]) (simp add: holds_w_def t)
  have a: "ainv (st_trysem t s)" by (rule ainv_trysem [OF cinvD(1) [OF inv] at])
  show ?thesis
    by (rule cinv_plain [OF inv a at t(3), where ys = "[]" and
          x = "(threads s ! t)\<lparr>pc := if 0 < bgt_sem (cache s) then R_bgadd else R_syncdl\<rparr>"])
      (use t k w in \<open>auto simp: moves_def st_trysem_def sem_trywait_def step_simps\<close>)
qed

lemma reader_at:
  assumes "at t p s" "\<not> worker_pc p" "p \<noteq> L_recv" "\<And>r. p \<noteq> L_fin r"
  obtains off len where "kind (threads s ! t) = Reader off len" "t < length (threads s)"
    "pc (threads s ! t) = p" "tad (threads s ! t) = None"
  using assms by (rule_tac at_reader [OF assms(1,2)]) (auto simp: at_tad [OF assms(1)] at_def)

lemma cinv_launch:
  assumes inv: "cinv s" and at: "at t R_launch s"
  shows "cinv (st_launch t s)"
proof (rule reader_at [OF at])
  fix off len
  assume t: "kind (threads s ! t) = Reader off len" "t < length (threads s)"
    "pc (threads s ! t) = R_launch" "tad (threads s ! t) = None"
  have w: "w_lock s = Some t" by (rule cinv_holds [OF inv t(2)]) (simp add: holds_w_def t)
  have a: "ainv (st_launch t s)" by (rule ainv_launch [OF cinvD(1) [OF inv] at])
  show ?thesis
    by (rule cinv_plain [OF inv a at t(4), where ys = "[]" and x = "(threads s ! t)\<lparr>pc := R_create\<rparr>"])
      (use t w in \<open>auto simp: moves_def st_launch_def step_simps\<close>)
qed simp_all

lemma spawn_simps [simp]:
  "threads (spawn_worker off s) = threads s @ [new_thread (Worker off) L_attach off 0]"
  "ads (spawn_worker off s) = ads s" "active (spawn_worker off s) = active s" "blk (spawn_worker off s) = blk s"
  "w_lock (spawn_worker off s) = w_lock s" "cache (spawn_worker off s) = cache s"
  by (simp_all add: spawn_worker_def blk_def)

lemma cinv_create:
  assumes inv: "cinv s" and at: "at t R_create s"
  shows "cinv (st_create t s)"
proof (rule reader_at [OF at])
  fix off len
  assume t: "kind (threads s ! t) = Reader off len" "t < length (threads s)"
    "pc (threads s ! t) = R_create" "tad (threads s ! t) = None"
  have w: "w_lock s = Some t" by (rule cinv_holds [OF inv t(2)]) (simp add: holds_w_def t)
  have a: "ainv (st_create t s)" by (rule ainv_create [OF cinvD(1) [OF inv] at])
  let ?o = "dl_offset_of s (cur (threads s ! t))"
  show ?thesis
    by (rule cinv_plain [OF inv a at t(4), where ys = "[new_thread (Worker ?o) L_attach ?o 0]" and
          x = "(threads s ! t)\<lparr>pc := R_retry\<rparr>"])
      (use t w in \<open>auto simp: moves_def st_create_def step_simps\<close>)
qed simp_all

lemma add_simps [simp]:
  "cache (ActiveDownload_add off s) = cache s" "lnk (ActiveDownload_add off s) = lnk s"
  "fsys (ActiveDownload_add off s) = fsys s"
  by (simp_all add: ActiveDownload_add_def Let_def)

lemma ts_sub_eq: "ts_sub s s1 \<Longrightarrow> ads s' = ads s1 \<Longrightarrow> ts_sub s s'"
  by (simp add: ts_sub_def)

lemma act_sub_eq: "act_sub s s1 \<Longrightarrow> ads s' = ads s1 \<Longrightarrow> active s' = active s1 \<Longrightarrow> act_sub s s'"
  by (simp add: act_sub_def ad_off_def)

text \<open>The case that a node is added.\<close>

lemma cinv_adding:
  assumes inv: "cinv s" and a: "ainv s'" and at: "at t p s" "tad (threads s ! t) = None"
    and s': "ads s' = ads (ActiveDownload_add off s)" "active s' = active (ActiveDownload_add off s)"
    and m: "moves t s s' x ys"
  shows "cinv s'"
proof (rule cinv_moves [OF inv a _ at(2) m])
  show "t < length (threads s)" using at by (simp add: at_def)
  show "ts_sub s s'" by (rule ts_sub_eq [OF ts_sub_add s'(1)])
  show "act_sub s s'" by (rule act_sub_eq [OF act_sub_add [OF cinvD(4) [OF inv]] s'])
qed

lemma cinv_bgadd:
  assumes inv: "cinv s" and at: "at t R_bgadd s"
  shows "cinv (st_bgadd t s)"
proof (rule reader_at [OF at])
  fix off len
  assume t: "kind (threads s ! t) = Reader off len" "t < length (threads s)"
    "pc (threads s ! t) = R_bgadd" "tad (threads s ! t) = None"
  have w: "w_lock s = Some t" by (rule cinv_holds [OF inv t(2)]) (simp add: holds_w_def t)
  have a: "ainv (st_bgadd t s)" by (rule ainv_bgadd [OF cinvD(1) [OF inv] at])
  show ?thesis
  proof (cases "ActiveDownload_find s (dl_offset_of s (cur (threads s ! t)))")
    case None
    show ?thesis
      by (rule cinv_adding [OF inv a at t(4), where off = "dl_offset_of s (cur (threads s ! t))" and ys = "[]" and
            x = "(threads s ! t)\<lparr>pc := R_launch\<rparr>"])
        (use t w None in \<open>auto simp: moves_def st_bgadd_def step_simps Let_def\<close>)
  next
    case (Some b)
    show ?thesis
      by (rule cinv_plain [OF inv a at t(4), where ys = "[]" and x = "(threads s ! t)\<lparr>pc := R_syncdl\<rparr>"])
        (use t w Some in \<open>auto simp: moves_def st_bgadd_def step_simps Let_def\<close>)
  qed
qed simp_all

lemma cinv_syncdl:
  assumes inv: "cinv s" and at: "at t R_syncdl s"
  shows "cinv (st_syncdl t s)"
proof (rule reader_at [OF at])
  fix off len
  assume t: "kind (threads s ! t) = Reader off len" "t < length (threads s)"
    "pc (threads s ! t) = R_syncdl" "tad (threads s ! t) = None"
  have w: "w_lock s = Some t" by (rule cinv_holds [OF inv t(2)]) (simp add: holds_w_def t)
  have a: "ainv (st_syncdl t s)" by (rule ainv_syncdl [OF cinvD(1) [OF inv] at])
  show ?thesis
  proof (cases "ActiveDownload_find s (dl_offset_of s (cur (threads s ! t)))")
    case None
    show ?thesis
      by (rule cinv_adding [OF inv a at t(4), where off = "dl_offset_of s (cur (threads s ! t))" and ys = "[]" and
            x = "(threads s ! t)\<lparr>pc := L_attach\<rparr>"])
        (use t w None in \<open>auto simp: moves_def st_syncdl_def step_simps Let_def\<close>)
  next
    case (Some b)
    show ?thesis
      by (rule cinv_plain [OF inv a at t(4), where ys = "[]" and x = "(threads s ! t)\<lparr>pc := R_retry\<rparr>"])
        (use t w Some in \<open>auto simp: moves_def st_syncdl_def step_simps Let_def\<close>)
  qed
qed simp_all

text \<open>Reading a cached segment, and the waiting loop.\<close>

lemma read_cached_simps [simp]:
  "ads (read_cached t flt s) = ads s" "active (read_cached t flt s) = active s" "blk (read_cached t flt s) = blk s"
  "w_lock (read_cached t flt s) = None" "cache (read_cached t flt s) = cache s" "lnk (read_cached t flt s) = lnk s"
  by (simp_all add: read_cached_def Let_def split: prod.split)

lemma read_cached_threads:
  "\<exists>send bytes. threads (read_cached t flt s) = (threads s)[t := (threads s ! t)\<lparr>pc := R_bgdl send, seg_out := bytes\<rparr>] \<and>
     Data_read (Some (lnk s)) flt (fsys s) (cache s) (seg_len s (threads s ! t)) (cur (threads s ! t)) = (send, bytes)"
  by (simp add: read_cached_def Let_def split: prod.split)

definition leaves :: "dl \<Rightarrow> nat \<Rightarrow> AD \<Rightarrow> thread \<Rightarrow> bool" where
  "leaves s t A x \<longleftrightarrow> (let th = threads s ! t; skip = cur th - dl_offset_of s (cur th); len = seg_len s th in
     x = th\<lparr>pc := R_relock\<rparr> \<or> x = th\<lparr>pc := R_ret (- EIO)\<rparr> \<or>
     (\<exists>u d. ad_ts A = Some u \<and> tdata (threads s ! u) = Some d \<and> to_size (skip + len) \<le> length d \<and>
        x = th\<lparr>pc := R_bgdl len, seg_out := slice (nat skip) (nat len) d\<rparr>))"

lemma wait_check_cases:
  assumes "ads s a = Some A" "\<And>u. ad_ts A = Some u \<Longrightarrow> u < length (threads s)"
  obtains "wait_check t a s = goto_pc t (R_wait a) s"
  | x where "wait_check t a s = ActiveDownload_unref a (Cache_waiter_decrement (set_thread t x s))" "leaves s t A x"
proof (cases "shutting_down (cache s) \<or> ad_unlinked A")
  case True
  let ?x = "(threads s ! t)\<lparr>pc := if shutting_down (cache s) then R_ret (- EIO) else R_relock\<rparr>"
  have "wait_check t a s = ActiveDownload_unref a (Cache_waiter_decrement (set_thread t ?x s))"
    using True assms(1) by (auto simp: wait_check_def goto_pc_def Let_def)
  moreover have "leaves s t A ?x" by (simp add: leaves_def Let_def)
  ultimately show ?thesis by (rule that(2))
next
  case False
  show ?thesis
  proof (cases "ad_ts A")
    case None
    with False assms(1) have "wait_check t a s = goto_pc t (R_wait a) s" by (simp add: wait_check_def Let_def)
    then show ?thesis by (rule that(1))
  next
    case (Some u)
    show ?thesis
    proof (cases "tdata (threads s ! u)")
      case None
      with False assms Some have "wait_check t a s = goto_pc t (R_wait a) s" by (simp add: wait_check_def Let_def)
      then show ?thesis by (rule that(1))
    next
      case d: (Some d)
      let ?skip = "cur (threads s ! t) - dl_offset_of s (cur (threads s ! t))"
      let ?len = "seg_len s (threads s ! t)"
      show ?thesis
      proof (cases "to_size (?skip + ?len) \<le> length d")
        case True
        let ?x = "(threads s ! t)\<lparr>pc := R_bgdl ?len, seg_out := slice (nat ?skip) (nat ?len) d\<rparr>"
        have "wait_check t a s = ActiveDownload_unref a (Cache_waiter_decrement (set_thread t ?x s))"
          using False assms Some d True by (simp add: wait_check_def Let_def)
        moreover have "leaves s t A ?x" unfolding leaves_def Let_def using Some d True by blast
        ultimately show ?thesis by (rule that(2))
      next
        case no: False
        with False assms Some d have "wait_check t a s = goto_pc t (R_wait a) s"
          by (simp add: wait_check_def Let_def)
        then show ?thesis by (rule that(1))
      qed
    qed
  qed
qed

lemma dec_simps [simp]:
  "threads (Cache_waiter_decrement s) = threads s" "ads (Cache_waiter_decrement s) = ads s"
  "active (Cache_waiter_decrement s) = active s" "blk (Cache_waiter_decrement s) = blk s"
  "w_lock (Cache_waiter_decrement s) = w_lock s"
  by (simp_all add: Cache_waiter_decrement_def)

lemma leaves_thread:
  assumes "leaves s t A x" "kind (threads s ! t) = Reader off len" "tad (threads s ! t) = None"
  shows "tad x = None" "valid x" "\<not> holds_w x"
  using assms by (auto simp: leaves_def Let_def step_simps)

lemma act_sub_tad:
  assumes "act_sub s1 s'" and "\<And>i. i < length (threads s) \<Longrightarrow> tad (threads s1 ! i) = tad (threads s ! i)"
    and "ad_off s1 = ad_off s" and "active s1 = active s" and "length (threads s1) = length (threads s)"
  shows "act_sub s s'"
  using assms unfolding act_sub_def by metis

lemma cinv_wait_check:
  assumes inv: "cinv s" and a: "ainv (wait_check t a s')" and at: "at t p s" "tad (threads s ! t) = None"
    and k: "kind (threads s ! t) = Reader off len" and A: "ads s' a = Some A"
    and same: "threads s' = threads s" "blk s' = blk s" "active s' = active s" "w_lock s' = w_lock s"
    and sub: "ts_sub s s'" "ad_off s' = ad_off s"
    and nw: "w_lock s \<noteq> Some t"
  shows "cinv (wait_check t a s')"
proof -
  have tl: "t < length (threads s)" using at by (simp add: at_def)
  have u: "u < length (threads s')" if "ad_ts A = Some u" for u
    using sub(1) A that cinvD(3) [OF inv] unfolding ts_sub_def ts_ok_def same(1) by metis
  have h: "heap_ok (wait_check t a s')" using a ginvD(1) by (simp add: ainv_def)
  show ?thesis
  proof (rule wait_check_cases [OF A u])
    assume eq: "wait_check t a s' = goto_pc t (R_wait a) s'"
    show ?thesis
    proof (rule cinv_moves [OF inv a tl at(2), where ys = "[]" and x = "(threads s ! t)\<lparr>pc := R_wait a\<rparr>"])
      show "moves t s (wait_check t a s') ((threads s ! t)\<lparr>pc := R_wait a\<rparr>) []"
        using k at(2) nw by (simp add: moves_def eq same step_simps)
      show "ts_sub s (wait_check t a s')" by (rule ts_sub_eq [OF sub(1)]) (simp add: eq)
      show "act_sub s (wait_check t a s')" using sub(2) by (simp add: act_sub_def eq same ad_off_def fun_eq_iff)
    qed
  next
    fix x
    assume eq: "wait_check t a s' = ActiveDownload_unref a (Cache_waiter_decrement (set_thread t x s'))"
      and "leaves s' t A x"
    then have x: "tad x = None" "valid x" "\<not> holds_w x" using leaves_thread [of s' t A x] k at(2) same by auto
    let ?s1 = "Cache_waiter_decrement (set_thread t x s')"
    show ?thesis
    proof (rule cinv_moves [OF inv a tl at(2), where ys = "[]" and x = x])
      show "moves t s (wait_check t a s') x []" using x nw by (simp add: moves_def eq same)
      have "ts_sub s ?s1" by (rule ts_sub_eq [OF sub(1)]) simp
      then show "ts_sub s (wait_check t a s')" unfolding eq by (rule ts_sub_trans [OF _ ts_sub_unref])
      have "act_sub ?s1 (wait_check t a s')" using h unfolding eq by (rule act_sub_unref)
      moreover have "tad (threads ?s1 ! i) = tad (threads s ! i)" if "i < length (threads s)" for i
        using x at(2) that by (cases "i = t") (simp_all add: same)
      moreover have "ad_off ?s1 = ad_off s" using sub(2) by (simp add: ad_off_def fun_eq_iff)
      ultimately show "act_sub s (wait_check t a s')" by (rule act_sub_tad) (simp_all add: same)
    qed
  qed
qed

lemma cinv_wait:
  assumes inv: "cinv s" and at: "at t (R_wait a) s"
  shows "cinv (wait_check t a s)"
proof (rule reader_at [OF at])
  fix off len
  assume t: "kind (threads s ! t) = Reader off len" "t < length (threads s)"
    "pc (threads s ! t) = R_wait a" "tad (threads s ! t) = None"
  have "refs a (threads s ! t)" using t by (simp add: refs_def)
  then obtain A where A: "ads s a = Some A"
    using ginv_live_ref [OF cinvD(1) [OF inv, unfolded ainv_def] t(2)] by blast
  have nw: "w_lock s \<noteq> Some t" by (rule cinv_not_holds [OF inv]) (simp add: t holds_w_def)
  show ?thesis
    by (rule cinv_wait_check [OF inv ainv_wait [OF cinvD(1) [OF inv] at cinvD(3) [OF inv]] at t(4,1) A refl refl refl
          refl ts_sub_refl [OF refl] refl nw])
qed simp_all

lemma cinv_retry:
  assumes inv: "cinv s" and at: "at t R_retry s" and free: "w_lock s = None"
  shows "cinv (st_retry t flt s)"
proof (rule reader_at [OF at])
  fix off len
  assume t: "kind (threads s ! t) = Reader off len" "t < length (threads s)"
    "pc (threads s ! t) = R_retry" "tad (threads s ! t) = None"
  have a: "ainv (st_retry t flt s)" by (rule ainv_retry [OF cinvD(1) [OF inv] at cinvD(3) [OF inv]])
  let ?o = "dl_offset_of s (cur (threads s ! t))"
  have o: "dl_offset_of (lock_w t s) x = dl_offset_of s x" for x by (simp add: dl_offset_of_def)
  have find: "ActiveDownload_find (lock_w t s) x = ActiveDownload_find s x" for x
    by (simp add: ActiveDownload_find_def)
  show ?thesis
  proof (cases "Seg_exist (cache s) ?o \<noteq> 0")
    case True
    then have eq: "st_retry t flt s = read_cached t flt (lock_w t s)" by (simp add: st_retry_def Let_def o)
    obtain send bytes where th: "threads (read_cached t flt (lock_w t s)) =
        (threads s)[t := (threads s ! t)\<lparr>pc := R_bgdl send, seg_out := bytes\<rparr>]"
      using read_cached_threads [of t flt "lock_w t s"] by auto
    show ?thesis
      by (rule cinv_plain [OF inv a at t(4), where ys = "[]"])
        (use th t free in \<open>auto simp: eq moves_def step_simps\<close>)
  next
    case False
    show ?thesis
    proof (cases "ActiveDownload_find s ?o")
      case None
      with False have eq: "st_retry t flt s = goto_pc t R_trysem (lock_w t s)"
        by (simp add: st_retry_def Let_def o find)
      show ?thesis
        by (rule cinv_plain [OF inv a at t(4), where ys = "[]" and x = "(threads s ! t)\<lparr>pc := R_trysem\<rparr>"])
          (use t free in \<open>auto simp: eq moves_def step_simps\<close>)
    next
      case (Some b)
      let ?s' = "waiter_add 1 (ad_ref b (unlock_w (lock_w t s)))"
      from False Some have eq: "st_retry t flt s = wait_check t b ?s'"
        by (simp add: st_retry_def Let_def o find)
      obtain A where A: "ads s b = Some A" using find_Some [OF Some] by blast
      have sub: "ts_sub s ?s'" by (auto simp: ts_sub_def ad_ref_def A split: if_splits)
      have off: "ad_off ?s' = ad_off s" by (auto simp: ad_off_def ad_ref_def A fun_eq_iff)
      have same: "threads ?s' = threads s" "blk ?s' = blk s" "active ?s' = active s"
        by (simp_all add: blk_def waiter_add_def ad_ref_def A)
      have A': "ads ?s' b = Some (A\<lparr>ad_refcount := ad_refcount A + 1\<rparr>)"
        by (simp add: waiter_add_def ad_ref_def A)
      have w: "w_lock ?s' = w_lock s" using free by simp
      show ?thesis unfolding eq
        by (rule cinv_wait_check [OF inv a [unfolded eq] at t(4,1) A' same w sub off]) (simp add: free)
    qed
  qed
qed simp_all

lemma cinv_relock:
  assumes inv: "cinv s" and at: "at t R_relock s" and free: "w_lock s = None"
  shows "cinv (st_relock t flt s)"
proof (rule reader_at [OF at])
  fix off len
  assume t: "kind (threads s ! t) = Reader off len" "t < length (threads s)"
    "pc (threads s ! t) = R_relock" "tad (threads s ! t) = None"
  have a: "ainv (st_relock t flt s)" by (rule ainv_relock [OF cinvD(1) [OF inv] at])
  show ?thesis
  proof (cases "Seg_exist (cache s) (dl_offset_of s (cur (threads s ! t))) \<noteq> 0")
    case True
    then have eq: "st_relock t flt s = read_cached t flt (lock_w t s)" by (simp add: st_relock_def Let_def)
    obtain send bytes where th: "threads (read_cached t flt (lock_w t s)) =
        (threads s)[t := (threads s ! t)\<lparr>pc := R_bgdl send, seg_out := bytes\<rparr>]"
      using read_cached_threads [of t flt "lock_w t s"] by auto
    show ?thesis
      by (rule cinv_plain [OF inv a at t(4), where ys = "[]"])
        (use th t free in \<open>auto simp: eq moves_def step_simps\<close>)
  next
    case False
    then have eq: "st_relock t flt s = goto_pc t R_syncdl (lock_w t s)" by (simp add: st_relock_def Let_def)
    show ?thesis
      by (rule cinv_plain [OF inv a at t(4), where ys = "[]" and x = "(threads s ! t)\<lparr>pc := R_syncdl\<rparr>"])
        (use t free in \<open>auto simp: eq moves_def step_simps\<close>)
  qed
qed simp_all

text \<open>The read-ahead.\<close>

lemma cinv_bgdl:
  assumes inv: "cinv s" and at: "at t (R_bgdl send) s"
  shows "cinv (st_bgdl t send s)"
proof (rule reader_at [OF at])
  fix off len
  assume t: "kind (threads s ! t) = Reader off len" "t < length (threads s)"
    "pc (threads s ! t) = R_bgdl send" "tad (threads s ! t) = None"
  have nw: "w_lock s \<noteq> Some t" by (rule cinv_not_holds [OF inv]) (simp add: t holds_w_def)
  have a: "ainv (st_bgdl t send s)" by (rule ainv_bgdl [OF cinvD(1) [OF inv] at])
  show ?thesis
    by (rule cinv_plain [OF inv a at t(4), where ys = "[]" and x = "threads (st_bgdl t send s) ! t"])
      (use t nw in \<open>simp_all add: moves_def st_bgdl_def step_simps\<close>)
qed simp_all

lemma cinv_bgdl2:
  assumes inv: "cinv s" and at: "at t (R_bgdl2 send) s"
  shows "cinv (st_bgdl2 t send s)"
proof (rule reader_at [OF at])
  fix off len
  assume t: "kind (threads s ! t) = Reader off len" "t < length (threads s)"
    "pc (threads s ! t) = R_bgdl2 send" "tad (threads s ! t) = None"
  have nw: "w_lock s \<noteq> Some t" by (rule cinv_not_holds [OF inv]) (simp add: t holds_w_def)
  have a: "ainv (st_bgdl2 t send s)" by (rule ainv_bgdl2 [OF cinvD(1) [OF inv] at])
  show ?thesis
    by (rule cinv_plain [OF inv a at t(4), where ys = "[]" and x = "threads (st_bgdl2 t send s) ! t"])
      (use t nw in \<open>simp_all add: moves_def st_bgdl2_def sem_trywait_def step_simps\<close>)
qed simp_all

lemma cinv_bgdl3:
  assumes inv: "cinv s" and at: "at t (R_bgdl3 send) s"
  shows "cinv (st_bgdl3 t send s)"
proof (rule reader_at [OF at])
  fix off len
  assume t: "kind (threads s ! t) = Reader off len" "t < length (threads s)"
    "pc (threads s ! t) = R_bgdl3 send" "tad (threads s ! t) = None"
  have nw: "w_lock s \<noteq> Some t" by (rule cinv_not_holds [OF inv]) (simp add: t holds_w_def)
  have a: "ainv (st_bgdl3 t send s)" by (rule ainv_bgdl3 [OF cinvD(1) [OF inv] at])
  show ?thesis
  proof (cases "Seg_exist (cache s) (next_offset s t) = 0 \<and> ActiveDownload_find s (next_offset s t) = None")
    case True
    show ?thesis
      by (rule cinv_adding [OF inv a at t(4), where off = "next_offset s t" and ys = "[]" and
            x = "(threads s ! t)\<lparr>pc := R_bglaunch send\<rparr>"])
        (use t nw True in \<open>simp_all add: moves_def st_bgdl3_def step_simps Let_def\<close>)
  next
    case False
    then have eq: "st_bgdl3 t send s = goto_pc t (R_ret send) (post_sem s)" by (auto simp: st_bgdl3_def Let_def)
    show ?thesis
      by (rule cinv_plain [OF inv a at t(4), where ys = "[]" and x = "(threads s ! t)\<lparr>pc := R_ret send\<rparr>"])
        (use t nw in \<open>simp_all add: moves_def eq step_simps\<close>)
  qed
qed simp_all

lemma cinv_bglaunch:
  assumes inv: "cinv s" and at: "at t (R_bglaunch send) s"
  shows "cinv (st_bglaunch t send s)"
proof (rule reader_at [OF at])
  fix off len
  assume t: "kind (threads s ! t) = Reader off len" "t < length (threads s)"
    "pc (threads s ! t) = R_bglaunch send" "tad (threads s ! t) = None"
  have nw: "w_lock s \<noteq> Some t" by (rule cinv_not_holds [OF inv]) (simp add: t holds_w_def)
  have a: "ainv (st_bglaunch t send s)" by (rule ainv_bglaunch [OF cinvD(1) [OF inv] at])
  show ?thesis
    by (rule cinv_plain [OF inv a at t(4), where ys = "[]" and x = "(threads s ! t)\<lparr>pc := R_bgcreate send\<rparr>"])
      (use t nw in \<open>simp_all add: moves_def st_bglaunch_def step_simps\<close>)
qed simp_all

lemma cinv_bgcreate:
  assumes inv: "cinv s" and at: "at t (R_bgcreate send) s"
  shows "cinv (st_bgcreate t send s)"
proof (rule reader_at [OF at])
  fix off len
  assume t: "kind (threads s ! t) = Reader off len" "t < length (threads s)"
    "pc (threads s ! t) = R_bgcreate send" "tad (threads s ! t) = None"
  have nw: "w_lock s \<noteq> Some t" by (rule cinv_not_holds [OF inv]) (simp add: t holds_w_def)
  have a: "ainv (st_bgcreate t send s)" by (rule ainv_bgcreate [OF cinvD(1) [OF inv] at])
  let ?o = "next_offset s t"
  show ?thesis
    by (rule cinv_plain [OF inv a at t(4), where ys = "[new_thread (Worker ?o) L_attach ?o 0]" and
          x = "(threads s ! t)\<lparr>pc := R_ret send\<rparr>"])
      (use t nw in \<open>simp_all add: moves_def st_bgcreate_def step_simps\<close>)
qed simp_all

lemma cinv_ret:
  assumes inv: "cinv s" and at: "at t (R_ret send) s"
  shows "cinv (st_ret t send s)"
proof (rule reader_at [OF at])
  fix off len
  assume t: "kind (threads s ! t) = Reader off len" "t < length (threads s)"
    "pc (threads s ! t) = R_ret send" "tad (threads s ! t) = None"
  have nw: "w_lock s \<noteq> Some t" by (rule cinv_not_holds [OF inv]) (simp add: t holds_w_def)
  have a: "ainv (st_ret t send s)" by (rule ainv_ret [OF cinvD(1) [OF inv] at])
  show ?thesis
    by (rule cinv_plain [OF inv a at t(4), where ys = "[]" and x = "threads (st_ret t send s) ! t"])
      (use t nw in \<open>simp_all add: moves_def st_ret_def step_simps Let_def\<close>)
qed simp_all

text \<open>The end of a download: the owner removes the entry.\<close>

lemma drop_view:
  assumes "ads s' = ads s" "active s' = active s"
  shows "ads (drop_download off s') = ads (drop_download off s)"
    "active (drop_download off s') = active (drop_download off s)"
  using assms
  by (simp_all add: drop_download_def Cache_waiter_decrement_def ActiveDownload_remove_def ActiveDownload_find_def
      ActiveDownload_unref_def split: option.split)

lemma drop_next [simp]:
  "next_ad (drop_download off s) = next_ad s"
  by (simp add: drop_download_def Cache_waiter_decrement_def ActiveDownload_remove_def waiter_add_def
      ActiveDownload_unref_def split: option.split)

lemma heap_ok_view:
  "ads s' = ads s \<Longrightarrow> active s' = active s \<Longrightarrow> next_ad s' = next_ad s \<Longrightarrow> heap_ok s' = heap_ok s"
  by (simp add: heap_ok_def ad_off_def)

lemma cinv_drop:
  assumes inv: "cinv s" and a: "ainv s'" and at: "at t p s" "tad (threads s ! t) = None"
    and own: "owned (blk s) (threads s ! t) = Some off"
    and s': "ads s' = ads (drop_download off s)" "active s' = active (drop_download off s)" "next_ad s' = next_ad s"
    and m: "moves t s s' x ys"
  shows "cinv s'"
proof -
  have tl: "t < length (threads s)" using at by (simp add: at_def)
  have "heap_ok s'" using a ginvD(1) by (simp add: ainv_def)
  then have h: "heap_ok (drop_download off s)"
    using heap_ok_view [of s' "drop_download off s"] s' by simp
  have "act_sub s (drop_download off s)"
    by (rule act_sub_drop [OF _ _ _ tl own at(2) h]) (use inv in \<open>simp_all add: cinv_def all_valid_def\<close>)
  from act_sub_eq [OF this s'(1,2)] ts_sub_eq [OF ts_sub_drop s'(1)]
  show ?thesis by (intro cinv_moves [OF inv a tl at(2) m])
qed

lemma store_next [simp]:
  "next_ad (store_segment flt buf recv off s) = next_ad s" "bad (store_segment flt buf recv off s) = bad s"
  by (simp_all add: store_segment_def split: prod.split)

lemma cinv_sync_done:
  assumes inv: "cinv s" and at: "at t (D_done recv) s" and k: "kind (threads s ! t) = Reader o' n"
  shows "cinv (st_sync_done t flt recv s)"
proof -
  have t: "t < length (threads s)" "pc (threads s ! t) = D_done recv" "tad (threads s ! t) = None"
    using at at_tad [OF at] by (simp_all add: at_def)
  have nw: "w_lock s \<noteq> Some t" by (rule cinv_not_holds [OF inv]) (simp add: t holds_w_def)
  let ?o = "dl_offset_of s (cur (threads s ! t))"
  have own: "owned (blk s) (threads s ! t) = Some ?o" using t k by (simp add: owned_def dl_offset_of_def)
  have a: "ainv (st_sync_done t flt recv s)" by (rule ainv_sync_done [OF cinvD(1) [OF inv] at k])
  have fin: "cinv (drop_download ?o (set_thread t th s1))"
    if "ainv (drop_download ?o (set_thread t th s1))"
      "threads s1 = threads s" "blk s1 = blk s" "ads s1 = ads s" "active s1 = active s" "next_ad s1 = next_ad s"
      "w_lock s1 = w_lock s" "kind th = Reader o' n" "tad th = None"
      "(\<exists>r. pc th = R_ret r) \<or> (\<exists>r. pc th = R_bgdl r)" for s1 th
    by (rule cinv_drop [OF inv that(1) at t(3) own, where ys = "[]" and x = th])
      (use that t k nw in \<open>auto simp: moves_def step_simps drop_view [of "set_thread t th s1" s]\<close>)
  show ?thesis
    using a t k by (auto simp: st_sync_done_def Let_def goto_pc_def intro!: fin split: if_splits)
qed

lemma cinv_bg_remove:
  assumes inv: "cinv s" and at: "at t B_remove s" and k: "kind (threads s ! t) = Worker off"
  shows "cinv (st_bg_remove t off s)"
proof -
  have t: "t < length (threads s)" "pc (threads s ! t) = B_remove" "tad (threads s ! t) = None"
    using at at_tad [OF at] by (simp_all add: at_def)
  have nw: "w_lock s \<noteq> Some t" by (rule cinv_not_holds [OF inv]) (simp add: t holds_w_def)
  have own: "owned (blk s) (threads s ! t) = Some off" using t k by (simp add: owned_def)
  show ?thesis
    by (rule cinv_drop [OF inv ainv_bg_remove [OF cinvD(1) [OF inv] at k] at t(3) own, where ys = "[]" and
          x = "(threads s ! t)\<lparr>pc := B_post\<rparr>"])
      (use t k nw in \<open>simp_all add: moves_def step_simps st_bg_remove_def goto_pc_def\<close>)
qed

lemma cinv_bg_done:
  assumes inv: "cinv s" and at: "at t (D_done recv) s" and k: "kind (threads s ! t) = Worker off"
  shows "cinv (st_bg_done t flt recv off s)"
proof -
  have t: "t < length (threads s)" "pc (threads s ! t) = D_done recv" "tad (threads s ! t) = None"
    using at at_tad [OF at] by (simp_all add: at_def)
  have nw: "w_lock s \<noteq> Some t" by (rule cinv_not_holds [OF inv]) (simp add: t holds_w_def)
  have own: "owned (blk s) (threads s ! t) = Some off" using t k by (simp add: owned_def)
  have a: "ainv (st_bg_done t flt recv off s)" by (rule ainv_bg_done [OF cinvD(1) [OF inv] at k])
  show ?thesis
  proof (cases "recv < 0")
    case True
    then show ?thesis
      by (intro cinv_drop [OF inv a at t(3) own, where ys = "[]" and x = "(threads s ! t)\<lparr>pc := B_post\<rparr>"])
        (use t k nw in \<open>simp_all add: moves_def step_simps st_bg_done_def goto_pc_def\<close>)
  next
    case False
    then show ?thesis
      by (intro cinv_plain [OF inv a at t(3), where ys = "[]" and x = "(threads s ! t)\<lparr>pc := B_remove\<rparr>"])
        (use t k nw in \<open>simp_all add: moves_def step_simps st_bg_done_def goto_pc_def Let_def\<close>)
  qed
qed

lemma cinv_bg_post:
  assumes inv: "cinv s" and at: "at t B_post s"
  shows "cinv (st_bg_post t s)"
proof -
  have t: "t < length (threads s)" "pc (threads s ! t) = B_post" "tad (threads s ! t) = None"
    using at at_tad [OF at] by (simp_all add: at_def)
  have nw: "w_lock s \<noteq> Some t" by (rule cinv_not_holds [OF inv]) (simp add: t holds_w_def)
  obtain off where k: "kind (threads s ! t) = Worker off"
    using at by (cases "kind (threads s ! t)") (auto simp: at_def valid_def)
  show ?thesis
    by (rule cinv_plain [OF inv ainv_bg_post [OF cinvD(1) [OF inv] at] at t(3), where ys = "[]" and
          x = "(threads s ! t)\<lparr>pc := B_exit\<rparr>"])
      (use t k nw in \<open>simp_all add: moves_def step_simps st_bg_post_def\<close>)
qed

text \<open>The transfer itself: attaching to a node, receiving, and letting go.\<close>

lemma lock_ok_quiet:
  assumes "lock_ok s" "t < length (threads s)" "threads s' = (threads s)[t := x]" "w_lock s' = w_lock s"
    and "\<not> holds_w (threads s ! t)" "\<not> holds_w x"
  shows "lock_ok s'"
proof (rule lock_ok_set [OF assms(1,2), where ys = "[]"])
  have "w_lock s \<noteq> Some t" using assms(1,5) unfolding lock_ok_def by blast
  then show "w_lock s' = (if holds_w x then Some t else if w_lock s = Some t then None else w_lock s)"
    using assms(4,6) by simp
qed (use assms in simp_all)

lemma all_valid_set:
  assumes "all_valid s" "threads s' = (threads s)[t := x]" "valid x"
  shows "all_valid s'"
  using assms set_update_subset_insert [of "threads s" t x] by (auto simp: all_valid_def)

lemma tinv_attach:
  assumes inv: "tinv s" and t: "t < length (threads s)" "tad (threads s ! t) = None"
    and find: "ActiveDownload_find s (own_offset s (threads s ! t)) = Some a" and A: "ads s a = Some A"
    and s': "threads s' = (threads s)[t := x]" "ads s' = (ads s)(a \<mapsto> A\<lparr>ad_ts := Some t, ad_refcount := n\<rparr>)"
      "active s' = active s" "blk s' = blk s"
    and x: "tad x = Some a" "receiving x" "own_offset s x = own_offset s (threads s ! t)"
  shows "tinv s'"
proof -
  have off: "own_offset s' th = own_offset s th" for th by (rule own_offset_blk [OF s'(4)])
  have aoff: "ad_off s' = ad_off s" using A by (auto simp: ad_off_def s' fun_eq_iff)
  have found: "a \<in> set (active s)" "ad_offset A = own_offset s (threads s ! t)"
    using find_Some [OF find] A by auto
  have "ts_ok s'" unfolding ts_ok_def
  proof (intro allI impI)
    fix b B u
    assume b: "ads s' b = Some B" "ad_ts B = Some u"
    show "u < length (threads s') \<and> receiving (threads s' ! u) \<and> tad (threads s' ! u) = Some b \<and>
        own_offset s' (threads s' ! u) = ad_offset B"
    proof (cases "b = a")
      case True
      with b s'(1,2) t x found show ?thesis by (auto simp: off)
    next
      case False
      with b s'(2) have "ads s b = Some B" by simp
      with b inv have u: "u < length (threads s)" "receiving (threads s ! u)" "tad (threads s ! u) = Some b"
        "own_offset s (threads s ! u) = ad_offset B" unfolding tinv_def ts_ok_def by auto
      then have "u \<noteq> t" using t by auto
      with u s'(1) show ?thesis by (simp add: off)
    qed
  qed
  moreover have "tad_ok s'" unfolding tad_ok_def
  proof (intro allI impI)
    fix i b
    assume i: "i < length (threads s')" "tad (threads s' ! i) = Some b"
    show "b \<in> set (active s') \<and> ad_off s' b = own_offset s' (threads s' ! i)"
    proof (cases "i = t")
      case True
      with i s'(1) x have "b = a" by simp
      with True i s'(1,3) x found A show ?thesis by (simp add: off aoff) (simp add: ad_off_def)
    next
      case False
      with i s'(1,3) inv show ?thesis by (simp add: off aoff tinv_def tad_ok_def)
    qed
  qed
  ultimately show ?thesis by (simp add: tinv_def)
qed

lemma cinv_attach:
  assumes inv: "cinv s" and at: "at t L_attach s"
  shows "cinv (st_attach t s)"
proof -
  have t: "t < length (threads s)" "pc (threads s ! t) = L_attach" "tad (threads s ! t) = None"
    using at at_tad [OF at] by (simp_all add: at_def)
  have v: "valid (threads s ! t)" using at by (simp add: at_def)
  have nw: "w_lock s \<noteq> Some t" by (rule cinv_not_holds [OF inv]) (simp add: t holds_w_def)
  let ?th = "threads s ! t"
  let ?off = "own_offset s ?th"
  have a: "ainv (st_attach t s)" by (rule ainv_attach [OF cinvD(1) [OF inv] at])
  have plain: "cinv (st_attach t s)"
    if "st_attach t s = set_thread t x s" "kind x = kind ?th" "tad x = None" "pc x = L_recv \<or> pc x = D_done 0" for x
    by (rule cinv_plain [OF inv a at t(3), where ys = "[]" and x = x])
      (use that nw v t in \<open>auto simp: moves_def holds_w_def valid_def split: kind.splits\<close>)
  show ?thesis
  proof (cases "blk s = 0 \<or> flen s = 0 \<or> ?off < 0 \<or> ?off \<ge> flen s")
    case True
    then have "st_attach t s = set_thread t (?th\<lparr>pc := D_done 0\<rparr>) s"
      by (auto simp: st_attach_def goto_pc_def Let_def)
    then show ?thesis by (rule plain) (simp_all add: t)
  next
    case in_file: False
    show ?thesis
    proof (cases "ActiveDownload_find s ?off")
      case None
      with in_file have "st_attach t s = set_thread t (?th\<lparr>pc := L_recv, tdata := None, tad := None\<rparr>) s"
        by (auto simp: st_attach_def Let_def)
      then show ?thesis by (rule plain) simp_all
    next
      case (Some b)
      then obtain A where A: "ads s b = Some A" using find_Some by blast
      let ?x = "?th\<lparr>pc := L_recv, tdata := None, tad := Some b\<rparr>"
      let ?s1 = "s\<lparr>ads := (ads s)(b \<mapsto> A\<lparr>ad_ts := Some t\<rparr>)\<rparr>"
      have eq: "st_attach t s = ad_ref b (set_thread t ?x ?s1)"
        using in_file Some A by (auto simp: st_attach_def Let_def)
      have s': "threads (st_attach t s) = (threads s)[t := ?x]"
        "ads (st_attach t s) = (ads s)(b \<mapsto> A\<lparr>ad_ts := Some t, ad_refcount := ad_refcount A + 1\<rparr>)"
        "active (st_attach t s) = active s" "blk (st_attach t s) = blk s" "w_lock (st_attach t s) = w_lock s"
        by (simp_all add: eq ad_ref_def blk_def)
      have "tinv (st_attach t s)"
        by (rule tinv_attach [OF cinvD(2) [OF inv] t(1,3) Some A s'(1-4)])
          (simp_all add: receiving_def own_offset_def split: kind.split)
      moreover have "all_valid (st_attach t s)"
        by (rule all_valid_set [OF _ s'(1)]) (use inv v t in \<open>auto simp: cinv_def valid_def split: kind.splits\<close>)
      moreover have "lock_ok (st_attach t s)"
        by (rule lock_ok_quiet [OF _ t(1) s'(1,5)]) (use inv t in \<open>simp_all add: cinv_def holds_w_def\<close>)
      ultimately show ?thesis using a by (simp add: cinv_def)
    qed
  qed
qed

lemma cinv_recv_step:
  assumes inv: "cinv s" and at: "at t L_recv s" and th: "th = (threads s ! t)\<lparr>pc := p, tdata := d\<rparr>"
    and p: "p = L_recv \<or> (\<exists>r. p = L_fin r)"
  shows "cinv (set_thread t th s)"
proof -
  have t: "t < length (threads s)" "pc (threads s ! t) = L_recv" "valid (threads s ! t)"
    using at by (simp_all add: at_def)
  have off: "own_offset (set_thread t th s) x = own_offset s x" for x by (rule own_offset_blk) simp
  let ?ts = "(threads s)[t := th]"
  have x: "tad th = tad (threads s ! t)" "own_offset s th = own_offset s (threads s ! t)" "receiving th"
    using p by (auto simp: th own_offset_def receiving_def split: kind.split)
  have same: "tad (?ts ! i) = tad (threads s ! i)" "own_offset s (?ts ! i) = own_offset s (threads s ! i)" for i
    using t x by (cases "i = t"; simp)+
  have rec: "receiving (?ts ! i)" if "receiving (threads s ! i)" for i
    using t x that by (cases "i = t"; simp)
  have "ts_ok (set_thread t th s)" unfolding ts_ok_def
  proof (intro allI impI)
    fix a A u
    assume "ads (set_thread t th s) a = Some A" "ad_ts A = Some u"
    then have "ads s a = Some A" "ad_ts A = Some u" by simp_all
    with cinvD(3) [OF inv] have "u < length (threads s)" "receiving (threads s ! u)"
      "tad (threads s ! u) = Some a" "own_offset s (threads s ! u) = ad_offset A" unfolding ts_ok_def by blast+
    then show "u < length (threads (set_thread t th s)) \<and> receiving (threads (set_thread t th s) ! u) \<and>
        tad (threads (set_thread t th s) ! u) = Some a \<and>
        own_offset (set_thread t th s) (threads (set_thread t th s) ! u) = ad_offset A"
      using rec by (simp add: off same)
  qed
  moreover have "tad_ok (set_thread t th s)" unfolding tad_ok_def
  proof (intro allI impI)
    fix i a
    assume "i < length (threads (set_thread t th s))" "tad (threads (set_thread t th s) ! i) = Some a"
    then have "i < length (threads s)" "tad (threads s ! i) = Some a" by (simp_all add: same)
    with cinvD(2) [OF inv] have "a \<in> set (active s)" "ad_off s a = own_offset s (threads s ! i)"
      unfolding tinv_def tad_ok_def by blast+
    then show "a \<in> set (active (set_thread t th s)) \<and>
        ad_off (set_thread t th s) a = own_offset (set_thread t th s) (threads (set_thread t th s) ! i)"
      by (simp add: off same) (simp add: ad_off_def)
  qed
  moreover have "all_valid (set_thread t th s)"
    by (rule all_valid_set [where t = t and x = th])
      (use inv t p in \<open>auto simp: cinv_def valid_def th split: kind.splits\<close>)
  moreover have "lock_ok (set_thread t th s)"
    by (rule lock_ok_quiet [where t = t and x = th])
      (use inv t p in \<open>auto simp: cinv_def holds_w_def th\<close>)
  ultimately show ?thesis using ainv_recv_step [OF cinvD(1) [OF inv] at th p] by (simp add: cinv_def tinv_def)
qed

definition clear_ts :: "nat \<Rightarrow> dl \<Rightarrow> dl" where
  "clear_ts t s = (case ActiveDownload_find s (own_offset s (threads s ! t)) of
     None \<Rightarrow> s
   | Some a \<Rightarrow>
       (case ads s a of
          None \<Rightarrow> s\<lparr>bad := True\<rparr>
        | Some A \<Rightarrow> if ad_ts A = Some t then s\<lparr>ads := (ads s)(a \<mapsto> A\<lparr>ad_ts := None\<rparr>)\<rparr> else s))"

lemma finish_transfer_eq:
  "Link_download_finish_transfer t s =
    (case tad (threads s ! t) of
       None \<Rightarrow> set_thread t ((threads s ! t)\<lparr>tad := None\<rparr>) (clear_ts t s)
     | Some a \<Rightarrow> ActiveDownload_unref a (set_thread t ((threads s ! t)\<lparr>tad := None\<rparr>) (clear_ts t s)))"
  unfolding Link_download_finish_transfer_def clear_ts_def Let_def by (rule refl)

lemma clear_ts_simps [simp]:
  "threads (clear_ts t s) = threads s" "active (clear_ts t s) = active s" "ad_off (clear_ts t s) = ad_off s"
  by (auto simp: clear_ts_def ad_off_def fun_eq_iff split: option.split)

lemma clear_ts_sub: "ts_sub s (clear_ts t s)"
  by (auto simp: clear_ts_def ts_sub_def split: option.splits if_splits)

lemma clear_ts_gone:
  assumes inv: "cinv s" and A: "ads (clear_ts t s) a = Some A"
  shows "ad_ts A \<noteq> Some t"
proof
  assume ts: "ad_ts A = Some t"
  with clear_ts_sub [of s t] A obtain B where B: "ads s a = Some B" "ad_ts B = Some t"
    unfolding ts_sub_def by blast
  with cinvD(3) [OF inv] have t: "t < length (threads s)" "tad (threads s ! t) = Some a"
    "own_offset s (threads s ! t) = ad_offset B" unfolding ts_ok_def by blast+
  then have "a \<in> set (active s)" using cinvD(2) [OF inv] unfolding tinv_def tad_ok_def by blast
  from find_eq [OF cinvD(4) [OF inv] this B(1)] have "ActiveDownload_find s (own_offset s (threads s ! t)) = Some a"
    using t(3) by simp
  with A B ts show False by (simp add: clear_ts_def) (metis AD.select_convs(2) AD.surjective AD.update_convs(2) option.distinct(1))
qed

lemma cinv_fin:
  assumes inv: "cinv s" and at: "at t (L_fin r) s"
  shows "cinv (st_fin t r s)"
proof -
  have t: "t < length (threads s)" "pc (threads s ! t) = L_fin r" "valid (threads s ! t)" using at by (simp_all add: at_def)
  let ?s1 = "Link_download_finish_transfer t s"
  let ?mid = "set_thread t ((threads s ! t)\<lparr>tad := None\<rparr>) (clear_ts t s)"
  have a1: "ainv ?s1" by (rule ainv_finish_transfer [OF cinvD(1) [OF inv] at])
  have h: "heap_ok ?s1" using a1 ginvD(1) by (simp add: ainv_def)
  have ts_mid: "ts_sub ?mid ?s1"
    unfolding finish_transfer_eq by (auto intro: ts_sub_unref split: option.split)
  have ts: "ts_sub s ?s1"
    by (rule ts_sub_trans [OF _ ts_mid]) (rule ts_sub_eq [OF clear_ts_sub], simp)
  have gone: "ad_ts A \<noteq> Some t" if "ads ?s1 a = Some A" for a A
  proof
    assume "ad_ts A = Some t"
    with ts_mid that obtain B where "ads ?mid a = Some B" "ad_ts B = Some t" unfolding ts_sub_def by blast
    with clear_ts_gone [OF inv, of t a B] show False by simp
  qed
  have off: "ad_off ?s1 b = ad_off s b" if "b \<in> set (active s)" for b
  proof -
    have "ads ?s1 b \<noteq> None" using h that unfolding heap_ok_def by auto
    then have "ad_off ?s1 b = ad_off ?mid b"
      unfolding finish_transfer_eq by (simp add: ad_off_unref split: option.splits)
    also have "\<dots> = ad_off (clear_ts t s) b" unfolding ad_off_def by (simp only: set_thread_simps)
    finally show ?thesis by simp
  qed
  have go: "cinv (set_thread t x ?s1)"
    if "ainv (set_thread t x ?s1)" "kind x = kind (threads s ! t)" "tad x = None" "pc x = L_attach \<or> (\<exists>n. pc x = D_done n)" for x
  proof -
    have th: "threads (set_thread t x ?s1) = (threads s)[t := x] @ []" by simp
    have "tinv (set_thread t x ?s1)"
    proof (rule tinv_release [OF cinvD(2) [OF inv] _ t(1) _ th that(3)])
      show "ts_sub s (set_thread t x ?s1)" by (rule ts_sub_eq [OF ts]) simp
      show "act_sub s (set_thread t x ?s1)" using off by (simp add: act_sub_def) (simp add: ad_off_def)
    qed (use gone in simp_all)
    moreover have "all_valid (set_thread t x ?s1)"
      by (rule all_valid_set [where t = t and x = x]) (use inv t that in \<open>auto simp: cinv_def valid_def split: kind.splits\<close>)
    moreover have "lock_ok (set_thread t x ?s1)"
      by (rule lock_ok_quiet [where t = t and x = x]) (use inv t that in \<open>auto simp: cinv_def holds_w_def\<close>)
    ultimately show ?thesis using that(1) by (simp add: cinv_def)
  qed
  have "ainv (st_fin t r s)" by (rule ainv_fin [OF cinvD(1) [OF inv] at])
  then show ?thesis using t by (auto simp: st_fin_def Let_def intro!: go split: if_splits)
qed

lemma cinv_start:
  assumes inv: "cinv s"
  shows "cinv (start_read len off s)"
proof -
  let ?x = "Cache_read_start len off s"
  let ?s = "start_read len off s"
  have x: "kind ?x = Reader off len" "tad ?x = None" "pc ?x = R_retry \<or> (\<exists>r. pc ?x = Finished r)"
    by (auto simp: Cache_read_start_def new_thread_def Let_def)
  have a: "ainv ?s" unfolding start_read_def ainv_def
    by (rule ginv_append [OF cinvD(1) [OF inv, unfolded ainv_def]]) (use x in \<open>auto simp: sig_defs\<close>)
  have th: "threads ?s = threads s @ [?x]" "ads ?s = ads s" "active ?s = active s" "w_lock ?s = w_lock s" "blk ?s = blk s"
    by (simp_all add: start_read_def blk_def)
  have "tinv ?s" unfolding tinv_def
  proof
    show "ts_ok ?s" unfolding ts_ok_def
    proof (intro allI impI)
      fix a A u
      assume "ads ?s a = Some A" "ad_ts A = Some u"
      with cinvD(3) [OF inv] th(2) have "u < length (threads s)" "receiving (threads s ! u)"
        "tad (threads s ! u) = Some a" "own_offset s (threads s ! u) = ad_offset A" unfolding ts_ok_def by auto
      then show "u < length (threads ?s) \<and> receiving (threads ?s ! u) \<and> tad (threads ?s ! u) = Some a \<and>
          own_offset ?s (threads ?s ! u) = ad_offset A"
        by (simp add: th nth_append own_offset_blk [OF th(5)])
    qed
    show "tad_ok ?s" unfolding tad_ok_def
    proof (intro allI impI)
      fix i a
      assume i: "i < length (threads ?s)" "tad (threads ?s ! i) = Some a"
      then have il: "i < length (threads s)" using x(2) by (auto simp: th nth_append split: if_splits)
      with i cinvD(2) [OF inv] show "a \<in> set (active ?s) \<and> ad_off ?s a = own_offset ?s (threads ?s ! i)"
        by (simp add: th nth_append tinv_def tad_ok_def own_offset_blk [OF th(5)]) (simp add: ad_off_def th)
    qed
  qed
  moreover have "all_valid ?s" using inv x by (auto simp: cinv_def all_valid_def th valid_def)
  moreover have "lock_ok ?s" unfolding lock_ok_def
  proof (intro conjI allI impI)
    have nx: "\<not> holds_w ?x" using x(3) by (auto simp: holds_w_def)
    have l: "lock_ok s" using inv by (simp add: cinv_def)
    fix i
    assume i: "i < length (threads ?s)" "holds_w (threads ?s ! i)"
    with nx have "i < length (threads s)" by (auto simp: th nth_append split: if_splits)
    moreover from this i(2) have "holds_w (threads s ! i)" by (simp add: th nth_append)
    ultimately have "w_lock s = Some i" using l unfolding lock_ok_def by blast
    then show "w_lock ?s = Some i" unfolding th .
  next
    fix u
    assume "w_lock ?s = Some u"
    with inv have "u < length (threads s)" "holds_w (threads s ! u)" unfolding cinv_def lock_ok_def th by blast+
    then show "u < length (threads ?s)" "holds_w (threads ?s ! u)" by (simp_all add: th nth_append)
  qed
  ultimately show ?thesis using a by (simp add: cinv_def)
qed

section \<open>Reachable states\<close>

theorem cinv_step:
  assumes inv: "cinv s" and step: "step_thread t ev s = Some s'"
  shows "cinv s'"
proof -
  have tl: "t < length (threads s)" using step by (auto simp: step_thread_def split: if_splits)
  have at: "at t (pc (threads s ! t)) s" by (rule cinv_at [OF inv tl])
  have free: "needs_w (threads s ! t) \<Longrightarrow> w_lock s = None"
    using step by (auto simp: step_thread_def Let_def split: if_splits)
  show ?thesis
  proof (cases ev)
    case (Chunk c)
    with step have "pc (threads s ! t) = L_recv" "s' = st_chunk t c s"
      by (auto simp: step_thread_def Let_def split: if_splits)
    with at show ?thesis
      unfolding st_chunk_def Let_def
      by (simp, intro cinv_recv_step [OF inv, where p = L_recv and d = "Some ((case tdata (threads s ! t) of Some d \<Rightarrow> d | None \<Rightarrow> []) @ c)"]) auto
  next
    case (Complete resp n)
    with step have p: "pc (threads s ! t) = L_recv" "s' = goto_pc t (L_fin (Link_download_cleanup resp n)) s"
      by (auto simp: step_thread_def Let_def split: if_splits)
    show ?thesis unfolding p(2) goto_pc_def
      by (rule cinv_recv_step [OF inv, where p = "L_fin (Link_download_cleanup resp n)" and d = "tdata (threads s ! t)"])
        (use at p in auto)
  next
    case (Go flt)
    with step tl have e: "(case pc (threads s ! t) of
                 R_retry \<Rightarrow> Some (st_retry t flt s)
               | R_trysem \<Rightarrow> Some (st_trysem t s)
               | R_bgadd \<Rightarrow> Some (st_bgadd t s)
               | R_launch \<Rightarrow> Some (st_launch t s)
               | R_create \<Rightarrow> Some (st_create t s)
               | R_syncdl \<Rightarrow> Some (st_syncdl t s)
               | R_wait a \<Rightarrow> Some (wait_check t a s)
               | R_relock \<Rightarrow> Some (st_relock t flt s)
               | L_attach \<Rightarrow> Some (st_attach t s)
               | L_recv \<Rightarrow> None
               | L_fin recv \<Rightarrow> Some (st_fin t recv s)
               | D_done recv \<Rightarrow>
                   (case kind (threads s ! t) of
                      Reader _ _ \<Rightarrow> Some (st_sync_done t flt recv s)
                    | Worker off \<Rightarrow> Some (st_bg_done t flt recv off s))
               | R_bgdl send \<Rightarrow> Some (st_bgdl t send s)
               | R_bgdl2 send \<Rightarrow> Some (st_bgdl2 t send s)
               | R_bgdl3 send \<Rightarrow> Some (st_bgdl3 t send s)
               | R_bglaunch send \<Rightarrow> Some (st_bglaunch t send s)
               | R_bgcreate send \<Rightarrow> Some (st_bgcreate t send s)
               | R_ret send \<Rightarrow> Some (st_ret t send s)
               | Finished _ \<Rightarrow> None
               | B_remove \<Rightarrow>
                   (case kind (threads s ! t) of Worker off \<Rightarrow> Some (st_bg_remove t off s) | Reader _ _ \<Rightarrow> None)
               | B_post \<Rightarrow> Some (st_bg_post t s)
               | B_exit \<Rightarrow> None) = Some s'"
      by (auto simp: step_thread_def Let_def split: if_splits)
    show ?thesis
    proof (cases "pc (threads s ! t)")
      case R_retry
      with e at inv free cinv_retry show ?thesis by (auto simp: needs_w_def)
    next
      case R_trysem
      with e at inv cinv_trysem show ?thesis by auto
    next
      case R_bgadd
      with e at inv cinv_bgadd show ?thesis by auto
    next
      case R_launch
      with e at inv cinv_launch show ?thesis by auto
    next
      case R_create
      with e at inv cinv_create show ?thesis by auto
    next
      case R_syncdl
      with e at inv cinv_syncdl show ?thesis by auto
    next
      case (R_wait a)
      with e at inv cinv_wait show ?thesis by auto
    next
      case R_relock
      with e at inv free cinv_relock show ?thesis by (auto simp: needs_w_def)
    next
      case L_attach
      with e at inv cinv_attach show ?thesis by auto
    next
      case (L_fin r)
      with e at inv cinv_fin show ?thesis by auto
    next
      case (D_done r)
      with e at inv cinv_sync_done cinv_bg_done show ?thesis by (cases "kind (threads s ! t)") auto
    next
      case (R_bgdl r)
      with e at inv cinv_bgdl show ?thesis by auto
    next
      case (R_bgdl2 r)
      with e at inv cinv_bgdl2 show ?thesis by auto
    next
      case (R_bgdl3 r)
      with e at inv cinv_bgdl3 show ?thesis by auto
    next
      case (R_bglaunch r)
      with e at inv cinv_bglaunch show ?thesis by auto
    next
      case (R_bgcreate r)
      with e at inv cinv_bgcreate show ?thesis by auto
    next
      case (R_ret r)
      with e at inv cinv_ret show ?thesis by auto
    next
      case B_remove
      with e at inv cinv_bg_remove show ?thesis by (cases "kind (threads s ! t)") auto
    next
      case B_post
      with e at inv cinv_bg_post show ?thesis by auto
    qed (use e in auto)
  qed
qed

text \<open>
  A state reached from a freshly opened cache: calls of \<open>Cache_read\<close> arrive at any time, and the
  threads take their steps in any order.
\<close>

definition fresh_cache :: "Cache \<Rightarrow> bool" where
  "fresh_cache cf \<longleftrightarrow> waiters cf = 0 \<and> bgt_sem cf = num_bg_workers cf"

definition dl_init :: "Cache \<Rightarrow> Link \<Rightarrow> fs \<Rightarrow> dl" where
  "dl_init cf lk fs =
    \<lparr>cache = cf, lnk = lk, fsys = fs, ads = (\<lambda>_. None), active = [], next_ad = 0, w_lock = None,
     threads = [], bad = False\<rparr>"

datatype move = Read int int | Step nat event

definition dl_move :: "move \<Rightarrow> dl \<Rightarrow> dl option" where
  "dl_move m s = (case m of Read len off \<Rightarrow> Some (start_read len off s) | Step t ev \<Rightarrow> step_thread t ev s)"

inductive dl_reachable :: "dl \<Rightarrow> dl \<Rightarrow> bool" for s0 where
  dl_here: "dl_reachable s0 s0"
| dl_next: "dl_reachable s0 s \<Longrightarrow> dl_move m s = Some s' \<Longrightarrow> dl_reachable s0 s'"

fun dl_run :: "move list \<Rightarrow> dl \<Rightarrow> dl option" where
  "dl_run [] s = Some s"
| "dl_run (m # ms) s = (case dl_move m s of None \<Rightarrow> None | Some s' \<Rightarrow> dl_run ms s')"

lemma dl_run_reachable:
  "dl_reachable s0 s \<Longrightarrow> dl_run ms s = Some s' \<Longrightarrow> dl_reachable s0 s'"
  by (induction ms arbitrary: s) (auto split: option.splits intro: dl_next)

lemma cinv_init: "fresh_cache cf \<Longrightarrow> cinv (dl_init cf lk fs)"
  by (simp add: cinv_def ainv_def ginv_def heap_ok_def refs_ok_def owners_ok_def active_off_def dl_init_def
      fresh_cache_def tinv_def ts_ok_def tad_ok_def all_valid_def lock_ok_def)

lemma cinv_reachable:
  assumes "dl_reachable s0 s" "cinv s0"
  shows "cinv s"
  using assms
proof (induction rule: dl_reachable.induct)
  case (dl_next s m s')
  then show ?case using cinv_step cinv_start by (auto simp: dl_move_def split: move.splits)
qed

lemmas cinv_from_init = cinv_reachable [OF _ cinv_init]

subsection \<open>A run with two readers and a worker\<close>

definition demo_open :: Cache where
  "demo_open = \<lparr>cache_opened = 1, dfp = Some ''d'', mfp = None, cpath = ''f'', clink = None, blksz = 4, segbc = 2,
     seg = [0, 0], bgt_sem = 1, waiters = 0, shutting_down = False, num_bg_workers = 1\<rparr>"

definition demo_dl :: dl where
  "demo_dl = dl_init demo_open demo_file [''d'' \<mapsto> [0, 0, 0, 0, 0]]"

text \<open>
  Reader 0 launches worker 1 for the first segment and waits for it; reader 2 wants the same
  segment and waits too; the worker receives the segment, stores it, and both readers copy it.
  Reader 0 then starts worker 3 for the read-ahead of the last, short segment.
\<close>

definition demo_moves :: "move list" where
  "demo_moves =
    (let go = Go no_faults in
     [Read 2 1, Step 0 go, Step 0 go, Step 0 go, Step 0 go, Step 0 go,
      Step 1 go, Step 0 go, Read 3 0, Step 2 go, Step 1 (Chunk [1, 2]),
      Step 0 go, Step 1 (Chunk [3, 4]), Step 0 go, Step 1 (Complete 206 4), Step 2 go,
      Step 1 go, Step 1 go, Step 1 go, Step 1 go, Step 0 go, Step 0 go, Step 0 go, Step 0 go,
      Step 0 go, Step 0 go, Step 3 go, Step 3 (Chunk [5]), Step 3 (Complete 206 1),
      Step 3 go, Step 3 go, Step 3 go, Step 3 go, Step 2 go, Step 2 go])"

lemma demo_fresh: "fresh_cache demo_open"
  by (simp add: fresh_cache_def demo_open_def)

end
