(* ===== verification/CacheDlProps.thy ===== *)
theory CacheDlProps
  imports CacheDlSafe
begin

text \<open>
  The properties of the concurrent download that follow from its invariants: memory safety of
  the \<open>ActiveDownload\<close> nodes, one transfer per segment, the bound on background workers, what
  holds when \<open>Cache_close\<close> has taken all units of the semaphore, and progress.
\<close>

section \<open>Two more invariants\<close>

text \<open>A node that is off the list is marked, and the semaphore never goes below zero.\<close>

definition off_list_marked :: "dl \<Rightarrow> bool" where
  "off_list_marked s \<longleftrightarrow> (\<forall>a A. ads s a = Some A \<longrightarrow> a \<notin> set (active s) \<longrightarrow> ad_unlinked A)"

definition marked :: "dl \<Rightarrow> bool" where
  "marked s \<longleftrightarrow> off_list_marked s \<and> 0 \<le> bgt_sem (cache s)"

lemma marked_view:
  "ads s' = ads s \<Longrightarrow> active s' = active s \<Longrightarrow> bgt_sem (cache s') = bgt_sem (cache s) \<Longrightarrow> marked s' = marked s"
  by (simp add: marked_def off_list_marked_def)

lemma marked_view_simps [simp]:
  "marked (set_thread t th s) = marked s" "marked (goto_pc t p s) = marked s" "marked (lock_w t s) = marked s"
  "marked (unlock_w s) = marked s" "marked (waiter_add d s) = marked s" "marked (spawn_worker off s) = marked s"
  "marked (Cache_waiter_decrement s) = marked s" "marked (store_segment flt buf r off s) = marked s"
  "marked (read_cached t flt s) = marked s" "marked (s\<lparr>bad := b\<rparr>) = marked s"
  by (rule marked_view; simp add: goto_pc_def waiter_add_def Cache_waiter_decrement_def store_segment_def
      Seg_set_eq split: prod.split)+

lemma marked_sem: "marked s \<Longrightarrow> 0 \<le> n \<Longrightarrow> marked (set_sem n s)"
  by (simp add: marked_def off_list_marked_def) (simp add: set_sem_def)

lemma marked_post: "marked s \<Longrightarrow> marked (post_sem s)"
  unfolding post_sem_def by (rule marked_sem) (auto simp: marked_def sem_post_def)

lemma marked_add: "marked s \<Longrightarrow> marked (ActiveDownload_add off s)"
  by (auto simp: marked_def off_list_marked_def ActiveDownload_add_def Let_def)

lemma marked_ref: "marked s \<Longrightarrow> marked (ad_ref a s)"
  by (auto simp: marked_def off_list_marked_def ad_ref_def split: option.split)

lemma marked_unref: "marked s \<Longrightarrow> marked (ActiveDownload_unref a s)"
  by (auto simp: marked_def off_list_marked_def ActiveDownload_unref_def split: option.split)

lemma marked_ts: "marked s \<Longrightarrow> ads s a = Some A \<Longrightarrow> marked (s\<lparr>ads := (ads s)(a \<mapsto> A\<lparr>ad_ts := x\<rparr>)\<rparr>)"
  by (auto simp: marked_def off_list_marked_def)

lemma marked_remove:
  assumes "marked s"
  shows "marked (ActiveDownload_remove off s)"
proof (cases "ActiveDownload_find s off")
  case None
  then show ?thesis using assms by (simp add: ActiveDownload_remove_def)
next
  case (Some a)
  then obtain A where A: "ads s a = Some A" using find_Some by blast
  have "marked (s\<lparr>active := remove1 a (active s), ads := (ads s)(a \<mapsto> A\<lparr>ad_unlinked := True\<rparr>)\<rparr>)"
    using assms by (auto simp: marked_def off_list_marked_def in_set_remove1)
  then show ?thesis using Some A by (simp add: ActiveDownload_remove_def marked_unref)
qed

lemma marked_drop: "marked s \<Longrightarrow> marked (drop_download off s)"
  by (simp add: drop_download_def marked_remove)

lemma marked_wait_check: "marked s \<Longrightarrow> marked (wait_check t a s)"
  by (auto simp: wait_check_def Let_def intro: marked_unref split: option.split)

lemma marked_finish: "marked s \<Longrightarrow> marked (Link_download_finish_transfer t s)"
  by (auto simp: finish_transfer_eq clear_ts_def intro!: marked_unref marked_ts split: option.split)

lemmas marked_intros = marked_sem marked_post marked_add marked_ref marked_unref marked_ts marked_drop
  marked_wait_check marked_finish

lemma marked_step:
  assumes m: "marked s" and step: "step_thread t ev s = Some s'"
  shows "marked s'"
proof -
  have sem: "0 \<le> bgt_sem (cache s)" using m by (simp add: marked_def)
  have 1: "marked (st_retry t flt s)" "marked (st_bgadd t s)" "marked (st_launch t s)" "marked (st_create t s)"
    "marked (st_syncdl t s)" "marked (st_relock t flt s)" "marked (st_bgdl t n s)" "marked (st_bgdl3 t n s)"
    "marked (st_bglaunch t n s)" "marked (st_bgcreate t n s)" "marked (st_ret t n s)" "marked (st_chunk t c s)"
    "marked (st_fin t n s)" "marked (st_bg_done t flt n off s)" "marked (st_bg_remove t off s)"
    "marked (st_bg_post t s)" "marked (st_sync_done t flt n s)" for flt n c off
    by (auto simp: st_retry_def st_bgadd_def st_launch_def st_create_def st_syncdl_def st_relock_def st_bgdl_def
        st_bgdl3_def st_bglaunch_def st_bgcreate_def st_ret_def st_chunk_def st_fin_def st_bg_done_def
        st_bg_remove_def st_bg_post_def st_sync_done_def Let_def m intro!: marked_intros split: option.split)
  have 2: "marked (st_trysem t s)" "marked (st_bgdl2 t n s)" for n
    using sem by (auto simp: st_trysem_def st_bgdl2_def sem_trywait_def m intro!: marked_intros)
  have 3: "marked (st_attach t s)"
    by (auto simp: st_attach_def Let_def m intro!: marked_intros split: option.split)
  from step show ?thesis
    by (auto simp: step_thread_def Let_def 1 2 3 m marked_wait_check
        split: if_splits event.splits pc.splits kind.splits)
qed

lemma marked_reachable:
  assumes "dl_reachable s0 s" "marked s0"
  shows "marked s"
  using assms
proof (induction rule: dl_reachable.induct)
  case (dl_next s m s')
  show ?case
  proof (cases m)
    case (Read len off)
    with dl_next have "s' = start_read len off s" "marked s" by (simp_all add: dl_move_def)
    then show ?thesis by (simp add: start_read_def marked_def off_list_marked_def)
  next
    case (Step t ev)
    with dl_next marked_step show ?thesis by (auto simp: dl_move_def)
  qed
qed

lemma from_init:
  assumes "dl_reachable (dl_init cf lk fs) s" "fresh_cache cf"
  shows "cinv s" and "0 \<le> num_bg_workers cf \<Longrightarrow> marked s"
proof -
  show "cinv s" by (rule cinv_from_init [OF assms])
  assume "0 \<le> num_bg_workers cf"
  with assms(2) have "marked (dl_init cf lk fs)"
    by (simp add: marked_def off_list_marked_def dl_init_def fresh_cache_def)
  with assms(1) show "marked s" by (rule marked_reachable)
qed

lemma icnt_length: "icnt p xs = int (length (filter p xs))"
  by (simp add: icnt_def cnt_def)

lemma icnt_mono: "(\<And>x. p x \<Longrightarrow> q x) \<Longrightarrow> icnt p xs \<le> icnt q xs"
  by (induction xs) (auto simp: of_bool_def)

subsection \<open>A concrete run\<close>

lemma demo_reach:
  assumes "dl_run (take n demo_moves) demo_dl = Some s"
  shows "dl_reachable (dl_init demo_open demo_file [''d'' \<mapsto> [0, 0, 0, 0, 0]]) s"
  by (rule dl_run_reachable [OF dl_here assms [unfolded demo_dl_def]])

definition demo_state :: "nat \<Rightarrow> dl" where
  "demo_state n = (case dl_run (take n demo_moves) demo_dl of Some s \<Rightarrow> s | None \<Rightarrow> demo_dl)"

lemma demo_state_reach: "dl_reachable (dl_init demo_open demo_file [''d'' \<mapsto> [0, 0, 0, 0, 0]]) (demo_state n)"
proof (cases "dl_run (take n demo_moves) demo_dl")
  case None
  then show ?thesis by (simp add: demo_state_def demo_dl_def dl_here)
next
  case (Some s)
  then show ?thesis by (simp add: demo_state_def demo_reach)
qed

section \<open>Properties\<close>

text \<open>
  C4.  Memory safety of the shared download nodes: in every reachable state no freed
  \<open>ActiveDownload\<close> has been used, every listed node and every node that a waiting reader or a
  running transfer holds is allocated, and a node's pointer to a \<open>TransferStruct\<close> points into
  the stack of a thread that is still inside that transfer.
\<close>

theorem active_download_memory_safe:
  assumes "dl_reachable (dl_init cf lk fs) s" "fresh_cache cf"
  shows "\<not> bad s \<and> (\<forall>a \<in> set (active s). ads s a \<noteq> None) \<and>
    (\<forall>t < length (threads s). \<forall>a. pc (threads s ! t) = R_wait a \<or> tad (threads s ! t) = Some a \<longrightarrow> ads s a \<noteq> None) \<and>
    (\<forall>a A u. ads s a = Some A \<longrightarrow> ad_ts A = Some u \<longrightarrow> u < length (threads s) \<and> receiving (threads s ! u))"
proof -
  have c: "cinv s" by (rule from_init [OF assms])
  have "ads s a \<noteq> None" if "t < length (threads s)" "pc (threads s ! t) = R_wait a \<or> tad (threads s ! t) = Some a" for t a
    using ginv_live_ref [OF cinvD(1) [OF c, unfolded ainv_def] that(1), of a] that(2) by (simp add: refs_def)
  moreover have "\<forall>a \<in> set (active s). ads s a \<noteq> None" using cinvD(4) [OF c] by (auto simp: heap_ok_def)
  moreover have "\<not> bad s" using cinvD(1) [OF c] by (simp add: ainv_def ginv_def)
  moreover have "u < length (threads s) \<and> receiving (threads s ! u)" if "ads s a = Some A" "ad_ts A = Some u" for a A u
    using cinvD(3) [OF c] that unfolding ts_ok_def by blast
  ultimately show ?thesis by blast
qed

text \<open>
  C14.  Reference counts of the nodes are exact: the count of an allocated node is one for its
  place on the list plus one for each thread that holds it, and positive; a node that is not
  allocated is neither listed nor held.  So no node leaks and none is freed early.
\<close>

theorem active_download_refcounts_exact:
  assumes "dl_reachable (dl_init cf lk fs) s" "fresh_cache cf"
  shows "case ads s a of
      Some A \<Rightarrow> ad_refcount A = of_bool (a \<in> set (active s)) + int (length (filter (refs a) (threads s))) \<and>
        0 < ad_refcount A
    | None \<Rightarrow> a \<notin> set (active s) \<and> filter (refs a) (threads s) = []"
proof -
  have c: "cinv s" by (rule from_init [OF assms])
  then have "ref_eq (ads s a) (a \<in> set (active s)) (icnt (refs a) (threads s) + 0)"
    using ginvD(2) [OF cinvD(1) [OF c, unfolded ainv_def]] unfolding refs_ok_def by blast
  moreover have "ads s a = None \<Longrightarrow> a \<notin> set (active s)" using cinvD(4) [OF c] by (auto simp: heap_ok_def)
  ultimately show ?thesis by (cases "ads s a") (simp_all add: icnt_length)
qed

text \<open>
  C6.  One download per segment: two threads that are both downloading are downloading
  different segments, and each of the segments being downloaded has its entry on the list.
\<close>

theorem one_download_per_segment:
  assumes "dl_reachable (dl_init cf lk fs) s" "fresh_cache cf"
    and "i < length (threads s)" "in_download (pc (threads s ! i))"
  shows "(\<exists>a. ActiveDownload_find s (own_offset s (threads s ! i)) = Some a) \<and>
    (\<forall>j < length (threads s). in_download (pc (threads s ! j)) \<and>
       own_offset s (threads s ! j) = own_offset s (threads s ! i) \<longrightarrow> j = i)"
proof -
  have c: "cinv s" by (rule from_init [OF assms(1,2)])
  have own: "owned (blk s) (threads s ! j) = Some (own_offset s (threads s ! j))" if "in_download (pc (threads s ! j))" for j
    using that by (simp add: owned_def own_offset_def dl_offset_of_def split: kind.split)
  have "active_off s (own_offset s (threads s ! i))"
    by (rule owned_active [OF cinvD(1) [OF c, unfolded ainv_def] _ assms(3) own [OF assms(4)]]) simp
  then have "ActiveDownload_find s (own_offset s (threads s ! i)) \<noteq> None"
    using find_None [OF cinvD(4) [OF c]] by blast
  moreover have "j = i" if "j < length (threads s)" "in_download (pc (threads s ! j))"
    "own_offset s (threads s ! j) = own_offset s (threads s ! i)" for j
    by (rule unique_owner [OF cinvD(1) [OF c] that(1) assms(3)]) (use own assms(4) that in auto)
  ultimately show ?thesis by blast
qed

definition live_worker :: "thread \<Rightarrow> bool" where
  "live_worker th \<longleftrightarrow> (case kind th of Worker _ \<Rightarrow> pc th \<noteq> B_exit | Reader _ _ \<Rightarrow> False)"

text \<open>
  The semaphore bounds the background workers: its value is never negative, and together
  with the workers that have not exited it never exceeds \<open>num_bg_workers\<close>.
\<close>

theorem background_workers_bounded:
  assumes "dl_reachable (dl_init cf lk fs) s" "fresh_cache cf" "0 \<le> num_bg_workers cf"
  shows "0 \<le> bgt_sem (cache s) \<and>
    int (length (filter live_worker (threads s))) + bgt_sem (cache s) \<le> num_bg_workers (cache s)"
proof -
  have c: "cinv s" and m: "marked s" using from_init [OF assms(1,2)] assms(3) by blast+
  have "icnt live_worker (threads s) \<le> icnt units (threads s)"
    by (rule icnt_mono) (auto simp: live_worker_def units_def split: kind.splits)
  moreover have "bgt_sem (cache s) + icnt units (threads s) + 0 = num_bg_workers (cache s)"
    using cinvD(1) [OF c] by (simp add: ainv_def ginv_def)
  ultimately show ?thesis using m by (simp add: marked_def icnt_length)
qed

section \<open>Closing\<close>

text \<open>
  The first half of \<open>Cache_free\<close>: every download that is still listed is marked, its waiters are
  woken, and the reference of the list is dropped.
\<close>

fun free_downloads :: "nat list \<Rightarrow> dl \<Rightarrow> dl" where
  "free_downloads [] s = s"
| "free_downloads (a # as) s =
    free_downloads as
      (case ads s a of
         None \<Rightarrow> s\<lparr>bad := True\<rparr>
       | Some A \<Rightarrow> ActiveDownload_unref a (s\<lparr>ads := (ads s)(a \<mapsto> A\<lparr>ad_unlinked := True\<rparr>)\<rparr>))"

definition Cache_free_downloads :: "dl \<Rightarrow> dl" where
  "Cache_free_downloads s =
    free_downloads (active s) (s\<lparr>cache := (cache s)\<lparr>shutting_down := True\<rparr>, active := []\<rparr>)"

definition returned :: "thread \<Rightarrow> bool" where
  "returned th \<longleftrightarrow> (case kind th of
     Reader _ _ \<Rightarrow> (case pc th of Finished _ \<Rightarrow> True | _ \<Rightarrow> False)
   | Worker _ \<Rightarrow> True)"

definition ended :: "thread \<Rightarrow> bool" where
  "ended th \<longleftrightarrow> (case pc th of Finished _ \<Rightarrow> True | B_exit \<Rightarrow> True | _ \<Rightarrow> False)"

lemma ended_nothing:
  assumes "ended th" "valid th"
  shows "owned b th = None" "\<not> waits th" "\<not> refs a th" "\<not> holds_w th" "\<not> units th"
  using assms by (auto simp: ended_def valid_def sig_defs holds_w_def split: pc.splits kind.splits)

text \<open>When every thread has ended nothing is left over.\<close>

lemma all_ended:
  assumes c: "cinv s" and all: "\<And>th. th \<in> set (threads s) \<Longrightarrow> ended th"
  shows "active s = []" "ads s a = None" "waiters (cache s) = 0" "w_lock s = None"
    "bgt_sem (cache s) = num_bg_workers (cache s)"
proof -
  have v: "valid th" if "th \<in> set (threads s)" for th using c that by (simp add: cinv_def all_valid_def)
  have idle: "owned b th = None" "\<not> waits th" "\<not> refs a' th" "\<not> holds_w th" "\<not> units th"
    if "th \<in> set (threads s)" for th b a' using ended_nothing [OF all [OF that] v [OF that]] by blast+
  have g: "ginv (\<lambda>_. 0) (\<lambda>_. 0) 0 0 s" using cinvD(1) [OF c] by (simp add: ainv_def)
  have zero: "icnt p (threads s) = 0" if "\<And>th. th \<in> set (threads s) \<Longrightarrow> \<not> p th" for p
    using that by (simp add: icnt_zero)
  show act: "active s = []"
  proof (rule ccontr)
    assume "active s \<noteq> []"
    then have "active_off s (ad_off s (hd (active s)))" unfolding active_off_def by (intro bexI [of _ "hd (active s)"]) simp_all
    moreover have "icnt (\<lambda>th. owned (blk s) th = Some (ad_off s (hd (active s)))) (threads s) = 0"
      by (rule zero) (simp add: idle)
    ultimately show False using ginvD(3) [OF g] by (auto simp: owners_ok_def)
  qed
  show "ads s a = None"
  proof -
    have "icnt (refs a) (threads s) = 0" by (rule zero) (simp add: idle)
    then have "ref_eq (ads s a) (a \<in> set (active s)) 0" using ginvD(2) [OF g] unfolding refs_ok_def by (metis add_0)
    then show ?thesis using act by (cases "ads s a") auto
  qed
  show "waiters (cache s) = 0" using g zero [of waits] idle by (simp add: ginv_def)
  show "bgt_sem (cache s) = num_bg_workers (cache s)" using g zero [of units] idle by (simp add: ginv_def)
  show "w_lock s = None"
  proof (cases "w_lock s")
    case (Some t)
    then have "t < length (threads s)" "holds_w (threads s ! t)" using c unfolding cinv_def lock_ok_def by blast+
    with idle [of "threads s ! t"] show ?thesis by simp
  qed
qed

text \<open>
  C10.  \<open>Cache_close\<close> frees the cache only when nobody uses it: once the calls of \<open>Cache_read\<close>
  have returned and the loop over the semaphore has come through, every worker has exited, no
  node is listed or allocated, no waiter is counted and \<open>w_lock\<close> is free, so the loop of
  \<open>Cache_free\<close> over the active downloads finds nothing to drop.
\<close>

theorem Cache_close_after_drain:
  assumes "dl_reachable (dl_init cf lk fs) s" "fresh_cache cf" "0 < num_bg_workers (cache s)"
    and readers: "list_all returned (threads s)"
    and drain: "drain_bgt_sem (nat (num_bg_workers (cache s))) (bgt_sem (cache s)) = Some c"
  shows "list_all ended (threads s) \<and> active s = [] \<and> ads s a = None \<and> waiters (cache s) = 0 \<and> w_lock s = None \<and>
    Cache_free_downloads s = s\<lparr>cache := (cache s)\<lparr>shutting_down := True\<rparr>\<rparr>"
proof -
  have c: "cinv s" by (rule from_init [OF assms(1,2)])
  have "num_bg_workers (cache s) \<le> bgt_sem (cache s)"
    using drain assms(3) by (auto simp: drain_eq split: if_splits)
  moreover have "bgt_sem (cache s) + icnt units (threads s) + 0 = num_bg_workers (cache s)"
    using cinvD(1) [OF c] by (simp add: ainv_def ginv_def)
  ultimately have "icnt units (threads s) = 0" using icnt_nonneg [of units "threads s"] by linarith
  then have no: "\<not> units th" if "th \<in> set (threads s)" for th using that by (simp add: icnt_zero)
  have e: "ended th" if "th \<in> set (threads s)" for th
  proof -
    have "returned th" using readers that by (simp add: list_all_iff)
    with no [OF that] show ?thesis
      by (cases "kind th"; cases "pc th") (simp_all add: returned_def units_def ended_def)
  qed
  have "Cache_free_downloads s = s\<lparr>cache := (cache s)\<lparr>shutting_down := True\<rparr>\<rparr>"
    using all_ended(1) [OF c e] by (simp add: Cache_free_downloads_def)
  with all_ended [OF c e] e show ?thesis by (simp add: list_all_iff)
qed

text \<open>
  \<open>Cache_close\<close> does not hang on the semaphore: when every thread has ended, the loop takes
  all units and returns.
\<close>

theorem Cache_close_drain_returns:
  assumes "dl_reachable (dl_init cf lk fs) s" "fresh_cache cf" "0 \<le> num_bg_workers (cache s)"
    and "list_all ended (threads s)"
  shows "drain_bgt_sem (nat (num_bg_workers (cache s))) (bgt_sem (cache s)) = Some 0"
proof -
  have "bgt_sem (cache s) = num_bg_workers (cache s)"
    by (rule all_ended(5) [OF from_init(1) [OF assms(1,2)]]) (use assms(4) in \<open>simp add: list_all_iff\<close>)
  then show ?thesis using assms(3) by (simp add: drain_eq)
qed

section \<open>Progress\<close>

lemma retry_moves:
  assumes c: "cinv s" and at: "at t R_retry s"
  shows "pc (threads (st_retry t flt s) ! t) \<noteq> R_retry"
proof (rule reader_at [OF at])
  fix off len
  assume t: "kind (threads s ! t) = Reader off len" "t < length (threads s)"
    "pc (threads s ! t) = R_retry" "tad (threads s ! t) = None"
  let ?o = "dl_offset_of s (cur (threads s ! t))"
  have o: "dl_offset_of (lock_w t s) x = dl_offset_of s x" for x by (simp add: dl_offset_of_def)
  have find: "ActiveDownload_find (lock_w t s) x = ActiveDownload_find s x" for x
    by (simp add: ActiveDownload_find_def)
  show ?thesis
  proof (cases "ActiveDownload_find s ?o")
    case None
    then show ?thesis using t read_cached_threads [of t flt "lock_w t s"]
      by (auto simp: st_retry_def Let_def o find)
  next
    case (Some b)
    then obtain A where A: "ads s b = Some A" using find_Some by blast
    let ?s = "waiter_add 1 (ad_ref b (unlock_w (lock_w t s)))"
    have th: "threads ?s = threads s" by (simp add: ad_ref_def A)
    have A': "ads ?s b = Some (A\<lparr>ad_refcount := ad_refcount A + 1\<rparr>)" by (simp add: ad_ref_def A)
    have u: "u < length (threads ?s)" if "ad_ts (A\<lparr>ad_refcount := ad_refcount A + 1\<rparr>) = Some u" for u
      using that A cinvD(3) [OF c] unfolding th ts_ok_def by simp
    have "pc (threads (wait_check t b ?s) ! t) \<noteq> R_retry"
    proof (rule wait_check_cases [OF A' u])
      assume "wait_check t b ?s = goto_pc t (R_wait b) ?s"
      then show ?thesis using t(2) th by simp
    next
      fix x
      assume eq: "wait_check t b ?s = ActiveDownload_unref b (Cache_waiter_decrement (set_thread t x ?s))"
        and x: "leaves ?s t (A\<lparr>ad_refcount := ad_refcount A + 1\<rparr>) x"
      from x have "pc x \<noteq> R_retry" by (auto simp: leaves_def Let_def)
      then show ?thesis using t(2) th by (simp add: eq)
    qed
    with Some t read_cached_threads [of t flt "lock_w t s"] show ?thesis
      by (auto simp: st_retry_def Let_def o find)
  qed
qed simp_all

lemma step_moves_pc:
  assumes c: "cinv s" and t: "t < length (threads s)" "\<not> ended (threads s ! t)"
    and free: "needs_w (threads s ! t) \<Longrightarrow> w_lock s = None"
    and nw: "\<And>a A. pc (threads s ! t) = R_wait a \<Longrightarrow> ads s a = Some A \<Longrightarrow> ad_unlinked A"
  shows "\<exists>ev s'. step_thread t ev s = Some s' \<and> pc (threads s' ! t) \<noteq> pc (threads s ! t)"
proof (cases "pc (threads s ! t) = L_recv")
  case True
  let ?s = "goto_pc t (L_fin (Link_download_cleanup 206 0)) s"
  have "step_thread t (Complete 206 0) s = Some ?s" using t True by (simp add: step_thread_def needs_w_def)
  moreover have "pc (threads ?s ! t) \<noteq> L_recv" using t by simp
  ultimately show ?thesis using True by metis
next
  case False
  have at: "at t (pc (threads s ! t)) s" by (rule cinv_at [OF c t(1)])
  have "\<exists>s'. step_thread t (Go no_faults) s = Some s' \<and> pc (threads s' ! t) \<noteq> pc (threads s ! t)"
  proof (cases "pc (threads s ! t)")
    case R_retry
    with t free show ?thesis
      using retry_moves [OF c at [unfolded R_retry]] by (auto simp: step_thread_def needs_w_def)
  next
    case (R_wait a)
    then have "refs a (threads s ! t)" by (simp add: refs_def)
    with t(1) obtain A where A: "ads s a = Some A"
      using ginv_live_ref [OF cinvD(1) [OF c, unfolded ainv_def]] by blast
    with nw R_wait have "ad_unlinked A" by blast
    with A t R_wait show ?thesis
      by (auto simp: step_thread_def needs_w_def wait_check_def Let_def)
  next
    case R_relock
    with t free show ?thesis using read_cached_threads [of t no_faults "lock_w t s"]
      by (auto simp: step_thread_def needs_w_def st_relock_def Let_def)
  next
    case L_attach
    have "ads s a \<noteq> None" if "ActiveDownload_find s (own_offset s (threads s ! t)) = Some a" for a
      using find_Some [OF that] by auto
    with L_attach t(1) show ?thesis
      by (auto simp: step_thread_def needs_w_def st_attach_def ad_ref_def Let_def split: option.split)
  next
    case B_remove
    then show ?thesis using t at
      by (auto simp: step_thread_def needs_w_def at_def valid_def st_bg_remove_def split: kind.splits)
  next
    case (D_done r)
    then show ?thesis using t(1) free
      by (cases "kind (threads s ! t)")
        (simp_all add: step_thread_def needs_w_def st_sync_done_def st_bg_done_def Let_def)
  qed (use t free False in \<open>auto simp: step_thread_def needs_w_def ended_def st_trysem_def st_bgadd_def st_launch_def
      st_create_def nth_append st_syncdl_def st_fin_def st_bgdl_def st_bgdl2_def st_bgdl3_def
      st_bglaunch_def st_bgcreate_def st_ret_def st_bg_post_def Let_def split: prod.split option.split\<close>)
  then show ?thesis by blast
qed

lemma owner_can_move:
  assumes "owned b th \<noteq> None" "valid th"
  shows "\<not> ended th \<and> (\<forall>a. pc th \<noteq> R_wait a)"
  using assms by (auto simp: owned_def ended_def valid_def split: kind.splits pc.splits)


section \<open>The properties on the concrete run\<close>

lemma demo_pcs:
  "map (\<lambda>th. (kind th, pc th)) (threads (demo_state 10)) =
     [(Reader 1 2, R_wait 0), (Worker 0, L_recv), (Reader 0 3, R_wait 0)]"
  by code_simp

lemma demo_nth:
  "length (threads (demo_state 10)) = 3" "pc (threads (demo_state 10) ! 0) = R_wait 0"
  "pc (threads (demo_state 10) ! 1) = L_recv" "kind (threads (demo_state 10) ! 1) = Worker 0"
proof -
  have len: "length (threads (demo_state 10)) = 3" using arg_cong [OF demo_pcs, of length] by simp
  then show "length (threads (demo_state 10)) = 3" .
  show "pc (threads (demo_state 10) ! 0) = R_wait 0" "pc (threads (demo_state 10) ! 1) = L_recv"
    "kind (threads (demo_state 10) ! 1) = Worker 0"
    using arg_cong [OF demo_pcs, of "\<lambda>xs. xs ! 0"] arg_cong [OF demo_pcs, of "\<lambda>xs. xs ! 1"] len by simp_all
qed

lemma demo_end:
  "map (\<lambda>th. (kind th, pc th, out th)) (threads (demo_state 35)) =
     [(Reader 1 2, Finished 2, [2, 3]), (Worker 0, B_exit, []), (Reader 0 3, Finished 3, [1, 2, 3]),
      (Worker 4, B_exit, [])]"
  by code_simp

lemma demo_end_sem: "bgt_sem (cache (demo_state 35)) = 1 \<and> num_bg_workers (cache (demo_state 35)) = 1"
  by code_simp

lemma demo_end_ended: "list_all ended (threads (demo_state 35))"
  by code_simp

lemma demo_end_returned: "list_all returned (threads (demo_state 35))"
  by code_simp

theorem active_download_memory_safe_witness:
  "ads (demo_state 10) 0 \<noteq> None \<and> \<not> bad (demo_state 10)"
  using active_download_memory_safe [OF demo_state_reach demo_fresh, of 10] demo_nth(1,2)
  by (metis zero_less_numeral)

theorem active_download_refcounts_exact_witness:
  "\<exists>A. ads (demo_state 10) 0 = Some A \<and>
     ad_refcount A = of_bool (0 \<in> set (active (demo_state 10))) +
       int (length (filter (refs 0) (threads (demo_state 10))))"
proof (cases "ads (demo_state 10) 0")
  case None
  have "refs 0 (threads (demo_state 10) ! 0)" using demo_nth by (simp add: refs_def)
  moreover have "threads (demo_state 10) ! 0 \<in> set (threads (demo_state 10))" using demo_nth(1) by (intro nth_mem) simp
  ultimately show ?thesis
    using active_download_refcounts_exact [OF demo_state_reach demo_fresh, of 0 10] None
    by (auto simp: filter_empty_conv)
next
  case (Some A)
  then show ?thesis using active_download_refcounts_exact [OF demo_state_reach demo_fresh, of 0 10] by simp
qed

theorem one_download_per_segment_witness:
  "\<exists>a. ActiveDownload_find (demo_state 10) 0 = Some a"
  using one_download_per_segment [OF demo_state_reach demo_fresh, of 1 10] demo_nth by (simp add: own_offset_def)

theorem background_workers_bounded_witness:
  "int (length (filter live_worker (threads (demo_state 10)))) + bgt_sem (cache (demo_state 10)) \<le>
     num_bg_workers (cache (demo_state 10))"
  using background_workers_bounded [OF demo_state_reach demo_fresh, of 10] by (simp add: demo_open_def)

theorem Cache_close_after_drain_witness:
  "active (demo_state 35) = [] \<and> ads (demo_state 35) 0 = None \<and> waiters (cache (demo_state 35)) = 0"
  using Cache_close_after_drain [OF demo_state_reach demo_fresh _ demo_end_returned, of 0 0] demo_end_sem
  by (simp add: drain_eq)

theorem Cache_close_drain_returns_witness:
  "drain_bgt_sem (nat (num_bg_workers (cache (demo_state 35)))) (bgt_sem (cache (demo_state 35))) = Some 0"
  by (rule Cache_close_drain_returns [OF demo_state_reach demo_fresh _ demo_end_ended]) (simp add: demo_end_sem)


end
