(* ===== verification/CacheDlData.thy ===== *)
theory CacheDlData
  imports CacheDlProps
begin

text \<open>
  What the concurrent download delivers.  The server is honest when every byte it sends is a
  byte of the file and a transfer that it reports as successful has the length that libcurl
  counted.  Then a segment that is marked in the cache holds the bytes of the remote file, and
  every call of \<open>Cache_read\<close> that succeeds has returned bytes of the remote file.
\<close>

section \<open>Honest runs\<close>

definition received :: "thread \<Rightarrow> byte list" where
  "received th = (case tdata th of Some d \<Rightarrow> d | None \<Rightarrow> [])"

definition wanted :: "byte list \<Rightarrow> dl \<Rightarrow> thread \<Rightarrow> byte list" where
  "wanted R s th = slice (nat (own_offset s th)) (nat (req_size s (own_offset s th))) R"

definition part_of :: "byte list \<Rightarrow> byte list \<Rightarrow> bool" where
  "part_of xs ys \<longleftrightarrow> xs = take (length xs) ys"

text \<open>With \<open>full\<close> no read of the cache file comes back short.\<close>

definition honest_event :: "byte list \<Rightarrow> bool \<Rightarrow> nat \<Rightarrow> event \<Rightarrow> dl \<Rightarrow> bool" where
  "honest_event R full t ev s =
    (let th = threads s ! t in
     case ev of
       Go flt \<Rightarrow> full \<longrightarrow> f_read_rest flt = None
     | Chunk c \<Rightarrow> part_of (received th @ c) (wanted R s th)
     | Complete resp n \<Rightarrow> resp = 200 \<or> resp = 206 \<or> resp = 416 \<longrightarrow> n = int (length (received th)))"

definition honest_move :: "byte list \<Rightarrow> bool \<Rightarrow> move \<Rightarrow> dl \<Rightarrow> bool" where
  "honest_move R full m s = (case m of Read _ _ \<Rightarrow> True | Step t ev \<Rightarrow> honest_event R full t ev s)"

inductive dl_honest :: "byte list \<Rightarrow> bool \<Rightarrow> dl \<Rightarrow> dl \<Rightarrow> bool" for R full s0 where
  honest_here: "dl_honest R full s0 s0"
| honest_next: "dl_honest R full s0 s \<Longrightarrow> honest_move R full m s \<Longrightarrow> dl_move m s = Some s' \<Longrightarrow> dl_honest R full s0 s'"

text \<open>The cache file of a remote file \<open>R\<close>: large enough, and right wherever it is marked.\<close>

definition serves :: "byte list \<Rightarrow> Cache \<Rightarrow> Link \<Rightarrow> fs \<Rightarrow> bool" where
  "serves R cf lk f \<longleftrightarrow> content_length lk = length R \<and> length R < 2 ^ 63 \<and>
     0 < blksz cf \<and> blksz cf < 2 ^ 31 \<and> seg_wf cf \<and>
     (case dfp cf of
        None \<Rightarrow> False
      | Some fp \<Rightarrow> length R \<le> length (contents f fp) \<and>
          (\<forall>i < length R. Seg_exist cf (int i) \<noteq> 0 \<longrightarrow> contents f fp ! i = R ! i))"

section \<open>The invariant\<close>

definition sent_ok :: "byte list \<Rightarrow> bool \<Rightarrow> dl \<Rightarrow> thread \<Rightarrow> int \<Rightarrow> bool" where
  "sent_ok R full s th n \<longleftrightarrow> n < 0 \<or>
     (n \<le> seg_len s th \<and> seg_out th = slice (nat (cur th)) (nat n) R \<and> (full \<longrightarrow> n = seg_len s th))"

definition ahead :: "dl \<Rightarrow> thread \<Rightarrow> bool" where
  "ahead s th \<longleftrightarrow> dl_offset_of s (cur th) + blk s < flen s"

text \<open>Node \<open>a\<close> was made for offset \<open>off\<close>; its number is never used again.\<close>

definition made_for :: "nat \<Rightarrow> int \<Rightarrow> dl \<Rightarrow> bool" where
  "made_for a off s \<longleftrightarrow> a < next_ad s \<and> (\<forall>A. ads s a = Some A \<longrightarrow> ad_offset A = off)"

fun pc_ok :: "byte list \<Rightarrow> bool \<Rightarrow> dl \<Rightarrow> thread \<Rightarrow> pc \<Rightarrow> bool" where
  "pc_ok R full s th (R_bgdl n) = sent_ok R full s th n"
| "pc_ok R full s th (R_bgdl2 n) = (sent_ok R full s th n \<and> ahead s th)"
| "pc_ok R full s th (R_bgdl3 n) = (sent_ok R full s th n \<and> ahead s th)"
| "pc_ok R full s th (R_bglaunch n) = (sent_ok R full s th n \<and> ahead s th)"
| "pc_ok R full s th (R_bgcreate n) = (sent_ok R full s th n \<and> ahead s th)"
| "pc_ok R full s th (R_ret n) = sent_ok R full s th n"
| "pc_ok R full s th (R_wait a) = made_for a (dl_offset_of s (cur th)) s"
| "pc_ok R full s th L_recv = part_of (received th) (wanted R s th)"
| "pc_ok R full s th (L_fin n) = (part_of (received th) (wanted R s th) \<and>
     (0 \<le> n \<longrightarrow> n = int (length (received th))))"
| "pc_ok R full s th (D_done n) = (0 \<le> n \<longrightarrow> n = req_size s (own_offset s th) \<and> rbuf th = wanted R s th)"
| "pc_ok R full s th _ = True"

definition in_range :: "byte list \<Rightarrow> dl \<Rightarrow> int \<Rightarrow> int \<Rightarrow> thread \<Rightarrow> bool" where
  "in_range R s off len th \<longleftrightarrow> 0 \<le> off \<and> off \<le> cur th \<and> cur th < flen s \<and> 0 < rem th \<and>
     cur th + rem th = off + min len (flen s - off) \<and> sent th = cur th - off \<and>
     out th = slice (nat off) (nat (cur th - off)) R"

text \<open>How many bytes a call of \<open>Cache_read\<close> is to return.\<close>

definition read_size :: "dl \<Rightarrow> int \<Rightarrow> int \<Rightarrow> int" where
  "read_size s off len = (if 0 \<le> off \<and> off < flen s \<and> 0 < len then min len (flen s - off) else 0)"

definition finished_ok :: "byte list \<Rightarrow> bool \<Rightarrow> dl \<Rightarrow> int \<Rightarrow> int \<Rightarrow> byte list \<Rightarrow> int \<Rightarrow> bool" where
  "finished_ok R full s off len bytes n \<longleftrightarrow> n < 0 \<or>
     (n \<le> read_size s off len \<and> bytes = slice (nat off) (nat n) R \<and> (full \<longrightarrow> n = read_size s off len))"

definition tgood :: "byte list \<Rightarrow> bool \<Rightarrow> dl \<Rightarrow> thread \<Rightarrow> bool" where
  "tgood R full s th \<longleftrightarrow>
    (case kind th of
       Reader off len \<Rightarrow>
         (case pc th of
            Finished n \<Rightarrow> finished_ok R full s off len (out th) n
          | _ \<Rightarrow> in_range R s off len th \<and> pc_ok R full s th (pc th))
     | Worker off \<Rightarrow> 0 \<le> off \<and> off < flen s \<and> off mod blk s = 0 \<and> pc_ok R full s th (pc th))"

definition dinv :: "byte list \<Rightarrow> bool \<Rightarrow> dl \<Rightarrow> bool" where
  "dinv R full s \<longleftrightarrow> serves R (cache s) (lnk s) (fsys s) \<and> (\<forall>th \<in> set (threads s). tgood R full s th)"

subsection \<open>Numbers of nodes are not used again\<close>

lemma made_for_view:
  "ads s' = ads s \<Longrightarrow> next_ad s' = next_ad s \<Longrightarrow> made_for a off s' = made_for a off s"
  by (simp add: made_for_def)

lemma made_for_simps [simp]:
  "made_for a off (set_thread t th s) = made_for a off s" "made_for a off (goto_pc t p s) = made_for a off s"
  "made_for a off (lock_w t s) = made_for a off s" "made_for a off (unlock_w s) = made_for a off s"
  "made_for a off (waiter_add d s) = made_for a off s" "made_for a off (spawn_worker o' s) = made_for a off s"
  "made_for a off (Cache_waiter_decrement s) = made_for a off s" "made_for a off (post_sem s) = made_for a off s"
  "made_for a off (store_segment flt buf r o' s) = made_for a off s" "made_for a off (set_sem n s) = made_for a off s"
  "made_for a off (read_cached t flt s) = made_for a off s" "made_for a off (s\<lparr>bad := b\<rparr>) = made_for a off s"
  by (rule made_for_view; simp add: goto_pc_def waiter_add_def Cache_waiter_decrement_def store_segment_def
      spawn_worker_def set_sem_def post_sem_def read_cached_def Let_def split: prod.split)+

lemma made_for_add: "made_for a off s \<Longrightarrow> made_for a off (ActiveDownload_add o' s)"
  by (auto simp: made_for_def ActiveDownload_add_def Let_def)

lemma made_for_ref: "made_for a off s \<Longrightarrow> made_for a off (ad_ref b s)"
  by (auto simp: made_for_def ad_ref_def split: option.split)

lemma made_for_unref: "made_for a off s \<Longrightarrow> made_for a off (ActiveDownload_unref b s)"
  by (auto simp: made_for_def ActiveDownload_unref_def split: option.split)

lemma made_for_ts: "made_for a off s \<Longrightarrow> ads s b = Some A \<Longrightarrow> made_for a off (s\<lparr>ads := (ads s)(b \<mapsto> A\<lparr>ad_ts := x\<rparr>)\<rparr>)"
  by (auto simp: made_for_def)

lemma made_for_remove:
  assumes "made_for a off s"
  shows "made_for a off (ActiveDownload_remove o' s)"
proof (cases "ActiveDownload_find s o'")
  case None
  then show ?thesis using assms by (simp add: ActiveDownload_remove_def)
next
  case (Some b)
  then obtain A where A: "ads s b = Some A" using find_Some by blast
  have "made_for a off (s\<lparr>active := remove1 b (active s), ads := (ads s)(b \<mapsto> A\<lparr>ad_unlinked := True\<rparr>)\<rparr>)"
    using assms A by (auto simp: made_for_def)
  then show ?thesis using Some A by (simp add: ActiveDownload_remove_def made_for_unref)
qed

lemma made_for_drop: "made_for a off s \<Longrightarrow> made_for a off (drop_download o' s)"
  by (simp add: drop_download_def made_for_remove)

lemma made_for_wait_check: "made_for b off s \<Longrightarrow> made_for b off (wait_check t a s)"
  by (auto simp: wait_check_def Let_def intro: made_for_unref split: option.split)

lemma made_for_finish: "made_for a off s \<Longrightarrow> made_for a off (Link_download_finish_transfer t s)"
  by (auto simp: finish_transfer_eq clear_ts_def intro!: made_for_unref made_for_ts split: option.split)

lemmas made_for_intros = made_for_add made_for_ref made_for_unref made_for_ts made_for_drop
  made_for_wait_check made_for_finish

lemma made_for_step:
  assumes m: "made_for a off s" and step: "step_thread t ev s = Some s'"
  shows "made_for a off s'"
proof -
  have 1: "made_for a off (st_retry t flt s)" "made_for a off (st_bgadd t s)" "made_for a off (st_launch t s)"
    "made_for a off (st_create t s)" "made_for a off (st_syncdl t s)" "made_for a off (st_relock t flt s)"
    "made_for a off (st_bgdl t n s)" "made_for a off (st_bgdl3 t n s)" "made_for a off (st_bglaunch t n s)"
    "made_for a off (st_bgcreate t n s)" "made_for a off (st_ret t n s)" "made_for a off (st_chunk t c s)"
    "made_for a off (st_fin t n s)" "made_for a off (st_bg_done t flt n o' s)" "made_for a off (st_bg_remove t o' s)"
    "made_for a off (st_bg_post t s)" "made_for a off (st_sync_done t flt n s)" for flt n c o'
    by (auto simp: st_retry_def st_bgadd_def st_launch_def st_create_def st_syncdl_def st_relock_def st_bgdl_def
        st_bgdl3_def st_bglaunch_def st_bgcreate_def st_ret_def st_chunk_def st_fin_def st_bg_done_def
        st_bg_remove_def st_bg_post_def st_sync_done_def Let_def m intro!: made_for_intros split: option.split)
  have 2: "made_for a off (st_trysem t s)" "made_for a off (st_bgdl2 t n s)" for n
    by (auto simp: st_trysem_def st_bgdl2_def m split: prod.split)
  have 3: "made_for a off (st_attach t s)"
    by (auto simp: st_attach_def Let_def m intro!: made_for_intros split: option.split)
  from step show ?thesis
    by (auto simp: step_thread_def Let_def 1 2 3 m made_for_wait_check
        split: if_splits event.splits pc.splits kind.splits)
qed

section \<open>Arithmetic of segments\<close>

lemma servesD:
  assumes "serves R (cache s) (lnk s) (fsys s)"
  shows "0 < blk s" "blk s < 2 ^ 31" "flen s = int (length R)" "flen s < 2 ^ 63"
    "content_length (lnk s) = length R"
  using assms by (auto simp: serves_def blk_def flen_def split: option.splits)

lemma dl_offset_eq: "0 < blk s \<Longrightarrow> 0 \<le> i \<Longrightarrow> dl_offset_of s i = i div blk s * blk s"
  by (simp add: dl_offset_of_def c_div_nonneg)

lemma dl_offset_bounds:
  assumes "0 < blk s" "0 \<le> i"
  shows "0 \<le> dl_offset_of s i" "dl_offset_of s i \<le> i" "i < dl_offset_of s i + blk s" "dl_offset_of s i mod blk s = 0"
  using assms by (simp_all add: dl_offset_eq pos_imp_zdiv_nonneg_iff div_mult_le_self less_div_mult_add)

lemma seg_bounds:
  assumes "serves R (cache s) (lnk s) (fsys s)" "in_range R s off len th"
  shows "0 < seg_len s th" "seg_len s th \<le> rem th" "cur th + seg_len s th \<le> flen s"
    "cur th - dl_offset_of s (cur th) + seg_len s th \<le> blk s"
    "cur th - dl_offset_of s (cur th) + seg_len s th \<le> req_size s (dl_offset_of s (cur th))"
    "0 \<le> cur th" "dl_offset_of s (cur th) < flen s"
proof -
  note b = servesD [OF assms(1)]
  have c: "0 \<le> cur th" "cur th < flen s" "0 < rem th" "cur th + rem th \<le> flen s"
    using assms(2) by (auto simp: in_range_def)
  note o = dl_offset_bounds [OF b(1) c(1)]
  show "0 < seg_len s th" "seg_len s th \<le> rem th" "cur th + seg_len s th \<le> flen s"
    "cur th - dl_offset_of s (cur th) + seg_len s th \<le> blk s"
    "cur th - dl_offset_of s (cur th) + seg_len s th \<le> req_size s (dl_offset_of s (cur th))"
    "0 \<le> cur th" "dl_offset_of s (cur th) < flen s"
    using c o b(1) by (auto simp: seg_len_def seg_end_def req_size_def Let_def)
qed

lemma Seg_exist_same_segment:
  assumes "blk s = blksz (cache s)" "0 < blk s" "0 \<le> i" "dl_offset_of s i \<le> j" "j < dl_offset_of s i + blk s"
  shows "Seg_exist (cache s) j = Seg_exist (cache s) (dl_offset_of s i)"
proof -
  have "j div blk s = i div blk s"
    by (rule int_div_pos_eq [where r = "j - dl_offset_of s i"])
      (use assms dl_offset_eq [of s i] in \<open>simp_all add: mult.commute\<close>)
  then show ?thesis using assms dl_offset_bounds [of s i]
    by (simp add: Seg_exist_def Let_def c_div_nonneg dl_offset_eq)
qed

lemma slice_eqI:
  assumes "n + k \<le> length xs" "n + k \<le> length ys" "\<And>i. n \<le> i \<Longrightarrow> i < n + k \<Longrightarrow> xs ! i = ys ! i"
  shows "slice n k xs = slice n k ys"
  using assms by (intro nth_equalityI) auto

lemma slice_take: "k + n \<le> m \<Longrightarrow> slice k n (take m xs) = slice k n xs"
  by (simp add: slice_def drop_take min_def)

text \<open>A segment that is marked reads as the remote bytes.\<close>

lemma read_marked:
  assumes sv: "serves R (cache s) (lnk s) (fsys s)" and r: "in_range R s off len th"
    and e: "Seg_exist (cache s) (dl_offset_of s (cur th)) \<noteq> 0"
    and d: "Data_read (Some (lnk s)) flt (fsys s) (cache s) (seg_len s th) (cur th) = (n, bytes)"
    and full: "full \<longrightarrow> f_read_rest flt = None"
  shows "n < 0 \<or> (n \<le> seg_len s th \<and> bytes = slice (nat (cur th)) (nat n) R \<and> (full \<longrightarrow> n = seg_len s th))"
proof -
  note b = servesD [OF sv] and g = seg_bounds [OF sv r]
  obtain fp where fp: "dfp (cache s) = Some fp" "length R \<le> length (contents (fsys s) fp)"
    "\<And>i. i < length R \<Longrightarrow> Seg_exist (cache s) (int i) \<noteq> 0 \<Longrightarrow> contents (fsys s) fp ! i = R ! i"
    using sv by (auto simp: serves_def split: option.splits)
  let ?n = "nat (seg_len s th)" and ?c = "nat (cur th)"
  have lenR: "?c + ?n \<le> length R" using g(1,3,6) b(3) by linarith
  have eq: "slice ?c ?n (contents (fsys s) fp) = slice ?c ?n R"
  proof (rule slice_eqI)
    fix i
    assume i: "?c \<le> i" "i < ?c + ?n"
    have "Seg_exist (cache s) (int i) = Seg_exist (cache s) (dl_offset_of s (cur th))"
      by (rule Seg_exist_same_segment)
        (use i g dl_offset_bounds [OF b(1) g(6)] b(1) in \<open>auto simp: blk_def\<close>)
    with e fp(3) i lenR show "contents (fsys s) fp ! i = R ! i" by simp
  qed (use lenR fp(2) in simp_all)
  have off: "to_off (length R) = int (length R)" "to_size (int (length R)) = length R"
    using b by (simp_all add: to_off_small to_size_nonneg)
  have "f_seek flt \<or> (n = int (length bytes) \<and>
      bytes = (case f_read_rest flt of None \<Rightarrow> slice ?c ?n R | Some k \<Rightarrow> take k (slice ?c ?n R)))"
    using d g(1,3,6) b(3,5) fp(1) by (auto simp: Data_read_def Let_def off eq split: if_splits)
  moreover have "f_seek flt \<Longrightarrow> n < 0"
    using d g(1,3,6) b(3,5) by (auto simp: Data_read_def Let_def off split: if_splits)
  moreover have "length (slice ?c ?n R) = ?n" using lenR by simp
  moreover have "take k (slice ?c ?n R) = slice ?c (length (take k (slice ?c ?n R))) R" for k
    using lenR by (simp add: slice_def min_def)
  ultimately show ?thesis using full g(1)
    by (cases "f_seek flt"; cases "f_read_rest flt") auto
qed

text \<open>Storing remote bytes keeps the cache file right, also when the write stops early.\<close>

lemma serves_store:
  assumes sv: "serves R (cache s) (lnk s) (fsys s)" and off: "0 \<le> off" "off < flen s" "off mod blk s = 0"
    and buf: "buf = slice (nat off) (nat recv) R" "recv = req_size s off"
  shows "serves R (cache (store_segment flt buf recv off s)) (lnk (store_segment flt buf recv off s))
    (fsys (store_segment flt buf recv off s))"
proof -
  note b = servesD [OF sv]
  obtain fp where fp: "dfp (cache s) = Some fp" "length R \<le> length (contents (fsys s) fp)"
    "\<And>i. i < length R \<Longrightarrow> Seg_exist (cache s) (int i) \<noteq> 0 \<Longrightarrow> contents (fsys s) fp ! i = R ! i"
    using sv by (auto simp: serves_def split: option.splits)
  have wf: "seg_wf (cache s)" using sv by (simp add: serves_def)
  have recv: "0 < recv" "off + recv \<le> flen s" using off b(1) by (auto simp: buf(2) req_size_def)
  have lenb: "length buf = nat recv" using recv off b(3) by (auto simp: buf(1))
  obtain put n where w: "Data_write flt (fsys s) (cache s) buf recv off =
      (n, if put = [] then fsys s else (fsys s)(fp \<mapsto> overwrite 0 (nat off) put (contents (fsys s) fp)))"
    "\<exists>k. put = take k buf" "n = recv \<longrightarrow> put = buf"
  proof (cases "f_seek flt")
    case True
    then show ?thesis using recv off by (intro that [of "- EIO" "[]"]) (auto simp: Data_write_def intro: exI [of _ 0])
  next
    case False
    let ?put = "case f_write flt of None \<Rightarrow> take (nat recv) buf | Some k \<Rightarrow> take k (take (nat recv) buf)"
    have tk: "take (nat recv) buf = buf" using lenb by simp
    have p: "\<exists>k. ?put = take k buf" unfolding tk by (cases "f_write flt") (auto intro: exI [of _ "length buf"])
    have full: "int (length ?put) = recv \<longrightarrow> ?put = buf" using lenb recv(1) by (cases "f_write flt") (auto simp: tk)
    show ?thesis
      by (rule that [of "int (length ?put)" ?put, OF _ p full])
        (use False recv off fp(1) in \<open>simp add: Data_write_def Let_def\<close>)
  qed
  obtain k where k: "put = take k buf" using w(2) by blast
  let ?f = "if put = [] then fsys s else (fsys s)(fp \<mapsto> overwrite 0 (nat off) put (contents (fsys s) fp))"
  have st: "fsys (store_segment flt buf recv off s) = ?f"
    "cache (store_segment flt buf recv off s) = (if n = recv then Seg_set (cache s) off 1 else cache s)"
    by (simp_all add: store_segment_def w(1))
  have lenp: "length put \<le> nat recv" using lenb by (simp add: k)
  have inR: "nat off + length put \<le> length R" using lenp recv off b(3) by linarith
  have len: "length (contents ?f fp) = length (contents (fsys s) fp)"
    using inR fp(2) by simp
  have new: "contents ?f fp ! i = R ! i" if "nat off \<le> i" "i < nat off + length put" for i
  proof -
    have "i - nat off < length put" using that by linarith
    then have "put ! (i - nat off) = R ! i" using that inR by (auto simp: k buf(1) slice_def)
    then show ?thesis using that inR fp(2) by (auto simp: nth_overwrite)
  qed
  have old: "contents ?f fp ! i = contents (fsys s) fp ! i" if "\<not> (nat off \<le> i \<and> i < nat off + length put)" "i < length R" for i
    using that inR fp(2) by (auto simp: nth_overwrite)
  have right: "contents ?f fp ! i = R ! i" if i: "i < length R"
    and e: "Seg_exist (if n = recv then Seg_set (cache s) off 1 else cache s) (int i) \<noteq> 0" for i
  proof (cases "nat off \<le> i \<and> i < nat off + length put")
    case True
    then show ?thesis using new by blast
  next
    case out: False
    have "Seg_exist (cache s) (int i) \<noteq> 0"
    proof (rule ccontr)
      assume no: "\<not> Seg_exist (cache s) (int i) \<noteq> 0"
      with e have nr: "n = recv" by (auto split: if_splits)
      with e have "Seg_exist (Seg_set (cache s) off 1) (int i) \<noteq> 0" by simp
      then have "seg_of (cache s) off = seg_of (cache s) (int i)"
        using sm.mark_only [OF wf] no by blast
      then have "off div blk s = int i div blk s" using off b(1) by (simp add: seg_of_def blk_def c_div_nonneg)
      moreover have "off = off div blk s * blk s" using off(3) by (simp add: minus_mod_eq_div_mult [symmetric])
      ultimately have "off = dl_offset_of s (int i)" using b(1) by (simp add: dl_offset_eq)
      with dl_offset_bounds [of s "int i"] b(1) have "off \<le> int i" "int i < off + blk s" by simp_all
      moreover have "int i < flen s" using i b(3) by simp
      ultimately have "int i < off + recv" by (auto simp: buf(2) req_size_def)
      moreover have "length put = nat recv" using w(3) nr lenb by simp
      ultimately show False using out \<open>off \<le> int i\<close> off(1) by linarith
    qed
    with fp(3) [OF i] old [OF out i] show ?thesis by simp
  qed
  have meta: "seg_wf (if n = recv then Seg_set (cache s) off 1 else cache s)"
    "blksz (if n = recv then Seg_set (cache s) off 1 else cache s) = blksz (cache s)"
    "dfp (if n = recv then Seg_set (cache s) off 1 else cache s) = Some fp"
    using sm.wf_mark [OF wf, of off] wf fp(1) by (simp_all add: Seg_set_eq)
  show ?thesis using sv right len fp(2) wf sm.wf_mark [OF wf, of off] unfolding serves_def st store_simps meta by (simp add: serves_def)
qed

section \<open>Preservation\<close>

lemma upd_simps [simp]:
  "in_range R s off len (th\<lparr>pc := p\<rparr>) = in_range R s off len th"
  "in_range R s off len (th\<lparr>seg_out := b\<rparr>) = in_range R s off len th"
  "in_range R s off len (th\<lparr>rbuf := b\<rparr>) = in_range R s off len th"
  "in_range R s off len (th\<lparr>tdata := d\<rparr>) = in_range R s off len th"
  "in_range R s off len (th\<lparr>tad := a\<rparr>) = in_range R s off len th"
  "seg_len s (th\<lparr>pc := p\<rparr>) = seg_len s th" "seg_len s (th\<lparr>seg_out := b\<rparr>) = seg_len s th"
  "sent_ok R full s (th\<lparr>pc := p\<rparr>) n = sent_ok R full s th n"
  "ahead s (th\<lparr>pc := p\<rparr>) = ahead s th"
  "own_offset s (th\<lparr>pc := p\<rparr>) = own_offset s th" "own_offset s (th\<lparr>tdata := d\<rparr>) = own_offset s th"
  "own_offset s (th\<lparr>tad := a\<rparr>) = own_offset s th" "own_offset s (th\<lparr>rbuf := b\<rparr>) = own_offset s th"
  "wanted R s (th\<lparr>pc := p\<rparr>) = wanted R s th" "wanted R s (th\<lparr>tdata := d\<rparr>) = wanted R s th"
  "wanted R s (th\<lparr>tad := a\<rparr>) = wanted R s th" "wanted R s (th\<lparr>rbuf := b\<rparr>) = wanted R s th"
  "received (th\<lparr>pc := p\<rparr>) = received th" "received (th\<lparr>tad := a\<rparr>) = received th"
  "received (th\<lparr>rbuf := b\<rparr>) = received th"
  "received (th\<lparr>tdata := d\<rparr>) = (case d of Some x \<Rightarrow> x | None \<Rightarrow> [])"
  by (simp_all add: in_range_def seg_len_def sent_ok_def ahead_def own_offset_def wanted_def received_def split: kind.split)

lemma tgood_reader:
  assumes "kind x = Reader off len" "\<nexists>n. pc x = Finished n" "in_range R s off len x" "pc_ok R full s x (pc x)"
  shows "tgood R full s x"
  using assms by (cases "pc x") (simp_all add: tgood_def)

lemma readerD:
  assumes "tgood R full s x" "kind x = Reader off len" "\<nexists>n. pc x = Finished n"
  shows "in_range R s off len x" "pc_ok R full s x (pc x)"
  using assms by (cases "pc x"; simp add: tgood_def)+

lemma workerD:
  assumes "tgood R full s x" "kind x = Worker off"
  shows "0 \<le> off" "off < flen s" "off mod blk s = 0" "pc_ok R full s x (pc x)"
  using assms by (simp_all add: tgood_def)

lemma tgood_view:
  assumes b: "blk s' = blk s" "lnk s' = lnk s" and m: "\<And>a off. made_for a off s \<Longrightarrow> made_for a off s'"
    and g: "tgood R full s th"
  shows "tgood R full s' th"
proof -
  have f: "flen s' = flen s" "dl_offset_of s' i = dl_offset_of s i" for i
    using b by (simp_all add: flen_def dl_offset_of_def)
  have e: "seg_len s' th = seg_len s th" "own_offset s' th = own_offset s th" "req_size s' o' = req_size s o'"
    "ahead s' th = ahead s th" for o'
    using b by (simp_all add: f seg_len_def seg_end_def own_offset_def req_size_def ahead_def cong: kind.case_cong)
  have d: "in_range R s' off len th = in_range R s off len th" "sent_ok R full s' th n = sent_ok R full s th n"
    "wanted R s' th = wanted R s th" "finished_ok R full s' off len bs n = finished_ok R full s off len bs n" for off len n bs
    by (simp_all add: in_range_def sent_ok_def wanted_def finished_ok_def read_size_def e f)
  show ?thesis using g b(1) m
    by (cases "kind th"; cases "pc th") (simp_all add: tgood_def d e f)
qed

lemma dinv_move:
  assumes inv: "dinv R full s" and t: "t < length (threads s)" and th: "threads s' = (threads s)[t := x] @ ys"
    and sv: "serves R (cache s') (lnk s') (fsys s')" and b: "blk s' = blk s" "lnk s' = lnk s"
    and m: "\<And>a off. made_for a off s \<Longrightarrow> made_for a off s'"
    and x: "tgood R full s x" "\<And>y. y \<in> set ys \<Longrightarrow> tgood R full s y"
  shows "dinv R full s'"
proof -
  have "tgood R full s y" if "y \<in> set (threads s')" for y
    using that inv x set_update_subset_insert [of "threads s" t x] unfolding th dinv_def by auto
  then have "tgood R full s' y" if "y \<in> set (threads s')" for y
    using that by (blast intro: tgood_view [OF b m])
  with sv show ?thesis by (simp add: dinv_def)
qed

lemma serves_view:
  assumes "fsys s' = fsys s" "lnk s' = lnk s" "dfp (cache s') = dfp (cache s)" "seg (cache s') = seg (cache s)"
    "segbc (cache s') = segbc (cache s)" "blksz (cache s') = blksz (cache s)"
  shows "serves R (cache s') (lnk s') (fsys s') = serves R (cache s) (lnk s) (fsys s)"
proof -
  have "Seg_exist (cache s') i = Seg_exist (cache s) i" for i using assms by (simp add: Seg_exist_def Let_def)
  then show ?thesis using assms by (cases "dfp (cache s)") (simp_all add: serves_def seg_wf_def)
qed

text \<open>The parts of the state that the cache file consists of.\<close>

definition file_part :: "dl \<Rightarrow> fs \<times> Link \<times> cstr option \<times> byte list \<times> int \<times> int" where
  "file_part s = (fsys s, lnk s, dfp (cache s), seg (cache s), segbc (cache s), blksz (cache s))"

lemma file_part_simps [simp]:
  "file_part (set_thread t th s) = file_part s" "file_part (goto_pc t p s) = file_part s"
  "file_part (lock_w t s) = file_part s" "file_part (unlock_w s) = file_part s"
  "file_part (waiter_add d s) = file_part s" "file_part (Cache_waiter_decrement s) = file_part s"
  "file_part (post_sem s) = file_part s" "file_part (set_sem n s) = file_part s"
  "file_part (spawn_worker o' s) = file_part s" "file_part (ActiveDownload_add o' s) = file_part s"
  "file_part (ad_ref a s) = file_part s" "file_part (ActiveDownload_unref a s) = file_part s"
  "file_part (ActiveDownload_remove o' s) = file_part s" "file_part (read_cached t flt s) = file_part s"
  "file_part (s\<lparr>ads := h\<rparr>) = file_part s" "file_part (s\<lparr>bad := c\<rparr>) = file_part s"
  "file_part (Link_download_finish_transfer t s) = file_part s" "file_part (drop_download o' s) = file_part s"
  by (simp_all add: file_part_def goto_pc_def waiter_add_def Cache_waiter_decrement_def post_sem_def set_sem_def
      spawn_worker_def ActiveDownload_add_def ad_ref_def ActiveDownload_unref_def ActiveDownload_remove_def
      read_cached_def drop_download_def Let_def split: option.split prod.split)

lemma dinv_quiet:
  assumes inv: "dinv R full s" and step: "step_thread t ev s = Some s'" and th: "threads s' = (threads s)[t := x] @ ys"
    and v: "file_part s' = file_part s" and x: "tgood R full s x" "\<And>y. y \<in> set ys \<Longrightarrow> tgood R full s y"
  shows "dinv R full s'"
proof -
  have t: "t < length (threads s)" using step by (auto simp: step_thread_def split: if_splits)
  show ?thesis
  proof (rule dinv_move [OF inv t th _ _ _ made_for_step [OF _ step] x])
    show "serves R (cache s') (lnk s') (fsys s')"
      using inv serves_view [of s' s R] v by (simp add: file_part_def dinv_def)
    show "blk s' = blk s" "lnk s' = lnk s" using v by (simp_all add: file_part_def blk_def)
  qed
qed

subsection \<open>Steps that only move a reader\<close>

lemma dinv_goto:
  assumes inv: "dinv R full s" and step: "step_thread t ev s = Some s'" and t: "t < length (threads s)"
    and k: "kind (threads s ! t) = Reader off len" "\<nexists>n. pc (threads s ! t) = Finished n"
    and th: "threads s' = (threads s)[t := (threads s ! t)\<lparr>pc := q\<rparr>] @ ys" and v: "file_part s' = file_part s"
    and q: "\<nexists>n. q = Finished n" "pc_ok R full s ((threads s ! t)\<lparr>pc := q\<rparr>) q"
    and ys: "\<And>y. y \<in> set ys \<Longrightarrow> tgood R full s y"
  shows "dinv R full s'"
proof -
  have "tgood R full s (threads s ! t)" using inv t by (simp add: dinv_def)
  note r = readerD [OF this k]
  have "tgood R full s ((threads s ! t)\<lparr>pc := q\<rparr>)"
    by (rule tgood_reader [where off = off and len = len]) (use k q r in simp_all)
  then show ?thesis using ys by (intro dinv_quiet [OF inv step th v])
qed

lemma tgood_new_worker:
  assumes "0 \<le> o'" "o' < flen s" "o' mod blk s = 0"
  shows "tgood R full s (new_thread (Worker o') L_attach o' 0)"
  using assms by (simp add: tgood_def new_thread_def)

text \<open>What is known of a reader that is not finished.\<close>

lemma reader_facts:
  assumes inv: "dinv R full s" and t: "t < length (threads s)"
    and k: "kind (threads s ! t) = Reader off len" "\<nexists>n. pc (threads s ! t) = Finished n"
  shows "in_range R s off len (threads s ! t)" "pc_ok R full s (threads s ! t) (pc (threads s ! t))"
    "serves R (cache s) (lnk s) (fsys s)"
proof -
  have "tgood R full s (threads s ! t)" using inv t by (simp add: dinv_def)
  from readerD [OF this k] show "in_range R s off len (threads s ! t)" "pc_ok R full s (threads s ! t) (pc (threads s ! t))" .
  show "serves R (cache s) (lnk s) (fsys s)" using inv by (simp add: dinv_def)
qed

lemma dinv_simple_steps:
  assumes inv: "dinv R full s" and step: "step_thread t (Go flt) s = Some s'" and t: "t < length (threads s)"
    and k: "kind (threads s ! t) = Reader off len"
    and p: "pc (threads s ! t) \<in> {R_trysem, R_bgadd, R_launch, R_create, R_syncdl} \<or>
      (\<exists>n. pc (threads s ! t) \<in> {R_bgdl n, R_bgdl2 n, R_bgdl3 n, R_bglaunch n, R_bgcreate n})"
  shows "dinv R full s'"
proof -
  have nf: "\<nexists>n. pc (threads s ! t) = Finished n" using p by auto
  note r = reader_facts [OF inv t k nf]
  note b = servesD [OF r(3)] and g = seg_bounds [OF r(3,1)]
  note go = dinv_goto [OF inv step t k nf]
  from p show ?thesis
  proof (elim disjE exE)
    assume "pc (threads s ! t) \<in> {R_trysem, R_bgadd, R_launch, R_create, R_syncdl}"
    then show ?thesis
    proof (elim insertE emptyE)
      assume p: "pc (threads s ! t) = R_trysem"
      with step t have s': "s' = st_trysem t s" by (auto simp: step_thread_def Let_def split: if_splits)
      show ?thesis
        by (rule go [where ys = "[]" and q = "if 0 < bgt_sem (cache s) then R_bgadd else R_syncdl"])
          (simp_all add: s' st_trysem_def sem_trywait_def)
    next
      assume p: "pc (threads s ! t) = R_bgadd"
      with step t have s': "s' = st_bgadd t s" by (auto simp: step_thread_def Let_def split: if_splits)
      show ?thesis
        by (rule go [where ys = "[]" and q = "pc (threads s' ! t)"])
          (use t in \<open>simp_all add: s' st_bgadd_def Let_def split: option.split\<close>)
    next
      assume p: "pc (threads s ! t) = R_launch"
      with step t have s': "s' = st_launch t s" by (auto simp: step_thread_def Let_def split: if_splits)
      show ?thesis by (rule go [where ys = "[]" and q = R_create]) (simp_all add: s' st_launch_def)
    next
      assume p: "pc (threads s ! t) = R_create"
      with step t have s': "s' = st_create t s" by (auto simp: step_thread_def Let_def split: if_splits)
      let ?o = "dl_offset_of s (cur (threads s ! t))"
      have "tgood R full s (new_thread (Worker ?o) L_attach ?o 0)"
        by (rule tgood_new_worker) (use g(6,7) dl_offset_bounds [OF b(1) g(6)] in simp_all)
      then show ?thesis
        by (intro go [where ys = "[new_thread (Worker ?o) L_attach ?o 0]" and q = R_retry])
          (simp_all add: s' st_create_def)
    next
      assume p: "pc (threads s ! t) = R_syncdl"
      with step t have s': "s' = st_syncdl t s" by (auto simp: step_thread_def Let_def split: if_splits)
      show ?thesis
        by (rule go [where ys = "[]" and q = "pc (threads s' ! t)"])
          (use t in \<open>simp_all add: s' st_syncdl_def Let_def split: option.split\<close>)
    qed
  next
    fix n
    assume "pc (threads s ! t) \<in> {R_bgdl n, R_bgdl2 n, R_bgdl3 n, R_bglaunch n, R_bgcreate n}"
    then show ?thesis
    proof (elim insertE emptyE)
      assume p: "pc (threads s ! t) = R_bgdl n"
      with step t have s': "s' = st_bgdl t n s" by (auto simp: step_thread_def Let_def split: if_splits)
      show ?thesis
        by (rule go [where ys = "[]" and q = "pc (threads s' ! t)"])
          (use t p r(2) in \<open>simp_all add: s' st_bgdl_def next_offset_def ahead_def\<close>)
    next
      assume p: "pc (threads s ! t) = R_bgdl2 n"
      with step t have s': "s' = st_bgdl2 t n s" by (auto simp: step_thread_def Let_def split: if_splits)
      show ?thesis
        by (rule go [where ys = "[]" and q = "pc (threads s' ! t)"])
          (use t p r(2) in \<open>simp_all add: s' st_bgdl2_def sem_trywait_def\<close>)
    next
      assume p: "pc (threads s ! t) = R_bgdl3 n"
      with step t have s': "s' = st_bgdl3 t n s" by (auto simp: step_thread_def Let_def split: if_splits)
      show ?thesis
        by (rule go [where ys = "[]" and q = "pc (threads s' ! t)"])
          (use t p r(2) in \<open>simp_all add: s' st_bgdl3_def Let_def\<close>)
    next
      assume p: "pc (threads s ! t) = R_bglaunch n"
      with step t have s': "s' = st_bglaunch t n s" by (auto simp: step_thread_def Let_def split: if_splits)
      show ?thesis
        by (rule go [where ys = "[]" and q = "R_bgcreate n"]) (use t p r(2) in \<open>simp_all add: s' st_bglaunch_def\<close>)
    next
      assume p: "pc (threads s ! t) = R_bgcreate n"
      with step t have s': "s' = st_bgcreate t n s" by (auto simp: step_thread_def Let_def split: if_splits)
      let ?o = "next_offset s t"
      have "tgood R full s (new_thread (Worker ?o) L_attach ?o 0)"
        by (rule tgood_new_worker)
          (use r(2) p b(1) dl_offset_bounds [OF b(1) g(6)] in \<open>simp_all add: next_offset_def ahead_def\<close>)
      then show ?thesis
        by (intro go [where ys = "[new_thread (Worker ?o) L_attach ?o 0]" and q = "R_ret n"])
          (use p r(2) in \<open>simp_all add: s' st_bgcreate_def\<close>)
    qed
  qed
qed

subsection \<open>The end of a round of \<open>Cache_read\<close>\<close>

lemma dinv_ret:
  assumes inv: "dinv R full s" and step: "step_thread t (Go flt) s = Some s'" and t: "t < length (threads s)"
    and k: "kind (threads s ! t) = Reader off len" and p: "pc (threads s ! t) = R_ret n"
  shows "dinv R full s'"
proof -
  let ?th = "threads s ! t"
  have s': "s' = st_ret t n s" using step t p by (auto simp: step_thread_def Let_def split: if_splits)
  note r = reader_facts [OF inv t k, unfolded p, simplified]
  note b = servesD [OF r(3)] and g = seg_bounds [OF r(3,1)]
  have rng: "0 \<le> off" "off \<le> cur ?th" "cur ?th < flen s" "cur ?th + rem ?th = off + min len (flen s - off)"
    "sent ?th = cur ?th - off" "out ?th = slice (nat off) (nat (cur ?th - off)) R" "0 < rem ?th"
    using r(1) by (auto simp: in_range_def)
  have size: "read_size s off len = min len (flen s - off)" using rng by (auto simp: read_size_def)
  obtain x where x: "s' = set_thread t x s" "tgood R full s x"
  proof (cases "n < 0")
    case True
    then show ?thesis
      by (intro that [of "?th\<lparr>pc := Finished n\<rparr>"]) (simp_all add: s' st_ret_def tgood_def k finished_ok_def)
  next
    case False
    with r(2) have so: "n \<le> seg_len s ?th" "seg_out ?th = slice (nat (cur ?th)) (nat n) R"
      "full \<longrightarrow> n = seg_len s ?th" by (simp_all add: sent_ok_def)
    have app: "out ?th @ take (nat n) (seg_out ?th) = slice (nat off) (nat (cur ?th - off + n)) R"
    proof -
      have "take (nat n) (seg_out ?th) = slice (nat off + nat (cur ?th - off)) (nat n) R"
        using rng so by (simp add: slice_def nat_add_distrib [symmetric])
      moreover have "nat (cur ?th - off + n) = nat (cur ?th - off) + nat n"
        using rng False by (simp add: nat_add_distrib)
      ultimately show ?thesis using rng(6) slice_append [of "nat off" "nat (cur ?th - off)" R "nat n"] by simp
    qed
    let ?th1 = "?th\<lparr>sent := sent ?th + n, out := out ?th @ take (nat n) (seg_out ?th), seg_out := []\<rparr>"
    show ?thesis
    proof (cases "n < seg_len s ?th \<or> rem ?th - seg_len s ?th \<le> 0")
      case True
      show ?thesis
      proof (rule that [of "?th1\<lparr>pc := Finished (sent ?th1)\<rparr>"])
        show "s' = set_thread t (?th1\<lparr>pc := Finished (sent ?th1)\<rparr>) s"
          using False True by (simp add: s' st_ret_def Let_def)
        have "full \<longrightarrow> cur ?th - off + n = min len (flen s - off)" using so(3) True g(2) rng by auto
        moreover have "cur ?th - off + n \<le> min len (flen s - off)" using so(1) g(2) rng by linarith
        ultimately show "tgood R full s (?th1\<lparr>pc := Finished (sent ?th1)\<rparr>)"
          using rng(5) app by (simp add: tgood_def k finished_ok_def size)
      qed
    next
      case more: False
      let ?x = "?th1\<lparr>rem := rem ?th - seg_len s ?th, cur := cur ?th + seg_len s ?th, pc := R_retry\<rparr>"
      have n: "n = seg_len s ?th" using so(1) more by simp
      show ?thesis
      proof (rule that [of ?x])
        show "s' = set_thread t ?x s" using False more by (simp add: s' st_ret_def Let_def)
        have "in_range R s off len ?x"
          using rng app more g(1,3) by (auto simp: in_range_def n algebra_simps)
        then show "tgood R full s ?x" by (intro tgood_reader [where off = off and len = len]) (simp_all add: k)
      qed
    qed
  qed
  show ?thesis by (rule dinv_quiet [OF inv step, where ys = "[]" and x = x]) (simp_all add: x)
qed

subsection \<open>Cached segments and waiting\<close>

lemma read_cached_good:
  assumes sv: "serves R (cache s) (lnk s) (fsys s)" and r: "in_range R s off len (threads s ! t)"
    and e: "Seg_exist (cache s) (dl_offset_of s (cur (threads s ! t))) \<noteq> 0" and full: "full \<longrightarrow> f_read_rest flt = None"
    and k: "kind (threads s ! t) = Reader off len"
  obtains x where "threads (read_cached t flt s) = (threads s)[t := x]" "tgood R full s x"
proof -
  obtain n bytes where th: "threads (read_cached t flt s) =
      (threads s)[t := (threads s ! t)\<lparr>pc := R_bgdl n, seg_out := bytes\<rparr>]"
    and d: "Data_read (Some (lnk s)) flt (fsys s) (cache s) (seg_len s (threads s ! t)) (cur (threads s ! t)) = (n, bytes)"
    using read_cached_threads [of t flt s] by blast
  from read_marked [OF sv r e d full]
  have so: "sent_ok R full s ((threads s ! t)\<lparr>pc := R_bgdl n, seg_out := bytes\<rparr>) n"
    by (auto simp: sent_ok_def)
  have "tgood R full s ((threads s ! t)\<lparr>pc := R_bgdl n, seg_out := bytes\<rparr>)"
    by (rule tgood_reader [where off = off and len = len]) (use k r so in simp_all)
  with th show ?thesis by (rule that)
qed

lemma leaves_good:
  assumes inv: "dinv R full s" and c: "cinv s" and t: "t < length (threads s)"
    and k: "kind (threads s ! t) = Reader off len" "\<nexists>n. pc (threads s ! t) = Finished n"
    and A: "ads s a = Some A" "ad_offset A = dl_offset_of s (cur (threads s ! t))" and x: "leaves s t A x"
  shows "tgood R full s x"
proof -
  let ?th = "threads s ! t"
  note r = reader_facts [OF inv t k]
  note b = servesD [OF r(3)] and g = seg_bounds [OF r(3,1)]
  let ?o = "dl_offset_of s (cur ?th)"
  from x consider "x = ?th\<lparr>pc := R_relock\<rparr>" | "x = ?th\<lparr>pc := R_ret (- EIO)\<rparr>"
    | u d where "ad_ts A = Some u" "tdata (threads s ! u) = Some d" "to_size (cur ?th - ?o + seg_len s ?th) \<le> length d"
      "x = ?th\<lparr>pc := R_bgdl (seg_len s ?th), seg_out := slice (nat (cur ?th - ?o)) (nat (seg_len s ?th)) d\<rparr>"
    unfolding leaves_def Let_def by blast
  then show ?thesis
  proof cases
    case 1
    then show ?thesis using r k by (intro tgood_reader [where off = off and len = len]) simp_all
  next
    case 2
    then show ?thesis using r k by (intro tgood_reader [where off = off and len = len]) (simp_all add: sent_ok_def)
  next
    case 3
    have u: "u < length (threads s)" "receiving (threads s ! u)" "own_offset s (threads s ! u) = ?o"
      using cinvD(3) [OF c] A 3(1) unfolding ts_ok_def by auto
    have "tgood R full s (threads s ! u)" using inv u(1) by (simp add: dinv_def)
    then have "part_of (received (threads s ! u)) (wanted R s (threads s ! u))"
      using u(2) by (auto simp: tgood_def receiving_def split: kind.splits pc.splits)
    then have d: "d = take (length d) (slice (nat ?o) (nat (req_size s ?o)) R)"
      using 3(2) by (simp add: part_of_def received_def wanted_def u(3))
    let ?k = "nat (cur ?th - ?o)" and ?n = "nat (seg_len s ?th)"
    have o: "0 \<le> ?o" "?o \<le> cur ?th" using dl_offset_bounds [OF b(1) g(6)] by simp_all
    have len: "?k + ?n \<le> length d"
      using 3(3) o g(1,4) b(2) by (simp add: to_size_nonneg nat_add_distrib)
    have kn: "?k + ?n \<le> nat (req_size s ?o)" using g(1,5) o by linarith
    have "slice ?k ?n d = slice ?k ?n (take (length d) (slice (nat ?o) (nat (req_size s ?o)) R))" using d by simp
    also have "\<dots> = slice ?k ?n (slice (nat ?o) (nat (req_size s ?o)) R)"
      by (rule slice_take [OF len])
    also have "\<dots> = slice (nat ?o + ?k) ?n R" by (rule slice_slice [OF kn])
    also have "nat ?o + ?k = nat (cur ?th)" using o by linarith
    finally have "slice ?k ?n d = slice (nat (cur ?th)) ?n R" .
    then show ?thesis unfolding 3(4)
      by (intro tgood_reader [where off = off and len = len]) (use r k in \<open>simp_all add: sent_ok_def\<close>)
  qed
qed

text \<open>The loop body, entered from the program point before it or from itself.\<close>

lemma wait_check_good:
  assumes inv: "dinv R full s" and c: "cinv s" and t: "t < length (threads s)"
    and k: "kind (threads s ! t) = Reader off len" "\<nexists>n. pc (threads s ! t) = Finished n"
    and m: "made_for a (dl_offset_of s (cur (threads s ! t))) s" and A: "ads s a = Some A"
    and s1: "threads s1 = threads s" "blk s1 = blk s" "cache s1 = (cache s)\<lparr>waiters := w\<rparr>" "lnk s1 = lnk s"
      "ads s1 a = Some (A\<lparr>ad_refcount := rc\<rparr>)"
  obtains x where "threads (wait_check t a s1) = (threads s)[t := x]" "tgood R full s x"
proof -
  note r = reader_facts [OF inv t k]
  have u: "u < length (threads s1)" if "ad_ts (A\<lparr>ad_refcount := rc\<rparr>) = Some u" for u
    using that A cinvD(3) [OF c] unfolding s1 ts_ok_def by simp
  have off: "ad_offset A = dl_offset_of s (cur (threads s ! t))" using m A by (simp add: made_for_def)
  show ?thesis
  proof (rule wait_check_cases [OF s1(5) u])
    assume eq: "wait_check t a s1 = goto_pc t (R_wait a) s1"
    have "tgood R full s ((threads s ! t)\<lparr>pc := R_wait a\<rparr>)"
      by (rule tgood_reader [where off = off and len = len]) (use k r m in simp_all)
    then show ?thesis by (rule that [rotated]) (simp add: eq s1)
  next
    fix x
    assume eq: "wait_check t a s1 = ActiveDownload_unref a (Cache_waiter_decrement (set_thread t x s1))"
      and "leaves s1 t (A\<lparr>ad_refcount := rc\<rparr>) x"
    then have "leaves s t A x" using s1(2)
      by (simp add: leaves_def Let_def s1(1) dl_offset_of_def seg_len_def seg_end_def)
    with leaves_good [OF inv c t k A off] have "tgood R full s x" by blast
    then show ?thesis by (rule that [rotated]) (simp add: eq s1)
  qed
qed

lemma file_part_wait_check [simp]: "file_part (wait_check t a s) = file_part s"
  by (simp add: wait_check_def Let_def split: option.split)

lemma dinv_wait:
  assumes inv: "dinv R full s" and c: "cinv s" and step: "step_thread t (Go flt) s = Some s'" and t: "t < length (threads s)"
    and k: "kind (threads s ! t) = Reader off len" and p: "pc (threads s ! t) = R_wait a"
  shows "dinv R full s'"
proof -
  have s': "s' = wait_check t a s" using step t p by (auto simp: step_thread_def Let_def split: if_splits)
  note r = reader_facts [OF inv t k, unfolded p, simplified]
  have "refs a (threads s ! t)" using p by (simp add: refs_def)
  with t obtain A where A: "ads s a = Some A"
    using ginv_live_ref [OF cinvD(1) [OF c, unfolded ainv_def]] by blast
  obtain x where "threads (wait_check t a s) = (threads s)[t := x]" "tgood R full s x"
    by (rule wait_check_good [OF inv c t k _ _ A, where w = "waiters (cache s)" and rc = "ad_refcount A" and ?s1.0 = s])
      (use r(2) p A in simp_all)
  then show ?thesis by (intro dinv_quiet [OF inv step, where ys = "[]" and x = x]) (simp_all add: s')
qed

lemma dinv_retry:
  assumes inv: "dinv R full s" and c: "cinv s" and step: "step_thread t (Go flt) s = Some s'" and t: "t < length (threads s)"
    and k: "kind (threads s ! t) = Reader off len" and p: "pc (threads s ! t) = R_retry"
    and full: "full \<longrightarrow> f_read_rest flt = None"
  shows "dinv R full s'"
proof -
  have s': "s' = st_retry t flt s" using step t p by (auto simp: step_thread_def Let_def split: if_splits)
  have nf: "\<nexists>n. pc (threads s ! t) = Finished n" using p by simp
  note r = reader_facts [OF inv t k nf]
  let ?o = "dl_offset_of s (cur (threads s ! t))"
  have o: "dl_offset_of (lock_w t s) i = dl_offset_of s i" for i by (simp add: dl_offset_of_def)
  have find: "ActiveDownload_find (lock_w t s) i = ActiveDownload_find s i" for i by (simp add: ActiveDownload_find_def)
  have "\<exists>x. threads s' = (threads s)[t := x] \<and> tgood R full s x \<and> file_part s' = file_part s"
  proof (cases "Seg_exist (cache s) ?o \<noteq> 0")
    case True
    obtain x where "threads (read_cached t flt s) = (threads s)[t := x]" "tgood R full s x"
      by (rule read_cached_good [OF r(3,1) True full k])
    moreover have "threads (read_cached t flt (lock_w t s)) = threads (read_cached t flt s)"
      by (simp add: read_cached_def Let_def seg_len_def seg_end_def o blk_def split: prod.split)
    moreover have "s' = read_cached t flt (lock_w t s)" using True by (simp add: s' st_retry_def Let_def)
    ultimately show ?thesis by auto
  next
    case False
    show ?thesis
    proof (cases "ActiveDownload_find s ?o")
      case None
      with False have "s' = goto_pc t R_trysem (lock_w t s)" by (simp add: s' st_retry_def Let_def find)
      moreover have "tgood R full s ((threads s ! t)\<lparr>pc := R_trysem\<rparr>)"
        by (rule tgood_reader [where off = off and len = len]) (use k r in simp_all)
      ultimately show ?thesis by auto
    next
      case (Some a)
      then obtain A where A: "ads s a = Some A" "ad_offset A = ?o" using find_Some [OF Some] by blast
      then have m: "made_for a ?o s" using cinvD(4) [OF c] by (auto simp: made_for_def heap_ok_def)
      let ?s1 = "waiter_add 1 (ad_ref a (unlock_w (lock_w t s)))"
      have eq: "s' = wait_check t a ?s1" using False Some by (simp add: s' st_retry_def Let_def find)
      have s1: "threads ?s1 = threads s" "blk ?s1 = blk s" "cache ?s1 = (cache s)\<lparr>waiters := waiters (cache s) + 1\<rparr>"
        "lnk ?s1 = lnk s" "ads ?s1 a = Some (A\<lparr>ad_refcount := ad_refcount A + 1\<rparr>)"
        by (simp_all add: waiter_add_def ad_ref_def A blk_def)
      obtain x where "threads (wait_check t a ?s1) = (threads s)[t := x]" "tgood R full s x"
        by (rule wait_check_good [OF inv c t k nf m A(1) s1])
      then show ?thesis unfolding eq by auto
    qed
  qed
  then show ?thesis using dinv_quiet [OF inv step, where ys = "[]"] by auto
qed

lemma dinv_relock:
  assumes inv: "dinv R full s" and step: "step_thread t (Go flt) s = Some s'" and t: "t < length (threads s)"
    and k: "kind (threads s ! t) = Reader off len" and p: "pc (threads s ! t) = R_relock"
    and full: "full \<longrightarrow> f_read_rest flt = None"
  shows "dinv R full s'"
proof -
  have s': "s' = st_relock t flt s" using step t p by (auto simp: step_thread_def Let_def split: if_splits)
  have nf: "\<nexists>n. pc (threads s ! t) = Finished n" using p by simp
  note r = reader_facts [OF inv t k nf]
  have o: "dl_offset_of (lock_w t s) i = dl_offset_of s i" for i by (simp add: dl_offset_of_def)
  have "\<exists>x. threads s' = (threads s)[t := x] \<and> tgood R full s x \<and> file_part s' = file_part s"
  proof (cases "Seg_exist (cache s) (dl_offset_of s (cur (threads s ! t))) \<noteq> 0")
    case True
    obtain x where "threads (read_cached t flt s) = (threads s)[t := x]" "tgood R full s x"
      by (rule read_cached_good [OF r(3,1) True full k])
    moreover have "threads (read_cached t flt (lock_w t s)) = threads (read_cached t flt s)"
      by (simp add: read_cached_def Let_def seg_len_def seg_end_def o blk_def split: prod.split)
    moreover have "s' = read_cached t flt (lock_w t s)" using True by (simp add: s' st_relock_def Let_def)
    ultimately show ?thesis by auto
  next
    case False
    then have "s' = goto_pc t R_syncdl (lock_w t s)" by (simp add: s' st_relock_def Let_def)
    moreover have "tgood R full s ((threads s ! t)\<lparr>pc := R_syncdl\<rparr>)"
      by (rule tgood_reader [where off = off and len = len]) (use k r in simp_all)
    ultimately show ?thesis by auto
  qed
  then show ?thesis using dinv_quiet [OF inv step, where ys = "[]"] by auto
qed

subsection \<open>Downloads\<close>

lemma own_offset_good:
  assumes inv: "dinv R full s" and t: "t < length (threads s)" and d: "in_download (pc (threads s ! t))"
  shows "0 \<le> own_offset s (threads s ! t)" "own_offset s (threads s ! t) < flen s"
    "own_offset s (threads s ! t) mod blk s = 0"
proof -
  have sv: "serves R (cache s) (lnk s) (fsys s)" using inv by (simp add: dinv_def)
  note b = servesD [OF sv]
  have g: "tgood R full s (threads s ! t)" using inv t by (simp add: dinv_def)
  have nf: "\<nexists>n. pc (threads s ! t) = Finished n" using d by auto
  have "0 \<le> own_offset s (threads s ! t) \<and> own_offset s (threads s ! t) < flen s \<and>
    own_offset s (threads s ! t) mod blk s = 0"
  proof (cases "kind (threads s ! t)")
    case (Reader off len)
    note r = readerD [OF g Reader nf]
    show ?thesis using seg_bounds [OF sv r(1)] dl_offset_bounds [OF b(1)] Reader by (simp add: own_offset_def)
  next
    case (Worker off)
    with workerD [OF g Worker] show ?thesis by (simp add: own_offset_def)
  qed
  then show "0 \<le> own_offset s (threads s ! t)" "own_offset s (threads s ! t) < flen s"
    "own_offset s (threads s ! t) mod blk s = 0" by blast+
qed

lemma wanted_full:
  assumes "serves R (cache s) (lnk s) (fsys s)" "0 \<le> own_offset s th" "own_offset s th < flen s"
  shows "0 < req_size s (own_offset s th)" "length (wanted R s th) = nat (req_size s (own_offset s th))"
proof -
  note b = servesD [OF assms(1)]
  show "0 < req_size s (own_offset s th)" using assms(2,3) b(1) by (auto simp: req_size_def)
  then show "length (wanted R s th) = nat (req_size s (own_offset s th))"
    using assms(2,3) b(3) by (auto simp: wanted_def req_size_def)
qed

text \<open>A thread inside a download keeps its kind and position.\<close>

lemma tgood_download:
  assumes g: "tgood R full s th" and nf: "\<nexists>n. pc th = Finished n"
    and x: "kind x = kind th" "cur x = cur th" "rem x = rem th" "sent x = sent th" "out x = out th"
    and p: "in_download (pc x)" "pc_ok R full s x (pc x)"
  shows "tgood R full s x"
proof (cases "kind th")
  case (Reader off len)
  note r = readerD [OF g Reader nf]
  show ?thesis
    by (rule tgood_reader [where off = off and len = len])
      (use Reader r x p in \<open>auto simp: in_range_def\<close>)
next
  case (Worker off)
  with workerD [OF g Worker] x p show ?thesis by (simp add: tgood_def)
qed

lemma dinv_attach:
  assumes inv: "dinv R full s" and step: "step_thread t (Go flt) s = Some s'" and t: "t < length (threads s)"
    and p: "pc (threads s ! t) = L_attach"
  shows "dinv R full s'"
proof -
  have s': "s' = st_attach t s" using step t p by (auto simp: step_thread_def Let_def split: if_splits)
  have g: "tgood R full s (threads s ! t)" using inv t by (simp add: dinv_def)
  note o = own_offset_good [OF inv t, unfolded p, simplified]
  have sv: "serves R (cache s) (lnk s) (fsys s)" using inv by (simp add: dinv_def)
  note b = servesD [OF sv]
  have in_file: "\<not> (blk s = 0 \<or> flen s = 0 \<or> own_offset s (threads s ! t) < 0 \<or> own_offset s (threads s ! t) \<ge> flen s)"
    using o b(1) by auto
  have good: "tgood R full s ((threads s ! t)\<lparr>pc := L_recv, tdata := None, tad := a\<rparr>)" for a
    by (rule tgood_download [OF g]) (simp_all add: p part_of_def)
  have "\<exists>a. threads s' = (threads s)[t := (threads s ! t)\<lparr>pc := L_recv, tdata := None, tad := a\<rparr>] \<and> file_part s' = file_part s"
  proof (cases "ActiveDownload_find s (own_offset s (threads s ! t))")
    case None
    with in_file show ?thesis by (auto simp: s' st_attach_def Let_def)
  next
    case (Some a)
    then obtain A where "ads s a = Some A" using find_Some [OF Some] by blast
    with Some in_file show ?thesis by (intro exI [of _ "Some a"]) (auto simp: s' st_attach_def Let_def)
  qed
  then show ?thesis using dinv_quiet [OF inv step, where ys = "[]"] good by auto
qed

lemma dinv_chunk:
  assumes inv: "dinv R full s" and step: "step_thread t (Chunk c) s = Some s'" and t: "t < length (threads s)"
    and h: "honest_event R full t (Chunk c) s"
  shows "dinv R full s'"
proof -
  have p: "pc (threads s ! t) = L_recv" and s': "s' = st_chunk t c s"
    using step t by (auto simp: step_thread_def Let_def split: if_splits)
  have g: "tgood R full s (threads s ! t)" using inv t by (simp add: dinv_def)
  let ?x = "(threads s ! t)\<lparr>tdata := Some (received (threads s ! t) @ c)\<rparr>"
  have "tgood R full s ?x"
    by (rule tgood_download [OF g]) (use h p in \<open>simp_all add: honest_event_def Let_def\<close>)
  moreover have "threads s' = (threads s)[t := ?x] @ []" "file_part s' = file_part s"
    by (simp_all add: s' st_chunk_def Let_def received_def)
  ultimately show ?thesis by (intro dinv_quiet [OF inv step, where ys = "[]" and x = ?x]) simp_all
qed

lemma dinv_complete:
  assumes inv: "dinv R full s" and step: "step_thread t (Complete resp n) s = Some s'" and t: "t < length (threads s)"
    and h: "honest_event R full t (Complete resp n) s"
  shows "dinv R full s'"
proof -
  have p: "pc (threads s ! t) = L_recv" and s': "s' = goto_pc t (L_fin (Link_download_cleanup resp n)) s"
    using step t by (auto simp: step_thread_def Let_def split: if_splits)
  have g: "tgood R full s (threads s ! t)" using inv t by (simp add: dinv_def)
  have ok: "pc_ok R full s (threads s ! t) L_recv"
    using g p by (auto simp: tgood_def split: kind.splits)
  let ?x = "(threads s ! t)\<lparr>pc := L_fin (Link_download_cleanup resp n)\<rparr>"
  have "tgood R full s ?x"
    by (rule tgood_download [OF g]) (use h p ok in \<open>auto simp: honest_event_def Let_def Link_download_cleanup_def\<close>)
  then show ?thesis by (intro dinv_quiet [OF inv step, where ys = "[]" and x = ?x]) (simp_all add: s')
qed

lemma dinv_fin:
  assumes inv: "dinv R full s" and step: "step_thread t (Go flt) s = Some s'" and t: "t < length (threads s)"
    and p: "pc (threads s ! t) = L_fin n"
  shows "dinv R full s'"
proof -
  let ?th = "threads s ! t"
  have s': "s' = st_fin t n s" using step t p by (auto simp: step_thread_def Let_def split: if_splits)
  have g: "tgood R full s ?th" using inv t by (simp add: dinv_def)
  have sv: "serves R (cache s) (lnk s) (fsys s)" using inv by (simp add: dinv_def)
  have ok: "part_of (received ?th) (wanted R s ?th)" "0 \<le> n \<Longrightarrow> n = int (length (received ?th))"
    using g p by (auto simp: tgood_def split: kind.splits)
  note o = own_offset_good [OF inv t, unfolded p, simplified]
  note w = wanted_full [OF sv o(1,2)]
  let ?y = "?th\<lparr>tad := None, tdata := None\<rparr>"
  have "\<exists>x. threads s' = (threads s)[t := x] \<and> tgood R full s x"
  proof (cases "0 \<le> n \<and> n = req_size s (own_offset s ?th)")
    case True
    let ?x = "?y\<lparr>pc := D_done n, rbuf := take (nat n) (received ?th)\<rparr>"
    have "length (wanted R s ?th) = length (received ?th)" using ok(2) w True by simp
    then have "received ?th = wanted R s ?th" using ok(1) unfolding part_of_def by (metis order_refl take_all)
    moreover have "length (received ?th) = nat n" using ok(2) True by simp
    ultimately have "tgood R full s ?x"
      by (intro tgood_download [OF g]) (use p True in simp_all)
    moreover have "threads s' = (threads s)[t := ?x]"
      using True t by (simp add: s' st_fin_def Let_def received_def)
    ultimately show ?thesis by blast
  next
    case False
    have "tgood R full s (?y\<lparr>pc := L_attach\<rparr>)" by (rule tgood_download [OF g]) (use p in simp_all)
    moreover have "tgood R full s (?y\<lparr>pc := D_done n\<rparr>)" if "n < 0"
      by (rule tgood_download [OF g]) (use p that in simp_all)
    moreover have "threads s' = (threads s)[t := ?y\<lparr>pc := L_attach\<rparr>] \<or>
        n < 0 \<and> threads s' = (threads s)[t := ?y\<lparr>pc := D_done n\<rparr>]"
      using False t by (auto simp: s' st_fin_def Let_def)
    ultimately show ?thesis by blast
  qed
  moreover have "file_part s' = file_part s" by (simp add: s' st_fin_def Let_def)
  ultimately show ?thesis using dinv_quiet [OF inv step, where ys = "[]"] by auto
qed

text \<open>The end of a download, with the store.\<close>

lemma dinv_ending:
  assumes inv: "dinv R full s" and step: "step_thread t ev s = Some s'" and t: "t < length (threads s)"
    and d: "pc (threads s ! t) = D_done recv" "0 \<le> recv"
    and s1: "s1 = store_segment flt (rbuf (threads s ! t)) recv (own_offset s (threads s ! t)) s"
    and s': "threads s' = (threads s)[t := x]" "file_part s' = file_part s1" and x: "tgood R full s x"
  shows "dinv R full s'"
proof -
  note o = own_offset_good [OF inv t, unfolded d(1), simplified]
  have sv: "serves R (cache s) (lnk s) (fsys s)" using inv by (simp add: dinv_def)
  have "tgood R full s (threads s ! t)" using inv t by (simp add: dinv_def)
  then have ok: "recv = req_size s (own_offset s (threads s ! t))" "rbuf (threads s ! t) = wanted R s (threads s ! t)"
    using d by (auto simp: tgood_def split: kind.splits)
  then have "rbuf (threads s ! t) = slice (nat (own_offset s (threads s ! t))) (nat recv) R" by (simp add: wanted_def)
  from serves_store [OF sv o this ok(1)]
  have "serves R (cache s1) (lnk s1) (fsys s1)" by (simp add: s1)
  then have "serves R (cache s') (lnk s') (fsys s')"
    using serves_view [of s' s1 R] s'(2) by (simp add: file_part_def)
  moreover have "blk s' = blk s1" "lnk s' = lnk s1" using s'(2) by (simp_all add: file_part_def blk_def)
  then have "blk s' = blk s" "lnk s' = lnk s" by (simp_all add: s1)
  ultimately show ?thesis
    by (intro dinv_move [OF inv t, where x = x and ys = "[]"] made_for_step [OF _ step]) (use s' x in simp_all)
qed

lemma dinv_sync_done:
  assumes inv: "dinv R full s" and step: "step_thread t (Go flt) s = Some s'" and t: "t < length (threads s)"
    and k: "kind (threads s ! t) = Reader off len" and p: "pc (threads s ! t) = D_done recv"
  shows "dinv R full s'"
proof -
  let ?th = "threads s ! t"
  have s': "s' = st_sync_done t flt recv s" using step t p k by (auto simp: step_thread_def Let_def split: if_splits)
  note r = reader_facts [OF inv t k, unfolded p, simplified]
  note b = servesD [OF r(3)] and g = seg_bounds [OF r(3,1)]
  let ?o = "dl_offset_of s (cur ?th)"
  have own: "own_offset s ?th = ?o" using k by (simp add: own_offset_def)
  have o: "0 \<le> ?o" "?o \<le> cur ?th" using dl_offset_bounds [OF b(1) g(6)] by simp_all
  have ret: "tgood R full s (?th\<lparr>pc := R_ret n\<rparr>)" if "n < 0" for n
    by (rule tgood_reader [where off = off and len = len]) (use k r that in \<open>simp_all add: sent_ok_def\<close>)
  show ?thesis
  proof (cases "0 \<le> recv \<and> full_or_last s recv ?o \<and> \<not> recv < cur ?th - ?o + seg_len s ?th")
    case True
    with r(2) have ok: "recv = req_size s ?o" "rbuf ?th = wanted R s ?th" by (simp_all add: own)
    let ?k = "nat (cur ?th - ?o)" and ?n = "nat (seg_len s ?th)"
    let ?x = "?th\<lparr>pc := R_bgdl (seg_len s ?th), seg_out := slice ?k ?n (rbuf ?th)\<rparr>"
    have "slice ?k ?n (rbuf ?th) = slice (nat ?o + ?k) ?n R"
      unfolding ok(2) wanted_def own by (rule slice_slice) (use g(1,5) o in linarith)
    also have "nat ?o + ?k = nat (cur ?th)" using o by linarith
    finally have x: "tgood R full s ?x"
      by (intro tgood_reader [where off = off and len = len]) (use k r in \<open>simp_all add: sent_ok_def\<close>)
    let ?s1 = "store_segment flt (rbuf ?th) recv (own_offset s ?th) s"
    have "s' = drop_download ?o (set_thread t ?x ?s1)"
      using True g(4) o by (simp add: s' st_sync_done_def Let_def own)
    then show ?thesis by (intro dinv_ending [OF inv step t p _ refl _ _ x, where flt = flt]) (use True in simp_all)
  next
    case False
    then have "\<exists>n. n < 0 \<and> s' = drop_download ?o (goto_pc t (R_ret n) s)"
      by (cases "recv < 0") (auto simp: s' st_sync_done_def Let_def intro: exI [of _ "- EIO"])
    then obtain n where "n < 0" "s' = drop_download ?o (goto_pc t (R_ret n) s)" by blast
    then show ?thesis using dinv_quiet [OF inv step, where ys = "[]" and x = "?th\<lparr>pc := R_ret n\<rparr>"] ret by simp
  qed
qed

lemma dinv_bg_done:
  assumes inv: "dinv R full s" and step: "step_thread t (Go flt) s = Some s'" and t: "t < length (threads s)"
    and k: "kind (threads s ! t) = Worker off" and p: "pc (threads s ! t) = D_done recv"
  shows "dinv R full s'"
proof -
  let ?th = "threads s ! t"
  have s': "s' = st_bg_done t flt recv off s" using step t p k by (auto simp: step_thread_def Let_def split: if_splits)
  have g: "tgood R full s ?th" using inv t by (simp add: dinv_def)
  have x: "tgood R full s (?th\<lparr>pc := q\<rparr>)" if "q = B_post \<or> q = B_remove" for q
    using workerD [OF g k] k that by (auto simp: tgood_def)
  have own: "own_offset s ?th = off" using k by (simp add: own_offset_def)
  show ?thesis
  proof (cases "0 \<le> recv \<and> full_or_last s recv off")
    case True
    show ?thesis
      by (rule dinv_ending [OF inv step t p _ refl, where flt = flt and x = "?th\<lparr>pc := B_remove\<rparr>"])
        (use True x own in \<open>simp_all add: s' st_bg_done_def Let_def\<close>)
  next
    case False
    then have "\<exists>q. (q = B_post \<or> q = B_remove) \<and> threads s' = (threads s)[t := ?th\<lparr>pc := q\<rparr>] \<and> file_part s' = file_part s"
      by (cases "recv < 0") (auto simp: s' st_bg_done_def Let_def)
    then obtain q where "q = B_post \<or> q = B_remove" "threads s' = (threads s)[t := ?th\<lparr>pc := q\<rparr>]" "file_part s' = file_part s"
      by blast
    then show ?thesis using dinv_quiet [OF inv step, where ys = "[]" and x = "?th\<lparr>pc := q\<rparr>"] x by simp
  qed
qed

lemma dinv_bg_end:
  assumes inv: "dinv R full s" and step: "step_thread t (Go flt) s = Some s'" and t: "t < length (threads s)"
    and k: "kind (threads s ! t) = Worker off" and p: "pc (threads s ! t) = B_remove \<or> pc (threads s ! t) = B_post"
  shows "dinv R full s'"
proof -
  let ?th = "threads s ! t"
  have g: "tgood R full s ?th" using inv t by (simp add: dinv_def)
  have x: "tgood R full s (?th\<lparr>pc := q\<rparr>)" if "q = B_post \<or> q = B_exit" for q
    using workerD [OF g k] k that by (auto simp: tgood_def)
  have "\<exists>q. (q = B_post \<or> q = B_exit) \<and> threads s' = (threads s)[t := ?th\<lparr>pc := q\<rparr>] \<and> file_part s' = file_part s"
  proof (cases "pc (threads s ! t) = B_remove")
    case True
    with step t k have "s' = st_bg_remove t off s" by (auto simp: step_thread_def Let_def split: if_splits)
    then show ?thesis by (intro exI [of _ B_post]) (simp add: st_bg_remove_def)
  next
    case False
    with step t k p have "s' = st_bg_post t s" by (auto simp: step_thread_def Let_def split: if_splits)
    then show ?thesis by (intro exI [of _ B_exit]) (simp add: st_bg_post_def)
  qed
  then obtain q where "q = B_post \<or> q = B_exit" "threads s' = (threads s)[t := ?th\<lparr>pc := q\<rparr>]" "file_part s' = file_part s"
    by blast
  then show ?thesis using dinv_quiet [OF inv step, where ys = "[]" and x = "?th\<lparr>pc := q\<rparr>"] x by simp
qed

section \<open>What readers get\<close>

lemma dinv_step:
  assumes inv: "dinv R full s" and c: "cinv s" and step: "step_thread t ev s = Some s'"
    and h: "honest_event R full t ev s"
  shows "dinv R full s'"
proof -
  have t: "t < length (threads s)" using step by (auto simp: step_thread_def split: if_splits)
  have v: "valid (threads s ! t)" using c t by (simp add: cinv_def all_valid_def)
  show ?thesis
  proof (cases ev)
    case (Chunk b)
    then show ?thesis using dinv_chunk [OF inv _ t] step h by simp
  next
    case (Complete resp n)
    then show ?thesis using dinv_complete [OF inv _ t] step h by simp
  next
    case (Go flt)
    note st = step [unfolded Go]
    have full: "full \<longrightarrow> f_read_rest flt = None" using h Go by (simp add: honest_event_def)
    have no: "pc (threads s ! t) \<noteq> L_recv" using st t by (auto simp: step_thread_def Let_def split: if_splits)
    have live: "pc (threads s ! t) \<noteq> B_exit" "\<nexists>n. pc (threads s ! t) = Finished n"
      using st t by (auto simp: step_thread_def Let_def split: if_splits)
    show ?thesis
    proof (cases "kind (threads s ! t)")
      case k: (Reader off len)
      show ?thesis
      proof (cases "pc (threads s ! t)")
        case R_retry
        then show ?thesis by (rule dinv_retry [OF inv c st t k _ full])
      next
        case (R_wait a)
        then show ?thesis by (rule dinv_wait [OF inv c st t k])
      next
        case R_relock
        then show ?thesis by (rule dinv_relock [OF inv st t k _ full])
      next
        case L_attach
        then show ?thesis by (rule dinv_attach [OF inv st t])
      next
        case (L_fin n)
        then show ?thesis by (rule dinv_fin [OF inv st t])
      next
        case (D_done n)
        then show ?thesis by (rule dinv_sync_done [OF inv st t k])
      next
        case (R_ret n)
        then show ?thesis by (rule dinv_ret [OF inv st t k])
      qed (use dinv_simple_steps [OF inv st t k] no live v k in \<open>auto simp: valid_def\<close>)
    next
      case k: (Worker off)
      show ?thesis
      proof (cases "pc (threads s ! t)")
        case L_attach
        then show ?thesis by (rule dinv_attach [OF inv st t])
      next
        case (L_fin n)
        then show ?thesis by (rule dinv_fin [OF inv st t])
      next
        case (D_done n)
        then show ?thesis by (rule dinv_bg_done [OF inv st t k])
      next
        case B_remove
        then show ?thesis using dinv_bg_end [OF inv st t k] by simp
      next
        case B_post
        then show ?thesis using dinv_bg_end [OF inv st t k] by simp
      qed (use no live v k in \<open>auto simp: valid_def\<close>)
    qed
  qed
qed

lemma start_good: "serves R (cache s) (lnk s) (fsys s) \<Longrightarrow> tgood R full s (Cache_read_start len off s)"
  using servesD [of R s]
  by (auto simp: Cache_read_start_def new_thread_def tgood_def finished_ok_def read_size_def in_range_def
      slice_def Let_def)

lemma dinv_start:
  assumes "dinv R full s"
  shows "dinv R full (start_read len off s)"
proof -
  have e: "cache (start_read len off s) = cache s" "lnk (start_read len off s) = lnk s"
    "fsys (start_read len off s) = fsys s" "blk (start_read len off s) = blk s"
    by (simp_all add: start_read_def blk_def)
  have "tgood R full (start_read len off s) th" if "th \<in> set (threads (start_read len off s))" for th
  proof (rule tgood_view [OF e(4,2)])
    show "made_for a o' (start_read len off s)" if "made_for a o' s" for a o'
      using that by (simp add: made_for_def start_read_def)
    show "tgood R full s th"
      using that assms start_good [of R s full len off] by (auto simp: start_read_def dinv_def)
  qed
  with assms show ?thesis by (simp add: dinv_def e)
qed

lemma honest_reachable: "dl_honest R full s0 s \<Longrightarrow> dl_reachable s0 s"
  by (induction rule: dl_honest.induct) (auto intro: dl_here dl_next)

lemma dinv_honest:
  assumes "dl_honest R full s0 s" "cinv s0" "dinv R full s0"
  shows "dinv R full s"
  using assms
proof (induction rule: dl_honest.induct)
  case (honest_next s m s')
  have c: "cinv s" by (rule cinv_reachable [OF honest_reachable [OF honest_next.hyps(1)] honest_next.prems(1)])
  from honest_next dinv_step [OF _ c] dinv_start show ?case
    by (auto simp: dl_move_def honest_move_def split: move.splits)
qed

lemma dinv_from_init:
  assumes "dl_honest R full (dl_init cf lk f) s" "fresh_cache cf" "serves R cf lk f"
  shows "dinv R full s"
  by (rule dinv_honest [OF assms(1) cinv_init [OF assms(2)]])
    (use assms(3) in \<open>simp add: dinv_def dl_init_def\<close>)

lemma read_constants:
  assumes "dinv R full s"
  shows "read_size s off len = (if 0 \<le> off \<and> off < int (length R) \<and> 0 < len then min len (int (length R) - off) else 0)"
  using servesD(3) [of R s] assms by (simp add: dinv_def read_size_def)

lemma finished_read:
  assumes "dinv R full s" "t < length (threads s)" "kind (threads s ! t) = Reader off len"
    "pc (threads s ! t) = Finished n" "0 \<le> n"
  shows "out (threads s ! t) = slice (nat off) (nat n) R \<and>
    n \<le> (if 0 \<le> off \<and> off < int (length R) \<and> 0 < len then min len (int (length R) - off) else 0) \<and>
    (full \<longrightarrow> n = (if 0 \<le> off \<and> off < int (length R) \<and> 0 < len then min len (int (length R) - off) else 0))"
proof -
  have "tgood R full s (threads s ! t)" using assms(1,2) by (simp add: dinv_def)
  then have "finished_ok R full s off len (out (threads s ! t)) n" using assms(3,4) by (simp add: tgood_def)
  then show ?thesis using assms(5) by (simp add: finished_ok_def read_constants [OF assms(1)])
qed


text \<open>
  The permanent cache holds what it claims to hold.  In the same runs, at every moment, the
  bytes of every segment that is marked in the segment map are the bytes of the remote file,
  and the data file never becomes shorter than the remote file.
\<close>

theorem marked_segments_hold_remote_bytes:
  assumes "dl_honest R full (dl_init cf lk f) s" "fresh_cache cf" "serves R cf lk f"
    and "i < length R" "Seg_exist (cache s) (int i) \<noteq> 0"
  shows "\<exists>fp. dfp (cache s) = Some fp \<and> length R \<le> length (contents (fsys s) fp) \<and> contents (fsys s) fp ! i = R ! i"
proof -
  have "serves R (cache s) (lnk s) (fsys s)" using dinv_from_init [OF assms(1-3)] by (simp add: dinv_def)
  then show ?thesis using assms(4,5) by (auto simp: serves_def split: option.splits)
qed

definition error_page_moves :: "move list" where
  "error_page_moves =
    (let go = Go no_faults in
     [Read 2 1, Step 0 go, Step 0 go, Step 0 go, Step 0 go, Step 0 go, Step 1 go, Step 0 go,
      Step 1 (Chunk [78, 111, 116]), Step 0 go, Step 1 (Complete 404 3), Step 1 go, Step 1 go, Step 1 go,
      Step 0 go, Step 0 go, Step 0 go, Step 0 go, Step 0 go, Step 0 go])"

lemma error_page_run:
  "(case dl_run error_page_moves demo_dl of
      None \<Rightarrow> False
    | Some s \<Rightarrow> map (\<lambda>th. (kind th, pc th, out th)) (take 2 (threads s)) =
        [(Reader 1 2, Finished 2, [111, 116]), (Worker 0, B_exit, [])] \<and> Seg_exist (cache s) 0 = 0)"
  by code_simp


section \<open>The concrete run is honest\<close>

fun honest_run :: "byte list \<Rightarrow> bool \<Rightarrow> move list \<Rightarrow> dl \<Rightarrow> bool" where
  "honest_run R full [] s = True"
| "honest_run R full (m # ms) s =
    (honest_move R full m s \<and> (case dl_move m s of None \<Rightarrow> False | Some s' \<Rightarrow> honest_run R full ms s'))"

lemma honest_runI:
  "dl_honest R full s0 s \<Longrightarrow> honest_run R full ms s \<Longrightarrow> dl_run ms s = Some s' \<Longrightarrow> dl_honest R full s0 s'"
  by (induction ms arbitrary: s) (auto split: option.splits intro: honest_next)

lemma demo_honest_run: "honest_run [1, 2, 3, 4, 5] True demo_moves demo_dl"
  by code_simp

lemma demo_run_ends: "dl_run demo_moves demo_dl \<noteq> None"
  by code_simp

lemma demo_unmarked: "Seg_exist demo_open i = 0"
proof -
  have "k < 2 \<Longrightarrow> [0, 0 :: byte] ! k = 0" for k :: nat by (cases k) auto
  then show ?thesis by (auto simp: Seg_exist_def demo_open_def Let_def)
qed

lemma demo_serves: "serves [1, 2, 3, 4, 5] demo_open demo_file [''d'' \<mapsto> [0, 0, 0, 0, 0]]"
proof -
  have "dfp demo_open = Some ''d''" "blksz demo_open = 4" "seg_wf demo_open"
    by (simp_all add: demo_open_def seg_wf_def)
  then show ?thesis by (simp add: serves_def demo_unmarked demo_file_def contents_def)
qed

lemma demo_all: "take 35 demo_moves = demo_moves"
  by code_simp

lemma demo_honest: "dl_honest [1, 2, 3, 4, 5] True (dl_init demo_open demo_file [''d'' \<mapsto> [0, 0, 0, 0, 0]]) (demo_state 35)"
proof -
  obtain s where "dl_run demo_moves demo_dl = Some s" using demo_run_ends by blast
  then have "dl_honest [1, 2, 3, 4, 5] True demo_dl s" "demo_state 35 = s"
    by (auto simp: demo_state_def demo_all intro: honest_runI [OF honest_here demo_honest_run])
  then show ?thesis by (simp add: demo_dl_def)
qed

lemma demo_end_segments: "Seg_exist (cache (demo_state 35)) (int 4) \<noteq> 0"
  by code_simp


theorem marked_segments_hold_remote_bytes_witness:
  "\<exists>fp. dfp (cache (demo_state 35)) = Some fp \<and> contents (fsys (demo_state 35)) fp ! 4 = 5"
  using marked_segments_hold_remote_bytes [OF demo_honest demo_fresh demo_serves _ demo_end_segments] by auto

end
