(* ===== verification/CacheOpen.thy ===== *)
theory CacheOpen
  imports CacheFile LinkTreePath Url
begin

text \<open>
  \<open>src/cache.c\<close>, the life of a cache: the directories (\<open>CacheSystem_init\<close>), \<open>Cache_create\<close>,
  \<open>Cache_delete\<close>, \<open>Cache_open\<close> and \<open>Cache_close\<close>, over the heap of link tables, the heap of
  \<open>Cache\<close> structures and the file system.

  The operations run under \<open>cf_lock\<close>, one after the other.  A \<open>Cache *\<close> is a number, the key of
  the structure in the heap of caches; a freed one is not in the heap.  An outer \<open>None\<close> is an
  execution that does not come back with a result: the process exits (\<open>lprintf(fatal, ...)\<close>),
  a freed or null pointer is used, or the thread waits for another one.
\<close>

section \<open>State and environment\<close>

record cstate =
  tree :: lheap
  files :: fs
  caches :: "nat \<Rightarrow> Cache option"
  next_cache :: nat

text \<open>
  What the operations read and do not change: the configuration, the loader of link tables, the
  fuel of the tree operations, \<open>curl_easy_unescape\<close>, \<open>ROOT_LINK_TBL\<close>'s URL with its offset,
  and the two cache directories.
\<close>

record cache_env =
  e_cfg :: ConfigStruct
  e_load :: "Link \<Rightarrow> LinkTable option"
  e_fuel :: nat
  e_unescape :: "cstr \<Rightarrow> cstr option"
  e_root_url :: "cstr option"
  e_root_offset :: int
  e_dirs :: cache_dirs

text \<open>The places of an opening at which a call of the C library may fail, one record for each.\<close>

datatype call_site = S_exist | S_unlink_meta | S_unlink_data | S_meta_create | S_create_open | S_meta_write
  | S_data_create | S_created | S_meta_open | S_meta_read | S_data_size | S_data_open
  | S_undo_meta | S_undo_data

type_synonym site_faults = "call_site \<Rightarrow> faults"

definition find_link :: "cache_env \<Rightarrow> cstr \<Rightarrow> cstate \<Rightarrow> (linkptr option \<times> cstate) option" where
  "find_link e fn s =
    (case path_to_Link (mode (e_cfg e)) (e_load e) (e_fuel e) fn (tree s) of
       None \<Rightarrow> None
     | Some (r, h) \<Rightarrow> Some (r, s\<lparr>tree := h\<rparr>))"

text \<open>\<open>LinkTable_unref(link->parent_table)\<close>.\<close>

definition drop_link :: "cache_env \<Rightarrow> linkptr \<Rightarrow> cstate \<Rightarrow> cstate option" where
  "drop_link e l s =
    (case LinkTable_unref (e_fuel e) (Some (fst l)) (tree s) of
       None \<Rightarrow> None
     | Some h \<Rightarrow> Some (s\<lparr>tree := h\<rparr>))"

text \<open>Storing into \<open>link->cache_ptr\<close>.\<close>

definition set_cache_ptr :: "linkptr \<Rightarrow> nat option \<Rightarrow> lheap \<Rightarrow> lheap option" where
  "set_cache_ptr l c h =
    (case tables h (fst l) of
       None \<Rightarrow> None
     | Some t \<Rightarrow> if snd l < length (links t)
                 then Some (put (fst l) (t\<lparr>links := (links t)[snd l := (links t ! snd l)\<lparr>cache_ptr := c\<rparr>]\<rparr>) h)
                 else None)"

definition put_cache :: "nat \<Rightarrow> Cache \<Rightarrow> cstate \<Rightarrow> cstate" where
  "put_cache c cf s = s\<lparr>caches := (caches s)(c \<mapsto> cf)\<rparr>"

text \<open>\<open>Cache_alloc\<close>: a new structure, and its address.\<close>

definition Cache_new :: "cache_env \<Rightarrow> cstate \<Rightarrow> nat \<times> cstate" where
  "Cache_new e s =
    (next_cache s, put_cache (next_cache s) (Cache_alloc (e_cfg e)) (s\<lparr>next_cache := Suc (next_cache s)\<rparr>))"

text \<open>
  The second half of \<open>Cache_free\<close>: it waits until there are no more waiters and frees the
  structure.  The first half, the loop over the active downloads, is \<open>Cache_free_downloads\<close>; the
  list is empty at the call sites: in \<open>Cache_create\<close> and \<open>Cache_open\<close> the cache is new, in
  \<open>Cache_close\<close> the background workers have been waited for and there is no reader left.
\<close>

definition Cache_free :: "nat \<Rightarrow> cstate \<Rightarrow> cstate option" where
  "Cache_free c s =
    (case caches s c of
       None \<Rightarrow> None
     | Some cf \<Rightarrow> if waiters cf > 0 then None else Some (s\<lparr>caches := (caches s)(c := None)\<rparr>))"

section \<open>Deleting and creating the files\<close>

definition unlink_pair :: "cache_dirs \<Rightarrow> faults \<Rightarrow> faults \<Rightarrow> cstr \<Rightarrow> cstate \<Rightarrow> cstate" where
  "unlink_pair d fm fd fn s =
    (let fs1 = snd (unlink_file fm (files s) (path_append (META_DIR d) fn));
         fs2 = snd (unlink_file fd fs1 (path_append (DATA_DIR d) fn))
     in s\<lparr>files := fs2\<rparr>)"

definition Cache_delete :: "cache_env \<Rightarrow> faults \<Rightarrow> faults \<Rightarrow> cstr \<Rightarrow> cstate \<Rightarrow> cstate option" where
  "Cache_delete e fm fd fn s =
    (case find_link e fn s of
       None \<Rightarrow> None
     | Some (None, s1) \<Rightarrow>
         (if mode (e_cfg e) = SINGLE then Some (unlink_pair (e_dirs e) fm fd fn s1) else Some s1)
     | Some (Some l, s1) \<Rightarrow>
         (case get_link l (tree s1) of
            None \<Rightarrow> None
          | Some link \<Rightarrow>
              (case mode (e_cfg e) of
                 SONIC \<Rightarrow>
                   (case sonic_ident (sonic link) of
                      None \<Rightarrow> None
                    | Some ident \<Rightarrow> drop_link e l (unlink_pair (e_dirs e) fm fd ident s1))
               | NORMAL \<Rightarrow>
                   (case url_to_cache_path (e_unescape e) (e_root_url e) (e_root_offset e) (Some (f_url link)) of
                      None \<Rightarrow> drop_link e l s1
                    | Some cache_key \<Rightarrow> drop_link e l (unlink_pair (e_dirs e) fm fd cache_key s1))
               | SINGLE \<Rightarrow> drop_link e l (unlink_pair (e_dirs e) fm fd fn s1))))"

text \<open>The name of the two files that \<open>Cache_create\<close> makes for a link.\<close>

definition create_name :: "cache_env \<Rightarrow> Link \<Rightarrow> cstr option" where
  "create_name e link =
    (case mode (e_cfg e) of
       NORMAL \<Rightarrow> url_to_cache_path (e_unescape e) (e_root_url e) (e_root_offset e) (Some (f_url link))
     | SINGLE \<Rightarrow> e_unescape e (linkname link)
     | SONIC \<Rightarrow> sonic_ident (sonic link))"

text \<open>
  The middle of \<open>Cache_create\<close>, from \<open>Cache_alloc\<close> to \<open>Cache_exist\<close>.  When the metadata file
  cannot be opened, the code frees the cache and goes on to use it: that execution is None, and
  so is a block size that makes the division trap.
\<close>

definition create_files :: "cache_env \<Rightarrow> site_faults \<Rightarrow> cstr \<Rightarrow> linkptr \<Rightarrow> Link \<Rightarrow> cstate \<Rightarrow> (int \<times> cstate) option" where
  "create_files e flt fn l link s =
    (case Cache_new e s of
      (c, s1) \<Rightarrow>
       (let bs = data_blksz (e_cfg e);
            n = create_segbc (content_length link) bs;
            cf = (Cache_alloc (e_cfg e))\<lparr>cpath := strndup fn PATH_MAX, clink := Some l, blksz := bs,
                    segbc := n, seg := replicate (nat n) 0\<rparr>
        in if to_size bs = 0 then None
           else (case Meta_create (e_dirs e) (flt S_meta_create) (files s1) cf of
              None \<Rightarrow> None
            | Some fs1 \<Rightarrow>
                (case Meta_open (e_dirs e) (flt S_create_open) fs1 cf of
                  (r, cf1) \<Rightarrow>
                   if r \<noteq> 0 then None
                   else (let fs2 = snd (Meta_write (Some link) (flt S_meta_write) fs1 cf1)
                         in case Data_create (e_dirs e) (Some link) (flt S_data_create) fs2 cf1 of
                              None \<Rightarrow> None
                            | Some fs3 \<Rightarrow>
                                (case Cache_free c (put_cache c cf1 (s1\<lparr>files := fs3\<rparr>)) of
                                   None \<Rightarrow> None
                                 | Some s2 \<Rightarrow>
                                     (case Cache_exist (e_dirs e) (flt S_created) (files s2) fn of
                                        None \<Rightarrow> None
                                      | Some (res, fs4) \<Rightarrow>
                                          if res \<noteq> 0 then None else Some (res, s2\<lparr>files := fs4\<rparr>))))))))"

definition Cache_create :: "cache_env \<Rightarrow> site_faults \<Rightarrow> cstr \<Rightarrow> cstate \<Rightarrow> (int \<times> cstate) option" where
  "Cache_create e flt path s =
    (case find_link e path s of
       None \<Rightarrow> None
     | Some (None, s1) \<Rightarrow> Some (1, s1)
     | Some (Some l, s1) \<Rightarrow>
         (case get_link l (tree s1) of
            None \<Rightarrow> None
          | Some link \<Rightarrow>
              if content_length link = 0 then map_option (\<lambda>s2. (1, s2)) (drop_link e l s1)
              else (case create_name e link of
                      None \<Rightarrow> map_option (\<lambda>s2. (1, s2)) (drop_link e l s1)
                    | Some fn \<Rightarrow>
                        (case create_files e flt fn l link s1 of
                           None \<Rightarrow> None
                         | Some (res, s2) \<Rightarrow> map_option (\<lambda>s3. (res, s3)) (drop_link e l s2)))))"

section \<open>Opening\<close>

text \<open>\<open>actual_fn\<close>: a null Sonic id would be used as a string; a failing key makes the opening fail.\<close>

definition open_name :: "cache_env \<Rightarrow> cstr \<Rightarrow> Link \<Rightarrow> cstr option option" where
  "open_name e fn link =
    (case mode (e_cfg e) of
       SONIC \<Rightarrow> map_option Some (sonic_ident (sonic link))
     | NORMAL \<Rightarrow> Some (url_to_cache_path (e_unescape e) (e_root_url e) (e_root_offset e) (Some (f_url link)))
     | SINGLE \<Rightarrow> Some (Some fn))"

text \<open>The checks on one pair of files, with \<open>ok\<close> and the cache they leave.\<close>

definition open_checks :: "cache_env \<Rightarrow> site_faults \<Rightarrow> cstr \<Rightarrow> Link \<Rightarrow> fs \<Rightarrow> Cache \<Rightarrow> bool \<times> Cache" where
  "open_checks e flt actual_fn link fs cf =
    (case Meta_open (e_dirs e) (flt S_meta_open) fs cf of
      (r1, cf1) \<Rightarrow>
       if r1 \<noteq> 0 then (False, cf1)
       else (case Meta_read (Some link) (flt S_meta_read) fs cf1 of
         (r2, cf2) \<Rightarrow>
          if r2 \<noteq> 0 then (False, cf2)
          else (let d_size = Data_size (e_dirs e) (flt S_data_size) fs actual_fn
                in if d_size < 0 then (False, cf2)
                   else if content_length link > nat d_size then (False, cf2)
                   else (case Data_open (e_dirs e) (flt S_data_open) fs cf2 of
                           (r3, cf3) \<Rightarrow> (r3 = 0, cf3)))))"

text \<open>
  One round of the loop: None in the first component means that this round has not opened the
  cache and the next one follows.  The files are closed and the cache freed before the retry.
\<close>

definition open_attempt ::
    "cache_env \<Rightarrow> site_faults \<Rightarrow> cstr \<Rightarrow> cstr \<Rightarrow> linkptr \<Rightarrow> cstate \<Rightarrow> (nat option option \<times> cstate) option" where
  "open_attempt e flt fn actual_fn l s =
    (case Cache_exist (e_dirs e) (flt S_exist) (files s) actual_fn of
       None \<Rightarrow> None
     | Some (missing, fs1) \<Rightarrow>
         (case (if missing \<noteq> 0 then
                  (case Cache_delete e (flt S_unlink_meta) (flt S_unlink_data) fn (s\<lparr>files := fs1\<rparr>) of
                     None \<Rightarrow> None
                   | Some s1 \<Rightarrow> Cache_create e flt fn s1)
                else Some (0, s\<lparr>files := fs1\<rparr>)) of
            None \<Rightarrow> None
          | Some (r, s2) \<Rightarrow>
              if r \<noteq> 0 then map_option (\<lambda>s3. (Some None, s3)) (drop_link e l s2)
              else (case Cache_new e s2 of
                (c, s3) \<Rightarrow>
                 (case get_link l (tree s3) of
                    None \<Rightarrow> None
                  | Some link \<Rightarrow>
                      (let cf = (Cache_alloc (e_cfg e))\<lparr>cpath := strndup actual_fn PATH_MAX, clink := Some l\<rparr>
                       in case open_checks e flt actual_fn link (files s3) cf of
                         (ok, cf1) \<Rightarrow>
                          if ok then
                            (case set_cache_ptr l (Some c) (tree s3) of
                               None \<Rightarrow> None
                             | Some h \<Rightarrow> Some (Some (Some c), put_cache c cf1 (s3\<lparr>tree := h\<rparr>)))
                          else
                            (case Cache_free c (put_cache c cf1 s3) of
                               None \<Rightarrow> None
                             | Some s4 \<Rightarrow>
                                 map_option (\<lambda>s5. (None, s5))
                                   (Cache_delete e (flt S_undo_meta) (flt S_undo_data) fn s4)))))))"

fun open_attempts ::
    "cache_env \<Rightarrow> (nat \<Rightarrow> site_faults) \<Rightarrow> cstr \<Rightarrow> cstr \<Rightarrow> linkptr \<Rightarrow> nat \<Rightarrow> cstate \<Rightarrow> (nat option \<times> cstate) option" where
  "open_attempts e flt fn actual_fn l 0 s = map_option (\<lambda>s1. (None, s1)) (drop_link e l s)"
| "open_attempts e flt fn actual_fn l (Suc n) s =
    (case open_attempt e (flt n) fn actual_fn l s of
       None \<Rightarrow> None
     | Some (Some result, s1) \<Rightarrow> Some (result, s1)
     | Some (None, s1) \<Rightarrow> open_attempts e flt fn actual_fn l n s1)"

text \<open>
  \<open>Cache_open\<close>.  For a link that is open already the result is read from the link after the
  reference on its table was dropped.
\<close>

definition Cache_open :: "cache_env \<Rightarrow> (nat \<Rightarrow> site_faults) \<Rightarrow> cstr \<Rightarrow> cstate \<Rightarrow> (nat option \<times> cstate) option" where
  "Cache_open e flt fn s =
    (case find_link e fn s of
       None \<Rightarrow> None
     | Some (None, s1) \<Rightarrow> Some (None, s1)
     | Some (Some l, s1) \<Rightarrow>
         (case get_link l (tree s1) of
            None \<Rightarrow> None
          | Some link \<Rightarrow>
              (case cache_ptr link of
                 Some c \<Rightarrow>
                   (case caches s1 c of
                      None \<Rightarrow> None
                    | Some cf \<Rightarrow>
                        (case drop_link e l (put_cache c (cf\<lparr>cache_opened := cache_opened cf + 1\<rparr>) s1) of
                           None \<Rightarrow> None
                         | Some s2 \<Rightarrow>
                             (case get_link l (tree s2) of
                                None \<Rightarrow> None
                              | Some link' \<Rightarrow> Some (cache_ptr link', s2))))
               | None \<Rightarrow>
                   (case open_name e fn link of
                      None \<Rightarrow> None
                    | Some None \<Rightarrow> map_option (\<lambda>s2. (None, s2)) (drop_link e l s1)
                    | Some (Some actual_fn) \<Rightarrow>
                        if content_length link = 0 then map_option (\<lambda>s2. (None, s2)) (drop_link e l s1)
                        else open_attempts e flt fn actual_fn l 2 s1))))"

section \<open>Closing\<close>

definition Cache_close :: "cache_env \<Rightarrow> faults \<Rightarrow> nat \<Rightarrow> cstate \<Rightarrow> cstate option" where
  "Cache_close e flt c s =
    (case caches s c of
       None \<Rightarrow> None
     | Some cf0 \<Rightarrow>
         (let cf = cf0\<lparr>cache_opened := cache_opened cf0 - 1\<rparr>
          in if cache_opened cf > 0 then Some (put_cache c cf s)
             else (case drain_bgt_sem (nat (num_bg_workers cf)) (bgt_sem cf) of
                     None \<Rightarrow> None
                   | Some v \<Rightarrow>
                       (case clink cf of
                          None \<Rightarrow> None
                        | Some l \<Rightarrow>
                            (let fs1 = (if mfp cf = None then files s
                                        else snd (Meta_write (get_link l (tree s)) flt (files s) cf))
                             in (case set_cache_ptr l None (tree s) of
                                   None \<Rightarrow> None
                                 | Some h \<Rightarrow>
                                     (case Cache_free c (put_cache c (cf\<lparr>bgt_sem := v\<rparr>)
                                              (s\<lparr>tree := h, files := fs1\<rparr>)) of
                                        None \<Rightarrow> None
                                      | Some s1 \<Rightarrow> drop_link e l s1)))))))"

end
