(* ===== verification/LinkTreeKeeps.thy ===== *)
theory LinkTreeKeeps
  imports LinkTreePath
begin

text \<open>
  \<open>src/link.c\<close>: what the operations on the tree of link tables leave alone.  Resolving paths and
  dropping references change counts, flags and \<open>next_table\<close> pointers, remove tables and attach
  new ones, but never the data of a link.  The cache, whose links carry a pointer to it, relies
  on this.
\<close>

section \<open>The frame\<close>

definition same_data :: "LinkTable \<Rightarrow> LinkTable \<Rightarrow> bool" where
  "same_data t t' \<longleftrightarrow> map (\<lambda>l. l\<lparr>next_table := None\<rparr>) (links t') = map (\<lambda>l. l\<lparr>next_table := None\<rparr>) (links t)"

definition no_cache :: "LinkTable \<Rightarrow> bool" where
  "no_cache t \<longleftrightarrow> (\<forall>l \<in> set (links t). cache_ptr l = None)"

definition keeps :: "lheap \<Rightarrow> lheap \<Rightarrow> bool" where
  "keeps h h' \<longleftrightarrow> root_tbl h' = root_tbl h \<and> next_addr h \<le> next_addr h' \<and>
     (\<forall>p t'. tables h' p = Some t' \<longrightarrow>
        (\<exists>t. tables h p = Some t \<and> same_data t t') \<or> (next_addr h \<le> p \<and> no_cache t'))"

lemma same_data_refl [simp]: "same_data t t"
  by (simp add: same_data_def)

lemma same_data_trans: "same_data t u \<Longrightarrow> same_data u v \<Longrightarrow> same_data t v"
  by (simp add: same_data_def)

lemma same_data_nth:
  assumes "same_data t t'"
  shows "length (links t') = length (links t)"
    and "i < length (links t) \<Longrightarrow> (links t' ! i)\<lparr>next_table := None\<rparr> = (links t ! i)\<lparr>next_table := None\<rparr>"
proof -
  have *: "map (\<lambda>l. l\<lparr>next_table := None\<rparr>) (links t') = map (\<lambda>l. l\<lparr>next_table := None\<rparr>) (links t)"
    using assms by (simp add: same_data_def)
  show len: "length (links t') = length (links t)" using arg_cong [OF *, of length] by simp
  show "(links t' ! i)\<lparr>next_table := None\<rparr> = (links t ! i)\<lparr>next_table := None\<rparr>" if "i < length (links t)"
    using arg_cong [OF *, of "\<lambda>xs. xs ! i"] that len by simp
qed

lemma same_data_update: "same_data t (t\<lparr>links := (links t)[i := (links t ! i)\<lparr>next_table := q\<rparr>]\<rparr>)"
proof (cases "i < length (links t)")
  case True
  then show ?thesis by (simp add: same_data_def map_update list_update_same_conv)
next
  case False
  then have "(links t)[i := (links t ! i)\<lparr>next_table := q\<rparr>] = links t" by (simp add: list_update_beyond)
  then show ?thesis by (simp add: same_data_def)
qed

lemma same_fields:
  fixes l l' :: Link
  assumes "l'\<lparr>next_table := None\<rparr> = l\<lparr>next_table := None\<rparr>"
  shows "cache_ptr l' = cache_ptr l" "content_length l' = content_length l" "link_time l' = link_time l"
    "f_url l' = f_url l" "linkname l' = linkname l" "sonic l' = sonic l"
  using assms by (cases l; cases l'; simp)+

lemma no_cache_same:
  assumes "same_data t t'" "no_cache t"
  shows "no_cache t'"
  unfolding no_cache_def
proof
  fix l assume "l \<in> set (links t')"
  then obtain i where i: "i < length (links t')" "l = links t' ! i" by (auto simp: in_set_conv_nth)
  then have "i < length (links t)" using same_data_nth(1) [OF assms(1)] by simp
  with same_fields(1) [OF same_data_nth(2) [OF assms(1)]] assms(2) i(2) show "cache_ptr l = None"
    by (simp add: no_cache_def)
qed

lemma keeps_refl [simp]: "keeps h h"
  by (auto simp: keeps_def)

lemma keeps_trans:
  assumes "keeps h h'" "keeps h' h''"
  shows "keeps h h''"
  unfolding keeps_def
proof (intro conjI allI impI)
  show "root_tbl h'' = root_tbl h" "next_addr h \<le> next_addr h''" using assms by (auto simp: keeps_def)
  fix p t''
  assume "tables h'' p = Some t''"
  then consider t' where "tables h' p = Some t'" "same_data t' t''" | "next_addr h' \<le> p" "no_cache t''"
    using assms(2) by (auto simp: keeps_def)
  then show "(\<exists>t. tables h p = Some t \<and> same_data t t'') \<or> (next_addr h \<le> p \<and> no_cache t'')"
  proof cases
    case (1 t')
    from assms(1) 1(1) consider t where "tables h p = Some t" "same_data t t'" | "next_addr h \<le> p" "no_cache t'"
      by (auto simp: keeps_def)
    then show ?thesis using 1(2) same_data_trans no_cache_same by cases blast+
  next
    case 2
    then show ?thesis using assms(1) by (auto simp: keeps_def)
  qed
qed

lemma keeps_put: "tables h p = Some t \<Longrightarrow> same_data t t' \<Longrightarrow> keeps h (put p t' h)"
  by (auto simp: keeps_def intro: same_data_refl)

lemma keeps_drop:
  assumes "root_tbl h' = root_tbl h" "next_addr h' = next_addr h" "\<And>p t. tables h' p = Some t \<Longrightarrow> tables h p = Some t"
  shows "keeps h h'"
  using assms by (auto simp: keeps_def)

section \<open>The operations\<close>

lemma LinkTable_free_keeps:
  "LinkTable_free n q h = Some h' \<Longrightarrow>
     root_tbl h' = root_tbl h \<and> next_addr h' = next_addr h \<and> (\<forall>p t. tables h' p = Some t \<longrightarrow> tables h p = Some t)"
  "LinkTable_free_entries n ls h = Some h' \<Longrightarrow>
     root_tbl h' = root_tbl h \<and> next_addr h' = next_addr h \<and> (\<forall>p t. tables h' p = Some t \<longrightarrow> tables h p = Some t)"
proof (induction n q h and n ls h arbitrary: h' and h' rule: LinkTable_free_LinkTable_free_entries.induct)
  case (3 n p h)
  obtain t where t: "tables h p = Some t" using 3(2) by (cases "tables h p") simp_all
  obtain h1 where h1: "LinkTable_free_entries n (links t) h = Some h1" "h' = unput p h1"
    using 3(2) t by (cases "LinkTable_free_entries n (links t) h") simp_all
  from 3(1) [OF t h1(1)] h1(2) show ?case by (simp split: if_splits)
next
  case (5 n l ls h)
  obtain h1 where h1: "LinkTable_free n (next_table l) h = Some h1" "LinkTable_free_entries n ls h1 = Some h'"
    using 5(3) by (cases "LinkTable_free n (next_table l) h") simp_all
  from 5(1) [OF h1(1)] 5(2) [OF h1] show ?case by simp
qed simp_all

lemma set_next_keeps: "set_next l q h = Some h' \<Longrightarrow> keeps h h'"
  by (auto simp: set_next_def split: prod.splits option.splits if_splits
      intro!: keeps_put same_data_update)

lemma unref_step_keeps:
  assumes "unref_step n p h = Some (h', q)"
  shows "keeps h h'"
proof -
  obtain t where t: "tables h p = Some t" using assms by (auto simp: unref_step_def split: option.splits)
  let ?h1 = "put p (t\<lparr>refcount := refcount t - 1\<rparr>) h"
  have 1: "keeps h ?h1" using t by (intro keeps_put) (simp_all add: same_data_def)
  show ?thesis
  proof (cases "refcount t - 1 = 0 \<and> orphaned t")
    case False
    then have "h' = ?h1" using assms t by (auto simp: unref_step_def Let_def)
    with 1 show ?thesis by simp
  next
    case True
    then obtain h2 where h2: "(case parent_link t of None \<Rightarrow> Some ?h1 | Some l \<Rightarrow> set_next l None ?h1) = Some h2"
      "LinkTable_free n (Some p) h2 = Some h'"
      using assms t by (auto simp: unref_step_def Let_def split: option.splits)
    have "keeps ?h1 h2" using h2(1) set_next_keeps by (auto split: option.splits)
    moreover have "keeps h2 h'" using LinkTable_free_keeps(1) [OF h2(2)] by (intro keeps_drop) auto
    ultimately show ?thesis using 1 keeps_trans by blast
  qed
qed

lemma LinkTable_unref_keeps: "LinkTable_unref n q h = Some h' \<Longrightarrow> keeps h h'"
proof (induction n q h arbitrary: h' rule: LinkTable_unref.induct)
  case (3 n p h)
  then obtain h1 q where u: "unref_step (Suc n) p h = Some (h1, q)" "LinkTable_unref n q h1 = Some h'"
    by (auto split: option.splits prod.splits)
  have "keeps h1 h'" by (rule 3(1) [OF u(1) refl u(2)])
  then show ?case by (rule keeps_trans [OF unref_step_keeps [OF u(1)]])
qed auto

lemma add_ref_keeps: "add_ref d p h = Some h' \<Longrightarrow> keeps h h'"
  by (auto simp: add_ref_def split: option.splits intro!: keeps_put) (simp add: same_data_def)

lemma LinkTable_ref_keeps: "LinkTable_ref q h = Some h' \<Longrightarrow> keeps h h'"
  by (auto simp: LinkTable_ref_def split: option.splits intro!: keeps_put) (simp add: same_data_def)

lemma attach_keeps:
  assumes "attach r l nt h = Some (q, h')" "no_cache nt"
  shows "keeps h h'"
proof -
  obtain p i where l: "l = (p, i)" by force
  obtain t where t: "tables h p = Some t" "i < length (links t)"
    using assms(1) by (auto simp: attach_def l split: option.splits if_splits)
  show ?thesis
  proof (cases "next_table (links t ! i)")
    case (Some q')
    with assms(1) t obtain u u' where "tables h q = Some u" "h' = put q u' h" "links u' = links u"
      by (auto simp: attach_def l split: option.splits)
    then show ?thesis by (simp add: keeps_put same_data_def)
  next
    case None
    let ?t = "t\<lparr>links := (links t)[i := (links t ! i)\<lparr>next_table := Some q\<rparr>], refcount := refcount t + 1\<rparr>"
    let ?nt = "nt\<lparr>parent_tbl := Some p, parent_link := Some l, refcount := refcount nt + r\<rparr>"
    from None assms(1) t have q: "q = next_addr h" "h' = put q ?nt (put p ?t (h\<lparr>next_addr := Suc q\<rparr>))"
      by (auto simp: attach_def l Let_def)
    have "same_data t ?t" using same_data_update [of t i "Some q"] by (simp add: same_data_def)
    then show ?thesis using q t assms(2) by (auto simp: keeps_def no_cache_def)
  qed
qed

definition load_clean :: "(Link \<Rightarrow> LinkTable option) \<Rightarrow> bool" where
  "load_clean load \<longleftrightarrow> (\<forall>l t. load l = Some t \<longrightarrow> fresh_table t \<and> no_cache t)"

lemma load_clean_ok: "load_clean load \<Longrightarrow> load_ok load"
  by (simp add: load_clean_def load_ok_def)

lemma path_to_Link_recursive_keeps:
  assumes "load_clean load"
  shows "path_to_Link_recursive md load fuel path0 tbl h = Some (r, h') \<Longrightarrow> keeps h h'"
proof (induction path0 arbitrary: tbl h rule: length_induct)
  case (1 path0)
  let ?path = "drop_trailing (skip_leading path0)"
  note IH = "1.IH" [rule_format]
  note eq = "1.prems" [unfolded path_to_Link_recursive.simps [of md load fuel path0 tbl h]]
  show ?case
  proof (cases "tbl = None \<or> path0 = []")
    case True
    with eq show ?thesis by (auto split: option.splits)
  next
    case False
    then obtain p where p: "tbl = Some p" "path0 \<noteq> []" by auto
    from eq p obtain t where t: "tables h p = Some t" by (auto simp: Let_def split: option.splits)
    show ?thesis
    proof (cases "strchr ?path slash")
      case None
      with eq p t show ?thesis by (simp add: Let_def)
    next
      case (Some s)
      have shorter: "length (drop (Suc s) ?path) < length path0" using drop_shorter [OF p(2)] by simp
      show ?thesis
      proof (cases "lookup_entry (take s ?path) t")
        case None
        with eq p t Some show ?thesis by (simp add: Let_def)
      next
        case i: (Some i)
        show ?thesis
        proof (cases "next_table (links t ! i)")
          case q: (Some q)
          have "path_to_Link_recursive md load fuel (drop (Suc s) ?path) (Some q) h = Some (r, h')"
            using eq p t Some i q by (simp add: Let_def)
          from IH [OF shorter this] show ?thesis .
        next
          case None
          with eq p t Some i obtain h1 where h1: "md \<noteq> SINGLE" "add_ref 1 p h = Some h1"
            by (auto simp: Let_def split: option.splits if_splits)
          have k1: "keeps h h1" by (rule add_ref_keeps [OF h1(2)])
          show ?thesis
          proof (cases "load (links t ! i)")
            case None': None
            with eq p t Some i None h1 have "LinkTable_unref fuel (Some p) h1 = Some h'"
              by (auto simp: Let_def)
            with LinkTable_unref_keeps k1 keeps_trans show ?thesis by blast
          next
            case nt: (Some nt)
            with eq p t Some i None h1 obtain q h2 h3 where
              h2: "attach 0 (p, i) nt h1 = Some (q, h2)" "add_ref (-1) p h2 = Some h3"
              "path_to_Link_recursive md load fuel (drop (Suc s) ?path) (Some q) h3 = Some (r, h')"
              by (auto simp: Let_def split: option.splits prod.splits)
            have "no_cache nt" using assms nt by (simp add: load_clean_def)
            from attach_keeps [OF h2(1) this] add_ref_keeps [OF h2(2)] IH [OF shorter h2(3)] k1
            show ?thesis by (metis keeps_trans)
          qed
        qed
      qed
    qed
  qed
qed

lemma path_to_Link_keeps:
  assumes "load_clean load" "path_to_Link md load fuel path h = Some (r, h')"
  shows "keeps h h'"
proof -
  obtain r0 h0 where r0: "path_to_Link_recursive md load fuel (strndup path PATH_MAX) (root_tbl h) h = Some (r0, h0)"
    using assms(2) by (auto simp: path_to_Link_def split: option.splits)
  have k: "keeps h h0" by (rule path_to_Link_recursive_keeps [OF assms(1) r0])
  show ?thesis
  proof (cases r0)
    case None
    with assms(2) r0 k show ?thesis by (simp add: path_to_Link_def)
  next
    case (Some l)
    with assms(2) r0 have "add_ref 1 (fst l) h0 = Some h'" by (auto simp: path_to_Link_def)
    with add_ref_keeps keeps_trans k show ?thesis by blast
  qed
qed

definition refill_clean :: "(LinkTable \<Rightarrow> LinkTable) \<Rightarrow> bool" where
  "refill_clean refill \<longleftrightarrow> refill_ok refill \<and> (\<forall>t. no_cache t \<longrightarrow> no_cache (refill t))"

lemma attach_new_keeps:
  assumes "attach r l nt h = Some (q, h')" "no_cache nt" "addr_ok h" "get_link l h = Some link" "next_table link = None"
  shows "q = next_addr h \<and> tables h q = None \<and> keeps h h'"
proof -
  obtain p i where l: "l = (p, i)" by force
  have "q = next_addr h"
    using assms(1,4,5) by (auto simp: attach_def l get_link_def Let_def split: option.splits if_splits)
  moreover have "tables h (next_addr h) = None" using assms(3) by (auto simp: addr_ok_def)
  ultimately show ?thesis using attach_keeps [OF assms(1,2)] by simp
qed

lemma refill_new_keeps:
  assumes "keeps h h'" "tables h q = None" "tables h' q = Some u" "\<And>t. no_cache t \<Longrightarrow> no_cache (refill t)"
  shows "keeps h (put q (refill u) h')"
proof -
  have "(\<exists>t. tables h q = Some t \<and> same_data t u) \<or> (next_addr h \<le> q \<and> no_cache u)"
    using assms(1,3) unfolding keeps_def by blast
  then have "next_addr h \<le> q \<and> no_cache u" using assms(2) by simp
  with assms show ?thesis by (auto simp: keeps_def)
qed

lemma child_not_root:
  assumes "tree_inv e h" "get_link l h = Some link" "next_table link = Some q"
  shows "root_tbl h \<noteq> Some q"
proof -
  obtain t where t: "tables h (fst l) = Some t" "snd l < length (links t)" "link = links t ! snd l"
    using assms(2) by (auto simp: get_link_def split: option.splits if_splits)
  obtain u where "tables h q = Some u" "parent_tbl u = Some (fst l)"
    using down_okD [OF tree_invD(2) [OF assms(1)] t(1,2)] assms(3) t(3) by metis
  then show ?thesis using tree_invD(3) [OF assms(1)] by (auto simp: root_ok_def)
qed

lemma path_to_LinkTable_keeps:
  assumes "load_clean load" "refill_clean refill" "mode cfg \<noteq> SINGLE" and inv: "tree_inv e h"
    and fuel: "card (dom (tables h)) + length path + 1 \<le> fuel"
    and run: "path_to_LinkTable cfg load refill fuel path h = Some (r, h')"
  shows "keeps h h' \<and> (\<forall>q. r = Some q \<longrightarrow> path = [slash] \<or> root_tbl h' \<noteq> Some q)"
proof (cases "path = [slash]")
  case True
  with run LinkTable_ref_keeps show ?thesis by (auto simp: path_to_LinkTable_def)
next
  case False
  have "card (dom (tables h)) + length path \<le> fuel" using fuel by simp
  from path_to_Link_safe_inv [OF load_clean_ok [OF assms(1)] assms(3) inv this] obtain r1 h1 where
    r1: "path_to_Link (mode cfg) load fuel path h = Some (r1, h1)"
    and inv1: "case r1 of None \<Rightarrow> tree_inv e h1
     | Some l \<Rightarrow> tree_inv (e(fst l := e (fst l) + 1)) h1 \<and> get_link l h1 \<noteq> None" by blast
  have k1: "keeps h h1" by (rule path_to_Link_keeps [OF assms(1) r1])
  show ?thesis
  proof (cases r1)
    case None
    with run r1 False k1 show ?thesis by (simp add: path_to_LinkTable_def)
  next
    case (Some l)
    with inv1 obtain link e1 where inv1: "tree_inv e1 h1" and link: "get_link l h1 = Some link" by auto
    show ?thesis
    proof (cases "next_table link")
      case q: (Some q)
      with run r1 Some False link obtain h2 where h2: "LinkTable_ref (Some q) h1 = Some h2"
        "LinkTable_unref fuel (Some (fst l)) h2 = Some h'" "r = Some q"
        by (auto simp: path_to_LinkTable_def split: option.splits)
      have "keeps h1 h'" using LinkTable_ref_keeps [OF h2(1)] LinkTable_unref_keeps [OF h2(2)] keeps_trans by blast
      moreover from this have "root_tbl h' = root_tbl h1" by (simp add: keeps_def)
      ultimately show ?thesis using child_not_root [OF inv1 link q] h2(3) keeps_trans [OF k1] by auto
    next
      case None
      show ?thesis
      proof (cases "load link")
        case None': None
        with run r1 Some False link None have "LinkTable_unref fuel (Some (fst l)) h1 = Some h'" "r = None"
          by (auto simp: path_to_LinkTable_def)
        with LinkTable_unref_keeps keeps_trans [OF k1] show ?thesis by blast
      next
        case nt: (Some nt)
        with run r1 Some False link None obtain q h2 where h2: "attach 1 l nt h1 = Some (q, h2)"
          by (auto simp: path_to_LinkTable_def split: option.splits)
        let ?h3 = "if invalid_refresh cfg then (case tables h2 q of Some u \<Rightarrow> put q (refill u) h2 | None \<Rightarrow> h2)
          else h2"
        have h': "LinkTable_unref fuel (Some (fst l)) ?h3 = Some h'" "r = Some q"
          using run r1 Some False link None nt h2 by (auto simp: path_to_LinkTable_def Let_def)
        have "no_cache nt" using assms(1) nt by (simp add: load_clean_def)
        note a = attach_new_keeps [OF h2 this tree_invD(4) [OF inv1] link None]
        have k3: "keeps h1 ?h3"
          using a refill_new_keeps [where q = q and h = h1 and h' = h2 and refill = refill] assms(2)
          by (auto simp: refill_clean_def split: option.split)
        have "keeps h1 h'" by (rule keeps_trans [OF k3 LinkTable_unref_keeps [OF h'(1)]])
        moreover have "root_tbl h1 \<noteq> Some q" using a tree_invD(3) [OF inv1] by (auto simp: root_ok_def)
        ultimately show ?thesis using h'(2) keeps_trans [OF k1] by (auto simp: keeps_def)
      qed
    qed
  qed
qed

section \<open>The links that survive\<close>

lemma get_link_keeps:
  assumes "keeps h h'" "addr_ok h" "get_link l h = Some lk" "tables h' (fst l) \<noteq> None"
  obtains lk' where "get_link l h' = Some lk'" "lk'\<lparr>next_table := None\<rparr> = lk\<lparr>next_table := None\<rparr>"
proof -
  obtain t where t: "tables h (fst l) = Some t" "snd l < length (links t)" "lk = links t ! snd l"
    using assms(3) by (auto simp: get_link_def split: option.splits if_splits)
  obtain t' where t': "tables h' (fst l) = Some t'" using assms(4) by auto
  have "fst l < next_addr h" using assms(2) t(1) by (auto simp: addr_ok_def)
  moreover have "(\<exists>t. tables h (fst l) = Some t \<and> same_data t t') \<or> (next_addr h \<le> fst l \<and> no_cache t')"
    using assms(1) t' unfolding keeps_def by blast
  ultimately have "same_data t t'" using t(1) by auto
  from same_data_nth [OF this] t t' show thesis
    by (intro that [of "links t' ! snd l"]) (simp_all add: get_link_def)
qed

lemma get_link_keeps_back:
  assumes "keeps h h'" "get_link l h' = Some lk'" "cache_ptr lk' \<noteq> None"
  obtains lk where "get_link l h = Some lk" "lk'\<lparr>next_table := None\<rparr> = lk\<lparr>next_table := None\<rparr>"
proof -
  obtain t' where t': "tables h' (fst l) = Some t'" "snd l < length (links t')" "lk' = links t' ! snd l"
    using assms(2) by (auto simp: get_link_def split: option.splits if_splits)
  have "\<not> no_cache t'" using t'(2,3) assms(3) by (auto simp: no_cache_def)
  then obtain t where t: "tables h (fst l) = Some t" "same_data t t'"
    using assms(1) t'(1) by (auto simp: keeps_def)
  from same_data_nth [OF t(2)] t t' show thesis by (intro that [of "links t ! snd l"]) (simp_all add: get_link_def)
qed

end
