(* ===== verification/CacheOpenInv.thy ===== *)
theory CacheOpenInv
  imports CacheOpen LinkTreeKeeps
begin

text \<open>
  The invariant of the open caches: every structure in the heap of caches holds one reference on
  the table of its link, the link and the structure point to each other, and the count of a
  structure is the number of handles the callers have.  Opening and closing keep it, whatever
  calls fail on the way.
\<close>

section \<open>The invariant\<close>

definition cref :: "(nat \<Rightarrow> Cache option) \<Rightarrow> tblptr \<Rightarrow> nat" where
  "cref C p = card {c. \<exists>cf i. C c = Some cf \<and> clink cf = Some (p, i)}"

definition link_loop :: "lheap \<Rightarrow> (nat \<Rightarrow> Cache option) \<Rightarrow> bool" where
  "link_loop h C \<longleftrightarrow>
     (\<forall>c cf. C c = Some cf \<longrightarrow> (\<exists>l lk. clink cf = Some l \<and> get_link l h = Some lk \<and> cache_ptr lk = Some c)) \<and>
     (\<forall>l lk c. get_link l h = Some lk \<longrightarrow> cache_ptr lk = Some c \<longrightarrow> (\<exists>cf. C c = Some cf \<and> clink cf = Some l))"

text \<open>\<open>g\<close> counts the references that callers hold on tables, \<open>u\<close> their handles on caches.\<close>

definition handle_ok :: "nat \<Rightarrow> Cache option \<Rightarrow> bool" where
  "handle_ok n v = (case v of None \<Rightarrow> n = 0 | Some cf \<Rightarrow> 0 < n \<and> cache_opened cf = int n)"

lemma handle_ok_simps [simp]:
  "handle_ok n None \<longleftrightarrow> n = 0"
  "handle_ok n (Some cf) \<longleftrightarrow> 0 < n \<and> cache_opened cf = int n"
  by (simp_all add: handle_ok_def)

definition handles_ok :: "(nat \<Rightarrow> nat) \<Rightarrow> (nat \<Rightarrow> Cache option) \<Rightarrow> bool" where
  "handles_ok u C \<longleftrightarrow> (\<forall>c. handle_ok (u c) (C c))"

definition open_inv :: "(tblptr \<Rightarrow> nat) \<Rightarrow> (nat \<Rightarrow> nat) \<Rightarrow> cstate \<Rightarrow> bool" where
  "open_inv g u s \<longleftrightarrow>
     tree_inv (\<lambda>p. g p + cref (caches s) p) (tree s) \<and> link_loop (tree s) (caches s) \<and>
     handles_ok u (caches s) \<and> finite (dom (caches s)) \<and> (\<forall>c \<in> dom (caches s). c < next_cache s)"

lemma open_invD:
  assumes "open_inv g u s"
  shows "tree_inv (\<lambda>p. g p + cref (caches s) p) (tree s)" "link_loop (tree s) (caches s)"
    "handles_ok u (caches s)" "finite (dom (caches s))" "\<And>c. caches s c \<noteq> None \<Longrightarrow> c < next_cache s"
  using assms by (auto simp: open_inv_def)

lemma open_inv_files [simp]: "open_inv g u (s\<lparr>files := f\<rparr>) = open_inv g u s"
  by (simp add: open_inv_def)

lemma open_inv_next: "open_inv g u s \<Longrightarrow> next_cache s \<le> n \<Longrightarrow> open_inv g u (s\<lparr>next_cache := n\<rparr>)"
  using less_le_trans by (simp add: open_inv_def) blast

lemma holders_finite: "finite (dom C) \<Longrightarrow> finite {c. \<exists>cf i. C c = Some cf \<and> clink cf = Some (p, i)}"
  by (rule finite_subset [of _ "dom C"]) auto

lemma cref_pos: "finite (dom C) \<Longrightarrow> C c = Some cf \<Longrightarrow> clink cf = Some l \<Longrightarrow> 0 < cref C (fst l)"
  using holders_finite [of C "fst l"] by (auto simp: cref_def card_gt_0_iff) (metis prod.collapse)

lemma cref_add:
  assumes "finite (dom C)" "C c = None" "clink cf = Some l"
  shows "cref (C(c \<mapsto> cf)) = (cref C)(fst l := cref C (fst l) + 1)"
proof
  fix p
  let ?H = "\<lambda>C. {c. \<exists>cf i. C c = Some cf \<and> clink cf = Some (p, i)}"
  show "cref (C(c \<mapsto> cf)) p = ((cref C)(fst l := cref C (fst l) + 1)) p"
  proof (cases "p = fst l")
    case True
    have "?H (C(c \<mapsto> cf)) = insert c (?H C)" using assms(2,3) True by (cases l) auto
    moreover have "c \<notin> ?H C" using assms(2) by simp
    ultimately show ?thesis using True holders_finite [OF assms(1), of p] by (simp add: cref_def)
  next
    case False
    have "?H (C(c \<mapsto> cf)) = ?H C" using assms(2,3) False by (cases l) auto
    then show ?thesis using False by (simp add: cref_def)
  qed
qed

lemma cref_remove:
  assumes "finite (dom C)" "C c = Some cf" "clink cf = Some l"
  shows "cref (C(c := None)) = (cref C)(fst l := cref C (fst l) - 1)"
proof -
  have "C = (C(c := None))(c \<mapsto> cf)" using assms(2) by (simp add: map_upd_triv)
  then have "cref C = cref ((C(c := None))(c \<mapsto> cf))" by simp
  also have "\<dots> = (cref (C(c := None)))(fst l := cref (C(c := None)) (fst l) + 1)"
    using assms by (intro cref_add) simp_all
  finally show ?thesis by simp
qed

lemma cref_same:
  assumes "C c = Some cf0" "clink cf = clink cf0"
  shows "cref (C(c \<mapsto> cf)) = cref C"
proof
  fix p
  have "{c'. \<exists>cf' i. (C(c \<mapsto> cf)) c' = Some cf' \<and> clink cf' = Some (p, i)} =
    {c'. \<exists>cf' i. C c' = Some cf' \<and> clink cf' = Some (p, i)}"
    using assms by auto
  then show "cref (C(c \<mapsto> cf)) p = cref C p" by (simp add: cref_def)
qed

section \<open>The frame\<close>

text \<open>\<open>calm k s s'\<close>: no cache was opened or closed, and at most \<open>k\<close> tables were loaded.\<close>

definition calm :: "nat \<Rightarrow> cstate \<Rightarrow> cstate \<Rightarrow> bool" where
  "calm k s s' \<longleftrightarrow> caches s' = caches s \<and> next_cache s \<le> next_cache s' \<and> keeps (tree s) (tree s') \<and>
     card (dom (tables (tree s'))) \<le> card (dom (tables (tree s))) + k"

lemma calm_trans: "calm k s s' \<Longrightarrow> calm k' s' s'' \<Longrightarrow> calm (k + k') s s''"
  using keeps_trans by (fastforce simp: calm_def)

lemma calm_mono: "calm k s s' \<Longrightarrow> k \<le> k' \<Longrightarrow> calm k' s s'"
  by (auto simp: calm_def)

lemma calm_files [simp]: "calm k (s\<lparr>files := f\<rparr>) s' = calm k s s'" "calm k s (s'\<lparr>files := f\<rparr>) = calm k s s'"
  by (simp_all add: calm_def)

lemma calm_refl [simp]: "calm k s s"
  by (simp add: calm_def)

lemma link_loop_keeps:
  assumes "link_loop h C" "keeps h h'" "addr_ok h" "finite (dom C)"
    and live: "\<And>p. 0 < cref C p \<Longrightarrow> tables h' p \<noteq> None"
  shows "link_loop h' C"
  unfolding link_loop_def
proof (intro conjI allI impI)
  fix c cf assume c: "C c = Some cf"
  obtain l lk where l: "clink cf = Some l" "get_link l h = Some lk" "cache_ptr lk = Some c"
    using assms(1) c unfolding link_loop_def by blast
  have "tables h' (fst l) \<noteq> None" by (rule live [OF cref_pos [OF assms(4) c l(1)]])
  from get_link_keeps [OF assms(2,3) l(2) this] obtain lk' where
    lk': "get_link l h' = Some lk'" "lk'\<lparr>next_table := None\<rparr> = lk\<lparr>next_table := None\<rparr>" .
  from same_fields(1) [OF lk'(2)] lk'(1) l(1,3)
  show "\<exists>l lk. clink cf = Some l \<and> get_link l h' = Some lk \<and> cache_ptr lk = Some c" by auto
next
  fix l lk' c assume l: "get_link l h' = Some lk'" "cache_ptr lk' = Some c"
  then have "cache_ptr lk' \<noteq> None" by simp
  from get_link_keeps_back [OF assms(2) l(1) this] obtain lk where
    lk: "get_link l h = Some lk" "lk'\<lparr>next_table := None\<rparr> = lk\<lparr>next_table := None\<rparr>" .
  from same_fields(1) [OF lk(2)] l(2) have "cache_ptr lk = Some c" by simp
  with assms(1) lk(1) show "\<exists>cf. C c = Some cf \<and> clink cf = Some l" unfolding link_loop_def by blast
qed

lemma open_inv_calm:
  assumes "open_inv g u s" "calm k s s'" "tree_inv (\<lambda>p. g' p + cref (caches s) p) (tree s')"
  shows "open_inv g' u s'"
proof -
  note inv = open_invD [OF assms(1)]
  have c: "caches s' = caches s" "next_cache s \<le> next_cache s'" "keeps (tree s) (tree s')"
    using assms(2) by (simp_all add: calm_def)
  have "link_loop (tree s') (caches s)"
    using inv(1) held_live [OF assms(3)]
    by (intro link_loop_keeps [OF inv(2) c(3) _ inv(4)]) (fastforce simp: tree_inv_def)+
  then show ?thesis using inv assms(3) c by (fastforce simp: open_inv_def)
qed

text \<open>A link of a table that is held stays where it is, with its data.\<close>

lemma pinned_link:
  assumes "open_inv g u s" "calm k s s'" "open_inv g' u' s'" "0 < g' (fst l)" "get_link l (tree s) = Some lk"
  obtains lk' where "get_link l (tree s') = Some lk'" "lk'\<lparr>next_table := None\<rparr> = lk\<lparr>next_table := None\<rparr>"
proof -
  have k: "keeps (tree s) (tree s')" using assms(2) by (simp add: calm_def)
  have "addr_ok (tree s)" using open_invD(1) [OF assms(1)] by (simp add: tree_inv_def)
  moreover have "tables (tree s') (fst l) \<noteq> None"
    using held_live [OF open_invD(1) [OF assms(3)], of "fst l"] assms(4) by auto
  ultimately show thesis using get_link_keeps [OF k _ assms(5)] that by blast
qed

section \<open>Looking a link up and dropping it\<close>

definition env_ok :: "cache_env \<Rightarrow> bool" where
  "env_ok e \<longleftrightarrow> load_clean (e_load e) \<and> mode (e_cfg e) \<noteq> SINGLE"

definition room :: "cache_env \<Rightarrow> nat \<Rightarrow> cstate \<Rightarrow> bool" where
  "room e k s \<longleftrightarrow> card (dom (tables (tree s))) + k \<le> e_fuel e"

lemma room_calm: "calm k s s' \<Longrightarrow> room e (k + k') s \<Longrightarrow> room e k' s'"
  by (auto simp: room_def calm_def)

lemma room_mono: "room e k s \<Longrightarrow> k' \<le> k \<Longrightarrow> room e k' s"
  by (auto simp: room_def)

lemma room_files [simp]: "room e k (s\<lparr>files := f\<rparr>) = room e k s"
  by (simp add: room_def)

lemma fun_add_upd: "(\<lambda>p. (g(q := g q + n)) p + f p) = (\<lambda>p. g p + f p)(q := g q + f q + (n::nat))"
  by auto

lemma find_link_inv:
  assumes "open_inv g u s" "env_ok e" "room e (length fn) s"
  shows "\<exists>r s'. find_link e fn s = Some (r, s') \<and> calm (length fn) s s' \<and> files s' = files s \<and>
    (case r of None \<Rightarrow> open_inv g u s'
     | Some l \<Rightarrow> open_inv (g(fst l := g (fst l) + 1)) u s' \<and> get_link l (tree s') \<noteq> None)"
proof -
  have env: "load_ok (e_load e)" "load_clean (e_load e)" "mode (e_cfg e) \<noteq> SINGLE"
    using assms(2) load_clean_ok by (auto simp: env_ok_def)
  have fuel: "card (dom (tables (tree s))) + length fn \<le> e_fuel e" using assms(3) by (simp add: room_def)
  obtain r h where r: "path_to_Link (mode (e_cfg e)) (e_load e) (e_fuel e) fn (tree s) = Some (r, h)"
    and card_h: "card (dom (tables h)) \<le> card (dom (tables (tree s))) + length fn"
    and inv': "case r of None \<Rightarrow> tree_inv (\<lambda>p. g p + cref (caches s) p) h
      | Some l \<Rightarrow> tree_inv ((\<lambda>p. g p + cref (caches s) p)(fst l := g (fst l) + cref (caches s) (fst l) + 1)) h \<and>
          get_link l h \<noteq> None"
    using path_to_Link_safe_inv [OF env(1,3) open_invD(1) [OF assms(1)] fuel] by auto
  let ?s = "s\<lparr>tree := h\<rparr>"
  have calm: "calm (length fn) s ?s"
    using path_to_Link_keeps [OF env(2) r] card_h by (simp add: calm_def)
  have "case r of None \<Rightarrow> open_inv g u ?s
     | Some l \<Rightarrow> open_inv (g(fst l := g (fst l) + 1)) u ?s \<and> get_link l (tree ?s) \<noteq> None"
  proof (cases r)
    case None
    with inv' open_inv_calm [OF assms(1) calm, of g] show ?thesis by simp
  next
    case (Some l)
    have "tree_inv (\<lambda>p. (g(fst l := g (fst l) + 1)) p + cref (caches s) p) (tree ?s)"
      unfolding fun_add_upd using inv' Some by simp
    from open_inv_calm [of g u s _ _ "g(fst l := g (fst l) + 1)", OF assms(1) calm this] Some inv'
    show ?thesis by simp
  qed
  with r calm show ?thesis by (auto simp: find_link_def)
qed

lemma drop_link_inv:
  assumes "open_inv g u s" "0 < g (fst l)" "room e 0 s"
  shows "\<exists>s'. drop_link e l s = Some s' \<and> calm 0 s s' \<and> files s' = files s \<and>
    open_inv (g(fst l := g (fst l) - 1)) u s'"
proof -
  let ?g = "\<lambda>p. g p + cref (caches s) p"
  have "0 < ?g (fst l)" using assms(2) by simp
  then obtain h where h: "LinkTable_unref (e_fuel e) (Some (fst l)) (tree s) = Some h"
    "tree_inv (?g(fst l := ?g (fst l) - 1)) h" "card (dom (tables h)) \<le> card (dom (tables (tree s)))"
    using LinkTable_unref_inv [OF open_invD(1) [OF assms(1)], of "fst l" "e_fuel e"] assms(3)
    by (auto simp: room_def)
  have "?g(fst l := ?g (fst l) - 1) = (\<lambda>p. (g(fst l := g (fst l) - 1)) p + cref (caches s) p)"
    using assms(2) by (auto simp: fun_eq_iff)
  with h(2) have "tree_inv (\<lambda>p. (g(fst l := g (fst l) - 1)) p + cref (caches s) p) h" by simp
  moreover have calm: "calm 0 s (s\<lparr>tree := h\<rparr>)"
    using LinkTable_unref_keeps [OF h(1)] h(3) by (simp add: calm_def)
  ultimately have "open_inv (g(fst l := g (fst l) - 1)) u (s\<lparr>tree := h\<rparr>)"
    using open_inv_calm [OF assms(1) calm, of "g(fst l := g (fst l) - 1)"] by simp
  with h(1) calm show ?thesis by (simp add: drop_link_def)
qed

lemma drop_pinned:
  assumes "open_inv (g(fst l := g (fst l) + 1)) u s" "room e 0 s"
  shows "\<exists>s'. drop_link e l s = Some s' \<and> calm 0 s s' \<and> files s' = files s \<and> open_inv g u s'"
  using drop_link_inv [OF assms(1) _ assms(2), of l] by (simp add: fun_upd_idem)

section \<open>Deleting and creating\<close>

lemma unlink_pair_files: "\<exists>f. unlink_pair d fm fd fn s = s\<lparr>files := f\<rparr>"
  by (auto simp: unlink_pair_def Let_def)

lemma unlink_pair_frame [simp]:
  "open_inv g u (unlink_pair d fm fd fn s) = open_inv g u s"
  "calm k (unlink_pair d fm fd fn s) s' = calm k s s'"
  "calm k s' (unlink_pair d fm fd fn s) = calm k s' s"
  "room e k (unlink_pair d fm fd fn s) = room e k s"
  by (simp_all add: unlink_pair_def Let_def)

lemma unlink_pair_tree [simp]: "tree (unlink_pair d fm fd fn s) = tree s"
  by (simp add: unlink_pair_def Let_def)

text \<open>The common shape: look the link up, change only files, drop the reference.\<close>

lemma looked_up_drop:
  assumes "open_inv (g(fst l := g (fst l) + 1)) u s1" "calm k s s1" "room e k s"
    and "drop_link e l (s1\<lparr>files := f\<rparr>) = Some s'"
  shows "calm k s s' \<and> open_inv g u s'"
proof -
  have "room e 0 (s1\<lparr>files := f\<rparr>)" using room_calm [OF assms(2), of e 0] assms(3) by simp
  from drop_pinned [of g l u "s1\<lparr>files := f\<rparr>", OF _ this] assms(1,4) have "calm 0 s1 s'" "open_inv g u s'" by auto
  then show ?thesis using calm_trans [OF assms(2)] by fastforce
qed

lemma looked_up_drop0:
  assumes "open_inv (g(fst l := g (fst l) + 1)) u s1" "calm k s s1" "room e k s" "drop_link e l s1 = Some s'"
  shows "calm k s s' \<and> open_inv g u s'"
  using looked_up_drop [OF assms(1-3), of "files s1"] assms(4) by simp

lemma looked_up_unlink:
  assumes "open_inv (g(fst l := g (fst l) + 1)) u s1" "calm k s s1" "room e k s"
    and "drop_link e l (unlink_pair d fm fd fn s1) = Some s'"
  shows "calm k s s' \<and> open_inv g u s'"
  using looked_up_drop [OF assms(1-3)] assms(4) by (auto simp: unlink_pair_def Let_def)

lemma Cache_delete_inv:
  assumes "open_inv g u s" "env_ok e" "room e (length fn) s" "Cache_delete e fm fd fn s = Some s'"
  shows "calm (length fn) s s' \<and> open_inv g u s'"
proof -
  from find_link_inv [OF assms(1-3)] obtain r s1 where r: "find_link e fn s = Some (r, s1)" "calm (length fn) s s1"
    "case r of None \<Rightarrow> open_inv g u s1
     | Some l \<Rightarrow> open_inv (g(fst l := g (fst l) + 1)) u s1 \<and> get_link l (tree s1) \<noteq> None" by blast
  have md: "mode (e_cfg e) \<noteq> SINGLE" using assms(2) by (simp add: env_ok_def)
  show ?thesis
  proof (cases r)
    case None
    with r md assms(4) show ?thesis by (auto simp: Cache_delete_def)
  next
    case (Some l)
    with r(3) obtain link where l: "open_inv (g(fst l := g (fst l) + 1)) u s1" "get_link l (tree s1) = Some link"
      by auto
    note drops = looked_up_drop0 [OF l(1) r(2) assms(3)] looked_up_unlink [OF l(1) r(2) assms(3)]
    show ?thesis
    proof (cases "mode (e_cfg e)")
      case NORMAL
      with assms(4) r(1) Some l(2) drops show ?thesis by (auto simp: Cache_delete_def split: option.splits)
    next
      case SONIC
      with assms(4) r(1) Some l(2) drops show ?thesis by (auto simp: Cache_delete_def split: option.splits)
    next
      case SINGLE
      with md show ?thesis by simp
    qed
  qed
qed

lemma new_address: "open_inv g u s \<Longrightarrow> caches s (next_cache s) = None"
  using open_invD(5) less_irrefl by metis

text \<open>A structure that is allocated and freed again leaves only the allocator changed.\<close>

lemma new_free:
  assumes "Cache_new e s = (c, s1)" "Cache_free c (put_cache c cf s1) = Some s2" "open_inv g u s"
  shows "s2 = s\<lparr>next_cache := Suc (next_cache s)\<rparr>"
proof -
  have "(caches s)(next_cache s := None) = caches s" using new_address [OF assms(3)] by auto
  with assms(1,2) show ?thesis by (auto simp: Cache_new_def put_cache_def Cache_free_def split: if_splits)
qed

lemma open_inv_alloc:
  "open_inv g u s \<Longrightarrow> open_inv g u (s\<lparr>next_cache := Suc (next_cache s)\<rparr>)"
  "calm k s (s\<lparr>next_cache := Suc (next_cache s)\<rparr>)"
  by (simp_all add: open_inv_next calm_def)

lemma create_files_inv:
  assumes "open_inv g u s" "create_files e flt fn l link s = Some (r, s')"
  shows "\<exists>f. s' = s\<lparr>next_cache := Suc (next_cache s), files := f\<rparr> \<and> r = 0"
proof -
  have "(caches s)(next_cache s := None) = caches s" using new_address [OF assms(1)] by auto
  with assms(2) show ?thesis
    by (auto simp: create_files_def Cache_new_def put_cache_def Cache_free_def Let_def
        split: option.splits prod.splits if_splits)
qed

lemma Cache_create_inv:
  assumes "open_inv g u s" "env_ok e" "room e (length fn) s" "Cache_create e flt fn s = Some (r, s')"
  shows "calm (length fn) s s' \<and> open_inv g u s'"
proof -
  from find_link_inv [OF assms(1-3)] obtain r1 s1 where r: "find_link e fn s = Some (r1, s1)" "calm (length fn) s s1"
    "case r1 of None \<Rightarrow> open_inv g u s1
     | Some l \<Rightarrow> open_inv (g(fst l := g (fst l) + 1)) u s1 \<and> get_link l (tree s1) \<noteq> None" by blast
  show ?thesis
  proof (cases r1)
    case None
    with r assms(4) show ?thesis by (auto simp: Cache_create_def)
  next
    case (Some l)
    with r(3) obtain link where l: "open_inv (g(fst l := g (fst l) + 1)) u s1" "get_link l (tree s1) = Some link"
      by auto
    show ?thesis
    proof (cases "content_length link = 0 \<or> create_name e link = None")
      case True
      with assms(4) r(1) Some l(2) have "drop_link e l s1 = Some s'" by (auto simp: Cache_create_def split: if_splits)
      then show ?thesis by (rule looked_up_drop0 [OF l(1) r(2) assms(3)])
    next
      case False
      with assms(4) r(1) Some l(2) obtain name s2 where
        s2: "create_files e flt name l link s1 = Some (r, s2)" "drop_link e l s2 = Some s'"
        by (auto simp: Cache_create_def split: option.splits if_splits)
      from create_files_inv [OF l(1) s2(1)] obtain f where
        f: "s2 = s1\<lparr>next_cache := Suc (next_cache s1), files := f\<rparr>" by blast
      let ?s = "s1\<lparr>next_cache := Suc (next_cache s1)\<rparr>"
      have "calm (length fn) s ?s" using calm_trans [OF r(2) open_inv_alloc(2) [of 0 s1]] by simp
      from looked_up_drop [OF open_inv_alloc(1) [OF l(1)] this assms(3)] s2(2) f show ?thesis by simp
    qed
  qed
qed

section \<open>The pointer from the link to its cache\<close>

lemma set_cache_ptr_ok:
  assumes "get_link l h = Some lk"
  obtains h' where "set_cache_ptr l v h = Some h'"
    "\<And>l'. get_link l' h' = (if l' = l then Some (lk\<lparr>cache_ptr := v\<rparr>) else get_link l' h)"
    "\<And>g. tree_inv g h \<Longrightarrow> tree_inv g h'" "dom (tables h') = dom (tables h)"
proof -
  obtain t where t: "tables h (fst l) = Some t" "snd l < length (links t)" "lk = links t ! snd l"
    using assms by (auto simp: get_link_def split: option.splits if_splits)
  let ?t = "t\<lparr>links := (links t)[snd l := (links t ! snd l)\<lparr>cache_ptr := v\<rparr>]\<rparr>"
  let ?h = "put (fst l) ?t h"
  have "same_links t ?t" using t(2) by (simp add: same_links_def map_update list_update_same_conv)
  then have inv: "tree_inv g ?h" if "tree_inv g h" for g
    using tree_inv_put [OF that t(1), of ?t "g (fst l)"] root_not_orphaned [OF that _ t(1)] by simp
  have "get_link l' ?h = (if l' = l then Some (lk\<lparr>cache_ptr := v\<rparr>) else get_link l' h)" for l'
    using t by (cases l; cases l') (auto simp: get_link_def nth_list_update)
  moreover have "set_cache_ptr l v h = Some ?h" using t by (simp add: set_cache_ptr_def)
  moreover have "dom (tables ?h) = dom (tables h)" using t(1) by auto
  ultimately show thesis using inv that by blast
qed

lemma handles_upd:
  assumes "handles_ok u C" "handle_ok n v"
  shows "handles_ok (u(c := n)) (C(c := v))"
  using assms by (simp add: handles_ok_def)

lemma link_loop_open:
  assumes "link_loop h C" "get_link l h = Some lk" "cache_ptr lk = None" "C c = None" "clink cf = Some l"
    and h': "\<And>l'. get_link l' h' = (if l' = l then Some (lk\<lparr>cache_ptr := Some c\<rparr>) else get_link l' h)"
  shows "link_loop h' (C(c \<mapsto> cf))"
  unfolding link_loop_def
proof (intro conjI allI impI)
  fix c' cf' assume c': "(C(c \<mapsto> cf)) c' = Some cf'"
  show "\<exists>l lk. clink cf' = Some l \<and> get_link l h' = Some lk \<and> cache_ptr lk = Some c'"
  proof (cases "c' = c")
    case True
    with c' assms(5) h' show ?thesis by simp
  next
    case False
    with c' have "C c' = Some cf'" by simp
    with assms(1) obtain l' lk' where l': "clink cf' = Some l'" "get_link l' h = Some lk'" "cache_ptr lk' = Some c'"
      unfolding link_loop_def by blast
    with assms(2,3) have "l' \<noteq> l" by auto
    with l' h' show ?thesis by simp
  qed
next
  fix l' lk' c' assume l': "get_link l' h' = Some lk'" "cache_ptr lk' = Some c'"
  show "\<exists>cf'. (C(c \<mapsto> cf)) c' = Some cf' \<and> clink cf' = Some l'"
  proof (cases "l' = l")
    case True
    with l' h' assms(5) show ?thesis by auto
  next
    case False
    with l'(1) h' have "get_link l' h = Some lk'" by simp
    with l'(2) assms(1) obtain cf' where "C c' = Some cf'" "clink cf' = Some l'"
      unfolding link_loop_def by blast
    with assms(4) show ?thesis by (cases "c' = c") simp_all
  qed
qed

lemma link_loop_close:
  assumes "link_loop h C" "C c = Some cf" "clink cf = Some l" "get_link l h = Some lk"
    and h': "\<And>l'. get_link l' h' = (if l' = l then Some (lk\<lparr>cache_ptr := None\<rparr>) else get_link l' h)"
  shows "link_loop h' (C(c := None))"
  unfolding link_loop_def
proof (intro conjI allI impI)
  have "\<exists>l lk. clink cf = Some l \<and> get_link l h = Some lk \<and> cache_ptr lk = Some c"
    using assms(1,2) unfolding link_loop_def by blast
  with assms(3,4) have self: "cache_ptr lk = Some c" by simp
  fix c' cf' assume "(C(c := None)) c' = Some cf'"
  then have c': "c' \<noteq> c" "C c' = Some cf'" by (auto split: if_splits)
  with assms(1) obtain l' lk' where l': "clink cf' = Some l'" "get_link l' h = Some lk'" "cache_ptr lk' = Some c'"
    unfolding link_loop_def by blast
  with self assms(4) c'(1) have "l' \<noteq> l" by auto
  with l' h' show "\<exists>l lk. clink cf' = Some l \<and> get_link l h' = Some lk \<and> cache_ptr lk = Some c'" by simp
next
  fix l' lk' c' assume l': "get_link l' h' = Some lk'" "cache_ptr lk' = Some c'"
  then have l: "l' \<noteq> l" "get_link l' h = Some lk'" using h' [of l'] by (auto split: if_splits)
  with l'(2) assms(1) obtain cf' where cf': "C c' = Some cf'" "clink cf' = Some l'"
    unfolding link_loop_def by blast
  with l(1) assms(2,3) have "c' \<noteq> c" by auto
  with cf' show "\<exists>cf'. (C(c := None)) c' = Some cf' \<and> clink cf' = Some l'" by simp
qed

lemma open_inv_open:
  assumes inv: "open_inv (g(fst l := g (fst l) + 1)) u s" and l: "get_link l (tree s) = Some lk" "cache_ptr lk = None"
    and cf: "clink cf = Some l" "cache_opened cf = 1"
    and h: "set_cache_ptr l (Some (next_cache s)) (tree s) = Some h"
  shows "open_inv g (u(next_cache s := 1))
    (put_cache (next_cache s) cf (s\<lparr>tree := h, next_cache := Suc (next_cache s)\<rparr>)) \<and> u (next_cache s) = 0"
proof -
  let ?c = "next_cache s" and ?C = "caches s"
  note fresh = new_address [OF inv]
  note I = open_invD [OF inv]
  from set_cache_ptr_ok [OF l(1), of "Some ?c"] obtain h' where "set_cache_ptr l (Some ?c) (tree s) = Some h'" and
    h': "\<And>l'. get_link l' h' = (if l' = l then Some (lk\<lparr>cache_ptr := Some ?c\<rparr>) else get_link l' (tree s))"
      "\<And>g. tree_inv g (tree s) \<Longrightarrow> tree_inv g h'"
      "dom (tables h') = dom (tables (tree s))" by blast
  with h have "h' = h" by simp
  have "(\<lambda>p. g p + cref (?C(?c \<mapsto> cf)) p) = (\<lambda>p. (g(fst l := g (fst l) + 1)) p + cref ?C p)"
    unfolding cref_add [of ?C ?c cf l, OF I(4) fresh cf(1)] by (auto simp: fun_eq_iff)
  with h'(2) [OF I(1)] have "tree_inv (\<lambda>p. g p + cref (?C(?c \<mapsto> cf)) p) h'" by simp
  moreover have "link_loop h' (?C(?c \<mapsto> cf))"
    by (rule link_loop_open [OF I(2) l fresh cf(1) h'(1)])
  moreover have "handles_ok (u(?c := 1)) (?C(?c \<mapsto> cf))" using cf(2) by (intro handles_upd [OF I(3)]) simp
  moreover have "\<forall>c \<in> dom (?C(?c \<mapsto> cf)). c < Suc ?c" using I(5) by (fastforce simp: less_Suc_eq)
  moreover have "u ?c = 0" using I(3) fresh unfolding handles_ok_def by (metis handle_ok_simps(1))
  ultimately show ?thesis using I(4) \<open>h' = h\<close> by (simp add: open_inv_def put_cache_def)
qed

lemma open_inv_close:
  assumes inv: "open_inv g u s" and cf: "caches s c = Some cf" "clink cf = Some l" "u c = 1"
    and l: "get_link l (tree s) = Some lk" and h: "set_cache_ptr l None (tree s) = Some h"
  shows "open_inv (g(fst l := g (fst l) + 1)) (u(c := 0)) (s\<lparr>tree := h, caches := (caches s)(c := None)\<rparr>)"
proof -
  let ?C = "caches s"
  note I = open_invD [OF inv]
  from set_cache_ptr_ok [OF l, of None] obtain h' where "set_cache_ptr l None (tree s) = Some h'" and
    h': "\<And>l'. get_link l' h' = (if l' = l then Some (lk\<lparr>cache_ptr := None\<rparr>) else get_link l' (tree s))"
      "\<And>g. tree_inv g (tree s) \<Longrightarrow> tree_inv g h'"
      "dom (tables h') = dom (tables (tree s))" by blast
  with h have "h' = h" by simp
  have "0 < cref ?C (fst l)" by (rule cref_pos [OF I(4) cf(1,2)])
  then have "(\<lambda>p. (g(fst l := g (fst l) + 1)) p + cref (?C(c := None)) p) = (\<lambda>p. g p + cref ?C p)"
    unfolding cref_remove [OF I(4) cf(1,2)] by (auto simp: fun_eq_iff)
  with h'(2) [OF I(1)] have
    "tree_inv (\<lambda>p. (g(fst l := g (fst l) + 1)) p + cref (?C(c := None)) p) h'" by simp
  moreover have "link_loop h' (?C(c := None))"
    by (rule link_loop_close [OF I(2) cf(1,2) l h'(1)])
  moreover have "handles_ok (u(c := 0)) (?C(c := None))" by (intro handles_upd [OF I(3)]) simp
  ultimately show ?thesis using I(4,5) \<open>h' = h\<close> by (auto simp: open_inv_def)
qed

lemma open_inv_handle:
  assumes inv: "open_inv g u s" and cf: "caches s c = Some cf0" "clink cf = clink cf0" "cache_opened cf = int n" "0 < n"
  shows "open_inv g (u(c := n)) (put_cache c cf s)"
proof -
  note I = open_invD [OF inv]
  have "link_loop (tree s) ((caches s)(c \<mapsto> cf))"
    unfolding link_loop_def
  proof (intro conjI allI impI)
    fix c' cf' assume c': "((caches s)(c \<mapsto> cf)) c' = Some cf'"
    have "\<exists>cf1. caches s c' = Some cf1 \<and> clink cf1 = clink cf'"
      using c' cf(1,2) by (cases "c' = c") simp_all
    with I(2) show "\<exists>l lk. clink cf' = Some l \<and> get_link l (tree s) = Some lk \<and> cache_ptr lk = Some c'"
      unfolding link_loop_def by metis
  next
    fix l lk c' assume "get_link l (tree s) = Some lk" "cache_ptr lk = Some c'"
    with I(2) obtain cf1 where "caches s c' = Some cf1" "clink cf1 = Some l"
      unfolding link_loop_def by blast
    with cf(1,2) show "\<exists>cf'. ((caches s)(c \<mapsto> cf)) c' = Some cf' \<and> clink cf' = Some l"
      by (cases "c' = c") simp_all
  qed
  moreover have "handles_ok (u(c := n)) ((caches s)(c \<mapsto> cf))" using cf by (intro handles_upd [OF I(3)]) simp
  ultimately show ?thesis
    using I cref_same [of "caches s" c cf0 cf] cf by (auto simp: open_inv_def put_cache_def)
qed

section \<open>Opening\<close>

text \<open>What the checks of an opening have established for the cache that is handed out.\<close>

definition fits :: "cache_env \<Rightarrow> Link \<Rightarrow> fs \<Rightarrow> Cache \<Rightarrow> bool" where
  "fits e lk fs cf \<longleftrightarrow> 0 < blksz cf \<and> 0 < segbc cf \<and> seg_wf cf \<and>
     segbc cf = max_segbc_of (int (content_length lk)) (blksz cf) \<and>
     mfp cf = Some (path_append (META_DIR (e_dirs e)) (cpath cf)) \<and>
     dfp cf = Some (path_append (DATA_DIR (e_dirs e)) (cpath cf)) \<and>
     (\<exists>name. cpath cf = strndup name PATH_MAX \<and>
        content_length lk \<le> length (contents fs (path_append (DATA_DIR (e_dirs e)) name)))"

lemma Meta_open_frame: "Meta_open d flt fs cf = (r, cf1) \<Longrightarrow>
    \<exists>m. cf1 = cf\<lparr>mfp := m\<rparr> \<and> (r = 0 \<longrightarrow> m = Some (path_append (META_DIR d) (cpath cf)))"
  by (auto simp: Meta_open_def Let_def split: if_splits)

lemma Data_open_frame: "Data_open d flt fs cf = (r, cf1) \<Longrightarrow>
    \<exists>m. cf1 = cf\<lparr>dfp := m\<rparr> \<and> (r = 0 \<longrightarrow> m = Some (path_append (DATA_DIR d) (cpath cf)))"
  by (auto simp: Data_open_def Let_def split: if_splits)

lemma Meta_read_frame: "Meta_read link flt fs cf = (r, cf1) \<Longrightarrow> \<exists>b n g. cf1 = cf\<lparr>blksz := b, segbc := n, seg := g\<rparr>"
  by (cases cf) (auto simp: Meta_read_def Let_def split: option.splits if_splits)

lemma Data_size_contents: "\<not> Data_size d flt fs fn < 0 \<Longrightarrow> Data_size d flt fs fn = int (length (contents fs (path_append (DATA_DIR d) fn)))"
  by (auto simp: Data_size_def contents_def split: option.splits if_splits)

lemma open_checks_frame:
  assumes "open_checks e flt actual_fn link fs cf = (ok, cf1)"
  shows "clink cf1 = clink cf \<and> cache_opened cf1 = cache_opened cf \<and> waiters cf1 = waiters cf \<and>
    bgt_sem cf1 = bgt_sem cf \<and> num_bg_workers cf1 = num_bg_workers cf \<and> cpath cf1 = cpath cf"
proof -
  obtain r1 c1 where 1: "Meta_open (e_dirs e) (flt S_meta_open) fs cf = (r1, c1)" by force
  obtain r2 c2 where 2: "Meta_read (Some link) (flt S_meta_read) fs c1 = (r2, c2)" by force
  obtain r3 c3 where 3: "Data_open (e_dirs e) (flt S_data_open) fs c2 = (r3, c3)" by force
  have "cf1 = c1 \<or> cf1 = c2 \<or> cf1 = c3"
    using assms 1 2 3 by (auto simp: open_checks_def Let_def split: if_splits)
  moreover obtain a where "c1 = cf\<lparr>mfp := a\<rparr>" using Meta_open_frame [OF 1] by blast
  moreover obtain b n g where "c2 = c1\<lparr>blksz := b, segbc := n, seg := g\<rparr>" using Meta_read_frame [OF 2] by blast
  moreover obtain f where "c3 = c2\<lparr>dfp := f\<rparr>" using Data_open_frame [OF 3] by blast
  ultimately show ?thesis by auto
qed

lemma open_checks_fits:
  assumes "open_checks e flt actual_fn link fs cf = (True, cf1)" "cpath cf = strndup actual_fn PATH_MAX"
  shows "fits e link fs cf1"
proof -
  obtain r1 c1 where 1: "Meta_open (e_dirs e) (flt S_meta_open) fs cf = (r1, c1)" by force
  obtain r2 c2 where 2: "Meta_read (Some link) (flt S_meta_read) fs c1 = (r2, c2)" by force
  obtain r3 c3 where 3: "Data_open (e_dirs e) (flt S_data_open) fs c2 = (r3, c3)" by force
  let ?sz = "Data_size (e_dirs e) (flt S_data_size) fs actual_fn"
  have r: "r1 = 0" "r2 = 0" "r3 = 0" "cf1 = c3" "\<not> ?sz < 0" "content_length link \<le> nat ?sz"
    using assms(1) 1 2 3 by (auto simp: open_checks_def Let_def split: if_splits)
  obtain fp where m: "mfp c1 = Some fp" "0 < blksz c2" "seg_wf c2" "0 < segbc c2"
    "to_size (dec_int 8 (slice 8 8 (contents fs fp))) = content_length link"
    "segbc c2 = max_segbc_of (dec_int 8 (slice 8 8 (contents fs fp))) (blksz c2)"
    using Meta_read_accepted [OF 2 [unfolded r(2)]] by auto
  have pos: "0 < dec_int 8 (slice 8 8 (contents fs fp))" "dec_int 8 (slice 8 8 (contents fs fp)) < 2 ^ 63"
    using 2 r(2) m(1,2) by (auto simp: Meta_read_def Let_def split: if_splits option.splits)
  then have len: "dec_int 8 (slice 8 8 (contents fs fp)) = int (content_length link)"
    using m(5) by (simp add: to_size_nonneg flip: m(5))
  obtain c where "c1 = cf\<lparr>mfp := c\<rparr>" "c = Some (path_append (META_DIR (e_dirs e)) (cpath cf))"
    using Meta_open_frame [OF 1] r(1) by blast
  moreover obtain b n g where "c2 = c1\<lparr>blksz := b, segbc := n, seg := g\<rparr>" using Meta_read_frame [OF 2] by blast
  moreover obtain f where "c3 = c2\<lparr>dfp := f\<rparr>" "f = Some (path_append (DATA_DIR (e_dirs e)) (cpath c2))"
    using Data_open_frame [OF 3] r(3) by blast
  moreover have "content_length link \<le> length (contents fs (path_append (DATA_DIR (e_dirs e)) actual_fn))"
    using r(5,6) Data_size_contents [OF r(5)] by simp
  ultimately show ?thesis using m(2-4,6) len assms(2) r(4) by (auto simp: fits_def seg_wf_def)
qed

end
