(* ===== verification/CacheOpenProps.thy ===== *)
theory CacheOpenProps
  imports CacheOpenInv
begin

text \<open>
  The properties of \<open>Cache_open\<close> and \<open>Cache_close\<close> (\<open>src/cache.c\<close>): the books stay balanced
  whatever fails, and with a working file system an opening repairs what it finds.
\<close>

section \<open>One round of the loop\<close>

lemma Cache_alloc_fields [simp]:
  "cache_opened (Cache_alloc cfg) = 1" "waiters (Cache_alloc cfg) = 0" "clink (Cache_alloc cfg) = None"
  by (simp_all add: Cache_alloc_def Let_def)

lemma Cache_new_eq: "Cache_new e s = (next_cache s,
    put_cache (next_cache s) (Cache_alloc (e_cfg e)) (s\<lparr>next_cache := Suc (next_cache s)\<rparr>))"
  by (simp add: Cache_new_def)

lemma put_cache_simps [simp]:
  "tree (put_cache c cf s) = tree s" "files (put_cache c cf s) = files s"
  "next_cache (put_cache c cf s) = next_cache s" "caches (put_cache c cf s) = (caches s)(c \<mapsto> cf)"
  by (simp_all add: put_cache_def)

text \<open>The refresh at the start of a round: delete what is left and create the files anew.\<close>

definition renew :: "cache_env \<Rightarrow> site_faults \<Rightarrow> cstr \<Rightarrow> cstr \<Rightarrow> cstate \<Rightarrow> (int \<times> cstate) option" where
  "renew e flt fn actual_fn s =
    (case Cache_exist (e_dirs e) (flt S_exist) (files s) actual_fn of
       None \<Rightarrow> None
     | Some (missing, fs1) \<Rightarrow>
         (if missing \<noteq> 0 then
            (case Cache_delete e (flt S_unlink_meta) (flt S_unlink_data) fn (s\<lparr>files := fs1\<rparr>) of
               None \<Rightarrow> None
             | Some s1 \<Rightarrow> Cache_create e flt fn s1)
          else Some (0, s\<lparr>files := fs1\<rparr>)))"

text \<open>The rest of the round.\<close>

definition try_files ::
    "cache_env \<Rightarrow> site_faults \<Rightarrow> cstr \<Rightarrow> cstr \<Rightarrow> linkptr \<Rightarrow> Link \<Rightarrow> cstate \<Rightarrow> (nat option option \<times> cstate) option" where
  "try_files e flt fn actual_fn l link s =
    (let c = next_cache s;
         s1 = s\<lparr>next_cache := Suc c\<rparr>;
         cf = (Cache_alloc (e_cfg e))\<lparr>cpath := strndup actual_fn PATH_MAX, clink := Some l\<rparr>
     in case open_checks e flt actual_fn link (files s) cf of
          (ok, cf1) \<Rightarrow>
            if ok then (case set_cache_ptr l (Some c) (tree s) of
                          None \<Rightarrow> None
                        | Some h \<Rightarrow> Some (Some (Some c), put_cache c cf1 (s1\<lparr>tree := h\<rparr>)))
            else map_option (\<lambda>s5. (None, s5))
                   (Cache_delete e (flt S_undo_meta) (flt S_undo_data) fn (s1\<lparr>caches := (caches s)(c := None)\<rparr>)))"

lemma open_attempt_eq:
  "open_attempt e flt fn actual_fn l s =
    (case renew e flt fn actual_fn s of
       None \<Rightarrow> None
     | Some (r, s2) \<Rightarrow>
         if r \<noteq> 0 then map_option (\<lambda>s3. (Some None, s3)) (drop_link e l s2)
         else (case get_link l (tree s2) of
                 None \<Rightarrow> None
               | Some link \<Rightarrow> try_files e flt fn actual_fn l link s2))"
proof -
  have free: "Cache_free c (put_cache c cf1 (put_cache c cf0 s)) = Some (s\<lparr>caches := (caches s)(c := None)\<rparr>)"
    if "waiters cf1 = 0" for c cf1 cf0 s
    using that by (simp add: Cache_free_def put_cache_def)
  have waiters: "waiters cf1 = 0"
    if "open_checks e flt actual_fn link fs ((Cache_alloc (e_cfg e))\<lparr>cpath := p, clink := q\<rparr>) = (ok, cf1)"
    for ok cf1 link fs p q
    using open_checks_frame [OF that] by simp
  have put2: "put_cache c cf1 ((put_cache c cf0 s)\<lparr>tree := h\<rparr>) = put_cache c cf1 (s\<lparr>tree := h\<rparr>)" for c cf1 cf0 s h
    by (simp add: put_cache_def)
  show ?thesis
    unfolding open_attempt_def renew_def try_files_def Cache_new_eq Let_def
    by (auto split: option.split prod.split simp: put2 dest!: waiters simp: free)
qed

definition grown :: "nat \<Rightarrow> cstate \<Rightarrow> cstate \<Rightarrow> bool" where
  "grown k s s' \<longleftrightarrow> card (dom (tables (tree s'))) \<le> card (dom (tables (tree s))) + k \<and>
     root_tbl (tree s') = root_tbl (tree s)"

lemma calm_grown: "calm k s s' \<Longrightarrow> grown k s s'"
  by (simp add: calm_def grown_def keeps_def)

lemma set_cache_ptr_root: "set_cache_ptr l c h = Some h' \<Longrightarrow> root_tbl h' = root_tbl h"
  by (auto simp: set_cache_ptr_def put_def split: option.splits if_splits)

lemma grown_trans: "grown k s s' \<Longrightarrow> grown k' s' s'' \<Longrightarrow> k + k' \<le> n \<Longrightarrow> grown n s s''"
  by (simp add: grown_def)

lemma grown_after: "grown k' s1 s' \<and> P \<Longrightarrow> calm k s s1 \<Longrightarrow> k + k' \<le> n \<Longrightarrow> grown n s s'"
  by (simp add: grown_def calm_def keeps_def)

lemma grown_mono: "grown k s s' \<Longrightarrow> k \<le> k' \<Longrightarrow> grown k' s s'"
  by (simp add: grown_def)

lemma room_grown: "grown k s s' \<Longrightarrow> room e (k + k') s \<Longrightarrow> room e k' s'"
  by (simp add: grown_def room_def)

lemma renew_inv:
  assumes "open_inv g u s" "env_ok e" "room e (2 * length fn) s" "renew e flt fn actual_fn s = Some (r, s')"
  shows "calm (2 * length fn) s s' \<and> open_inv g u s'"
proof -
  obtain missing fs1 where x: "Cache_exist (e_dirs e) (flt S_exist) (files s) actual_fn = Some (missing, fs1)"
    using assms(4) by (auto simp: renew_def split: option.splits)
  let ?s = "s\<lparr>files := fs1\<rparr>"
  have inv: "open_inv g u ?s" "room e (length fn + length fn) ?s" using assms(1,3) by (simp_all flip: mult_2)
  show ?thesis
  proof (cases "missing = 0")
    case True
    with assms(4) x inv(1) show ?thesis by (auto simp: renew_def)
  next
    case False
    with assms(4) x obtain s1 where
      s1: "Cache_delete e (flt S_unlink_meta) (flt S_unlink_data) fn ?s = Some s1" "Cache_create e flt fn s1 = Some (r, s')"
      by (auto simp: renew_def split: option.splits)
    have d: "calm (length fn) ?s s1" "open_inv g u s1"
      using Cache_delete_inv [OF inv(1) assms(2) room_mono [OF inv(2)] s1(1)] by simp_all
    have c: "calm (length fn) s1 s'" "open_inv g u s'"
      using Cache_create_inv [OF d(2) assms(2) room_calm [OF d(1) inv(2)] s1(2)] by simp_all
    show ?thesis using calm_trans [OF d(1) c(1)] c(2) by (simp add: mult_2)
  qed
qed

lemma open_attempt_inv:
  assumes inv: "open_inv (g(fst l := g (fst l) + 1)) u s" and "env_ok e" and room: "room e (3 * length fn) s"
    and l: "get_link l (tree s) = Some lk" "cache_ptr lk = None"
    and run: "open_attempt e flt fn actual_fn l s = Some (r, s')"
  shows "case r of
      None \<Rightarrow> calm (3 * length fn) s s' \<and> open_inv (g(fst l := g (fst l) + 1)) u s'
    | Some None \<Rightarrow> grown (3 * length fn) s s' \<and> open_inv g u s'
    | Some (Some c) \<Rightarrow> grown (3 * length fn) s s' \<and> u c = 0 \<and> open_inv g (u(c := 1)) s' \<and>
        (\<exists>lk' cf. caches s' c = Some cf \<and> clink cf = Some l \<and> get_link l (tree s') = Some lk' \<and> fits e lk' (files s') cf)"
proof -
  let ?g = "g(fst l := g (fst l) + 1)"
  obtain r2 s2 where rn: "renew e flt fn actual_fn s = Some (r2, s2)"
    using run by (auto simp: open_attempt_eq split: option.splits)
  have c2: "calm (2 * length fn) s s2" "open_inv ?g u s2"
    using renew_inv [OF inv assms(2) room_mono [OF room] rn] by simp_all
  have room2: "room e (length fn) s2" by (rule room_calm [OF c2(1) room_mono [OF room]]) simp
  show ?thesis
  proof (cases "r2 = 0")
    case False
    with run rn have d: "r = Some None" "drop_link e l s2 = Some s'" by (auto simp: open_attempt_eq)
    then have "calm 0 s2 s'" "open_inv g u s'" using drop_pinned [OF c2(2) room_mono [OF room2]] by simp_all
    then show ?thesis using grown_trans [OF calm_grown [OF c2(1)] calm_grown [of 0 s2 s']] d(1) by simp
  next
    case True
    have "0 < ?g (fst l)" by simp
    from pinned_link [OF inv c2 this l(1)] obtain link where
      link: "get_link l (tree s2) = Some link" "link\<lparr>next_table := None\<rparr> = lk\<lparr>next_table := None\<rparr>" .
    have ptr: "cache_ptr link = None" using same_fields(1) [OF link(2)] l(2) by simp
    let ?c = "next_cache s2" and ?s = "s2\<lparr>next_cache := Suc (next_cache s2)\<rparr>"
    let ?cf = "(Cache_alloc (e_cfg e))\<lparr>cpath := strndup actual_fn PATH_MAX, clink := Some l\<rparr>"
    obtain ok cf1 where chk: "open_checks e flt actual_fn link (files s2) ?cf = (ok, cf1)" by force
    have tf: "try_files e flt fn actual_fn l link s2 = Some (r, s')"
      using run rn True link(1) by (simp add: open_attempt_eq)
    note cf1 = open_checks_frame [OF chk]
    show ?thesis
    proof (cases ok)
      case True
      with tf chk obtain h where h: "set_cache_ptr l (Some ?c) (tree s2) = Some h" "r = Some (Some ?c)"
        "s' = put_cache ?c cf1 (s2\<lparr>tree := h, next_cache := Suc ?c\<rparr>)"
        by (auto simp: try_files_def Let_def split: option.splits)
      have "open_inv g (u(?c := 1)) s' \<and> u ?c = 0"
        unfolding h(3) by (rule open_inv_open [OF c2(2) link(1) ptr _ _ h(1)]) (use cf1 in simp_all)
      moreover obtain h' where "set_cache_ptr l (Some ?c) (tree s2) = Some h'"
        "\<And>l'. get_link l' h' = (if l' = l then Some (link\<lparr>cache_ptr := Some ?c\<rparr>) else get_link l' (tree s2))"
        "dom (tables h') = dom (tables (tree s2))"
        by (rule set_cache_ptr_ok [OF link(1)]) blast
      then have "get_link l h = Some (link\<lparr>cache_ptr := Some ?c\<rparr>)" "dom (tables h) = dom (tables (tree s2))"
        using h(1) by simp_all
      moreover from this(2) have "grown 0 s2 s'" using h(3) set_cache_ptr_root [OF h(1)] by (simp add: grown_def)
      then have "grown (3 * length fn) s s'" using grown_trans [OF calm_grown [OF c2(1)]] by simp
      moreover have "fits e link (files s2) cf1"
        by (rule open_checks_fits [OF chk [unfolded eqTrueI [OF True]]]) simp
      then have "fits e (link\<lparr>cache_ptr := Some ?c\<rparr>) (files s2) cf1" by (simp add: fits_def)
      ultimately show ?thesis using h cf1 by simp
    next
      case False
      have eq: "?s\<lparr>caches := (caches s2)(?c := None)\<rparr> = ?s" using new_address [OF c2(2)] by (simp add: fun_upd_idem)
      from False tf chk eq have d: "r = None" "Cache_delete e (flt S_undo_meta) (flt S_undo_data) fn ?s = Some s'"
        by (auto simp: try_files_def Let_def)
      have "room e (length fn) ?s" using room2 by (simp add: room_def)
      from Cache_delete_inv [OF open_inv_alloc(1) [OF c2(2)] assms(2) this d(2)]
      have "calm (length fn) ?s s'" "open_inv ?g u s'" by simp_all
      moreover have "calm (2 * length fn) s ?s" using calm_trans [OF c2(1) open_inv_alloc(2) [of 0 s2]] by simp
      ultimately show ?thesis using calm_trans [of "2 * length fn" s ?s "length fn" s'] d(1) by simp
    qed
  qed
qed

section \<open>The whole of an opening, and a closing\<close>

definition opened_new :: "cache_env \<Rightarrow> nat \<Rightarrow> cstate \<Rightarrow> bool" where
  "opened_new e c s \<longleftrightarrow> (\<exists>l lk cf. caches s c = Some cf \<and> clink cf = Some l \<and>
     get_link l (tree s) = Some lk \<and> cache_ptr lk = Some c \<and> fits e lk (files s) cf)"

lemma opened_new_intro:
  assumes "open_inv g u s" "caches s c = Some cf" "clink cf = Some l" "get_link l (tree s) = Some lk" "fits e lk (files s) cf"
  shows "opened_new e c s"
proof -
  have "\<exists>l lk. clink cf = Some l \<and> get_link l (tree s) = Some lk \<and> cache_ptr lk = Some c"
    using open_invD(2) [OF assms(1)] assms(2) unfolding link_loop_def by blast
  with assms show ?thesis by (auto simp: opened_new_def)
qed

lemma open_attempts_inv:
  assumes "env_ok e"
  shows "open_inv (g(fst l := g (fst l) + 1)) u s \<Longrightarrow> room e (3 * length fn * n) s \<Longrightarrow>
    get_link l (tree s) = Some lk \<Longrightarrow> cache_ptr lk = None \<Longrightarrow>
    open_attempts e flt fn actual_fn l n s = Some (r, s') \<Longrightarrow>
    grown (3 * length fn * n) s s' \<and>
    (case r of None \<Rightarrow> open_inv g u s'
     | Some c \<Rightarrow> u c = 0 \<and> open_inv g (u(c := 1)) s' \<and> opened_new e c s')"
proof (induction n arbitrary: s lk)
  case 0
  then have "drop_link e l s = Some s'" "r = None" by auto
  with drop_pinned [OF 0(1), of e] 0(2) calm_grown show ?case by simp
next
  case (Suc n)
  let ?g = "g(fst l := g (fst l) + 1)"
  obtain r1 s1 where r1: "open_attempt e (flt n) fn actual_fn l s = Some (r1, s1)"
    using Suc.prems(5) by (auto split: option.splits)
  note step = open_attempt_inv [OF Suc.prems(1) assms room_mono [OF Suc.prems(2)] Suc.prems(3,4) r1]
  show ?case
  proof (cases r1)
    case (Some r2)
    then have "r = r2" "s' = s1" using Suc.prems(5) r1 by auto
    show ?thesis
    proof (cases r2)
      case None
      with step Some \<open>r = r2\<close> \<open>s' = s1\<close> show ?thesis by (auto intro: grown_mono)
    next
      case (Some c)
      with step \<open>r1 = Some r2\<close> have c: "u c = 0" "open_inv g (u(c := 1)) s1"
        and gr: "grown (3 * length fn) s s1"
        and ex: "\<exists>lk' cf. caches s1 c = Some cf \<and> clink cf = Some l \<and> get_link l (tree s1) = Some lk' \<and> fits e lk' (files s1) cf"
        by simp_all
      from ex have "opened_new e c s1" using opened_new_intro [OF c(2)] by blast
      with c(1,2) Some \<open>r = r2\<close> \<open>s' = s1\<close> grown_mono [OF gr] show ?thesis by simp
    qed
  next
    case None
    then have c: "calm (3 * length fn) s s1" "open_inv ?g u s1" using step by simp_all
    have "0 < ?g (fst l)" by simp
    from pinned_link [OF Suc.prems(1) c this Suc.prems(3)] obtain lk1 where
      lk1: "get_link l (tree s1) = Some lk1" "lk1\<lparr>next_table := None\<rparr> = lk\<lparr>next_table := None\<rparr>" .
    have "cache_ptr lk1 = None" using same_fields(1) [OF lk1(2)] Suc.prems(4) by simp
    moreover have "room e (3 * length fn * n) s1" by (rule room_calm [OF c(1)]) (use Suc.prems(2) in simp)
    moreover have "open_attempts e flt fn actual_fn l n s1 = Some (r, s')" using Suc.prems(5) r1 None by simp
    ultimately have IH: "grown (3 * length fn * n) s1 s' \<and>
      (case r of None \<Rightarrow> open_inv g u s'
       | Some c \<Rightarrow> u c = 0 \<and> open_inv g (u(c := 1)) s' \<and> opened_new e c s')"
      using Suc.IH [OF c(2) _ lk1(1)] by blast
    then show ?thesis using grown_after [OF IH c(1), of "3 * length fn * Suc n"] by simp
  qed
qed

lemma Cache_open_inv:
  assumes inv: "open_inv g u s" and env: "env_ok e" and room: "room e (7 * length fn) s"
    and run: "Cache_open e flt fn s = Some (r, s')"
  shows "grown (7 * length fn) s s' \<and> (case r of None \<Rightarrow> open_inv g u s'
    | Some c \<Rightarrow> open_inv g (u(c := u c + 1)) s' \<and> (u c = 0 \<longrightarrow> opened_new e c s'))"
proof -
  have "room e (length fn) s" by (rule room_mono [OF room]) simp
  from find_link_inv [OF inv env this] obtain r1 s1 where
    r1: "find_link e fn s = Some (r1, s1)" "calm (length fn) s s1"
    "case r1 of None \<Rightarrow> open_inv g u s1
     | Some l \<Rightarrow> open_inv (g(fst l := g (fst l) + 1)) u s1 \<and> get_link l (tree s1) \<noteq> None" by auto
  show ?thesis
  proof (cases r1)
    case None
    with r1 run show ?thesis by (auto simp: Cache_open_def intro: grown_mono [OF calm_grown])
  next
    case (Some l)
    let ?g = "g(fst l := g (fst l) + 1)"
    from Some r1(3) obtain link where l: "open_inv ?g u s1" "get_link l (tree s1) = Some link" by auto
    have room1: "room e (3 * length fn * 2) s1" by (rule room_calm [OF r1(2)]) (use room in simp)
    show ?thesis
    proof (cases "cache_ptr link")
      case c: (Some c)
      obtain cf where cf: "caches s1 c = Some cf" "clink cf = Some l"
        using open_invD(2) [OF l(1)] l(2) c unfolding link_loop_def by blast
      let ?cf = "cf\<lparr>cache_opened := cache_opened cf + 1\<rparr>"
      have u: "cache_opened cf = int (u c)" "0 < u c"
        using open_invD(3) [OF l(1)] cf(1) unfolding handles_ok_def by (metis handle_ok_simps(2))+
      have inv2: "open_inv ?g (u(c := u c + 1)) (put_cache c ?cf s1)"
        by (rule open_inv_handle [OF l(1) cf(1)]) (use u in simp_all)
      have "room e 0 (put_cache c ?cf s1)" using room_mono [OF room1, of 0] by (simp add: room_def)
      from drop_pinned [OF inv2 this] obtain s2 where
        s2: "drop_link e l (put_cache c ?cf s1) = Some s2" "calm 0 (put_cache c ?cf s1) s2"
        "open_inv g (u(c := u c + 1)) s2" by blast
      have c2: "caches s2 c = Some ?cf" using s2(2) by (simp add: calm_def)
      have "\<exists>l' lk. clink ?cf = Some l' \<and> get_link l' (tree s2) = Some lk \<and> cache_ptr lk = Some c"
        using open_invD(2) [OF s2(3)] c2 unfolding link_loop_def by blast
      then obtain lk where lk: "get_link l (tree s2) = Some lk" "cache_ptr lk = Some c" using cf(2) by auto
      have "r = Some c \<and> s' = s2" using run r1(1) Some l(2) c cf s2(1) lk by (simp add: Cache_open_def)
      moreover have "grown 0 s1 s2" using calm_grown [OF s2(2)] by (simp add: grown_def)
      then have "grown (7 * length fn) s s2" using grown_trans [OF calm_grown [OF r1(2)]] by simp
      ultimately show ?thesis using s2(3) u(2) by simp
    next
      case None
      show ?thesis
      proof (cases "\<exists>name. open_name e fn link = Some (Some name) \<and> content_length link \<noteq> 0")
        case True
        then obtain name where "open_name e fn link = Some (Some name)" "content_length link \<noteq> 0" by blast
        with run r1(1) Some l(2) None have run2: "open_attempts e flt fn name l 2 s1 = Some (r, s')"
          by (simp add: Cache_open_def)
        note A = open_attempts_inv [OF env l(1) room1 l(2) None run2]
        show ?thesis
        proof (cases r)
          case None
          with A grown_after [OF A r1(2), of "7 * length fn"] show ?thesis by simp
        next
          case (Some c)
          with A have "u c = 0" "open_inv g (u(c := 1)) s'" "opened_new e c s'" by simp_all
          with Some grown_after [OF A r1(2), of "7 * length fn"] show ?thesis by simp
        qed
      next
        case False
        with run r1(1) Some l(2) None have "r = None" "drop_link e l s1 = Some s'"
          by (auto simp: Cache_open_def split: option.splits if_splits)
        with drop_pinned [OF l(1) room_mono [OF room1]] have "calm 0 s1 s'" "open_inv g u s'" by simp_all
        with grown_trans [OF calm_grown [OF r1(2)] calm_grown] \<open>r = None\<close> show ?thesis by simp
      qed
    qed
  qed
qed

lemma Cache_close_inv:
  assumes inv: "open_inv g u s" and "0 < u c" and room: "room e 0 s" and run: "Cache_close e flt c s = Some s'"
  shows "open_inv g (u(c := u c - 1)) s' \<and> (caches s' c = None \<longleftrightarrow> u c = 1) \<and> (\<forall>c'. c' \<noteq> c \<longrightarrow> caches s' c' = caches s c')"
proof -
  have h: "handle_ok (u c) (caches s c)" using open_invD(3) [OF inv] by (simp add: handles_ok_def)
  then obtain cf0 where cf0: "caches s c = Some cf0" "cache_opened cf0 = int (u c)"
    using assms(2) by (cases "caches s c") auto
  let ?cf = "cf0\<lparr>cache_opened := cache_opened cf0 - 1\<rparr>"
  show ?thesis
  proof (cases "u c = 1")
    case False
    with cf0 assms(2) run have s': "s' = put_cache c ?cf s" by (simp add: Cache_close_def)
    have "open_inv g (u(c := u c - 1)) s'"
      unfolding s' by (rule open_inv_handle [OF inv cf0(1)]) (use cf0(2) assms(2) False in simp_all)
    then show ?thesis using False s' by simp
  next
    case True
    obtain l lk where l: "clink cf0 = Some l" "get_link l (tree s) = Some lk"
      using open_invD(2) [OF inv] cf0(1) unfolding link_loop_def by blast
    obtain h v f s1 where h: "set_cache_ptr l None (tree s) = Some h"
      "Cache_free c (put_cache c (?cf\<lparr>bgt_sem := v\<rparr>) (s\<lparr>tree := h, files := f\<rparr>)) = Some s1" "drop_link e l s1 = Some s'"
      using run cf0 True l by (auto simp: Cache_close_def Let_def split: option.splits if_splits)
    let ?s = "s\<lparr>tree := h, caches := (caches s)(c := None)\<rparr>"
    have s1: "s1 = ?s\<lparr>files := f\<rparr>"
      using h(2) by (auto simp: Cache_free_def put_cache_def split: if_splits)
    have inv1: "open_inv (g(fst l := g (fst l) + 1)) (u(c := 0)) s1"
      using open_inv_close [OF inv cf0(1) l(1) True l(2) h(1)] s1 by simp
    have "dom (tables h) = dom (tables (tree s))"
      using set_cache_ptr_ok [OF l(2), of None] h(1) by (metis option.inject)
    then have "room e 0 s1" using room s1 by (simp add: room_def)
    from drop_pinned [OF inv1 this] h(3) have "calm 0 s1 s'" "open_inv g (u(c := 0)) s'" by auto
    then show ?thesis using True s1 by (simp add: calm_def)
  qed
qed

end
