(* ===== verification/CacheOpenRepair.thy ===== *)
theory CacheOpenRepair
  imports CacheOpenProps
begin

text \<open>
  \<open>Cache_open\<close> (\<open>src/cache.c\<close>) on a file system that works: whatever the two files of the cache
  hold, a stale or torn metadata file, a data file that is too short, one without the other,
  the opening ends with a fresh or accepted pair and a cache for it.
\<close>

section \<open>Looking up a link that is held\<close>

text \<open>The path is loaded, its link is a proper file, and somebody holds the table of the link.\<close>

definition file_ok :: "cache_env \<Rightarrow> cstr \<Rightarrow> Link \<Rightarrow> bool" where
  "file_ok e key lk \<longleftrightarrow> mode (e_cfg e) = NORMAL \<and> 0 < e_fuel e \<and>
     url_to_cache_path (e_unescape e) (e_root_url e) (e_root_offset e) (Some (f_url lk)) = Some key \<and>
     length key \<le> PATH_MAX \<and>
     path_append (META_DIR (e_dirs e)) key \<noteq> path_append (DATA_DIR (e_dirs e)) key \<and>
     0 < data_blksz (e_cfg e) \<and> data_blksz (e_cfg e) < 2 ^ 31 \<and>
     0 < content_length lk \<and> int (content_length lk) \<le> INT64_MAX - data_blksz (e_cfg e) \<and>
     - (2 ^ 63) \<le> link_time lk \<and> link_time lk < 2 ^ 63"

definition resolved :: "cstr list \<Rightarrow> linkptr \<Rightarrow> lheap \<Rightarrow> bool" where
  "resolved ns l h \<longleftrightarrow> list_all component ns \<and> ns \<noteq> [] \<and> length (join ns) \<le> PATH_MAX \<and>
     (\<exists>r. root_tbl h = Some r \<and> walk h r ns = Found l)"

definition held :: "linkptr \<Rightarrow> lheap \<Rightarrow> bool" where
  "held l h \<longleftrightarrow> (\<exists>t. tables h (fst l) = Some t \<and> 0 < refcount t)"

lemma walk_refcount:
  assumes "tables h p = Some t"
  shows "walk (put p (t\<lparr>refcount := n\<rparr>) h) q ns = walk h q ns"
proof (induction ns arbitrary: q)
  case Nil
  show ?case by simp
next
  case (Cons m ms)
  show ?case
  proof (cases "q = p")
    case True
    with assms Cons show ?thesis by (simp add: lookup_entry_def split: option.split)
  next
    case False
    with Cons show ?thesis by (simp split: option.split)
  qed
qed

lemma find_resolved:
  assumes "resolved ns l (tree s)" "tables (tree s) (fst l) = Some t"
  shows "find_link e (join ns) s = Some (Some l, s\<lparr>tree := put (fst l) (t\<lparr>refcount := refcount t + 1\<rparr>) (tree s)\<rparr>)"
proof -
  obtain r where r: "list_all component ns" "ns \<noteq> []" "length (join ns) \<le> PATH_MAX"
    "root_tbl (tree s) = Some r" "walk (tree s) r ns = Found l"
    using assms(1) by (auto simp: resolved_def)
  obtain p i where l: "l = (p, i)" by force
  from path_to_Link_resolves_parts(2) [OF r(1-4)] r(5) assms(2) l show ?thesis by (simp add: find_link_def)
qed

lemma resolved_pinned:
  assumes "resolved ns l h" "tables h (fst l) = Some t"
  shows "resolved ns l (put (fst l) (t\<lparr>refcount := n\<rparr>) h)"
  using assms walk_refcount [OF assms(2)] by (simp add: resolved_def)

lemma get_link_refcount:
  assumes "tables h p = Some t"
  shows "get_link l (put p (t\<lparr>refcount := n\<rparr>) h) = get_link l h"
  using assms by (simp add: get_link_def)

text \<open>While somebody else holds the table, a lookup and its release leave the tree as it was.\<close>

lemma drop_held:
  assumes "tables (tree s) (fst l) = Some t" "0 < refcount t" "0 < e_fuel e"
  shows "drop_link e l (s\<lparr>tree := put (fst l) (t\<lparr>refcount := refcount t + 1\<rparr>) (tree s), next_cache := n,
      files := f\<rparr>) = Some (s\<lparr>next_cache := n, files := f\<rparr>)"
proof -
  obtain k where k: "e_fuel e = Suc k" using assms(3) by (cases "e_fuel e") auto
  have "put (fst l) t (put (fst l) (t\<lparr>refcount := refcount t + 1\<rparr>) (tree s)) = tree s"
    using assms(1) by (simp add: put_def fun_upd_idem)
  then show ?thesis using assms(1,2) k by (simp add: drop_link_def unref_step_def Let_def)
qed

lemma delete_held:
  assumes "resolved ns l (tree s)" "held l (tree s)" "get_link l (tree s) = Some lk" "file_ok e key lk"
  shows "Cache_delete e fm fd (join ns) s = Some (unlink_pair (e_dirs e) fm fd key s)"
proof -
  obtain t where t: "tables (tree s) (fst l) = Some t" "0 < refcount t" using assms(2) by (auto simp: held_def)
  from drop_held [OF t, where e = e and f = "files (unlink_pair (e_dirs e) fm fd key s)" and n = "next_cache s"]
    find_resolved [OF assms(1) t(1), of e] assms(3,4) t(1)
  show ?thesis
    by (simp add: Cache_delete_def get_link_refcount file_ok_def unlink_pair_def Let_def)
qed

section \<open>Creating the files\<close>

abbreviation (input) meta_fn :: "cache_env \<Rightarrow> cstr \<Rightarrow> cstr" where
  "meta_fn e key \<equiv> path_append (META_DIR (e_dirs e)) key"

abbreviation (input) data_fn :: "cache_env \<Rightarrow> cstr \<Rightarrow> cstr" where
  "data_fn e key \<equiv> path_append (DATA_DIR (e_dirs e)) key"

text \<open>The cache that \<open>Cache_create\<close> builds, with every segment absent.\<close>

definition blank :: "cache_env \<Rightarrow> cstr \<Rightarrow> linkptr \<Rightarrow> Link \<Rightarrow> Cache" where
  "blank e key l lk =
    (let n = max_segbc_of (int (content_length lk)) (data_blksz (e_cfg e))
     in (Cache_alloc (e_cfg e))\<lparr>cpath := key, clink := Some l, blksz := data_blksz (e_cfg e), segbc := n,
          seg := replicate (nat n) 0\<rparr>)"

lemma blank_ok: "file_ok e key lk \<Longrightarrow> meta_ok lk ((blank e key l lk)\<lparr>mfp := Some fp\<rparr>)"
  by (simp add: meta_ok_def file_ok_def blank_def Let_def)

definition new_files :: "cache_env \<Rightarrow> cstr \<Rightarrow> linkptr \<Rightarrow> Link \<Rightarrow> fs \<Rightarrow> fs" where
  "new_files e key l lk f = f(meta_fn e key \<mapsto> meta_bytes lk (blank e key l lk),
     data_fn e key \<mapsto> replicate (content_length lk) 0)"

lemma meta_bytes_blank [simp]: "meta_bytes lk (cf\<lparr>mfp := m\<rparr>) = meta_bytes lk cf"
  by (simp add: meta_bytes_def)

lemma no_faults_simps [simp]:
  "\<not> f_open no_faults" "\<not> f_create no_faults" "\<not> f_seek no_faults" "\<not> f_close no_faults"
  "\<not> f_stat_meta no_faults" "\<not> f_stat_data no_faults" "\<not> f_unlink no_faults" "\<not> f_truncate no_faults"
  "\<not> f_read_core no_faults" "f_read_rest no_faults = None" "f_write no_faults = None"
  by (simp_all add: no_faults_def)

lemma create_files_works:
  assumes fresh: "(caches s)(next_cache s := None) = caches s" and ok: "file_ok e key lk"
    and gone: "files s (data_fn e key) = None"
  shows "create_files e (\<lambda>_. no_faults) key l lk s =
    Some (0, s\<lparr>next_cache := Suc (next_cache s), files := new_files e key l lk (files s)\<rparr>)"
proof -
  let ?cf = "blank e key l lk" and ?d = "e_dirs e"
  let ?cf1 = "?cf\<lparr>mfp := Some (meta_fn e key)\<rparr>"
  have len: "content_length lk < 2 ^ 63" "to_off (content_length lk) = int (content_length lk)"
    using ok by (auto simp: file_ok_def cint_simps)
  have seg: "create_segbc (content_length lk) (data_blksz (e_cfg e)) =
      max_segbc_of (int (content_length lk)) (data_blksz (e_cfg e))"
    using ok len(1) by (intro create_segbc_eq) (simp_all add: file_ok_def)
  have cf: "(Cache_alloc (e_cfg e))\<lparr>cpath := strndup key PATH_MAX, clink := Some l, blksz := data_blksz (e_cfg e),
      segbc := create_segbc (content_length lk) (data_blksz (e_cfg e)),
      seg := replicate (nat (create_segbc (content_length lk) (data_blksz (e_cfg e)))) 0\<rparr> = ?cf"
    using ok by (simp add: blank_def Let_def seg file_ok_def strndup_def)
  have path: "cpath ?cf = key" by (simp add: blank_def Let_def)
  have bs: "to_size (data_blksz (e_cfg e)) \<noteq> 0" using ok by (simp add: file_ok_def to_size_nonneg)
  let ?f1 = "(files s)(meta_fn e key \<mapsto> [])"
  let ?f2 = "(files s)(meta_fn e key \<mapsto> meta_bytes lk ?cf)"
  have 1: "Meta_create ?d no_faults (files s) ?cf = Some ?f1" by (simp add: Meta_create_def path)
  have 2: "Meta_open ?d no_faults ?f1 ?cf = (0, ?cf1)" by (simp add: Meta_open_def path)
  have "Meta_write (Some lk) no_faults ?f1 ?cf1 = (0, ?f1(meta_fn e key \<mapsto> overwrite 0 0 (meta_bytes lk ?cf1) []))"
    using Meta_write_ok [OF blank_ok [OF ok, where l = l and fp = "meta_fn e key"], where flt = no_faults and fs = ?f1] by (simp add: contents_def)
  then have 3: "snd (Meta_write (Some lk) no_faults ?f1 ?cf1) = ?f2" by (simp add: overwrite_0)
  have ne: "data_fn e key \<noteq> meta_fn e key" using ok by (auto simp: file_ok_def)
  have 4: "Data_create ?d (Some lk) no_faults ?f2 ?cf1 = Some (new_files e key l lk (files s))"
    using gone ne len by (simp add: Data_create_def Let_def path to_size_nonneg new_files_def contents_def)
  have w: "waiters ?cf1 = 0" by (simp add: blank_def Let_def)
  have "length (meta_bytes lk ?cf) = 28 + nat (segbc ?cf)"
    by (rule length_meta_bytes) (simp add: blank_def Let_def)
  then have "meta_bytes lk ?cf \<noteq> []" by auto
  then have n: "contents (new_files e key l lk (files s)) (meta_fn e key) \<noteq> []"
    "contents (new_files e key l lk (files s)) (data_fn e key) \<noteq> []"
    using ok ne by (simp_all add: new_files_def file_ok_def contents_def)
  then have 5: "Cache_exist ?d no_faults (new_files e key l lk (files s)) key =
      Some (0, new_files e key l lk (files s))"
    by (auto simp: Cache_exist_def contents_def Let_def split: option.splits)
  show ?thesis
    unfolding create_files_def Cache_new_eq Let_def prod.case cf
    using bs by (simp add: 1 2 3 4 5 w fresh Cache_free_def)
qed

lemma create_files_tree:
  "create_files e flt fn l link (s\<lparr>tree := h\<rparr>) =
    map_option (\<lambda>(r, s'). (r, s'\<lparr>tree := h\<rparr>)) (create_files e flt fn l link s)"
  by (auto simp: create_files_def Cache_new_def put_cache_def Cache_free_def Let_def split: option.splits prod.splits)

lemma create_held:
  assumes fresh: "(caches s)(next_cache s := None) = caches s" and path: "resolved ns l (tree s)" "held l (tree s)" "get_link l (tree s) = Some lk"
    and ok: "file_ok e key lk" and gone: "files s (data_fn e key) = None"
  shows "Cache_create e (\<lambda>_. no_faults) (join ns) s =
    Some (0, s\<lparr>next_cache := Suc (next_cache s), files := new_files e key l lk (files s)\<rparr>)"
proof -
  obtain t where t: "tables (tree s) (fst l) = Some t" "0 < refcount t" using path(2) by (auto simp: held_def)
  let ?s = "s\<lparr>tree := put (fst l) (t\<lparr>refcount := refcount t + 1\<rparr>) (tree s)\<rparr>"
  have "create_files e (\<lambda>_. no_faults) key l lk s =
      Some (0, s\<lparr>next_cache := Suc (next_cache s), files := new_files e key l lk (files s)\<rparr>)"
    by (rule create_files_works [OF fresh ok gone])
  then have c: "create_files e (\<lambda>_. no_faults) key l lk ?s =
      Some (0, ?s\<lparr>next_cache := Suc (next_cache s), files := new_files e key l lk (files s)\<rparr>)"
    using create_files_tree [where s = s and h = "tree ?s"] by simp
  have "create_name e lk = Some key" "content_length lk \<noteq> 0" using ok by (simp_all add: create_name_def file_ok_def)
  with c find_resolved [OF path(1) t(1), of e] path(3) t(1) ok
    drop_held [OF t, where e = e and f = "new_files e key l lk (files s)" and n = "Suc (next_cache s)"]
  show ?thesis by (simp add: Cache_create_def get_link_refcount file_ok_def)
qed

text \<open>A round that finds the pair incomplete ends with a cache on fresh files.\<close>

lemma gone_after_delete:
  assumes "file_ok e key lk"
  shows "files (unlink_pair (e_dirs e) no_faults no_faults key s) (data_fn e key) = None"
  by (simp add: unlink_pair_def unlink_file_def Let_def)

lemma checks_new:
  assumes ok: "file_ok e key lk" and cf: "cpath cf = key"
  shows "fst (open_checks e (\<lambda>_. no_faults) key lk (new_files e key l lk f) cf)"
proof -
  let ?fs = "new_files e key l lk f" and ?cf = "cf\<lparr>mfp := Some (meta_fn e key)\<rparr>"
  have ne: "data_fn e key \<noteq> meta_fn e key" using ok by (auto simp: file_ok_def)
  have 1: "Meta_open (e_dirs e) no_faults ?fs cf = (0, ?cf)"
    using ne cf by (simp add: Meta_open_def new_files_def)
  have len: "length (seg (blank e key l lk)) = nat (segbc (blank e key l lk))" by (simp add: blank_def Let_def)
  have con: "contents ?fs (meta_fn e key) = meta_bytes lk (blank e key l lk)"
    using ne by (simp add: new_files_def)
  note sl = meta_bytes_slices [OF len, of lk "[]", simplified]
  have "Meta_read (Some lk) no_faults ?fs ?cf =
    (0, ?cf\<lparr>blksz := blksz ((blank e key l lk)\<lparr>mfp := None\<rparr>), segbc := segbc ((blank e key l lk)\<lparr>mfp := None\<rparr>),
       seg := slice 28 (nat (segbc ((blank e key l lk)\<lparr>mfp := None\<rparr>))) (contents ?fs (meta_fn e key))\<rparr>)"
    by (rule Meta_read_header) (use blank_ok [OF ok, where l = l and fp = "meta_fn e key"] ok in
      \<open>simp_all add: con sl length_meta_bytes [OF len] meta_ok_def\<close>)
  then obtain cf2 where 2: "Meta_read (Some lk) no_faults ?fs ?cf = (0, cf2)" "cpath cf2 = key" using cf by simp
  have 3: "Data_size (e_dirs e) no_faults ?fs key = int (content_length lk)"
    by (simp add: Data_size_def new_files_def)
  have 4: "fst (Data_open (e_dirs e) no_faults ?fs cf2) = 0" using 2(2) by (simp add: Data_open_def new_files_def)
  then show ?thesis
    by (cases "Data_open (e_dirs e) no_faults ?fs cf2") (simp add: open_checks_def 1 2(1) 3 Let_def)
qed

section \<open>The two rounds\<close>

lemma Cache_exist_works: "\<exists>m f1. Cache_exist d no_faults f fn = Some (m, f1)"
  by (simp add: Cache_exist_def unlink_file_def Let_def)

lemma try_new:
  assumes ok: "file_ok e key lk" and l: "get_link l (tree s) = Some lk" and f: "files s = new_files e key l lk f"
  shows "\<exists>c s'. try_files e (\<lambda>_. no_faults) fn key l lk s = Some (Some (Some c), s')"
proof -
  let ?cf = "(Cache_alloc (e_cfg e))\<lparr>cpath := strndup key PATH_MAX, clink := Some l\<rparr>"
  have "cpath ?cf = key" using ok by (simp add: file_ok_def strndup_def)
  from checks_new [OF ok this, of l f] obtain cf1 where
    "open_checks e (\<lambda>_. no_faults) key lk (files s) ?cf = (True, cf1)"
    unfolding f by (metis (full_types) eq_fst_iff)
  moreover obtain h where "set_cache_ptr l (Some (next_cache s)) (tree s) = Some h"
    by (rule set_cache_ptr_ok [OF l]) blast
  ultimately show ?thesis by (simp add: try_files_def Let_def)
qed

lemma attempt_missing:
  assumes inv: "open_inv g u s" and path: "resolved ns l (tree s)" "held l (tree s)" "get_link l (tree s) = Some lk"
    and ok: "file_ok e key lk" and x: "Cache_exist (e_dirs e) no_faults (files s) key = Some (m, f1)" "m \<noteq> 0"
  shows "\<exists>c s'. open_attempt e (\<lambda>_. no_faults) (join ns) key l s = Some (Some (Some c), s')"
proof -
  let ?s1 = "unlink_pair (e_dirs e) no_faults no_faults key (s\<lparr>files := f1\<rparr>)"
  have d: "Cache_delete e no_faults no_faults (join ns) (s\<lparr>files := f1\<rparr>) = Some ?s1"
    using path by (intro delete_held [OF _ _ _ ok]) simp_all
  have "(caches ?s1)(next_cache ?s1 := None) = caches ?s1" using new_address [OF inv] by (auto simp: unlink_pair_def)
  from create_held [OF this _ _ _ ok gone_after_delete [OF ok]] path
  have "renew e (\<lambda>_. no_faults) (join ns) key s =
      Some (0, ?s1\<lparr>next_cache := Suc (next_cache ?s1), files := new_files e key l lk (files ?s1)\<rparr>)"
    using x d by (simp add: renew_def)
  moreover have "\<exists>c s'. try_files e (\<lambda>_. no_faults) (join ns) key l lk
      (?s1\<lparr>next_cache := Suc (next_cache ?s1), files := new_files e key l lk (files ?s1)\<rparr>) = Some (Some (Some c), s')"
    using path(3) by (intro try_new [OF ok]) simp_all
  ultimately show ?thesis using path(3) by (simp add: open_attempt_eq)
qed

lemma attempts_work:
  assumes inv: "open_inv g u s" and path: "resolved ns l (tree s)" "held l (tree s)" "get_link l (tree s) = Some lk"
    and ok: "file_ok e key lk"
  shows "\<exists>c s'. open_attempts e (\<lambda>_ _. no_faults) (join ns) key l 2 s = Some (Some c, s')"
proof -
  let ?none = "\<lambda>_ :: call_site. no_faults"
  obtain m f1 where x: "Cache_exist (e_dirs e) no_faults (files s) key = Some (m, f1)"
    using Cache_exist_works by blast
  show ?thesis
  proof (cases "m = 0")
    case False
    from attempt_missing [OF inv path ok x this] show ?thesis by (auto simp: numeral_2_eq_2)
  next
    case True
    let ?s1 = "s\<lparr>files := f1\<rparr>"
    let ?cf = "(Cache_alloc (e_cfg e))\<lparr>cpath := strndup key PATH_MAX, clink := Some l\<rparr>"
    have rn: "renew e ?none (join ns) key s = Some (0, ?s1)" using x True by (simp add: renew_def)
    obtain good cf1 where chk: "open_checks e ?none key lk (files ?s1) ?cf = (good, cf1)" by force
    show ?thesis
    proof (cases good)
      case True
      obtain h where "set_cache_ptr l (Some (next_cache s)) (tree s) = Some h"
        by (rule set_cache_ptr_ok [OF path(3)]) blast
      with rn chk True path(3) show ?thesis
        by (simp add: numeral_2_eq_2 open_attempt_eq try_files_def Let_def)
    next
      case False
      let ?s2 = "?s1\<lparr>next_cache := Suc (next_cache s), caches := (caches s)(next_cache s := None)\<rparr>"
      let ?s3 = "unlink_pair (e_dirs e) no_faults no_faults key ?s2"
      have same: "(caches s)(next_cache s := None) = caches s" using new_address [OF inv] by auto
      have "Cache_delete e no_faults no_faults (join ns) ?s2 = Some ?s3"
        using path by (intro delete_held [OF _ _ _ ok]) simp_all
      with rn chk False path(3) have 1: "open_attempt e ?none (join ns) key l s = Some (None, ?s3)"
        by (simp add: open_attempt_eq try_files_def Let_def)
      have "open_inv g u ?s2" using inv same by (simp add: open_inv_next)
      then have inv3: "open_inv g u ?s3" by simp
      obtain m f2 where x2: "Cache_exist (e_dirs e) no_faults (files ?s3) key = Some (m, f2)"
        using Cache_exist_works by blast
      have "contents (files ?s3) (data_fn e key) = []"
        using gone_after_delete [OF ok] by (simp add: contents_def)
      with x2 ok have "m \<noteq> 0"
        using Cache_exist_pairs_parts(1) [OF x2] by (simp add: file_ok_def)
      from attempt_missing [OF inv3 _ _ _ ok x2 this, of ns l] path 1 show ?thesis
        by (auto simp: numeral_2_eq_2)
    qed
  qed
qed

lemma Cache_open_works:
  assumes inv: "open_inv g u s" and env: "env_ok e" and room: "room e (7 * length (join ns)) s"
    and path: "resolved ns l (tree s)" and l: "get_link l (tree s) = Some lk" "cache_ptr lk = None" and ok: "file_ok e key lk"
  shows "\<exists>c s'. Cache_open e (\<lambda>_ _. no_faults) (join ns) s = Some (Some c, s') \<and>
    u c = 0 \<and> open_inv g (u(c := 1)) s' \<and> opened_new e c s' \<and> grown (7 * length (join ns)) s s'"
proof -
  obtain t where t: "tables (tree s) (fst l) = Some t" using l(1) by (auto simp: get_link_def split: option.splits)
  let ?s = "s\<lparr>tree := put (fst l) (t\<lparr>refcount := refcount t + 1\<rparr>) (tree s)\<rparr>"
  have find: "find_link e (join ns) s = Some (Some l, ?s)" by (rule find_resolved [OF path t])
  have "room e (length (join ns)) s" by (rule room_mono [OF room]) simp
  from find_link_inv [OF inv env this] find have
    c: "calm (length (join ns)) s ?s" and inv1: "open_inv (g(fst l := g (fst l) + 1)) u ?s" by auto
  have "0 \<le> refcount t" using open_invD(1) [OF inv] t by (simp add: tree_inv_def counts_ok_def)
  then have held: "held l (tree ?s)" by (simp add: held_def)
  have path1: "resolved ns l (tree ?s)" using resolved_pinned [OF path t] by simp
  have l1: "get_link l (tree ?s) = Some lk" using l(1) get_link_refcount [OF t] by simp
  obtain c s' where r: "open_attempts e (\<lambda>_ _. no_faults) (join ns) key l 2 ?s = Some (Some c, s')"
    using attempts_work [OF inv1 path1 held l1 ok] by blast
  have "Cache_open e (\<lambda>_ _. no_faults) (join ns) s = Some (Some c, s')"
    using find l1 l(2) ok r by (simp add: Cache_open_def open_name_def file_ok_def)
  moreover have "room e (3 * length (join ns) * 2) ?s" by (rule room_calm [OF c]) (use room in simp)
  note A = open_attempts_inv [OF env inv1 this l1 l(2) r]
  from A have "u c = 0 \<and> open_inv g (u(c := 1)) s' \<and> opened_new e c s' \<and> grown (7 * length (join ns)) s s'"
    using grown_after [OF A c, of "7 * length (join ns)"] by simp
  ultimately show ?thesis by blast
qed

section \<open>Closing returns\<close>

text \<open>Every background worker of the cache has given its unit back, and nobody waits.\<close>

definition quiet :: "Cache \<Rightarrow> bool" where
  "quiet cf \<longleftrightarrow> waiters cf \<le> 0 \<and> num_bg_workers cf \<le> bgt_sem cf"

lemma Cache_close_works:
  assumes inv: "open_inv g u s" and "0 < u c" and room: "room e 0 s" and cf: "caches s c = Some cf" "0 \<le> bgt_sem cf" "quiet cf"
  shows "\<exists>s'. Cache_close e flt c s = Some s'"
proof -
  have opened: "cache_opened cf = int (u c)"
    using open_invD(3) [OF inv] cf(1) unfolding handles_ok_def by (metis handle_ok_simps(2))
  show ?thesis
  proof (cases "u c = 1")
    case False
    with assms(2) opened cf(1) show ?thesis by (simp add: Cache_close_def)
  next
    case True
    obtain l lk where l: "clink cf = Some l" "get_link l (tree s) = Some lk"
      using open_invD(2) [OF inv] cf(1) unfolding link_loop_def by blast
    obtain h where h: "set_cache_ptr l None (tree s) = Some h" "dom (tables h) = dom (tables (tree s))"
      using set_cache_ptr_ok [OF l(2), of None] by metis
    have w: "drain_bgt_sem (nat (num_bg_workers cf)) (bgt_sem cf) =
        Some (bgt_sem cf - int (nat (num_bg_workers cf)))"
      using cf(2,3) by (simp add: quiet_def drain_eq)
    define s1 where "s1 = s\<lparr>tree := h, caches := (caches s)(c := None)\<rparr>"
    have inv1: "open_inv (g(fst l := g (fst l) + 1)) (u(c := 0)) s1"
      unfolding s1_def by (rule open_inv_close [OF inv cf(1) l(1) True l(2) h(1)])
    have drop: "\<exists>s'. drop_link e l (s1\<lparr>files := f\<rparr>) = Some s'" for f
    proof -
      have "open_inv (g(fst l := g (fst l) + 1)) (u(c := 0)) (s1\<lparr>files := f\<rparr>)" using inv1 by simp
      moreover have "room e 0 (s1\<lparr>files := f\<rparr>)" using room h(2) by (simp add: room_def s1_def)
      ultimately show ?thesis using drop_pinned by blast
    qed
    let ?f = "if mfp cf = None then files s
      else snd (Meta_write (get_link l (tree s)) flt (files s) (cf\<lparr>cache_opened := cache_opened cf - 1\<rparr>))"
    have free: "Cache_free c (put_cache c cf' (s\<lparr>tree := h, files := f\<rparr>)) = Some (s1\<lparr>files := f\<rparr>)"
      if "waiters cf' = waiters cf" for cf' f
      using cf(3) that by (simp add: Cache_free_def put_cache_def quiet_def s1_def)
    have "Cache_close e flt c s = drop_link e l (s1\<lparr>files := ?f\<rparr>)"
      using cf(1) opened True w l h(1) by (simp add: Cache_close_def Let_def free)
    with drop [of ?f] show ?thesis by simp
  qed
qed

section \<open>Sessions\<close>

text \<open>
  Any sequence of openings and closings of caches, with any calls failing, mixed with lookups
  and releases of other operations and with the work on the open caches, which touches neither
  the count nor the link of a cache.
\<close>

inductive session :: "cache_env \<Rightarrow> cstate \<Rightarrow> (tblptr \<Rightarrow> nat) \<Rightarrow> (nat \<Rightarrow> nat) \<Rightarrow> bool" for e :: cache_env where
  start: "tree_reachable (h, g) \<Longrightarrow> (\<And>p t. tables h p = Some t \<Longrightarrow> no_cache t) \<Longrightarrow>
    session e \<lparr>tree = h, files = f, caches = (\<lambda>_. None), next_cache = 0\<rparr> g (\<lambda>_. 0)"
| opens: "session e s g u \<Longrightarrow> room e (7 * length fn) s \<Longrightarrow> Cache_open e flt fn s = Some (Some c, s') \<Longrightarrow>
    session e s' g (u(c := u c + 1))"
| fails: "session e s g u \<Longrightarrow> room e (7 * length fn) s \<Longrightarrow> Cache_open e flt fn s = Some (None, s') \<Longrightarrow>
    session e s' g u"
| closes: "session e s g u \<Longrightarrow> 0 < u c \<Longrightarrow> room e 0 s \<Longrightarrow> Cache_close e fl c s = Some s' \<Longrightarrow>
    session e s' g (u(c := u c - 1))"
| finds: "session e s g u \<Longrightarrow> room e (length fn) s \<Longrightarrow> find_link e fn s = Some (Some l, s') \<Longrightarrow>
    session e s' (g(fst l := g (fst l) + 1)) u"
| misses: "session e s g u \<Longrightarrow> room e (length fn) s \<Longrightarrow> find_link e fn s = Some (None, s') \<Longrightarrow>
    session e s' g u"
| drops: "session e s g u \<Longrightarrow> 0 < g (fst l) \<Longrightarrow> room e 0 s \<Longrightarrow> drop_link e l s = Some s' \<Longrightarrow>
    session e s' (g(fst l := g (fst l) - 1)) u"
| works: "session e s g u \<Longrightarrow> caches s c = Some cf0 \<Longrightarrow> clink cf = clink cf0 \<Longrightarrow>
    cache_opened cf = cache_opened cf0 \<Longrightarrow> session e (put_cache c cf (s\<lparr>files := f\<rparr>)) g u"

lemma start_inv:
  assumes "tree_reachable (h, g)" "\<And>p t. tables h p = Some t \<Longrightarrow> no_cache t"
  shows "open_inv g (\<lambda>_. 0) \<lparr>tree = h, files = f, caches = (\<lambda>_. None), next_cache = 0\<rparr>"
proof -
  have "link_loop h (\<lambda>_. None)"
    using assms(2) by (fastforce simp: link_loop_def get_link_def no_cache_def split: option.splits if_splits)
  moreover have "cref (\<lambda>_. None) = (\<lambda>_. 0)" by (simp add: cref_def fun_eq_iff)
  ultimately show ?thesis using tree_reachable_inv [OF assms(1)] by (simp add: open_inv_def handles_ok_def)
qed

lemma session_inv:
  assumes "env_ok e" "session e s g u"
  shows "open_inv g u s"
  using assms(2)
proof (induction rule: session.induct)
  case (start h g f)
  then show ?case by (intro start_inv) auto
next
  case (opens s g u fn flt c s')
  with Cache_open_inv [OF opens.IH assms(1) opens.hyps(2,3)] show ?case by (simp add: fun_upd_def)
next
  case (fails s g u fn flt s')
  with Cache_open_inv [OF fails.IH assms(1) fails.hyps(2,3)] show ?case by simp
next
  case (closes s g u c fl s')
  with Cache_close_inv [OF closes.IH closes.hyps(2-4)] show ?case by (simp add: fun_upd_def)
next
  case (finds s g u fn l s')
  with find_link_inv [OF finds.IH assms(1) finds.hyps(2)] show ?case by (auto simp: fun_upd_def)
next
  case (misses s g u fn s')
  with find_link_inv [OF misses.IH assms(1) misses.hyps(2)] show ?case by auto
next
  case (drops s g u l s')
  with drop_link_inv [OF drops.IH drops.hyps(2,3)] show ?case by (auto simp: fun_upd_def)
next
  case (works s g u c cf0 cf f)
  have "handle_ok (u c) (Some cf0)"
    using open_invD(3) [OF works.IH] works.hyps(2) by (metis handles_ok_def)
  then have "0 < u c" "cache_opened cf = int (u c)" using works.hyps(4) by simp_all
  moreover have "open_inv g u (s\<lparr>files := f\<rparr>)" using works.IH by simp
  ultimately have "open_inv g (u(c := u c)) (put_cache c cf (s\<lparr>files := f\<rparr>))"
    using works.hyps(2,3) by (intro open_inv_handle) simp_all
  then show ?case by simp
qed

section \<open>Properties\<close>

text \<open>
  C15.  The books of the open caches balance at every moment of a session, whichever calls fail:
  a cache structure is alive exactly while somebody has a handle on it and counts the handles;
  it and its link point to each other, no link points to a structure that has been freed; and
  every link table counts exactly the references that callers hold, one for each open cache of
  one of its links, and one for each sub-table, so no table is freed under an open cache.
\<close>

theorem open_caches_balanced:
  assumes "env_ok e" "session e s g u"
  shows "(\<forall>c. caches s c \<noteq> None \<longleftrightarrow> 0 < u c) \<and>
    (\<forall>c cf. caches s c = Some cf \<longrightarrow> cache_opened cf = int (u c) \<and>
       (\<exists>l lk. clink cf = Some l \<and> get_link l (tree s) = Some lk \<and> cache_ptr lk = Some c)) \<and>
    (\<forall>l lk c. get_link l (tree s) = Some lk \<and> cache_ptr lk = Some c \<longrightarrow>
       (\<exists>cf. caches s c = Some cf \<and> clink cf = Some l)) \<and>
    (\<forall>p t. tables (tree s) p = Some t \<longrightarrow>
       refcount t = int (g p + card {c. \<exists>cf i. caches s c = Some cf \<and> clink cf = Some (p, i)} +
         card (children (tree s) p)))"
proof -
  note inv = open_invD [OF session_inv [OF assms]]
  have h: "handle_ok (u c) (caches s c)" for c using inv(3) by (simp add: handles_ok_def)
  have 1: "caches s c \<noteq> None \<longleftrightarrow> 0 < u c" for c using h [of c] by (cases "caches s c") simp_all
  have 2: "cache_opened cf = int (u c)" if "caches s c = Some cf" for c cf using h [of c] that by simp
  have 3: "refcount t = int (g p + cref (caches s) p + card (children (tree s) p))"
    if "tables (tree s) p = Some t" for p t
    using inv(1) that by (simp add: tree_inv_def counts_ok_def)
  show ?thesis using 1 2 3 inv(2) unfolding link_loop_def cref_def by blast
qed

text \<open>
  C16.  With calls that do not fail, \<open>Cache_open\<close> of a file that is not open yet returns a cache,
  whatever its two files held before: nothing, a half of the pair, metadata of an older
  version or torn ones, a data file that is too short.  It needs at most the two rounds of the
  loop; the new cache has one handle, its metadata fit the link and the block size, and its
  data file is at least as long as the remote file.
\<close>

theorem Cache_open_repairs:
  assumes "env_ok e" "session e s g u" "room e (7 * length (join ns)) s" "resolved ns l (tree s)"
    and "get_link l (tree s) = Some lk" "cache_ptr lk = None" "file_ok e key lk"
  shows "\<exists>c s'. Cache_open e (\<lambda>_ _. no_faults) (join ns) s = Some (Some c, s') \<and>
    u c = 0 \<and> session e s' g (u(c := 1)) \<and> opened_new e c s'"
proof -
  from Cache_open_works [OF session_inv [OF assms(1,2)] assms(1,3-7)] obtain c s' where
    c: "Cache_open e (\<lambda>_ _. no_faults) (join ns) s = Some (Some c, s')" "u c = 0" "opened_new e c s'" by blast
  then have "session e s' g (u(c := 1))" using session.opens [OF assms(2,3) c(1)] by simp
  with c show ?thesis by blast
qed

text \<open>
  \<open>Cache_close\<close> returns when the background workers of the cache have finished.  Only the
  last handle frees the structure; any other close leaves it and its files alone.  No other
  cache is touched.
\<close>

theorem Cache_close_last_handle:
  assumes "env_ok e" "session e s g u" "0 < u c" "room e 0 s" "caches s c = Some cf" "0 \<le> bgt_sem cf" "quiet cf"
  shows "\<exists>s'. Cache_close e flt c s = Some s' \<and> session e s' g (u(c := u c - 1)) \<and>
    (caches s' c = None \<longleftrightarrow> u c = 1) \<and> (\<forall>c'. c' \<noteq> c \<longrightarrow> caches s' c' = caches s c') \<and>
    (u c \<noteq> 1 \<longrightarrow> files s' = files s \<and> tree s' = tree s)"
proof -
  note inv = session_inv [OF assms(1,2)]
  from Cache_close_works [OF inv assms(3-7)] obtain s' where s': "Cache_close e flt c s = Some s'" by blast
  have "cache_opened cf = int (u c)"
    using open_invD(3) [OF inv] assms(5) unfolding handles_ok_def by (metis handle_ok_simps(2))
  then have "files s' = files s \<and> tree s' = tree s" if "u c \<noteq> 1"
    using s' assms(3,5) that by (auto simp: Cache_close_def)
  with s' Cache_close_inv [OF inv assms(3,4) s'] session.closes [OF assms(2-4) s'] show ?thesis
    by (intro exI [of _ s']) (simp add: fun_upd_def)
qed

section \<open>A scenario\<close>

definition demo_env :: cache_env where
  "demo_env = \<lparr>e_cfg = Config_init ''httpdirfs'' 15, e_load = (\<lambda>_. None), e_fuel = 100, e_unescape = Some,
     e_root_url = Some ''http://h/'', e_root_offset = 9, e_dirs = \<lparr>META_DIR = ''m/'', DATA_DIR = ''d/''\<rparr>\<rparr>"

definition demo_root :: LinkTable where
  "demo_root = demo_table\<lparr>links := [demo_link\<lparr>linkname := ''/''\<rparr>, demo_file\<lparr>f_url := ''http://h/f''\<rparr>]\<rparr>"

definition demo_start :: cstate where
  "demo_start = \<lparr>tree = \<lparr>tables = [0 \<mapsto> demo_root], root_tbl = Some 0, next_addr = 1\<rparr>,
     files = [''m/f'' \<mapsto> [1, 2, 3]], caches = (\<lambda>_. None), next_cache = 0\<rparr>"

lemma demo_env_ok: "env_ok demo_env"
  by (simp add: env_ok_def demo_env_def load_clean_def Config_init_def)

lemma demo_session: "session demo_env demo_start (\<lambda>_. 0) (\<lambda>_. 0)"
proof -
  have "tree_reachable (\<lparr>tables = [0 \<mapsto> demo_root], root_tbl = Some 0, next_addr = 1\<rparr>, \<lambda>_. 0)"
    by (rule tree_reachable.init) (simp add: fresh_table_def demo_root_def demo_table_def demo_link_def demo_file_def)
  then show ?thesis unfolding demo_start_def
    by (rule session.start) (auto simp: demo_root_def demo_link_def demo_file_def no_cache_def split: if_splits)
qed

lemma demo_key: "url_to_cache_path Some (Some ''http://h/'') 9 (Some ''http://h/f'') = Some ''f''"
  by code_simp

lemma demo_paths: "path_append ''m/'' ''f'' = ''m/f''" "path_append ''d/'' ''f'' = ''d/f''"
  by code_simp+

lemma demo_file_link:
  "get_link (0, 1) (tree demo_start) = Some (demo_file\<lparr>f_url := ''http://h/f''\<rparr>)"
  by (simp add: get_link_def demo_start_def demo_root_def)

lemma demo_file_ok: "file_ok demo_env ''f'' (demo_file\<lparr>f_url := ''http://h/f''\<rparr>)"
  using demo_key by (simp add: file_ok_def demo_env_def Config_init_def demo_file_def demo_paths)

lemma demo_resolved: "resolved [''f''] (0, 1) (tree demo_start)"
  by (simp add: resolved_def component_def demo_start_def demo_root_def demo_table_def demo_link_def demo_file_def
      lookup_entry_def strncmp_eq_def)

lemma demo_room: "room demo_env (7 * length (join [''f''])) demo_start"
  by (simp add: room_def demo_env_def demo_start_def)

lemma demo_opened:
  obtains c s' where "Cache_open demo_env (\<lambda>_ _. no_faults) ''/f'' demo_start = Some (Some c, s')"
    "session demo_env s' (\<lambda>_. 0) ((\<lambda>_. 0)(c := 1))" "opened_new demo_env c s'" "room demo_env 0 s'"
proof -
  have "cache_ptr (demo_file\<lparr>f_url := ''http://h/f''\<rparr>) = None" by (simp add: demo_file_def)
  from Cache_open_works [OF session_inv [OF demo_env_ok demo_session] demo_env_ok demo_room demo_resolved
      demo_file_link this demo_file_ok]
  obtain c s' where c: "Cache_open demo_env (\<lambda>_ _. no_faults) ''/f'' demo_start = Some (Some c, s')"
    "opened_new demo_env c s'" "grown 14 demo_start s'" by auto
  have "session demo_env s' (\<lambda>_. 0) ((\<lambda>_. 0)(c := (\<lambda>_. 0) c + 1))"
    by (rule session.opens [OF demo_session _ c(1)]) (use demo_room in simp)
  moreover have "room demo_env 0 s'"
    by (rule room_grown [OF c(3)]) (simp add: room_def demo_env_def demo_start_def)
  ultimately show thesis using that c by simp
qed

theorem open_caches_balanced_witness:
  "\<exists>s' u c. session demo_env s' (\<lambda>_. 0) u \<and> 0 < u c \<and> caches s' c \<noteq> None"
proof -
  obtain c s' where s': "session demo_env s' (\<lambda>_. 0) ((\<lambda>_. 0)(c := 1))" by (rule demo_opened)
  have "caches s' c \<noteq> None" using open_caches_balanced [OF demo_env_ok s'] by simp
  with s' show ?thesis by (intro exI [of _ s'] exI [of _ "(\<lambda>_. 0)(c := 1)"] exI [of _ c]) simp
qed

theorem Cache_open_repairs_witness:
  "\<exists>c s'. Cache_open demo_env (\<lambda>_ _. no_faults) ''/f'' demo_start = Some (Some c, s') \<and> opened_new demo_env c s'"
proof -
  have "cache_ptr (demo_file\<lparr>f_url := ''http://h/f''\<rparr>) = None" by (simp add: demo_file_def)
  from Cache_open_repairs [OF demo_env_ok demo_session demo_room demo_resolved demo_file_link this demo_file_ok]
  show ?thesis by auto
qed

theorem Cache_close_last_handle_witness:
  "\<exists>c s s'. caches s c \<noteq> None \<and> Cache_close demo_env no_faults c s = Some s' \<and> caches s' c = None"
proof -
  obtain c s1 where s1: "session demo_env s1 (\<lambda>_. 0) ((\<lambda>_. 0)(c := 1))" "opened_new demo_env c s1" "room demo_env 0 s1"
    by (rule demo_opened)
  then obtain cf where cf: "caches s1 c = Some cf" by (auto simp: opened_new_def)
  let ?cf = "cf\<lparr>waiters := 0, bgt_sem := 1, num_bg_workers := 1\<rparr>"
  let ?s = "put_cache c ?cf (s1\<lparr>files := files s1\<rparr>)"
  have s: "session demo_env ?s (\<lambda>_. 0) ((\<lambda>_. 0)(c := 1))" by (rule session.works [OF s1(1) cf]) simp_all
  have "room demo_env 0 ?s" using s1(3) by (simp add: room_def)
  moreover have "caches ?s c = Some ?cf" by simp
  ultimately obtain s' where "Cache_close demo_env no_faults c ?s = Some s'" "caches s' c = None"
    using Cache_close_last_handle [OF demo_env_ok s, of c ?cf no_faults] by (auto simp: quiet_def)
  moreover have "caches ?s c \<noteq> None" by simp
  ultimately show ?thesis by blast
qed

end
