(* ===== verification/Locks.thy ===== *)
theory Locks
  imports Util
begin

text \<open>
  The wrappers of \<open>src/util.c\<close> around mutexes and condition variables, which end the process when
  a call fails, and the counting semaphore that \<open>src/util.c\<close> builds from a mutex and a condition
  variable where the system has none (\<open>__APPLE__\<close>).  The other theories use the semaphore as a
  count with the operations of \<open>Util\<close>; here the built one is shown to refine it.
\<close>

section \<open>Mutexes\<close>

text \<open>
  The end of a call: it returns, it waits for another thread, the process exits, or POSIX leaves
  the behaviour open.
\<close>

datatype 'a outcome = Returns 'a | Waits | Exits | Undefined

fun and_then :: "'a outcome \<Rightarrow> ('a \<Rightarrow> 'b outcome) \<Rightarrow> 'b outcome" where
  "and_then (Returns x) f = f x"
| "and_then Waits f = Waits"
| "and_then Exits f = Exits"
| "and_then Undefined f = Undefined"

lemma and_then_Returns [simp]: "and_then x f = Returns y \<longleftrightarrow> (\<exists>z. x = Returns z \<and> f z = Returns y)"
  by (cases x) simp_all

datatype mutex_type = Errorcheck | Default

record mutex =
  mutex_type :: mutex_type
  holder :: "nat option"

abbreviation (input) EPERM :: int where "EPERM \<equiv> 1"
abbreviation (input) EDEADLK :: int where "EDEADLK \<equiv> 35"

text \<open>The calls of the C library, with the number that they return.\<close>

definition pthread_mutex_lock :: "nat \<Rightarrow> mutex \<Rightarrow> (int \<times> mutex) outcome" where
  "pthread_mutex_lock t m =
    (case holder m of
       None \<Rightarrow> Returns (0, m\<lparr>holder := Some t\<rparr>)
     | Some u \<Rightarrow> if u = t \<and> mutex_type m = Errorcheck then Returns (EDEADLK, m) else Waits)"

definition pthread_mutex_unlock :: "nat \<Rightarrow> mutex \<Rightarrow> (int \<times> mutex) outcome" where
  "pthread_mutex_unlock t m =
    (if holder m = Some t then Returns (0, m\<lparr>holder := None\<rparr>)
     else if mutex_type m = Errorcheck then Returns (EPERM, m) else Undefined)"

text \<open>POSIX leaves open what becomes of a mutex that is destroyed while a thread holds it; \<open>ret\<close> is the number otherwise.\<close>

definition pthread_mutex_destroy :: "int \<Rightarrow> mutex \<Rightarrow> (int \<times> unit) outcome" where
  "pthread_mutex_destroy ret m = (if holder m = None then Returns (ret, ()) else Undefined)"

text \<open>A result that is not 0 goes to \<open>fatal_log_printf\<close>, which ends the process.\<close>

fun or_exit :: "(int \<times> 'a) outcome \<Rightarrow> 'a outcome" where
  "or_exit (Returns (ret, x)) = (if ret \<noteq> 0 then Exits else Returns x)"
| "or_exit Waits = Waits"
| "or_exit Exits = Exits"
| "or_exit Undefined = Undefined"

text \<open>Without attributes the wrapper makes an error-checking mutex.\<close>

definition pthread_mutex_init_wrapper :: "int \<Rightarrow> mutex_type option \<Rightarrow> mutex outcome" where
  "pthread_mutex_init_wrapper ret attr =
    or_exit (Returns (ret, \<lparr>mutex_type = (case attr of None \<Rightarrow> Errorcheck | Some a \<Rightarrow> a), holder = None\<rparr>))"

definition pthread_mutex_destroy_wrapper :: "int \<Rightarrow> mutex \<Rightarrow> unit outcome" where
  "pthread_mutex_destroy_wrapper ret m = or_exit (pthread_mutex_destroy ret m)"

definition pthread_mutex_lock_wrapper :: "nat \<Rightarrow> mutex \<Rightarrow> mutex outcome" where
  "pthread_mutex_lock_wrapper t m = or_exit (pthread_mutex_lock t m)"

definition pthread_mutex_unlock_wrapper :: "nat \<Rightarrow> mutex \<Rightarrow> mutex outcome" where
  "pthread_mutex_unlock_wrapper t m = or_exit (pthread_mutex_unlock t m)"

section \<open>Condition variables\<close>

text \<open>
  A condition variable is the list of the threads that sleep on it.  Waiting gives the mutex
  back and goes to sleep in one step; a thread that is no longer asleep takes the mutex again
  before its call returns.  A signal wakes one of the sleepers, a broadcast all of them.
\<close>

definition pthread_cond_wait :: "nat \<Rightarrow> nat list \<Rightarrow> mutex \<Rightarrow> (int \<times> nat list \<times> mutex) outcome" where
  "pthread_cond_wait t sleepers m =
    (if holder m = Some t then Returns (0, t # sleepers, m\<lparr>holder := None\<rparr>)
     else if mutex_type m = Errorcheck then Returns (EPERM, sleepers, m) else Undefined)"

definition pthread_cond_signal :: "nat \<Rightarrow> nat list \<Rightarrow> int \<times> nat list" where
  "pthread_cond_signal choice sleepers =
    (0, if choice \<in> set sleepers then remove1 choice sleepers else drop 1 sleepers)"

definition pthread_cond_broadcast_wrapper :: "int \<Rightarrow> nat list \<Rightarrow> nat list outcome" where
  "pthread_cond_broadcast_wrapper ret sleepers = or_exit (Returns (ret, []))"

definition pthread_cond_init_wrapper :: "int \<Rightarrow> nat list outcome" where
  "pthread_cond_init_wrapper ret = or_exit (Returns (ret, []))"

text \<open>As for a mutex: destroying it under a thread that sleeps on it is undefined.\<close>

definition pthread_cond_destroy_wrapper :: "int \<Rightarrow> nat list \<Rightarrow> unit outcome" where
  "pthread_cond_destroy_wrapper ret sleepers = or_exit (if sleepers = [] then Returns (ret, ()) else Undefined)"

definition pthread_cond_wait_wrapper :: "nat \<Rightarrow> nat list \<Rightarrow> mutex \<Rightarrow> (nat list \<times> mutex) outcome" where
  "pthread_cond_wait_wrapper t sleepers m = or_exit (pthread_cond_wait t sleepers m)"

text \<open>
  With error-checking mutexes a thread that takes a mutex twice, or gives back or waits with one
  that it does not hold, ends the process; it never blocks on itself.
\<close>

lemma errorcheck_wrappers:
  assumes "mutex_type m = Errorcheck"
  shows "pthread_mutex_lock_wrapper t m =
      (case holder m of None \<Rightarrow> Returns (m\<lparr>holder := Some t\<rparr>) | Some u \<Rightarrow> if u = t then Exits else Waits)"
    "pthread_mutex_unlock_wrapper t m = (if holder m = Some t then Returns (m\<lparr>holder := None\<rparr>) else Exits)"
    "pthread_cond_wait_wrapper t ss m = (if holder m = Some t then Returns (t # ss, m\<lparr>holder := None\<rparr>) else Exits)"
  using assms
  by (auto simp: pthread_mutex_lock_wrapper_def pthread_mutex_lock_def pthread_mutex_unlock_wrapper_def
      pthread_mutex_unlock_def pthread_cond_wait_wrapper_def pthread_cond_wait_def split: option.split)

section \<open>The semaphore built from them\<close>

datatype sem_call = Wait | Post | Trywait

text \<open>
  Where a call is: before \<open>pthread_mutex_lock\<close>, at the code under the mutex, inside
  \<open>pthread_cond_wait\<close>, before \<open>pthread_cond_signal\<close>, before \<open>pthread_mutex_unlock\<close> with the
  result it is going to return, and after it.
\<close>

datatype sem_pc = At_lock | In_body | In_cond | At_signal | At_unlock int | Back int

record sys_sem =
  sem_mutex :: mutex
  sem_cond :: "nat list"
  sem_count :: int

type_synonym sem_state = "sys_sem \<times> (sem_call \<times> sem_pc) list"

definition sem_init_wrapper :: "int \<Rightarrow> int \<Rightarrow> nat \<Rightarrow> sys_sem outcome" where
  "sem_init_wrapper ret1 ret2 initial =
    (if ret1 \<noteq> 0 \<or> ret2 \<noteq> 0 then Exits
     else Returns \<lparr>sem_mutex = \<lparr>mutex_type = Default, holder = None\<rparr>, sem_cond = [], sem_count = to_int32 (int initial)\<rparr>)"

definition sem_destroy_wrapper :: "int \<Rightarrow> int \<Rightarrow> sys_sem \<Rightarrow> unit outcome" where
  "sem_destroy_wrapper ret1 ret2 s =
    and_then (pthread_mutex_destroy_wrapper ret1 (sem_mutex s)) (\<lambda>_. pthread_cond_destroy_wrapper ret2 (sem_cond s))"

text \<open>The code under the mutex of the three operations, with the place that the call comes to.\<close>

definition sem_wait_body :: "nat \<Rightarrow> sys_sem \<Rightarrow> (sem_pc \<times> sys_sem) outcome" where
  "sem_wait_body t s =
    (if sem_count s \<le> 0 then
       (case or_exit (pthread_cond_wait t (sem_cond s) (sem_mutex s)) of
          Returns (c, m) \<Rightarrow> Returns (In_cond, s\<lparr>sem_cond := c, sem_mutex := m\<rparr>)
        | Waits \<Rightarrow> Waits | Exits \<Rightarrow> Exits | Undefined \<Rightarrow> Undefined)
     else Returns (At_unlock 0, s\<lparr>sem_count := sem_count s - 1\<rparr>))"

definition sem_post_body :: "sys_sem \<Rightarrow> (sem_pc \<times> sys_sem) outcome" where
  "sem_post_body s = Returns (At_signal, s\<lparr>sem_count := sem_count s + 1\<rparr>)"

definition sem_trywait_body :: "sys_sem \<Rightarrow> (sem_pc \<times> sys_sem) outcome" where
  "sem_trywait_body s =
    (if sem_count s > 0 then Returns (At_unlock 0, s\<lparr>sem_count := sem_count s - 1\<rparr>)
     else Returns (At_unlock (-1), s))"

definition with_mutex :: "sem_pc \<Rightarrow> mutex outcome \<Rightarrow> sys_sem \<Rightarrow> (sem_pc \<times> sys_sem) outcome" where
  "with_mutex p r s =
    (case r of Returns m \<Rightarrow> Returns (p, s\<lparr>sem_mutex := m\<rparr>) | Waits \<Rightarrow> Waits | Exits \<Rightarrow> Exits | Undefined \<Rightarrow> Undefined)"

text \<open>One step of thread \<open>t\<close>; \<open>choice\<close> is the sleeper that a signal wakes.\<close>

definition sem_step :: "nat \<Rightarrow> nat \<Rightarrow> sem_call \<Rightarrow> sem_pc \<Rightarrow> sys_sem \<Rightarrow> (sem_pc \<times> sys_sem) outcome" where
  "sem_step t choice call p s =
    (case p of
       At_lock \<Rightarrow> with_mutex In_body (or_exit (pthread_mutex_lock t (sem_mutex s))) s
     | In_body \<Rightarrow>
         (case call of Wait \<Rightarrow> sem_wait_body t s | Post \<Rightarrow> sem_post_body s | Trywait \<Rightarrow> sem_trywait_body s)
     | In_cond \<Rightarrow>
         (if t \<in> set (sem_cond s) then Waits
          else with_mutex In_body (or_exit (pthread_mutex_lock t (sem_mutex s))) s)
     | At_signal \<Rightarrow>
         (case pthread_cond_signal choice (sem_cond s) of
            (ret, c) \<Rightarrow> if ret \<noteq> 0 then Exits else Returns (At_unlock 0, s\<lparr>sem_cond := c\<rparr>))
     | At_unlock r \<Rightarrow> with_mutex (Back r) (or_exit (pthread_mutex_unlock t (sem_mutex s))) s
     | Back r \<Rightarrow> Waits)"

text \<open>Threads call the operations and step in any order; a sleeper may wake up without a reason.\<close>

inductive sem_move :: "sem_state \<Rightarrow> sem_state \<Rightarrow> bool" where
  sem_call: "sem_move (s, ts) (s, ts @ [(c, At_lock)])"
| sem_steps: "t < length ts \<Longrightarrow> sem_step t choice (fst (ts ! t)) (snd (ts ! t)) s = Returns (p, s') \<Longrightarrow>
    sem_move (s, ts) (s', ts[t := (fst (ts ! t), p)])"
| sem_spurious: "t \<in> set (sem_cond s) \<Longrightarrow> sem_move (s, ts) (s\<lparr>sem_cond := remove1 t (sem_cond s)\<rparr>, ts)"

inductive_cases sem_moveE: "sem_move (s, ts) x"

section \<open>What it is to do\<close>

text \<open>A call that has not had its effect yet, or has had it, with its result.\<close>

datatype sem_view = Pending sem_call | Answered sem_call int

inductive sem_effect :: "int \<times> sem_view list \<Rightarrow> int \<times> sem_view list \<Rightarrow> bool" where
  effect_call: "sem_effect (n, vs) (n, vs @ [Pending c])"
| effect_wait: "t < length vs \<Longrightarrow> vs ! t = Pending Wait \<Longrightarrow> sem_wait n = Some n' \<Longrightarrow>
    sem_effect (n, vs) (n', vs[t := Answered Wait 0])"
| effect_post: "t < length vs \<Longrightarrow> vs ! t = Pending Post \<Longrightarrow>
    sem_effect (n, vs) (sem_post n, vs[t := Answered Post 0])"
| effect_trywait: "t < length vs \<Longrightarrow> vs ! t = Pending Trywait \<Longrightarrow> sem_trywait n = (r, n') \<Longrightarrow>
    sem_effect (n, vs) (n', vs[t := Answered Trywait r])"

fun took :: "sem_view \<Rightarrow> bool" where
  "took (Answered Wait r) = True"
| "took (Answered Trywait r) = (r = 0)"
| "took _ = False"

fun gave :: "sem_view \<Rightarrow> bool" where
  "gave (Answered Post r) = True"
| "gave _ = False"

text \<open>The units: those at the start and those given, less those taken.\<close>

definition sem_balance :: "nat \<Rightarrow> int \<times> sem_view list \<Rightarrow> bool" where
  "sem_balance v s \<longleftrightarrow> 0 \<le> fst s \<and> fst s = int v + icnt gave (snd s) - icnt took (snd s)"

fun view_of :: "sem_call \<times> sem_pc \<Rightarrow> sem_view" where
  "view_of (c, At_signal) = Answered c 0"
| "view_of (c, At_unlock r) = Answered c r"
| "view_of (c, Back r) = Answered c r"
| "view_of (c, _) = Pending c"

definition sem_view :: "sem_state \<Rightarrow> int \<times> sem_view list" where
  "sem_view x = (sem_count (fst x), map view_of (snd x))"

definition sem_begin :: "nat \<Rightarrow> sem_state" where
  "sem_begin v = (\<lparr>sem_mutex = \<lparr>mutex_type = Default, holder = None\<rparr>, sem_cond = [], sem_count = int v\<rparr>, [])"

section \<open>The invariant\<close>

fun in_mutex :: "sem_pc \<Rightarrow> bool" where
  "in_mutex In_body = True"
| "in_mutex At_signal = True"
| "in_mutex (At_unlock r) = True"
| "in_mutex _ = False"

definition mutex_ok :: "sem_state \<Rightarrow> bool" where
  "mutex_ok x \<longleftrightarrow> mutex_type (sem_mutex (fst x)) = Default \<and>
     (\<forall>t. holder (sem_mutex (fst x)) = Some t \<longleftrightarrow> t < length (snd x) \<and> in_mutex (snd (snd x ! t)))"

definition sleepers_ok :: "sem_state \<Rightarrow> bool" where
  "sleepers_ok x \<longleftrightarrow> distinct (sem_cond (fst x)) \<and>
     (\<forall>t \<in> set (sem_cond (fst x)). t < length (snd x) \<and> snd x ! t = (Wait, In_cond))"

fun call_ok :: "sem_call \<times> sem_pc \<Rightarrow> bool" where
  "call_ok (c, In_cond) = (c = Wait)"
| "call_ok (c, At_signal) = (c = Post)"
| "call_ok (c, At_unlock r) = (r = 0 \<or> c = Trywait \<and> r = -1)"
| "call_ok (c, Back r) = (r = 0 \<or> c = Trywait \<and> r = -1)"
| "call_ok _ = True"

text \<open>
  The calls that will look at the count before they sleep again: woken ones, and waiting ones
  under the mutex; and those about to signal.  While somebody sleeps there are at least as many
  of them as there are units, so no wake-up is lost.
\<close>

definition coming :: "sem_state \<Rightarrow> int" where
  "coming x = icnt (\<lambda>y. snd y = In_cond) (snd x) - int (length (sem_cond (fst x))) +
     icnt (\<lambda>y. y = (Wait, In_body)) (snd x) + icnt (\<lambda>y. snd y = At_signal) (snd x)"

definition no_lost :: "sem_state \<Rightarrow> bool" where
  "no_lost x \<longleftrightarrow> (sem_cond (fst x) \<noteq> [] \<longrightarrow> sem_count (fst x) \<le> coming x)"

definition sem_good :: "sem_state \<Rightarrow> bool" where
  "sem_good x \<longleftrightarrow> mutex_ok x \<and> sleepers_ok x \<and> list_all call_ok (snd x) \<and> no_lost x"

lemma sleepers_counted:
  assumes "sleepers_ok x"
  shows "int (length (sem_cond (fst x))) \<le> icnt (\<lambda>y. snd y = In_cond) (snd x)"
proof -
  let ?I = "{t. t < length (snd x) \<and> snd (snd x ! t) = In_cond}"
  have "icnt (\<lambda>y. snd y = In_cond) (snd x) = int (card ?I)"
    by (simp add: icnt_def cnt_def length_filter_conv_card)
  moreover have "card (set (sem_cond (fst x))) \<le> card ?I"
    using assms by (intro card_mono) (auto simp: sleepers_ok_def)
  moreover have "card (set (sem_cond (fst x))) = length (sem_cond (fst x))"
    using assms by (intro distinct_card) (simp add: sleepers_ok_def)
  ultimately show ?thesis by simp
qed

lemma mutex_move:
  assumes "mutex_ok (s, ts)" "t < length ts" "mutex_type (sem_mutex s') = Default"
    and "holder (sem_mutex s') = (if in_mutex p then Some t else if in_mutex (snd (ts ! t)) then None else holder (sem_mutex s))"
    and "in_mutex p \<Longrightarrow> in_mutex (snd (ts ! t)) \<or> holder (sem_mutex s) = None"
  shows "mutex_ok (s', ts[t := (c, p)])"
proof -
  have h: "holder (sem_mutex s) = Some u \<longleftrightarrow> u < length ts \<and> in_mutex (snd (ts ! u))" for u
    using assms(1) by (simp add: mutex_ok_def)
  have "holder (sem_mutex s') = Some u \<longleftrightarrow> u < length ts \<and> in_mutex (snd (ts[t := (c, p)] ! u))" for u
    using assms(2,4,5) h [of u] h [of t] by (cases "u = t") (auto split: if_splits)
  with assms(3) show ?thesis by (simp add: mutex_ok_def)
qed

lemma sleepers_move:
  assumes "sleepers_ok (s, ts)" "sem_cond s' = sem_cond s" "t \<notin> set (sem_cond s)"
  shows "sleepers_ok (s', ts[t := y])"
  using assms by (auto simp: sleepers_ok_def) (metis nth_list_update_neq)

lemma not_asleep: "sleepers_ok (s, ts) \<Longrightarrow> snd (ts ! t) \<noteq> In_cond \<Longrightarrow> t \<notin> set (sem_cond s)"
  by (force simp: sleepers_ok_def)

lemma coming_move:
  assumes "t < length ts" "length (sem_cond s') = length (sem_cond s) + k"
  shows "coming (s', ts[t := y]) = coming (s, ts) - int k
    - of_bool (snd (ts ! t) = In_cond) + of_bool (snd y = In_cond)
    - of_bool (ts ! t = (Wait, In_body)) + of_bool (y = (Wait, In_body))
    - of_bool (snd (ts ! t) = At_signal) + of_bool (snd y = At_signal)"
  using assms by (simp add: coming_def icnt_update)

lemma coming_drop:
  assumes "t < length ts" "length (sem_cond s') + 1 = length (sem_cond s)"
  shows "coming (s', ts[t := y]) = coming (s, ts) + 1
    - of_bool (snd (ts ! t) = In_cond) + of_bool (snd y = In_cond)
    - of_bool (ts ! t = (Wait, In_body)) + of_bool (y = (Wait, In_body))
    - of_bool (snd (ts ! t) = At_signal) + of_bool (snd y = At_signal)"
  using assms by (simp add: coming_def icnt_update)

lemma coming_nonneg: "sleepers_ok x \<Longrightarrow> 0 \<le> coming x"
  using sleepers_counted [of x] by (simp add: coming_def)

text \<open>No call of the C library fails, and every step keeps the invariant.\<close>

lemma or_exit_lock:
  "mutex_type m = Default \<Longrightarrow> or_exit (pthread_mutex_lock t m) =
    (if holder m = None then Returns (m\<lparr>holder := Some t\<rparr>) else Waits)"
  by (simp add: pthread_mutex_lock_def split: option.split)

lemma or_exit_unlock:
  "holder m = Some t \<Longrightarrow> or_exit (pthread_mutex_unlock t m) = Returns (m\<lparr>holder := None\<rparr>)"
  by (simp add: pthread_mutex_unlock_def)

lemma or_exit_cond_wait:
  "holder m = Some t \<Longrightarrow> or_exit (pthread_cond_wait t ss m) = Returns (t # ss, m\<lparr>holder := None\<rparr>)"
  by (simp add: pthread_cond_wait_def)

lemma sem_step_cases:
  assumes good: "sem_good (s, ts)" and t: "t < length ts" and at: "ts ! t = (c, p)"
  obtains (wait) "sem_step t choice c p s = Waits"
    "p = At_lock \<and> holder (sem_mutex s) \<noteq> None \<or> p = In_cond \<and> (t \<in> set (sem_cond s) \<or> holder (sem_mutex s) \<noteq> None) \<or> (\<exists>r. p = Back r)"
  | (lock) "p = At_lock \<or> p = In_cond \<and> t \<notin> set (sem_cond s) \<and> c = Wait" "holder (sem_mutex s) = None"
    "sem_step t choice c p s = Returns (In_body, s\<lparr>sem_mutex := (sem_mutex s)\<lparr>holder := Some t\<rparr>\<rparr>)"
  | (sleep) "p = In_body" "c = Wait" "sem_count s \<le> 0" "holder (sem_mutex s) = Some t"
    "sem_step t choice c p s = Returns (In_cond, s\<lparr>sem_cond := t # sem_cond s, sem_mutex := (sem_mutex s)\<lparr>holder := None\<rparr>\<rparr>)"
  | (take) "p = In_body" "c = Wait \<or> c = Trywait" "0 < sem_count s" "holder (sem_mutex s) = Some t"
    "sem_step t choice c p s = Returns (At_unlock 0, s\<lparr>sem_count := sem_count s - 1\<rparr>)"
  | (fail) "p = In_body" "c = Trywait" "sem_count s \<le> 0" "holder (sem_mutex s) = Some t"
    "sem_step t choice c p s = Returns (At_unlock (-1), s)"
  | (give) "p = In_body" "c = Post" "holder (sem_mutex s) = Some t"
    "sem_step t choice c p s = Returns (At_signal, s\<lparr>sem_count := sem_count s + 1\<rparr>)"
  | (signal) "p = At_signal" "c = Post" "holder (sem_mutex s) = Some t"
    "sem_step t choice c p s = Returns (At_unlock 0, s\<lparr>sem_cond := snd (pthread_cond_signal choice (sem_cond s))\<rparr>)"
  | (unlock) r where "p = At_unlock r" "holder (sem_mutex s) = Some t"
    "sem_step t choice c p s = Returns (Back r, s\<lparr>sem_mutex := (sem_mutex s)\<lparr>holder := None\<rparr>\<rparr>)"
proof -
  have d: "mutex_type (sem_mutex s) = Default" and h: "in_mutex p \<Longrightarrow> holder (sem_mutex s) = Some t"
    using good t at by (auto simp: sem_good_def mutex_ok_def)
  have "call_ok (c, p)" using good t at by (metis sem_good_def list_all_length snd_conv)
  note k = this
  note lk = or_exit_lock [OF d, of t]
  show thesis
  proof (cases p)
    case At_lock
    then show ?thesis using wait lock lk by (simp add: sem_step_def with_mutex_def split: if_splits)
  next
    case In_body
    with h have ht: "holder (sem_mutex s) = Some t" by simp
    show ?thesis using In_body ht sleep take fail give
      by (cases c; cases "sem_count s \<le> 0")
        (simp_all add: sem_step_def sem_wait_body_def sem_post_body_def sem_trywait_body_def or_exit_cond_wait)
  next
    case In_cond
    then show ?thesis using wait lock lk k
      by (cases "t \<in> set (sem_cond s)"; cases "holder (sem_mutex s)") (simp_all add: sem_step_def with_mutex_def)
  next
    case At_signal
    then show ?thesis using signal h k by (simp add: sem_step_def pthread_cond_signal_def)
  next
    case (At_unlock r)
    then show ?thesis using unlock h by (simp add: sem_step_def with_mutex_def or_exit_unlock)
  next
    case (Back r)
    then show ?thesis using wait by (simp add: sem_step_def)
  qed
qed

lemma signal_sleepers:
  assumes "sleepers_ok (s, ts)" "snd (ts ! t) = At_signal"
  shows "sleepers_ok (s\<lparr>sem_cond := snd (pthread_cond_signal ch (sem_cond s))\<rparr>, ts[t := y])"
    "sem_cond s \<noteq> [] \<Longrightarrow> length (snd (pthread_cond_signal ch (sem_cond s))) + 1 = length (sem_cond s)"
proof -
  have sub: "set (snd (pthread_cond_signal ch (sem_cond s))) \<subseteq> set (sem_cond s)"
    using set_remove1_subset [of ch "sem_cond s"] set_drop_subset [of 1 "sem_cond s"]
    by (auto simp: pthread_cond_signal_def)
  have "distinct (snd (pthread_cond_signal ch (sem_cond s)))"
    using assms(1) by (simp add: pthread_cond_signal_def sleepers_ok_def)
  moreover have "t \<notin> set (sem_cond s)" using not_asleep [OF assms(1)] assms(2) by simp
  ultimately show "sleepers_ok (s\<lparr>sem_cond := snd (pthread_cond_signal ch (sem_cond s))\<rparr>, ts[t := y])"
    using assms(1) sub by (auto simp: sleepers_ok_def) (metis nth_list_update_neq subsetD)
  show "sem_cond s \<noteq> [] \<Longrightarrow> length (snd (pthread_cond_signal ch (sem_cond s))) + 1 = length (sem_cond s)"
    by (cases "sem_cond s") (auto simp: pthread_cond_signal_def length_remove1 dest: length_pos_if_in_set)
qed

lemma sem_good_step:
  assumes good: "sem_good (s, ts)" and t: "t < length ts" and at: "ts ! t = (c, p)"
    and step: "sem_step t ch c p s = Returns (q, s')"
  shows "sem_good (s', ts[t := (c, q)])"
proof -
  have m: "mutex_ok (s, ts)" and sl: "sleepers_ok (s, ts)" and lost: "no_lost (s, ts)" and ok: "list_all call_ok ts"
    using good by (simp_all add: sem_good_def)
  have d: "mutex_type (sem_mutex s) = Default" using m by (simp add: mutex_ok_def)
  have okp: "call_ok (c, p)" using ok t at by (metis list_all_length)
  have ok': "list_all call_ok (ts[t := (c, q)])" if "call_ok (c, q)"
    using ok that by (auto simp: list_all_iff dest!: subsetD [OF set_update_subset_insert])
  have c0: "0 \<le> coming (s, ts)" by (rule coming_nonneg [OF sl])
  have busy: "t \<notin> set (sem_cond s)" if "p \<noteq> In_cond" using not_asleep [OF sl, of t] at that by simp
  show ?thesis
  proof (cases rule: sem_step_cases [OF good t at, of ch, case_names wait lock sleep take fail give signal unlock])
    case wait
    then show ?thesis using step by simp
  next
    case lock
    then have q: "q = In_body" "s' = s\<lparr>sem_mutex := (sem_mutex s)\<lparr>holder := Some t\<rparr>\<rparr>" using step by simp_all
    have nt: "t \<notin> set (sem_cond s)" using lock(1) busy by auto
    have "mutex_ok (s', ts[t := (c, q)])" by (rule mutex_move [OF m t]) (use q d lock(2) in simp_all)
    moreover have "sleepers_ok (s', ts[t := (c, q)])" by (rule sleepers_move [OF sl _ nt]) (simp add: q)
    moreover have "coming (s', ts[t := (c, q)]) \<ge> coming (s, ts)"
      using lock(1) coming_move [of t ts s' s 0 "(c, q)"] t at q by auto
    ultimately show ?thesis using lost ok' q by (auto simp: sem_good_def no_lost_def)
  next
    case sleep
    then have q: "q = In_cond" "s' = s\<lparr>sem_cond := t # sem_cond s, sem_mutex := (sem_mutex s)\<lparr>holder := None\<rparr>\<rparr>"
      using step by simp_all
    have "mutex_ok (s', ts[t := (c, q)])" by (rule mutex_move [OF m t]) (use q d sleep at in simp_all)
    moreover have sl': "sleepers_ok (s', ts[t := (c, q)])"
      using sl busy sleep(1,2) t q by (auto simp: sleepers_ok_def nth_list_update)
    moreover have "0 \<le> coming (s', ts[t := (c, q)])" by (rule coming_nonneg [OF sl'])
    ultimately show ?thesis using ok' q sleep(2,3) by (simp add: sem_good_def no_lost_def)
  next
    case take
    then have q: "q = At_unlock 0" "s' = s\<lparr>sem_count := sem_count s - 1\<rparr>" using step by simp_all
    have "mutex_ok (s', ts[t := (c, q)])" by (rule mutex_move [OF m t]) (use q d take at in simp_all)
    moreover have "sleepers_ok (s', ts[t := (c, q)])"
      by (rule sleepers_move [OF sl _ busy]) (use q take in simp_all)
    moreover have "coming (s', ts[t := (c, q)]) \<ge> coming (s, ts) - 1"
      using take(1) coming_move [of t ts s' s 0 "(c, q)"] t at q by auto
    ultimately show ?thesis using lost ok' q by (auto simp: sem_good_def no_lost_def)
  next
    case fail
    then have q: "q = At_unlock (-1)" "s' = s" using step by simp_all
    have "mutex_ok (s', ts[t := (c, q)])" by (rule mutex_move [OF m t]) (use q d fail at in simp_all)
    moreover have "sleepers_ok (s', ts[t := (c, q)])"
      by (rule sleepers_move [OF sl _ busy]) (use q fail in simp_all)
    moreover have "coming (s', ts[t := (c, q)]) = coming (s, ts)"
      using fail(1,2) coming_move [of t ts s' s 0 "(c, q)"] t at q by auto
    ultimately show ?thesis using lost ok' q fail(2) by (simp add: sem_good_def no_lost_def)
  next
    case give
    then have q: "q = At_signal" "s' = s\<lparr>sem_count := sem_count s + 1\<rparr>" using step by simp_all
    have "mutex_ok (s', ts[t := (c, q)])" by (rule mutex_move [OF m t]) (use q d give at in simp_all)
    moreover have "sleepers_ok (s', ts[t := (c, q)])"
      by (rule sleepers_move [OF sl _ busy]) (use q give in simp_all)
    moreover have "coming (s', ts[t := (c, q)]) = coming (s, ts) + 1"
      using give(1,2) coming_move [of t ts s' s 0 "(c, q)"] t at q by auto
    ultimately show ?thesis using lost ok' q give(2) by (simp add: sem_good_def no_lost_def)
  next
    case signal
    then have q: "q = At_unlock 0" "s' = s\<lparr>sem_cond := snd (pthread_cond_signal ch (sem_cond s))\<rparr>" using step by simp_all
    have p: "snd (ts ! t) = At_signal" using at signal(1) by simp
    have "mutex_ok (s', ts[t := (c, q)])" by (rule mutex_move [OF m t]) (use q d signal at in simp_all)
    moreover have "sleepers_ok (s', ts[t := (c, q)])" unfolding q(2) by (rule signal_sleepers(1) [OF sl p])
    moreover have "coming (s', ts[t := (c, q)]) = coming (s, ts)" if ne: "sem_cond s \<noteq> []"
    proof -
      have "length (sem_cond s') + 1 = length (sem_cond s)" using signal_sleepers(2) [OF sl p ne, of ch] q(2) by simp
      from coming_drop [OF t this, of "(c, q)"] at signal(1) q(1) show ?thesis by simp
    qed
    moreover have "sem_cond s' \<noteq> [] \<Longrightarrow> sem_cond s \<noteq> []" using q(2) by (auto simp: pthread_cond_signal_def)
    ultimately show ?thesis using lost ok' q by (auto simp: sem_good_def no_lost_def)
  next
    case (unlock r)
    then have q: "q = Back r" "s' = s\<lparr>sem_mutex := (sem_mutex s)\<lparr>holder := None\<rparr>\<rparr>" using step by simp_all
    have "mutex_ok (s', ts[t := (c, q)])" by (rule mutex_move [OF m t]) (use q d unlock at in simp_all)
    moreover have "sleepers_ok (s', ts[t := (c, q)])"
      by (rule sleepers_move [OF sl _ busy]) (use q unlock in simp_all)
    moreover have "coming (s', ts[t := (c, q)]) = coming (s, ts)"
      using unlock(1) coming_move [of t ts s' s 0 "(c, q)"] t at q by auto
    ultimately show ?thesis using lost ok' q okp unlock(1) by (simp add: sem_good_def no_lost_def)
  qed
qed

lemma sem_good_move:
  assumes "sem_move x x'" "sem_good x"
  shows "sem_good x'"
  using assms
proof (cases rule: sem_move.cases)
  case (sem_call s ts c)
  have "mutex_ok x'" using assms(2) sem_call
    by (auto simp: sem_good_def mutex_ok_def nth_append less_Suc_eq)
  moreover have "sleepers_ok x'" using assms(2) sem_call
    by (auto simp: sem_good_def sleepers_ok_def nth_append)
  moreover have "coming x' = coming x" using sem_call by (simp add: coming_def)
  ultimately show ?thesis using assms(2) sem_call by (simp add: sem_good_def no_lost_def)
next
  case (sem_steps t ts choice s p s')
  then show ?thesis using sem_good_step [of s ts t "fst (ts ! t)" "snd (ts ! t)"] assms(2) by simp
next
  case (sem_spurious t s ts)
  have len: "length (remove1 t (sem_cond s)) + 1 = length (sem_cond s)"
    using sem_spurious(3) length_pos_if_in_set [of t "sem_cond s"] by (simp add: length_remove1)
  then have "coming x' = coming x + 1" using sem_spurious by (simp add: coming_def)
  moreover have "sleepers_ok x'" using assms(2) sem_spurious
    by (auto simp: sem_good_def sleepers_ok_def dest!: notin_set_remove1 set_remove1_subset [THEN subsetD])
  moreover have "sem_cond s \<noteq> []" using sem_spurious(3) by auto
  ultimately show ?thesis using assms(2) sem_spurious by (auto simp: sem_good_def no_lost_def mutex_ok_def)
qed

lemma view_step:
  assumes good: "sem_good (s, ts)" and t: "t < length ts" and at: "ts ! t = (c, p)"
    and step: "sem_step t ch c p s = Returns (q, s')"
  shows "sem_effect\<^sup>*\<^sup>* (sem_view (s, ts)) (sem_view (s', ts[t := (c, q)]))"
proof -
  have vt: "map view_of ts ! t = view_of (c, p)" "t < length (map view_of ts)" using t at by simp_all
  have same: "sem_view (s', ts[t := (c, q)]) = sem_view (s, ts)"
    if "view_of (c, q) = view_of (c, p)" "sem_count s' = sem_count s"
    using that vt by (simp add: sem_view_def map_update list_update_same_conv)
  have to: "sem_view (s', ts[t := (c, q)]) = (sem_count s', (map view_of ts)[t := view_of (c, q)])"
    by (simp add: sem_view_def map_update)
  have fr: "sem_view (s, ts) = (sem_count s, map view_of ts)" by (simp add: sem_view_def)
  show ?thesis
  proof (cases rule: sem_step_cases [OF good t at, of ch, case_names wait lock sleep take fail give signal unlock])
    case take
    then have q: "q = At_unlock 0" "s' = s\<lparr>sem_count := sem_count s - 1\<rparr>" using step by simp_all
    have "sem_effect (sem_view (s, ts)) (sem_count s - 1, (map view_of ts)[t := Answered c 0])"
    proof (cases "c = Wait")
      case True
      have "sem_effect (sem_count s, map view_of ts) (sem_count s - 1, (map view_of ts)[t := Answered Wait 0])"
        by (intro effect_wait) (use vt take True in \<open>simp_all add: sem_wait_def\<close>)
      then show ?thesis unfolding fr True .
    next
      case False
      then have c: "c = Trywait" using take(2) by simp
      have "sem_effect (sem_count s, map view_of ts) (sem_count s - 1, (map view_of ts)[t := Answered Trywait 0])"
        by (intro effect_trywait) (use vt take c in \<open>simp_all add: sem_trywait_def\<close>)
      then show ?thesis unfolding fr c .
    qed
    then have "sem_effect (sem_view (s, ts)) (sem_view (s', ts[t := (c, q)]))"
      unfolding to using q by simp
    then show ?thesis by (rule r_into_rtranclp)
  next
    case fail
    then have q: "q = At_unlock (-1)" "s' = s" using step by simp_all
    have "sem_effect (sem_view (s, ts)) (sem_count s, (map view_of ts)[t := Answered Trywait (-1)])"
      unfolding fr by (intro effect_trywait) (use vt fail in \<open>simp_all add: sem_trywait_def\<close>)
    then have "sem_effect (sem_view (s, ts)) (sem_view (s', ts[t := (c, q)]))"
      unfolding to using q fail(2) by simp
    then show ?thesis by (rule r_into_rtranclp)
  next
    case give
    then have q: "q = At_signal" "s' = s\<lparr>sem_count := sem_count s + 1\<rparr>" using step by simp_all
    have "sem_effect (sem_view (s, ts)) (sem_post (sem_count s), (map view_of ts)[t := Answered Post 0])"
      unfolding fr by (intro effect_post) (use vt give in simp_all)
    then have "sem_effect (sem_view (s, ts)) (sem_view (s', ts[t := (c, q)]))"
      unfolding to using q give(2) by (simp add: sem_post_def)
    then show ?thesis by (rule r_into_rtranclp)
  qed (use step same in auto)
qed

lemma sem_effect_balance:
  assumes "sem_effect a b" "sem_balance v a"
  shows "sem_balance v b"
  using assms
  by (cases rule: sem_effect.cases)
    (auto simp: sem_balance_def icnt_update sem_wait_def sem_post_def sem_trywait_def split: if_splits)

interpretation sem: refined_machine "\<lambda>a. a = (sem_init v, [])" sem_effect "sem_balance v"
  "\<lambda>x. x = sem_begin v" sem_move sem_good sem_view for v
proof
  show "sem_balance v a" if "a = (sem_init v, [])" for a
    using that by (simp add: sem_balance_def sem_init_def)
  show "sem_balance v b" if "sem_effect a b" "sem_balance v a" for a b
    by (rule sem_effect_balance [OF that])
  show "sem_view x = (sem_init v, []) \<and> sem_good x" if "x = sem_begin v" for x
    using that by (simp add: sem_view_def sem_begin_def sem_init_def sem_good_def mutex_ok_def sleepers_ok_def no_lost_def)
  show "sem_effect\<^sup>*\<^sup>* (sem_view x) (sem_view x') \<and> sem_good x'"
    if m: "sem_move x x'" and g: "sem_good x" "sem_balance v (sem_view x)" for x x'
  proof
    show "sem_good x'" by (rule sem_good_move [OF m g(1)])
    from m show "sem_effect\<^sup>*\<^sup>* (sem_view x) (sem_view x')"
    proof (cases rule: sem_move.cases)
      case (sem_call s ts c)
      have "sem_effect (sem_count s, map view_of ts) (sem_count s, map view_of ts @ [Pending c])" by (rule effect_call)
      then show ?thesis using sem_call by (intro r_into_rtranclp) (simp add: sem_view_def)
    next
      case (sem_steps t ts choice s p s')
      then show ?thesis using view_step [of s ts t "fst (ts ! t)" "snd (ts ! t)"] g(1) by simp
    next
      case (sem_spurious t s ts)
      then show ?thesis by (simp add: sem_view_def)
    qed
  qed
qed

section \<open>Properties\<close>


text \<open>
  No wake-up is lost.  When none of the calls can go on, spurious wake-ups aside, every call
  that has not returned is a \<open>sem_wait\<close> that sleeps, and there is no unit left that it could
  have taken.
\<close>

theorem built_semaphore_progress:
  assumes "sem_move\<^sup>*\<^sup>* (sem_begin v) (s, ts)"
    and "\<And>t ch. t < length ts \<Longrightarrow> sem_step t ch (fst (ts ! t)) (snd (ts ! t)) s = Waits"
    and "t < length ts" "\<nexists>r. snd (ts ! t) = Back r"
  shows "ts ! t = (Wait, In_cond) \<and> t \<in> set (sem_cond s) \<and> sem_count s = 0"
proof -
  from sem.csteps_ok [OF refl assms(1)] have g: "sem_good (s, ts)" and b: "sem_balance v (sem_view (s, ts))" by simp_all
  have m: "holder (sem_mutex s) = Some u \<longleftrightarrow> u < length ts \<and> in_mutex (snd (ts ! u))" for u
    using g by (simp add: sem_good_def mutex_ok_def)
  have stuck: "snd (ts ! u) = At_lock \<and> holder (sem_mutex s) \<noteq> None \<or>
      snd (ts ! u) = In_cond \<and> (u \<in> set (sem_cond s) \<or> holder (sem_mutex s) \<noteq> None) \<or> (\<exists>r. snd (ts ! u) = Back r)"
    if "u < length ts" for u
    by (cases rule: sem_step_cases [OF g that, of "fst (ts ! u)" "snd (ts ! u)" 0]) (use assms(2) [OF that, of 0] in simp_all)
  have free: "holder (sem_mutex s) = None"
  proof (rule ccontr)
    assume "holder (sem_mutex s) \<noteq> None"
    then obtain u where "u < length ts" "in_mutex (snd (ts ! u))" using m by auto
    with stuck [of u] show False by auto
  qed
  have asleep: "snd (ts ! u) = In_cond \<and> u \<in> set (sem_cond s) \<or> (\<exists>r. snd (ts ! u) = Back r)" if "u < length ts" for u
    using stuck [OF that] free by auto
  then have t: "snd (ts ! t) = In_cond" "t \<in> set (sem_cond s)" using assms(3,4) by blast+
  have sl: "sleepers_ok (s, ts)" and lost: "no_lost (s, ts)" using g by (simp_all add: sem_good_def)
  have none: "icnt (\<lambda>y. y = (Wait, In_body)) ts = 0" "icnt (\<lambda>y. snd y = At_signal) ts = 0"
    using asleep by (fastforce simp: icnt_zero in_set_conv_nth)+
  let ?I = "{u. u < length ts \<and> snd (ts ! u) = In_cond}"
  have "card ?I \<le> card (set (sem_cond s))" using asleep by (intro card_mono) (auto dest!: asleep)
  then have "icnt (\<lambda>y. snd y = In_cond) ts \<le> int (length (sem_cond s))"
    using card_length [of "sem_cond s"] by (simp add: icnt_def cnt_def length_filter_conv_card)
  then have "coming (s, ts) \<le> 0" using none by (simp add: coming_def)
  moreover have "sem_cond s \<noteq> []" using t(2) by auto
  ultimately have "sem_count s \<le> 0" using lost by (simp add: no_lost_def)
  moreover have "0 \<le> sem_count s" using b by (simp add: sem_balance_def sem_view_def)
  moreover have "ts ! t = (Wait, In_cond)" using sl t by (simp add: sleepers_ok_def)
  ultimately show ?thesis using t by simp
qed

section \<open>A scenario\<close>

text \<open>A call waits on an empty semaphore and sleeps; another one posts and wakes it.\<close>

fun sem_run :: "nat list \<Rightarrow> sem_state \<Rightarrow> sem_state option" where
  "sem_run [] x = Some x"
| "sem_run (t # sched) x =
    (if t < length (snd x) then
       (case sem_step t 0 (fst (snd x ! t)) (snd (snd x ! t)) (fst x) of
          Returns (p, s') \<Rightarrow> sem_run sched (s', (snd x)[t := (fst (snd x ! t), p)])
        | _ \<Rightarrow> None)
     else None)"

lemma sem_run_moves: "sem_run sched x = Some y \<Longrightarrow> sem_move\<^sup>*\<^sup>* x y"
proof (induction sched arbitrary: x)
  case (Cons t sched)
  obtain s ts where x: "x = (s, ts)" by force
  from Cons.prems x obtain p s' where st: "t < length ts" "sem_step t 0 (fst (ts ! t)) (snd (ts ! t)) s = Returns (p, s')"
    "sem_run sched (s', ts[t := (fst (ts ! t), p)]) = Some y"
    by (auto split: if_splits outcome.splits prod.splits)
  from sem_steps [OF st(1,2)] Cons.IH [OF st(3)] show ?case unfolding x by (rule converse_rtranclp_into_rtranclp)
qed simp

lemma sem_two_calls: "sem_move\<^sup>*\<^sup>* (sem_begin v) (fst (sem_begin v), [(a, At_lock), (b, At_lock)])"
proof -
  have e: "sem_begin v = (fst (sem_begin v), [])" by (simp add: sem_begin_def)
  have "sem_move (sem_begin v) (fst (sem_begin v), [(a, At_lock)])" by (subst e) (metis append_Nil sem_call)
  moreover have "sem_move (fst (sem_begin v), [(a, At_lock)]) (fst (sem_begin v), [(a, At_lock), (b, At_lock)])"
    using sem_call [of "fst (sem_begin v)" "[(a, At_lock)]" b] by simp
  ultimately show ?thesis by (meson r_into_rtranclp rtranclp_trans)
qed

lemma demo_sem_wakes: "sem_run [0, 0, 1, 1, 1, 1, 0, 0, 0] (fst (sem_begin 0), [(Wait, At_lock), (Post, At_lock)]) =
    Some (fst (sem_begin 0), [(Wait, Back 0), (Post, Back 0)])"
  by code_simp

definition demo_sem_asleep :: sys_sem where
  "demo_sem_asleep = \<lparr>sem_mutex = \<lparr>mutex_type = Default, holder = None\<rparr>, sem_cond = [0], sem_count = 0\<rparr>"

lemma demo_sem_sleeps: "sem_run [0, 0, 1, 1, 1] (fst (sem_begin 0), [(Wait, At_lock), (Trywait, At_lock)]) =
    Some (demo_sem_asleep, [(Wait, In_cond), (Trywait, Back (-1))])"
  by code_simp

lemma sem_begin_init: "v < 2 ^ 31 \<Longrightarrow> sem_init_wrapper 0 0 v = Returns (fst (sem_begin v))"
  by (simp add: sem_init_wrapper_def sem_begin_def cint_simps)


theorem built_semaphore_progress_witness:
  "0 \<in> set (sem_cond demo_sem_asleep) \<and> sem_count demo_sem_asleep = 0"
proof -
  have "sem_move\<^sup>*\<^sup>* (sem_begin 0) (demo_sem_asleep, [(Wait, In_cond), (Trywait, Back (-1))])"
    using sem_two_calls sem_run_moves [OF demo_sem_sleeps] by (rule rtranclp_trans)
  moreover have "sem_step t ch (fst ([(Wait, In_cond), (Trywait, Back (-1))] ! t)) (snd ([(Wait, In_cond), (Trywait, Back (-1))] ! t))
      demo_sem_asleep = Waits" if "t < length [(Wait, In_cond), (Trywait, Back (-1))]" for t ch
    using that by (cases t) (auto simp: sem_step_def demo_sem_asleep_def less_Suc_eq)
  ultimately show ?thesis
    using built_semaphore_progress [of 0 demo_sem_asleep "[(Wait, In_cond), (Trywait, Back (-1))]" 0] by simp
qed

end
