(* ===== verification/CacheDirs.thy ===== *)
theory CacheDirs
  imports CacheOpenRepair Locks
begin

text \<open>
  \<open>src/cache.c\<close>, the directories of the cache: where \<open>CacheSystem_get_cache_dir\<close> puts them, what
  \<open>CacheSystem_init\<close> creates, and what \<open>CacheSystem_clear\<close> takes away.

  The environment variables, \<open>realpath\<close> and \<open>curl_easy_escape\<close> are arguments, and so is which of
  the \<open>mkdir\<close> calls fail with another error than EEXIST.  None is a fatal error: the process
  exits.  Results list the directories and files created, in order.
\<close>

definition CacheSystem_get_cache_dir ::
    "ConfigStruct \<Rightarrow> cstr option \<Rightarrow> cstr option \<Rightarrow> cstr option \<Rightarrow> cstr option" where
  "CacheSystem_get_cache_dir cfg xdg_cache_home user_home cur_dir =
    (case cfg_cache_dir cfg of
       Some d \<Rightarrow> Some d
     | None \<Rightarrow>
         (case xdg_cache_home of
            Some x \<Rightarrow> Some (strndup x PATH_MAX)
          | None \<Rightarrow>
              (case user_home of
                 Some h \<Rightarrow> Some (path_append h ''/.cache'')
               | None \<Rightarrow>
                   (case cur_dir of
                      Some c \<Rightarrow> Some (path_append c ''/.cache'')
                    | None \<Rightarrow> None))))"

text \<open>The \<open>mkdir\<close> calls of a list of directories, up to the first that fails.\<close>

fun mkdirs :: "(cstr \<Rightarrow> bool) \<Rightarrow> cstr list \<Rightarrow> cstr list option" where
  "mkdirs fails [] = Some []"
| "mkdirs fails (d # ds) = (if fails d then None else map_option ((#) d) (mkdirs fails ds))"

definition CacheSystem_calc_dir ::
    "(cstr \<Rightarrow> bool) \<Rightarrow> bool \<Rightarrow> (cstr \<Rightarrow> cstr) \<Rightarrow> cstr \<Rightarrow> cstr \<Rightarrow> (cstr \<times> cstr list) option" where
  "CacheSystem_calc_dir mkdir_fails tag_fails escape cache_home url =
    (let cache_dir_root = path_append cache_home ''/httpdirfs/''
     in case mkdirs mkdir_fails [cache_home, cache_dir_root] of
          None \<Rightarrow> None
        | Some made \<Rightarrow>
            (let fn = path_append cache_dir_root ''/CACHEDIR.TAG''
             in if tag_fails then None
                else (let full_path = path_append cache_dir_root (escape url)
                      in if mkdir_fails full_path then None
                         else Some (full_path, made @ [fn, full_path]))))"

definition CacheSystem_init ::
    "ConfigStruct \<Rightarrow> (cstr \<Rightarrow> bool) \<Rightarrow> (cstr \<Rightarrow> (cstr \<times> cstr list) option) \<Rightarrow> cstr \<Rightarrow> bool
     \<Rightarrow> (cache_dirs \<times> cstr list) option" where
  "CacheSystem_init cfg mkdir_fails calc_dir path0 url_supplied =
    (case (if url_supplied then calc_dir path0 else Some (path0, [])) of
       None \<Rightarrow> None
     | Some (path, made) \<Rightarrow>
         (let d = \<lparr>META_DIR = path_append path ''meta/'', DATA_DIR = path_append path ''data/''\<rparr>;
              rest = (if mode cfg = SONIC
                      then [path_append (META_DIR d) ''rest/'', path_append (DATA_DIR d) ''rest/''] else [])
          in map_option (\<lambda>m. (d, made @ m)) (mkdirs mkdir_fails ([META_DIR d, DATA_DIR d] @ rest))))"

text \<open>\<open>CacheSystem_clear\<close>: the directory whose contents \<open>nftw\<close> removes before the process exits.\<close>

definition CacheSystem_clear :: "ConfigStruct \<Rightarrow> cstr \<Rightarrow> cstr" where
  "CacheSystem_clear cfg cache_home =
    (if cfg_cache_dir cfg \<noteq> None then cache_home else path_append cache_home ''/httpdirfs/'')"

text \<open>
  \<open>nftw\<close> calls \<open>ntfw_cb\<close> for the paths below that directory, contents before directories, in the
  order \<open>visits\<close>, until a call of \<open>remove\<close> fails; the result is what has been removed.  The process
  then exits with success in any case.
\<close>

fun ntfw_walk :: "(cstr \<Rightarrow> bool) \<Rightarrow> cstr list \<Rightarrow> cstr list" where
  "ntfw_walk remove_fails [] = []"
| "ntfw_walk remove_fails (p # visits) = (if remove_fails p then [] else p # ntfw_walk remove_fails visits)"

lemma ntfw_walk_takes: "ntfw_walk remove_fails visits = takeWhile (\<lambda>p. \<not> remove_fails p) visits"
  by (induction visits) simp_all

text \<open>
  \<open>CacheSystem_cleanup\<close>, on \<open>CACHE_SYSTEM_INIT\<close>, the two directory names and \<open>cf_lock\<close>: a second call
  does nothing.  \<open>ret\<close> is what \<open>pthread_mutex_destroy\<close> returns.
\<close>

fun CacheSystem_cleanup ::
    "int \<Rightarrow> bool \<times> cache_dirs option \<times> mutex \<Rightarrow> (bool \<times> cache_dirs option \<times> mutex) outcome" where
  "CacheSystem_cleanup ret (initialised, dirs, cf_lock) =
    (if initialised
     then and_then (pthread_mutex_destroy_wrapper ret cf_lock) (\<lambda>_. Returns (False, None, cf_lock))
     else Returns (initialised, dirs, cf_lock))"

lemma CacheSystem_cleanup_twice:
  "CacheSystem_cleanup ret s = Returns s' \<Longrightarrow> CacheSystem_cleanup ret' s' = Returns s' \<and> \<not> fst s'"
  by (cases s) (auto split: if_splits)

section \<open>The two directories\<close>

lemma path_append_dir:
  assumes "length q \<le> PATH_MAX" "q \<noteq> []" "last q = slash"
  obtains r where "path_append q k = q @ r"
proof
  have "q ! (length q - 1) = slash" using assms(2,3) by (simp add: last_conv_nth)
  then show "path_append q k = q @ take (strnlen k PATH_MAX - length (takeWhile (\<lambda>c. c = slash) (take (strnlen k PATH_MAX) k)))
      (drop (length (takeWhile (\<lambda>c. c = slash) (take (strnlen k PATH_MAX) k))) k)"
    using assms(1,2) by (simp add: path_append_def Let_def strnlen_def)
qed

lemma mkdirs_all: "mkdirs fails ds = Some made \<Longrightarrow> made = ds"
  by (induction ds arbitrary: made) (auto split: if_splits)

text \<open>
  What \<open>CacheSystem_init\<close> sets up keeps metadata and data apart: both directories are
  created, and no metadata file has the name of a data file, whatever the two cache keys are.
\<close>

theorem cache_dirs_disjoint:
  assumes "CacheSystem_init cfg mkdir_fails calc_dir path0 url_supplied = Some (d, made)"
    and "(if url_supplied then map_option fst (calc_dir path0) else Some path0) = Some p"
    and "p \<noteq> []" "length p + 6 \<le> PATH_MAX"
  shows "META_DIR d \<in> set made \<and> DATA_DIR d \<in> set made \<and>
    path_append (META_DIR d) k \<noteq> path_append (DATA_DIR d) k'"
proof -
  let ?sep = "if last p = slash then [] else [slash]"
  obtain made0 rest made1 where d: "d = \<lparr>META_DIR = path_append p ''meta/'', DATA_DIR = path_append p ''data/''\<rparr>"
    and m: "mkdirs mkdir_fails ([META_DIR d, DATA_DIR d] @ rest) = Some made1" "made = made0 @ made1"
    using assms(1,2) by (auto simp: CacheSystem_init_def Let_def split: option.splits if_splits)
  have dirs: "META_DIR d = (p @ ?sep) @ ''meta/''" "DATA_DIR d = (p @ ?sep) @ ''data/''"
    using assms(3,4) by (simp_all add: d path_append_short)
  obtain r r' where "path_append (META_DIR d) k = META_DIR d @ r" "path_append (DATA_DIR d) k' = DATA_DIR d @ r'"
    by (rule path_append_dir [of "META_DIR d" k], (use assms(4) dirs in simp_all)[3],
        rule path_append_dir [of "DATA_DIR d" k'], (use assms(4) dirs in simp_all)[3]) blast
  then have "path_append (META_DIR d) k \<noteq> path_append (DATA_DIR d) k'" by (simp add: dirs)
  moreover have "made1 = [META_DIR d, DATA_DIR d] @ rest" by (rule mkdirs_all [OF m(1)])
  ultimately show ?thesis using m(2) by simp
qed

theorem cache_dirs_disjoint_witness:
  "\<exists>d made. CacheSystem_init (Config_init ''httpdirfs'' 15) (\<lambda>_. False) (\<lambda>_. None) ''/c'' False = Some (d, made) \<and>
    path_append (META_DIR d) ''f'' \<noteq> path_append (DATA_DIR d) ''f''"
proof -
  obtain d made where i: "CacheSystem_init (Config_init ''httpdirfs'' 15) (\<lambda>_. False) (\<lambda>_. None) ''/c'' False = Some (d, made)"
    by (simp add: CacheSystem_init_def Let_def Config_init_def)
  have "(if False then map_option fst (None :: (cstr \<times> cstr list) option) else Some ''/c'') = Some ''/c''" by simp
  from cache_dirs_disjoint [where calc_dir = "\<lambda>_. None", OF i this, of "''f''" "''f''"] i show ?thesis by auto
qed

end
