(* ===== verification/CacheDisk.thy ===== *)
theory CacheDisk
  imports CacheOpenRepair
begin

text \<open>
  What the two files of one cached remote file promise while nobody has them open: every segment
  that the metadata file marks holds, in the data file, the bytes of the remote file.  The
  operations of \<open>src/cache.c\<close> on the files keep the promise, also the ones that fail part way.
\<close>

section \<open>The metadata that a file stores\<close>

definition stored :: "Link \<Rightarrow> Cache \<Rightarrow> byte list \<Rightarrow> bool" where
  "stored lk c bs \<longleftrightarrow> meta_ok lk c \<and> (\<exists>rest. bs = meta_bytes lk c @ rest)"

lemma meta_bytes_eq:
  "length (seg c) = nat (segbc c) \<Longrightarrow> meta_bytes lk c = enc_int 8 (link_time lk) @
     enc_int 8 (to_off (content_length lk)) @ enc_int 4 (blksz c) @ enc_int 8 (segbc c) @ seg c"
  by (simp add: meta_bytes_def)

lemma meta_ok_bounds:
  assumes "meta_ok lk c"
  shows "0 < blksz c" "blksz c < 2 ^ 31" "0 < segbc c" "segbc c < 2 ^ 31" "length (seg c) = nat (segbc c)"
    "0 < content_length lk" "content_length lk < 2 ^ 63"
  using assms max_segbc_bounds(1,2) [of "int (content_length lk)" "blksz c"] by (auto simp: meta_ok_def)

lemma slices_split: "28 \<le> length bs \<Longrightarrow>
    bs = slice 0 8 bs @ slice 8 8 bs @ slice 16 4 bs @ slice 20 8 bs @ drop 28 bs"
proof -
  assume "28 \<le> length bs"
  have "bs = take 8 bs @ take 8 (drop 8 bs) @ take 4 (drop 16 bs) @ take 8 (drop 20 bs) @ drop 28 bs"
    using append_take_drop_id [of 8 bs] append_take_drop_id [of 8 "drop 8 bs"]
      append_take_drop_id [of 4 "drop 16 bs"] append_take_drop_id [of 8 "drop 20 bs"] by simp
  then show ?thesis by (simp add: slice_def)
qed

lemma accepted_stored:
  assumes read: "Meta_read (Some lk) flt fs cf = (0, cf')" and fp: "mfp cf = Some fp"
  shows "stored lk cf' (contents fs fp)"
proof -
  let ?bs = "contents fs fp"
  let ?t = "dec_int 8 (slice 0 8 ?bs)" and ?len = "dec_int 8 (slice 8 8 ?bs)"
  let ?b = "dec_int 4 (slice 16 4 ?bs)" and ?n = "dec_int 8 (slice 20 8 ?bs)"
  have seek: "\<not> f_seek flt" using read fp by (auto simp: Meta_read_def)
  have 28: "28 \<le> length ?bs" "20 \<le> length ?bs"
    using read fp seek by (auto simp: Meta_read_def Let_def split: if_splits)
  have c: "0 < ?len" "0 < ?b" "0 < ?n" "?len \<le> INT64_MAX - ?b" "?t = link_time lk"
    "to_size ?len = content_length lk" "?n = max_segbc_of ?len ?b"
    using read fp seek 28 by (auto simp: Meta_read_def Let_def split: if_splits)
  have rest: "length (slice 28 (nat ?n) ?bs) = nat ?n"
    and cf': "cf' = cf\<lparr>blksz := ?b, segbc := ?n, seg := slice 28 (nat ?n) ?bs\<rparr>"
    using read fp seek 28 c by (auto simp: Meta_read_def Let_def split: if_splits option.splits)
  have l: "length (slice 0 8 ?bs) = 8" "length (slice 8 8 ?bs) = 8" "length (slice 16 4 ?bs) = 4" "length (slice 20 8 ?bs) = 8"
    using 28 by simp_all
  have bnd: "?b < 2 ^ 31" "?len < 2 ^ 63" "- (2 ^ 63) \<le> ?t" "?t < 2 ^ 63"
    using dec_int_bounds [OF l(1)] dec_int_bounds [OF l(2)] dec_int_bounds [OF l(3)] by simp_all
  have len: "?len = int (content_length lk)" "content_length lk < 2 ^ 63"
    using c(1,6) bnd(2) by (auto simp: to_size_nonneg simp flip: c(6))
  have ok: "meta_ok lk cf'"
    unfolding meta_ok_def cf' using c(1-4) c(7) bnd rest len by (simp flip: c(5))
  have o: "to_off (content_length lk) = ?len" using len by (simp add: cint_simps)
  have d: "drop 28 ?bs = slice 28 (nat ?n) ?bs @ drop (nat ?n) (drop 28 ?bs)"
    unfolding slice_def by (rule append_take_drop_id [symmetric])
  have e: "enc_int 8 ?t = slice 0 8 ?bs" "enc_int 8 ?len = slice 8 8 ?bs" "enc_int 4 ?b = slice 16 4 ?bs"
    "enc_int 8 ?n = slice 20 8 ?bs" using l by (simp_all add: enc_dec_int)
  have s: "seg cf' = slice 28 (nat ?n) ?bs" "blksz cf' = ?b" "segbc cf' = ?n" by (simp_all add: cf')
  have "meta_bytes lk cf' = slice 0 8 ?bs @ slice 8 8 ?bs @ slice 16 4 ?bs @ slice 20 8 ?bs @ slice 28 (nat ?n) ?bs"
    by (simp only: meta_bytes_eq [OF meta_ok_bounds(5) [OF ok]] s o e c(5) [symmetric])
  then have "?bs = meta_bytes lk cf' @ drop (nat ?n) (drop 28 ?bs)"
    using slices_split [OF 28(1)] d by (metis append_assoc)
  with ok show ?thesis by (auto simp: stored_def)
qed

lemma stored_unique:
  assumes "stored lk c bs" "stored lk c' bs"
  shows "blksz c' = blksz c \<and> segbc c' = segbc c \<and> seg c' = seg c"
proof -
  obtain rest rest2 where eq: "bs = meta_bytes lk c @ rest" "bs = meta_bytes lk c' @ rest2" and
    ok: "meta_ok lk c" "meta_ok lk c'" using assms unfolding stored_def by blast
  note b = meta_ok_bounds [OF ok(1)] meta_ok_bounds [OF ok(2)]
  note sl = meta_bytes_slices [OF b(5), of lk rest, folded eq(1)] meta_bytes_slices [OF b(12), of lk rest2, folded eq(2)]
  have "enc_int 4 (blksz c) = enc_int 4 (blksz c')" "enc_int 8 (segbc c) = enc_int 8 (segbc c')"
    using sl(3,4,8,9) by simp_all
  then have "dec_int 4 (enc_int 4 (blksz c)) = dec_int 4 (enc_int 4 (blksz c'))"
    "dec_int 8 (enc_int 8 (segbc c)) = dec_int 8 (enc_int 8 (segbc c'))" by simp_all
  then have h: "blksz c = blksz c'" "segbc c = segbc c'" using b by (simp_all add: dec_enc_int4 dec_enc_int8)
  then show ?thesis using sl(5,10) by simp
qed

lemma Seg_exist_view:
  "blksz c' = blksz c \<Longrightarrow> segbc c' = segbc c \<Longrightarrow> seg c' = seg c \<Longrightarrow> Seg_exist c' i = Seg_exist c i"
  by (simp add: Seg_exist_def Let_def)

section \<open>The promise\<close>

definition right_where_marked :: "byte list \<Rightarrow> Cache \<Rightarrow> byte list \<Rightarrow> bool" where
  "right_where_marked R c bs \<longleftrightarrow> (\<forall>i < length R. i < length bs \<longrightarrow> Seg_exist c (int i) \<noteq> 0 \<longrightarrow> bs ! i = R ! i)"

definition disk_true :: "byte list \<Rightarrow> Link \<Rightarrow> cstr \<Rightarrow> cstr \<Rightarrow> fs \<Rightarrow> bool" where
  "disk_true R lk m d f \<longleftrightarrow> (\<forall>c. stored lk c (contents f m) \<longrightarrow> right_where_marked R c (contents f d))"

lemma disk_true_same:
  "disk_true R lk m d f \<Longrightarrow> f' m = f m \<Longrightarrow> f' d = f d \<Longrightarrow> disk_true R lk m d f'"
  by (simp add: disk_true_def contents_def)

text \<open>A metadata file without a mark promises nothing.\<close>

definition unmarked :: "byte list \<Rightarrow> bool" where
  "unmarked bs \<longleftrightarrow> set (drop 28 bs) \<subseteq> {0}"

lemma unmarked_Nil [simp]: "unmarked []"
  by (simp add: unmarked_def)

lemma unmarked_true:
  assumes "unmarked (contents f m)"
  shows "disk_true R lk m d f"
proof -
  have "Seg_exist c i = 0" if st: "stored lk c (contents f m)" for c i
  proof -
    obtain rest where eq: "contents f m = meta_bytes lk c @ rest" and ok: "meta_ok lk c"
      using st by (auto simp: stored_def)
    note b = meta_ok_bounds [OF ok]
    have "drop 28 (contents f m) = seg c @ rest"
      unfolding eq meta_bytes_eq [OF b(5)] by simp
    then have z: "set (seg c) \<subseteq> {0}" using assms by (simp add: unmarked_def)
    have "seg c ! j = 0" if "j < length (seg c)" for j using nth_mem [OF that] z by blast
    then show ?thesis using b(5) by (simp add: Seg_exist_def Let_def nat_less_iff)
  qed
  then show ?thesis by (simp add: disk_true_def right_where_marked_def)
qed

lemma unlink_true:
  assumes "disk_true R lk m d f"
  shows "disk_true R lk m d (f(p := None))"
proof (cases "p = m")
  case True
  then show ?thesis by (intro unmarked_true) (simp add: contents_def)
next
  case False
  then show ?thesis using assms
    by (cases "p = d") (simp_all add: disk_true_def contents_def right_where_marked_def)
qed

lemma unlink_file_true:
  assumes "disk_true R lk m d f"
  shows "disk_true R lk m d (snd (unlink_file flt f p))"
  using assms unlink_true by (simp add: unlink_file_def)

lemma Cache_exist_true:
  assumes "disk_true R lk m d f" "Cache_exist dirs flt f fn = Some (r, f')"
  shows "disk_true R lk m d f'"
proof -
  have "f' = f \<or> (\<exists>p. f' = snd (unlink_file flt f p)) \<or> (\<exists>p q. f' = snd (unlink_file flt (snd (unlink_file flt f p)) q))"
    using assms(2) by (auto simp: Cache_exist_def Let_def split: if_splits prod.splits) (metis snd_conv)+
  then show ?thesis using unlink_file_true assms(1) by blast
qed

lemma unlink_pair_true:
  assumes "disk_true R lk m d (files s)"
  shows "disk_true R lk m d (files (unlink_pair dirs fm fd key s))"
  using assms by (simp add: unlink_pair_def Let_def unlink_file_true)

section \<open>Creating the files\<close>

lemma unmarked_meta:
  assumes "set (seg cf) \<subseteq> {0}"
  shows "unmarked (take k (meta_bytes lk cf))"
proof -
  let ?h = "enc_int 8 (link_time lk) @ enc_int 8 (to_off (content_length lk)) @ enc_int 4 (blksz cf) @ enc_int 8 (segbc cf)"
  have "drop 28 (take k (meta_bytes lk cf)) = take (k - 28) (take (nat (segbc cf)) (seg cf))"
    unfolding meta_bytes_def append_assoc [symmetric] drop_take
    by (simp only: drop_append length_append length_enc_int) simp
  moreover have "set (take (k - 28) (take (nat (segbc cf)) (seg cf))) \<subseteq> set (seg cf)"
    using set_take_subset by (metis order_trans)
  ultimately show ?thesis using assms unfolding unmarked_def by auto
qed

lemma Meta_write_frame:
  assumes "mfp cf = Some fp"
  shows "snd (Meta_write lk flt f cf) = f \<or> (\<exists>lk' k. lk = Some lk' \<and>
    snd (Meta_write lk flt f cf) = f(fp \<mapsto> overwrite 0 0 (take k (meta_bytes lk' cf)) (contents f fp)))"
proof (cases "snd (Meta_write lk flt f cf) = f")
  case False
  then obtain lk' where lk: "lk = Some lk'" "\<not> f_seek flt"
    using assms by (auto simp: Meta_write_def split: option.splits if_splits)
  with False assms have "snd (Meta_write lk flt f cf) = (case f_write flt of
      None \<Rightarrow> f(fp \<mapsto> overwrite 0 0 (meta_bytes lk' cf) (contents f fp))
    | Some k \<Rightarrow> f(fp \<mapsto> overwrite 0 0 (take k (meta_bytes lk' cf)) (contents f fp)))"
    by (auto simp: Meta_write_def Let_def split: if_splits option.splits)
  moreover have "meta_bytes lk' cf = take (length (meta_bytes lk' cf)) (meta_bytes lk' cf)" by simp
  ultimately show ?thesis using lk(1) by (cases "f_write flt") (metis option.simps(4,5))+
qed simp

lemma Meta_write_unmarked:
  assumes "mfp cf = Some fp" "contents f fp = []" "set (seg cf) \<subseteq> {0}"
  shows "unmarked (contents (snd (Meta_write lk flt f cf)) fp)"
  using Meta_write_frame [OF assms(1), of lk flt f] assms(2) unmarked_meta [OF assms(3)]
  by (auto simp: overwrite_0)

lemma Data_create_frame:
  "Data_create d lk flt f cf = Some f' \<Longrightarrow> p \<noteq> path_append (DATA_DIR d) (cpath cf) \<Longrightarrow> f' p = f p"
  by (auto simp: Data_create_def Let_def split: if_splits option.splits)

lemma create_files_true:
  assumes run: "create_files e flt key l link s = Some (r, s')" and ne: "meta_fn e key \<noteq> data_fn e key"
    and len: "length key \<le> PATH_MAX"
  shows "disk_true R lk (meta_fn e key) (data_fn e key) (files s')"
proof -
  let ?m = "meta_fn e key" and ?d = "data_fn e key"
  let ?n = "create_segbc (content_length link) (data_blksz (e_cfg e))"
  let ?cf = "(Cache_alloc (e_cfg e))\<lparr>cpath := key, clink := Some l, blksz := data_blksz (e_cfg e),
      segbc := ?n, seg := replicate (nat ?n) 0\<rparr>"
  have key: "strndup key PATH_MAX = key" using len by (simp add: strndup_def)
  note run' = run [unfolded create_files_def Cache_new_eq Let_def prod.case key]
  obtain fs1 where 1: "Meta_create (e_dirs e) (flt S_meta_create) (files s) ?cf = Some fs1"
    using run' by (auto split: option.splits if_splits)
  then have m1: "contents fs1 ?m = []" by (auto simp: Meta_create_def contents_def split: if_splits)
  obtain q cf1 where 2: "Meta_open (e_dirs e) (flt S_create_open) fs1 ?cf = (q, cf1)" by force
  have q: "q = 0" using run' 1 2 by (auto split: if_splits)
  obtain c where "cf1 = ?cf\<lparr>mfp := c\<rparr>" "c = Some ?m" using Meta_open_frame [OF 2] q by auto
  then have cf1: "mfp cf1 = Some ?m" "set (seg cf1) \<subseteq> {0}" "cpath cf1 = key" by auto
  let ?f2 = "snd (Meta_write (Some link) (flt S_meta_write) fs1 cf1)"
  have m2: "unmarked (contents ?f2 ?m)" by (rule Meta_write_unmarked [OF cf1(1) m1 cf1(2)])
  obtain fs3 where 3: "Data_create (e_dirs e) (Some link) (flt S_data_create) ?f2 cf1 = Some fs3"
    using run' 1 2 q by (auto split: option.splits if_splits)
  have "fs3 ?m = ?f2 ?m" using Data_create_frame [OF 3] ne cf1(3) by simp
  then have "unmarked (contents fs3 ?m)" using m2 by (simp add: contents_def)
  then have t: "disk_true R lk ?m ?d fs3" by (rule unmarked_true)
  obtain res fs4 where 4: "Cache_exist (e_dirs e) (flt S_created) fs3 key = Some (res, fs4)" "files s' = fs4"
    using run' 1 2 q 3 by (auto simp: Cache_free_def split: option.splits if_splits)
  with Cache_exist_true [OF t] show ?thesis by simp
qed

section \<open>Opening\<close>

lemma unref_held:
  assumes "tables h p = Some t" "0 < refcount t" "0 < n"
  shows "LinkTable_unref n (Some p) (put p (t\<lparr>refcount := refcount t + 1\<rparr>) h) = Some h"
proof -
  obtain k where k: "n = Suc k" using assms(3) by (cases n) auto
  have "put p t (put p (t\<lparr>refcount := refcount t + 1\<rparr>) h) = h"
    using assms(1) by (simp add: put_def fun_upd_idem)
  then show ?thesis using assms(1,2) k by (simp add: unref_step_def Let_def)
qed

text \<open>A lookup that is held elsewhere gives the link, and its release restores the tree.\<close>

lemma create_held_true:
  assumes run: "Cache_create e flt (join ns) s = Some (r, s')"
    and path: "resolved ns l (tree s)" "held l (tree s)" "get_link l (tree s) = Some lk" and ok: "file_ok e key lk"
  shows "tree s' = tree s \<and> disk_true R lk1 (meta_fn e key) (data_fn e key) (files s')"
proof -
  obtain t where t: "tables (tree s) (fst l) = Some t" "0 < refcount t" using path(2) by (auto simp: held_def)
  let ?s = "s\<lparr>tree := put (fst l) (t\<lparr>refcount := refcount t + 1\<rparr>) (tree s)\<rparr>"
  have "create_name e lk = Some key" "content_length lk \<noteq> 0" using ok by (simp_all add: create_name_def file_ok_def)
  then obtain s2 where s2: "create_files e flt key l lk ?s = Some (r, s2)" "drop_link e l s2 = Some s'"
    using run find_resolved [OF path(1) t(1), of e] path(3) get_link_refcount [OF t(1)]
    by (auto simp: Cache_create_def split: option.splits)
  have "meta_fn e key \<noteq> data_fn e key" "length key \<le> PATH_MAX" "0 < e_fuel e" using ok by (simp_all add: file_ok_def)
  note d = create_files_true [OF s2(1) this(1,2)] and fuel = this(3)
  have "tree s2 = tree ?s"
    using s2(1) by (auto simp: create_files_def Cache_new_def put_cache_def Cache_free_def Let_def split: option.splits prod.splits if_splits)
  then show ?thesis
    using s2(2) d unref_held [OF t fuel] by (auto simp: drop_link_def)
qed

lemma renew_true:
  assumes run: "renew e flt (join ns) key s = Some (r, s')"
    and path: "resolved ns l (tree s)" "held l (tree s)" "get_link l (tree s) = Some lk" and ok: "file_ok e key lk"
    and t: "disk_true R lk1 (meta_fn e key) (data_fn e key) (files s)"
  shows "tree s' = tree s \<and> disk_true R lk1 (meta_fn e key) (data_fn e key) (files s')"
proof -
  have ne: "meta_fn e key \<noteq> data_fn e key" using ok by (simp add: file_ok_def)
  obtain missing fs1 where x: "Cache_exist (e_dirs e) (flt S_exist) (files s) key = Some (missing, fs1)"
    using run by (auto simp: renew_def split: option.splits)
  note t1 = Cache_exist_true [OF t x]
  show ?thesis
  proof (cases "missing = 0")
    case True
    with run x t1 show ?thesis by (auto simp: renew_def)
  next
    case False
    let ?s1 = "unlink_pair (e_dirs e) (flt S_unlink_meta) (flt S_unlink_data) key (s\<lparr>files := fs1\<rparr>)"
    have "Cache_delete e (flt S_unlink_meta) (flt S_unlink_data) (join ns) (s\<lparr>files := fs1\<rparr>) = Some ?s1"
      using path by (intro delete_held [OF _ _ _ ok]) simp_all
    with run x False have c: "Cache_create e flt (join ns) ?s1 = Some (r, s')" by (simp add: renew_def)
    from create_held_true [OF c _ _ _ ok, of l R lk1] path show ?thesis by (simp add: unlink_pair_def)
  qed
qed

text \<open>A new cache comes out of the checks on the files as they are then.\<close>

definition checked :: "cache_env \<Rightarrow> cstr \<Rightarrow> linkptr \<Rightarrow> Link \<Rightarrow> nat \<Rightarrow> cstate \<Rightarrow> bool" where
  "checked e key l lk c s \<longleftrightarrow> (\<exists>cf flt. caches s c = Some cf \<and>
     open_checks e flt key lk (files s) ((Cache_alloc (e_cfg e))\<lparr>cpath := key, clink := Some l\<rparr>) = (True, cf))"

lemma drop_files: "drop_link e l s = Some s' \<Longrightarrow> files s' = files s"
  by (auto simp: drop_link_def split: option.splits)

lemma attempt_true:
  assumes run: "open_attempt e flt (join ns) key l s = Some (r, s')"
    and path: "resolved ns l (tree s)" "held l (tree s)" "get_link l (tree s) = Some lk" and ok: "file_ok e key lk"
    and t: "disk_true R lk1 (meta_fn e key) (data_fn e key) (files s)"
  shows "disk_true R lk1 (meta_fn e key) (data_fn e key) (files s') \<and>
    (r = None \<longrightarrow> tree s' = tree s) \<and> (\<forall>c. r = Some (Some c) \<longrightarrow> checked e key l lk c s')"
proof -
  obtain r2 s2 where rn: "renew e flt (join ns) key s = Some (r2, s2)"
    using run by (auto simp: open_attempt_eq split: option.splits)
  note s2 = renew_true [OF rn path ok t]
  show ?thesis
  proof (cases "r2 = 0")
    case False
    with run rn have "r = Some None" "drop_link e l s2 = Some s'" by (auto simp: open_attempt_eq)
    with s2 drop_files show ?thesis by simp
  next
    case True
    have path2: "resolved ns l (tree s2)" "held l (tree s2)" "get_link l (tree s2) = Some lk" using path s2 by simp_all
    have key: "strndup key PATH_MAX = key" and ne: "meta_fn e key \<noteq> data_fn e key"
      using ok by (simp_all add: file_ok_def strndup_def)
    let ?c = "next_cache s2" and ?s = "s2\<lparr>next_cache := Suc (next_cache s2)\<rparr>"
    let ?cf = "(Cache_alloc (e_cfg e))\<lparr>cpath := key, clink := Some l\<rparr>"
    obtain good cf1 where chk: "open_checks e flt key lk (files s2) ?cf = (good, cf1)" by force
    have tf: "try_files e flt (join ns) key l lk s2 = Some (r, s')"
      using run rn True path2(3) by (simp add: open_attempt_eq)
    show ?thesis
    proof (cases good)
      case True
      with tf chk obtain h where "r = Some (Some ?c)" "s' = put_cache ?c cf1 (?s\<lparr>tree := h\<rparr>)"
        by (auto simp: try_files_def Let_def key split: option.splits)
      with s2 chk True show ?thesis by (auto simp: checked_def)
    next
      case False
      let ?s3 = "?s\<lparr>caches := (caches s2)(?c := None)\<rparr>"
      from False tf chk have r: "r = None"
        and d: "Cache_delete e (flt S_undo_meta) (flt S_undo_data) (join ns) ?s3 = Some s'"
        by (auto simp: try_files_def Let_def key)
      have "Cache_delete e (flt S_undo_meta) (flt S_undo_data) (join ns) ?s3 =
          Some (unlink_pair (e_dirs e) (flt S_undo_meta) (flt S_undo_data) key ?s3)"
        using path2 by (intro delete_held [OF _ _ _ ok]) simp_all
      with d have s': "s' = unlink_pair (e_dirs e) (flt S_undo_meta) (flt S_undo_data) key ?s3" by simp
      have "disk_true R lk1 (meta_fn e key) (data_fn e key) (files s')"
        unfolding s' by (rule unlink_pair_true) (use s2 in simp)
      with r s' s2 show ?thesis by (simp add: unlink_pair_def)
    qed
  qed
qed

lemma attempts_true:
  assumes ok: "file_ok e key lk"
  shows "open_attempts e flt (join ns) key l n s = Some (r, s') \<Longrightarrow>
    resolved ns l (tree s) \<Longrightarrow> held l (tree s) \<Longrightarrow> get_link l (tree s) = Some lk \<Longrightarrow>
    disk_true R lk1 (meta_fn e key) (data_fn e key) (files s) \<Longrightarrow>
    disk_true R lk1 (meta_fn e key) (data_fn e key) (files s') \<and> (\<forall>c. r = Some c \<longrightarrow> checked e key l lk c s')"
proof (induction n arbitrary: s)
  case 0
  then have "drop_link e l s = Some s'" "r = None" by auto
  from drop_files [OF this(1)] this(2) 0(5) show ?case by simp
next
  case (Suc n)
  obtain r1 s1 where r1: "open_attempt e (flt n) (join ns) key l s = Some (r1, s1)"
    using Suc.prems(1) by (auto split: option.splits)
  note a = attempt_true [OF r1 Suc.prems(2-4) ok Suc.prems(5)]
  show ?case
  proof (cases r1)
    case None
    with a have "tree s1 = tree s" by simp
    moreover have "open_attempts e flt (join ns) key l n s1 = Some (r, s')" using Suc.prems(1) r1 None by simp
    ultimately show ?thesis using Suc.IH [of s1] Suc.prems a by simp
  next
    case (Some r2)
    then have "r = r2" "s' = s1" using Suc.prems(1) r1 by auto
    with a Some show ?thesis by simp
  qed
qed

lemma Cache_open_true:
  assumes run: "Cache_open e flt (join ns) s = Some (r, s')" and inv: "open_inv g u s"
    and path: "resolved ns l (tree s)" "get_link l (tree s) = Some lk" "cache_ptr lk = None" and ok: "file_ok e key lk"
    and t: "disk_true R lk1 (meta_fn e key) (data_fn e key) (files s)"
  shows "disk_true R lk1 (meta_fn e key) (data_fn e key) (files s') \<and> (\<forall>c. r = Some c \<longrightarrow> checked e key l lk c s')"
proof -
  obtain tb where tb: "tables (tree s) (fst l) = Some tb" using path(2) by (auto simp: get_link_def split: option.splits)
  let ?s = "s\<lparr>tree := put (fst l) (tb\<lparr>refcount := refcount tb + 1\<rparr>) (tree s)\<rparr>"
  have "0 \<le> refcount tb" using open_invD(1) [OF inv] tb by (simp add: tree_inv_def counts_ok_def)
  then have held: "held l (tree ?s)" by (simp add: held_def)
  have l1: "get_link l (tree ?s) = Some lk" using path(2) get_link_refcount [OF tb] by simp
  have "open_attempts e flt (join ns) key l 2 ?s = Some (r, s')"
    using run find_resolved [OF path(1) tb] l1 path(3) ok by (simp add: Cache_open_def open_name_def file_ok_def)
  from attempts_true [OF ok this _ held l1] resolved_pinned [OF path(1) tb] t show ?thesis by simp
qed

section \<open>Closing\<close>

lemma overwrite_head:
  assumes "length xs = length ys"
  shows "overwrite 0 0 (take k (h @ xs)) (h @ ys @ rest) = h @ (take (k - length h) xs @ drop (k - length h) ys) @ rest"
proof -
  have "length (take k (h @ xs)) \<le> length (h @ ys)" using assms by simp
  then have "overwrite 0 0 (take k (h @ xs)) ((h @ ys) @ rest) =
      (take k (h @ xs) @ drop (length (take k (h @ xs))) (h @ ys)) @ rest"
    unfolding overwrite_0 drop_append by simp
  then show ?thesis unfolding take_drop_same_head [OF assms] by simp
qed

text \<open>The bytes after a write of the metadata that stopped after \<open>k\<close> bytes, over older ones.\<close>

lemma stored_mix:
  assumes old: "stored lk old bs" and cf: "blksz cf = blksz old" "segbc cf = segbc old" "length (seg cf) = nat (segbc cf)"
  shows "stored lk (cf\<lparr>seg := take (k - 28) (seg cf) @ drop (k - 28) (seg old)\<rparr>)
    (overwrite 0 0 (take k (meta_bytes lk cf)) bs)"
proof -
  obtain rest where bs: "bs = meta_bytes lk old @ rest" and ok: "meta_ok lk old"
    using old by (auto simp: stored_def)
  note b = meta_ok_bounds [OF ok]
  let ?h = "enc_int 8 (link_time lk) @ enc_int 8 (to_off (content_length lk)) @ enc_int 4 (blksz cf) @ enc_int 8 (segbc cf)"
  let ?mix = "take (k - 28) (seg cf) @ drop (k - 28) (seg old)"
  have same: "length (seg cf) = length (seg old)" using b cf by simp
  have h: "length ?h = 28" by simp
  have e: "meta_bytes lk cf = ?h @ seg cf" "meta_bytes lk old = ?h @ seg old"
    using meta_bytes_eq [OF cf(3)] meta_bytes_eq [OF b(5)] cf by simp_all
  have l: "length ?mix = nat (segbc cf)" using same cf(3) by simp
  have "meta_bytes lk (cf\<lparr>seg := ?mix\<rparr>) = ?h @ ?mix"
    using meta_bytes_eq [of "cf\<lparr>seg := ?mix\<rparr>"] l by simp
  moreover have "overwrite 0 0 (take k (meta_bytes lk cf)) bs = ?h @ ?mix @ rest"
    unfolding bs e append_assoc using overwrite_head [OF same, of k ?h rest] h by simp
  moreover have "meta_ok lk (cf\<lparr>seg := ?mix\<rparr>)" using ok l cf by (simp add: meta_ok_def)
  ultimately show ?thesis by (auto simp: stored_def)
qed

lemma Seg_exist_mix:
  assumes "blksz cf = blksz old" "segbc cf = segbc old" "length (seg cf) = nat (segbc cf)" "length (seg old) = nat (segbc cf)"
    and "Seg_exist (cf\<lparr>seg := take k (seg cf) @ drop k (seg old)\<rparr>) i \<noteq> 0"
  shows "Seg_exist cf i \<noteq> 0 \<or> Seg_exist old i \<noteq> 0"
proof -
  have "(take k (seg cf) @ drop k (seg old)) ! j = (if j < k then seg cf ! j else seg old ! j)"
    if "j < nat (segbc cf)" for j
    using that assms(3,4) by (auto simp: nth_append min_def)
  then show ?thesis using assms(1,2,5) by (auto simp: Seg_exist_def Let_def nat_less_iff split: if_splits)
qed

lemma close_true:
  assumes t: "disk_true R lk m d f" and old: "stored lk old (contents f m)" and ne: "m \<noteq> d"
    and cf: "blksz cf = blksz old" "segbc cf = segbc old" "length (seg cf) = nat (segbc cf)" "mfp cf = Some m"
    and right: "right_where_marked R cf (contents f d)"
  shows "disk_true R lk m d (snd (Meta_write (Some lk) flt f cf))"
  using Meta_write_frame [OF cf(4), of "Some lk" flt f]
proof
  assume "snd (Meta_write (Some lk) flt f cf) = f"
  with t show ?thesis by simp
next
  assume "\<exists>lk' k. Some lk = Some lk' \<and>
    snd (Meta_write (Some lk) flt f cf) = f(m \<mapsto> overwrite 0 0 (take k (meta_bytes lk' cf)) (contents f m))"
  then obtain k where k: "snd (Meta_write (Some lk) flt f cf) = f(m \<mapsto> overwrite 0 0 (take k (meta_bytes lk cf)) (contents f m))"
    by blast
  let ?c = "cf\<lparr>seg := take (k - 28) (seg cf) @ drop (k - 28) (seg old)\<rparr>"
  note st = stored_mix [OF old cf(1-3), of k]
  have lo: "length (seg old) = nat (segbc cf)"
    using old meta_ok_bounds(5) cf(2) by (auto simp: stored_def)
  have r0: "right_where_marked R old (contents f d)" using t old by (simp add: disk_true_def)
  have "right_where_marked R ?c (contents f d)"
    unfolding right_where_marked_def
  proof (intro allI impI)
    fix i
    assume i: "i < length R" "i < length (contents f d)" and e: "Seg_exist ?c (int i) \<noteq> 0"
    from Seg_exist_mix [OF cf(1-3) lo e] i r0 right show "contents f d ! i = R ! i"
      unfolding right_where_marked_def by blast
  qed
  moreover have "Seg_exist c i = Seg_exist ?c i" if "stored lk c (contents (snd (Meta_write (Some lk) flt f cf)) m)" for c i
    using stored_unique [OF st, of c] that k by (intro Seg_exist_view) simp_all
  ultimately show ?thesis using ne by (simp add: disk_true_def right_where_marked_def k)
qed

end
