(* ===== verification/CacheLife.thy ===== *)
theory CacheLife
  imports CacheDisk CacheDlData
begin

text \<open>
  The life of one cached file over several runs of the program (\<open>src/cache.c\<close>): its two files are
  created, opened, filled by the concurrent download, closed or left behind by a crash, deleted,
  and opened again, in any order and with any calls failing.  Whatever happened before, readers
  get the bytes of the remote file, and what was downloaded is not downloaded again.
\<close>

section \<open>What a step of the download changes\<close>

definition on_file :: "dl \<Rightarrow> fs \<times> Link \<times> Cache" where
  "on_file s = (fsys s, lnk s, (cache s)\<lparr>waiters := 0, bgt_sem := 0\<rparr>)"

lemma on_file_simps [simp]:
  "on_file (set_thread t th s) = on_file s" "on_file (goto_pc t p s) = on_file s"
  "on_file (lock_w t s) = on_file s" "on_file (unlock_w s) = on_file s"
  "on_file (waiter_add d s) = on_file s" "on_file (Cache_waiter_decrement s) = on_file s"
  "on_file (post_sem s) = on_file s" "on_file (set_sem n s) = on_file s"
  "on_file (spawn_worker o' s) = on_file s" "on_file (ActiveDownload_add o' s) = on_file s"
  "on_file (ad_ref a s) = on_file s" "on_file (ActiveDownload_unref a s) = on_file s"
  "on_file (ActiveDownload_remove o' s) = on_file s" "on_file (read_cached t flt s) = on_file s"
  "on_file (s\<lparr>ads := h\<rparr>) = on_file s" "on_file (s\<lparr>bad := c\<rparr>) = on_file s"
  "on_file (Link_download_finish_transfer t s) = on_file s" "on_file (drop_download o' s) = on_file s"
  "on_file (wait_check t a s) = on_file s"
  by (simp_all add: on_file_def goto_pc_def set_thread_def lock_w_def unlock_w_def waiter_add_def
      Cache_waiter_decrement_def post_sem_def set_sem_def spawn_worker_def ActiveDownload_add_def ad_ref_def
      ActiveDownload_unref_def ActiveDownload_remove_def read_cached_def drop_download_def wait_check_def
      Link_download_finish_transfer_def Let_def split: option.split prod.split)

definition stores :: "dl \<Rightarrow> dl \<Rightarrow> bool" where
  "stores s s' \<longleftrightarrow> on_file s' = on_file s \<or> (\<exists>flt buf n off. on_file s' = on_file (store_segment flt buf n off s))"

lemma storesI: "on_file s' = on_file s \<Longrightarrow> stores s s'" "on_file s' = on_file (store_segment flt buf n off s) \<Longrightarrow> stores s s'"
  by (auto simp: stores_def)

lemma on_file_step:
  assumes "step_thread t ev s = Some s'"
  shows "stores s s'"
proof -
  have 1: "stores s (st_retry t flt s)" "stores s (st_bgadd t s)" "stores s (st_launch t s)"
    "stores s (st_create t s)" "stores s (st_syncdl t s)" "stores s (st_relock t flt s)"
    "stores s (st_bgdl t n s)" "stores s (st_bgdl3 t n s)" "stores s (st_bglaunch t n s)"
    "stores s (st_bgcreate t n s)" "stores s (st_ret t n s)" "stores s (st_chunk t c s)"
    "stores s (st_fin t n s)" "stores s (st_bg_remove t o' s)" "stores s (st_bg_post t s)" for flt n c o'
    by (rule storesI(1); auto simp: st_retry_def st_bgadd_def st_launch_def st_create_def st_syncdl_def st_relock_def
        st_bgdl_def st_bgdl3_def st_bglaunch_def st_bgcreate_def st_ret_def st_chunk_def st_fin_def
        st_bg_remove_def st_bg_post_def Let_def split: option.split)+
  have 2: "stores s (st_trysem t s)" "stores s (st_bgdl2 t n s)" "stores s (st_attach t s)" "stores s (wait_check t a s)"
    "stores s (goto_pc t p s)" for n a p
    by (rule storesI(1); auto simp: st_trysem_def st_bgdl2_def st_attach_def Let_def split: prod.split option.split)+
  have 3: "stores s (st_sync_done t flt n s)" "stores s (st_bg_done t flt n o' s)" for flt n o'
    by (auto simp: st_sync_done_def st_bg_done_def Let_def intro: storesI)
  show ?thesis using assms
    by (auto simp: step_thread_def Let_def 1 2 3 split: if_splits event.splits pc.splits kind.splits)
qed

text \<open>
  The link, the files and the geometry of the cache stay, only its data file is written, and a
  segment that is marked stays marked.
\<close>

definition same_cache :: "Cache \<Rightarrow> Cache \<Rightarrow> bool" where
  "same_cache c c' \<longleftrightarrow> mfp c' = mfp c \<and> dfp c' = dfp c \<and> cpath c' = cpath c \<and> clink c' = clink c \<and>
     blksz c' = blksz c \<and> segbc c' = segbc c \<and> length (seg c') = length (seg c) \<and>
     cache_opened c' = cache_opened c \<and> num_bg_workers c' = num_bg_workers c"

definition keeps_file :: "dl \<Rightarrow> dl \<Rightarrow> bool" where
  "keeps_file s s' \<longleftrightarrow> lnk s' = lnk s \<and> same_cache (cache s) (cache s') \<and>
     (\<forall>p. dfp (cache s) \<noteq> Some p \<longrightarrow> fsys s' p = fsys s p) \<and>
     (\<forall>i. Seg_exist (cache s) i \<noteq> 0 \<longrightarrow> Seg_exist (cache s') i \<noteq> 0)"

lemma keeps_file_view: "on_file s' = on_file s2 \<Longrightarrow> keeps_file s s2 \<Longrightarrow> keeps_file s s'"
proof -
  assume "on_file s' = on_file s2" and k: "keeps_file s s2"
  then have e: "fsys s' = fsys s2" "lnk s' = lnk s2" and
    c: "(cache s')\<lparr>waiters := 0, bgt_sem := 0\<rparr> = (cache s2)\<lparr>waiters := 0, bgt_sem := 0\<rparr>" by (simp_all add: on_file_def)
  have "f ((cache s')\<lparr>waiters := 0, bgt_sem := 0\<rparr>) = f ((cache s2)\<lparr>waiters := 0, bgt_sem := 0\<rparr>)" for f :: "Cache \<Rightarrow> 'z"
    by (simp only: c)
  from this [of mfp] this [of dfp] this [of cpath] this [of clink] this [of blksz] this [of segbc] this [of seg]
    this [of cache_opened] this [of num_bg_workers]
  have "mfp (cache s') = mfp (cache s2)" "dfp (cache s') = dfp (cache s2)" "cpath (cache s') = cpath (cache s2)"
    "clink (cache s') = clink (cache s2)" "blksz (cache s') = blksz (cache s2)" "segbc (cache s') = segbc (cache s2)"
    "seg (cache s') = seg (cache s2)" "cache_opened (cache s') = cache_opened (cache s2)"
    "num_bg_workers (cache s') = num_bg_workers (cache s2)" by simp_all
  then show ?thesis using k e Seg_exist_view [of "cache s'" "cache s2"] by (simp add: keeps_file_def same_cache_def)
qed

lemma keeps_file_refl: "keeps_file s s"
  by (simp add: keeps_file_def same_cache_def)

lemma Data_write_frame: "Data_write flt f cf buf n off = (r, f') \<Longrightarrow> dfp cf \<noteq> Some p \<Longrightarrow> f' p = f p"
  by (auto simp: Data_write_def Let_def split: if_splits option.splits)

lemma keeps_file_store:
  assumes "seg_wf (cache s)"
  shows "keeps_file s (store_segment flt buf n off s)"
proof -
  obtain r f' where w: "Data_write flt (fsys s) (cache s) buf n off = (r, f')" by force
  have "same_cache (cache s) (Seg_set (cache s) off 1)" by (simp add: same_cache_def Seg_set_eq)
  moreover have "same_cache (cache s) (cache s)" by (simp add: same_cache_def)
  ultimately show ?thesis using w Data_write_frame [OF w] sm.mark_keeps [OF assms]
    by (simp add: keeps_file_def store_segment_def)
qed

lemma move_keeps:
  assumes "dl_move m s = Some s'" "seg_wf (cache s)"
  shows "keeps_file s s'"
proof (cases m)
  case (Read len off)
  then show ?thesis using assms(1) by (auto simp: dl_move_def start_read_def keeps_file_def same_cache_def)
next
  case (Step t ev)
  then have "step_thread t ev s = Some s'" using assms(1) by (simp add: dl_move_def)
  from on_file_step [OF this] show ?thesis unfolding stores_def
    using keeps_file_view [OF _ keeps_file_refl] keeps_file_view [OF _ keeps_file_store [OF assms(2)]] by blast
qed

section \<open>The states of the two files\<close>

text \<open>Nobody has the files open; or a cache is open on them, with readers and workers.\<close>

datatype life_state = Shut fs | Live dl

text \<open>Two links for the same version of a remote file.\<close>

definition same_file :: "Link \<Rightarrow> Link \<Rightarrow> bool" where
  "same_file lk lk1 \<longleftrightarrow> link_time lk1 = link_time lk \<and> content_length lk1 = content_length lk"

text \<open>Metadata that are missing, too short, or of another version of the file.\<close>

definition foreign :: "Link \<Rightarrow> byte list \<Rightarrow> bool" where
  "foreign lk bs \<longleftrightarrow> length bs < 28 \<or> dec_int 8 (slice 0 8 bs) \<noteq> link_time lk \<or>
     dec_int 8 (slice 8 8 bs) \<noteq> int (content_length lk)"

text \<open>A state of the program in which a path leads to a link of this file that is not open.\<close>

definition can_open :: "cache_env \<Rightarrow> cache_dirs \<Rightarrow> cstr \<Rightarrow> Link \<Rightarrow> cstate \<Rightarrow> cstr list \<Rightarrow> Link \<Rightarrow> bool" where
  "can_open e dirs key lk st ns lk1 \<longleftrightarrow> env_ok e \<and> e_dirs e = dirs \<and> (\<exists>g u. session e st g u) \<and>
     (\<exists>l. resolved ns l (tree st) \<and> get_link l (tree st) = Some lk1) \<and>
     same_file lk lk1 \<and> cache_ptr lk1 = None \<and> file_ok e key lk1"

definition life_start :: "cache_dirs \<Rightarrow> cstr \<Rightarrow> Link \<Rightarrow> life_state \<Rightarrow> bool" where
  "life_start dirs key lk x \<longleftrightarrow> (\<exists>f. x = Shut f \<and> foreign lk (contents f (path_append (META_DIR dirs) key)))"

text \<open>
  The file system changes elsewhere, or one of the two files is deleted (clearing the cache); the
  cache is opened, successfully or not; the download and its readers make a move; the last
  handle is closed, with the metadata written in full, in part or not at all; the program dies.
\<close>

inductive life_step :: "byte list \<Rightarrow> bool \<Rightarrow> cache_dirs \<Rightarrow> cstr \<Rightarrow> Link \<Rightarrow> life_state \<Rightarrow> life_state \<Rightarrow> bool"
  for R full dirs key lk where
  elsewhere: "f' (path_append (META_DIR dirs) key) = f (path_append (META_DIR dirs) key) \<Longrightarrow>
    f' (path_append (DATA_DIR dirs) key) = f (path_append (DATA_DIR dirs) key) \<Longrightarrow>
    life_step R full dirs key lk (Shut f) (Shut f')"
| cleared: "p \<in> {path_append (META_DIR dirs) key, path_append (DATA_DIR dirs) key} \<Longrightarrow>
    life_step R full dirs key lk (Shut f) (Shut (f(p := None)))"
| opened: "can_open e dirs key lk st ns lk1 \<Longrightarrow> files st = f \<Longrightarrow>
    Cache_open e flt (join ns) st = Some (Some c, st') \<Longrightarrow> caches st' c = Some cf \<Longrightarrow>
    life_step R full dirs key lk (Shut f) (Live (dl_init cf lk1 (files st')))"
| not_opened: "can_open e dirs key lk st ns lk1 \<Longrightarrow> files st = f \<Longrightarrow>
    Cache_open e flt (join ns) st = Some (None, st') \<Longrightarrow> life_step R full dirs key lk (Shut f) (Shut (files st'))"
| moves: "honest_move R full m s \<Longrightarrow> dl_move m s = Some s' \<Longrightarrow> life_step R full dirs key lk (Live s) (Live s')"
| meanwhile: "f' (path_append (META_DIR dirs) key) = fsys s (path_append (META_DIR dirs) key) \<Longrightarrow>
    f' (path_append (DATA_DIR dirs) key) = fsys s (path_append (DATA_DIR dirs) key) \<Longrightarrow>
    life_step R full dirs key lk (Live s) (Live (s\<lparr>fsys := f'\<rparr>))"
| closed: "caches st c = Some ((cache s)\<lparr>cache_opened := 1\<rparr>) \<Longrightarrow> files st = fsys s \<Longrightarrow>
    clink (cache s) = Some l \<Longrightarrow> get_link l (tree st) = Some lk1 \<Longrightarrow> same_file lk lk1 \<Longrightarrow>
    Cache_close e flt c st = Some st' \<Longrightarrow> life_step R full dirs key lk (Live s) (Shut (files st'))"
| crashed: "life_step R full dirs key lk (Live s) (Shut (fsys s))"

section \<open>The invariant\<close>

text \<open>An open cache has at least the marks that the metadata file on disk has.\<close>

definition backed :: "Link \<Rightarrow> cstr \<Rightarrow> cstr \<Rightarrow> dl \<Rightarrow> bool" where
  "backed lk m d s \<longleftrightarrow> m \<noteq> d \<and> mfp (cache s) = Some m \<and> dfp (cache s) = Some d \<and>
     (\<exists>old. stored lk old (contents (fsys s) m) \<and> blksz old = blksz (cache s) \<and> segbc old = segbc (cache s) \<and>
        (\<forall>i. Seg_exist old i \<noteq> 0 \<longrightarrow> Seg_exist (cache s) i \<noteq> 0))"

definition life_inv :: "byte list \<Rightarrow> bool \<Rightarrow> cache_dirs \<Rightarrow> cstr \<Rightarrow> Link \<Rightarrow> life_state \<Rightarrow> bool" where
  "life_inv R full dirs key lk x =
    (let m = path_append (META_DIR dirs) key; d = path_append (DATA_DIR dirs) key
     in content_length lk = length R \<longrightarrow>
       (case x of
          Shut f \<Rightarrow> disk_true R lk m d f
        | Live s \<Rightarrow> dinv R full s \<and> cinv s \<and> same_file lk (lnk s) \<and> backed lk m d s))"

lemma stored_same_file: "same_file lk lk1 \<Longrightarrow> stored lk1 c bs = stored lk c bs"
  by (simp add: same_file_def stored_def meta_ok_def meta_bytes_def)

lemma stored_length: "stored lk c bs \<Longrightarrow> 28 \<le> length bs"
  using meta_ok_bounds(5) length_meta_bytes by (auto simp: stored_def)

lemma foreign_true:
  assumes "foreign lk (contents f m)"
  shows "disk_true R lk m d f"
proof -
  have False if st: "stored lk c (contents f m)" for c
  proof -
    obtain rest where eq: "contents f m = meta_bytes lk c @ rest" and ok: "meta_ok lk c"
      using st by (auto simp: stored_def)
    note b = meta_ok_bounds [OF ok] and sl = meta_bytes_slices [OF meta_ok_bounds(5) [OF ok], of lk rest, folded eq]
    have "28 \<le> length (contents f m)" by (rule stored_length [OF st])
    moreover have "to_off (content_length lk) = int (content_length lk)" using b(7) by (simp add: cint_simps)
    then have "dec_int 8 (slice 8 8 (contents f m)) = int (content_length lk)"
      unfolding sl using b(7) by (simp add: dec_enc_int8)
    moreover have "dec_int 8 (slice 0 8 (contents f m)) = link_time lk"
      unfolding sl using ok by (simp add: meta_ok_def dec_enc_int8)
    ultimately show False using assms by (simp add: foreign_def)
  qed
  then show ?thesis by (auto simp: disk_true_def)
qed

lemma serves_right:
  "serves R cf lk f \<Longrightarrow> dfp cf = Some d \<Longrightarrow> right_where_marked R cf (contents f d)"
  by (auto simp: serves_def right_where_marked_def)

lemma backed_true:
  assumes "backed lk m d s" "serves R (cache s) (lnk s) (fsys s)"
  shows "disk_true R lk m d (fsys s)"
proof -
  obtain old where old: "stored lk old (contents (fsys s) m)" "\<forall>i. Seg_exist old i \<noteq> 0 \<longrightarrow> Seg_exist (cache s) i \<noteq> 0"
    and d: "dfp (cache s) = Some d" using assms(1) by (auto simp: backed_def)
  have "Seg_exist c i = Seg_exist old i" if "stored lk c (contents (fsys s) m)" for c i
    using stored_unique [OF old(1) that] by (intro Seg_exist_view) simp_all
  then show ?thesis using old(2) serves_right [OF assms(2) d] by (auto simp: disk_true_def right_where_marked_def)
qed

section \<open>Every step keeps it\<close>

lemma checks_steps:
  assumes "open_checks e flt key lk f cf0 = (True, cf)" "cpath cf0 = key"
  shows "\<exists>c1 c2 flt'. mfp c1 = Some (meta_fn e key) \<and> Meta_read (Some lk) flt' f c1 = (0, c2) \<and>
    cf = c2\<lparr>dfp := Some (data_fn e key)\<rparr> \<and> content_length lk \<le> length (contents f (data_fn e key))"
proof -
  obtain r1 c1 where 1: "Meta_open (e_dirs e) (flt S_meta_open) f cf0 = (r1, c1)" by force
  obtain r2 c2 where 2: "Meta_read (Some lk) (flt S_meta_read) f c1 = (r2, c2)" by force
  obtain r3 c3 where 3: "Data_open (e_dirs e) (flt S_data_open) f c2 = (r3, c3)" by force
  let ?sz = "Data_size (e_dirs e) (flt S_data_size) f key"
  have r: "r1 = 0" "r2 = 0" "r3 = 0" "cf = c3" "\<not> ?sz < 0" "content_length lk \<le> nat ?sz"
    using assms(1) 1 2 3 by (auto simp: open_checks_def Let_def split: if_splits)
  obtain a where a: "c1 = cf0\<lparr>mfp := a\<rparr>" "a = Some (meta_fn e key)" using Meta_open_frame [OF 1] r(1) assms(2) by auto
  obtain b n g where "c2 = c1\<lparr>blksz := b, segbc := n, seg := g\<rparr>" using Meta_read_frame [OF 2] by blast
  then have "cpath c2 = key" using a assms(2) by simp
  then have "c3 = c2\<lparr>dfp := Some (data_fn e key)\<rparr>" using Data_open_frame [OF 3] r(3) by auto
  with a 2 r Data_size_contents [OF r(5)] show ?thesis by (intro exI [of _ c1] exI [of _ c2]) auto
qed

lemma opened_serves:
  assumes chk: "checked e key l lk c s" and cf: "caches s c = Some cf"
    and t: "disk_true R lk (meta_fn e key) (data_fn e key) (files s)" and len: "content_length lk = length R"
    and ne: "meta_fn e key \<noteq> data_fn e key"
  shows "serves R cf lk (files s)" "fresh_cache cf" "backed lk (meta_fn e key) (data_fn e key) (dl_init cf lk (files s))"
proof -
  let ?m = "meta_fn e key" and ?d = "data_fn e key"
  let ?cf0 = "(Cache_alloc (e_cfg e))\<lparr>cpath := key, clink := Some l\<rparr>"
  obtain flt where chk: "open_checks e flt key lk (files s) ?cf0 = (True, cf)"
    using chk cf by (auto simp: checked_def)
  obtain c1 c2 flt' where c: "mfp c1 = Some ?m" "Meta_read (Some lk) flt' (files s) c1 = (0, c2)"
    "cf = c2\<lparr>dfp := Some ?d\<rparr>" "content_length lk \<le> length (contents (files s) ?d)"
    using checks_steps [OF chk] by auto
  have mfp2: "mfp c2 = Some ?m" using c(1) Meta_read_frame [OF c(2)] by auto
  note st = accepted_stored [OF c(2,1)]
  then have ok: "meta_ok lk c2" by (simp add: stored_def)
  note b = meta_ok_bounds [OF ok]
  have v: "Seg_exist cf i = Seg_exist c2 i" for i by (rule Seg_exist_view) (simp_all add: c(3))
  have "right_where_marked R c2 (contents (files s) ?d)" using t st by (simp add: disk_true_def)
  then show "serves R cf lk (files s)"
    using b c(4) len by (auto simp: serves_def c(3) seg_wf_def right_where_marked_def v [unfolded c(3)])
  have "bgt_sem (Cache_alloc (e_cfg e)) = num_bg_workers (Cache_alloc (e_cfg e))"
    by (simp add: Cache_alloc_def Let_def sem_init_def)
  then show "fresh_cache cf" using open_checks_frame [OF chk] by (simp add: fresh_cache_def)
  have "mfp cf = Some ?m" "dfp cf = Some ?d" "blksz cf = blksz c2" "segbc cf = segbc c2" by (simp_all add: c(3) mfp2)
  then show "backed lk ?m ?d (dl_init cf lk (files s))"
    using ne st v by (auto simp: backed_def dl_init_def)
qed

lemma backed_kept:
  assumes "backed lk m d s" "keeps_file s s'"
  shows "backed lk m d s'"
proof -
  obtain old where old: "stored lk old (contents (fsys s) m)" "blksz old = blksz (cache s)" "segbc old = segbc (cache s)"
    "\<forall>i. Seg_exist old i \<noteq> 0 \<longrightarrow> Seg_exist (cache s) i \<noteq> 0" and b: "m \<noteq> d" "mfp (cache s) = Some m" "dfp (cache s) = Some d"
    using assms(1) by (auto simp: backed_def)
  have "fsys s' m = fsys s m" using assms(2) b by (simp add: keeps_file_def)
  then have "stored lk old (contents (fsys s') m)" using old(1) by (simp add: contents_def)
  with old b assms(2) show ?thesis by (auto simp: backed_def keeps_file_def same_cache_def)
qed

lemma dinv_elsewhere:
  assumes "dinv R full s" "dfp (cache s) = Some d" "f' d = fsys s d"
  shows "dinv R full (s\<lparr>fsys := f'\<rparr>)"
proof -
  have e: "blk (s\<lparr>fsys := f'\<rparr>) = blk s" "contents f' d = contents (fsys s) d"
    using assms(3) by (simp_all add: blk_def contents_def)
  have "tgood R full (s\<lparr>fsys := f'\<rparr>) th" if "tgood R full s th" for th
    by (rule tgood_view [OF e(1) _ _ that]) (simp_all add: made_for_def)
  with assms(1,2) e(2) show ?thesis by (auto simp: dinv_def serves_def)
qed

lemma cinv_elsewhere: "cinv (s\<lparr>fsys := f'\<rparr>) = cinv s"
proof -
  have "blk (s\<lparr>fsys := f'\<rparr>) = blk s" "ad_off (s\<lparr>fsys := f'\<rparr>) = ad_off s"
    by (simp_all add: blk_def ad_off_def fun_eq_iff)
  moreover have "own_offset (s\<lparr>fsys := f'\<rparr>) th = own_offset s th" for th
    by (cases "kind th") (simp_all add: own_offset_def dl_offset_of_def blk_def)
  ultimately show ?thesis
    by (simp add: cinv_def ainv_def ginv_def heap_ok_def refs_ok_def owners_ok_def active_off_def
        tinv_def ts_ok_def tad_ok_def all_valid_def lock_ok_def)
qed

lemma closing_files:
  assumes "Cache_close e flt c st = Some st'" "caches st c = Some cf" "cache_opened cf = 1" "mfp cf = Some m"
    "clink cf = Some l" "get_link l (tree st) = Some lk1"
  shows "files st' = snd (Meta_write (Some lk1) flt (files st) (cf\<lparr>cache_opened := 0\<rparr>))"
  using assms by (auto simp: Cache_close_def Cache_free_def put_cache_def Let_def dest!: drop_files
      split: option.splits if_splits)

lemma life_step_inv:
  assumes step: "life_step R full dirs key lk x x'" and inv: "life_inv R full dirs key lk x"
  shows "life_inv R full dirs key lk x'"
proof (cases "content_length lk = length R")
  case False
  then show ?thesis by (simp add: life_inv_def Let_def)
next
  case len: True
  let ?m = "path_append (META_DIR dirs) key" and ?d = "path_append (DATA_DIR dirs) key"
  have shut: "life_inv R full dirs key lk (Shut f) = disk_true R lk ?m ?d f" for f
    by (simp add: life_inv_def Let_def len)
  have live: "life_inv R full dirs key lk (Live s) =
      (dinv R full s \<and> cinv s \<and> same_file lk (lnk s) \<and> backed lk ?m ?d s)" for s
    by (simp add: life_inv_def Let_def len)
  have same: "disk_true R lk1 ?m ?d f = disk_true R lk ?m ?d f" if "same_file lk lk1" for lk1 f
    using stored_same_file [OF that] by (simp add: disk_true_def)
  from step inv show ?thesis
  proof cases
    case (elsewhere f' f)
    then show ?thesis using inv shut disk_true_same by metis
  next
    case (cleared p f)
    then show ?thesis using inv shut unlink_true by metis
  next
    case (opened e st ns lk1 f flt c st' cf)
    then obtain l g u where o: "e_dirs e = dirs" "session e st g u" "env_ok e" "resolved ns l (tree st)"
      "get_link l (tree st) = Some lk1" "same_file lk lk1" "cache_ptr lk1 = None" "file_ok e key lk1"
      by (auto simp: can_open_def)
    have ne: "?m \<noteq> ?d" using o(1,8) by (simp add: file_ok_def)
    have "disk_true R lk1 (meta_fn e key) (data_fn e key) (files st)" using inv opened o(1) shut same [OF o(6)] by simp
    from Cache_open_true [OF opened(5) session_inv [OF o(3,2)] o(4,5,7,8) this]
    have t: "disk_true R lk1 (meta_fn e key) (data_fn e key) (files st')" "checked e key l lk1 c st'" by simp_all
    have len1: "content_length lk1 = length R" using o(6) len by (simp add: same_file_def)
    note sv = opened_serves [OF t(2) opened(6) t(1) len1 ne [folded o(1)]]
    have "backed lk ?m ?d (dl_init cf lk1 (files st'))"
      using sv(3) o(1) stored_same_file [OF o(6)] by (simp add: backed_def)
    moreover have "lnk (dl_init cf lk1 (files st')) = lk1" by (simp add: dl_init_def)
    ultimately show ?thesis
      using opened(2) dinv_from_init [OF honest_here sv(2,1), of full] cinv_init [OF sv(2)] o(6) by (simp add: live)
  next
    case (not_opened e st ns lk1 f flt st')
    then obtain l g u where o: "e_dirs e = dirs" "session e st g u" "env_ok e" "resolved ns l (tree st)"
      "get_link l (tree st) = Some lk1" "same_file lk lk1" "cache_ptr lk1 = None" "file_ok e key lk1"
      by (auto simp: can_open_def)
    have "disk_true R lk1 (meta_fn e key) (data_fn e key) (files st)" using inv not_opened o(1) shut same [OF o(6)] by simp
    from Cache_open_true [OF not_opened(5) session_inv [OF o(3,2)] o(4,5,7,8) this]
    show ?thesis using not_opened(2) o(1) shut same [OF o(6)] by simp
  next
    case (moves m s s')
    then have i: "dinv R full s" "cinv s" "same_file lk (lnk s)" "backed lk ?m ?d s" using inv live by simp_all
    have "seg_wf (cache s)" using i(1) by (simp add: dinv_def serves_def)
    note k = move_keeps [OF moves(4) this]
    have "dl_honest R full s s'" by (rule honest_next [OF honest_here moves(3,4)])
    note d = dinv_honest [OF this i(2,1)] cinv_reachable [OF honest_reachable [OF this] i(2)]
    show ?thesis using d backed_kept [OF i(4) k] i(3) k moves(2) by (simp add: live keeps_file_def)
  next
    case (meanwhile f' s)
    then have i: "dinv R full s" "cinv s" "same_file lk (lnk s)" "backed lk ?m ?d s" using inv live by simp_all
    have "dinv R full (s\<lparr>fsys := f'\<rparr>)"
      by (rule dinv_elsewhere [OF i(1), where d = ?d]) (use i(4) meanwhile in \<open>auto simp: backed_def\<close>)
    moreover have "contents f' ?m = contents (fsys s) ?m" using meanwhile by (simp add: contents_def)
    ultimately show ?thesis using i meanwhile(2) cinv_elsewhere by (simp add: live backed_def)
  next
    case (closed st c s l lk1 e flt st')
    then have i: "dinv R full s" "same_file lk (lnk s)" "backed lk ?m ?d s" using inv live by simp_all
    have sv: "serves R (cache s) (lnk s) (fsys s)" using i(1) by (simp add: dinv_def)
    obtain old where old: "stored lk old (contents (fsys s) ?m)" "blksz old = blksz (cache s)" "segbc old = segbc (cache s)"
      and b: "?m \<noteq> ?d" "mfp (cache s) = Some ?m" "dfp (cache s) = Some ?d" using i(3) by (auto simp: backed_def)
    let ?cf = "(cache s)\<lparr>cache_opened := 0\<rparr>"
    have f: "files st' = snd (Meta_write (Some lk1) flt (fsys s) ?cf)"
      using closing_files [OF closed(8) closed(3) _ _ _ closed(6), of ?m] b closed by simp
    have r: "right_where_marked R ?cf (contents (fsys s) ?d)"
      using serves_right [OF sv b(3)] by (simp add: right_where_marked_def Seg_exist_view [of ?cf "cache s"])
    have wf: "length (seg (cache s)) = nat (segbc (cache s))" using sv by (simp add: serves_def seg_wf_def)
    note same1 = same [OF closed(7)]
    have "disk_true R lk1 ?m ?d (snd (Meta_write (Some lk1) flt (fsys s) ?cf))"
    proof (rule close_true [OF _ _ b(1)])
      show "disk_true R lk1 ?m ?d (fsys s)" using backed_true [OF i(3) sv] same1 by simp
      show "stored lk1 old (contents (fsys s) ?m)" using old(1) stored_same_file [OF closed(7)] by simp
    qed (use old b wf r in simp_all)
    then show ?thesis using closed(2) f same1 by (simp add: shut)
  next
    case (crashed s)
    then have "serves R (cache s) (lnk s) (fsys s)" "backed lk ?m ?d s" using inv live by (simp_all add: dinv_def)
    then show ?thesis using crashed(2) backed_true by (simp add: shut)
  qed
qed

interpretation life: machine "life_start dirs key lk" "life_step R full dirs key lk" "life_inv R full dirs key lk"
  for R full dirs key lk
proof
  show "life_inv R full dirs key lk x" if "life_start dirs key lk x" for x
    using that foreign_true by (auto simp: life_start_def life_inv_def Let_def)
  show "life_inv R full dirs key lk x'" if "life_step R full dirs key lk x x'" "life_inv R full dirs key lk x" for x x'
    by (rule life_step_inv [OF that])
qed

section \<open>Opening what a close has left\<close>

lemma checks_kept:
  assumes st: "stored lk old (contents f (meta_fn e key))" and d: "content_length lk \<le> length (contents f (data_fn e key))"
    and cf0: "cpath cf0 = key"
  shows "open_checks e (\<lambda>_. no_faults) key lk f cf0 = (True, cf0\<lparr>mfp := Some (meta_fn e key),
    blksz := blksz old, segbc := segbc old, seg := seg old, dfp := Some (data_fn e key)\<rparr>)"
proof -
  obtain rest where eq: "contents f (meta_fn e key) = meta_bytes lk old @ rest" and ok: "meta_ok lk old"
    using st by (auto simp: stored_def)
  note b = meta_ok_bounds [OF ok]
  note sl = meta_bytes_slices [OF b(5), of lk rest, folded eq]
  have len: "28 + nat (segbc old) \<le> length (contents f (meta_fn e key))"
    unfolding eq using length_meta_bytes [OF b(5)] by simp
  let ?cf1 = "cf0\<lparr>mfp := Some (meta_fn e key)\<rparr>"
  let ?cf2 = "?cf1\<lparr>blksz := blksz old, segbc := segbc old, seg := seg old\<rparr>"
  have "f (meta_fn e key) \<noteq> None" using len by (cases "f (meta_fn e key)") (simp_all add: contents_def)
  then have 1: "Meta_open (e_dirs e) no_faults f cf0 = (0, ?cf1)" using cf0 by (simp add: Meta_open_def Let_def)
  have 2: "Meta_read (Some lk) no_faults f ?cf1 = (0, ?cf2)"
    using Meta_read_header [OF ok _ _ _ _ len sl(1-4), of no_faults ?cf1] sl(5) by simp
  obtain bs where bs: "f (data_fn e key) = Some bs" "content_length lk \<le> length bs"
    using d b(6) by (cases "f (data_fn e key)") (simp_all add: contents_def)
  then have 3: "Data_size (e_dirs e) no_faults f key = int (length bs)" by (simp add: Data_size_def)
  have 4: "Data_open (e_dirs e) no_faults f ?cf2 = (0, ?cf2\<lparr>dfp := Some (data_fn e key)\<rparr>)"
    using bs cf0 by (simp add: Data_open_def)
  show ?thesis using 1 2 3 4 bs by (simp add: open_checks_def Let_def)
qed

lemma Cache_open_kept:
  assumes inv: "open_inv g u s" and path: "resolved ns l (tree s)" "get_link l (tree s) = Some lk" "cache_ptr lk = None"
    and ok: "file_ok e key lk" and st: "stored lk old (contents (files s) (meta_fn e key))"
    and d: "content_length lk \<le> length (contents (files s) (data_fn e key))"
  shows "\<exists>c s' cf. Cache_open e (\<lambda>_ _. no_faults) (join ns) s = Some (Some c, s') \<and> caches s' c = Some cf \<and>
    files s' = files s \<and> blksz cf = blksz old \<and> segbc cf = segbc old \<and> seg cf = seg old"
proof -
  obtain tb where tb: "tables (tree s) (fst l) = Some tb" using path(2) by (auto simp: get_link_def split: option.splits)
  let ?s = "s\<lparr>tree := put (fst l) (tb\<lparr>refcount := refcount tb + 1\<rparr>) (tree s)\<rparr>"
  let ?cf0 = "(Cache_alloc (e_cfg e))\<lparr>cpath := key, clink := Some l\<rparr>"
  have l1: "get_link l (tree ?s) = Some lk" using path(2) get_link_refcount [OF tb] by simp
  have key: "strndup key PATH_MAX = key" using ok by (simp add: file_ok_def strndup_def)
  define cf where "cf = ?cf0\<lparr>mfp := Some (meta_fn e key), blksz := blksz old, segbc := segbc old, seg := seg old,
    dfp := Some (data_fn e key)\<rparr>"
  then have cf: "open_checks e (\<lambda>_. no_faults) key lk (files s) ?cf0 = (True, cf)"
    "blksz cf = blksz old" "segbc cf = segbc old" "seg cf = seg old" using checks_kept [OF st d, of ?cf0] by simp_all
  have "contents (files s) (meta_fn e key) \<noteq> []" "contents (files s) (data_fn e key) \<noteq> []"
    using stored_length [OF st] d ok by (auto simp: file_ok_def)
  then have "Cache_exist (e_dirs e) no_faults (files s) key = Some (0, files s)"
    by (auto simp: Cache_exist_def contents_def Let_def split: option.splits)
  then have rn: "renew e (\<lambda>_. no_faults) (join ns) key ?s = Some (0, ?s)" by (simp add: renew_def)
  obtain h where h: "set_cache_ptr l (Some (next_cache s)) (tree ?s) = Some h"
    by (rule set_cache_ptr_ok [OF l1]) blast
  have "open_attempts e (\<lambda>_ _. no_faults) (join ns) key l 2 ?s =
      Some (Some (next_cache s), put_cache (next_cache s) cf (?s\<lparr>next_cache := Suc (next_cache s), tree := h\<rparr>))"
    using rn l1 cf(1) h by (simp add: numeral_2_eq_2 open_attempt_eq try_files_def Let_def key)
  then have "Cache_open e (\<lambda>_ _. no_faults) (join ns) s =
      Some (Some (next_cache s), put_cache (next_cache s) cf (?s\<lparr>next_cache := Suc (next_cache s), tree := h\<rparr>))"
    using find_resolved [OF path(1) tb] l1 path(3) ok by (simp add: Cache_open_def open_name_def file_ok_def)
  with cf show ?thesis by (intro exI [of _ "next_cache s"] exI [of _ cf] exI) auto
qed

text \<open>Opening a file of which a half or nothing is there.\<close>

lemma Cache_open_created:
  assumes inv: "open_inv g u s" and path: "resolved ns l (tree s)" "get_link l (tree s) = Some lk" "cache_ptr lk = None"
    and ok: "file_ok e key lk" and none: "contents (files s) (data_fn e key) = []"
  shows "\<exists>c s' f. Cache_open e (\<lambda>_ _. no_faults) (join ns) s = Some (Some c, s') \<and> files s' = new_files e key l lk f \<and>
    get_link l (tree s') = Some (lk\<lparr>cache_ptr := Some c\<rparr>) \<and> caches s' c = Some ((Cache_alloc (e_cfg e))\<lparr>cpath := key, clink := Some l, mfp := Some (meta_fn e key),
      blksz := blksz (blank e key l lk), segbc := segbc (blank e key l lk), seg := seg (blank e key l lk),
      dfp := Some (data_fn e key)\<rparr>)"
proof -
  obtain tb where tb: "tables (tree s) (fst l) = Some tb" using path(2) by (auto simp: get_link_def split: option.splits)
  let ?s = "s\<lparr>tree := put (fst l) (tb\<lparr>refcount := refcount tb + 1\<rparr>) (tree s)\<rparr>"
  let ?cf0 = "(Cache_alloc (e_cfg e))\<lparr>cpath := key, clink := Some l\<rparr>"
  have l1: "get_link l (tree ?s) = Some lk" using path(2) get_link_refcount [OF tb] by simp
  have path1: "resolved ns l (tree ?s)" using resolved_pinned [OF path(1) tb] by simp
  have "0 \<le> refcount tb" using open_invD(1) [OF inv] tb by (simp add: tree_inv_def counts_ok_def)
  then have held: "held l (tree ?s)" by (simp add: held_def)
  have key: "strndup key PATH_MAX = key" and ne: "meta_fn e key \<noteq> data_fn e key"
    using ok by (simp_all add: file_ok_def strndup_def)
  obtain m f1 where x: "Cache_exist (e_dirs e) no_faults (files s) key = Some (m, f1)" using Cache_exist_works by blast
  have "m \<noteq> 0" using Cache_exist_pairs_parts(1) [OF x] ne none by simp
  let ?s1 = "unlink_pair (e_dirs e) no_faults no_faults key (?s\<lparr>files := f1\<rparr>)"
  have d: "Cache_delete e no_faults no_faults (join ns) (?s\<lparr>files := f1\<rparr>) = Some ?s1"
    using path1 held l1 by (intro delete_held [OF _ _ _ ok]) simp_all
  let ?s2 = "?s1\<lparr>next_cache := Suc (next_cache ?s1), files := new_files e key l lk (files ?s1)\<rparr>"
  have fresh: "(caches ?s1)(next_cache ?s1 := None) = caches ?s1" using new_address [OF inv] by (auto simp: unlink_pair_def)
  have "Cache_create e (\<lambda>_. no_faults) (join ns) ?s1 = Some (0, ?s2)"
    by (rule create_held [OF fresh _ _ _ ok gone_after_delete [OF ok]]) (use path1 held l1 in simp_all)
  with x \<open>m \<noteq> 0\<close> d have rn: "renew e (\<lambda>_. no_faults) (join ns) key ?s = Some (0, ?s2)" by (simp add: renew_def)
  let ?f = "new_files e key l lk (files ?s1)"
  define cf where "cf = ?cf0\<lparr>mfp := Some (meta_fn e key), blksz := blksz (blank e key l lk),
    segbc := segbc (blank e key l lk), seg := seg (blank e key l lk), dfp := Some (data_fn e key)\<rparr>"
  have st: "stored lk (blank e key l lk) (contents ?f (meta_fn e key))"
    using blank_ok [OF ok, where l = l and fp = "meta_fn e key"] ne by (simp add: stored_def new_files_def meta_ok_def)
  have dt: "content_length lk \<le> length (contents ?f (data_fn e key))" by (simp add: new_files_def)
  have chk: "open_checks e (\<lambda>_. no_faults) key lk ?f ?cf0 = (True, cf)"
    using checks_kept [OF st dt, of ?cf0] by (simp add: cf_def)
  have l2: "get_link l (tree ?s2) = Some lk" using l1 by simp
  obtain h where h: "set_cache_ptr l (Some (next_cache ?s2)) (tree ?s2) = Some h"
    "get_link l h = Some (lk\<lparr>cache_ptr := Some (next_cache ?s2)\<rparr>)"
    using set_cache_ptr_ok [OF l2, of "Some (next_cache ?s2)"] by metis
  let ?s3 = "put_cache (next_cache ?s2) cf (?s2\<lparr>next_cache := Suc (next_cache ?s2), tree := h\<rparr>)"
  have "open_attempts e (\<lambda>_ _. no_faults) (join ns) key l 2 ?s = Some (Some (next_cache ?s2), ?s3)"
    using rn l2 chk h(1) by (simp add: numeral_2_eq_2 open_attempt_eq try_files_def Let_def key)
  then have "Cache_open e (\<lambda>_ _. no_faults) (join ns) s = Some (Some (next_cache ?s2), ?s3)"
    using find_resolved [OF path(1) tb] l1 path(3) ok by (simp add: Cache_open_def open_name_def file_ok_def)
  moreover have "files ?s3 = ?f" "caches ?s3 (next_cache ?s2) = Some cf"
    "get_link l (tree ?s3) = Some (lk\<lparr>cache_ptr := Some (next_cache ?s2)\<rparr>)" using h(2) by simp_all
  ultimately show ?thesis unfolding cf_def by blast
qed

lemma live_inv:
  assumes "life_start dirs key lk x0" "(life_step R full dirs key lk)\<^sup>*\<^sup>* x0 (Live s)" "content_length lk = length R"
  shows "dinv R full s" "same_file lk (lnk s)" "backed lk (path_append (META_DIR dirs) key) (path_append (DATA_DIR dirs) key) s"
  using life.reachable_inv [OF assms(1,2)] assms(3) by (simp_all add: life_inv_def Let_def)

section \<open>Properties\<close>


text \<open>
  C12.  What was downloaded survives a restart.  When the last handle of a cache is closed and no
  call fails, any later opening of the same version of the file, in the same or in another run
  and with any configured block size, finds the two files good at its first look, changes
  neither, and gives a cache with exactly the same segments present; so nothing that is there
  is downloaded again.
\<close>

theorem downloads_survive_restart:
  assumes "life_start dirs key lk x0" "(life_step R full dirs key lk)\<^sup>*\<^sup>* x0 (Live s)" "content_length lk = length R"
    and close: "caches st c = Some ((cache s)\<lparr>cache_opened := 1\<rparr>)" "files st = fsys s" "clink (cache s) = Some l"
      "get_link l (tree st) = Some lk1" "same_file lk lk1" "Cache_close e no_faults c st = Some st1"
    and again: "can_open e2 dirs key lk st2 ns lk2" "files st2 = files st1"
  shows "\<exists>c' st3 cf. Cache_open e2 (\<lambda>_ _. no_faults) (join ns) st2 = Some (Some c', st3) \<and> caches st3 c' = Some cf \<and>
    files st3 = files st2 \<and> (\<forall>i. Seg_exist cf i = Seg_exist (cache s) i)"
proof -
  let ?m = "path_append (META_DIR dirs) key" and ?d = "path_append (DATA_DIR dirs) key"
  note i = live_inv [OF assms(1-3)]
  have sv: "serves R (cache s) (lnk s) (fsys s)" using i(1) by (simp add: dinv_def)
  obtain old where old: "stored lk old (contents (fsys s) ?m)" "blksz old = blksz (cache s)" "segbc old = segbc (cache s)"
    and b: "?m \<noteq> ?d" "mfp (cache s) = Some ?m" "dfp (cache s) = Some ?d" using i(3) by (auto simp: backed_def)
  let ?cf = "(cache s)\<lparr>cache_opened := 0\<rparr>"
  have wf: "length (seg ?cf) = nat (segbc ?cf)" using sv by (simp add: serves_def seg_wf_def)
  have ok: "meta_ok lk1 ?cf"
    using old wf close(5) by (simp add: stored_def meta_ok_def same_file_def) 
  have "files st1 = snd (Meta_write (Some lk1) no_faults (fsys s) ?cf)"
    using closing_files [OF close(6,1) _ _ _ close(4), of ?m] b close by simp
  then have f: "files st1 = (fsys s)(?m \<mapsto> overwrite 0 0 (meta_bytes lk1 ?cf) (contents (fsys s) ?m))"
    using Meta_write_ok [OF ok, of ?m no_faults] b(2) by simp
  obtain l2 g u where o: "e_dirs e2 = dirs" "session e2 st2 g u" "env_ok e2" "resolved ns l2 (tree st2)"
      "get_link l2 (tree st2) = Some lk2" "same_file lk lk2" "cache_ptr lk2 = None" "file_ok e2 key lk2"
    using again(1) by (auto simp: can_open_def)
  have "stored lk1 ?cf (contents (files st1) ?m)" using ok by (simp add: f stored_def overwrite_0)
  then have st: "stored lk2 ?cf (contents (files st2) (meta_fn e2 key))"
    using stored_same_file [OF close(5)] stored_same_file [OF o(6)] o(1) again(2) by simp
  have "contents (files st1) ?d = contents (fsys s) ?d" using b(1) by (simp add: f)
  then have "length R \<le> length (contents (files st2) (data_fn e2 key))" using sv b(3) o(1) again(2) by (simp add: serves_def)
  then have "content_length lk2 \<le> length (contents (files st2) (data_fn e2 key))" using o(6) assms(3) by (simp add: same_file_def)
  from Cache_open_kept [OF session_inv [OF o(3,2)] o(4,5,7,8) st this] obtain c' st3 cf where
    r: "Cache_open e2 (\<lambda>_ _. no_faults) (join ns) st2 = Some (Some c', st3)" "caches st3 c' = Some cf" "files st3 = files st2"
      "blksz cf = blksz ?cf" "segbc cf = segbc ?cf" "seg cf = seg ?cf" by blast
  then have "Seg_exist cf i = Seg_exist (cache s) i" for i by (intro Seg_exist_view) simp_all
  with r show ?thesis by blast
qed

section \<open>A life\<close>

text \<open>
  The opening of a file whose metadata are torn, a read of three bytes whose worker downloads the
  first segment and whose read-ahead downloads the second one, the close, and a new start.
\<close>

definition life_env :: cache_env where
  "life_env = demo_env\<lparr>e_cfg := (Config_init ''httpdirfs'' 15)\<lparr>data_blksz := 4\<rparr>\<rparr>"

definition life_link :: Link where
  "life_link = demo_file\<lparr>f_url := ''http://h/f''\<rparr>"

definition life_cf :: Cache where
  "life_cf = \<lparr>cache_opened = 1, dfp = Some ''d/f'', mfp = Some ''m/f'', cpath = ''f'', clink = Some (0, 1), blksz = 4,
     segbc = 2, seg = [0, 0], bgt_sem = 3, waiters = 0, shutting_down = False, num_bg_workers = 3\<rparr>"

definition life_live :: "byte list \<Rightarrow> dl" where
  "life_live m = dl_init life_cf life_link [''m/f'' \<mapsto> m, ''d/f'' \<mapsto> [0, 0, 0, 0, 0]]"

definition life_moves :: "move list" where
  "life_moves = (let go = Go no_faults in
     [Read 3 0, Step 0 go, Step 0 go, Step 0 go, Step 0 go, Step 0 go, Step 1 go,
      Step 1 (Chunk [1, 2, 3, 4]), Step 0 go, Step 1 (Complete 206 4), Step 1 go, Step 1 go, Step 1 go, Step 1 go,
      Step 0 go, Step 0 go, Step 0 go, Step 0 go, Step 0 go, Step 0 go,
      Step 2 go, Step 2 (Chunk [5]), Step 2 (Complete 206 1), Step 2 go, Step 2 go, Step 2 go, Step 2 go])"

abbreviation (input) life_dirs :: cache_dirs where
  "life_dirs \<equiv> \<lparr>META_DIR = ''m/'', DATA_DIR = ''d/''\<rparr>"

lemma life_alloc: "Cache_alloc (e_cfg life_env) = \<lparr>cache_opened = 1, dfp = None, mfp = None, cpath = [], clink = None,
    blksz = 0, segbc = 0, seg = [], bgt_sem = 3, waiters = 0, shutting_down = False, num_bg_workers = 3\<rparr>"
  by code_simp

lemma life_run:
  "case dl_run life_moves (life_live m) of
     None \<Rightarrow> False
   | Some s \<Rightarrow> length (threads s) = 3 \<and> kind (threads s ! 0) = Reader 0 3 \<and> pc (threads s ! 0) = Finished 3 \<and>
       cache s = life_cf\<lparr>seg := [1, 1]\<rparr>"
  by code_simp

lemma life_honest: "honest_run [1, 2, 3, 4, 5] True life_moves (life_live m)"
  by code_simp

lemma life_runs:
  "dl_run ms s = Some s' \<Longrightarrow> honest_run R full ms s \<Longrightarrow> (life_step R full dirs key lk)\<^sup>*\<^sup>* (Live s) (Live s')"
proof (induction ms arbitrary: s)
  case (Cons m ms)
  then obtain s1 where s1: "dl_move m s = Some s1" "dl_run ms s1 = Some s'" "honest_run R full ms s1" "honest_move R full m s"
    by (auto split: option.splits)
  from life_step.moves [OF s1(4,1)] Cons.IH [OF s1(2,3)] show ?case by (rule converse_rtranclp_into_rtranclp)
qed simp

lemma life_env_ok: "env_ok life_env"
  by (simp add: env_ok_def life_env_def demo_env_def load_clean_def Config_init_def)

lemma life_file_ok: "file_ok life_env ''f'' life_link"
  using demo_key by (simp add: file_ok_def life_env_def life_link_def demo_env_def Config_init_def demo_file_def demo_paths)

lemma life_session: "session life_env (demo_start\<lparr>files := f\<rparr>) (\<lambda>_. 0) (\<lambda>_. 0)"
proof -
  have "tree_reachable (\<lparr>tables = [0 \<mapsto> demo_root], root_tbl = Some 0, next_addr = 1\<rparr>, \<lambda>_. 0)"
    by (rule tree_reachable.init) (simp add: fresh_table_def demo_root_def demo_table_def demo_link_def demo_file_def)
  moreover have "demo_start\<lparr>files := f\<rparr> = \<lparr>tree = \<lparr>tables = [0 \<mapsto> demo_root], root_tbl = Some 0, next_addr = 1\<rparr>,
      files = f, caches = (\<lambda>_. None), next_cache = 0\<rparr>" by (simp add: demo_start_def)
  ultimately show ?thesis
    by (auto intro!: session.start simp: demo_root_def demo_link_def demo_file_def no_cache_def split: if_splits)
qed

lemma life_can_open: "can_open life_env life_dirs ''f'' life_link (demo_start\<lparr>files := f\<rparr>) [''f''] life_link"
proof -
  have "\<exists>g u. session life_env (demo_start\<lparr>files := f\<rparr>) g u" using life_session by blast
  moreover have "\<exists>l. resolved [''f''] l (tree (demo_start\<lparr>files := f\<rparr>)) \<and>
      get_link l (tree (demo_start\<lparr>files := f\<rparr>)) = Some life_link"
    using demo_resolved demo_file_link by (auto simp: life_link_def)
  moreover have "e_dirs life_env = life_dirs" by (simp add: life_env_def demo_env_def)
  moreover have "cache_ptr life_link = None" by (simp add: life_link_def demo_file_def)
  ultimately show ?thesis using life_env_ok life_file_ok by (simp add: can_open_def same_file_def)
qed

lemma life_opened:
  obtains c st' f where "Cache_open life_env (\<lambda>_ _. no_faults) ''/f'' demo_start = Some (Some c, st')"
    "files st' = new_files life_env ''f'' (0, 1) life_link f" "caches st' c = Some life_cf"
    "get_link (0, 1) (tree st') = Some (life_link\<lparr>cache_ptr := Some c\<rparr>)"
    "session life_env st' (\<lambda>_. 0) ((\<lambda>_. 0)(c := 1))" "room life_env 0 st'"
proof -
  have l: "resolved [''f''] (0, 1) (tree demo_start)" "get_link (0, 1) (tree demo_start) = Some life_link" "cache_ptr life_link = None"
    using demo_file_link demo_resolved by (simp_all add: life_link_def demo_file_def)
  have s: "session life_env demo_start (\<lambda>_. 0) (\<lambda>_. 0)" using life_session [of "files demo_start"] by simp
  note inv = session_inv [OF life_env_ok s]
  have room: "room life_env 14 demo_start" by (simp add: room_def life_env_def demo_env_def demo_start_def)
  have none: "contents (files demo_start) (data_fn life_env ''f'') = []"
    by (simp add: life_env_def demo_env_def demo_paths demo_start_def contents_def)
  have b: "blksz (blank life_env ''f'' (0, 1) life_link) = 4" "segbc (blank life_env ''f'' (0, 1) life_link) = 2"
    "seg (blank life_env ''f'' (0, 1) life_link) = [0, 0]"
    by (simp_all add: blank_def Let_def life_env_def life_link_def demo_file_def max_segbc_of_def cint_simps c_mod_nonneg
        numeral_2_eq_2)
  have p: "meta_fn life_env ''f'' = ''m/f''" "data_fn life_env ''f'' = ''d/f''"
    by (simp_all add: life_env_def demo_env_def demo_paths)
  from Cache_open_created [OF inv l life_file_ok none] obtain c st' f where o:
    "Cache_open life_env (\<lambda>_ _. no_faults) ''/f'' demo_start = Some (Some c, st')"
    "files st' = new_files life_env ''f'' (0, 1) life_link f"
    "get_link (0, 1) (tree st') = Some (life_link\<lparr>cache_ptr := Some c\<rparr>)" "caches st' c = Some life_cf"
    unfolding b p life_alloc by (auto simp: life_cf_def)
  have "session life_env st' (\<lambda>_. 0) ((\<lambda>_. 0)(c := (\<lambda>_. 0) c + 1))"
    by (rule session.opens [OF s _ o(1)]) (use room in simp)
  moreover have "grown 14 demo_start st'" using Cache_open_inv [OF inv life_env_ok _ o(1)] room by simp
  then have "room life_env 0 st'"
    by (rule room_grown) (simp add: room_def life_env_def demo_env_def demo_start_def)
  ultimately show thesis using that o by simp
qed

lemma life_reads:
  obtains s where
    "(life_step [1, 2, 3, 4, 5] True life_dirs ''f'' life_link)\<^sup>*\<^sup>*
       (Live (dl_init life_cf life_link (new_files life_env ''f'' (0, 1) life_link f))) (Live s)"
    "length (threads s) = 3" "kind (threads s ! 0) = Reader 0 3" "pc (threads s ! 0) = Finished 3"
    "cache s = life_cf\<lparr>seg := [1, 1]\<rparr>"
proof -
  let ?step = "life_step [1, 2, 3, 4, 5] True life_dirs ''f'' life_link"
  let ?m = "meta_bytes life_link (blank life_env ''f'' (0, 1) life_link)"
  let ?s0 = "dl_init life_cf life_link (new_files life_env ''f'' (0, 1) life_link f)"
  have p: "meta_fn life_env ''f'' = ''m/f''" "data_fn life_env ''f'' = ''d/f''"
    by (simp_all add: life_env_def demo_env_def demo_paths)
  have "content_length life_link = 5" by (simp add: life_link_def demo_file_def)
  then have d: "replicate (content_length life_link) 0 = [0, 0, 0, 0, 0 :: byte]" by (simp add: eval_nat_numeral)
  have "life_live ?m = ?s0\<lparr>fsys := [''m/f'' \<mapsto> ?m, ''d/f'' \<mapsto> [0, 0, 0, 0, 0]]\<rparr>"
    by (simp add: life_live_def dl_init_def)
  moreover have "?step (Live ?s0) (Live (?s0\<lparr>fsys := [''m/f'' \<mapsto> ?m, ''d/f'' \<mapsto> [0, 0, 0, 0, 0]]\<rparr>))"
    by (rule life_step.meanwhile) (simp_all add: demo_paths dl_init_def new_files_def p d)
  ultimately have 1: "?step (Live ?s0) (Live (life_live ?m))" by simp
  obtain s where s: "dl_run life_moves (life_live ?m) = Some s" "length (threads s) = 3"
    "kind (threads s ! 0) = Reader 0 3" "pc (threads s ! 0) = Finished 3" "cache s = life_cf\<lparr>seg := [1, 1]\<rparr>"
    using life_run [of ?m] by (auto split: option.splits)
  from that [OF converse_rtranclp_into_rtranclp [of ?step, OF 1 life_runs [OF s(1) life_honest]] s(2-5)] show thesis .
qed

lemma life_begins: "life_start life_dirs ''f'' life_link (Shut (files demo_start))"
  by (simp add: life_start_def foreign_def demo_start_def demo_paths contents_def)

lemma life_example:
  obtains s where "life_start life_dirs ''f'' life_link (Shut (files demo_start))"
    "(life_step [1, 2, 3, 4, 5] True life_dirs ''f'' life_link)\<^sup>*\<^sup>* (Shut (files demo_start)) (Live s)"
    "length (threads s) = 3" "kind (threads s ! 0) = Reader 0 3" "pc (threads s ! 0) = Finished 3"
    "cache s = life_cf\<lparr>seg := [1, 1]\<rparr>"
proof -
  let ?st = "demo_start\<lparr>files := files demo_start\<rparr>" and ?step = "life_step [1, 2, 3, 4, 5] True life_dirs ''f'' life_link"
  obtain c st' f where o: "Cache_open life_env (\<lambda>_ _. no_faults) ''/f'' demo_start = Some (Some c, st')"
    "files st' = new_files life_env ''f'' (0, 1) life_link f" "caches st' c = Some life_cf" by (rule life_opened)
  have "?step (Shut (files demo_start)) (Live (dl_init life_cf life_link (files st')))"
    by (rule life_step.opened [OF life_can_open [of "files demo_start"], where c = c and st' = st'])
      (use o in simp_all)
  then have 1: "?step (Shut (files demo_start)) (Live (dl_init life_cf life_link (new_files life_env ''f'' (0, 1) life_link f)))"
    by (simp add: o(2))
  obtain s where s: "?step\<^sup>*\<^sup>* (Live (dl_init life_cf life_link (new_files life_env ''f'' (0, 1) life_link f))) (Live s)"
    "length (threads s) = 3" "kind (threads s ! 0) = Reader 0 3" "pc (threads s ! 0) = Finished 3"
    "cache s = life_cf\<lparr>seg := [1, 1]\<rparr>"
    by (rule life_reads)
  from that [OF life_begins converse_rtranclp_into_rtranclp [of ?step, OF 1 s(1)] s(2-5)] show thesis .
qed


theorem downloads_survive_restart_witness:
  "\<exists>st c st' cf. Cache_open life_env (\<lambda>_ _. no_faults) ''/f'' st = Some (Some c, st') \<and> caches st' c = Some cf \<and>
    Seg_exist cf 0 = 1"
proof -
  obtain s where s: "life_start life_dirs ''f'' life_link (Shut (files demo_start))"
    "(life_step [1, 2, 3, 4, 5] True life_dirs ''f'' life_link)\<^sup>*\<^sup>* (Shut (files demo_start)) (Live s)"
    "cache s = life_cf\<lparr>seg := [1, 1]\<rparr>" by (rule life_example)
  obtain c st' f where o: "Cache_open life_env (\<lambda>_ _. no_faults) ''/f'' demo_start = Some (Some c, st')"
    "caches st' c = Some life_cf" "get_link (0, 1) (tree st') = Some (life_link\<lparr>cache_ptr := Some c\<rparr>)"
    "session life_env st' (\<lambda>_. 0) ((\<lambda>_. 0)(c := 1))" "room life_env 0 st'" by (rule life_opened)
  have len: "content_length life_link = length [1, 2, 3, 4, 5 :: byte]" by (simp add: life_link_def demo_file_def)
  let ?st = "put_cache c (cache s) (st'\<lparr>files := fsys s\<rparr>)"
  have ses: "session life_env ?st (\<lambda>_. 0) ((\<lambda>_. 0)(c := 1))"
    by (rule session.works [OF o(4,2)]) (simp_all add: s(3) life_cf_def)
  have "\<exists>st1. Cache_close life_env no_faults c ?st = Some st1"
  proof (rule Cache_close_works [OF session_inv [OF life_env_ok ses]])
    show "room life_env 0 ?st" using o(5) by (simp add: room_def)
    show "caches ?st c = Some (cache s)" by simp
  qed (simp_all add: s(3) life_cf_def quiet_def)
  then obtain st1 where st1: "Cache_close life_env no_faults c ?st = Some st1" by blast
  have "caches ?st c = Some ((cache s)\<lparr>cache_opened := 1\<rparr>)" "clink (cache s) = Some (0, 1)"
    by (simp_all add: s(3) life_cf_def)
  moreover have "files ?st = fsys s" "get_link (0, 1) (tree ?st) = Some (life_link\<lparr>cache_ptr := Some c\<rparr>)"
    "same_file life_link (life_link\<lparr>cache_ptr := Some c\<rparr>)" using o(3) by (simp_all add: same_file_def)
  moreover have "Seg_exist (cache s) 0 = 1" by (simp add: s(3) life_cf_def Seg_exist_def c_div_nonneg)
  moreover have "files (demo_start\<lparr>files := files st1\<rparr>) = files st1" by simp
  ultimately show ?thesis
    using downloads_survive_restart [OF s(1,2) len _ _ _ _ _ st1 life_can_open [of "files st1"]] by fastforce
qed

end
