(* ===== verification/LinkConc.thy ===== *)
theory LinkConc
  imports LinkTreeKeeps
begin

text \<open>
  \<open>src/link.c\<close> and \<open>src/fuse_local.c\<close>: lookups and directory handles of several threads at once.
  \<open>path_to_Link_recursive\<close> and \<open>path_to_LinkTable\<close> release \<open>link_lock\<close> while a directory is
  downloaded; here each thread is a task, and a step of a task is one critical section.  Between
  two of its steps any other task may run.
\<close>

section \<open>Critical sections\<close>

text \<open>
  What \<open>path_to_Link_recursive\<close> does before it gives the lock away: it finds a link, finds that
  there is none, or comes to an entry whose table is not loaded, with the rest of the path.  None
  is the use of a freed table.
\<close>

datatype walked = Hit linkptr | Miss | Load linkptr cstr

function walk_section :: "cstr \<Rightarrow> tblptr \<Rightarrow> lheap \<Rightarrow> walked option" where
  "walk_section path0 p h =
    (if path0 = [] then Some Miss
     else (let path = drop_trailing (skip_leading path0) in
       case tables h p of
         None \<Rightarrow> None
       | Some t \<Rightarrow>
         (case strchr path slash of
            None \<Rightarrow> Some (case lookup_entry path t of None \<Rightarrow> Miss | Some i \<Rightarrow> Hit (p, i))
          | Some s \<Rightarrow>
            (case lookup_entry (take s path) t of
               None \<Rightarrow> Some Miss
             | Some i \<Rightarrow>
               (case next_table (links t ! i) of
                  Some q \<Rightarrow> walk_section (drop (Suc s) path) q h
                | None \<Rightarrow> Some (Load (p, i) (drop (Suc s) path)))))))"
  by pat_completeness auto

termination
  by (relation "measure (\<lambda>(path0, p, h). length path0)") (simp_all add: drop_shorter)

declare walk_section.simps [simp del]

text \<open>Why a link is looked up: for itself (\<open>getattr\<close>, \<open>open\<close>) or by \<open>path_to_LinkTable\<close>.\<close>

datatype purpose = Use | Opendir

text \<open>
  Where a thread is between two critical sections, with the references it holds: nothing yet; a
  download of a directory on the way, whose table it has pinned; the link it asked for, pinned;
  \<open>path_to_LinkTable\<close> before its test and during its download; a call of \<open>LinkTable_unref\<close> with
  the table that is returned after it; an open directory (of the root or not); finished.
\<close>

datatype task =
    Lookup cstr purpose | OpenRoot
  | Loading linkptr cstr purpose
  | Holding linkptr | Checking linkptr | Fetching linkptr
  | Dropping tblptr "tblptr option"
  | Opened bool tblptr
  | Done

fun opt_list :: "'a option \<Rightarrow> 'a list" where
  "opt_list None = []"
| "opt_list (Some x) = [x]"

fun refs_of :: "task \<Rightarrow> tblptr list" where
  "refs_of (Loading l rest w) = [fst l]"
| "refs_of (Holding l) = [fst l]"
| "refs_of (Checking l) = [fst l]"
| "refs_of (Fetching l) = [fst l]"
| "refs_of (Dropping p r) = p # opt_list r"
| "refs_of (Opened b q) = [q]"
| "refs_of _ = []"

text \<open>The end of a walk: the link found is pinned for the caller, or the table for the download.\<close>

definition arrive :: "purpose \<Rightarrow> walked option \<Rightarrow> lheap \<Rightarrow> (task \<times> lheap) option" where
  "arrive w r h =
    (case r of
       None \<Rightarrow> None
     | Some Miss \<Rightarrow> Some (Done, h)
     | Some (Hit l) \<Rightarrow> map_option (\<lambda>h'. (case w of Use \<Rightarrow> Holding l | Opendir \<Rightarrow> Checking l, h')) (add_ref 1 (fst l) h)
     | Some (Load l rest) \<Rightarrow> map_option (\<lambda>h'. (Loading l rest w, h')) (add_ref 1 (fst l) h))"

text \<open>What the environment decides: to go on, or what a download has built.\<close>

datatype lookup_event = Proceed | Loaded "LinkTable option"

fun enabled :: "lookup_event \<Rightarrow> task \<Rightarrow> bool" where
  "enabled Proceed (Loading l rest w) = False"
| "enabled Proceed (Fetching l) = False"
| "enabled Proceed Done = False"
| "enabled Proceed _ = True"
| "enabled (Loaded nt) (Loading l rest w) = (case nt of None \<Rightarrow> True | Some t \<Rightarrow> fresh_table t \<and> no_cache t)"
| "enabled (Loaded nt) (Fetching l) = (case nt of None \<Rightarrow> True | Some t \<Rightarrow> fresh_table t \<and> no_cache t)"
| "enabled (Loaded nt) _ = False"

definition after_drop :: "tblptr option \<Rightarrow> task" where
  "after_drop r = (case r of Some q \<Rightarrow> Opened False q | None \<Rightarrow> Done)"

definition drop_step :: "nat \<Rightarrow> tblptr \<Rightarrow> tblptr option \<Rightarrow> lheap \<Rightarrow> (task \<times> lheap) option" where
  "drop_step n p r h =
    (case unref_step n p h of
       None \<Rightarrow> None
     | Some (h', parent) \<Rightarrow> Some (case parent of Some x \<Rightarrow> Dropping x r | None \<Rightarrow> after_drop r, h'))"

fun task_step :: "nat \<Rightarrow> lookup_event \<Rightarrow> task \<Rightarrow> lheap \<Rightarrow> (task \<times> lheap) option" where
  "task_step n Proceed (Lookup path w) h =
    (case root_tbl h of
       None \<Rightarrow> Some (Done, h)
     | Some r \<Rightarrow> arrive w (walk_section (strndup path PATH_MAX) r h) h)"
| "task_step n Proceed OpenRoot h =
    map_option (\<lambda>h'. (case root_tbl h of Some r \<Rightarrow> Opened True r | None \<Rightarrow> Done, h')) (LinkTable_ref (root_tbl h) h)"
| "task_step n (Loaded nt) (Loading l rest w) h =
    (case nt of
       None \<Rightarrow> Some (Dropping (fst l) None, h)
     | Some new_table \<Rightarrow>
         (case attach 0 l new_table h of
            None \<Rightarrow> None
          | Some (q, h2) \<Rightarrow>
              (case add_ref (-1) (fst l) h2 of
                 None \<Rightarrow> None
               | Some h3 \<Rightarrow> arrive w (walk_section rest q h3) h3)))"
| "task_step n Proceed (Holding l) h = Some (Dropping (fst l) None, h)"
| "task_step n Proceed (Checking l) h =
    (case get_link l h of
       None \<Rightarrow> None
     | Some link \<Rightarrow>
         (case next_table link of
            None \<Rightarrow> Some (Fetching l, h)
          | Some q \<Rightarrow> map_option (\<lambda>h'. (Dropping (fst l) (Some q), h')) (LinkTable_ref (Some q) h)))"
| "task_step n (Loaded nt) (Fetching l) h =
    (case nt of
       None \<Rightarrow> Some (Dropping (fst l) None, h)
     | Some new_table \<Rightarrow>
         (case attach 1 l new_table h of
            None \<Rightarrow> None
          | Some (q, h') \<Rightarrow> Some (Dropping (fst l) (Some q), h')))"
| "task_step n Proceed (Dropping p r) h = drop_step n p r h"
| "task_step n Proceed (Opened is_root q) h =
    (if is_root then Some (Dropping q None, h)
     else map_option (\<lambda>h'. (Dropping q None, h')) (LinkTable_mark_orphaned (Some q) h))"
| "task_step n _ _ h = None"

text \<open>All threads: calls of FUSE start, and tasks step in any order.\<close>

inductive conc_step :: "nat \<Rightarrow> lheap \<times> task list \<Rightarrow> lheap \<times> task list \<Rightarrow> bool" for n :: nat where
  call: "T = OpenRoot \<or> T = Lookup path w \<Longrightarrow> conc_step n (h, ts) (h, ts @ [T])"
| task: "i < length ts \<Longrightarrow> enabled ev (ts ! i) \<Longrightarrow> task_step n ev (ts ! i) h = Some (T, h') \<Longrightarrow>
    conc_step n (h, ts) (h', ts[i := T])"

inductive_cases conc_stepE: "conc_step n (h, ts) s'"

definition conc_start :: "lheap \<times> task list \<Rightarrow> bool" where
  "conc_start s \<longleftrightarrow> (\<exists>t. fresh_table t \<and> s = (\<lparr>tables = [0 \<mapsto> t], root_tbl = Some 0, next_addr = 1\<rparr>, []))"

definition held :: "task list \<Rightarrow> tblptr \<Rightarrow> nat" where
  "held ts p = sum_list (map (\<lambda>T. count_list (refs_of T) p) ts)"

section \<open>A critical section is a few steps of the tree\<close>

definition link_in :: "lheap \<Rightarrow> linkptr \<Rightarrow> bool" where
  "link_in h l \<longleftrightarrow> (\<exists>t. tables h (fst l) = Some t \<and> snd l < length (links t))"

text \<open>What a task relies on besides its references.\<close>

fun task_ok :: "lheap \<Rightarrow> task \<Rightarrow> bool" where
  "task_ok h (Loading l rest w) = link_in h l"
| "task_ok h (Holding l) = link_in h l"
| "task_ok h (Checking l) = link_in h l"
| "task_ok h (Fetching l) = link_in h l"
| "task_ok h (Dropping p r) = (r = None \<or> r \<noteq> root_tbl h)"
| "task_ok h (Opened b q) = (b \<longleftrightarrow> root_tbl h = Some q)"
| "task_ok h _ = True"

lemma keeps_live:
  assumes "keeps h h'" "tables h p = Some t" "tables h' p = Some t'" "addr_ok h"
  shows "length (links t') = length (links t)"
proof -
  have "p < next_addr h" using assms(2,4) by (auto simp: addr_ok_def)
  then have "same_data t t'" using assms(1-3) by (fastforce simp: keeps_def)
  then show ?thesis by (rule same_data_nth(1))
qed

lemma link_in_keeps:
  assumes "keeps h h'" "link_in h l" "tables h' (fst l) \<noteq> None" "addr_ok h"
  shows "link_in h' l"
  using assms keeps_live [OF assms(1) _ _ assms(4)] by (fastforce simp: link_in_def)

lemma task_ok_keeps:
  assumes "keeps h h'" "task_ok h T" "\<And>p. p \<in> set (refs_of T) \<Longrightarrow> tables h' p \<noteq> None" "addr_ok h"
  shows "task_ok h' T"
proof -
  have "root_tbl h' = root_tbl h" using assms(1) by (simp add: keeps_def)
  with assms link_in_keeps [OF assms(1) _ _ assms(4)] show ?thesis by (cases T) auto
qed

lemma visible_live: "tree_inv e h \<Longrightarrow> visible h p \<Longrightarrow> \<exists>t. tables h p = Some t"
  using tree_invD(2,3) [of e h] by (fastforce simp: visible_def root_ok_def down_ok_def)

lemma walk_section_ok:
  assumes "tree_inv e h"
  shows "visible h p \<Longrightarrow> \<exists>r. walk_section path0 p h = Some r \<and>
    (case r of Hit l \<Rightarrow> visible h (fst l) \<and> link_in h l | Load l rest \<Rightarrow> visible h (fst l) \<and> link_in h l | Miss \<Rightarrow> True)"
proof (induction path0 arbitrary: p rule: length_induct)
  case (1 path0)
  obtain t where t: "tables h p = Some t" using visible_live [OF assms "1.prems"] by blast
  let ?path = "drop_trailing (skip_leading path0)"
  show ?case
  proof (cases "path0 = []")
    case True
    then show ?thesis by (simp add: walk_section.simps)
  next
    case ne: False
    show ?thesis
    proof (cases "strchr ?path slash")
      case None
      with ne t "1.prems" show ?thesis
        by (subst walk_section.simps) (auto simp: link_in_def Let_def split: option.split dest: lookup_entry_Some)
    next
      case (Some s)
      show ?thesis
      proof (cases "lookup_entry (take s ?path) t")
        case None
        with ne t Some show ?thesis by (subst walk_section.simps) (simp add: Let_def)
      next
        case i: (Some i)
        have len: "i < length (links t)" using lookup_entry_Some [OF i] by simp
        show ?thesis
        proof (cases "next_table (links t ! i)")
          case None
          with ne t Some i len "1.prems" show ?thesis
            by (subst walk_section.simps) (auto simp: link_in_def Let_def)
        next
          case q: (Some q)
          have "visible h q" using t len q by (auto simp: visible_def)
          moreover have "length (drop (Suc s) ?path) < length path0" using drop_shorter [OF ne, of s] by simp
          ultimately obtain r where "walk_section (drop (Suc s) ?path) q h = Some r"
            "case r of Hit l \<Rightarrow> visible h (fst l) \<and> link_in h l | Load l rest \<Rightarrow> visible h (fst l) \<and> link_in h l | Miss \<Rightarrow> True"
            using "1.IH" by blast
          with ne t Some i q show ?thesis
            by (subst walk_section.simps) (simp add: Let_def)
        qed
      qed
    qed
  qed
qed

definition with_refs :: "tblptr list \<Rightarrow> (tblptr \<Rightarrow> nat) \<Rightarrow> tblptr \<Rightarrow> nat" where
  "with_refs ps e p = count_list ps p + e p"

lemma with_refs_simps [simp]:
  "with_refs [] e = e" "with_refs (p # ps) e = (with_refs ps e)(p := with_refs ps e p + 1)"
  by (auto simp: with_refs_def fun_eq_iff)

lemma with_refs_pos: "p \<in> set ps \<Longrightarrow> 0 < with_refs ps e p"
  using count_list_0_iff [of ps p] by (simp add: with_refs_def)

lemma arrive_ok:
  assumes inv: "tree_inv e h" and p: "visible h p"
  shows "\<exists>T h'. arrive w (walk_section path0 p h) h = Some (T, h') \<and>
    tree_step\<^sup>*\<^sup>* (h, e) (h', with_refs (refs_of T) e) \<and> keeps h h' \<and> task_ok h' T"
proof -
  obtain r where r: "walk_section path0 p h = Some r"
    "case r of Hit l \<Rightarrow> visible h (fst l) \<and> link_in h l | Load l rest \<Rightarrow> visible h (fst l) \<and> link_in h l | Miss \<Rightarrow> True"
    using walk_section_ok [OF assms] by blast
  have pin: "\<exists>h'. add_ref 1 (fst l) h = Some h' \<and> tree_step\<^sup>*\<^sup>* (h, e) (h', e(fst l := e (fst l) + 1)) \<and>
      keeps h h' \<and> link_in h' l"
    if l: "visible h (fst l)" "link_in h l" for l
  proof -
    obtain t where t: "tables h (fst l) = Some t" "snd l < length (links t)" using l(2) by (auto simp: link_in_def)
    let ?h = "put (fst l) (t\<lparr>refcount := refcount t + 1\<rparr>) h"
    have a: "add_ref 1 (fst l) h = Some ?h" using t by (simp add: add_ref_Some)
    have "tree_step (h, e) (?h, e(fst l := e (fst l) + 1))" by (rule tree_step.pin [OF disjI1 [OF l(1)] a])
    with a add_ref_keeps [OF a] t show ?thesis by (auto simp: link_in_def)
  qed
  show ?thesis
  proof (cases r)
    case (Hit l)
    with r pin [of l] show ?thesis by (cases w) (auto simp: arrive_def)
  next
    case (Load l rest)
    with r pin [of l] show ?thesis by (auto simp: arrive_def)
  qed (use r in \<open>simp add: arrive_def\<close>)
qed

text \<open>Attaching a table and giving the pin back.\<close>

lemma attach_result:
  assumes "attach r l nt h = Some (q, h')" "tree_inv e h" "tree_inv e' h'"
  shows "next_table (the (get_link l h')) = Some q \<and> link_in h' l \<and> root_tbl h' \<noteq> Some q \<and> root_tbl h' = root_tbl h"
proof -
  obtain p i where l: "l = (p, i)" by force
  obtain t where t: "tables h p = Some t" "i < length (links t)"
    using assms(1) by (auto simp: attach_def l split: option.splits if_splits)
  obtain t' where t': "tables h' p = Some t'" "i < length (links t')" "next_table (links t' ! i) = Some q"
    "root_tbl h' = root_tbl h"
  proof (cases "next_table (links t ! i)")
    case None
    then have q: "q = next_addr h" using assms(1) t by (auto simp: attach_def l Let_def)
    have "p \<noteq> q" using tree_invD(4) [OF assms(2)] t(1) q by (auto simp: addr_ok_def)
    with None assms(1) t show thesis
      by (intro that [of "t\<lparr>links := (links t)[i := (links t ! i)\<lparr>next_table := Some q\<rparr>], refcount := refcount t + 1\<rparr>"])
        (auto simp: attach_def l Let_def)
  next
    case (Some q')
    obtain u where u: "tables h q' = Some u" "parent_tbl u = Some p"
      by (rule down_okD [OF tree_invD(2) [OF assms(2)] t(1,2) Some])
    show thesis
    proof (cases "p = q'")
      case True
      with u t Some assms(1)
      show ?thesis by (intro that [of "if r = 0 then t else t\<lparr>refcount := refcount t + r, orphaned := False\<rparr>"])
        (auto simp: attach_def l)
    next
      case False
      with u t Some assms(1) show ?thesis by (intro that) (auto simp: attach_def l)
    qed
  qed
  obtain u where "tables h' q = Some u" "parent_tbl u = Some p"
    by (rule down_okD [OF tree_invD(2) [OF assms(3)] t'(1-3)])
  then have "root_tbl h' \<noteq> Some q" using tree_invD(3) [OF assms(3)] by (auto simp: root_ok_def)
  with t' show ?thesis by (simp add: l link_in_def get_link_def)
qed

lemma next_not_root:
  assumes "tree_inv e h" "get_link l h = Some link" "next_table link = Some q"
  shows "root_tbl h \<noteq> Some q \<and> visible h q"
proof -
  obtain t where t: "tables h (fst l) = Some t" "snd l < length (links t)" "next_table (links t ! snd l) = Some q"
    using assms(2,3) by (auto simp: get_link_def split: option.splits if_splits)
  obtain u where "tables h q = Some u" "parent_tbl u = Some (fst l)" by (rule down_okD [OF tree_invD(2) [OF assms(1)] t])
  then show ?thesis using tree_invD(3) [OF assms(1)] t by (auto simp: root_ok_def visible_def)
qed

lemma after_drop_refs [simp]: "refs_of (after_drop r) = opt_list r"
  by (cases r) (simp_all add: after_drop_def)

lemma after_drop_ok: "r = None \<or> r \<noteq> root_tbl h \<Longrightarrow> task_ok h (after_drop r)"
  by (cases r) (auto simp: after_drop_def)

text \<open>Any step of a task that relies only on its own references.\<close>

definition fine :: "nat \<Rightarrow> (tblptr \<Rightarrow> nat) \<Rightarrow> lheap \<Rightarrow> task \<Rightarrow> (task \<times> lheap) option \<Rightarrow> bool" where
  "fine n e h T r \<longleftrightarrow> (\<exists>T' h'. r = Some (T', h') \<and>
     tree_step\<^sup>*\<^sup>* (h, with_refs (refs_of T) e) (h', with_refs (refs_of T') e) \<and> keeps h h' \<and> task_ok h' T')"

lemma fine_loaded:
  assumes inv: "tree_inv (with_refs [fst l] e) h" and nt: "fresh_table nt" "no_cache nt" and l: "link_in h l"
  shows "fine n e h (Loading l rest w) (task_step n (Loaded (Some nt)) (Loading l rest w) h)"
proof -
  let ?e1 = "e(fst l := e (fst l) + 1)"
  have inv1: "tree_inv ?e1 h" using inv by simp
  obtain t where t: "tables h (fst l) = Some t" "snd l < length (links t)" using l by (auto simp: link_in_def)
  from attach_ok [OF inv1 t, of 0 nt] obtain q h2 where h2: "attach 0 l nt h = Some (q, h2)" "tables h2 (fst l) \<noteq> None"
    by auto
  have "attach (int 0) (fst l, snd l) nt h = Some (q, h2)" using h2(1) by simp
  from tree_step.attach [of ?e1, OF _ nt(1) this] have s1: "tree_step (h, ?e1) (h2, ?e1)" by (simp add: fun_upd_idem)
  then have inv2: "tree_inv ?e1 h2" by (rule tree_step_inv [OF _ inv1])
  note att = attach_result [OF h2(1) inv1 inv2]
  obtain t2 where t2: "tables h2 (fst l) = Some t2" using h2(2) by blast
  let ?h3 = "put (fst l) (t2\<lparr>refcount := refcount t2 - 1\<rparr>) h2"
  have h3: "add_ref (-1) (fst l) h2 = Some ?h3" using t2 by (simp add: add_ref_Some)
  from tree_step.unpin [of ?e1, OF _ h3] have s2: "tree_step (h2, ?e1) (?h3, e)" by simp
  have inv3: "tree_inv e ?h3" by (rule tree_step_inv [OF s2 inv2])
  have "visible ?h3 q" using att t2 by (fastforce simp: visible_def link_in_def get_link_def)
  from arrive_ok [OF inv3 this] obtain T' h' where a: "arrive w (walk_section rest q ?h3) ?h3 = Some (T', h')"
    "tree_step\<^sup>*\<^sup>* (?h3, e) (h', with_refs (refs_of T') e)" "keeps ?h3 h'" "task_ok h' T'" by blast
  have "keeps h ?h3" using attach_keeps [OF h2(1) nt(2)] add_ref_keeps [OF h3] by (rule keeps_trans)
  moreover have "tree_step\<^sup>*\<^sup>* (h, ?e1) (h', with_refs (refs_of T') e)" using s1 s2 a(2) by (meson converse_rtranclp_into_rtranclp)
  ultimately show ?thesis using h2(1) h3 a keeps_trans by (fastforce simp: fine_def)
qed

lemma fine_fetched:
  assumes inv: "tree_inv (with_refs [fst l] e) h" and nt: "fresh_table nt" "no_cache nt" and l: "link_in h l"
  shows "fine n e h (Fetching l) (task_step n (Loaded (Some nt)) (Fetching l) h)"
proof -
  let ?e1 = "e(fst l := e (fst l) + 1)"
  have inv1: "tree_inv ?e1 h" using inv by simp
  obtain t where t: "tables h (fst l) = Some t" "snd l < length (links t)" using l by (auto simp: link_in_def)
  from attach_ok [OF inv1 t, of 1 nt] obtain q h2 where h2: "attach 1 l nt h = Some (q, h2)" by auto
  have "attach (int 1) (fst l, snd l) nt h = Some (q, h2)" using h2 by simp
  from tree_step.attach [of ?e1, OF _ nt(1) this] have s: "tree_step (h, ?e1) (h2, ?e1(q := ?e1 q + 1))" by simp
  note att = attach_result [OF h2 inv1 tree_step_inv [OF s inv1]]
  have "with_refs (refs_of (Dropping (fst l) (Some q))) e = ?e1(q := ?e1 q + 1)" by (auto simp: fun_eq_iff)
  with s att attach_keeps [OF h2 nt(2)] h2 show ?thesis by (auto simp: fine_def)
qed

lemma fine_drop:
  assumes inv: "tree_inv (with_refs (p # opt_list r) e) h" and r: "r = None \<or> r \<noteq> root_tbl h"
  shows "fine (Suc n) e h (Dropping p r) (drop_step (Suc n) p r h)"
proof -
  let ?e = "with_refs (p # opt_list r) e"
  have "0 < ?e p" by simp
  from unref_step_inv [OF inv this, of n] obtain h' parent where u: "unref_step (Suc n) p h = Some (h', parent)" by blast
  have "tree_step (h, ?e) (h', moved p parent ?e)" 
    by (rule tree_step.unref [where e = ?e and p = p and n = n, OF \<open>0 < ?e p\<close> u])
  moreover have "moved p parent ?e = with_refs (refs_of (case parent of Some x \<Rightarrow> Dropping x r | None \<Rightarrow> after_drop r)) e"
    by (cases parent) (auto simp: moved_def Let_def fun_eq_iff)
  moreover have "keeps h h'" by (rule unref_step_keeps [OF u])
  moreover have "root_tbl h' = root_tbl h" using calculation(3) by (simp add: keeps_def)
  then have "task_ok h' (case parent of Some x \<Rightarrow> Dropping x r | None \<Rightarrow> after_drop r)"
    using r after_drop_ok [of r h'] by (cases parent) auto
  ultimately show ?thesis using u by (auto simp: fine_def drop_step_def)
qed

lemma task_fine:
  assumes inv: "tree_inv (with_refs (refs_of T) e) h" and ok: "task_ok h T" and en: "enabled ev T"
  shows "fine (Suc n) e h T (task_step (Suc n) ev T h)"
proof (cases T)
  case (Lookup path w)
  then have T: "ev = Proceed" "tree_inv e h" using en inv by (cases ev; simp)+
  show ?thesis
  proof (cases "root_tbl h")
    case None
    with Lookup T show ?thesis by (simp add: fine_def)
  next
    case (Some r)
    then have "visible h r" by (simp add: visible_def)
    from arrive_ok [OF T(2) this, where w = w] Lookup T(1) Some show ?thesis by (auto simp: fine_def)
  qed
next
  case OpenRoot
  then have T: "ev = Proceed" "tree_inv e h" using en inv by (cases ev; simp)+
  show ?thesis
  proof (cases "root_tbl h")
    case None
    with OpenRoot T show ?thesis by (simp add: fine_def LinkTable_ref_def)
  next
    case (Some r)
    have vis: "visible h r" using Some by (simp add: visible_def)
    obtain h' where h': "LinkTable_ref (Some r) h = Some h'"
      using visible_live [OF T(2) vis] by (auto simp: LinkTable_ref_def)
    from tree_step.open_dir [OF vis h'] have "tree_step (h, e) (h', e(r := e r + 1))" .
    with LinkTable_ref_keeps [OF h'] h' Some OpenRoot T(1) show ?thesis by (auto simp: fine_def keeps_def)
  qed
next
  case (Loading l rest w)
  then obtain nt where ev: "ev = Loaded nt" using en by (cases ev) auto
  show ?thesis
  proof (cases nt)
    case None
    with Loading ev show ?thesis by (simp add: fine_def)
  next
    case (Some t)
    with Loading ev en ok inv show ?thesis by (simp del: task_step.simps) (rule fine_loaded, auto)
  qed
next
  case (Fetching l)
  then obtain nt where ev: "ev = Loaded nt" using en by (cases ev) auto
  show ?thesis
  proof (cases nt)
    case None
    with Fetching ev show ?thesis by (simp add: fine_def)
  next
    case (Some t)
    with Fetching ev en ok inv show ?thesis by (simp del: task_step.simps) (rule fine_fetched, auto)
  qed
next
  case (Holding l)
  then have "ev = Proceed" using en by (cases ev) auto
  with Holding show ?thesis by (simp add: fine_def)
next
  case (Checking l)
  then have ev: "ev = Proceed" using en by (cases ev) auto
  obtain link where link: "get_link l h = Some link" using ok Checking by (auto simp: link_in_def get_link_def)
  show ?thesis
  proof (cases "next_table link")
    case None
    have "link_in h l" using ok Checking by simp
    with Checking ev link None show ?thesis by (simp add: fine_def)
  next
    case (Some q)
    note q = next_not_root [OF inv link Some]
    obtain h' where h': "LinkTable_ref (Some q) h = Some h'"
      using visible_live [OF inv] q by (fastforce simp: LinkTable_ref_def)
    have "(with_refs [fst l] e)(q := with_refs [fst l] e q + 1) = with_refs [fst l, q] e" by (auto simp: fun_eq_iff)
    with tree_step.open_dir [OF conjunct2 [OF q] h', of "with_refs [fst l] e"]
    have "tree_step (h, with_refs [fst l] e) (h', with_refs [fst l, q] e)" by metis
    with LinkTable_ref_keeps [OF h'] q h' Checking ev link Some show ?thesis by (auto simp: fine_def keeps_def)
  qed
next
  case (Dropping p r)
  then have "ev = Proceed" using en by (cases ev) auto
  with Dropping ok inv fine_drop [of p r e h n] show ?thesis by simp
next
  case (Opened b q)
  then have ev: "ev = Proceed" using en by (cases ev) auto
  show ?thesis
  proof (cases b)
    case True
    with Opened ev show ?thesis by (simp add: fine_def)
  next
    case False
    obtain t where t: "tables h q = Some t" using held_live [OF inv, of q] Opened by auto
    let ?h = "put q (t\<lparr>orphaned := True\<rparr>) h"
    have m: "LinkTable_mark_orphaned (Some q) h = Some ?h" using t by (simp add: LinkTable_mark_orphaned_def)
    have "root_tbl h \<noteq> Some q" using ok False Opened by simp
    from tree_step.orphan [OF _ this m, of "with_refs [q] e"]
    have "tree_step (h, with_refs [q] e) (?h, with_refs [q] e)" by simp
    moreover have "keeps h ?h" using t by (intro keeps_put) (simp_all add: same_data_def)
    ultimately show ?thesis using Opened ev False m by (auto simp: fine_def)
  qed
next
  case Done
  with en show ?thesis by (cases ev) auto
qed

section \<open>The machine refines the tree\<close>

lemma held_simps [simp]: "held [] = (\<lambda>_. 0)" "held (ts @ [T]) = with_refs (refs_of T) (held ts)"
  by (auto simp: held_def with_refs_def fun_eq_iff)

lemma held_split: "i < length ts \<Longrightarrow> held ts = with_refs (refs_of (ts ! i)) (held (ts[i := Done]))"
proof -
  have *: "(\<Sum>T\<leftarrow>ts. f T) = f (ts ! i) + (\<Sum>T\<leftarrow>ts[i := U]. f T)" if "i < length ts" "f U = 0" for f :: "task \<Rightarrow> nat" and U
    using that
  proof (induction ts arbitrary: i)
    case (Cons T ts)
    then show ?case by (cases i) auto
  qed simp
  assume "i < length ts"
  then show ?thesis by (auto simp: held_def with_refs_def fun_eq_iff intro!: *)
qed

lemma held_ge: "T \<in> set ts \<Longrightarrow> count_list (refs_of T) p \<le> held ts p"
  by (auto simp: held_def in_set_conv_decomp)

definition conc_good :: "lheap \<times> task list \<Rightarrow> bool" where
  "conc_good s \<longleftrightarrow> (\<forall>T \<in> set (snd s). task_ok (fst s) T)"

definition conc_view :: "lheap \<times> task list \<Rightarrow> lheap \<times> (tblptr \<Rightarrow> nat)" where
  "conc_view s = (fst s, held (snd s))"

definition tree_start :: "lheap \<times> (tblptr \<Rightarrow> nat) \<Rightarrow> bool" where
  "tree_start s \<longleftrightarrow> (\<exists>t. fresh_table t \<and> s = (\<lparr>tables = [0 \<mapsto> t], root_tbl = Some 0, next_addr = 1\<rparr>, \<lambda>_. 0))"

interpretation tree: machine tree_start tree_step "\<lambda>s. tree_inv (snd s) (fst s)"
proof
  show "tree_inv (snd s) (fst s)" if "tree_start s" for s
    using that init_inv by (auto simp: tree_start_def)
  show "tree_inv (snd s') (fst s')" if "tree_step s s'" "tree_inv (snd s) (fst s)" for s s'
    using tree_step_inv [of "fst s" "snd s" "fst s'" "snd s'"] that by simp
qed

lemma conc_step_ok:
  assumes step: "conc_step (Suc n) (h, ts) (h', ts')" and good: "conc_good (h, ts)" and inv: "tree_inv (held ts) h"
  shows "tree_step\<^sup>*\<^sup>* (h, held ts) (h', held ts') \<and> conc_good (h', ts')"
  using step
proof (cases rule: conc_step.cases)
  case (call T path w)
  then have "refs_of T = []" "task_ok h T" by auto
  with call good show ?thesis by (simp add: conc_good_def)
next
  case (task i ev T)
  let ?e = "held (ts[i := Done])"
  note split = held_split [OF task(2)]
  have ok: "task_ok h (ts ! i)" using good task(2) by (simp add: conc_good_def)
  have "tree_inv (with_refs (refs_of (ts ! i)) ?e) h" using inv split by simp
  from task_fine [OF this ok task(3), of n] task(4) have
    s: "tree_step\<^sup>*\<^sup>* (h, held ts) (h', with_refs (refs_of T) ?e)" "keeps h h'" "task_ok h' T"
    by (auto simp: fine_def split)
  have e': "held ts' = with_refs (refs_of T) ?e" using held_split [of i ts'] task(1,2) by simp
  have inv': "tree_inv (held ts') h'" using tree.steps_inv [OF s(1)] inv e' by simp
  have "task_ok h' U" if "U \<in> set ts'" for U
  proof (cases "U = T")
    case False
    then have U: "U \<in> set ts" using that task(1) by (auto dest: set_update_subset_insert [THEN subsetD])
    have "tables h' p \<noteq> None" if "p \<in> set (refs_of U)" for p
    proof -
      have "0 < held ts' p" using held_ge [OF \<open>U \<in> set ts'\<close>, of p] that count_list_0_iff [of "refs_of U" p] by auto
      then show ?thesis using held_live [OF inv', of p] by auto
    qed
    then show ?thesis using task_ok_keeps [OF s(2), of U] good U tree_invD(4) [OF inv] by (auto simp: conc_good_def)
  qed (use s in simp)
  with s(1) e' show ?thesis by (simp add: conc_good_def)
qed

interpretation conc: refined_machine tree_start tree_step "\<lambda>s. tree_inv (snd s) (fst s)"
  conc_start "conc_step (Suc n)" conc_good conc_view for n
proof
  show "tree_start (conc_view c) \<and> conc_good c" if "conc_start c" for c
    using that by (auto simp: conc_start_def tree_start_def conc_view_def conc_good_def)
  show "tree_step\<^sup>*\<^sup>* (conc_view c) (conc_view c') \<and> conc_good c'"
    if "conc_step (Suc n) c c'" "conc_good c" "tree_inv (snd (conc_view c)) (fst (conc_view c))" for c c'
    using conc_step_ok [of n "fst c" "snd c" "fst c'" "snd c'"] that by (simp add: conc_view_def)
qed

section \<open>A thread alone\<close>

text \<open>One task that nobody interrupts; \<open>load\<close> is what its downloads give.\<close>

inductive solo :: "nat \<Rightarrow> (Link \<Rightarrow> LinkTable option) \<Rightarrow> task \<times> lheap \<Rightarrow> task \<times> lheap \<Rightarrow> bool" for n load where
  go: "enabled Proceed T \<Longrightarrow> task_step n Proceed T h = Some (T', h') \<Longrightarrow> solo n load (T, h) (T', h')"
| loaded: "T = Loading l rest w \<or> T = Fetching l \<Longrightarrow> get_link l h = Some link \<Longrightarrow>
    task_step n (Loaded (load link)) T h = Some (T', h') \<Longrightarrow> solo n load (T, h) (T', h')"

lemma free_more_fuel:
  "LinkTable_free n q h = Some h' \<Longrightarrow> n \<le> m \<Longrightarrow> LinkTable_free m q h = Some h'"
  "LinkTable_free_entries n ls h = Some h' \<Longrightarrow> n \<le> m \<Longrightarrow> LinkTable_free_entries m ls h = Some h'"
proof (induction n q h and n ls h arbitrary: m h' and m h' rule: LinkTable_free_LinkTable_free_entries.induct)
  case (3 n p h)
  then obtain m' where m: "m = Suc m'" "n \<le> m'" by (cases m) auto
  obtain t where t: "tables h p = Some t" using 3(2) by (cases "tables h p") simp_all
  obtain h1 where h1: "LinkTable_free_entries n (links t) h = Some h1" "h' = unput p h1"
    using 3(2) t by (cases "LinkTable_free_entries n (links t) h") simp_all
  from 3(1) [OF t h1(1) m(2)] t h1(2) m(1) show ?case by simp
next
  case (5 n l ls h)
  obtain h1 where h1: "LinkTable_free n (next_table l) h = Some h1" "LinkTable_free_entries n ls h1 = Some h'"
    using 5(3) by (cases "LinkTable_free n (next_table l) h") simp_all
  from 5(1) [OF h1(1) 5(4)] 5(2) [OF h1 5(4)] show ?case by simp
qed simp_all

lemma unref_more_fuel: "unref_step n p h = Some r \<Longrightarrow> n \<le> m \<Longrightarrow> unref_step m p h = Some r"
proof -
  assume u: "unref_step n p h = Some r" and m: "n \<le> m"
  obtain t where t: "tables h p = Some t" using u by (cases "tables h p") (simp_all add: unref_step_def)
  let ?h1 = "put p (t\<lparr>refcount := 0\<rparr>) h"
  show ?thesis
  proof (cases "refcount t = 1 \<and> orphaned t")
    case False
    with u t show ?thesis by (auto simp: unref_step_def Let_def)
  next
    case True
    obtain h2 where h2: "(case parent_link t of None \<Rightarrow> Some ?h1 | Some l \<Rightarrow> set_next l None ?h1) = Some h2"
      using u t True
      by (cases "case parent_link t of None \<Rightarrow> Some ?h1 | Some l \<Rightarrow> set_next l None ?h1") (simp_all add: unref_step_def Let_def)
    obtain h3 where h3: "LinkTable_free n (Some p) h2 = Some h3"
      using u t True h2 by (cases "LinkTable_free n (Some p) h2") (simp_all add: unref_step_def Let_def)
    with u t True h2 free_more_fuel(1) [OF h3 m] show ?thesis by (simp add: unref_step_def Let_def)
  qed
qed

lemma unref_solo:
  "LinkTable_unref fuel p h = Some h' \<Longrightarrow> fuel \<le> n \<Longrightarrow>
    (solo n load)\<^sup>*\<^sup>* (case p of Some x \<Rightarrow> Dropping x r | None \<Rightarrow> after_drop r, h) (after_drop r, h')"
proof (induction fuel p h arbitrary: h' rule: LinkTable_unref.induct)
  case (3 fuel p h)
  then obtain h1 parent where u: "unref_step (Suc fuel) p h = Some (h1, parent)" "LinkTable_unref fuel parent h1 = Some h'"
    by (auto split: option.splits)
  have "solo n load (Dropping p r, h) (case parent of Some x \<Rightarrow> Dropping x r | None \<Rightarrow> after_drop r, h1)"
    using unref_more_fuel [OF u(1), of n] 3(3) by (intro solo.go) (simp_all add: drop_step_def)
  with 3(1) [OF u(1) refl u(2)] 3(3) show ?case by (auto intro: converse_rtranclp_into_rtranclp)
qed simp_all

definition found :: "purpose \<Rightarrow> linkptr option \<Rightarrow> task" where
  "found w r = (case r of None \<Rightarrow> Done | Some l \<Rightarrow> (case w of Use \<Rightarrow> Holding l | Opendir \<Rightarrow> Checking l))"

definition pin_found :: "linkptr option \<Rightarrow> lheap \<Rightarrow> lheap option" where
  "pin_found r h = (case r of None \<Rightarrow> Some h | Some l \<Rightarrow> add_ref 1 (fst l) h)"

lemma recursive_solo:
  "path_to_Link_recursive md load fuel path0 (Some p) h = Some (r, h') \<Longrightarrow> md \<noteq> SINGLE \<Longrightarrow> fuel \<le> n \<Longrightarrow>
    pin_found r h' = Some h'' \<Longrightarrow>
    \<exists>T h1. arrive w (walk_section path0 p h) h = Some (T, h1) \<and> (solo n load)\<^sup>*\<^sup>* (T, h1) (found w r, h'')"
proof (induction path0 arbitrary: p h rule: length_induct)
  case (1 path0)
  let ?path = "drop_trailing (skip_leading path0)"
  note run = "1.prems"(1) [unfolded path_to_Link_recursive.simps [of md load fuel path0 "Some p" h] Let_def]
  show ?case
  proof (cases "path0 = []")
    case True
    with "1.prems" show ?thesis
      by (simp add: path_to_Link_recursive.simps walk_section.simps arrive_def found_def pin_found_def)
  next
    case ne: False
    with run obtain t where t: "tables h p = Some t"
      by (cases "tables h p") simp_all
    show ?thesis
    proof (cases "strchr ?path slash")
      case None
      with run ne t have "r = map_option (\<lambda>i. (p, i)) (lookup_entry ?path t)" "h' = h"
        by simp_all
      moreover have "walk_section path0 p h = Some (case lookup_entry ?path t of None \<Rightarrow> Miss | Some i \<Rightarrow> Hit (p, i))"
        using ne t None by (subst walk_section.simps) (simp add: Let_def)
      ultimately show ?thesis using "1.prems"(4)
        by (cases "lookup_entry ?path t") (auto simp: arrive_def found_def pin_found_def)
    next
      case (Some s)
      let ?rest = "drop (Suc s) ?path"
      have shorter: "length ?rest < length path0" using drop_shorter [OF ne, of s] by simp
      show ?thesis
      proof (cases "lookup_entry (take s ?path) t")
        case None
        with run ne t Some have "r = None" "h' = h"
          by simp_all
        moreover have "walk_section path0 p h = Some Miss"
          using ne t Some None by (subst walk_section.simps) (simp add: Let_def)
        ultimately show ?thesis using "1.prems"(4) by (simp add: arrive_def found_def pin_found_def)
      next
        case i: (Some i)
        have len: "i < length (links t)" using lookup_entry_Some [OF i] by simp
        show ?thesis
        proof (cases "next_table (links t ! i)")
          case q: (Some q)
          have "path_to_Link_recursive md load fuel ?rest (Some q) h = Some (r, h')"
            using run ne t Some i q by simp
          moreover have "walk_section path0 p h = walk_section ?rest q h"
            using ne t Some i q by (subst walk_section.simps) (simp add: Let_def)
          ultimately show ?thesis using "1.IH" [rule_format, OF shorter] "1.prems"(2-4) by simp
        next
          case None
          let ?h1 = "put p (t\<lparr>refcount := refcount t + 1\<rparr>) h"
          let ?T = "Loading (p, i) ?rest w"
          have h1: "add_ref 1 p h = Some ?h1" using t by (simp add: add_ref_Some)
          have walk: "walk_section path0 p h = Some (Load (p, i) ?rest)"
            using ne t Some i None by (subst walk_section.simps) (simp add: Let_def)
          then have arr: "arrive w (walk_section path0 p h) h = Some (?T, ?h1)" using h1 by (simp add: arrive_def)
          have link: "get_link (p, i) ?h1 = Some (links t ! i)" using len by (simp add: get_link_def)
          have "(solo n load)\<^sup>*\<^sup>* (?T, ?h1) (found w r, h'')"
          proof (cases "load (links t ! i)")
            case ld: None
            have un: "LinkTable_unref fuel (Some p) ?h1 = Some h'" "r = None"
              using run ne t Some i None ld h1 "1.prems"(2)
              by (cases "LinkTable_unref fuel (Some p) ?h1"; simp)+
            have "solo n load (?T, ?h1) (Dropping p None, ?h1)"
              by (rule solo.loaded [OF _ link]) (simp_all add: ld)
            moreover have "(solo n load)\<^sup>*\<^sup>* (Dropping p None, ?h1) (Done, h')"
              using unref_solo [OF un(1) "1.prems"(3), of load None] by (simp add: after_drop_def)
            ultimately show ?thesis using un(2) "1.prems"(4)
              by (auto simp: found_def pin_found_def intro: converse_rtranclp_into_rtranclp)
          next
            case ld: (Some nt)
            obtain q h2 where h2: "attach 0 (p, i) nt ?h1 = Some (q, h2)"
              using run ne t Some i None ld h1 "1.prems"(2)
              by (cases "attach 0 (p, i) nt ?h1") auto
            obtain h3 where h3: "add_ref (-1) p h2 = Some h3"
              using run ne t Some i None ld h1 h2 "1.prems"(2)
              by (cases "add_ref (-1) p h2") simp_all
            have "path_to_Link_recursive md load fuel ?rest (Some q) h3 = Some (r, h')"
              using run ne t Some i None ld h1 h2 h3 "1.prems"(2)
              by simp
            with "1.IH" [rule_format, OF shorter] "1.prems"(2-4) obtain T h4 where
              T: "arrive w (walk_section ?rest q h3) h3 = Some (T, h4)" "(solo n load)\<^sup>*\<^sup>* (T, h4) (found w r, h'')" by blast
            have "solo n load (?T, ?h1) (T, h4)"
              by (rule solo.loaded [OF _ link]) (simp_all add: ld h2 h3 T(1))
            from this T(2) show ?thesis by (rule converse_rtranclp_into_rtranclp)
          qed
          with arr show ?thesis by blast
        qed
      qed
    qed
  qed
qed

section \<open>Properties\<close>

text \<open>
  C3.  Threads that look up paths and open and close directories at the same time never touch a
  freed table.  Whatever the interleaving and whatever the downloads give, in every state each
  task that is not finished can make its next step; the table behind every reference that some
  task holds is alive, and each table counts exactly the references of the tasks and its loaded
  sub-tables.
\<close>

theorem concurrent_lookups_safe:
  assumes "conc_start s0" "(conc_step (Suc n))\<^sup>*\<^sup>* s0 (h, ts)"
  shows "(\<forall>T \<in> set ts. \<forall>ev. enabled ev T \<longrightarrow> task_step (Suc n) ev T h \<noteq> None) \<and>
    (\<forall>T \<in> set ts. \<forall>p \<in> set (refs_of T). tables h p \<noteq> None) \<and>
    (\<forall>p t. tables h p = Some t \<longrightarrow>
       refcount t = int (sum_list (map (\<lambda>T. count_list (refs_of T) p) ts) + card (children h p)))"
proof -
  note ok = conc.csteps_ok [OF assms, unfolded conc_view_def fst_conv snd_conv]
  then have inv: "tree_inv (held ts) h" and good: "conc_good (h, ts)" by simp_all
  have "task_step (Suc n) ev T h \<noteq> None" if T: "T \<in> set ts" and ev: "enabled ev T" for T ev
  proof -
    obtain i where i: "i < length ts" "ts ! i = T" using T by (auto simp: in_set_conv_nth)
    have "tree_inv (with_refs (refs_of T) (held (ts[i := Done]))) h" using inv held_split [OF i(1)] i(2) by simp
    moreover have "task_ok h T" using good T by (simp add: conc_good_def)
    ultimately show ?thesis using task_fine [of T "held (ts[i := Done])" h ev n] ev by (auto simp: fine_def)
  qed
  moreover have "tables h p \<noteq> None" if "T \<in> set ts" "p \<in> set (refs_of T)" for T p
  proof -
    have "0 < held ts p" using held_ge [OF that(1), of p] that(2) count_list_0_iff [of "refs_of T" p] by auto
    then show ?thesis using held_live [OF inv, of p] by auto
  qed
  moreover have "refcount t = int (held ts p + card (children h p))" if "tables h p = Some t" for p t
    using inv that by (simp add: tree_inv_def counts_ok_def)
  ultimately show ?thesis by (auto simp: held_def)
qed

text \<open>
  C13.  The atomic lookup is one of the schedules.  When nobody interrupts a thread, its critical
  sections and downloads compute exactly what \<open>path_to_Link\<close> does: the same heap and the same
  link, held by the caller.
\<close>

theorem path_to_Link_is_a_schedule:
  assumes "path_to_Link md load fuel path h = Some (r, h')" "md \<noteq> SINGLE" "fuel \<le> n" "root_tbl h = Some root"
  shows "(solo n load)\<^sup>*\<^sup>* (Lookup path Use, h) (case r of Some l \<Rightarrow> Holding l | None \<Rightarrow> Done, h')"
proof -
  obtain r1 h1 where rec: "path_to_Link_recursive md load fuel (strndup path PATH_MAX) (Some root) h = Some (r1, h1)"
    using assms(1,4) by (auto simp: path_to_Link_def split: option.splits)
  have r: "r1 = r" "pin_found r h1 = Some h'"
    using assms(1,4) rec by (auto simp: path_to_Link_def pin_found_def split: option.splits)
  from recursive_solo [OF rec assms(2,3) r(2) [folded r(1)], of Use] obtain T h2 where
    a: "arrive Use (walk_section (strndup path PATH_MAX) root h) h = Some (T, h2)"
    and s: "(solo n load)\<^sup>*\<^sup>* (T, h2) (found Use r, h')" using r(1) by auto
  have "solo n load (Lookup path Use, h) (T, h2)" by (rule solo.go) (simp_all add: assms(4) a)
  with s have "(solo n load)\<^sup>*\<^sup>* (Lookup path Use, h) (found Use r, h')" by (simp add: converse_rtranclp_into_rtranclp)
  then show ?thesis by (cases r) (simp_all add: found_def)
qed

section \<open>A scenario\<close>

text \<open>Two threads open the same directory; both find it missing and both download it.\<close>

definition race_root :: LinkTable where
  "race_root = demo_table\<lparr>links := [demo_link\<lparr>linkname := ''/''\<rparr>, demo_link]\<rparr>"

definition race_heap :: lheap where
  "race_heap = \<lparr>tables = [0 \<mapsto> race_root], root_tbl = Some 0, next_addr = 1\<rparr>"

fun run_tasks :: "nat \<Rightarrow> (nat \<times> lookup_event) list \<Rightarrow> lheap \<times> task list \<Rightarrow> (lheap \<times> task list) option" where
  "run_tasks n [] s = Some s"
| "run_tasks n ((i, ev) # evs) (h, ts) =
    (if i < length ts \<and> enabled ev (ts ! i) then
       (case task_step n ev (ts ! i) h of None \<Rightarrow> None | Some (T, h') \<Rightarrow> run_tasks n evs (h', ts[i := T]))
     else None)"

lemma run_tasks_steps: "run_tasks n evs s = Some s' \<Longrightarrow> (conc_step n)\<^sup>*\<^sup>* s s'"
proof (induction n evs s rule: run_tasks.induct)
  case (2 n i ev evs h ts)
  then obtain T h' where t: "i < length ts" "enabled ev (ts ! i)" "task_step n ev (ts ! i) h = Some (T, h')"
    "run_tasks n evs (h', ts[i := T]) = Some s'" by (auto split: if_splits option.splits)
  have "conc_step n (h, ts) (h', ts[i := T])" by (rule conc_step.task [OF t(1-3)])
  with 2(1) t show ?case by (auto intro: converse_rtranclp_into_rtranclp)
qed simp

definition race_events :: "(nat \<times> lookup_event) list" where
  "race_events = [(0, Proceed), (1, Proceed), (0, Proceed), (1, Proceed),
     (1, Loaded (Some demo_table)), (0, Loaded (Some demo_table)), (0, Proceed), (1, Proceed)]"

lemma race_run:
  "\<exists>h. run_tasks 1 race_events (race_heap, [Lookup ''/d'' Opendir, Lookup ''/d'' Opendir]) =
     Some (h, [Opened False 1, Opened False 1])"
proof -
  have "case run_tasks 1 race_events (race_heap, [Lookup ''/d'' Opendir, Lookup ''/d'' Opendir]) of
      Some (h, ts) \<Rightarrow> ts = [Opened False 1, Opened False 1] | None \<Rightarrow> False"
    by code_simp
  then show ?thesis by (auto split: option.splits)
qed

lemma race_reachable:
  obtains h where "(conc_step (Suc 0))\<^sup>*\<^sup>* (race_heap, []) (h, [Opened False 1, Opened False 1])"
proof -
  obtain h where "run_tasks 1 race_events (race_heap, [Lookup ''/d'' Opendir, Lookup ''/d'' Opendir]) =
      Some (h, [Opened False 1, Opened False 1])" using race_run by blast
  from run_tasks_steps [OF this] have
    "(conc_step (Suc 0))\<^sup>*\<^sup>* (race_heap, [Lookup ''/d'' Opendir, Lookup ''/d'' Opendir]) (h, [Opened False 1, Opened False 1])"
    by simp
  moreover have "conc_step (Suc 0) (race_heap, []) (race_heap, [] @ [Lookup ''/d'' Opendir])"
    by (rule conc_step.call [of _ "''/d''" Opendir]) simp
  moreover have "conc_step (Suc 0) (race_heap, [Lookup ''/d'' Opendir]) (race_heap, [Lookup ''/d'' Opendir] @ [Lookup ''/d'' Opendir])"
    by (rule conc_step.call [of _ "''/d''" Opendir]) simp
  ultimately show thesis by (intro that) (auto intro: converse_rtranclp_into_rtranclp)
qed

theorem concurrent_lookups_safe_witness:
  "\<exists>h t. tables h 1 = Some t \<and> refcount t = 2 + int (card (children h 1)) \<and>
     (conc_step (Suc 0))\<^sup>*\<^sup>* (race_heap, []) (h, [Opened False 1, Opened False 1])"
proof -
  obtain h where h: "(conc_step (Suc 0))\<^sup>*\<^sup>* (race_heap, []) (h, [Opened False 1, Opened False 1])" by (rule race_reachable)
  have "fresh_table race_root" by (simp add: fresh_table_def race_root_def demo_table_def demo_link_def)
  then have start: "conc_start (race_heap, [])" unfolding conc_start_def race_heap_def by blast
  note safe = concurrent_lookups_safe [OF start h]
  obtain t where t: "tables h 1 = Some t" using safe [THEN conjunct2, THEN conjunct1] by auto
  with safe have "refcount t = 2 + int (card (children h 1))" by simp
  with t h show ?thesis by blast
qed

theorem path_to_Link_is_a_schedule_witness:
  "\<exists>h. (solo 1 (\<lambda>_. None))\<^sup>*\<^sup>* (Lookup ''/d'' Use, race_heap) (Holding (0, 1), h)"
proof -
  have "case path_to_Link NORMAL (\<lambda>_. None) 1 ''/d'' race_heap of Some (r, h) \<Rightarrow> r = Some (0, 1) | None \<Rightarrow> False"
    by code_simp
  then obtain h where h: "path_to_Link NORMAL (\<lambda>_. None) 1 ''/d'' race_heap = Some (Some (0, 1), h)"
    by (auto split: option.splits)
  have "root_tbl race_heap = Some 0" by (simp add: race_heap_def)
  from path_to_Link_is_a_schedule [OF h _ _ this, of 1] show ?thesis by auto
qed

end
