(* ===== verification/Memory.thy ===== *)
theory Memory
  imports Locks
begin

text \<open>
  The allocation wrappers of \<open>src/util.c\<close> in a build with \<open>DEBUG\<close>, over a heap of blocks of
  bytes: what they return, what they record in the tracker of \<open>Util\<close>, and the leak report at
  the end.  Also the salt and the hash of \<open>src/util.c\<close>, whose bytes come from libuuid and OpenSSL.
\<close>

section \<open>Blocks\<close>

record memory =
  blocks :: "64 word \<Rightarrow> cstr option"
  tracker :: mem_table

text \<open>Where a wrapper was called: \<open>__FILE__\<close>, \<open>__func__\<close> and \<open>__LINE__\<close>.\<close>

type_synonym site = "cstr \<times> cstr \<times> int"

fun new_node :: "site \<Rightarrow> 64 word \<Rightarrow> nat \<Rightarrow> mem_node" where
  "new_node (fl, fn, ln) p n = \<lparr>mn_ptr = p, mn_size = n, mn_file = fl, mn_func = fn, mn_line = ln\<rparr>"

definition put_block :: "site \<Rightarrow> 64 word \<Rightarrow> cstr \<Rightarrow> memory \<Rightarrow> memory" where
  "put_block at p b m =
    (if p = 0 then m
     else m\<lparr>blocks := (blocks m)(p \<mapsto> b), tracker := mem_track (new_node at p (length b)) (tracker m)\<rparr>)"

text \<open>
  The C string that starts a block; None when there is no terminator within the block, so that
  reading it would run over its end.
\<close>

abbreviation (input) nul :: char where "nul \<equiv> CHR 0x00"

definition c_string :: "memory \<Rightarrow> 64 word \<Rightarrow> cstr option" where
  "c_string m q =
    (case blocks m q of
       None \<Rightarrow> None
     | Some b \<Rightarrow> if nul \<in> set b then Some (takeWhile (\<lambda>c. c \<noteq> nul) b) else None)"

text \<open>\<open>strnlen\<close> stops at \<open>n\<close>, so the terminator may be missing when the block is that long.\<close>

definition c_string_n :: "memory \<Rightarrow> 64 word \<Rightarrow> nat \<Rightarrow> cstr option" where
  "c_string_n m q n =
    (case blocks m q of
       None \<Rightarrow> None
     | Some b \<Rightarrow> if nul \<in> set (take n b) \<or> n \<le> length b then Some (takeWhile (\<lambda>c. c \<noteq> nul) (take n b)) else None)"

section \<open>The wrappers\<close>

text \<open>
  \<open>p\<close> is what the C library returned, 0 for NULL, and \<open>g\<close> what the new memory happens to hold.
  A block or a string that is not there makes the behaviour undefined.  The record of the tracker is
  allocated behind the tracker's back; when that fails the process exits, as it does for \<open>p = 0\<close>.
\<close>

definition malloc_wrapper_internal ::
    "site \<Rightarrow> 64 word \<Rightarrow> cstr \<Rightarrow> nat \<Rightarrow> memory \<Rightarrow> (64 word \<times> memory) outcome" where
  "malloc_wrapper_internal at p g sz m =
    (if sz \<noteq> 0 \<and> p = 0 then Exits else Returns (p, put_block at p g m))"

definition CALLOC_wrapper :: "site \<Rightarrow> 64 word \<Rightarrow> nat \<Rightarrow> nat \<Rightarrow> memory \<Rightarrow> (64 word \<times> memory) outcome" where
  "CALLOC_wrapper at p nmemb sz m =
    (if nmemb \<noteq> 0 \<and> sz \<noteq> 0 \<and> p = 0 then Exits
     else Returns (p, put_block at p (replicate (nmemb * sz) nul) m))"

definition STRDUP_wrapper :: "site \<Rightarrow> 64 word \<Rightarrow> 64 word \<Rightarrow> memory \<Rightarrow> (64 word \<times> memory) outcome" where
  "STRDUP_wrapper at p q m =
    (if q = 0 then Returns (0, m)
     else (case c_string m q of
             None \<Rightarrow> Undefined
           | Some s \<Rightarrow> malloc_wrapper_internal at p (s @ [nul]) (length s + 1) m))"

definition STRNDUP_wrapper :: "site \<Rightarrow> 64 word \<Rightarrow> 64 word \<Rightarrow> nat \<Rightarrow> memory \<Rightarrow> (64 word \<times> memory) outcome" where
  "STRNDUP_wrapper at p q n m =
    (if q = 0 then Returns (0, m)
     else (case c_string_n m q n of
             None \<Rightarrow> Undefined
           | Some s \<Rightarrow> malloc_wrapper_internal at p (s @ [nul]) (length s + 1) m))"

definition FREE_wrapper :: "64 word \<Rightarrow> memory \<Rightarrow> memory outcome" where
  "FREE_wrapper q m =
    (if q = 0 then Returns m
     else if blocks m q = None then Undefined
     else Returns (m\<lparr>blocks := (blocks m)(q := None), tracker := snd (mem_free q (tracker m))\<rparr>))"

definition REALLOC_wrapper ::
    "site \<Rightarrow> 64 word \<Rightarrow> cstr \<Rightarrow> 64 word \<Rightarrow> nat \<Rightarrow> memory \<Rightarrow> (64 word \<times> memory) outcome" where
  "REALLOC_wrapper at p g q sz m =
    (if q = 0 then malloc_wrapper_internal at p (take sz g) sz m
     else if sz = 0 then
       and_then (FREE_wrapper q m) (\<lambda>m'. Returns (0, m'))
     else (case blocks m q of
             None \<Rightarrow> Undefined
           | Some b \<Rightarrow>
               if p = 0 then Exits
               else Returns (p, m\<lparr>blocks := (blocks m)(q := None, p \<mapsto> take sz (b @ g)),
                      tracker := mem_realloc q (new_node at p sz) (tracker m)\<rparr>)))"

text \<open>\<open>REALPATH_wrapper\<close> with a NULL buffer; a buffer of the caller is not recorded.\<close>

definition REALPATH_wrapper :: "site \<Rightarrow> 64 word \<Rightarrow> cstr \<Rightarrow> memory \<Rightarrow> 64 word \<times> memory" where
  "REALPATH_wrapper at p resolved m = (p, put_block at p (resolved @ [nul]) m)"

text \<open>The report of \<open>mem_cleanup\<close>, and the heap after it has freed what was reported.\<close>

definition leak_report :: "memory \<Rightarrow> mem_node list" where
  "leak_report m = concat (map (tracker m) [0..<MEM_HASH_SIZE])"

definition free_leaks :: "memory \<Rightarrow> memory" where
  "free_leaks m = \<lparr>blocks = fold (\<lambda>n b. b(mn_ptr n := None)) (leak_report m) (blocks m),
     tracker = (\<lambda>_. [])\<rparr>"

section \<open>Runs\<close>

datatype mem_call = Malloc nat | Calloc nat nat | Strdup "64 word" | Strndup "64 word" nat
  | Realloc "64 word" nat | Realpath cstr | Free "64 word"

fun mem_step :: "site \<Rightarrow> 64 word \<Rightarrow> cstr \<Rightarrow> mem_call \<Rightarrow> memory \<Rightarrow> (64 word \<times> memory) outcome" where
  "mem_step at p g (Malloc n) m = malloc_wrapper_internal at p g n m"
| "mem_step at p g (Calloc k n) m = CALLOC_wrapper at p k n m"
| "mem_step at p g (Strdup q) m = STRDUP_wrapper at p q m"
| "mem_step at p g (Strndup q n) m = STRNDUP_wrapper at p q n m"
| "mem_step at p g (Realloc q n) m = REALLOC_wrapper at p g q n m"
| "mem_step at p g (Realpath s) m = Returns (REALPATH_wrapper at p s m)"
| "mem_step at p g (Free q) m =
    and_then (FREE_wrapper q m) (\<lambda>m'. Returns (0, m'))"

text \<open>
  What the C library promises: a block that it returns is new, or the one that \<open>realloc\<close> was
  given, and has the size that was asked for.
\<close>

definition allocator_ok :: "64 word \<Rightarrow> cstr \<Rightarrow> mem_call \<Rightarrow> memory \<Rightarrow> bool" where
  "allocator_ok p g c m \<longleftrightarrow>
    (p = 0 \<or> blocks m p = None \<or> (\<exists>n. c = Realloc p n)) \<and>
    (case c of Malloc n \<Rightarrow> length g = n | Realloc q n \<Rightarrow> n \<le> length g | _ \<Rightarrow> True)"

inductive mem_run :: "memory \<Rightarrow> bool" where
  mem_empty: "mem_run \<lparr>blocks = (\<lambda>_. None), tracker = (\<lambda>_. [])\<rparr>"
| mem_calls: "mem_run m \<Longrightarrow> allocator_ok p g c m \<Longrightarrow> mem_step at p g c m = Returns (r, m') \<Longrightarrow> mem_run m'"

section \<open>The tracker knows the heap\<close>

definition mem_ok :: "memory \<Rightarrow> bool" where
  "mem_ok m \<longleftrightarrow> mem_invar (tracker m) \<and>
     (\<forall>p. map_option mn_size (mem_lookup (tracker m) p) = map_option length (blocks m p))"

lemma new_node_simps [simp]: "mn_ptr (new_node at p n) = p" "mn_size (new_node at p n) = n"
  by (cases at; simp)+

lemma mem_ok_D:
  assumes "mem_ok m"
  shows "mem_invar (tracker m)" "mem_lookup (tracker m) p = None \<longleftrightarrow> blocks m p = None" "blocks m 0 = None"
proof -
  show i: "mem_invar (tracker m)" using assms by (simp add: mem_ok_def)
  have e: "map_option mn_size (mem_lookup (tracker m) p) = map_option length (blocks m p)" for p
    using assms by (simp add: mem_ok_def)
  show n: "mem_lookup (tracker m) p = None \<longleftrightarrow> blocks m p = None" for p
    using e [of p] by (metis map_option_is_None)
  have "mem_lookup (tracker m) 0 = None" using i by (auto simp: mem_lookup_None mem_invar_def)
  then show "blocks m 0 = None" using n by simp
qed

lemma put_block_ok:
  assumes "mem_ok m" "p = 0 \<or> blocks m p = None"
  shows "mem_ok (put_block at p b m)"
proof (cases "p = 0")
  case False
  with assms have "mem_lookup (tracker m) p = None" by (simp add: mem_ok_D(2))
  then have "mem_invar (mem_track (new_node at p (length b)) (tracker m))"
    using mem_ok_D(1) [OF assms(1)] by (intro mem_track_invar) simp_all
  with False assms(1) show ?thesis by (simp add: put_block_def mem_ok_def mem_track_lookup)
qed (use assms in \<open>simp add: put_block_def\<close>)

lemma FREE_ok:
  assumes "mem_ok m" "FREE_wrapper q m = Returns m'"
  shows "mem_ok m'"
proof (cases "q = 0")
  case False
  with assms(2) have m': "m' = m\<lparr>blocks := (blocks m)(q := None), tracker := snd (mem_free q (tracker m))\<rparr>"
    by (auto simp: FREE_wrapper_def split: if_splits)
  note i = mem_ok_D(1) [OF assms(1)]
  show ?thesis using assms(1) mem_free_lookup [OF i] mem_free_invar [OF i] by (simp add: m' mem_ok_def)
qed (use assms in \<open>simp add: FREE_wrapper_def\<close>)

lemma mem_realloc_ok:
  assumes m: "mem_ok m" and b: "blocks m q = Some b" and p: "p \<noteq> 0" "p = q \<or> blocks m p = None" "length b' = sz"
  shows "mem_ok (m\<lparr>blocks := (blocks m)(q := None, p \<mapsto> b'), tracker := mem_realloc q (new_node at p sz) (tracker m)\<rparr>)"
proof -
  note i = mem_ok_D(1) [OF m]
  obtain n where n: "mem_lookup (tracker m) q = Some n" using mem_ok_D(2) [OF m, of q] b by auto
  have u: "mem_unlink q (tracker m) = (Some n, snd (mem_unlink q (tracker m)))"
    using mem_unlink_fst [OF i, of q] n by (metis prod.collapse)
  let ?t = "snd (mem_unlink q (tracker m))"
  have r: "mem_realloc q (new_node at p sz) (tracker m) = mem_track (new_node at p sz) ?t"
    by (subst mem_realloc_def, subst u) simp
  have l: "mem_lookup ?t = (mem_lookup (tracker m))(q := None)" by (rule mem_unlink_lookup [OF i])
  have "mem_lookup ?t p = None" using l p(2) mem_ok_D(2) [OF m, of p] by auto
  then have "mem_invar (mem_track (new_node at p sz) ?t)"
    using mem_unlink_invar [OF i] by (intro mem_track_invar) simp_all
  then show ?thesis using m l p(1,3) by (auto simp: mem_ok_def r mem_track_lookup)
qed

lemma mem_step_ok:
  assumes m: "mem_ok m" and a: "allocator_ok p g c m" and st: "mem_step at p g c m = Returns (r, m')"
  shows "mem_ok m'"
proof -
  show ?thesis
  proof (cases c)
    case (Realloc q n)
    consider "q = 0" | "q \<noteq> 0" "n = 0" | "q \<noteq> 0" "n \<noteq> 0" by blast
    then show ?thesis
    proof cases
      case 1
      then have "m' = put_block at p (take n g) m" "p = 0 \<or> blocks m p = None"
        using Realloc st a by (auto simp: REALLOC_wrapper_def malloc_wrapper_internal_def allocator_ok_def split: if_splits)
      then show ?thesis using put_block_ok [OF m] by simp
    next
      case 2
      then show ?thesis using Realloc st FREE_ok [OF m] by (auto simp: REALLOC_wrapper_def split: outcome.splits)
    next
      case 3
      with Realloc st obtain b where b: "blocks m q = Some b" "p \<noteq> 0"
        "m' = m\<lparr>blocks := (blocks m)(q := None, p \<mapsto> take n (b @ g)), tracker := mem_realloc q (new_node at p n) (tracker m)\<rparr>"
        by (auto simp: REALLOC_wrapper_def split: option.splits if_splits)
      have "p = q \<or> blocks m p = None" "length (take n (b @ g)) = n"
        using a Realloc b(2) by (auto simp: allocator_ok_def)
      from mem_realloc_ok [OF m b(1,2) this] show ?thesis by (simp add: b(3))
    qed
  qed (use st a m FREE_ok [OF m] in \<open>auto simp: malloc_wrapper_internal_def CALLOC_wrapper_def STRDUP_wrapper_def
      STRNDUP_wrapper_def REALPATH_wrapper_def allocator_ok_def intro!: put_block_ok
      split: if_splits option.splits outcome.splits\<close>)
qed

lemma mem_run_ok: "mem_run m \<Longrightarrow> mem_ok m"
proof (induction rule: mem_run.induct)
  case mem_empty
  show ?case by (simp add: mem_ok_def mem_invar_def mem_lookup_def)
qed (rule mem_step_ok)

section \<open>The salt and the hash\<close>

text \<open>Both are written into a buffer of zeros; None is a write past its end.\<close>

definition poke :: "nat \<Rightarrow> cstr \<Rightarrow> cstr \<Rightarrow> cstr option" where
  "poke i s buf = (if i + length s \<le> length buf then Some (take i buf @ s @ drop (i + length s) buf) else None)"

abbreviation (input) SALT_LEN :: nat where "SALT_LEN \<equiv> 36"
abbreviation (input) MD5_HASH_LEN :: nat where "MD5_HASH_LEN \<equiv> 32"

text \<open>\<open>uuid_unparse\<close> writes the text of the identifier and its terminator.\<close>

definition generate_salt :: "cstr \<Rightarrow> cstr option" where
  "generate_salt uuid = poke 0 (uuid @ [nul]) (replicate (SALT_LEN + 1) nul)"

fun md5_digits :: "nat \<Rightarrow> cstr \<Rightarrow> cstr \<Rightarrow> cstr option" where
  "md5_digits i [] out = Some out"
| "md5_digits i (b # bs) out =
    (case poke (2 * i) (hex_byte b @ [nul]) out of None \<Rightarrow> None | Some out' \<Rightarrow> md5_digits (i + 1) bs out')"

definition generate_md5sum :: "(cstr \<Rightarrow> cstr) \<Rightarrow> cstr \<Rightarrow> cstr option" where
  "generate_md5sum md5 str = md5_digits 0 (md5 (take (strnlen str PATH_MAX) str)) (replicate (MD5_HASH_LEN + 1) nul)"

lemma md5_digits_eq:
  assumes "length h = 2 * i" "length r = 2 * length bs"
  shows "md5_digits i bs (h @ nul # r) = Some (h @ concat (map hex_byte bs) @ [nul])"
  using assms
proof (induction bs arbitrary: i h r)
  case (Cons b bs)
  obtain x y r' where r: "r = x # y # r'" "length r' = 2 * length bs"
    using Cons.prems(2) by (cases r rule: list.exhaust; cases "tl r") auto
  obtain u v where hb: "hex_byte b = [u, v]" by (simp add: hex_byte_def)
  have "poke (2 * i) (hex_byte b @ [nul]) (h @ nul # r) = Some ((h @ hex_byte b) @ nul # r')"
    using Cons.prems(1) by (simp add: poke_def r(1) hb)
  then show ?case using Cons.IH [of "h @ hex_byte b" "i + 1" r'] Cons.prems(1) r(2) hb by simp
qed simp

section \<open>Properties\<close>

lemma tracked_in_report:
  assumes "mem_ok m"
  shows "n \<in> set (leak_report m) \<longleftrightarrow> mem_lookup (tracker m) (mn_ptr n) = Some n"
proof -
  note i = mem_ok_D(1) [OF assms]
  have f: "find (\<lambda>k. mn_ptr k = mn_ptr n) ns = Some n" if "distinct (map mn_ptr ns)" "n \<in> set ns" for ns
    using that by (induction ns) (auto simp: image_iff)
  have g: "n \<in> set ns" if "find (\<lambda>k. mn_ptr k = mn_ptr n) ns = Some n" for ns
    using that by (auto simp: find_Some_iff)
  show ?thesis
  proof
    assume "n \<in> set (leak_report m)"
    then obtain k where k: "n \<in> set (tracker m k)" by (auto simp: leak_report_def)
    then have "hash_ptr (mn_ptr n) = k" "distinct (map mn_ptr (tracker m k))" using i by (auto simp: mem_invar_def)
    then show "mem_lookup (tracker m) (mn_ptr n) = Some n" using f k by (simp add: mem_lookup_def)
  next
    assume "mem_lookup (tracker m) (mn_ptr n) = Some n"
    then have "n \<in> set (tracker m (hash_ptr (mn_ptr n)))" using g by (simp add: mem_lookup_def)
    then show "n \<in> set (leak_report m)" using hash_ptr_less [of "mn_ptr n"] by (auto simp: leak_report_def)
  qed
qed

text \<open>
  C29.  The leak report is exact.  After any calls of the wrappers, \<open>mem_cleanup\<close> counts as many
  leaks as there are blocks that were allocated and not freed, reports each of them with its
  address and its size, reports nothing else, and leaves no block behind.
\<close>

theorem leak_report_exact:
  assumes "mem_run m"
  shows "mem_leak_count (tracker m) = card {p. blocks m p \<noteq> None} \<and>
    (\<forall>p k. (\<exists>b. blocks m p = Some b \<and> length b = k) \<longleftrightarrow> (\<exists>n \<in> set (leak_report m). mn_ptr n = p \<and> mn_size n = k)) \<and>
    blocks (free_leaks m) = (\<lambda>_. None)"
proof -
  have ok: "mem_ok m" by (rule mem_run_ok [OF assms])
  have e: "map_option mn_size (mem_lookup (tracker m) p) = map_option length (blocks m p)" for p
    using ok by (simp add: mem_ok_def)
  note rep = tracked_in_report [OF ok]
  have "dom (mem_lookup (tracker m)) = {p. blocks m p \<noteq> None}" unfolding dom_def mem_ok_D(2) [OF ok] ..
  then have 1: "mem_leak_count (tracker m) = card {p. blocks m p \<noteq> None}"
    using mem_leak_count_exact_parts(1) [OF mem_ok_D(1) [OF ok]] by simp
  have own: "mn_ptr n = p" if "mem_lookup (tracker m) p = Some n" for p n
    using that by (auto simp: mem_lookup_def find_Some_iff)
  have 2: "(\<exists>b. blocks m p = Some b \<and> length b = k) \<longleftrightarrow> (\<exists>n \<in> set (leak_report m). mn_ptr n = p \<and> mn_size n = k)" for p k
  proof
    assume "\<exists>b. blocks m p = Some b \<and> length b = k"
    then obtain n where n: "mem_lookup (tracker m) p = Some n" "mn_size n = k" using e [of p] by auto
    with own [OF n(1)] rep [of n] show "\<exists>n \<in> set (leak_report m). mn_ptr n = p \<and> mn_size n = k" by auto
  next
    assume "\<exists>n \<in> set (leak_report m). mn_ptr n = p \<and> mn_size n = k"
    then obtain n where "mem_lookup (tracker m) p = Some n" "mn_size n = k" using rep by auto
    with e [of p] show "\<exists>b. blocks m p = Some b \<and> length b = k" by (cases "blocks m p") auto
  qed
  have f: "fold (\<lambda>n b. b(mn_ptr n := None)) ns b p = (if p \<in> mn_ptr ` set ns then None else b p)" for ns b p
    by (induction ns arbitrary: b) auto
  have "blocks (free_leaks m) p = None" for p
  proof (cases "blocks m p")
    case (Some b)
    then have "p \<in> mn_ptr ` set (leak_report m)" using 2 [of p "length b"] by auto
    then show ?thesis by (simp add: free_leaks_def f)
  qed (simp add: free_leaks_def f)
  with 1 2 show ?thesis by (simp add: fun_eq_iff)
qed

text \<open>
  The string functions copy what they should and stay inside their blocks: the copy that
  \<open>STRDUP\<close> makes is the string, that of \<open>STRNDUP\<close> its first \<open>n\<close> bytes, and the original stays.
\<close>

lemma takeWhile_nul: "nul \<notin> set s \<Longrightarrow> takeWhile (\<lambda>c. c \<noteq> nul) (s @ [nul]) = s"
  by (induction s) auto

lemma strdup_copies:
  assumes "c_string m q = Some s" "q \<noteq> 0" "p \<noteq> 0" "p \<noteq> q"
  shows "\<exists>m'. STRDUP_wrapper at p q m = Returns (p, m') \<and> c_string m' p = Some s \<and> c_string m' q = Some s"
proof -
  have "nul \<notin> set s" using assms(1) by (auto simp: c_string_def split: option.splits if_splits dest: set_takeWhileD)
  from takeWhile_nul [OF this] show ?thesis using assms
    by (auto simp: STRDUP_wrapper_def malloc_wrapper_internal_def put_block_def c_string_def split: option.splits)
qed

lemma strndup_copies:
  assumes "c_string m q = Some s" "q \<noteq> 0" "p \<noteq> 0" "p \<noteq> q"
  shows "\<exists>m'. STRNDUP_wrapper at p q n m = Returns (p, m') \<and> c_string m' p = Some (strndup s n) \<and> c_string m' q = Some s"
proof -
  obtain b where b: "blocks m q = Some b" "nul \<in> set b" "s = takeWhile (\<lambda>c. c \<noteq> nul) b"
    using assms(1) by (auto simp: c_string_def split: option.splits if_splits)
  have t: "takeWhile (\<lambda>c. c \<noteq> nul) (take n b) = take n s" unfolding b(3)
    by (induction b arbitrary: n) (auto simp: take_Cons split: nat.splits)
  have "nul \<in> set (take n b) \<or> n \<le> length b" using b(2) by (metis le_cases take_all)
  then have c: "c_string_n m q n = Some (take n s)" using b(1) t by (simp add: c_string_n_def)
  have "nul \<notin> set s" using b(3) by (auto dest: set_takeWhileD)
  then have "nul \<notin> set (take n s)" by (auto dest: in_set_takeD)
  from takeWhile_nul [OF this] show ?thesis using assms c b
    by (auto simp: STRNDUP_wrapper_def malloc_wrapper_internal_def put_block_def c_string_def strndup_def)
qed

lemma md5sum_fits:
  assumes "length (md5 (take PATH_MAX str)) = 16"
  shows "generate_md5sum md5 str = Some (str_to_hex (md5 (take PATH_MAX str)) @ [nul])"
proof -
  have "take (strnlen str PATH_MAX) str = take PATH_MAX str" by (simp add: strnlen_def min_def)
  moreover have "replicate (MD5_HASH_LEN + 1) nul = nul # replicate 32 nul" by (simp add: eval_nat_numeral)
  moreover have "str_to_hex (md5 (take PATH_MAX str)) = concat (map hex_byte (md5 (take PATH_MAX str)))"
    using assms by (simp add: str_to_hex_def strnlen_def)
  ultimately show ?thesis using md5_digits_eq [of "[]" 0 "replicate 32 nul" "md5 (take PATH_MAX str)"] assms
    by (simp add: generate_md5sum_def)
qed

lemma salt_fits: "length uuid = 36 \<Longrightarrow> generate_salt uuid = Some (uuid @ [nul])"
  by (simp add: generate_salt_def poke_def)

lemma replicate_two: "replicate 2 x = [x, x]"
  by (simp add: numeral_2_eq_2)

lemma two_nuls: "length [nul, nul] = 2"
  by simp

definition demo_site :: site where
  "demo_site = (''link.c'', ''Link_new'', 69)"

theorem leak_report_exact_witness:
  "\<exists>m. mem_run m \<and> blocks m 16 = Some [nul, nul] \<and> (\<exists>n \<in> set (leak_report m). mn_ptr n = 16 \<and> mn_size n = 2)"
proof -
  let ?m = "put_block demo_site 16 [nul, nul] \<lparr>blocks = (\<lambda>_. None), tracker = (\<lambda>_. [])\<rparr>"
  have "mem_step demo_site 16 [] (Calloc 1 2) \<lparr>blocks = (\<lambda>_. None), tracker = (\<lambda>_. [])\<rparr> = Returns (16, ?m)"
    by (simp add: CALLOC_wrapper_def replicate_two)
  from mem_calls [OF mem_empty _ this] have r: "mem_run ?m" by (simp add: allocator_ok_def)
  have "blocks ?m 16 = Some [nul, nul]" by (simp add: put_block_def)
  moreover have "\<exists>n \<in> set (leak_report ?m). mn_ptr n = 16 \<and> mn_size n = 2"
    using calculation two_nuls leak_report_exact [OF r] by metis
  ultimately show ?thesis using r by (intro exI [of _ ?m]) simp
qed

end
