(* ===== verification/Network.thy ===== *)
theory Network
  imports LinkTree Url
begin

text \<open>
  \<open>src/network.c\<close> and its users in \<open>src/link.c\<close>: the messages of the curl multi handle
  (\<open>curl_process_msgs\<close>, \<open>curl_multi_perform_once\<close>), the blocking and the non-blocking transfer,
  the classification of a link by the reply to its HEAD request (\<open>Link_set_file_stat\<close>) and the
  loop that waits for all of them (\<open>LinkTable_uninitialised_fill\<close>).

  libcurl is outside the program: what one call of \<open>curl_multi_perform\<close> with the messages read
  after it yields is an argument, a \<open>round\<close>, that is the number of running handles it reports
  and the finished transfers.  A list of rounds is a stretch of time; None means that the loop
  is still waiting at the end of it, or that a message was for a transfer that is gone.
\<close>

section \<open>Replies and temporary failures\<close>

text \<open>\<open>HTTPResponseCode\<close>.\<close>

abbreviation (input) HTTP_OK :: int where "HTTP_OK \<equiv> 200"
abbreviation (input) HTTP_TOO_MANY_REQUESTS :: int where "HTTP_TOO_MANY_REQUESTS \<equiv> 429"
abbreviation (input) HTTP_CLOUDFLARE_UNKNOWN_ERROR :: int where "HTTP_CLOUDFLARE_UNKNOWN_ERROR \<equiv> 520"
abbreviation (input) HTTP_CLOUDFLARE_TIMEOUT :: int where "HTTP_CLOUDFLARE_TIMEOUT \<equiv> 524"

definition HTTP_temp_failure :: "int \<Rightarrow> bool" where
  "HTTP_temp_failure http_resp \<longleftrightarrow>
    http_resp = HTTP_TOO_MANY_REQUESTS \<or> http_resp = HTTP_CLOUDFLARE_UNKNOWN_ERROR \<or>
    http_resp = HTTP_CLOUDFLARE_TIMEOUT"

text \<open>
  A message of the multi handle: the handle, whether it is \<open>CURLMSG_DONE\<close>, whether the result is
  \<open>CURLE_OK\<close>, and what \<open>curl_easy_getinfo\<close> tells of the response.
\<close>

record reply =
  r_handle :: nat
  r_done :: bool
  r_ok :: bool
  r_code :: int
  r_length :: int
  r_filetime :: int

definition Link_set_file_stat :: "ConfigStruct \<Rightarrow> reply \<Rightarrow> Link \<Rightarrow> Link" where
  "Link_set_file_stat cfg r this_link =
    (if r_code r = HTTP_OK then
       (let cl = r_length r;
            l = this_link\<lparr>link_time := r_filetime r\<rparr>
        in if link_type l = LINK_UNINITIALISED_FILE then
             (if cl < 0 then l\<lparr>link_type := LINK_INVALID\<rparr>
              else if cl = 0 \<and> zero_len_is_dir cfg then l\<lparr>link_type := LINK_DIR\<rparr>
              else l\<lparr>link_type := LINK_FILE, content_length := to_size cl\<rparr>)
           else if link_type l = LINK_UNINITIALISED_DIR then l\<lparr>link_type := LINK_DIR\<rparr>
           else l)
     else if HTTP_temp_failure (r_code r) \<or> invalid_refresh cfg then this_link
     else this_link\<lparr>link_type := LINK_INVALID\<rparr>)"

section \<open>The multi handle\<close>

datatype TransferType = FILESTAT | DATA

text \<open>
  A \<open>TransferStruct\<close>, as far as the messages use it.  \<open>ts_link\<close> is the index of the link in the
  table that is being filled, None for a link of another table or no link.
\<close>

record transfer =
  ts_type :: TransferType
  ts_link :: "nat option"
  transferring :: bool

record net =
  multi :: "nat list"
  ts_of :: "nat \<Rightarrow> transfer option"
  next_handle :: nat
  tlinks :: "Link list"

definition curl_process_msgs :: "ConfigStruct \<Rightarrow> reply \<Rightarrow> net \<Rightarrow> net option" where
  "curl_process_msgs cfg r s =
    (if \<not> r_done r then Some s
     else (case ts_of s (r_handle r) of
       None \<Rightarrow> None
     | Some ts \<Rightarrow>
         (let h = r_handle r;
              s1 = s\<lparr>ts_of := (ts_of s)(h \<mapsto> ts\<lparr>transferring := False\<rparr>)\<rparr>;
              s2 = (case (ts_type ts, ts_link ts) of
                      (FILESTAT, Some i) \<Rightarrow>
                        s1\<lparr>tlinks := (tlinks s1)[i :=
                          (if r_ok r then Link_set_file_stat cfg r (tlinks s1 ! i)
                           else (tlinks s1 ! i)\<lparr>link_type := LINK_INVALID\<rparr>)]\<rparr>
                    | _ \<Rightarrow> s1);
              s3 = s2\<lparr>multi := remove1 h (multi s2)\<rparr>
          in Some (if ts_type ts = FILESTAT then s3\<lparr>ts_of := (ts_of s3)(h := None)\<rparr> else s3))))"

type_synonym round = "int \<times> reply list"

fun process_all :: "ConfigStruct \<Rightarrow> reply list \<Rightarrow> net \<Rightarrow> net option" where
  "process_all cfg [] s = Some s"
| "process_all cfg (r # rs) s =
    (case curl_process_msgs cfg r s of None \<Rightarrow> None | Some s' \<Rightarrow> process_all cfg rs s')"

definition curl_multi_perform_once :: "ConfigStruct \<Rightarrow> round \<Rightarrow> net \<Rightarrow> (int \<times> net) option" where
  "curl_multi_perform_once cfg rd s = map_option (\<lambda>s'. (fst rd, s')) (process_all cfg (snd rd) s)"

definition still_transferring :: "nat \<Rightarrow> net \<Rightarrow> bool" where
  "still_transferring h s = (case ts_of s h of Some ts \<Rightarrow> transferring ts | None \<Rightarrow> False)"

fun transfer_wait :: "ConfigStruct \<Rightarrow> nat \<Rightarrow> round list \<Rightarrow> net \<Rightarrow> net option" where
  "transfer_wait cfg h [] s = (if still_transferring h s then None else Some s)"
| "transfer_wait cfg h (rd # rds) s =
    (if still_transferring h s then
       (case curl_multi_perform_once cfg rd s of
          None \<Rightarrow> None
        | Some (_, s') \<Rightarrow> transfer_wait cfg h rds s')
     else Some s)"

definition transfer_nonblocking :: "nat \<Rightarrow> net \<Rightarrow> net" where
  "transfer_nonblocking h s = s\<lparr>multi := h # multi s\<rparr>"

definition transfer_blocking :: "ConfigStruct \<Rightarrow> nat \<Rightarrow> round list \<Rightarrow> net \<Rightarrow> net option" where
  "transfer_blocking cfg h rds s = transfer_wait cfg h rds (s\<lparr>multi := h # multi s\<rparr>)"

section \<open>Filling in a table\<close>

definition Link_req_file_stat :: "nat \<Rightarrow> net \<Rightarrow> net" where
  "Link_req_file_stat i s =
    (let h = next_handle s
     in transfer_nonblocking h
          (s\<lparr>next_handle := Suc h,
             ts_of := (ts_of s)(h \<mapsto> \<lparr>ts_type = FILESTAT, ts_link = Some i, transferring = False\<rparr>)\<rparr>))"

definition uninitialised :: "Link \<Rightarrow> bool" where
  "uninitialised l \<longleftrightarrow> link_type l = LINK_UNINITIALISED_FILE \<or> link_type l = LINK_UNINITIALISED_DIR"

text \<open>The first loop: one request for each uninitialised entry, from index \<open>i\<close> on.\<close>

fun start_requests :: "nat \<Rightarrow> Link list \<Rightarrow> net \<Rightarrow> net" where
  "start_requests i [] s = s"
| "start_requests i (l # ls) s =
    start_requests (Suc i) ls (if uninitialised l then Link_req_file_stat i s else s)"

definition invalidate :: "Link \<Rightarrow> Link" where
  "invalidate l = (if uninitialised l then l\<lparr>link_type := LINK_INVALID\<rparr> else l)"

fun fill_loop :: "ConfigStruct \<Rightarrow> round list \<Rightarrow> net \<Rightarrow> net option" where
  "fill_loop cfg [] s = (if \<exists>l \<in> set (tlinks s). uninitialised l then None else Some s)"
| "fill_loop cfg (rd # rds) s =
    (if \<exists>l \<in> set (tlinks s). uninitialised l then
       (case curl_multi_perform_once cfg rd s of
          None \<Rightarrow> None
        | Some (n_running, s') \<Rightarrow>
            if n_running = 0 then Some (s'\<lparr>tlinks := map invalidate (tlinks s')\<rparr>)
            else fill_loop cfg rds s')
     else Some s)"

definition LinkTable_uninitialised_fill :: "ConfigStruct \<Rightarrow> round list \<Rightarrow> net \<Rightarrow> net option" where
  "LinkTable_uninitialised_fill cfg rds s =
    (let s1 = start_requests 0 (tlinks s) s;
         total_uninitialized = length (filter uninitialised (tlinks s))
     in if total_uninitialized = 0 then Some s1 else fill_loop cfg rds s1)"

section \<open>What a reply can do to a link\<close>

text \<open>From the state of a link before any reply to a state after some.\<close>

fun may_become :: "bool \<Rightarrow> LinkType \<Rightarrow> LinkType set" where
  "may_become zero_is_dir LINK_UNINITIALISED_DIR = {LINK_UNINITIALISED_DIR, LINK_DIR, LINK_INVALID}"
| "may_become zero_is_dir LINK_UNINITIALISED_FILE =
    {LINK_UNINITIALISED_FILE, LINK_FILE, LINK_INVALID} \<union> (if zero_is_dir then {LINK_DIR} else {})"
| "may_become zero_is_dir t = {t, LINK_INVALID}"

lemma may_become_refl [simp]: "t \<in> may_become z t"
  by (cases t) simp_all

lemma may_become_invalid [simp]: "LINK_INVALID \<in> may_become z t"
  by (cases t) simp_all

lemma may_become_trans: "t' \<in> may_become z t \<Longrightarrow> t'' \<in> may_become z t' \<Longrightarrow> t'' \<in> may_become z t"
  by (cases t; cases t') (auto split: if_splits)

definition same_names :: "Link \<Rightarrow> Link \<Rightarrow> bool" where
  "same_names l l' \<longleftrightarrow> linkname l' = linkname l \<and> linkpath l' = linkpath l \<and> f_url l' = f_url l \<and>
     next_table l' = next_table l \<and> cache_ptr l' = cache_ptr l \<and> sonic l' = sonic l"

definition settles :: "ConfigStruct \<Rightarrow> Link \<Rightarrow> Link \<Rightarrow> bool" where
  "settles cfg l l' \<longleftrightarrow> same_names l l' \<and> link_type l' \<in> may_become (zero_len_is_dir cfg) (link_type l)"

lemma settles_refl [simp]: "settles cfg l l"
  by (simp add: settles_def same_names_def)

lemma settles_trans: "settles cfg l l' \<Longrightarrow> settles cfg l' l'' \<Longrightarrow> settles cfg l l''"
  using may_become_trans by (auto simp: settles_def same_names_def)

lemma stat_settles: "settles cfg l (Link_set_file_stat cfg r l)"
  by (auto simp: settles_def same_names_def Link_set_file_stat_def Let_def)

lemma invalid_settles: "settles cfg l (l\<lparr>link_type := LINK_INVALID\<rparr>)"
  by (simp add: settles_def same_names_def)

lemma invalidate_settles: "settles cfg l (invalidate l)"
  by (simp add: invalidate_def invalid_settles)

lemma invalidate_initialised [simp]: "\<not> uninitialised (invalidate l)"
  by (simp add: invalidate_def uninitialised_def)

section \<open>The links while the requests are served\<close>

text \<open>
  \<open>served J ls s\<close>: every request for this table is for a link in \<open>J\<close>; the links in \<open>J\<close> have settled
  from \<open>ls\<close> on, the others are untouched.
\<close>

definition served :: "ConfigStruct \<Rightarrow> nat set \<Rightarrow> Link list \<Rightarrow> net \<Rightarrow> bool" where
  "served cfg J ls s \<longleftrightarrow>
     (\<forall>h ts i. ts_of s h = Some ts \<longrightarrow> ts_type ts = FILESTAT \<longrightarrow> ts_link ts = Some i \<longrightarrow> i \<in> J) \<and>
     length (tlinks s) = length ls \<and>
     (\<forall>i < length ls. settles cfg (ls ! i) (tlinks s ! i) \<and> (i \<notin> J \<longrightarrow> tlinks s ! i = ls ! i))"

lemma served_msg:
  assumes "served cfg J ls s" "curl_process_msgs cfg r s = Some s'"
  shows "served cfg J ls s'"
proof (cases "r_done r")
  case False
  with assms show ?thesis by (simp add: curl_process_msgs_def)
next
  case True
  with assms(2) obtain ts where ts: "ts_of s (r_handle r) = Some ts"
    by (auto simp: curl_process_msgs_def split: option.splits)
  show ?thesis
  proof (cases "\<exists>i. ts_type ts = FILESTAT \<and> ts_link ts = Some i")
    case False
    then have "tlinks s' = tlinks s" "\<forall>h t. ts_of s' h = Some t \<longrightarrow>
        (\<exists>t0. ts_of s h = Some t0 \<and> ts_type t0 = ts_type t \<and> ts_link t0 = ts_link t)"
      using assms(2) True ts
      by (auto simp: curl_process_msgs_def Let_def split: TransferType.splits option.splits if_splits)
    with assms(1) show ?thesis unfolding served_def by metis
  next
    case True': True
    then obtain i where i: "ts_type ts = FILESTAT" "ts_link ts = Some i" by blast
    let ?l = "if r_ok r then Link_set_file_stat cfg r (tlinks s ! i) else (tlinks s ! i)\<lparr>link_type := LINK_INVALID\<rparr>"
    have s': "tlinks s' = (tlinks s)[i := ?l]" "ts_of s' = (ts_of s)(r_handle r := None)"
      using assms(2) True ts i by (auto simp: curl_process_msgs_def Let_def)
    have J: "i \<in> J" using assms(1) ts i by (simp add: served_def)
    have l: "settles cfg (tlinks s ! i) ?l" using stat_settles invalid_settles by simp
    have "settles cfg (ls ! k) (tlinks s' ! k) \<and> (k \<notin> J \<longrightarrow> tlinks s' ! k = ls ! k)" if "k < length ls" for k
    proof (cases "k = i")
      case True
      have "settles cfg (ls ! i) (tlinks s ! i)" using assms(1) that True by (simp add: served_def)
      from settles_trans [OF this l] show ?thesis using True that assms(1) s'(1) J by (simp add: served_def)
    next
      case False
      then show ?thesis using that assms(1) s'(1) by (simp add: served_def)
    qed
    then show ?thesis using assms(1) s' unfolding served_def by simp
  qed
qed

lemma served_all: "served cfg J ls s \<Longrightarrow> process_all cfg rs s = Some s' \<Longrightarrow> served cfg J ls s'"
proof (induction rs arbitrary: s)
  case (Cons r rs)
  then obtain s1 where "curl_process_msgs cfg r s = Some s1" "process_all cfg rs s1 = Some s'"
    by (auto split: option.splits)
  with Cons.IH served_msg [OF Cons.prems(1)] show ?case by blast
qed simp

lemma served_invalidate:
  assumes "served cfg J ls s" "\<forall>i < length ls. uninitialised (ls ! i) \<longrightarrow> i \<in> J"
  shows "served cfg J ls (s\<lparr>tlinks := map invalidate (tlinks s)\<rparr>)"
proof -
  have "settles cfg (ls ! i) (invalidate (tlinks s ! i)) \<and> (i \<notin> J \<longrightarrow> invalidate (tlinks s ! i) = ls ! i)"
    if "i < length ls" for i
    using assms that settles_trans [OF _ invalidate_settles] by (auto simp: served_def invalidate_def)
  then show ?thesis using assms(1) by (simp add: served_def)
qed

lemma fill_loop_served:
  assumes "\<forall>i < length ls. uninitialised (ls ! i) \<longrightarrow> i \<in> J"
  shows "served cfg J ls s \<Longrightarrow> fill_loop cfg rds s = Some s' \<Longrightarrow>
    served cfg J ls s' \<and> (\<forall>l \<in> set (tlinks s'). \<not> uninitialised l)"
proof (induction rds arbitrary: s)
  case Nil
  then show ?case by (auto split: if_splits)
next
  case (Cons rd rds)
  show ?case
  proof (cases "\<exists>l \<in> set (tlinks s). uninitialised l")
    case False
    with Cons.prems show ?thesis by auto
  next
    case True
    with Cons.prems(2) obtain s1 where s1: "process_all cfg (snd rd) s = Some s1"
      "(if fst rd = 0 then Some (s1\<lparr>tlinks := map invalidate (tlinks s1)\<rparr>) else fill_loop cfg rds s1) = Some s'"
      by (auto simp: curl_multi_perform_once_def split: option.splits)
    note served1 = served_all [OF Cons.prems(1) s1(1)]
    show ?thesis
    proof (cases "fst rd = 0")
      case True
      with s1(2) served_invalidate [OF served1 assms] show ?thesis by auto
    next
      case False
      with s1(2) Cons.IH [OF served1] show ?thesis by simp
    qed
  qed
qed

lemma start_requests_links [simp]: "tlinks (start_requests i ls s) = tlinks s"
  by (induction i ls s rule: start_requests.induct) (simp_all add: Link_req_file_stat_def transfer_nonblocking_def Let_def)

text \<open>No transfer for a link of this table is under way.\<close>

definition idle :: "net \<Rightarrow> bool" where
  "idle s \<longleftrightarrow> (\<forall>h ts. ts_of s h = Some ts \<longrightarrow> ts_type ts = FILESTAT \<longrightarrow> ts_link ts = None)"

definition requests_in :: "nat set \<Rightarrow> net \<Rightarrow> bool" where
  "requests_in J s \<longleftrightarrow>
     (\<forall>h ts i. ts_of s h = Some ts \<longrightarrow> ts_type ts = FILESTAT \<longrightarrow> ts_link ts = Some i \<longrightarrow> i \<in> J)"

lemma start_requests_in:
  "requests_in J s \<Longrightarrow> (\<And>k. k < length ls \<Longrightarrow> uninitialised (ls ! k) \<Longrightarrow> i + k \<in> J) \<Longrightarrow>
    requests_in J (start_requests i ls s)"
proof (induction ls arbitrary: i s)
  case (Cons l ls)
  let ?s = "if uninitialised l then Link_req_file_stat i s else s"
  have "uninitialised l \<Longrightarrow> i \<in> J" using Cons.prems(2) [of 0] by simp
  then have "requests_in J ?s"
    using Cons.prems(1) by (auto simp: requests_in_def Link_req_file_stat_def transfer_nonblocking_def Let_def)
  moreover have "Suc i + k \<in> J" if "k < length ls" "uninitialised (ls ! k)" for k
    using Cons.prems(2) [of "Suc k"] that by simp
  ultimately show ?case using Cons.IH by simp
qed simp

lemma fill_result:
  assumes "idle s" "LinkTable_uninitialised_fill cfg rds s = Some s'"
  shows "served cfg {i. i < length (tlinks s) \<and> uninitialised (tlinks s ! i)} (tlinks s) s' \<and>
    (\<forall>l \<in> set (tlinks s'). \<not> uninitialised l)"
proof -
  let ?J = "{i. i < length (tlinks s) \<and> uninitialised (tlinks s ! i)}"
  let ?s1 = "start_requests 0 (tlinks s) s"
  have "requests_in ?J s" using assms(1) by (auto simp: idle_def requests_in_def)
  then have "requests_in ?J ?s1" by (intro start_requests_in) auto
  then have served: "served cfg ?J (tlinks s) ?s1" unfolding served_def requests_in_def by simp
  show ?thesis
  proof (cases "filter uninitialised (tlinks s) = []")
    case True
    then have "s' = ?s1" "\<forall>l \<in> set (tlinks s). \<not> uninitialised l"
      using assms(2) by (auto simp: LinkTable_uninitialised_fill_def Let_def filter_empty_conv)
    with served show ?thesis by simp
  next
    case False
    with assms(2) have "fill_loop cfg rds ?s1 = Some s'" by (simp add: LinkTable_uninitialised_fill_def Let_def)
    from fill_loop_served [OF _ served this] show ?thesis by simp
  qed
qed

section \<open>Termination\<close>

text \<open>
  What libcurl promises of its messages: each is for a transfer that was added, and there is one
  for each transfer.
\<close>

definition proper_messages :: "reply list \<Rightarrow> net \<Rightarrow> bool" where
  "proper_messages rs s \<longleftrightarrow> distinct (map r_handle rs) \<and> (\<forall>r \<in> set rs. ts_of s (r_handle r) \<noteq> None)"

lemma msg_proper:
  assumes "proper_messages (r # rs) s"
  shows "\<exists>s'. curl_process_msgs cfg r s = Some s' \<and> proper_messages rs s'"
proof (cases "r_done r")
  case False
  with assms show ?thesis by (simp add: curl_process_msgs_def proper_messages_def)
next
  case True
  obtain ts where ts: "ts_of s (r_handle r) = Some ts" using assms by (auto simp: proper_messages_def)
  obtain s' where s': "curl_process_msgs cfg r s = Some s'"
    using True ts by (auto simp: curl_process_msgs_def Let_def)
  have "ts_of s' h = ts_of s h" if "h \<noteq> r_handle r" for h
    using s' True ts that
    by (auto simp: curl_process_msgs_def Let_def split: TransferType.splits option.splits if_splits)
  moreover have "r_handle x \<noteq> r_handle r" if "x \<in> set rs" for x
    using assms that by (auto simp: proper_messages_def image_iff)
  ultimately have "proper_messages rs s'" using assms by (simp add: proper_messages_def)
  with s' show ?thesis by blast
qed

lemma all_proper: "proper_messages (rs @ rs') s \<Longrightarrow> \<exists>s'. process_all cfg rs s = Some s' \<and> proper_messages rs' s'"
proof (induction rs arbitrary: s)
  case (Cons r rs)
  from msg_proper [of r "rs @ rs'" s] Cons.prems obtain s1 where
    "curl_process_msgs cfg r s = Some s1" "proper_messages (rs @ rs') s1" by auto
  with Cons.IH show ?case by simp
qed simp

lemma fill_loop_returns:
  "k < length rds \<Longrightarrow> fst (rds ! k) = 0 \<Longrightarrow> proper_messages (concat (map snd (take (Suc k) rds))) s \<Longrightarrow>
    \<exists>s'. fill_loop cfg rds s = Some s'"
proof (induction rds arbitrary: k s)
  case (Cons rd rds)
  show ?case
  proof (cases "\<exists>l \<in> set (tlinks s). uninitialised l")
    case False
    then show ?thesis by simp
  next
    case True
    have "proper_messages (snd rd @ concat (map snd (take k rds))) s" using Cons.prems(3) by simp
    from all_proper [OF this] obtain s1 where
      s1: "process_all cfg (snd rd) s = Some s1" "proper_messages (concat (map snd (take k rds))) s1" by blast
    show ?thesis
    proof (cases "fst rd = 0")
      case True
      with s1(1) \<open>\<exists>l \<in> set (tlinks s). uninitialised l\<close> show ?thesis by (simp add: curl_multi_perform_once_def)
    next
      case False
      with Cons.prems(2) obtain j where j: "k = Suc j" by (cases k) auto
      with Cons.prems Cons.IH [of j s1] s1(2) obtain s' where "fill_loop cfg rds s1 = Some s'" by auto
      with False s1(1) \<open>\<exists>l \<in> set (tlinks s). uninitialised l\<close> show ?thesis by (simp add: curl_multi_perform_once_def)
    qed
  qed
qed simp

section \<open>The report on a table\<close>

text \<open>
  What \<open>LinkTable_print\<close> writes when information is logged: the URL of the head link, a row for
  each entry, and how many are neither a file nor a directory nor the head.  None for a table
  without a head, where the code reads over the end of the array.
\<close>

definition print_row :: "nat \<Rightarrow> Link \<Rightarrow> nat \<times> LinkType \<times> nat \<times> cstr \<times> cstr" where
  "print_row i l = (i, link_type l, content_length l, linkname l, f_url l)"

definition LinkTable_print ::
    "ConfigStruct \<Rightarrow> Link list \<Rightarrow> (cstr \<times> (nat \<times> LinkType \<times> nat \<times> cstr \<times> cstr) list \<times> nat) option option" where
  "LinkTable_print cfg ls =
    (if log_type cfg AND log_info \<noteq> 0 then
       (case ls of
          [] \<Rightarrow> None
        | l # _ \<Rightarrow> Some (Some (f_url l, map2 print_row [0..<length ls] ls,
            length (filter (\<lambda>l. link_type l \<noteq> LINK_FILE \<and> link_type l \<noteq> LINK_DIR \<and> link_type l \<noteq> LINK_HEAD) ls))))
     else Some None)"

lemma print_counts_invalid:
  assumes "\<forall>l \<in> set ls. \<not> uninitialised l \<and> (\<forall>c. link_type l \<noteq> LINK_UNKNOWN c)" "ls \<noteq> []" "log_type cfg AND log_info \<noteq> 0"
  shows "\<exists>url rows. LinkTable_print cfg ls = Some (Some (url, rows, length (filter (\<lambda>l. link_type l = LINK_INVALID) ls))) \<and>
    length rows = length ls"
proof -
  have "link_type l \<noteq> LINK_FILE \<and> link_type l \<noteq> LINK_DIR \<and> link_type l \<noteq> LINK_HEAD \<longleftrightarrow> link_type l = LINK_INVALID"
    if "l \<in> set ls" for l
    using assms(1) that by (cases "link_type l") (auto simp: uninitialised_def)
  then have "filter (\<lambda>l. link_type l \<noteq> LINK_FILE \<and> link_type l \<noteq> LINK_DIR \<and> link_type l \<noteq> LINK_HEAD) ls =
      filter (\<lambda>l. link_type l = LINK_INVALID) ls" by (intro filter_cong) simp_all
  then show ?thesis using assms(2,3) by (cases ls) (auto simp: LinkTable_print_def)
qed

section \<open>Properties\<close>

text \<open>
  C32.  When \<open>LinkTable_uninitialised_fill\<close> returns, every entry of the table has its final type:
  an entry that was to be a directory is one or is invalid; an entry that was to be a file is a
  file, or invalid, or, only with \<open>zero_len_is_dir\<close>, a directory; its name and URL are as they
  were.  Entries that were initialised already are untouched, whatever other transfers run.
\<close>

theorem filled_table_types:
  assumes "idle s" "LinkTable_uninitialised_fill cfg rds s = Some s'" "i < length (tlinks s)"
  shows "length (tlinks s') = length (tlinks s) \<and> same_names (tlinks s ! i) (tlinks s' ! i) \<and>
    (link_type (tlinks s ! i) = LINK_UNINITIALISED_DIR \<longrightarrow> link_type (tlinks s' ! i) \<in> {LINK_DIR, LINK_INVALID}) \<and>
    (link_type (tlinks s ! i) = LINK_UNINITIALISED_FILE \<longrightarrow>
       link_type (tlinks s' ! i) \<in> {LINK_FILE, LINK_INVALID} \<union> (if zero_len_is_dir cfg then {LINK_DIR} else {})) \<and>
    (\<not> uninitialised (tlinks s ! i) \<longrightarrow> tlinks s' ! i = tlinks s ! i)"
proof -
  note F = fill_result [OF assms(1,2)]
  have len: "length (tlinks s') = length (tlinks s)" using F by (simp add: served_def)
  have s: "settles cfg (tlinks s ! i) (tlinks s' ! i)" "\<not> uninitialised (tlinks s ! i) \<Longrightarrow> tlinks s' ! i = tlinks s ! i"
    using F assms(3) by (simp_all add: served_def)
  have "\<not> uninitialised (tlinks s' ! i)" using F assms(3) len by simp
  then show ?thesis using s len by (auto simp: settles_def uninitialised_def)
qed

text \<open>
  C33.  \<open>LinkTable_uninitialised_fill\<close> returns: as soon as libcurl reports that no handle is
  running any more, provided that its messages are for transfers that were added, at most one
  for each; servers that never answer properly, or answer with temporary failures, cannot hold
  the loop up.
\<close>

theorem fill_terminates:
  assumes "k < length rds" "fst (rds ! k) = 0"
    and "proper_messages (concat (map snd (take (Suc k) rds))) (start_requests 0 (tlinks s) s)"
  shows "\<exists>s'. LinkTable_uninitialised_fill cfg rds s = Some s'"
  using fill_loop_returns [OF assms] by (simp add: LinkTable_uninitialised_fill_def Let_def)

text \<open>
  Filling in a table a second time does nothing: no request is started, whatever failed the
  first time.  The refresh that \<open>--invalid-refresh\<close> asks of \<open>path_to_LinkTable\<close> runs on a table that
  has just been filled in, so it never retries anything, and \<open>retrying later\<close> is not what
  happens to a link with a temporary failure.
\<close>

theorem second_fill_is_void:
  assumes "idle s" "LinkTable_uninitialised_fill cfg rds s = Some s'"
  shows "LinkTable_uninitialised_fill cfg' rds' s' = Some s'"
proof -
  have none: "\<forall>l \<in> set (tlinks s'). \<not> uninitialised l" using fill_result [OF assms] by blast
  have "start_requests i ls t = t" if "\<forall>l \<in> set ls. \<not> uninitialised l" for i ls t
    using that by (induction i ls t rule: start_requests.induct) auto
  with none show ?thesis by (simp add: LinkTable_uninitialised_fill_def filter_empty_conv)
qed

section \<open>A scenario\<close>

definition demo_entry :: "LinkType \<Rightarrow> Link" where
  "demo_entry t = \<lparr>linkname = ''f'', linkpath = ''f'', f_url = ''http://h/f'', link_type = t, content_length = 0,
     next_table = None, link_time = 0, cache_ptr = None, sonic = \<lparr>sonic_ident = None, depth = 0\<rparr>\<rparr>"

definition demo_net :: net where
  "demo_net = \<lparr>multi = [], ts_of = (\<lambda>_. None), next_handle = 0,
     tlinks = map demo_entry [LINK_HEAD, LINK_UNINITIALISED_FILE, LINK_UNINITIALISED_DIR]\<rparr>"

definition demo_rounds :: "round list" where
  "demo_rounds = [(1, [\<lparr>r_handle = 0, r_done = True, r_ok = True, r_code = 200, r_length = 5, r_filetime = 9\<rparr>]),
     (0, [\<lparr>r_handle = 1, r_done = True, r_ok = True, r_code = 429, r_length = 0, r_filetime = 0\<rparr>])]"

lemma demo_idle: "idle demo_net"
  by (simp add: idle_def demo_net_def)

lemma demo_proper: "proper_messages (concat (map snd (take (Suc 1) demo_rounds))) (start_requests 0 (tlinks demo_net) demo_net)"
  by (simp add: proper_messages_def demo_rounds_def demo_net_def demo_entry_def uninitialised_def
      Link_req_file_stat_def transfer_nonblocking_def)

lemma demo_fill:
  "map_option (map link_type \<circ> tlinks) (LinkTable_uninitialised_fill (Config_init ''httpdirfs'' 15) demo_rounds demo_net) =
    Some [LINK_HEAD, LINK_FILE, LINK_INVALID]"
  by code_simp

theorem filled_table_types_witness:
  "\<exists>s'. LinkTable_uninitialised_fill (Config_init ''httpdirfs'' 15) demo_rounds demo_net = Some s' \<and>
    link_type (tlinks s' ! 1) \<in> {LINK_FILE, LINK_INVALID}"
proof -
  obtain s' where s': "LinkTable_uninitialised_fill (Config_init ''httpdirfs'' 15) demo_rounds demo_net = Some s'"
    using demo_fill by (cases "LinkTable_uninitialised_fill (Config_init ''httpdirfs'' 15) demo_rounds demo_net") simp_all
  with filled_table_types [OF demo_idle s', of 1] show ?thesis
    by (simp add: demo_net_def demo_entry_def Config_init_def)
qed

theorem fill_terminates_witness:
  "\<exists>s'. LinkTable_uninitialised_fill (Config_init ''httpdirfs'' 15) demo_rounds demo_net = Some s'"
  by (rule fill_terminates [OF _ _ demo_proper]) (simp_all add: demo_rounds_def)

theorem second_fill_is_void_witness:
  "\<exists>s'. LinkTable_uninitialised_fill (Config_init ''httpdirfs'' 15) [] s' = Some s' \<and> tlinks s' \<noteq> []"
proof -
  obtain s' where s': "LinkTable_uninitialised_fill (Config_init ''httpdirfs'' 15) demo_rounds demo_net = Some s'"
    "map link_type (tlinks s') = [LINK_HEAD, LINK_FILE, LINK_INVALID]"
    using demo_fill by (cases "LinkTable_uninitialised_fill (Config_init ''httpdirfs'' 15) demo_rounds demo_net") simp_all
  with second_fill_is_void [OF demo_idle s'(1)] show ?thesis by fastforce
qed

end
