(* ===== verification/NetConc.thy ===== *)
theory NetConc
  imports Locks Network
begin

text \<open>
  Several threads at the one curl multi handle of \<open>src/network.c\<close>: \<open>transfer_blocking\<close>,
  \<open>transfer_nonblocking\<close> and \<open>curl_multi_perform_once\<close> step by step with \<open>transfer_lock\<close> as a
  mutex of \<open>Locks\<close>.  Any thread that performs may process the message of any other thread's
  transfer, and the loop of \<open>transfer_blocking\<close> reads \<open>ts->transferring\<close> without the lock.
\<close>

section \<open>The start\<close>

text \<open>The locks that OpenSSL before 1.1 asks for; \<open>ret i\<close> is what \<open>pthread_mutex_init\<close> returns for the \<open>i\<close>-th.\<close>

fun crypto_lock_init :: "(nat \<Rightarrow> int) \<Rightarrow> nat \<Rightarrow> mutex list outcome" where
  "crypto_lock_init ret 0 = Returns []"
| "crypto_lock_init ret (Suc n) =
    and_then (crypto_lock_init ret n) (\<lambda>ls. and_then (pthread_mutex_init_wrapper (ret n) None) (\<lambda>l. Returns (ls @ [l])))"

abbreviation (input) CRYPTO_LOCK :: int where "CRYPTO_LOCK \<equiv> 1"

definition crypto_lock_callback :: "nat \<Rightarrow> int \<Rightarrow> nat \<Rightarrow> mutex list \<Rightarrow> mutex list outcome" where
  "crypto_lock_callback t flags k locks =
    (if k < length locks then
       and_then (if and flags CRYPTO_LOCK \<noteq> 0 then pthread_mutex_lock_wrapper t (locks ! k)
                 else pthread_mutex_unlock_wrapper t (locks ! k))
         (\<lambda>m. Returns (locks[k := m]))
     else Undefined)"

definition curl_callback_lock :: "nat \<Rightarrow> mutex \<Rightarrow> mutex outcome" where
  "curl_callback_lock t curl_lock = pthread_mutex_lock_wrapper t curl_lock"

definition curl_callback_unlock :: "nat \<Rightarrow> mutex \<Rightarrow> mutex outcome" where
  "curl_callback_unlock t curl_lock = pthread_mutex_unlock_wrapper t curl_lock"

text \<open>What \<open>NetworkSystem_init\<close> leaves behind: the locks and the limits set on the multi handle.\<close>

record network_system =
  ns_curl_lock :: mutex
  ns_transfer_lock :: mutex
  crypto_lockarray :: "mutex list"
  max_total_connections :: int
  max_host_connections :: int

text \<open>
  The arguments are what the libraries return: the number of \<open>curl_global_init\<close>, whether the
  share handle and the multi handle were made, what the calls of \<open>pthread_mutex_init\<close> return for
  \<open>curl_lock\<close>, \<open>transfer_lock\<close> and the array, and \<open>CRYPTO_num_locks\<close>.
\<close>

definition NetworkSystem_init ::
    "ConfigStruct \<Rightarrow> int \<Rightarrow> bool \<Rightarrow> bool \<Rightarrow> int \<Rightarrow> int \<Rightarrow> (nat \<Rightarrow> int) \<Rightarrow> nat \<Rightarrow> network_system outcome" where
  "NetworkSystem_init cfg global share multi_made ret1 ret2 ret num_locks =
    (if global \<noteq> 0 then Exits
     else if \<not> share then Exits
     else and_then (pthread_mutex_init_wrapper ret1 None) (\<lambda>cl.
       if \<not> multi_made then Exits
       else and_then (pthread_mutex_init_wrapper ret2 None) (\<lambda>tl.
         and_then (crypto_lock_init ret num_locks) (\<lambda>ls.
           Returns \<lparr>ns_curl_lock = cl, ns_transfer_lock = tl, crypto_lockarray = ls,
             max_total_connections = max_conns cfg, max_host_connections = max_conns cfg\<rparr>))))"

abbreviation (input) free_lock :: mutex where "free_lock \<equiv> \<lparr>mutex_type = Errorcheck, holder = None\<rparr>"

lemma crypto_lock_init_works:
  "crypto_lock_init ret n = (if \<forall>i < n. ret i = 0 then Returns (replicate n free_lock) else Exits)"
  by (induction n) (auto simp: pthread_mutex_init_wrapper_def less_Suc_eq replicate_append_same)

text \<open>It ends the process at the first failure; else all locks are error-checking and free.\<close>

lemma NetworkSystem_init_works:
  "NetworkSystem_init cfg global share multi_made ret1 ret2 ret n =
    (if global = 0 \<and> share \<and> multi_made \<and> ret1 = 0 \<and> ret2 = 0 \<and> (\<forall>i < n. ret i = 0)
     then Returns \<lparr>ns_curl_lock = free_lock, ns_transfer_lock = free_lock, crypto_lockarray = replicate n free_lock,
       max_total_connections = max_conns cfg, max_host_connections = max_conns cfg\<rparr>
     else Exits)"
  by (simp add: NetworkSystem_init_def pthread_mutex_init_wrapper_def crypto_lock_init_works)

text \<open>
  With these locks the callbacks exclude each other: a second thread waits until the first gives
  the lock back, a thread that locks twice or unlocks what it does not hold ends the process.
\<close>

lemma callbacks_exclude:
  assumes "mutex_type m = Errorcheck"
  shows "curl_callback_lock t m = (case holder m of None \<Rightarrow> Returns (m\<lparr>holder := Some t\<rparr>) | Some u \<Rightarrow> if u = t then Exits else Waits)"
    "curl_callback_unlock t m = (if holder m = Some t then Returns (m\<lparr>holder := None\<rparr>) else Exits)"
  using errorcheck_wrappers [OF assms] by (simp_all add: curl_callback_lock_def curl_callback_unlock_def)

lemma crypto_callback_exclude:
  assumes "k < length locks" "mutex_type (locks ! k) = Errorcheck" "holder (locks ! k) = None"
  shows "crypto_lock_callback t CRYPTO_LOCK k locks = Returns (locks[k := (locks ! k)\<lparr>holder := Some t\<rparr>])"
    "u \<noteq> t \<Longrightarrow> crypto_lock_callback u CRYPTO_LOCK k (locks[k := (locks ! k)\<lparr>holder := Some t\<rparr>]) = Waits"
    "crypto_lock_callback t 0 k (locks[k := (locks ! k)\<lparr>holder := Some t\<rparr>]) = Returns locks"
  using assms by (auto simp: crypto_lock_callback_def errorcheck_wrappers intro!: nth_equalityI simp: nth_list_update)

section \<open>The stages of a message\<close>

text \<open>
  \<open>curl_process_msgs\<close> between its accesses to the \<open>TransferStruct\<close> and to the handle; None is an
  access after either is gone.
\<close>

definition msg_clear :: "reply \<Rightarrow> net \<Rightarrow> net option" where
  "msg_clear r s =
    (case ts_of s (r_handle r) of
       None \<Rightarrow> None
     | Some ts \<Rightarrow> Some (s\<lparr>ts_of := (ts_of s)(r_handle r \<mapsto> ts\<lparr>transferring := False\<rparr>)\<rparr>))"

definition msg_stat :: "ConfigStruct \<Rightarrow> reply \<Rightarrow> net \<Rightarrow> net option" where
  "msg_stat cfg r s =
    (case ts_of s (r_handle r) of
       None \<Rightarrow> None
     | Some ts \<Rightarrow>
         Some (case (ts_type ts, ts_link ts) of
                 (FILESTAT, Some i) \<Rightarrow>
                   s\<lparr>tlinks := (tlinks s)[i :=
                     (if r_ok r then Link_set_file_stat cfg r (tlinks s ! i)
                      else (tlinks s ! i)\<lparr>link_type := LINK_INVALID\<rparr>)]\<rparr>
               | _ \<Rightarrow> s))"

definition msg_remove :: "reply \<Rightarrow> net \<Rightarrow> net option" where
  "msg_remove r s =
    (if ts_of s (r_handle r) = None then None else Some (s\<lparr>multi := remove1 (r_handle r) (multi s)\<rparr>))"

definition msg_free :: "reply \<Rightarrow> net \<Rightarrow> net option" where
  "msg_free r s =
    (case ts_of s (r_handle r) of
       None \<Rightarrow> None
     | Some ts \<Rightarrow> Some (if ts_type ts = FILESTAT then s\<lparr>ts_of := (ts_of s)(r_handle r := None)\<rparr> else s))"

lemma process_msgs_stages:
  "curl_process_msgs cfg r s =
    (if \<not> r_done r then Some s
     else Option.bind (msg_clear r s) (\<lambda>s. Option.bind (msg_stat cfg r s) (\<lambda>s. Option.bind (msg_remove r s) (msg_free r))))"
  by (auto simp: curl_process_msgs_def msg_clear_def msg_stat_def msg_remove_def msg_free_def Let_def
      split: option.split TransferType.split)

section \<open>Threads\<close>

text \<open>
  What a thread does with the network: \<open>transfer_blocking\<close> of a handle whose \<open>TransferStruct\<close> it
  has on its stack, the end of that handle and of that structure when the function that made them
  returns, \<open>transfer_nonblocking\<close> of a \<open>FILESTAT\<close> request, or a round of its own.
\<close>

datatype net_op = Blocking nat | Release nat | Nonblocking nat | Perform_once

datatype net_pc = Idle | At_add | Add_handle | Add_unlock bool | Polling | At_once | Perform
  | Messages "reply list" | Msg_stat reply "reply list" | Msg_remove reply "reply list"
  | Msg_free reply "reply list" | Once_unlock

type_synonym net_thread = "net_pc \<times> net_op list"

record wire =
  transfer_lock :: mutex
  curl :: net

definition got_lock :: "net_thread \<Rightarrow> wire \<Rightarrow> mutex outcome \<Rightarrow> (net_thread \<times> wire) outcome" where
  "got_lock p w = map_outcome (\<lambda>m. (p, w\<lparr>transfer_lock := m\<rparr>))"

definition after_msg :: "net_thread \<Rightarrow> wire \<Rightarrow> net option \<Rightarrow> (net_thread \<times> wire) outcome" where
  "after_msg p w r = (case r of None \<Rightarrow> Undefined | Some s \<Rightarrow> Returns (p, w\<lparr>curl := s\<rparr>))"

text \<open>
  \<open>rs\<close> are the messages that \<open>curl_multi_info_read\<close> gives in a round.  \<open>curl_easy_cleanup\<close> takes
  a handle that is still there out of the multi handle.
\<close>

fun net_step :: "ConfigStruct \<Rightarrow> nat \<Rightarrow> reply list \<Rightarrow> net_thread \<Rightarrow> wire \<Rightarrow> (net_thread \<times> wire) outcome" where
  "net_step cfg t rs (Idle, Blocking h # ops) w =
    (case ts_of (curl w) h of
       None \<Rightarrow> Undefined
     | Some ts \<Rightarrow> Returns ((At_add, Blocking h # ops),
         w\<lparr>curl := (curl w)\<lparr>ts_of := (ts_of (curl w))(h \<mapsto> ts\<lparr>transferring := True\<rparr>)\<rparr>\<rparr>))"
| "net_step cfg t rs (Idle, Nonblocking h # ops) w = Returns ((At_add, Nonblocking h # ops), w)"
| "net_step cfg t rs (Idle, Perform_once # ops) w = Returns ((At_once, Perform_once # ops), w)"
| "net_step cfg t rs (Idle, Release h # ops) w =
    (if ts_of (curl w) h = None then Undefined
     else Returns ((Idle, ops),
       w\<lparr>curl := (curl w)\<lparr>ts_of := (ts_of (curl w))(h := None), multi := remove1 h (multi (curl w))\<rparr>\<rparr>))"
| "net_step cfg t rs (At_add, ops) w = got_lock (Add_handle, ops) w (pthread_mutex_lock_wrapper t (transfer_lock w))"
| "net_step cfg t rs (Add_handle, Blocking h # ops) w =
    (if ts_of (curl w) h = None then Undefined
     else Returns ((Add_unlock True, Blocking h # ops), w\<lparr>curl := transfer_nonblocking h (curl w)\<rparr>))"
| "net_step cfg t rs (Add_handle, Nonblocking h # ops) w =
    (if ts_of (curl w) h = None then Undefined
     else Returns ((Add_unlock False, ops), w\<lparr>curl := transfer_nonblocking h (curl w)\<rparr>))"
| "net_step cfg t rs (Add_unlock polls, ops) w =
    got_lock (if polls then Polling else Idle, ops) w (pthread_mutex_unlock_wrapper t (transfer_lock w))"
| "net_step cfg t rs (Polling, Blocking h # ops) w =
    (case ts_of (curl w) h of
       None \<Rightarrow> Undefined
     | Some ts \<Rightarrow> Returns (if transferring ts then (At_once, Blocking h # ops) else (Idle, ops), w))"
| "net_step cfg t rs (At_once, ops) w = got_lock (Perform, ops) w (pthread_mutex_lock_wrapper t (transfer_lock w))"
| "net_step cfg t rs (Perform, ops) w = Returns ((Messages rs, ops), w)"
| "net_step cfg t rs (Messages [], ops) w = Returns ((Once_unlock, ops), w)"
| "net_step cfg t rs (Messages (r # q), ops) w =
    (if r_done r then after_msg (Msg_stat r q, ops) w (msg_clear r (curl w)) else Returns ((Messages q, ops), w))"
| "net_step cfg t rs (Msg_stat r q, ops) w = after_msg (Msg_remove r q, ops) w (msg_stat cfg r (curl w))"
| "net_step cfg t rs (Msg_remove r q, ops) w = after_msg (Msg_free r q, ops) w (msg_remove r (curl w))"
| "net_step cfg t rs (Msg_free r q, ops) w = after_msg (Messages q, ops) w (msg_free r (curl w))"
| "net_step cfg t rs (Once_unlock, Blocking h # ops) w =
    got_lock (Polling, Blocking h # ops) w (pthread_mutex_unlock_wrapper t (transfer_lock w))"
| "net_step cfg t rs (Once_unlock, Perform_once # ops) w =
    got_lock (Idle, ops) w (pthread_mutex_unlock_wrapper t (transfer_lock w))"
| "net_step cfg t rs _ w = Waits"

type_synonym net_state = "wire \<times> (nat \<Rightarrow> net_thread)"

text \<open>What libcurl promises of a round: a handle is done once, and while it is in the multi handle.\<close>

definition done_handles :: "reply list \<Rightarrow> nat list" where
  "done_handles rs = map r_handle (filter r_done rs)"

definition proper_round :: "reply list \<Rightarrow> net \<Rightarrow> bool" where
  "proper_round rs s \<longleftrightarrow> distinct (done_handles rs) \<and> set (done_handles rs) \<subseteq> set (multi s)"

text \<open>The handle whose message a thread is at.\<close>

fun in_msg :: "net_pc \<Rightarrow> nat option" where
  "in_msg (Msg_stat r q) = Some (r_handle r)"
| "in_msg (Msg_remove r q) = Some (r_handle r)"
| "in_msg (Msg_free r q) = Some (r_handle r)"
| "in_msg _ = None"

definition busy :: "(nat \<Rightarrow> net_thread) \<Rightarrow> nat \<Rightarrow> bool" where
  "busy th h \<longleftrightarrow> (\<exists>u. in_msg (fst (th u)) = Some h)"

text \<open>
  With \<open>careful\<close>, no thread gives up a transfer while another is at its message; the code does not
  see to that.
\<close>

inductive net_move :: "ConfigStruct \<Rightarrow> bool \<Rightarrow> net_state \<Rightarrow> net_state \<Rightarrow> bool" for cfg careful where
  "net_step cfg t rs (th t) w = Returns (p, w') \<Longrightarrow>
   (fst (th t) = Perform \<longrightarrow> proper_round rs (curl w)) \<Longrightarrow>
   (careful \<longrightarrow> (\<forall>h ops. th t = (Idle, Release h # ops) \<longrightarrow> \<not> busy th h)) \<Longrightarrow>
   net_move cfg careful (w, th) (w', th(t := p))"

section \<open>The invariant\<close>

fun in_lock :: "net_pc \<Rightarrow> bool" where
  "in_lock Idle = False"
| "in_lock At_add = False"
| "in_lock Polling = False"
| "in_lock At_once = False"
| "in_lock _ = True"

text \<open>The thread has added its handle and waits for the end of the transfer.\<close>

fun past_add :: "net_pc \<Rightarrow> bool" where
  "past_add Idle = False"
| "past_add At_add = False"
| "past_add Add_handle = False"
| "past_add (Add_unlock polls) = polls"
| "past_add _ = True"

fun pending :: "net_pc \<Rightarrow> nat list" where
  "pending (Messages q) = done_handles q"
| "pending (Msg_stat r q) = done_handles q"
| "pending (Msg_remove r q) = done_handles q"
| "pending (Msg_free r q) = done_handles q"
| "pending _ = []"

fun before_remove :: "net_pc \<Rightarrow> bool" where
  "before_remove (Msg_stat r q) = True"
| "before_remove (Msg_remove r q) = True"
| "before_remove _ = False"

fun head_fits :: "net_pc \<Rightarrow> net_op list \<Rightarrow> bool" where
  "head_fits Idle ops = True"
| "head_fits (Add_unlock polls) ops = (polls \<longrightarrow> (\<exists>h ops'. ops = Blocking h # ops'))"
| "head_fits At_add ops = (\<exists>h ops'. ops = Blocking h # ops' \<or> ops = Nonblocking h # ops')"
| "head_fits Add_handle ops = (\<exists>h ops'. ops = Blocking h # ops' \<or> ops = Nonblocking h # ops')"
| "head_fits Polling ops = (\<exists>h ops'. ops = Blocking h # ops')"
| "head_fits _ ops = (\<exists>h ops'. ops = Blocking h # ops' \<or> ops = Perform_once # ops')"

fun op_handle :: "net_op \<Rightarrow> nat option" where
  "op_handle (Blocking h) = Some h"
| "op_handle (Release h) = Some h"
| "op_handle (Nonblocking h) = Some h"
| "op_handle Perform_once = None"

definition uses :: "net_op list \<Rightarrow> nat \<Rightarrow> bool" where
  "uses ops h \<longleftrightarrow> Some h \<in> op_handle ` set ops"

text \<open>Nothing is done with a handle after its end, and a request is started once.\<close>

fun ops_ok :: "net_op list \<Rightarrow> bool" where
  "ops_ok [] = True"
| "ops_ok (Blocking h # ops) = ops_ok ops"
| "ops_ok (Release h # ops) = (\<not> uses ops h \<and> ops_ok ops)"
| "ops_ok (Nonblocking h # ops) = (\<not> uses ops h \<and> ops_ok ops)"
| "ops_ok (Perform_once # ops) = ops_ok ops"

definition has_type :: "TransferType \<Rightarrow> net \<Rightarrow> nat \<Rightarrow> bool" where
  "has_type k s h \<longleftrightarrow> map_option ts_type (ts_of s h) = Some k"

definition lock_inv :: "wire \<Rightarrow> (nat \<Rightarrow> net_thread) \<Rightarrow> bool" where
  "lock_inv w th \<longleftrightarrow> mutex_type (transfer_lock w) = Errorcheck \<and>
    (\<forall>t. in_lock (fst (th t)) \<longleftrightarrow> holder (transfer_lock w) = Some t)"

definition ops_inv :: "(nat \<Rightarrow> net_thread) \<Rightarrow> bool" where
  "ops_inv th \<longleftrightarrow> (\<forall>t. head_fits (fst (th t)) (snd (th t)) \<and> ops_ok (snd (th t))) \<and>
    (\<forall>t u h. uses (snd (th t)) h \<longrightarrow> uses (snd (th u)) h \<longrightarrow> t = u)"

definition type_inv :: "net \<Rightarrow> (nat \<Rightarrow> net_thread) \<Rightarrow> bool" where
  "type_inv s th \<longleftrightarrow> (\<forall>t h.
    (Blocking h \<in> set (snd (th t)) \<or> Release h \<in> set (snd (th t)) \<longrightarrow> has_type DATA s h) \<and>
    (Nonblocking h \<in> set (snd (th t)) \<longrightarrow> has_type FILESTAT s h \<and> h \<notin> set (multi s) \<and> \<not> busy th h))"

definition multi_inv :: "net \<Rightarrow> (nat \<Rightarrow> net_thread) \<Rightarrow> bool" where
  "multi_inv s th \<longleftrightarrow> distinct (multi s) \<and>
    (\<forall>h \<in> set (multi s). ts_of s h \<noteq> None \<and>
      (has_type DATA s h \<longrightarrow> \<not> busy th h \<longrightarrow> still_transferring h s \<and>
         (\<exists>t ops. snd (th t) = Blocking h # ops \<and> past_add (fst (th t)))))"

definition wait_inv :: "net \<Rightarrow> (nat \<Rightarrow> net_thread) \<Rightarrow> bool" where
  "wait_inv s th \<longleftrightarrow> (\<forall>t h ops. snd (th t) = Blocking h # ops \<longrightarrow>
    (past_add (fst (th t)) \<longrightarrow> still_transferring h s \<longrightarrow> h \<in> set (multi s) \<and> \<not> busy th h) \<and>
    (fst (th t) = At_add \<or> fst (th t) = Add_handle \<longrightarrow> still_transferring h s))"

definition msg_inv :: "net \<Rightarrow> (nat \<Rightarrow> net_thread) \<Rightarrow> bool" where
  "msg_inv s th \<longleftrightarrow> (\<forall>u. let p = fst (th u) in
    distinct (pending p) \<and> set (pending p) \<subseteq> set (multi s) \<and>
    (\<forall>h. in_msg p = Some h \<longrightarrow> ts_of s h \<noteq> None \<and> h \<notin> set (pending p) \<and> (h \<in> set (multi s) \<longleftrightarrow> before_remove p)))"

definition net_ok :: "net_state \<Rightarrow> bool" where
  "net_ok x \<longleftrightarrow> lock_inv (fst x) (snd x) \<and> ops_inv (snd x) \<and> type_inv (curl (fst x)) (snd x) \<and>
    multi_inv (curl (fst x)) (snd x) \<and> wait_inv (curl (fst x)) (snd x) \<and> msg_inv (curl (fst x)) (snd x)"

definition net_start :: "net_state \<Rightarrow> bool" where
  "net_start x \<longleftrightarrow> transfer_lock (fst x) = \<lparr>mutex_type = Errorcheck, holder = None\<rparr> \<and> multi (curl (fst x)) = [] \<and>
    (\<forall>t. fst (snd x t) = Idle) \<and> ops_inv (snd x) \<and> type_inv (curl (fst x)) (snd x)"

lemma net_start_ok: "net_start x \<Longrightarrow> net_ok x"
  by (auto simp: net_start_def net_ok_def lock_inv_def multi_inv_def wait_inv_def msg_inv_def)

lemma uses_Cons [simp]: "uses (op # ops) h \<longleftrightarrow> op_handle op = Some h \<or> uses ops h"
  by (auto simp: uses_def)

text \<open>The steps that return, by their effect, when the lock is error-checking.\<close>

inductive net_does :: "ConfigStruct \<Rightarrow> nat \<Rightarrow> reply list \<Rightarrow> wire \<Rightarrow> net_thread \<Rightarrow> net_thread \<Rightarrow> wire \<Rightarrow> bool" for cfg t rs w where
  does_flag: "ts_of (curl w) h = Some ts \<Longrightarrow> net_does cfg t rs w (Idle, Blocking h # ops) (At_add, Blocking h # ops)
    (w\<lparr>curl := (curl w)\<lparr>ts_of := (ts_of (curl w))(h \<mapsto> ts\<lparr>transferring := True\<rparr>)\<rparr>\<rparr>)"
| does_begin: "pc = At_add \<and> ops = Nonblocking h # ops' \<or> pc = At_once \<and> ops = Perform_once # ops' \<Longrightarrow>
    net_does cfg t rs w (Idle, ops) (pc, ops) w"
| does_release: "ts_of (curl w) h \<noteq> None \<Longrightarrow> net_does cfg t rs w (Idle, Release h # ops) (Idle, ops)
    (w\<lparr>curl := (curl w)\<lparr>ts_of := (ts_of (curl w))(h := None), multi := remove1 h (multi (curl w))\<rparr>\<rparr>)"
| does_lock: "pc = At_add \<and> pc' = Add_handle \<or> pc = At_once \<and> pc' = Perform \<Longrightarrow> holder (transfer_lock w) = None \<Longrightarrow>
    net_does cfg t rs w (pc, ops) (pc', ops) (w\<lparr>transfer_lock := (transfer_lock w)\<lparr>holder := Some t\<rparr>\<rparr>)"
| does_add: "ts_of (curl w) h \<noteq> None \<Longrightarrow> op = Blocking h \<and> b \<and> ops' = op # ops \<or> op = Nonblocking h \<and> \<not> b \<and> ops' = ops \<Longrightarrow>
    net_does cfg t rs w (Add_handle, op # ops) (Add_unlock b, ops') (w\<lparr>curl := transfer_nonblocking h (curl w)\<rparr>)"
| does_unlock: "pc = Add_unlock True \<and> pc' = Polling \<and> ops' = ops \<or> pc = Add_unlock False \<and> pc' = Idle \<and> ops' = ops \<or>
      pc = Once_unlock \<and> pc' = Polling \<and> ops' = ops \<and> ops = Blocking h # ops'' \<or>
      pc = Once_unlock \<and> pc' = Idle \<and> ops = Perform_once # ops' \<Longrightarrow>
    holder (transfer_lock w) = Some t \<Longrightarrow>
    net_does cfg t rs w (pc, ops) (pc', ops') (w\<lparr>transfer_lock := (transfer_lock w)\<lparr>holder := None\<rparr>\<rparr>)"
| does_poll: "ts_of (curl w) h = Some ts \<Longrightarrow>
    pc = At_once \<and> transferring ts \<and> ops' = Blocking h # ops \<or> pc = Idle \<and> \<not> transferring ts \<and> ops' = ops \<Longrightarrow>
    net_does cfg t rs w (Polling, Blocking h # ops) (pc, ops') w"
| does_perform: "net_does cfg t rs w (Perform, ops) (Messages rs, ops) w"
| does_end: "net_does cfg t rs w (Messages [], ops) (Once_unlock, ops) w"
| does_skip: "\<not> r_done r \<Longrightarrow> net_does cfg t rs w (Messages (r # q), ops) (Messages q, ops) w"
| does_clear: "r_done r \<Longrightarrow> msg_clear r (curl w) = Some s \<Longrightarrow>
    net_does cfg t rs w (Messages (r # q), ops) (Msg_stat r q, ops) (w\<lparr>curl := s\<rparr>)"
| does_stat: "msg_stat cfg r (curl w) = Some s \<Longrightarrow> net_does cfg t rs w (Msg_stat r q, ops) (Msg_remove r q, ops) (w\<lparr>curl := s\<rparr>)"
| does_remove: "msg_remove r (curl w) = Some s \<Longrightarrow> net_does cfg t rs w (Msg_remove r q, ops) (Msg_free r q, ops) (w\<lparr>curl := s\<rparr>)"
| does_free: "msg_free r (curl w) = Some s \<Longrightarrow> net_does cfg t rs w (Msg_free r q, ops) (Messages q, ops) (w\<lparr>curl := s\<rparr>)"

lemma got_lock_locked [simp]:
  "mutex_type (transfer_lock w) = Errorcheck \<Longrightarrow>
    got_lock p w (pthread_mutex_lock_wrapper t (transfer_lock w)) = Returns (p', w') \<longleftrightarrow>
    p' = p \<and> holder (transfer_lock w) = None \<and> w' = w\<lparr>transfer_lock := (transfer_lock w)\<lparr>holder := Some t\<rparr>\<rparr>"
  "mutex_type (transfer_lock w) = Errorcheck \<Longrightarrow>
    got_lock p w (pthread_mutex_unlock_wrapper t (transfer_lock w)) = Returns (p', w') \<longleftrightarrow>
    p' = p \<and> holder (transfer_lock w) = Some t \<and> w' = w\<lparr>transfer_lock := (transfer_lock w)\<lparr>holder := None\<rparr>\<rparr>"
  by (auto simp: got_lock_def errorcheck_wrappers split: option.splits)

lemma after_msg_Returns [simp]: "after_msg p w r = Returns (p', w') \<longleftrightarrow> (\<exists>s. r = Some s \<and> p' = p \<and> w' = w\<lparr>curl := s\<rparr>)"
  by (auto simp: after_msg_def split: option.splits)

lemma net_step_does:
  assumes "net_step cfg t rs x w = Returns (p, w')" "mutex_type (transfer_lock w) = Errorcheck"
  shows "net_does cfg t rs w x p w'"
  by (rule net_step.elims [OF assms(1)]; use assms(2) in
      \<open>auto intro: net_does.intros split: option.splits if_splits
        simp: eq_commute [of "Returns _" "got_lock _ _ _"] eq_commute [of "Returns _" "after_msg _ _ _"]\<close>)

lemma ops_one: "ops_inv th \<Longrightarrow> uses (snd (th t)) h \<Longrightarrow> uses (snd (th u)) h \<Longrightarrow> t = u"
  by (simp add: ops_inv_def)

lemma busy_in_lock:
  assumes "lock_inv w th" "in_lock (fst (th t))"
  shows "busy th h \<longleftrightarrow> in_msg (fst (th t)) = Some h"
proof -
  have "u = t" if "in_msg (fst (th u)) = Some h" for u
  proof -
    have "in_lock (fst (th u))" using that by (cases "fst (th u)") auto
    with assms show ?thesis by (simp add: lock_inv_def)
  qed
  then show ?thesis unfolding busy_def by blast
qed

lemma at_clear:
  assumes "net_does cfg t rs w x p w'" "in_msg (fst p) = Some h" "in_msg (fst x) \<noteq> Some h"
  shows "\<exists>r q ops. x = (Messages (r # q), ops) \<and> r_done r \<and> r_handle r = h"
  using assms(1) by cases (use assms(2,3) in auto)

lemma busy_upd:
  assumes "lock_inv w th" "net_does cfg t rs w (th t) p w'"
  shows "busy (th(t := p)) h \<longleftrightarrow> (if in_lock (fst (th t)) then in_msg (fst p) = Some h else busy th h)"
proof -
  have o: "in_msg (fst (th u)) = None" if "in_lock (fst (th t))" "u \<noteq> t" for u
    using assms(1) that by (cases "fst (th u)") (auto simp: lock_inv_def)
  have n: "in_msg (fst p) = None \<and> in_msg (fst (th t)) = None" if "\<not> in_lock (fst (th t))"
    using assms(2) that by cases auto
  show ?thesis
  proof (cases "in_lock (fst (th t))")
    case True
    with o show ?thesis unfolding busy_def by (metis fun_upd_apply option.distinct(1))
  next
    case False
    with n show ?thesis unfolding busy_def by (metis fun_upd_apply option.distinct(1))
  qed
qed

lemma lock_step:
  assumes "lock_inv w th" "net_does cfg t rs w (th t) p w'"
  shows "lock_inv w' (th(t := p))"
proof -
  have h: "\<And>u. in_lock (fst (th u)) \<longleftrightarrow> holder (transfer_lock w) = Some u" and e: "mutex_type (transfer_lock w) = Errorcheck"
    using assms(1) by (simp_all add: lock_inv_def)
  show ?thesis using assms(2)
    by cases (use e h [of t] in \<open>auto simp: lock_inv_def h\<close>)
qed

lemma ops_step:
  assumes "ops_inv th" "net_does cfg t rs w (th t) p w'"
  shows "ops_inv (th(t := p))"
proof -
  have o: "head_fits (fst (th t)) (snd (th t))" "ops_ok (snd (th t))" using assms(1) by (simp_all add: ops_inv_def)
  have "head_fits (fst p) (snd p) \<and> ops_ok (snd p) \<and> (\<forall>h. uses (snd p) h \<longrightarrow> uses (snd (th t)) h)"
    using assms(2) by cases (use o in auto)
  with assms(1) show ?thesis by (simp add: ops_inv_def) blast
qed

lemmas msg_defs = msg_clear_def msg_stat_def msg_remove_def msg_free_def

lemma has_type_step:
  assumes "net_does cfg t rs w x p w'" "has_type k (curl w) h" "\<forall>ops. x \<noteq> (Idle, Release h # ops)"
    "k = FILESTAT \<longrightarrow> in_msg (fst x) \<noteq> Some h"
  shows "has_type k (curl w') h"
  using assms(1)
  by cases (use assms(2-4) in \<open>auto simp: has_type_def msg_defs transfer_nonblocking_def
      split: option.splits if_splits TransferType.splits\<close>)

lemma multi_step_in:
  assumes "net_does cfg t rs w x p w'" "h \<in> set (multi (curl w'))"
  shows "h \<in> set (multi (curl w)) \<or> (\<exists>op ops. x = (Add_handle, op # ops) \<and> (op = Blocking h \<or> op = Nonblocking h))"
  using assms(1)
  by cases (use assms(2) in \<open>auto simp: msg_defs transfer_nonblocking_def
      split: option.splits if_splits TransferType.splits dest: set_remove1_subset [THEN subsetD]\<close>)

lemma ops_shrink: "net_does cfg t rs w x p w' \<Longrightarrow> set (snd p) \<subseteq> set (snd x)"
  by (erule net_does.cases) auto

lemma uses_in: "Blocking h \<in> set ops \<Longrightarrow> uses ops h" "Release h \<in> set ops \<Longrightarrow> uses ops h" "Nonblocking h \<in> set ops \<Longrightarrow> uses ops h"
  unfolding uses_def by (metis op_handle.simps image_eqI)+

lemma type_step:
  assumes ok: "net_ok (w, th)" and d: "net_does cfg t rs w (th t) p w'"
  shows "type_inv (curl w') (th(t := p))"
proof -
  have li: "lock_inv w th" and oi: "ops_inv th" and ti: "type_inv (curl w) th" and mi: "msg_inv (curl w) th"
    using ok by (simp_all add: net_ok_def)
  have oi': "ops_inv (th(t := p))" by (rule ops_step [OF oi d])
  have T: "Blocking h \<in> set (snd (th u)) \<or> Release h \<in> set (snd (th u)) \<Longrightarrow> has_type DATA (curl w) h"
    "Nonblocking h \<in> set (snd (th u)) \<Longrightarrow> has_type FILESTAT (curl w) h \<and> h \<notin> set (multi (curl w)) \<and> \<not> busy th h" for u h
    using ti unfolding type_inv_def by blast+
  have one: "uses (snd (th u)) h \<Longrightarrow> uses (snd (th v)) h \<Longrightarrow> u = v" for u v h using oi by (simp add: ops_inv_def)
  have sub: "op \<in> set (snd ((th(t := p)) u)) \<Longrightarrow> op \<in> set (snd (th u))" for u op
    using ops_shrink [OF d] by (auto split: if_splits)
  have rel: "\<forall>ops. th t \<noteq> (Idle, Release h # ops)" if "uses (snd ((th(t := p)) u)) h" for u h
  proof (intro allI notI)
    fix ops assume a: "th t = (Idle, Release h # ops)"
    with d have "p = (Idle, ops)" by cases auto
    moreover have "\<not> uses ops h" using oi a by (auto simp: ops_inv_def dest!: spec [of _ t])
    moreover have "u = t" using that one [of u h t] a by (auto split: if_splits)
    ultimately show False using that by simp
  qed
  have b: "Blocking h \<in> set (snd ((th(t := p)) u)) \<or> Release h \<in> set (snd ((th(t := p)) u)) \<longrightarrow> has_type DATA (curl w') h" for u h
    using has_type_step [OF d, of DATA h] T(1) sub rel uses_in by (metis TransferType.distinct(1))
  have nb: "has_type FILESTAT (curl w') h \<and> h \<notin> set (multi (curl w')) \<and> \<not> busy (th(t := p)) h"
    if n: "Nonblocking h \<in> set (snd ((th(t := p)) u))" for u h
  proof (intro conjI)
    note n' = T(2) [OF sub [OF n]]
    have im: "in_msg (fst (th t)) \<noteq> Some h" using n' by (auto simp: busy_def)
    show "has_type FILESTAT (curl w') h" using has_type_step [OF d] n' im rel [OF uses_in(3) [OF n]] by blast
    show "h \<notin> set (multi (curl w'))"
    proof
      assume "h \<in> set (multi (curl w'))"
      then obtain op ops where a: "th t = (Add_handle, op # ops)" "op = Blocking h \<or> op = Nonblocking h"
        using multi_step_in [OF d] n' by blast
      have "op \<noteq> Blocking h" using T(1) [of h t] n' a by (auto simp: has_type_def)
      with a have a: "th t = (Add_handle, Nonblocking h # ops)" by simp
      with d have "p = (Add_unlock False, ops)" by cases auto
      moreover have "\<not> uses ops h" using oi a by (auto simp: ops_inv_def dest!: spec [of _ t])
      moreover have "u = t" using one [OF uses_in(3) [OF sub [OF n]], of t] a by simp
      ultimately show False using uses_in(3) [OF n] by simp
    qed
    show "\<not> busy (th(t := p)) h"
    proof
      assume "busy (th(t := p)) h"
      then have i: "in_msg (fst p) = Some h" using busy_upd [OF li d] n' by (auto split: if_splits)
      then obtain r q ops where "th t = (Messages (r # q), ops)" "r_done r" "r_handle r = h"
        using at_clear [OF d _ im] by blast
      then have "h \<in> set (pending (fst (th t)))" by (simp add: done_handles_def)
      with mi n' show False by (auto simp: msg_inv_def Let_def dest!: spec [of _ t])
    qed
  qed
  from b nb show ?thesis unfolding type_inv_def by blast
qed

lemma owner_keeps:
  assumes "net_does cfg t rs w (th t) p w'" "snd (th v) = Blocking h # ops" "past_add (fst (th v))" "still_transferring h (curl w)"
  shows "snd ((th(t := p)) v) = Blocking h # ops \<and> past_add (fst ((th(t := p)) v))"
proof (cases "v = t")
  case True
  show ?thesis using assms(1) by cases (use assms(2-4) True in \<open>auto simp: still_transferring_def\<close>)
qed (use assms in simp)

lemma flag_keeps:
  assumes "net_does cfg t rs w x p w'" "still_transferring h (curl w)" "has_type DATA (curl w) h"
    "\<forall>ops. x \<noteq> (Idle, Release h # ops)" "in_msg (fst p) = Some h \<longrightarrow> in_msg (fst x) = Some h"
  shows "still_transferring h (curl w')"
  using assms(1)
  by cases (use assms(2-5) in \<open>auto simp: still_transferring_def has_type_def msg_defs transfer_nonblocking_def
      split: option.splits if_splits TransferType.splits\<close>)

lemma flag_was:
  assumes "net_does cfg t rs w x p w'" "still_transferring h (curl w')" "\<forall>ops. x \<noteq> (Idle, Blocking h # ops)"
  shows "still_transferring h (curl w) \<and> (in_msg (fst p) = Some h \<longrightarrow> in_msg (fst x) = Some h)"
  using assms(1)
  by cases (use assms(2-3) in \<open>auto simp: still_transferring_def msg_defs transfer_nonblocking_def
      split: option.splits if_splits TransferType.splits\<close>)

lemma not_there:
  assumes ok: "net_ok (w, th)" and a: "snd (th t) = op # ops" "op_handle op = Some h"
    "has_type DATA (curl w) h" "\<not> busy th h" "\<not> past_add (fst (th t)) \<or> op = Release h"
  shows "h \<notin> set (multi (curl w))"
proof
  assume "h \<in> set (multi (curl w))"
  then obtain v ops' where v: "snd (th v) = Blocking h # ops'" "past_add (fst (th v))"
    using ok a(3,4) by (auto simp: net_ok_def multi_inv_def)
  then have "v = t" using ok a(1,2) ops_one [of th v h t] by (simp add: net_ok_def)
  with v a show False by simp
qed

lemma head_type:
  assumes "net_ok (w, th)" "snd (th t) = op # ops"
  shows "op = Blocking h \<or> op = Release h \<Longrightarrow> has_type DATA (curl w) h"
    "op = Nonblocking h \<Longrightarrow> has_type FILESTAT (curl w) h \<and> h \<notin> set (multi (curl w)) \<and> \<not> busy th h"
  using assms unfolding net_ok_def type_inv_def by (metis fst_conv snd_conv list.set_intros(1))+

lemma add_new:
  assumes ok: "net_ok (w, th)" and a: "th t = (Add_handle, op # ops)" "op = Blocking h \<or> op = Nonblocking h"
  shows "h \<notin> set (multi (curl w))"
proof -
  have "\<not> busy th h" using ok a(1) busy_in_lock [of w th t h] by (simp add: net_ok_def)
  with not_there [OF ok, of t op ops h] head_type [OF ok, of t op ops h] a show ?thesis by auto
qed

lemma not_released:
  assumes "ops_inv th" "snd (th u) = op # ops" "op_handle op = Some h" "op \<noteq> Release h \<or> fst (th u) \<noteq> Idle"
  shows "\<forall>ops'. th t \<noteq> (Idle, Release h # ops')"
proof (intro allI notI)
  fix ops' assume t: "th t = (Idle, Release h # ops')"
  then have "t = u" using ops_one [OF assms(1), of t h u] assms(2,3) by simp
  with t assms(2-4) show False by auto
qed

lemma in_multi_keeps:
  assumes "net_does cfg t rs w x p w'" "h \<in> set (multi (curl w))" "\<forall>ops. x \<noteq> (Idle, Release h # ops)" "in_msg (fst x) \<noteq> Some h"
  shows "h \<in> set (multi (curl w'))"
  using assms(1)
proof cases
  case (does_release h' ops)
  with assms(2,3) show ?thesis by (cases "h' = h") simp_all
qed (use assms(2-4) in \<open>auto simp: msg_defs transfer_nonblocking_def split: option.splits if_splits TransferType.splits\<close>)

lemma wait_step:
  assumes ok: "net_ok (w, th)" and d: "net_does cfg t rs w (th t) p w'"
  shows "wait_inv (curl w') (th(t := p))"
  unfolding wait_inv_def
proof (intro allI impI conjI)
  have li: "lock_inv w th" and oi: "ops_inv th" and wi: "wait_inv (curl w) th" and gi: "msg_inv (curl w) th"
    using ok by (simp_all add: net_ok_def)
  fix u h ops assume a: "snd ((th(t := p)) u) = Blocking h # ops"
  {
    assume pa: "past_add (fst ((th(t := p)) u))" and fl: "still_transferring h (curl w')"
    have "h \<in> set (multi (curl w')) \<and> \<not> busy (th(t := p)) h"
    proof (cases "snd (th u) = Blocking h # ops \<and> past_add (fst (th u))")
      case True
      then have nr: "\<forall>ops. th t \<noteq> (Idle, Release h # ops)" by (intro not_released [OF oi, of u]) auto
      have "\<forall>ops. th t \<noteq> (Idle, Blocking h # ops)" using True ops_one [OF oi, of t h u] by auto
      from flag_was [OF d fl this] have f: "still_transferring h (curl w)" "in_msg (fst p) = Some h \<longrightarrow> in_msg (fst (th t)) = Some h"
        by blast+
      with True wi have m: "h \<in> set (multi (curl w))" "\<not> busy th h" unfolding wait_inv_def by blast+
      have i: "in_msg (fst (th t)) \<noteq> Some h" using m(2) by (auto simp: busy_def)
      have "\<not> busy (th(t := p)) h" using busy_upd [OF li d] m(2) f(2) i by (auto split: if_splits)
      with in_multi_keeps [OF d m(1) nr i] show ?thesis by blast
    next
      case False
      then have "u = t" using a pa by (auto split: if_splits)
      with d a pa False have "th t = (Add_handle, Blocking h # ops) \<and> p = (Add_unlock True, Blocking h # ops) \<and> h \<in> set (multi (curl w'))"
        by cases (auto simp: transfer_nonblocking_def split: if_splits)
      then show ?thesis using busy_upd [OF li d] by simp
    qed
  }
  then show "past_add (fst ((th(t := p)) u)) \<Longrightarrow> still_transferring h (curl w') \<Longrightarrow> h \<in> set (multi (curl w'))"
    "past_add (fst ((th(t := p)) u)) \<Longrightarrow> still_transferring h (curl w') \<Longrightarrow> \<not> busy (th(t := p)) h" by blast+
  assume b: "fst ((th(t := p)) u) = At_add \<or> fst ((th(t := p)) u) = Add_handle"
  show "still_transferring h (curl w')"
  proof (cases "u = t \<and> fst (th t) = Idle")
    case True
    from d show ?thesis by cases (use a b True in \<open>auto simp: still_transferring_def\<close>)
  next
    case False
    have u: "snd (th u) = Blocking h # ops" "fst (th u) = At_add \<or> fst (th u) = Add_handle"
      using a b d False by (auto elim: net_does.cases split: if_splits)
    then have f: "still_transferring h (curl w)" using wi unfolding wait_inv_def by metis
    have ht: "has_type DATA (curl w) h" using head_type(1) [OF ok u(1)] by simp
    have "in_msg (fst (th t)) = Some h" if im: "in_msg (fst p) = Some h"
    proof (rule ccontr)
      assume n: "in_msg (fst (th t)) \<noteq> Some h"
      then obtain r q ops where c: "th t = (Messages (r # q), ops)" "r_done r" "r_handle r = h"
        using at_clear [OF d im] by blast
      then have "h \<in> set (pending (fst (th t)))" by (simp add: done_handles_def)
      then have m: "h \<in> set (multi (curl w))" using gi by (auto simp: msg_inv_def Let_def)
      have "\<not> busy th h" using busy_in_lock [OF li, of t h] c(1) by simp
      then show False using not_there [OF ok u(1) _ ht] u(2) m by auto
    qed
    with flag_keeps [OF d f ht not_released [OF oi u(1)]] show ?thesis by auto
  qed
qed

lemma multi_step:
  assumes ok: "net_ok (w, th)" and d: "net_does cfg t rs w (th t) p w'"
  shows "multi_inv (curl w') (th(t := p))"
proof -
  have li: "lock_inv w th" and oi: "ops_inv th" and mi: "multi_inv (curl w) th" and gi: "msg_inv (curl w) th"
    and wi: "wait_inv (curl w) th" using ok by (simp_all add: net_ok_def)
  have ds: "distinct (multi (curl w))" using mi by (simp add: multi_inv_def)
  have ds': "distinct (multi (curl w'))" using d
    by cases (use ds add_new [OF ok, of t] in \<open>auto simp: msg_defs transfer_nonblocking_def
        split: option.splits if_splits TransferType.splits\<close>)
  have gone: "h \<notin> set (multi (curl w'))" if "th t = (Idle, Release h # ops)" for h ops
    using d by cases (use that ds in auto)
  have freed: "h \<notin> set (multi (curl w))" if "in_msg (fst (th t)) = Some h" "in_msg (fst p) \<noteq> Some h" for h
  proof -
    have "\<not> before_remove (fst (th t))" using d by cases (use that in auto)
    then show ?thesis using gi that(1) by (auto simp: msg_inv_def Let_def)
  qed
  have "ts_of (curl w') h \<noteq> None \<and> (has_type DATA (curl w') h \<longrightarrow> \<not> busy (th(t := p)) h \<longrightarrow>
      still_transferring h (curl w') \<and> (\<exists>t' ops. snd ((th(t := p)) t') = Blocking h # ops \<and> past_add (fst ((th(t := p)) t'))))"
    if h: "h \<in> set (multi (curl w'))" for h
  proof (cases "h \<in> set (multi (curl w))")
    case False
    then obtain op ops where a: "th t = (Add_handle, op # ops)" "op = Blocking h \<or> op = Nonblocking h"
      using multi_step_in [OF d h] by blast
    have ts: "ts_of (curl w') = ts_of (curl w)" using d by cases (use a(1) in \<open>auto simp: transfer_nonblocking_def\<close>)
    show ?thesis
    proof (cases "op = Blocking h")
      case True
      have "p = (Add_unlock True, Blocking h # ops)" using d by cases (use a(1) True in auto)
      moreover have "still_transferring h (curl w)"
        using wi a(1) True unfolding wait_inv_def by (metis fst_conv snd_conv)
      then have "still_transferring h (curl w')" using ts by (simp add: still_transferring_def)
      ultimately show ?thesis by (auto simp: still_transferring_def split: option.splits)
    next
      case False
      then have "has_type FILESTAT (curl w) h" using head_type(2) [OF ok, of t op ops h] a by simp
      then show ?thesis by (auto simp: has_type_def ts)
    qed
  next
    case True
    have n: "ts_of (curl w) h \<noteq> None" using True mi by (simp add: multi_inv_def)
    have n': "ts_of (curl w') h \<noteq> None" using d
      by cases (use n gone h freed True in \<open>auto simp: msg_defs transfer_nonblocking_def
        split: option.splits if_splits TransferType.splits\<close>)
    have "still_transferring h (curl w') \<and> (\<exists>t' ops. snd ((th(t := p)) t') = Blocking h # ops \<and> past_add (fst ((th(t := p)) t')))"
      if dt: "has_type DATA (curl w') h" and nb: "\<not> busy (th(t := p)) h"
    proof -
      have dt0: "has_type DATA (curl w) h" using d
        by cases (use dt n' in \<open>auto simp: has_type_def msg_defs transfer_nonblocking_def
          split: option.splits if_splits TransferType.splits\<close>)
      have ip: "in_msg (fst p) \<noteq> Some h" using nb unfolding busy_def by (metis fun_upd_same)
      have "\<not> busy th h" using busy_upd [OF li d, of h] busy_in_lock [OF li, of t h] nb freed [OF _ ip] True by metis
      then obtain v ops where v: "still_transferring h (curl w)" "snd (th v) = Blocking h # ops" "past_add (fst (th v))"
        using mi True dt0 by (auto simp: multi_inv_def)
      have nr: "\<forall>ops. th t \<noteq> (Idle, Release h # ops)" by (rule not_released [OF oi v(2)]) auto
      show ?thesis using flag_keeps [OF d v(1) dt0 nr] ip owner_keeps [of cfg t rs w th p w' v h ops, OF d v(2,3,1)] by blast
    qed
    with n' show ?thesis by blast
  qed
  with ds' show ?thesis unfolding multi_inv_def by blast
qed

text \<open>What \<open>net_move\<close> with \<open>careful\<close> asks of the step.\<close>

definition careful_step :: "net_state \<Rightarrow> nat \<Rightarrow> reply list \<Rightarrow> bool" where
  "careful_step x t rs \<longleftrightarrow> (fst (snd x t) = Perform \<longrightarrow> proper_round rs (curl (fst x))) \<and>
    (\<forall>h ops. snd x t = (Idle, Release h # ops) \<longrightarrow> \<not> busy (snd x) h)"

lemma done_handles_simps [simp]: "done_handles [] = []"
  "done_handles (r # rs) = (if r_done r then r_handle r # done_handles rs else done_handles rs)"
  by (simp_all add: done_handles_def)

lemma msg_step:
  assumes ok: "net_ok (w, th)" and d: "net_does cfg t rs w (th t) p w'" and c: "careful_step (w, th) t rs"
  shows "msg_inv (curl w') (th(t := p))"
  unfolding msg_inv_def Let_def
proof
  have li: "lock_inv w th" and oi: "ops_inv th" and mi: "multi_inv (curl w) th" and gi: "msg_inv (curl w) th"
    using ok by (simp_all add: net_ok_def)
  have ds: "distinct (multi (curl w))" using mi by (simp add: multi_inv_def)
  have g: "distinct (pending (fst (th v)))" "set (pending (fst (th v))) \<subseteq> set (multi (curl w))"
    "in_msg (fst (th v)) = Some h \<Longrightarrow> ts_of (curl w) h \<noteq> None \<and> h \<notin> set (pending (fst (th v))) \<and>
      (h \<in> set (multi (curl w)) \<longleftrightarrow> before_remove (fst (th v)))" for v h
    using gi by (simp_all add: msg_inv_def Let_def)
  fix u
  show "distinct (pending (fst ((th(t := p)) u))) \<and> set (pending (fst ((th(t := p)) u))) \<subseteq> set (multi (curl w')) \<and>
    (\<forall>h. in_msg (fst ((th(t := p)) u)) = Some h \<longrightarrow> ts_of (curl w') h \<noteq> None \<and> h \<notin> set (pending (fst ((th(t := p)) u))) \<and>
      (h \<in> set (multi (curl w')) \<longleftrightarrow> before_remove (fst ((th(t := p)) u))))"
  proof (cases "u = t")
    case True
    show ?thesis using d
      by cases (use True g [of t] c ds in \<open>auto simp: careful_step_def proper_round_def msg_defs
        split: option.splits if_splits TransferType.splits\<close>)
  next
    case False
    show ?thesis
    proof (cases "in_lock (fst (th t))")
      case True
      then have "\<not> in_lock (fst (th u))" using li False by (simp add: lock_inv_def)
      then have "pending (fst (th u)) = [] \<and> in_msg (fst (th u)) = None" by (cases "fst (th u)") simp_all
      with False show ?thesis by simp
    next
      case nl: False
      have "h \<in> set (multi (curl w)) \<longleftrightarrow> h \<in> set (multi (curl w'))" for h
        using d
      proof cases
        case (does_release h' ops)
        then have "h' \<notin> set (multi (curl w))"
          using c head_type(1) [OF ok, of t "Release h'" ops h'] by (intro not_there [OF ok, of t "Release h'" ops]) (auto simp: careful_step_def)
        then show ?thesis using does_release by (simp add: remove1_idem)
      qed (use nl in auto)
      moreover have "in_msg (fst (th u)) = Some h \<Longrightarrow> ts_of (curl w) h \<noteq> None \<Longrightarrow> ts_of (curl w') h \<noteq> None" for h
        using d by cases (use nl c in \<open>auto simp: careful_step_def busy_def\<close>)
      ultimately show ?thesis using g [of u] False by auto
    qed
  qed
qed

lemma net_ok_step:
  assumes ok: "net_ok x" and st: "net_step cfg t rs (snd x t) (fst x) = Returns (p, w')" and c: "careful_step x t rs"
  shows "net_ok (w', (snd x)(t := p))"
proof -
  obtain w th where x: "x = (w, th)" by fastforce
  have "net_does cfg t rs w (th t) p w'" using st ok by (intro net_step_does) (simp_all add: x net_ok_def lock_inv_def)
  note d = this
  have k: "net_ok (w, th)" using ok by (simp add: x)
  then have "lock_inv w th" "ops_inv th" by (simp_all add: net_ok_def)
  then have "lock_inv w' (th(t := p))" "ops_inv (th(t := p))" using lock_step [of w th cfg t rs p w'] ops_step [of th cfg t rs w p w'] d
    by simp_all
  then show ?thesis using type_step [OF k d] multi_step [OF k d] wait_step [OF k d] msg_step [OF k d] c
    by (simp add: x net_ok_def)
qed

inductive_cases net_moveE: "net_move cfg careful x y"

lemma net_moveI:
  assumes "net_step cfg t rs (th t) w = Returns (p, w')" "fst (th t) = Perform \<longrightarrow> proper_round rs (curl w)"
    "careful \<longrightarrow> (\<forall>h ops. th t = (Idle, Release h # ops) \<longrightarrow> \<not> busy th h)"
  shows "net_move cfg careful (w, th) (w', th(t := p))"
  using net_move.intros [of cfg t rs th w p w' careful] assms by blast

interpretation netw: machine net_start "net_move cfg True" net_ok for cfg
proof
  show "net_start s \<Longrightarrow> net_ok s" for s by (rule net_start_ok)
  fix s s' assume "net_move cfg True s s'" "net_ok s"
  then show "net_ok s'"
    by (auto elim!: net_moveE simp: careful_step_def intro!: net_ok_step [of "(w, th)" for w th, simplified])
qed

section \<open>Steps that are defined\<close>

lemma has_type_some: "has_type k s h \<Longrightarrow> \<exists>ts. ts_of s h = Some ts \<and> ts_type ts = k"
  by (auto simp: has_type_def)

lemma ok_head_there:
  assumes "net_ok (w, th)" "snd (th t) = op # ops" "op_handle op = Some h"
  shows "\<exists>ts. ts_of (curl w) h = Some ts"
  using assms head_type [OF assms(1,2), of h] has_type_some by (cases op) (auto, blast+)

lemma ok_msg_there:
  assumes "net_ok (w, th)" "in_msg (fst (th t)) = Some h \<or> (\<exists>q ops r. th t = (Messages (r # q), ops) \<and> r_done r \<and> r_handle r = h)"
  shows "\<exists>ts. ts_of (curl w) h = Some ts"
proof -
  have "ts_of (curl w) h \<noteq> None"
  proof (cases "in_msg (fst (th t)) = Some h")
    case True
    with assms(1) show ?thesis by (simp add: net_ok_def msg_inv_def Let_def)
  next
    case False
    with assms(2) have "h \<in> set (pending (fst (th t)))" by auto
    with assms(1) have "h \<in> set (multi (curl w))" by (auto simp: net_ok_def msg_inv_def Let_def)
    with assms(1) show ?thesis by (simp add: net_ok_def multi_inv_def)
  qed
  then show ?thesis by simp
qed

lemma locked_defined:
  assumes "mutex_type m = Errorcheck" "transfer_lock w = m"
  shows "holder m \<noteq> Some t \<Longrightarrow> got_lock p w (pthread_mutex_lock_wrapper t m) \<in> {Waits} \<union> range Returns"
    "holder m = Some t \<Longrightarrow> got_lock p w (pthread_mutex_unlock_wrapper t m) \<in> range Returns"
    "holder m = None \<Longrightarrow> got_lock p w (pthread_mutex_lock_wrapper t m) \<in> range Returns"
  using assms by (auto simp: got_lock_def errorcheck_wrappers split: option.split)

text \<open>A step returns, unless the thread is finished or the lock is taken by another.\<close>

lemma ok_step_defined:
  assumes ok: "net_ok (w, th)"
  shows "net_step cfg t rs (th t) w \<in> range Returns \<or> net_step cfg t rs (th t) w = Waits \<and>
    (th t = (Idle, []) \<or> (\<exists>u. u \<noteq> t \<and> in_lock (fst (th u))))"
proof -
  have e: "mutex_type (transfer_lock w) = Errorcheck" and l: "in_lock (fst (th u)) \<longleftrightarrow> holder (transfer_lock w) = Some u" for u
    using ok by (simp_all add: net_ok_def lock_inv_def)
  obtain pc ops where th: "th t = (pc, ops)" by fastforce
  have hd: "head_fits pc ops" using ok th by (auto simp: net_ok_def ops_inv_def dest!: spec [of _ t])
  have there: "\<exists>ts. ts_of (curl w) h = Some ts" if "ops = op # ops'" "op_handle op = Some h" for op ops' h
    using ok_head_there [OF ok, of t op ops' h] that th by simp
  have msg: "\<exists>ts. ts_of (curl w) h = Some ts" if "in_msg pc = Some h" for h
    using ok_msg_there [OF ok, of t h] that th by simp
  have clr: "\<exists>ts. ts_of (curl w) (r_handle r) = Some ts" if "pc = Messages (r # q)" "r_done r" for r q
    using ok_msg_there [OF ok, of t "r_handle r"] that th by auto
  note ld = locked_defined [OF e refl]
  have lk: "got_lock p w (pthread_mutex_lock_wrapper t (transfer_lock w)) \<in> range Returns \<or>
      got_lock p w (pthread_mutex_lock_wrapper t (transfer_lock w)) = Waits \<and> (\<exists>u. u \<noteq> t \<and> in_lock (fst (th u)))"
    if "\<not> in_lock pc" for p
  proof (cases "holder (transfer_lock w)")
    case (Some u)
    then have "u \<noteq> t" "in_lock (fst (th u))" using l [of u] l [of t] that th by auto
    with ld(1) [of t p] Some show ?thesis by auto
  qed (use ld(3) in blast)
  have ul: "got_lock p w (pthread_mutex_unlock_wrapper t (transfer_lock w)) \<in> range Returns" if "in_lock pc" for p
    using ld(2) [of t p] l [of t] that th by simp
  show ?thesis
  proof (cases pc)
    case Idle
    show ?thesis
    proof (cases ops)
      case (Cons op ops')
      then show ?thesis using Idle th there [OF Cons] by (cases op) auto
    qed (simp add: Idle th)
  next
    case Polling
    then obtain h ops' where o: "ops = Blocking h # ops'" using hd by auto
    with there [OF o] Polling th show ?thesis by auto
  next
    case (Messages q)
    then show ?thesis using th clr by (cases q) (auto simp: after_msg_def msg_clear_def)
  qed (use th hd lk ul there msg in \<open>auto simp: after_msg_def msg_defs\<close>)
qed

section \<open>Properties\<close>

text \<open>
  C9.  As long as no thread gives up a transfer while another one is at its message, threads that
  share the multi handle are safe in every interleaving: one at a time is between the lock and
  the unlock, no step ends the process or touches a transfer that is gone, some thread can go on
  unless all are finished, and the handle of a thread that waits is in the multi handle as long
  as its transfer is not marked as ended.
\<close>

theorem transfers_safe:
  assumes "net_start x0" "(net_move cfg True)\<^sup>*\<^sup>* x0 x"
  shows "(\<forall>t u. in_lock (fst (snd x t)) \<longrightarrow> in_lock (fst (snd x u)) \<longrightarrow> t = u) \<and>
    (\<forall>t rs. net_step cfg t rs (snd x t) (fst x) \<noteq> Exits \<and> net_step cfg t rs (snd x t) (fst x) \<noteq> Undefined) \<and>
    ((\<forall>t. snd x t = (Idle, [])) \<or> (\<exists>y. net_move cfg True x y)) \<and>
    (\<forall>t h ops. snd x t = (Polling, Blocking h # ops) \<longrightarrow> still_transferring h (curl (fst x)) \<longrightarrow> h \<in> set (multi (curl (fst x))))"
proof -
  obtain w th where x: "x = (w, th)" by fastforce
  have ok: "net_ok (w, th)" using netw.reachable_inv [OF assms] x by simp
  then have l: "in_lock (fst (th u)) \<longleftrightarrow> holder (transfer_lock w) = Some u" for u by (simp add: net_ok_def lock_inv_def)
  have go: "\<exists>y. net_move cfg True x y"
    if r: "net_step cfg t [] (th t) w \<in> range Returns" "\<forall>h ops. th t = (Idle, Release h # ops) \<longrightarrow> \<not> busy th h" for t
  proof -
    obtain z where z: "net_step cfg t [] (th t) w = Returns z" using r(1) by blast
    then have "net_move cfg True (w, th) (snd z, th(t := fst z))"
      using r(2) by (intro net_moveI [where rs = "[]"]) (simp_all add: proper_round_def)
    then show ?thesis unfolding x by blast
  qed
  have "\<exists>y. net_move cfg True x y" if u: "in_lock (fst (th u))" for u
  proof (rule go)
    have "th u \<noteq> (Idle, [])" using u by (metis fst_conv in_lock.simps(1))
    moreover have "\<not> (\<exists>v. v \<noteq> u \<and> in_lock (fst (th v)))" using l u by simp
    ultimately
    show "net_step cfg u [] (th u) w \<in> range Returns" using ok_step_defined [OF ok, of cfg u "[]"] by blast
  qed (use u in auto)
  moreover have "\<exists>y. net_move cfg True x y" if "\<forall>u. \<not> in_lock (fst (th u))" "th t \<noteq> (Idle, [])" for t
  proof (rule go)
    show "net_step cfg t [] (th t) w \<in> range Returns" using ok_step_defined [OF ok, of cfg t "[]"] that by auto
    have "in_msg (fst (th u)) = None" for u using that(1) [rule_format, of u] by (cases "fst (th u)") auto
    then show "\<forall>h ops. th t = (Idle, Release h # ops) \<longrightarrow> \<not> busy th h" by (simp add: busy_def)
  qed
  ultimately have "(\<forall>t. th t = (Idle, [])) \<or> (\<exists>y. net_move cfg True x y)" by blast
  moreover have "net_step cfg t rs (th t) w \<noteq> Exits \<and> net_step cfg t rs (th t) w \<noteq> Undefined" for t rs
    using ok_step_defined [OF ok, of cfg t rs] by auto
  moreover have "h \<in> set (multi (curl w))" if "th t = (Polling, Blocking h # ops)" "still_transferring h (curl w)" for t h ops
    using ok that unfolding net_ok_def wait_inv_def by (metis fst_conv past_add.simps(5) snd_conv)
  ultimately show ?thesis using l by (auto simp: x)
qed

text \<open>A run as a list of turns.\<close>

fun net_run :: "ConfigStruct \<Rightarrow> (nat \<times> reply list) list \<Rightarrow> net_state \<Rightarrow> net_state option" where
  "net_run cfg [] x = Some x"
| "net_run cfg ((t, rs) # turns) (w, th) =
    (if fst (th t) = Perform \<and> \<not> proper_round rs (curl w) then None
     else (case net_step cfg t rs (th t) w of
             Returns (p, w') \<Rightarrow> net_run cfg turns (w', th(t := p))
           | _ \<Rightarrow> None))"

lemma net_run_moves: "net_run cfg turns x = Some y \<Longrightarrow> (net_move cfg False)\<^sup>*\<^sup>* x y"
proof (induction turns arbitrary: x)
  case (Cons tr turns)
  obtain t rs w th where x: "tr = (t, rs)" "x = (w, th)" by (metis prod.collapse)
  with Cons.prems obtain p w' where s: "net_step cfg t rs (th t) w = Returns (p, w')"
    "fst (th t) = Perform \<longrightarrow> proper_round rs (curl w)" "net_run cfg turns (w', th(t := p)) = Some y"
    by (auto split: outcome.splits if_splits)
  have "net_move cfg False x (w', th(t := p))" unfolding x using s(1,2) by (rule net_moveI) simp
  with Cons.IH [OF s(3)] show ?case by simp
qed simp

text \<open>
  Thread 0 downloads, as \<open>Link_download\<close> does: it waits for the transfer of handle 7 and then
  gives the handle and its \<open>TransferStruct\<close> up.  Thread 1 only drives the multi handle.
\<close>

definition race_threads :: "nat \<Rightarrow> net_thread" where
  "race_threads = (\<lambda>_. (Idle, []))(0 := (Idle, [Blocking 7, Release 7]), 1 := (Idle, [Perform_once]))"

definition race_start :: net_state where
  "race_start = (\<lparr>transfer_lock = \<lparr>mutex_type = Errorcheck, holder = None\<rparr>,
     curl = \<lparr>multi = [], ts_of = [7 \<mapsto> \<lparr>ts_type = DATA, ts_link = None, transferring = False\<rparr>],
       next_handle = 8, tlinks = []\<rparr>\<rparr>, race_threads)"

definition race_reply :: reply where
  "race_reply = \<lparr>r_handle = 7, r_done = True, r_ok = True, r_code = 206, r_length = 10, r_filetime = 0\<rparr>"

definition race_turns :: "(nat \<times> reply list) list" where
  "race_turns = map (\<lambda>t. (t, [race_reply])) [0, 0, 0, 0, 1, 1, 1, 1, 0, 0]"

lemma race_start_ok: "net_start race_start"
proof -
  have "snd (race_threads t) = (if t = 0 then [Blocking 7, Release 7] else if t = 1 then [Perform_once] else [])"
    "fst (race_threads t) = Idle" for t by (simp_all add: race_threads_def)
  then show ?thesis by (auto simp: net_start_def race_start_def ops_inv_def type_inv_def uses_def has_type_def
      split: if_splits)
qed

text \<open>
  \<open>curl_process_msgs\<close> clears \<open>transferring\<close> before it is done with the transfer: from a proper
  start, with two threads that do what the code does, there is an interleaving in which the
  first one leaves the loop of \<open>transfer_blocking\<close> and gives its transfer up, and the next step
  of the second one, still in \<open>curl_process_msgs\<close>, is an access to the transfer that is gone.
\<close>

theorem early_return_race:
  "net_start race_start \<and> (\<exists>x. (net_move cfg False)\<^sup>*\<^sup>* race_start x \<and>
     busy (snd x) 7 \<and> snd x 0 = (Idle, []) \<and> net_step cfg 1 [] (snd x 1) (fst x) = Undefined)"
proof -
  have "\<exists>x. net_run cfg race_turns race_start = Some x \<and> snd x 0 = (Idle, []) \<and>
      in_msg (fst (snd x 1)) = Some 7 \<and> net_step cfg 1 [] (snd x 1) (fst x) = Undefined"
    by (simp add: race_turns_def race_start_def race_threads_def race_reply_def got_lock_def errorcheck_wrappers
        transfer_nonblocking_def proper_round_def after_msg_def msg_defs)
  then show ?thesis using race_start_ok net_run_moves unfolding busy_def by blast
qed

definition demo_net_cfg :: ConfigStruct where
  "demo_net_cfg = Config_init ''httpdirfs'' 15"

theorem transfers_safe_witness:
  "\<exists>x. (net_move demo_net_cfg True)\<^sup>*\<^sup>* race_start x \<and> in_lock (fst (snd x 0)) \<and> (\<forall>u. in_lock (fst (snd x u)) \<longrightarrow> u = 0)"
proof -
  obtain w th where s: "race_start = (w, th)" by fastforce
  have 1: "\<exists>p w1. net_step demo_net_cfg 0 [] (th 0) w = Returns (p, w1) \<and> fst p = At_add \<and>
      (\<exists>w2. net_step demo_net_cfg 0 [] p w1 = Returns ((Add_handle, snd p), w2)) \<and> th 0 = (Idle, [Blocking 7, Release 7])"
    using s by (auto simp: race_start_def race_threads_def got_lock_def errorcheck_wrappers)
  then obtain p w1 w2 where p: "net_step demo_net_cfg 0 [] (th 0) w = Returns (p, w1)" "fst p = At_add"
    "net_step demo_net_cfg 0 [] p w1 = Returns ((Add_handle, snd p), w2)" "th 0 = (Idle, [Blocking 7, Release 7])" by blast
  have a: "net_move demo_net_cfg True race_start (w1, th(0 := p))" unfolding s using p(1) by (rule net_moveI) (use p in auto)
  have "net_move demo_net_cfg True (w1, th(0 := p)) (w2, (th(0 := p))(0 := (Add_handle, snd p)))"
    by (rule net_moveI [where rs = "[]"]) (use p in \<open>auto simp: prod_eq_iff\<close>)
  with a have "(net_move demo_net_cfg True)\<^sup>*\<^sup>* race_start (w2, (th(0 := p))(0 := (Add_handle, snd p)))" by simp
  note r = this
  have "in_lock (fst (snd (w2, (th(0 := p))(0 := (Add_handle, snd p))) 0))" by simp
  with r transfers_safe [OF race_start_ok r] show ?thesis by blast
qed

end
