(* ===== verification/LockOrder.thy ===== *)
theory LockOrder
  imports Prelude
begin

text \<open>
  The mutexes of the whole program and the order in which they are taken.  A function is reduced
  to its calls of the mutex, condition and semaphore macros and of the functions that make such
  calls, in the order of the code; its conditions become choices and its loops any number of
  rounds.  What holds for every run of the reduced program holds for every run of the program.
\<close>

section \<open>Locks and programs\<close>

text \<open>
  The number is that of the cache.  \<open>Curl_lock\<close> stands for the locks of the callbacks that
  libcurl and OpenSSL get in \<open>src/network.c\<close>.
\<close>

datatype lock_name = Cf_lock | Link_lock | W_lock nat | Seek_lock nat | Transfer_lock | Dl_lock nat | Curl_lock

text \<open>The order: a lock is taken only while all locks that are held come before it.\<close>

fun rank :: "lock_name \<Rightarrow> nat" where
  "rank Cf_lock = 0"
| "rank Link_lock = 1"
| "rank (W_lock n) = 2"
| "rank (Seek_lock n) = 3"
| "rank Transfer_lock = 4"
| "rank (Dl_lock n) = 5"
| "rank Curl_lock = 6"

text \<open>What a thread waits for without a mutex.\<close>

datatype wait_for = Ad_cond nat | Shutdown_cond nat | Bgt_sem nat

datatype prog = Skip | Lock lock_name | Unlock lock_name | Wait_for wait_for
  | Seq prog prog | Or prog prog | Loop prog

definition block :: "prog list \<Rightarrow> prog" where
  "block ps = foldr Seq ps Skip"

definition any_of :: "prog list \<Rightarrow> prog" where
  "any_of ps = foldr Or ps Skip"

definition maybe :: "prog \<Rightarrow> prog" where
  "maybe p = Or p Skip"

definition locked :: "lock_name \<Rightarrow> prog list \<Rightarrow> prog" where
  "locked l ps = block (Lock l # ps @ [Unlock l])"

text \<open>\<open>pthread_cond_wait\<close> gives the mutex back, waits, and takes it again.\<close>

definition cond_wait :: "wait_for \<Rightarrow> lock_name \<Rightarrow> prog" where
  "cond_wait c l = block [Unlock l, Wait_for c, Lock l]"

section \<open>Transfers\<close>

text \<open>A call of libcurl may take and give back the locks of the callbacks.\<close>

definition curl_call :: prog where
  "curl_call = Loop (locked Curl_lock [])"

definition write_memory_callback_locks :: "nat \<Rightarrow> prog" where
  "write_memory_callback_locks n = maybe (locked (Dl_lock n) [])"

text \<open>
  \<open>curl_multi_perform\<close> calls back for the transfers of any thread, so for any of the caches; \<open>cs\<close>
  are the numbers of all caches.
\<close>

definition curl_multi_perform_once_locks :: "nat list \<Rightarrow> prog" where
  "curl_multi_perform_once_locks cs =
    locked Transfer_lock [Loop (any_of (curl_call # map write_memory_callback_locks cs)), curl_call]"

definition transfer_blocking_locks :: "nat list \<Rightarrow> prog" where
  "transfer_blocking_locks cs = block [locked Transfer_lock [curl_call], Loop (curl_multi_perform_once_locks cs)]"

definition transfer_nonblocking_locks :: prog where
  "transfer_nonblocking_locks = locked Transfer_lock [curl_call]"

definition Link_download_finish_transfer_locks :: "nat option \<Rightarrow> prog" where
  "Link_download_finish_transfer_locks cf = (case cf of None \<Rightarrow> Skip | Some n \<Rightarrow> locked (Dl_lock n) [])"

definition Link_download_locks :: "nat list \<Rightarrow> nat option \<Rightarrow> prog" where
  "Link_download_locks cs cf =
    (let attempt = block [case cf of None \<Rightarrow> Skip | Some n \<Rightarrow> locked (Dl_lock n) [], curl_call,
           transfer_blocking_locks cs, curl_call, Link_download_finish_transfer_locks cf]
     in maybe (block [Loop attempt, attempt]))"

definition Link_download_full_locks :: "nat list \<Rightarrow> prog" where
  "Link_download_full_locks cs =
    block [curl_call, transfer_blocking_locks cs, Loop (transfer_blocking_locks cs), curl_call]"

definition LinkTable_uninitialised_fill_locks :: "nat list \<Rightarrow> prog" where
  "LinkTable_uninitialised_fill_locks cs =
    block [Loop (block [curl_call, transfer_nonblocking_locks]), Loop (curl_multi_perform_once_locks cs)]"

text \<open>\<open>LinkTable_new\<close>, and the other two ways to load a directory.\<close>

definition LinkTable_new_locks :: "nat list \<Rightarrow> prog" where
  "LinkTable_new_locks cs = maybe (block [Link_download_full_locks cs, maybe (LinkTable_uninitialised_fill_locks cs)])"

definition single_LinkTable_new_locks :: "nat list \<Rightarrow> prog" where
  "single_LinkTable_new_locks cs = LinkTable_uninitialised_fill_locks cs"

definition sonic_LinkTable_locks :: "nat list \<Rightarrow> prog" where
  "sonic_LinkTable_locks cs = Link_download_full_locks cs"

definition load_locks :: "nat list \<Rightarrow> prog" where
  "load_locks cs = any_of [LinkTable_new_locks cs, single_LinkTable_new_locks cs, sonic_LinkTable_locks cs]"

section \<open>The tree\<close>

definition LinkTable_ref_locks :: prog where
  "LinkTable_ref_locks = maybe (locked Link_lock [])"

definition LinkTable_mark_orphaned_locks :: prog where
  "LinkTable_mark_orphaned_locks = maybe (locked Link_lock [])"

text \<open>The recursion is the last call of the function: the parents one after the other.\<close>

definition LinkTable_unref_locks :: prog where
  "LinkTable_unref_locks = Loop (locked Link_lock [])"

text \<open>
  \<open>path_to_Link_recursive\<close> is entered and left with \<open>link_lock\<close> held; a level that has to be loaded
  releases it meanwhile.  The recursion is the last call of a level.
\<close>

definition path_level_locks :: "nat list \<Rightarrow> prog" where
  "path_level_locks cs = maybe (block [Unlock Link_lock, load_locks cs, Lock Link_lock])"

definition failed_level_locks :: "nat list \<Rightarrow> prog" where
  "failed_level_locks cs = block [Unlock Link_lock, load_locks cs, Lock Link_lock,
    maybe (block [Unlock Link_lock, LinkTable_unref_locks, Lock Link_lock])]"

definition path_to_Link_recursive_locks :: "nat list \<Rightarrow> prog" where
  "path_to_Link_recursive_locks cs = block [Loop (path_level_locks cs), maybe (failed_level_locks cs)]"

definition path_to_Link_locks :: "nat list \<Rightarrow> prog" where
  "path_to_Link_locks cs = locked Link_lock [path_to_Link_recursive_locks cs]"

definition path_to_LinkTable_locks :: "nat list \<Rightarrow> prog" where
  "path_to_LinkTable_locks cs =
    Or LinkTable_ref_locks
      (block [path_to_Link_locks cs,
         maybe (block [locked Link_lock [],
           Or Skip
             (block [load_locks cs,
                maybe (block [locked Link_lock [], maybe (LinkTable_uninitialised_fill_locks cs)])]),
           LinkTable_unref_locks])])"

definition path_download_locks :: "nat list \<Rightarrow> prog" where
  "path_download_locks cs =
    block [path_to_Link_locks cs, maybe (block [Link_download_locks cs None, LinkTable_unref_locks])]"

section \<open>The cache\<close>

definition Data_read_locks :: "nat \<Rightarrow> prog" where
  "Data_read_locks n = maybe (locked (Seek_lock n) [])"

definition Data_write_locks :: "nat \<Rightarrow> prog" where
  "Data_write_locks n = maybe (locked (Seek_lock n) [])"

definition Cache_free_locks :: "nat \<Rightarrow> prog" where
  "Cache_free_locks n = locked (Dl_lock n) [Loop (cond_wait (Shutdown_cond n) (Dl_lock n))]"

definition Cache_create_locks :: "nat list \<Rightarrow> nat \<Rightarrow> prog" where
  "Cache_create_locks cs n =
    block [path_to_Link_locks cs,
      maybe (Or LinkTable_unref_locks
        (block [maybe (Cache_free_locks n), Cache_free_locks n, LinkTable_unref_locks]))]"

definition Cache_delete_locks :: "nat list \<Rightarrow> prog" where
  "Cache_delete_locks cs = block [path_to_Link_locks cs, maybe LinkTable_unref_locks]"

text \<open>One round of the loop in \<open>Cache_open\<close>: \<open>n\<close> is the new cache, which nobody else knows.\<close>

definition open_attempt_locks :: "nat list \<Rightarrow> nat \<Rightarrow> prog" where
  "open_attempt_locks cs n = maybe (block [Cache_delete_locks cs, Cache_create_locks cs n])"

definition Cache_open_locks :: "nat list \<Rightarrow> nat \<Rightarrow> prog" where
  "Cache_open_locks cs n =
    block [path_to_Link_locks cs,
      maybe (block [Lock Cf_lock,
        Loop (block [open_attempt_locks cs n, Cache_free_locks n, Cache_delete_locks cs]),
        maybe (open_attempt_locks cs n),
        Unlock Cf_lock,
        maybe LinkTable_unref_locks])]"

definition Cache_close_locks :: "nat \<Rightarrow> prog" where
  "Cache_close_locks n =
    locked Cf_lock [maybe (block [Loop (Wait_for (Bgt_sem n)), Cache_free_locks n, LinkTable_unref_locks])]"

definition Cache_bgdl_locks :: "nat list \<Rightarrow> nat \<Rightarrow> prog" where
  "Cache_bgdl_locks cs n =
    block [Link_download_locks cs (Some n),
      Or (locked (Dl_lock n) [])
         (block [locked (W_lock n) [Data_write_locks n], locked (Dl_lock n) []])]"

definition Cache_bgdl_launcher_locks :: "nat \<Rightarrow> prog" where
  "Cache_bgdl_launcher_locks n = block [locked (Dl_lock n) [], maybe (locked (Dl_lock n) [])]"

text \<open>
  The parts of \<open>Cache_read_segment\<close> between its labels: from \<open>retry\<close>, the wait for the download of
  another thread, which ends with an answer, with -EIO or at \<open>sync_dl\<close> with \<open>w_lock\<close> held.
\<close>

definition wait_on_locks :: "nat \<Rightarrow> prog" where
  "wait_on_locks n = block [Lock (Dl_lock n), Unlock (W_lock n), Loop (cond_wait (Ad_cond n) (Dl_lock n)), Unlock (Dl_lock n)]"

definition to_sync_dl_locks :: "nat \<Rightarrow> prog" where
  "to_sync_dl_locks n =
    Or (block [Lock (W_lock n), wait_on_locks n, Lock (W_lock n)])
       (block [Lock (W_lock n), locked (Dl_lock n) [], maybe (locked (Dl_lock n) [])])"

definition retry_locks :: "nat \<Rightarrow> prog" where
  "retry_locks n =
    Or (block [Lock (W_lock n), locked (Dl_lock n) [], locked (Dl_lock n) [], Cache_bgdl_launcher_locks n, Unlock (W_lock n)])
       (block [to_sync_dl_locks n, locked (Dl_lock n) [], Unlock (W_lock n)])"

definition sync_dl_locks :: "nat list \<Rightarrow> nat \<Rightarrow> prog" where
  "sync_dl_locks cs n =
    block [locked (Dl_lock n) [], Unlock (W_lock n), Link_download_locks cs (Some n),
      Lock (W_lock n), maybe (Data_write_locks n), locked (Dl_lock n) [], Unlock (W_lock n)]"

definition bgdl_locks :: "nat \<Rightarrow> prog" where
  "bgdl_locks n =
    block [maybe (locked (W_lock n) []),
      maybe (block [Lock (W_lock n), Lock (Dl_lock n), Unlock (Dl_lock n), Unlock (W_lock n),
        maybe (Cache_bgdl_launcher_locks n)])]"

definition Cache_read_segment_locks :: "nat list \<Rightarrow> nat \<Rightarrow> prog" where
  "Cache_read_segment_locks cs n =
    maybe (block [Loop (retry_locks n),
      any_of [locked (W_lock n) [Data_read_locks n],
        block [Lock (W_lock n), wait_on_locks n, maybe (locked (W_lock n) [Data_read_locks n])],
        block [to_sync_dl_locks n, sync_dl_locks cs n]],
      maybe (bgdl_locks n)])"

definition Cache_read_locks :: "nat list \<Rightarrow> nat \<Rightarrow> prog" where
  "Cache_read_locks cs n = Loop (Cache_read_segment_locks cs n)"

section \<open>The file system\<close>

definition fs_getattr_locks :: "nat list \<Rightarrow> prog" where
  "fs_getattr_locks cs = maybe (block [path_to_Link_locks cs, maybe LinkTable_unref_locks])"

definition fs_read_locks :: "nat list \<Rightarrow> nat \<Rightarrow> prog" where
  "fs_read_locks cs n = any_of [path_download_locks cs, Cache_read_locks cs n]"

definition fs_open_locks :: "nat list \<Rightarrow> nat \<Rightarrow> prog" where
  "fs_open_locks cs n =
    block [path_to_Link_locks cs, maybe (block [maybe (Cache_open_locks cs n), LinkTable_unref_locks])]"

definition fs_release_locks :: "nat \<Rightarrow> prog" where
  "fs_release_locks n = maybe (Cache_close_locks n)"

definition fs_opendir_locks :: "nat list \<Rightarrow> prog" where
  "fs_opendir_locks cs = path_to_LinkTable_locks cs"

definition fs_releasedir_locks :: prog where
  "fs_releasedir_locks = maybe (block [maybe LinkTable_mark_orphaned_locks, LinkTable_unref_locks])"

text \<open>What the threads of the program are: FUSE calls one operation after the other, or a background download.\<close>

definition fuse_thread :: "nat list \<Rightarrow> prog" where
  "fuse_thread cs = Loop (any_of ([fs_getattr_locks cs, fs_opendir_locks cs, fs_releasedir_locks] @
     map (fs_open_locks cs) cs @ map (fs_read_locks cs) cs @ map fs_release_locks cs))"

definition bgdl_thread :: "nat list \<Rightarrow> nat \<Rightarrow> prog" where
  "bgdl_thread cs n = Cache_bgdl_locks cs n"

section \<open>Runs\<close>

text \<open>What is left of each thread, and who holds which lock.\<close>

type_synonym lock_state = "(lock_name \<Rightarrow> nat option) \<times> (nat \<Rightarrow> prog list)"

inductive unfold_prog :: "prog list \<Rightarrow> prog list \<Rightarrow> bool" where
  "unfold_prog (Skip # k) k"
| "unfold_prog (Seq p q # k) (p # q # k)"
| "unfold_prog (Or p q # k) (p # k)"
| "unfold_prog (Or p q # k) (q # k)"
| "unfold_prog (Loop p # k) k"
| "unfold_prog (Loop p # k) (p # Loop p # k)"

inductive lock_move :: "lock_state \<Rightarrow> lock_state \<Rightarrow> bool" where
  move_unfold: "unfold_prog (th t) k \<Longrightarrow> lock_move (h, th) (h, th(t := k))"
| move_lock: "th t = Lock l # k \<Longrightarrow> h l = None \<Longrightarrow> lock_move (h, th) (h(l := Some t), th(t := k))"
| move_unlock: "th t = Unlock l # k \<Longrightarrow> h l = Some t \<Longrightarrow> lock_move (h, th) (h(l := None), th(t := k))"
| move_wait: "th t = Wait_for c # k \<Longrightarrow> lock_move (h, th) (h, th(t := k))"

inductive_cases unfoldE: "unfold_prog k k'"
inductive_cases lock_moveE: "lock_move (h, th) x"

text \<open>A thread that can go on by itself: not at a lock that another holds, and not in a wait.\<close>

fun can_run :: "(lock_name \<Rightarrow> nat option) \<Rightarrow> prog list \<Rightarrow> bool" where
  "can_run h [] = False"
| "can_run h (Lock l # k) = (h l = None)"
| "can_run h (Wait_for c # k) = False"
| "can_run h (p # k) = True"

section \<open>The discipline\<close>

text \<open>The locks held after a program, None when it breaks the order, gives back what it does not hold, or waits with more than \<open>cf_lock\<close>.\<close>

fun chk :: "prog \<Rightarrow> lock_name list \<Rightarrow> lock_name list option" where
  "chk Skip H = Some H"
| "chk (Lock l) H = (if \<forall>m \<in> set H. rank m < rank l then Some (l # H) else None)"
| "chk (Unlock l) H = (if l \<in> set H then Some (remove1 l H) else None)"
| "chk (Wait_for c) H = (if set H \<subseteq> {Cf_lock} then Some H else None)"
| "chk (Seq p q) H = Option.bind (chk p H) (chk q)"
| "chk (Or p q) H = (if chk p H = chk q H then chk p H else None)"
| "chk (Loop p) H = (if chk p H = Some H then Some H else None)"

fun chks :: "prog list \<Rightarrow> lock_name list \<Rightarrow> lock_name list option" where
  "chks [] H = Some H"
| "chks (p # k) H = Option.bind (chk p H) (chks k)"

lemma chk_unfold: "unfold_prog k k' \<Longrightarrow> chks k H = Some [] \<Longrightarrow> chks k' H = Some []"
  by (erule unfold_prog.cases) (auto split: if_splits bind_splits)

lemma chk_block [simp]: "chk (block ps) = chks ps"
proof (induction ps)
  case (Cons p ps)
  then have "chk (foldr Seq ps Skip) = chks ps" by (simp only: block_def)
  show ?case by (rule ext) (simp add: block_def \<open>chk (foldr Seq ps Skip) = chks ps\<close>)
qed (simp add: block_def fun_eq_iff)

lemma chk_any_of: "\<forall>p \<in> set ps. chk p H = Some H \<Longrightarrow> chk (any_of ps) H = Some H"
  by (induction ps) (simp_all add: any_of_def)

definition lock_ok :: "lock_state \<Rightarrow> bool" where
  "lock_ok x \<longleftrightarrow> (\<forall>t. \<exists>H. distinct H \<and> set H = {l. fst x l = Some t} \<and> chks (snd x t) H = Some [])"

definition lock_start :: "nat list \<Rightarrow> lock_state \<Rightarrow> bool" where
  "lock_start cs x \<longleftrightarrow> fst x = (\<lambda>_. None) \<and> (\<forall>t. snd x t = [] \<or> snd x t = [fuse_thread cs] \<or> (\<exists>n. snd x t = [bgdl_thread cs n]))"

lemma lock_ok_step:
  assumes "lock_move x y" "lock_ok x"
  shows "lock_ok y"
proof -
  have k: "\<exists>H. distinct H \<and> set H = {l. fst x l = Some t} \<and> chks (snd x t) H = Some []" for t
    using assms(2) by (simp add: lock_ok_def)
  show ?thesis using assms(1)
  proof cases
    case (move_unfold th t k' h)
    then show ?thesis using k chk_unfold unfolding lock_ok_def by (auto split: if_splits) (metis fun_upd_apply)
  next
    case (move_lock th t l k' h)
    have "\<exists>H. distinct H \<and> set H = {m. fst y m = Some u} \<and> chks (snd y u) H = Some []" for u
    proof (cases "u = t")
      case True
      obtain H where H: "distinct H" "set H = {m. h m = Some t}" "chks (Lock l # k') H = Some []"
        using k [of t] move_lock by auto
      then have "chks k' (l # H) = Some []" by (auto split: if_splits)
      moreover have "l \<notin> set H" using H(2) move_lock by simp
      ultimately show ?thesis using H True move_lock by (intro exI [of _ "l # H"]) auto
    next
      case False
      obtain H where "distinct H" "set H = {m. h m = Some u}" "chks (th u) H = Some []" using k [of u] move_lock by auto
      then show ?thesis using False move_lock by (intro exI [of _ H]) auto
    qed
    then show ?thesis by (simp add: lock_ok_def)
  next
    case (move_unlock th t l k' h)
    have "\<exists>H. distinct H \<and> set H = {m. fst y m = Some u} \<and> chks (snd y u) H = Some []" for u
    proof (cases "u = t")
      case True
      obtain H where H: "distinct H" "set H = {m. h m = Some t}" "chks (Unlock l # k') H = Some []"
        using k [of t] move_unlock by auto
      then have "chks k' (remove1 l H) = Some []" by (auto split: if_splits)
      then show ?thesis using H True move_unlock by (intro exI [of _ "remove1 l H"]) auto
    next
      case False
      obtain H where "distinct H" "set H = {m. h m = Some u}" "chks (th u) H = Some []" using k [of u] move_unlock by auto
      then show ?thesis using False move_unlock by (intro exI [of _ H]) auto
    qed
    then show ?thesis by (simp add: lock_ok_def)
  next
    case (move_wait th t c k' h)
    have "\<exists>H. distinct H \<and> set H = {m. fst y m = Some u} \<and> chks (snd y u) H = Some []" for u
      using k [of u] move_wait by (auto split: if_splits)
    then show ?thesis by (simp add: lock_ok_def)
  qed
qed

section \<open>The program keeps it\<close>

lemmas lock_defs = maybe_def locked_def cond_wait_def

lemma chk_curl_call [simp]: "\<forall>m \<in> set H. rank m < 6 \<Longrightarrow> chk curl_call H = Some H"
  by (simp add: curl_call_def lock_defs)

lemma chk_curl_locked [simp]: "\<forall>m \<in> set H. rank m < 4 \<Longrightarrow> chk curl_call (Transfer_lock # H) = Some (Transfer_lock # H)"
  by (rule chk_curl_call) auto

lemma chk_once [simp]: "\<forall>m \<in> set H. rank m < 4 \<Longrightarrow> chk (curl_multi_perform_once_locks cs) H = Some H"
proof -
  assume a: "\<forall>m \<in> set H. rank m < 4"
  let ?H = "Transfer_lock # H"
  have b: "chk (any_of (curl_call # map write_memory_callback_locks cs)) ?H = Some ?H"
    using a by (intro chk_any_of) (auto simp: write_memory_callback_locks_def lock_defs)
  show ?thesis using a b by (auto simp: curl_multi_perform_once_locks_def lock_defs)
qed

lemma chk_transfers [simp]:
  assumes "\<forall>m \<in> set H. rank m < 4"
  shows "chk (transfer_blocking_locks cs) H = Some H" "chk transfer_nonblocking_locks H = Some H"
    "chk (Link_download_locks cs cf) H = Some H" "chk (Link_download_full_locks cs) H = Some H"
    "chk (LinkTable_uninitialised_fill_locks cs) H = Some H" "chk (load_locks cs) H = Some H"
proof -
  have c: "\<forall>m \<in> set H. rank m < 6" "\<forall>m \<in> set H. rank m < 5" using assms by auto
  show 1: "chk (transfer_blocking_locks cs) H = Some H" "chk transfer_nonblocking_locks H = Some H"
    using assms by (auto simp: transfer_blocking_locks_def transfer_nonblocking_locks_def lock_defs)
  show "chk (Link_download_locks cs cf) H = Some H"
    using assms 1 c by (cases cf) (simp_all add: Let_def Link_download_locks_def Link_download_finish_transfer_locks_def lock_defs)
  show 2: "chk (Link_download_full_locks cs) H = Some H" using assms 1 c by (simp add: Link_download_full_locks_def)
  show 3: "chk (LinkTable_uninitialised_fill_locks cs) H = Some H"
    using assms 1 c by (simp add: LinkTable_uninitialised_fill_locks_def)
  show "chk (load_locks cs) H = Some H" unfolding load_locks_def
    using 2 3 by (intro chk_any_of) (simp add: LinkTable_new_locks_def single_LinkTable_new_locks_def sonic_LinkTable_locks_def lock_defs)
qed

lemma chk_tree [simp]:
  assumes "set H \<subseteq> {Cf_lock}"
  shows "chk LinkTable_ref_locks H = Some H" "chk LinkTable_mark_orphaned_locks H = Some H"
    "chk LinkTable_unref_locks H = Some H" "chk (path_to_Link_locks cs) H = Some H"
    "chk (path_to_LinkTable_locks cs) H = Some H" "chk (path_download_locks cs) H = Some H"
proof -
  have r: "\<forall>m \<in> set H. rank m < 4" "\<forall>m \<in> set H. rank m < Suc 0" "\<forall>m \<in> set H. rank m < 6" "Link_lock \<notin> set H" using assms by auto
  show 1: "chk LinkTable_ref_locks H = Some H" "chk LinkTable_mark_orphaned_locks H = Some H" "chk LinkTable_unref_locks H = Some H"
    using r by (simp_all add: LinkTable_ref_locks_def LinkTable_mark_orphaned_locks_def LinkTable_unref_locks_def lock_defs)
  show 2: "chk (path_to_Link_locks cs) H = Some H"
    using r 1 by (simp add: path_to_Link_locks_def path_to_Link_recursive_locks_def path_level_locks_def failed_level_locks_def lock_defs)
  show "chk (path_to_LinkTable_locks cs) H = Some H" "chk (path_download_locks cs) H = Some H"
    using r 1 2 by (simp_all add: path_to_LinkTable_locks_def path_download_locks_def lock_defs)
qed

lemma chk_cache [simp]:
  assumes "set H \<subseteq> {Cf_lock}"
  shows "chk (Cache_free_locks n) H = Some H" "chk (Cache_create_locks cs n) H = Some H" "chk (Cache_delete_locks cs) H = Some H"
proof -
  have r: "\<forall>m \<in> set H. rank m < 5" "Dl_lock n \<notin> set H" using assms by auto
  show 1: "chk (Cache_free_locks n) H = Some H" using r assms by (simp add: Cache_free_locks_def lock_defs)
  show "chk (Cache_create_locks cs n) H = Some H" "chk (Cache_delete_locks cs) H = Some H"
    using 1 assms by (simp_all add: Cache_create_locks_def Cache_delete_locks_def lock_defs)
qed

lemma chk_open_close [simp]: "chk (Cache_open_locks cs n) [] = Some []" "chk (Cache_close_locks n) [] = Some []"
  by (simp_all add: Cache_open_locks_def open_attempt_locks_def Cache_close_locks_def lock_defs)

lemma chk_launcher [simp]: "\<forall>m \<in> set H. rank m < 5 \<Longrightarrow> chk (Cache_bgdl_launcher_locks n) H = Some H"
  by (simp add: Cache_bgdl_launcher_locks_def lock_defs)

lemma chk_bgdl [simp]: "chk (Cache_bgdl_locks cs n) [] = Some []"
  by (simp add: Cache_bgdl_locks_def Data_write_locks_def lock_defs)

lemma chk_read_parts [simp]:
  "chk (wait_on_locks n) [W_lock n] = Some []"
  "chk (to_sync_dl_locks n) [] = Some [W_lock n]"
  "chk (bgdl_locks n) [] = Some []"
  by (simp_all add: wait_on_locks_def to_sync_dl_locks_def bgdl_locks_def lock_defs)

lemma chk_read [simp]: "chk (Cache_read_locks cs n) [] = Some []"
proof -
  have 1: "chk (retry_locks n) [] = Some []" by (simp add: retry_locks_def lock_defs)
  have 2: "chk (sync_dl_locks cs n) [W_lock n] = Some []" by (simp add: sync_dl_locks_def Data_write_locks_def lock_defs)
  have "chk (any_of [locked (W_lock n) [Data_read_locks n],
      block [Lock (W_lock n), wait_on_locks n, maybe (locked (W_lock n) [Data_read_locks n])],
      block [to_sync_dl_locks n, sync_dl_locks cs n]]) [] = Some []"
    using 2 by (intro chk_any_of) (simp add: Data_read_locks_def lock_defs)
  with 1 show ?thesis by (simp add: Cache_read_locks_def Cache_read_segment_locks_def maybe_def)
qed

lemma chk_threads: "chk (fuse_thread cs) [] = Some []" "chk (bgdl_thread cs n) [] = Some []"
proof -
  have "chk (any_of ([fs_getattr_locks cs, fs_opendir_locks cs, fs_releasedir_locks] @
     map (fs_open_locks cs) cs @ map (fs_read_locks cs) cs @ map fs_release_locks cs)) [] = Some []"
    by (intro chk_any_of) (auto simp: fs_getattr_locks_def fs_opendir_locks_def fs_releasedir_locks_def fs_open_locks_def
        fs_read_locks_def fs_release_locks_def maybe_def any_of_def)
  then show "chk (fuse_thread cs) [] = Some []" by (simp add: fuse_thread_def)
  show "chk (bgdl_thread cs n) [] = Some []" by (simp add: bgdl_thread_def)
qed

interpretation locks: machine "lock_start cs" lock_move lock_ok for cs
proof
  show "lock_start cs s \<Longrightarrow> lock_ok s" for s
    by (auto simp: lock_start_def lock_ok_def chk_threads) (metis chk_threads bind.bind_lunit chks.simps)
qed (rule lock_ok_step)

section \<open>Deadlocks\<close>

lemma ok_held:
  assumes "lock_ok (h, th)"
  obtains H where "distinct H" "set H = {l. h l = Some t}" "chks (th t) H = Some []"
  using assms unfolding lock_ok_def by (metis fst_conv snd_conv)

lemma ok_next:
  assumes ok: "lock_ok (h, th)"
  shows "th t = Lock l # k \<Longrightarrow> h m = Some t \<Longrightarrow> rank m < rank l"
    "th t = Unlock l # k \<Longrightarrow> h l = Some t"
    "th t = Wait_for c # k \<Longrightarrow> h m = Some t \<Longrightarrow> m = Cf_lock"
    "th t = [] \<Longrightarrow> h m \<noteq> Some t"
proof -
  obtain H where H: "set H = {l. h l = Some t}" "chks (th t) H = Some []" using ok_held [OF ok] by metis
  show "th t = Lock l # k \<Longrightarrow> h m = Some t \<Longrightarrow> rank m < rank l" using H by (auto split: if_splits)
  show "th t = Unlock l # k \<Longrightarrow> h l = Some t" using H by (auto split: if_splits)
  show "th t = Wait_for c # k \<Longrightarrow> h m = Some t \<Longrightarrow> m = Cf_lock" using H by (auto split: if_splits)
  show "th t = [] \<Longrightarrow> h m \<noteq> Some t" using H by auto
qed

lemma rank_bound: "rank l \<le> 6"
  by (cases l) simp_all

text \<open>Whoever wants a lock other than \<open>cf_lock\<close> is behind a thread that can go on.\<close>

lemma chain_runs:
  assumes ok: "lock_ok (h, th)" and t: "th t = Lock l # k" "l \<noteq> Cf_lock"
  shows "\<exists>u. can_run h (th u)"
  using t
proof (induction "6 - rank l" arbitrary: t l k rule: less_induct)
  case less
  show ?case
  proof (cases "h l")
    case None
    then have "can_run h (th t)" using less.prems by simp
    then show ?thesis by blast
  next
    case (Some u)
    show ?thesis
    proof (cases "can_run h (th u)")
      case False
      then consider "th u = []" | m k' where "th u = Lock m # k'" | c k' where "th u = Wait_for c # k'"
        by (cases "(h, th u)" rule: can_run.cases) auto
      then show ?thesis
      proof cases
        case (2 m k')
        from ok_next(1) [OF ok 2 Some] have r: "rank l < rank m" .
        then have "m \<noteq> Cf_lock" by auto
        with less.hyps [OF _ 2] r rank_bound [of m] show ?thesis by auto
      qed (use ok_next(3,4) [OF ok] Some less.prems in blast)+
    qed blast
  qed
qed

text \<open>
  The threads that the closing of a cache waits for: a background download takes neither
  \<open>cf_lock\<close> nor \<open>link_lock\<close> and waits for nothing but mutexes.
\<close>

fun plain :: "prog \<Rightarrow> bool" where
  "plain (Lock l) = (l \<noteq> Cf_lock \<and> l \<noteq> Link_lock)"
| "plain (Wait_for c) = False"
| "plain (Seq p q) = (plain p \<and> plain q)"
| "plain (Or p q) = (plain p \<and> plain q)"
| "plain (Loop p) = plain p"
| "plain _ = True"

lemma plain_block [simp]: "plain (block ps) = list_all plain ps"
  by (induction ps) (simp_all add: block_def)

lemma plain_any_of [simp]: "plain (any_of ps) = list_all plain ps"
  by (induction ps) (simp_all add: any_of_def)

lemma bgdl_plain: "plain (bgdl_thread cs n)"
proof -
  have c: "plain curl_call" by (simp add: curl_call_def lock_defs)
  have o: "plain (curl_multi_perform_once_locks cs)"
    using c by (auto simp: curl_multi_perform_once_locks_def write_memory_callback_locks_def lock_defs list_all_iff)
  have "plain (Link_download_locks cs (Some n))"
    using c o by (simp add: Link_download_locks_def Link_download_finish_transfer_locks_def transfer_blocking_locks_def Let_def lock_defs)
  then show ?thesis by (simp add: bgdl_thread_def Cache_bgdl_locks_def Data_write_locks_def lock_defs)
qed

lemma plain_unfold: "unfold_prog k k' \<Longrightarrow> list_all plain k \<Longrightarrow> list_all plain k'"
  by (erule unfold_prog.cases) simp_all

lemma plain_keeps: "lock_move\<^sup>*\<^sup>* x y \<Longrightarrow> list_all plain (snd x t) \<Longrightarrow> list_all plain (snd y t)"
proof (induction rule: rtranclp_induct)
  case (step y z)
  obtain h th where y: "y = (h, th)" by fastforce
  have "list_all plain (th t)" using step y by simp
  with step.hyps(2) show ?case unfolding y
    by (auto elim!: lock_moveE dest: plain_unfold split: if_splits)
qed

lemma plain_runs:
  assumes ok: "lock_ok (h, th)" and p: "list_all plain (th t)" "th t \<noteq> []"
  shows "\<exists>u. can_run h (th u)"
proof (cases "can_run h (th t)")
  case False
  with p obtain l k where "th t = Lock l # k" "l \<noteq> Cf_lock"
    by (cases "(h, th t)" rule: can_run.cases) auto
  with chain_runs [OF ok] show ?thesis by blast
qed blast

text \<open>
  C7.  The order of the mutexes rules deadlocks out.  However many threads run the operations of
  FUSE and background downloads over however many caches, in every reachable state: no thread
  wants a mutex that it holds, or gives back one that it does not hold; a thread that wants a
  mutex other than \<open>cf_lock\<close> is never stuck behind a circle, some thread can go on by itself;
  a thread in a wait (for a download, for the last reader or for a background worker) holds no
  mutex but \<open>cf_lock\<close>, and a thread that has ended holds none; and as long as a background
  download, for which \<open>Cache_close\<close> waits with \<open>cf_lock\<close> held, is not finished, some thread can
  go on.
\<close>

theorem mutexes_deadlock_free:
  assumes "lock_start cs x0" "lock_move\<^sup>*\<^sup>* x0 (h, th)"
  shows "(\<forall>t l k. th t = Lock l # k \<longrightarrow> h l \<noteq> Some t) \<and>
    (\<forall>t l k. th t = Unlock l # k \<longrightarrow> h l = Some t) \<and>
    (\<forall>t l k. th t = Lock l # k \<longrightarrow> l \<noteq> Cf_lock \<longrightarrow> (\<exists>u. can_run h (th u))) \<and>
    (\<forall>t m c k. th t = Wait_for c # k \<longrightarrow> h m = Some t \<longrightarrow> m = Cf_lock) \<and>
    (\<forall>t m. th t = [] \<longrightarrow> h m \<noteq> Some t) \<and>
    (\<forall>t n. snd x0 t = [bgdl_thread cs n] \<longrightarrow> th t \<noteq> [] \<longrightarrow> (\<exists>u. can_run h (th u)))"
proof -
  have ok: "lock_ok (h, th)" by (rule locks.reachable_inv [OF assms])
  have "h l \<noteq> Some t" if "th t = Lock l # k" for t l k using ok_next(1) [OF ok that, of l] by auto
  moreover have "\<exists>u. can_run h (th u)" if "snd x0 t = [bgdl_thread cs n]" "th t \<noteq> []" for t n
    using plain_runs [OF ok _ that(2)] plain_keeps [OF assms(2), of t] that(1) bgdl_plain by simp
  ultimately show ?thesis using ok_next(2-4) [OF ok] chain_runs [OF ok] by blast
qed

section \<open>A scenario\<close>

text \<open>A run as a list of turns: the thread, and which way it goes at a choice or a loop.\<close>

fun unfold_one :: "bool \<Rightarrow> prog list \<Rightarrow> prog list option" where
  "unfold_one b (Skip # k) = Some k"
| "unfold_one b (Seq p q # k) = Some (p # q # k)"
| "unfold_one b (Or p q # k) = Some ((if b then p else q) # k)"
| "unfold_one b (Loop p # k) = Some (if b then p # Loop p # k else k)"
| "unfold_one b _ = None"

fun lock_run :: "(nat \<times> bool) list \<Rightarrow> lock_state \<Rightarrow> lock_state option" where
  "lock_run [] x = Some x"
| "lock_run ((t, b) # turns) (h, th) =
    (case th t of
       Lock l # k \<Rightarrow> if h l = None then lock_run turns (h(l := Some t), th(t := k)) else None
     | Unlock l # k \<Rightarrow> if h l = Some t then lock_run turns (h(l := None), th(t := k)) else None
     | _ \<Rightarrow> (case unfold_one b (th t) of None \<Rightarrow> None | Some k \<Rightarrow> lock_run turns (h, th(t := k))))"

lemma move_unfold_one: "th t = k0 \<Longrightarrow> unfold_prog k0 k \<Longrightarrow> lock_move (h, th) (h, th(t := k))"
  by (rule move_unfold) simp

lemma lock_run_moves: "lock_run turns x = Some y \<Longrightarrow> lock_move\<^sup>*\<^sup>* x y"
proof (induction turns arbitrary: x)
  case (Cons tb turns)
  obtain t b h th where x: "tb = (t, b)" "x = (h, th)" by (metis prod.collapse)
  have "\<exists>z. lock_move x z \<and> lock_run turns z = Some y"
    using Cons.prems unfolding x
    by (auto split: list.splits prog.splits if_splits option.splits
        intro: move_lock move_unlock move_unfold_one unfold_prog.intros)
  then show ?case using Cons.IH by (meson converse_rtranclp_into_rtranclp)
qed simp

text \<open>Two FUSE threads release directories: the first has \<open>link_lock\<close>, the second wants it.\<close>

definition demo_locks :: lock_state where
  "demo_locks = (\<lambda>_. None, (\<lambda>_. [])(0 := [fuse_thread []], 1 := [fuse_thread []]))"

definition demo_choices :: "bool list" where
  "demo_choices = [True, False, False, True, True, True, False, True, True, True, True]"

lemma demo_locks_run:
  "\<exists>h th k. lock_run (map (Pair 0) (demo_choices @ [True]) @ map (Pair 1) demo_choices) demo_locks = Some (h, th) \<and>
    h Link_lock = Some 0 \<and> th 1 = Lock Link_lock # k"
  by (simp add: demo_locks_def demo_choices_def fuse_thread_def any_of_def fs_releasedir_locks_def
      LinkTable_unref_locks_def lock_defs block_def)

theorem mutexes_deadlock_free_witness:
  "\<exists>h th k. lock_move\<^sup>*\<^sup>* demo_locks (h, th) \<and> th 1 = Lock Link_lock # k \<and> h Link_lock = Some 0 \<and> (\<exists>u. can_run h (th u))"
proof -
  obtain h th k where r: "lock_run (map (Pair 0) (demo_choices @ [True]) @ map (Pair 1) demo_choices) demo_locks = Some (h, th)"
    "h Link_lock = Some 0" "th 1 = Lock Link_lock # k" using demo_locks_run by blast
  have "lock_start [] demo_locks" by (simp add: lock_start_def demo_locks_def)
  from mutexes_deadlock_free [OF this lock_run_moves [OF r(1)]] r(3) have "\<exists>u. can_run h (th u)" by blast
  with r lock_run_moves [OF r(1)] show ?thesis by blast
qed

end
