(* ===== verification/LinkListing.thy ===== *)
theory LinkListing
  imports Network LinkHashSet LinkTreeKeeps
begin

text \<open>
  \<open>src/link.c\<close>, from an HTML page to a link table: \<open>Link_new\<close>, \<open>LinkTable_alloc\<close>,
  \<open>HTML_to_LinkTable\<close>, \<open>LinkTable_parse_html\<close>, \<open>LinkTable_fill\<close> and \<open>Link_download_full\<close>.

  The Gumbo parser, \<open>curl_easy_escape\<close> and \<open>curl_easy_unescape\<close> are arguments.  Of a parsed node
  the code reads whether it is an element, whether its tag is \<open>a\<close>, its \<open>href\<close> attribute and its
  children.
\<close>

section \<open>Links and tables\<close>

definition Link_new :: "cstr \<Rightarrow> LinkType \<Rightarrow> Link" where
  "Link_new name ty =
    (let s = take NAME_MAX name
     in \<lparr>linkname = (if s \<noteq> [] \<and> last s = slash then butlast s else s), linkpath = s, f_url = [],
         link_type = ty, content_length = 0, next_table = None, link_time = 0, cache_ptr = None,
         sonic = \<lparr>sonic_ident = None, depth = 0\<rparr>\<rparr>)"

definition LinkTable_add :: "Link \<Rightarrow> LinkTable \<Rightarrow> LinkTable" where
  "LinkTable_add link linktbl = linktbl\<lparr>links := links linktbl @ [link]\<rparr>"

definition LinkTable_alloc :: "cstr \<Rightarrow> LinkTable" where
  "LinkTable_alloc url =
    LinkTable_add ((Link_new ''/'' LINK_HEAD)\<lparr>f_url := take PATH_MAX url\<rparr>)
      \<lparr>index_time = 0, links = [], refcount = 0, orphaned = False, parent_tbl = None, parent_link = None\<rparr>"

section \<open>The scan of a page\<close>

datatype GumboNode = Element bool "cstr option" "GumboNode list" | NoElement

text \<open>
  The link that an anchor stands for, with the name it has in the duplicate filter: None when
  the anchor is skipped.
\<close>

definition external_entry :: "(cstr \<Rightarrow> cstr option) \<Rightarrow> cstr \<Rightarrow> (cstr \<times> Link) option" where
  "external_entry unescape raw_href =
    (let filename = external_url_to_filename unescape (Some raw_href)
     in if filename = [] \<or> filename = ''.'' \<or> filename = ''..'' then None
        else (let href_len = (case strpbrk raw_href ''?#'' of Some q \<Rightarrow> q | None \<Rightarrow> length raw_href);
                  ty = (if href_len > 0 \<and> raw_href ! (href_len - 1) = slash
                        then LINK_UNINITIALISED_DIR else LINK_UNINITIALISED_FILE)
              in Some (filename, (Link_new filename ty)\<lparr>f_url := take PATH_MAX raw_href\<rparr>)))"

definition relative_entry :: "cstr \<Rightarrow> cstr \<Rightarrow> (cstr \<times> Link) option" where
  "relative_entry url raw_href =
    (let relative_url = truncate_at_slash (make_link_relative url (strndup raw_href PATH_MAX));
         ty = linkname_to_LinkType relative_url
     in if ty = LINK_UNINITIALISED_DIR \<or> ty = LINK_UNINITIALISED_FILE
        then Some (relative_url, Link_new relative_url ty) else None)"

definition anchor_entry :: "ConfigStruct \<Rightarrow> (cstr \<Rightarrow> cstr option) \<Rightarrow> cstr \<Rightarrow> cstr \<Rightarrow> (cstr \<times> Link) option" where
  "anchor_entry cfg unescape url raw_href =
    (if external_links cfg \<and> is_external_url (Some raw_href) \<and> is_cross_origin (Some url) (Some raw_href)
     then external_entry unescape raw_href else relative_entry url raw_href)"

text \<open>An entry is added unless the filter knows its name; None is the fatal overflow of the filter.\<close>

definition add_entry :: "(cstr \<times> Link) option \<Rightarrow> LinkTable \<times> LinkHashSet \<Rightarrow> (LinkTable \<times> LinkHashSet) option" where
  "add_entry x st =
    (case x of
       None \<Rightarrow> Some st
     | Some (name, link) \<Rightarrow>
         (case LinkHashSet_add (snd st) name of
            None \<Rightarrow> None
          | Some (r, hs') \<Rightarrow> Some (if r \<noteq> 0 then LinkTable_add link (fst st) else fst st, hs')))"

fun HTML_to_LinkTable ::
    "ConfigStruct \<Rightarrow> (cstr \<Rightarrow> cstr option) \<Rightarrow> cstr \<Rightarrow> GumboNode \<Rightarrow> LinkTable \<times> LinkHashSet
     \<Rightarrow> (LinkTable \<times> LinkHashSet) option"
  and HTML_children ::
    "ConfigStruct \<Rightarrow> (cstr \<Rightarrow> cstr option) \<Rightarrow> cstr \<Rightarrow> GumboNode list \<Rightarrow> LinkTable \<times> LinkHashSet
     \<Rightarrow> (LinkTable \<times> LinkHashSet) option" where
  "HTML_to_LinkTable cfg unescape url NoElement st = Some st"
| "HTML_to_LinkTable cfg unescape url (Element is_a href kids) st =
    (case (if is_a then (case href of Some raw_href \<Rightarrow> add_entry (anchor_entry cfg unescape url raw_href) st
                         | None \<Rightarrow> Some st)
           else Some st) of
       None \<Rightarrow> None
     | Some st' \<Rightarrow> HTML_children cfg unescape url kids st')"
| "HTML_children cfg unescape url [] st = Some st"
| "HTML_children cfg unescape url (n # ns) st =
    (case HTML_to_LinkTable cfg unescape url n st of
       None \<Rightarrow> None
     | Some st' \<Rightarrow> HTML_children cfg unescape url ns st')"

text \<open>\<open>gumbo_parse\<close> yields the root of the page, None when it fails.\<close>

definition LinkTable_parse_html ::
    "ConfigStruct \<Rightarrow> (cstr \<Rightarrow> cstr option) \<Rightarrow> (cstr \<Rightarrow> GumboNode option) \<Rightarrow> LinkTable \<Rightarrow> cstr \<Rightarrow> cstr
     \<Rightarrow> LinkTable option" where
  "LinkTable_parse_html cfg unescape gumbo_parse linktbl url html =
    (case gumbo_parse html of
       None \<Rightarrow> Some linktbl
     | Some root \<Rightarrow>
         map_option fst (HTML_to_LinkTable cfg unescape url root (linktbl, LinkHashSet_new 4096)))"

section \<open>Completing the entries\<close>

text \<open>The URL and the name of an entry, from the path it was linked with.\<close>

definition fill_entry ::
    "(cstr \<Rightarrow> cstr option) \<Rightarrow> (cstr \<Rightarrow> cstr option) \<Rightarrow> cstr \<Rightarrow> Link \<Rightarrow> Link" where
  "fill_entry unescape escape head_url this_link =
    (if f_url this_link \<noteq> [] then this_link
     else (let unescaped_path = unescape (linkpath this_link);
               url = (case escape (case unescaped_path of Some u \<Rightarrow> u | None \<Rightarrow> linkpath this_link) of
                        Some p \<Rightarrow>
                          (let n = length p
                           in path_append head_url
                                (if n \<ge> 3 \<and> drop (n - 3) p = ''%2F'' then take (n - 3) p @ [slash] else p))
                      | None \<Rightarrow> path_append head_url (linkpath this_link));
               link1 = this_link\<lparr>f_url := take PATH_MAX url\<rparr>
           in (case unescape (linkname link1) of
                 Some unescaped_linkname \<Rightarrow> link1\<lparr>linkname := take NAME_MAX unescaped_linkname\<rparr>
               | None \<Rightarrow> link1)))"

text \<open>The entries after the head are completed; then their types and sizes are asked for.\<close>

definition LinkTable_fill ::
    "ConfigStruct \<Rightarrow> (cstr \<Rightarrow> cstr option) \<Rightarrow> (cstr \<Rightarrow> cstr option) \<Rightarrow> round list \<Rightarrow> net \<Rightarrow> LinkTable
     \<Rightarrow> (LinkTable \<times> net) option" where
  "LinkTable_fill cfg unescape escape rds s linktbl =
    (case links linktbl of
       [] \<Rightarrow> None
     | head_link # rest \<Rightarrow>
         (case LinkTable_uninitialised_fill cfg rds
                 (s\<lparr>tlinks := head_link # map (fill_entry unescape escape (f_url head_link)) rest\<rparr>) of
            None \<Rightarrow> None
          | Some s' \<Rightarrow> Some (linktbl\<lparr>links := tlinks s'\<rparr>, s')))"

section \<open>Downloading a page\<close>

text \<open>
  One attempt is the response code, the bytes received and the time of the file.  Temporary
  failures are retried; None while all attempts so far have failed temporarily.
\<close>

fun Link_download_full :: "(int \<times> cstr \<times> int) list \<Rightarrow> Link \<Rightarrow> (cstr \<times> Link) option" where
  "Link_download_full [] link = None"
| "Link_download_full ((http_resp, data, filetime) # attempts) link =
    (if HTTP_temp_failure http_resp then Link_download_full attempts link
     else if http_resp \<noteq> HTTP_OK then Some ([], link)
     else Some (data, link\<lparr>link_time := filetime\<rparr>))"

section \<open>The scan keeps the first of each name\<close>

fun anchors :: "GumboNode \<Rightarrow> cstr list" where
  "anchors NoElement = []"
| "anchors (Element is_a href kids) =
    (if is_a then (case href of Some h \<Rightarrow> [h] | None \<Rightarrow> []) else []) @ concat (map anchors kids)"

fun first_wins :: "cstr set \<Rightarrow> (cstr \<times> Link) list \<Rightarrow> Link list" where
  "first_wins seen [] = []"
| "first_wins seen ((name, link) # xs) =
    (if \<exists>y \<in> seen. linknames_equal y name then first_wins seen xs
     else link # first_wins (insert name seen) xs)"

fun add_all :: "(cstr \<times> Link) option list \<Rightarrow> LinkTable \<times> LinkHashSet \<Rightarrow> (LinkTable \<times> LinkHashSet) option" where
  "add_all [] st = Some st"
| "add_all (x # xs) st = (case add_entry x st of None \<Rightarrow> None | Some st' \<Rightarrow> add_all xs st')"

lemma add_all_append: "add_all (xs @ ys) st = (case add_all xs st of None \<Rightarrow> None | Some st' \<Rightarrow> add_all ys st')"
  by (induction xs arbitrary: st) (simp_all split: option.split)

lemma HTML_add_all:
  "HTML_to_LinkTable cfg unescape url n st = add_all (map (anchor_entry cfg unescape url) (anchors n)) st"
  "HTML_children cfg unescape url ns st =
    add_all (map (anchor_entry cfg unescape url) (concat (map anchors ns))) st"
proof (induction cfg unescape url n st and cfg unescape url ns st
    rule: HTML_to_LinkTable_HTML_children.induct)
  case (2 cfg unescape url is_a href kids st)
  show ?case
  proof (cases "is_a \<and> href \<noteq> None")
    case True
    then obtain h where "is_a" "href = Some h" by auto
    with 2 show ?thesis by (simp split: option.split)
  next
    case False
    with 2 show ?thesis by (cases href) simp_all
  qed
next
  case (4 cfg unescape url n ns st)
  then show ?case by (simp add: add_all_append split: option.split)
qed simp_all

lemma add_size: "LinkHashSet_add hs x = Some (r, hs') \<Longrightarrow> hs_size hs' \<le> hs_size hs + 1"
proof -
  have ins: "hs_size h2 \<le> hs_size h1 + 1" if "LinkHashSet_insert h1 x = Some (r, h2)" for h1 h2 :: LinkHashSet
    using that by (auto simp: LinkHashSet_insert_def split: option.splits probe.splits)
  have res: "hs_size h1 = hs_size h0" if "LinkHashSet_resize h0 = Some h1" for h0 h1 :: LinkHashSet
    using that by (auto simp: LinkHashSet_resize_def Let_def split: if_splits)
  assume "LinkHashSet_add hs x = Some (r, hs')"
  then show ?thesis
    using ins res by (fastforce simp: LinkHashSet_add_def bind_eq_Some_conv split: if_splits)
qed

definition some_entries :: "'a option list \<Rightarrow> 'a list" where
  "some_entries xs = List.map_filter id xs"

lemma some_entries_simps [simp]:
  "some_entries [] = []" "some_entries (None # xs) = some_entries xs" "some_entries (Some x # xs) = x # some_entries xs"
  by (simp_all add: some_entries_def List.map_filter_simps)

lemma add_all_first_wins:
  "hs_inv hs \<Longrightarrow> hs_size hs + int (length xs) \<le> 2 ^ 29 \<Longrightarrow>
    \<exists>hs'. add_all xs (t, hs) = Some (t\<lparr>links := links t @ first_wins (members hs) (some_entries xs)\<rparr>, hs')"
proof (induction xs arbitrary: t hs)
  case Nil
  then show ?case by simp
next
  case (Cons x xs)
  show ?case
  proof (cases x)
    case None
    with Cons show ?thesis by (simp add: add_entry_def)
  next
    case (Some nl)
    obtain name link where nl: "nl = (name, link)" by force
    have "hs_size hs < 2 ^ 29" using Cons.prems(2) by simp
    from add_some [OF Cons.prems(1) this] obtain r hs1 where
      add: "LinkHashSet_add hs name = Some (r, hs1)" by blast
    have inv1: "hs_inv hs1" by (rule add_inv [OF Cons.prems(1) add])
    have size1: "hs_size hs1 + int (length xs) \<le> 2 ^ 29" using add_size [OF add] Cons.prems(2) by simp
    from hs.add_cases_names [OF Cons.prems(1) add] show ?thesis
    proof (elim disjE conjE)
      assume "r = 0" "members hs1 = members hs" "\<exists>y \<in> members hs. linknames_equal y name"
      with Cons.IH [OF inv1 size1, of t] add Some nl show ?thesis by (simp add: add_entry_def)
    next
      assume "r = 1" "members hs1 = insert name (members hs)" "\<forall>y \<in> members hs. \<not> linknames_equal y name"
      with Cons.IH [OF inv1 size1, of "LinkTable_add link t"] add Some nl show ?thesis
        by (auto simp: add_entry_def LinkTable_add_def)
    qed
  qed
qed

lemma parse_first_wins:
  assumes "gumbo_parse html = Some root" "length (anchors root) \<le> 2 ^ 29"
  shows "LinkTable_parse_html cfg unescape gumbo_parse t url html =
    Some (t\<lparr>links := links t @
      first_wins {} (some_entries (map (anchor_entry cfg unescape url) (anchors root)))\<rparr>)"
proof -
  have "hs_size (LinkHashSet_new 4096) = 0" by (simp add: LinkHashSet_new_def Let_def)
  with assms(2) add_all_first_wins [OF new_inv, of 4096 "map (anchor_entry cfg unescape url) (anchors root)" t]
  show ?thesis using assms(1) by (auto simp: LinkTable_parse_html_def HTML_add_all new_members)
qed

section \<open>Tables are fresh\<close>

text \<open>No sub-table, no open cache and no reference: what path resolution expects of a new table.\<close>

definition new_link :: "Link \<Rightarrow> bool" where
  "new_link l \<longleftrightarrow> next_table l = None \<and> cache_ptr l = None"

definition new_table :: "LinkTable \<Rightarrow> bool" where
  "new_table t \<longleftrightarrow> fresh_table t \<and> no_cache t"

lemma new_table_iff: "new_table t \<longleftrightarrow> refcount t = 0 \<and> \<not> orphaned t \<and> parent_tbl t = None \<and> parent_link t = None \<and>
    (\<forall>l \<in> set (links t). new_link l)"
  by (auto simp: new_table_def fresh_table_def no_cache_def new_link_def)

lemma Link_new_new [simp]: "new_link (Link_new name ty)"
  by (simp add: Link_new_def new_link_def Let_def)

lemma new_link_upd [simp]:
  "new_link (l\<lparr>f_url := u\<rparr>) = new_link l" "new_link (l\<lparr>linkname := n\<rparr>) = new_link l"
  "new_link (l\<lparr>link_time := t\<rparr>) = new_link l"
  by (simp_all add: new_link_def)

lemma alloc_new: "new_table (LinkTable_alloc url)"
  by (simp add: new_table_iff LinkTable_alloc_def LinkTable_add_def)

lemma first_wins_set: "set (first_wins seen xs) \<subseteq> snd ` set xs"
  by (induction seen xs rule: first_wins.induct) auto

lemma anchor_entry_new: "anchor_entry cfg unescape url h = Some (name, link) \<Longrightarrow> new_link link"
  by (auto simp: anchor_entry_def external_entry_def relative_entry_def Let_def split: if_splits)

lemma some_entries_set: "x \<in> set (some_entries xs) \<longleftrightarrow> Some x \<in> set xs"
  by (induction xs) (auto simp: some_entries_def List.map_filter_simps split: option.split)

lemma parse_new:
  assumes "new_table t" "length (case gumbo_parse html of Some r \<Rightarrow> anchors r | None \<Rightarrow> []) \<le> 2 ^ 29"
    and "LinkTable_parse_html cfg unescape gumbo_parse t url html = Some t'"
  shows "new_table t'"
proof (cases "gumbo_parse html")
  case None
  with assms show ?thesis by (simp add: LinkTable_parse_html_def)
next
  case (Some root)
  let ?xs = "some_entries (map (anchor_entry cfg unescape url) (anchors root))"
  have t': "t' = t\<lparr>links := links t @ first_wins {} ?xs\<rparr>"
    using parse_first_wins [where gumbo_parse = gumbo_parse and html = html, OF Some, of cfg unescape t url]
      assms(2,3) Some by simp
  have "new_link l" if l: "l \<in> set (first_wins {} ?xs)" for l
  proof -
    obtain name where "(name, l) \<in> set ?xs" using l first_wins_set [of "{}" ?xs] by force
    then obtain h where "anchor_entry cfg unescape url h = Some (name, l)"
      unfolding some_entries_set by auto
    then show ?thesis by (rule anchor_entry_new)
  qed
  with assms(1) show ?thesis by (auto simp: new_table_iff t')
qed

lemma fill_entry_new [simp]: "new_link (fill_entry unescape escape u l) = new_link l"
  by (simp add: fill_entry_def Let_def split: option.split)

lemma LinkTable_fill_new:
  assumes "new_table t" "idle s" "LinkTable_fill cfg unescape escape rds s t = Some (t', s')"
  shows "new_table t' \<and> length (links t') = length (links t) \<and> (\<forall>l \<in> set (links t'). \<not> uninitialised l)"
proof -
  obtain hd rest where l: "links t = hd # rest" using assms(3) by (auto simp: LinkTable_fill_def split: list.splits)
  let ?ls = "hd # map (fill_entry unescape escape (f_url hd)) rest"
  let ?s = "s\<lparr>tlinks := ?ls\<rparr>"
  have f: "LinkTable_uninitialised_fill cfg rds ?s = Some s'" "t' = t\<lparr>links := tlinks s'\<rparr>"
    using assms(3) l by (auto simp: LinkTable_fill_def split: option.splits)
  have "idle ?s" using assms(2) by (simp add: idle_def)
  note R = fill_result [OF this f(1)]
  then have len: "length (tlinks s') = length ?ls"
    and set: "\<And>i. i < length ?ls \<Longrightarrow> settles cfg (?ls ! i) (tlinks s' ! i)" by (simp_all add: served_def)
  have new: "\<forall>l \<in> set ?ls. new_link l" using assms(1) l by (auto simp: new_table_iff)
  have "new_link l" if "l \<in> set (tlinks s')" for l
  proof -
    obtain i where i: "i < length ?ls" "l = tlinks s' ! i" using \<open>l \<in> set (tlinks s')\<close> len by (metis in_set_conv_nth)
    have "?ls ! i \<in> set ?ls" by (rule nth_mem [OF i(1)])
    with new have "new_link (?ls ! i)" by blast
    with set [OF i(1)] i(2) show ?thesis by (simp add: settles_def same_names_def new_link_def)
  qed
  then show ?thesis using assms(1) f(2) R len l by (auto simp: new_table_iff)
qed

section \<open>Properties\<close>

text \<open>
  C31.  The scan of a page refines its specification: after the links that were there come the
  entries of the page's anchors, in document order, each name once, up to a trailing slash, and
  the first of a name wins.  Anchors that are no entries are skipped.  It holds for every page
  with at most \<open>2 ^ 29\<close> anchors; the hash set underneath grows as needed.
\<close>

theorem listing_first_wins:
  assumes "gumbo_parse html = Some root" "length (anchors root) \<le> 2 ^ 29"
  shows "LinkTable_parse_html cfg unescape gumbo_parse t url html =
    Some (t\<lparr>links := links t @
      first_wins {} (some_entries (map (anchor_entry cfg unescape url) (anchors root)))\<rparr>)"
  by (rule parse_first_wins [where gumbo_parse = gumbo_parse and html = html, OF assms])

definition demo_page :: GumboNode where
  "demo_page = Element False None [Element True (Some ''a/'') [], Element True None [], NoElement,
     Element False None [Element True (Some ''b.txt'') [], Element True (Some ''a'') []]]"

theorem listing_first_wins_witness:
  "map_option (map linkname \<circ> links) (LinkTable_parse_html (Config_init ''httpdirfs'' 15) Some (\<lambda>_. Some demo_page)
     (LinkTable_alloc ''http://h/'') ''http://h/'' []) = Some [[], ''a'', ''b.txt'']"
proof -
  have "length (anchors demo_page) \<le> 2 ^ 29" by (simp add: demo_page_def)
  note P = listing_first_wins [where gumbo_parse = "\<lambda>_. Some demo_page", OF refl this]
  have "first_wins {} (some_entries (map (anchor_entry (Config_init ''httpdirfs'' 15) Some ''http://h/'') (anchors demo_page))) =
    [Link_new ''a/'' LINK_UNINITIALISED_DIR, Link_new ''b.txt'' LINK_UNINITIALISED_FILE]"
    by code_simp
  then show ?thesis
    unfolding P by (simp add: LinkTable_alloc_def LinkTable_add_def Link_new_def Let_def)
qed

text \<open>
  An anchor \<open>../\<close>, the usual link to the parent of a listing, becomes an entry named \<open>..\<close> of
  the directory itself, whatever the page; and a name with an encoded slash in it is an entry whose
  name has a slash once it is decoded.  External names are protected against both, relative
  ones are not.
\<close>

theorem listing_admits_parent:
  "(\<exists>t. LinkTable_parse_html cfg unescape (\<lambda>_. Some (Element True (Some ''../'') [])) (LinkTable_alloc url) url html = Some t \<and>
      ''..'' \<in> linkname ` set (links t)) \<and>
   (let l = Link_new ''a%2Fb'' LINK_UNINITIALISED_FILE
    in relative_entry ''http://h/'' ''a%2Fb'' = Some (''a%2Fb'', l) \<and>
       slash \<in> set (linkname (fill_entry (\<lambda>_. Some ''a/b'') escape ''http://h/'' l)))"
proof -
  have "\<not> is_external_url (Some ''../'')" by code_simp
  moreover have "truncate_at_slash (make_link_relative url ''../'') = ''../''"
    by (simp add: make_link_relative_def truncate_at_slash_def c_at_def strchr_def)
  moreover have "linkname_to_LinkType ''../'' = LINK_UNINITIALISED_DIR" by code_simp
  ultimately have e: "anchor_entry cfg unescape url ''../'' = Some (''../'', Link_new ''../'' LINK_UNINITIALISED_DIR)"
    by (simp add: anchor_entry_def relative_entry_def strndup_def Let_def)
  have 1: "\<exists>t. LinkTable_parse_html cfg unescape (\<lambda>_. Some (Element True (Some ''../'') [])) (LinkTable_alloc url) url html = Some t \<and>
      ''..'' \<in> linkname ` set (links t)"
    by (subst parse_first_wins [where gumbo_parse = "\<lambda>_. Some (Element True (Some ''../'') [])", OF refl]) (simp_all add: e Link_new_def Let_def)
  have 2: "relative_entry ''http://h/'' ''a%2Fb'' = Some (''a%2Fb'', Link_new ''a%2Fb'' LINK_UNINITIALISED_FILE)"
    by code_simp
  show ?thesis using 1 2 by (simp add: fill_entry_def Link_new_def Let_def)
qed

end
