(* ===== verification/LinkStore.thy ===== *)
theory LinkStore
  imports LinkListing CacheFile
begin

text \<open>
  \<open>src/link.c\<close>: link tables on disk (\<open>LinkTable_disk_save\<close>, \<open>LinkTable_disk_open\<close>,
  \<open>LinkTable_disk_delete\<close>), and how a table comes into being (\<open>LinkTable_new\<close>,
  \<open>single_LinkTable_new\<close>, \<open>LinkSystem_init\<close>).
\<close>

section \<open>The file of a table\<close>

definition char_byte :: "char \<Rightarrow> byte" where
  "char_byte c = word_of_nat (of_char c)"

definition byte_char :: "byte \<Rightarrow> char" where
  "byte_char b = char_of (unat b)"

text \<open>A string in a fixed array, as far as \<open>fwrite\<close> of \<open>n\<close> bytes writes it, and read back.\<close>

definition fixed_string :: "nat \<Rightarrow> cstr \<Rightarrow> byte list" where
  "fixed_string n s = map char_byte (take n s) @ replicate (n - length s) 0"

definition c_string :: "byte list \<Rightarrow> cstr" where
  "c_string bs = map byte_char (takeWhile (\<lambda>b. b \<noteq> 0) bs)"

abbreviation (input) entry_size :: nat where
  "entry_size \<equiv> NAME_MAX + PATH_MAX + 4 + 8 + 8"

definition link_record :: "Link \<Rightarrow> byte list" where
  "link_record l =
     fixed_string NAME_MAX (linkname l) @ fixed_string PATH_MAX (f_url l) @
     enc_int 4 (LinkType_code (link_type l)) @ enc_int 8 (int (content_length l)) @ enc_int 8 (link_time l)"

definition table_bytes :: "LinkTable \<Rightarrow> byte list" where
  "table_bytes linktbl =
     enc_int 4 (int (length (links linktbl))) @ enc_int 8 (index_time linktbl) @
     concat (map link_record (links linktbl))"

definition table_file :: "cache_dirs \<Rightarrow> cstr \<Rightarrow> cstr" where
  "table_file d dirn = path_append (path_append (META_DIR d) dirn) ''.LinkTable''"

definition LinkTable_disk_delete :: "cache_dirs \<Rightarrow> faults \<Rightarrow> fs \<Rightarrow> cstr \<Rightarrow> fs" where
  "LinkTable_disk_delete d flt fs dirn = snd (unlink_file flt fs (table_file d dirn))"

definition LinkTable_disk_save :: "cache_dirs \<Rightarrow> faults \<Rightarrow> fs \<Rightarrow> LinkTable \<Rightarrow> cstr \<Rightarrow> int \<times> fs" where
  "LinkTable_disk_save d flt fs linktbl dirn =
    (if f_create flt then (-1, fs)
     else (case f_write flt of
             None \<Rightarrow> (if f_close flt then -1 else 0, fs(table_file d dirn \<mapsto> table_bytes linktbl))
           | Some k \<Rightarrow> (-1, fs(table_file d dirn \<mapsto> take k (table_bytes linktbl)))))"

text \<open>One entry, from its bytes; the fields that are not stored are zero.\<close>

definition read_link :: "byte list \<Rightarrow> Link" where
  "read_link bs =
    \<lparr>linkname = c_string (slice 0 NAME_MAX bs), linkpath = [], f_url = c_string (slice NAME_MAX PATH_MAX bs),
     link_type = LinkType_of_code (dec_int 4 (slice (NAME_MAX + PATH_MAX) 4 bs)),
     content_length = to_size (dec_int 8 (slice (NAME_MAX + PATH_MAX + 4) 8 bs)), next_table = None,
     link_time = dec_int 8 (slice (NAME_MAX + PATH_MAX + 12) 8 bs), cache_ptr = None,
     sonic = \<lparr>sonic_ident = None, depth = 0\<rparr>\<rparr>"

definition LinkTable_disk_open :: "cache_dirs \<Rightarrow> faults \<Rightarrow> fs \<Rightarrow> cstr \<Rightarrow> LinkTable option \<times> fs" where
  "LinkTable_disk_open d flt fs dirn =
    (case fs (table_file d dirn) of
       None \<Rightarrow> (None, fs)
     | Some bs \<Rightarrow>
       if f_open flt then (None, fs)
       else if length bs < 12 \<or> f_read_core flt then (None, LinkTable_disk_delete d flt fs dirn)
       else if f_seek flt then (None, LinkTable_disk_delete d flt fs dirn)
       else (let sz = dec_int 4 (slice 0 4 bs);
                 file_size = int (length bs);
                 max_entries = c_div (file_size - 12) (int entry_size)
             in if sz < 1 \<or> max_entries < sz then (None, LinkTable_disk_delete d flt fs dirn)
                else if f_read_rest flt \<noteq> None then (None, LinkTable_disk_delete d flt fs dirn)
                else (Some \<lparr>index_time = dec_int 8 (slice 4 8 bs),
                        links = map (\<lambda>i. read_link (slice (12 + i * entry_size) entry_size bs)) [0..<nat sz],
                        refcount = 0, orphaned = False, parent_tbl = None, parent_link = None\<rparr>, fs)))"

section \<open>New tables\<close>

text \<open>
  What the loader reads: configuration, the curl string functions, the parser, the URL of the
  root table with its offset, the cache directories (None while the cache system is off), the
  clock, the server's answers to the attempts at a URL, and libcurl's rounds for a table.
\<close>

record list_env =
  l_cfg :: ConfigStruct
  l_unescape :: "cstr \<Rightarrow> cstr option"
  l_escape :: "cstr \<Rightarrow> cstr option"
  l_gumbo :: "cstr \<Rightarrow> GumboNode option"
  l_root_url :: "cstr option"
  l_root_offset :: int
  l_dirs :: "cache_dirs option"
  l_mkdir_fails :: "cstr \<Rightarrow> bool"
  l_now :: int
  l_get :: "cstr \<Rightarrow> (int \<times> cstr \<times> int) list"
  l_net :: net
  l_rounds :: "cstr \<Rightarrow> round list"

text \<open>The table that the cache has for a URL, unless it is too old.\<close>

definition cached_table :: "list_env \<Rightarrow> faults \<Rightarrow> fs \<Rightarrow> cstr \<Rightarrow> (LinkTable option \<times> fs) option" where
  "cached_table e flt fs unescaped_path =
    (case l_dirs e of
       None \<Rightarrow> Some (None, fs)
     | Some d \<Rightarrow>
         (case CacheDir_create d (l_mkdir_fails e) unescaped_path of
            None \<Rightarrow> None
          | Some _ \<Rightarrow>
              (case LinkTable_disk_open d flt fs unescaped_path of
                 (None, fs1) \<Rightarrow> Some (None, fs1)
               | (Some disk_linktbl, fs1) \<Rightarrow>
                   if l_now e - index_time disk_linktbl > refresh_timeout (l_cfg e) then Some (None, fs1)
                   else Some (Some disk_linktbl, fs1))))"

definition LinkTable_new :: "list_env \<Rightarrow> faults \<Rightarrow> fs \<Rightarrow> cstr \<Rightarrow> (LinkTable option \<times> fs) option" where
  "LinkTable_new e flt fs url =
    (case url_to_cache_path (l_unescape e) (l_root_url e) (l_root_offset e) (Some url) of
       None \<Rightarrow> None
     | Some unescaped_path \<Rightarrow>
       (case cached_table e flt fs unescaped_path of
          None \<Rightarrow> None
        | Some (Some linktbl, fs1) \<Rightarrow> Some (Some linktbl, fs1)
        | Some (None, fs1) \<Rightarrow>
            (let linktbl = (LinkTable_alloc url)\<lparr>index_time := l_now e\<rparr>
             in case Link_download_full (l_get e url) (hd (links linktbl)) of
                  None \<Rightarrow> None
                | Some (page, head_link) \<Rightarrow>
                    if page = [] then Some (None, fs1)
                    else (case LinkTable_parse_html (l_cfg e) (l_unescape e) (l_gumbo e)
                                 (linktbl\<lparr>links := [head_link]\<rparr>) url page of
                            None \<Rightarrow> None
                          | Some parsed \<Rightarrow>
                              (case LinkTable_fill (l_cfg e) (l_unescape e) (l_escape e) (l_rounds e url)
                                      (l_net e) parsed of
                                 None \<Rightarrow> None
                               | Some (filled, _) \<Rightarrow>
                                   Some (Some filled,
                                     (case l_dirs e of
                                        None \<Rightarrow> fs1
                                      | Some d \<Rightarrow> snd (LinkTable_disk_save d flt fs1 filled unescaped_path))))))))"

definition single_LinkTable_new :: "list_env \<Rightarrow> cstr \<Rightarrow> LinkTable option" where
  "single_LinkTable_new e url =
    (case strrchr url slash of
       None \<Rightarrow> None
     | Some i \<Rightarrow>
         (let orig_ptr = drop (i + 1) url;
              name = (case l_unescape e orig_ptr of Some ptr \<Rightarrow> ptr | None \<Rightarrow> orig_ptr);
              link = (Link_new name LINK_UNINITIALISED_FILE)\<lparr>f_url := take PATH_MAX url\<rparr>;
              linktbl = LinkTable_add link (LinkTable_alloc url)
          in map_option (\<lambda>s. linktbl\<lparr>links := tlinks s\<rparr>)
               (LinkTable_uninitialised_fill (l_cfg e) (l_rounds e url) ((l_net e)\<lparr>tlinks := links linktbl\<rparr>))))"

text \<open>
  \<open>LinkSystem_init\<close>: the offset of the root, the cache directories, and the root table.
  \<open>cache_init\<close> is \<open>CacheSystem_init\<close>, \<open>sonic_root\<close> the root table in Sonic mode.
\<close>

definition LinkSystem_init ::
    "list_env \<Rightarrow> faults \<Rightarrow> fs \<Rightarrow> (cstr \<Rightarrow> bool \<Rightarrow> cache_dirs option) \<Rightarrow> (list_env \<Rightarrow> LinkTable option) \<Rightarrow> cstr
     \<Rightarrow> (int \<times> cache_dirs option \<times> LinkTable option) option" where
  "LinkSystem_init e flt fs cache_init sonic_root url =
    (let len = strnlen url PATH_MAX;
         offset = (if len > 0 \<and> url ! (len - 1) = slash then int len - 1 else int len);
         dirs = (if cache_enabled (l_cfg e) then
                   Some (case cfg_cache_dir (l_cfg e) of
                           Some c \<Rightarrow> cache_init c False
                         | None \<Rightarrow> cache_init url True)
                 else None)
     in if dirs = Some None then None
        else (let d = (case dirs of Some (Some x) \<Rightarrow> Some x | _ \<Rightarrow> None);
                  e1 = e\<lparr>l_root_offset := offset, l_root_url := None, l_dirs := d\<rparr>
              in (case mode (l_cfg e) of
                    NORMAL \<Rightarrow> map_option (\<lambda>(t, _). (offset, d, t)) (LinkTable_new e1 flt fs url)
                  | SINGLE \<Rightarrow> map_option (\<lambda>t. (offset, d, Some t)) (single_LinkTable_new e1 url)
                  | SONIC \<Rightarrow> Some (offset, d, sonic_root e1))))"

section \<open>Reading back what was written\<close>

lemma byte_char_byte [simp]: "byte_char (char_byte c) = c"
  by (simp add: byte_char_def char_byte_def unat_of_nat)

lemma char_byte_zero: "char_byte c = 0 \<longleftrightarrow> c = CHR 0x00"
proof
  assume "char_byte c = 0"
  then have "c = byte_char 0" by (metis byte_char_byte)
  also have "byte_char 0 = CHR 0x00" by (simp add: byte_char_def char_of_def)
  finally show "c = CHR 0x00" .
qed (simp add: char_byte_def)

lemma length_fixed_string [simp]: "length (fixed_string n s) = n"
  by (simp add: fixed_string_def)

lemma c_string_fixed:
  assumes "CHR 0x00 \<notin> set s" "length s \<le> n"
  shows "c_string (fixed_string n s) = s"
proof -
  have "takeWhile (\<lambda>b. b \<noteq> 0) (map char_byte s @ replicate (n - length s) 0) = map char_byte s"
    using assms(1) by (subst takeWhile_append2) (auto simp: char_byte_zero)
  then show ?thesis using assms(2) by (simp add: c_string_def fixed_string_def comp_def)
qed

definition storable :: "Link \<Rightarrow> bool" where
  "storable l \<longleftrightarrow> CHR 0x00 \<notin> set (linkname l) \<and> length (linkname l) \<le> NAME_MAX \<and>
     CHR 0x00 \<notin> set (f_url l) \<and> length (f_url l) \<le> PATH_MAX \<and> LinkType_enum (link_type l) \<and>
     content_length l < 2 ^ 64 \<and> - (2 ^ 63) \<le> link_time l \<and> link_time l < 2 ^ 63"

definition stored :: "Link \<Rightarrow> Link" where
  "stored l = l\<lparr>linkpath := [], next_table := None, cache_ptr := None, sonic := \<lparr>sonic_ident = None, depth = 0\<rparr>\<rparr>"

lemma length_link_record [simp]: "length (link_record l) = entry_size"
  by (simp add: link_record_def)

lemma slice_app: "slice (length xs) n (xs @ ys @ zs) = ys" if "length ys = n" for n
  using that by (simp add: slice_def)

lemma slice_at: "n = length xs \<Longrightarrow> k = length ys \<Longrightarrow> slice n k (xs @ ys @ zs) = ys"
  by (simp add: slice_def)

lemma LinkType_code_range: "LinkType_enum t \<Longrightarrow> - (2 ^ 31) \<le> LinkType_code t \<and> LinkType_code t < 2 ^ 31"
  by (cases t) (simp_all add: LinkType_enum_def)

lemma to_size_dec: "n < 2 ^ 64 \<Longrightarrow> to_size (dec_int 8 (enc_int 8 (int n))) = n"
proof -
  assume n: "n < 2 ^ 64"
  have "int (le_val (enc_int 8 (int n))) = int n" using n by (simp add: enc_int_def le_val_le_bytes nat_mod_distrib)
  then have "dec_int 8 (enc_int 8 (int n)) = (if 2 * int n < 256 ^ 8 then int n else int n - 256 ^ 8)"
    by (simp add: dec_int_def Let_def)
  then have "dec_int 8 (enc_int 8 (int n)) mod 2 ^ 64 = int n" using n by (simp add: mod_diff_right_eq)
  then show ?thesis by (simp add: to_size_def)
qed

lemma read_link_record:
  assumes "storable l"
  shows "read_link (link_record l) = stored l"
proof -
  let ?a = "fixed_string NAME_MAX (linkname l)" and ?b = "fixed_string PATH_MAX (f_url l)"
  let ?c = "enc_int 4 (LinkType_code (link_type l))" and ?d = "enc_int 8 (int (content_length l))"
  let ?e = "enc_int 8 (link_time l)"
  have s: "slice 0 NAME_MAX (link_record l) = ?a" "slice NAME_MAX PATH_MAX (link_record l) = ?b"
    "slice (NAME_MAX + PATH_MAX) 4 (link_record l) = ?c"
    "slice (NAME_MAX + PATH_MAX + 4) 8 (link_record l) = ?d"
    "slice (NAME_MAX + PATH_MAX + 12) 8 (link_record l) = ?e"
    by (simp_all add: link_record_def slice_def)
  note st = assms [unfolded storable_def]
  have "dec_int 4 ?c = LinkType_code (link_type l)"
    using st LinkType_code_range [of "link_type l"] by (simp add: dec_enc_int4)
  moreover have "dec_int 8 ?e = link_time l" using st by (simp add: dec_enc_int8)
  ultimately show ?thesis
    unfolding read_link_def s using st
    by (simp add: c_string_fixed LinkType_of_code_code to_size_dec stored_def)
qed

lemma slice_concat:
  assumes "\<forall>x \<in> set xss. length x = n" "i < length xss"
  shows "slice (i * n) n (concat xss) = xss ! i"
  using assms
proof (induction xss arbitrary: i)
  case (Cons x xss)
  then show ?case by (cases i) (simp_all add: slice_def)
qed simp

lemma slice_drop: "slice (k + m) n (xs @ ys) = slice m n ys" if "k = length xs" for k
  using that by (simp add: slice_def)

definition restored :: "LinkTable \<Rightarrow> LinkTable" where
  "restored t = t\<lparr>links := map stored (links t), refcount := 0, orphaned := False, parent_tbl := None,
     parent_link := None\<rparr>"

definition storable_table :: "LinkTable \<Rightarrow> bool" where
  "storable_table t \<longleftrightarrow> links t \<noteq> [] \<and> length (links t) < 2 ^ 31 \<and> list_all storable (links t) \<and>
     - (2 ^ 63) \<le> index_time t \<and> index_time t < 2 ^ 63"

lemma length_concat_records: "length (concat (map link_record ls)) = length ls * entry_size"
  by (induction ls) simp_all

lemma open_saved:
  assumes "storable_table t" "fs (table_file d dirn) = Some (table_bytes t)"
    and flt: "\<not> f_open flt" "\<not> f_read_core flt" "\<not> f_seek flt" "f_read_rest flt = None"
  shows "LinkTable_disk_open d flt fs dirn = (Some (restored t), fs)"
proof -
  let ?n = "length (links t)" and ?bs = "table_bytes t"
  note st = assms(1) [unfolded storable_table_def]
  have len: "length ?bs = 12 + ?n * entry_size" by (simp add: table_bytes_def length_concat_records)
  have sz: "dec_int 4 (slice 0 4 ?bs) = int ?n"
    using st by (simp add: table_bytes_def slice_def dec_enc_int4)
  have time: "dec_int 8 (slice 4 8 ?bs) = index_time t"
    using st by (simp add: table_bytes_def slice_def dec_enc_int8)
  have ent: "read_link (slice (12 + i * entry_size) entry_size ?bs) = stored (links t ! i)" if "i < ?n" for i
  proof -
    have "slice (12 + i * entry_size) entry_size ?bs =
        slice (i * entry_size) entry_size (concat (map link_record (links t)))"
      using slice_drop [of 12 "enc_int 4 (int ?n) @ enc_int 8 (index_time t)" "i * entry_size" entry_size]
      by (simp add: table_bytes_def)
    also have "\<dots> = link_record (links t ! i)"
      using that by (subst slice_concat) simp_all
    finally show ?thesis using read_link_record st that by (simp add: list_all_length)
  qed
  have max: "\<not> c_div (int (length ?bs) - 12) (int entry_size) < int ?n"
    unfolding len by (simp add: cint_simps)
  have links: "map (\<lambda>i. read_link (slice (12 + i * entry_size) entry_size ?bs)) [0..<nat (int ?n)] =
      map stored (links t)"
    by (intro nth_equalityI) (simp_all add: ent [simplified])
  show ?thesis
    unfolding LinkTable_disk_open_def assms(2) option.case Let_def sz time
    using flt len max st links by (simp add: restored_def)
qed

section \<open>What a table file can do\<close>

lemma c_string_length: "length (c_string bs) \<le> length bs"
  by (simp add: c_string_def length_takeWhile_le)

lemma delete_frame: "p \<noteq> table_file d dirn \<Longrightarrow> LinkTable_disk_delete d flt fs dirn p = fs p"
  "\<not> f_unlink flt \<Longrightarrow> LinkTable_disk_delete d flt fs dirn (table_file d dirn) = None"
  by (simp_all add: LinkTable_disk_delete_def unlink_file_def)

lemma read_link_ok: "new_link (read_link bs)" "length (linkname (read_link bs)) \<le> NAME_MAX"
  "length (f_url (read_link bs)) \<le> PATH_MAX"
  using c_string_length [of "slice 0 NAME_MAX bs"] c_string_length [of "slice NAME_MAX PATH_MAX bs"]
  by (simp_all add: read_link_def new_link_def)

lemma open_sound:
  assumes "LinkTable_disk_open d flt fs dirn = (Some t, fs')"
  shows "fs' = fs \<and> new_table t \<and> 1 \<le> length (links t) \<and>
    12 + length (links t) * entry_size \<le> length (contents fs (table_file d dirn)) \<and>
    (\<forall>l \<in> set (links t). length (linkname l) \<le> NAME_MAX \<and> length (f_url l) \<le> PATH_MAX)"
proof -
  obtain bs where bs: "fs (table_file d dirn) = Some bs"
    using assms by (auto simp: LinkTable_disk_open_def split: option.splits)
  let ?sz = "dec_int 4 (slice 0 4 bs)"
  have ok: "\<not> f_open flt" "12 \<le> length bs" "1 \<le> ?sz" "?sz \<le> c_div (int (length bs) - 12) (int entry_size)"
    and t: "fs' = fs" "links t = map (\<lambda>i. read_link (slice (12 + i * entry_size) entry_size bs)) [0..<nat ?sz]"
      "refcount t = 0" "\<not> orphaned t" "parent_tbl t = None" "parent_link t = None"
    using assms by (auto simp: LinkTable_disk_open_def bs Let_def split: if_splits)
  have "?sz \<le> (int (length bs) - 12) div int entry_size" using ok(2,4) by (simp add: c_div_nonneg)
  then have "?sz * int entry_size \<le> int (length bs) - 12"
    using div_mult_le_self [of "int entry_size" "int (length bs) - 12"] by simp
  then have "12 + length (links t) * entry_size \<le> length bs" using ok(3) t(2) by simp
  then show ?thesis using t ok(3) bs read_link_ok by (auto simp: new_table_iff contents_def)
qed

lemma open_torn:
  assumes "k < length (table_bytes t)" "links t \<noteq> []" "length (links t) < 2 ^ 31" "\<not> f_open flt" "\<not> f_unlink flt"
    and "fs (table_file d dirn) = Some (take k (table_bytes t))"
  shows "LinkTable_disk_open d flt fs dirn = (None, fs(table_file d dirn := None))"
proof -
  let ?bs = "take k (table_bytes t)"
  have del: "LinkTable_disk_delete d flt fs dirn = fs(table_file d dirn := None)"
    using assms(5) by (simp add: LinkTable_disk_delete_def unlink_file_def)
  show ?thesis
  proof (cases "length ?bs < 12 \<or> f_read_core flt \<or> f_seek flt")
    case True
    then show ?thesis using assms(4,6) del by (auto simp: LinkTable_disk_open_def)
  next
    case False
    have len: "length (table_bytes t) = 12 + length (links t) * entry_size"
      by (simp add: table_bytes_def length_concat_records)
    have k: "length ?bs = k" "12 \<le> k" using False assms(1) by simp_all
    have "slice 0 4 ?bs = enc_int 4 (int (length (links t)))"
      using k by (simp add: slice_def table_bytes_def min_def)
    then have sz: "dec_int 4 (slice 0 4 ?bs) = int (length (links t))"
      using assms(3) by (simp add: dec_enc_int4)
    have "int k - 12 < int (length (links t)) * int entry_size" using assms(1) len by simp
    then have "(int k - 12) div int entry_size < int (length (links t))"
      by (simp add: div_less_iff_less_mult)
    then have "c_div (int (length ?bs) - 12) (int entry_size) < int (length (links t))"
      using k by (simp add: c_div_nonneg)
    then show ?thesis
      unfolding LinkTable_disk_open_def assms(6) option.case Let_def sz using False assms(4) del by simp
  qed
qed

section \<open>The loader keeps the contract of path resolution\<close>

definition loader :: "list_env \<Rightarrow> faults \<Rightarrow> fs \<Rightarrow> Link \<Rightarrow> LinkTable option" where
  "loader e flt fs link = (case LinkTable_new e flt fs (f_url link) of Some (Some t, _) \<Rightarrow> Some t | _ \<Rightarrow> None)"

definition pages_bounded :: "list_env \<Rightarrow> bool" where
  "pages_bounded e \<longleftrightarrow> (\<forall>html root. l_gumbo e html = Some root \<longrightarrow> length (anchors root) \<le> 2 ^ 29)"

lemma download_link: "Link_download_full as link = Some (page, link') \<Longrightarrow> \<exists>t. link' = link\<lparr>link_time := t\<rparr>"
proof (induction as)
  case (Cons a as)
  obtain code data ft where a: "a = (code, data, ft)" by (cases a)
  have "\<exists>t. link = link\<lparr>link_time := t\<rparr>" by (rule exI [of _ "link_time link"]) simp
  with Cons show ?case by (auto simp: a split: if_splits)
qed simp

lemma LinkTable_new_new:
  assumes "idle (l_net e)" "pages_bounded e" "LinkTable_new e flt fs url = Some (Some t, fs')"
  shows "new_table t"
proof -
  obtain key where key: "url_to_cache_path (l_unescape e) (l_root_url e) (l_root_offset e) (Some url) = Some key"
    using assms(3) by (auto simp: LinkTable_new_def split: option.splits)
  obtain c fs1 where c: "cached_table e flt fs key = Some (c, fs1)"
    using assms(3) key by (auto simp: LinkTable_new_def split: option.splits)
  show ?thesis
  proof (cases c)
    case (Some t0)
    then have "t = t0" using assms(3) key c by (simp add: LinkTable_new_def)
    moreover obtain d fs2 where "LinkTable_disk_open d flt fs key = (Some t0, fs2)"
      using c Some by (auto simp: cached_table_def split: option.splits prod.splits if_splits)
    ultimately show ?thesis using open_sound by blast
  next
    case None
    let ?t = "(LinkTable_alloc url)\<lparr>index_time := l_now e\<rparr>"
    obtain page head where p: "Link_download_full (l_get e url) (hd (links ?t)) = Some (page, head)" "page \<noteq> []"
      using assms(3) key c None by (auto simp: LinkTable_new_def Let_def split: option.splits if_splits)
    obtain parsed filled s' where
      q: "LinkTable_parse_html (l_cfg e) (l_unescape e) (l_gumbo e) (?t\<lparr>links := [head]\<rparr>) url page = Some parsed"
      "LinkTable_fill (l_cfg e) (l_unescape e) (l_escape e) (l_rounds e url) (l_net e) parsed = Some (filled, s')" "t = filled"
      using assms(3) key c None p by (auto simp: LinkTable_new_def Let_def split: option.splits)
    obtain ti where "head = (hd (links ?t))\<lparr>link_time := ti\<rparr>" using download_link [OF p(1)] by blast
    then have "new_link head" using alloc_new [of url] by (simp add: LinkTable_alloc_def LinkTable_add_def)
    then have "new_table (?t\<lparr>links := [head]\<rparr>)" using alloc_new [of url] by (simp add: new_table_iff)
    moreover have "length (case l_gumbo e page of Some r \<Rightarrow> anchors r | None \<Rightarrow> []) \<le> 2 ^ 29"
      using assms(2) by (simp add: pages_bounded_def split: option.split)
    ultimately have "new_table parsed" using parse_new q(1) by blast
    from LinkTable_fill_new [OF this assms(1) q(2)] q(3) show ?thesis by simp
  qed
qed

lemma loader_clean: "idle (l_net e) \<Longrightarrow> pages_bounded e \<Longrightarrow> load_clean (loader e flt fs)"
  using LinkTable_new_new
  by (fastforce simp: load_clean_def loader_def new_table_def split: option.splits prod.splits)

section \<open>Properties\<close>

text \<open>
  C28.  A table that is saved reads back: after a save without an error, opening gives the same
  entries in the same order, with their names, URLs, types, sizes and times, and the index time
  of the table.  The path an entry was linked with is not stored and comes back empty.
\<close>

theorem LinkTable_disk_roundtrip:
  assumes "storable_table t"
  shows "fst (LinkTable_disk_save d no_faults fs t dirn) = 0 \<and>
    LinkTable_disk_open d no_faults (snd (LinkTable_disk_save d no_faults fs t dirn)) dirn =
      (Some (restored t), snd (LinkTable_disk_save d no_faults fs t dirn))"
proof -
  have "snd (LinkTable_disk_save d no_faults fs t dirn) (table_file d dirn) = Some (table_bytes t)"
    by (simp add: LinkTable_disk_save_def no_faults_def)
  from open_saved [where fs = "snd (LinkTable_disk_save d no_faults fs t dirn)" and dirn = dirn and d = d and t = t
      and flt = no_faults, OF assms this] show ?thesis
    by (simp add: LinkTable_disk_save_def no_faults_def)
qed

text \<open>
  Whatever a table file holds and whichever call fails, a table that \<open>LinkTable_disk_open\<close>
  returns has at least one entry, all its entries lie inside the file, their names fit the
  arrays, and nothing points anywhere: no sub-table, no cache, no parent, no reference.  A file
  that a failed save has cut short is never taken for a table: it is deleted.
\<close>

theorem LinkTable_disk_open_sound:
  "(LinkTable_disk_open d flt fs dirn = (Some t, fs') \<longrightarrow>
      fs' = fs \<and> new_table t \<and> 1 \<le> length (links t) \<and>
      12 + length (links t) * entry_size \<le> length (contents fs (table_file d dirn)) \<and>
      (\<forall>l \<in> set (links t). length (linkname l) \<le> NAME_MAX \<and> length (f_url l) \<le> PATH_MAX)) \<and>
   (links u \<noteq> [] \<and> length (links u) < 2 ^ 31 \<and> k < length (table_bytes u) \<and> f_write wflt = Some k \<and> \<not> f_create wflt \<longrightarrow>
      LinkTable_disk_open d no_faults (snd (LinkTable_disk_save d wflt fs u dirn)) dirn =
        (None, fs(table_file d dirn := None)))"
proof -
  have "LinkTable_disk_open d no_faults (snd (LinkTable_disk_save d wflt fs u dirn)) dirn =
      (None, fs(table_file d dirn := None))"
    if "links u \<noteq> []" "length (links u) < 2 ^ 31" "k < length (table_bytes u)" "f_write wflt = Some k" "\<not> f_create wflt"
  proof -
    let ?fs = "fs(table_file d dirn \<mapsto> take k (table_bytes u))"
    have "snd (LinkTable_disk_save d wflt fs u dirn) = ?fs" using that by (simp add: LinkTable_disk_save_def)
    moreover have "?fs (table_file d dirn) = Some (take k (table_bytes u))" by simp
    ultimately show ?thesis
      using open_torn [where k = k and t = u and flt = no_faults and fs = ?fs and d = d and dirn = dirn] that
      by (simp add: no_faults_def)
  qed
  then show ?thesis using open_sound by blast
qed

text \<open>
  The loader keeps the contract that path resolution relies on: every table that
  \<open>LinkTable_new\<close> returns, downloaded or read from the cache, is new.  So resolving a path with the
  program's own loader, from any state the tree can be in, returns, uses no freed table and
  gives out the link with exactly one new reference.
\<close>

theorem listing_feeds_resolution:
  assumes "idle (l_net e)" "pages_bounded e" "tree_reachable (h, g)" "mode (l_cfg e) \<noteq> SINGLE"
    and "card (dom (tables h)) + length path \<le> fuel"
  shows "\<exists>r h'. path_to_Link (mode (l_cfg e)) (loader e flt fs) fuel path h = Some (r, h') \<and>
    (case r of None \<Rightarrow> tree_inv g h'
     | Some l \<Rightarrow> tree_inv (g(fst l := g (fst l) + 1)) h' \<and> get_link l h' \<noteq> None)"
proof -
  have "load_ok (loader e flt fs)" by (rule load_clean_ok [OF loader_clean [OF assms(1,2)]])
  from path_to_Link_safe_inv [OF this assms(4) tree_reachable_inv [OF assms(3)] assms(5)] show ?thesis by blast
qed

lemma downloaded_index_time:
  assumes "pages_bounded e" "LinkTable_new e flt fs url = Some (Some t, fs')"
    and key: "url_to_cache_path (l_unescape e) (l_root_url e) (l_root_offset e) (Some url) = Some key"
    and c: "cached_table e flt fs key = Some (None, fs1)"
  shows "index_time t = l_now e"
    and "l_dirs e = Some d \<Longrightarrow> fs' = snd (LinkTable_disk_save d flt fs1 t key)"
proof -
  let ?t = "(LinkTable_alloc url)\<lparr>index_time := l_now e\<rparr>"
  obtain page head where p: "Link_download_full (l_get e url) (hd (links ?t)) = Some (page, head)" "page \<noteq> []"
    using assms(2) key c by (auto simp: LinkTable_new_def Let_def split: option.splits if_splits)
  obtain parsed s' where
    q: "LinkTable_parse_html (l_cfg e) (l_unescape e) (l_gumbo e) (?t\<lparr>links := [head]\<rparr>) url page = Some parsed"
    "LinkTable_fill (l_cfg e) (l_unescape e) (l_escape e) (l_rounds e url) (l_net e) parsed = Some (t, s')"
    and fs': "fs' = (case l_dirs e of None \<Rightarrow> fs1 | Some d \<Rightarrow> snd (LinkTable_disk_save d flt fs1 t key))"
    using assms(2) key c p by (auto simp: LinkTable_new_def Let_def split: option.splits)
  show "l_dirs e = Some d \<Longrightarrow> fs' = snd (LinkTable_disk_save d flt fs1 t key)" using fs' by simp
  have "index_time parsed = l_now e"
  proof (cases "l_gumbo e page")
    case None
    with q(1) show ?thesis by (auto simp: LinkTable_parse_html_def)
  next
    case (Some root)
    then have "length (anchors root) \<le> 2 ^ 29" using assms(1) by (simp add: pages_bounded_def)
    from parse_first_wins [where gumbo_parse = "l_gumbo e" and html = page, OF Some this] q(1)
    show ?thesis by auto
  qed
  then show "index_time t = l_now e" using q(2) by (auto simp: LinkTable_fill_def split: list.splits option.splits)
qed

text \<open>
  A listing is downloaded at most once per refresh interval.  After a table has been
  downloaded and saved, creating it again not later than \<open>refresh_timeout\<close> after that returns the
  same entries from the cache whatever the server would answer by then, and leaves the cache as
  it is; later than that, the copy in the cache is not used.
\<close>

theorem reload_within_timeout:
  assumes "pages_bounded e" "LinkTable_new e no_faults fs url = Some (Some t, fs')" "l_dirs e = Some d"
    and key: "url_to_cache_path (l_unescape e) (l_root_url e) (l_root_offset e) (Some url) = Some key"
    and c: "cached_table e no_faults fs key = Some (None, fs1)"
    and "storable_table t"
  shows "if now2 - l_now e \<le> refresh_timeout (l_cfg e)
    then LinkTable_new (e\<lparr>l_now := now2, l_gumbo := gumbo2, l_get := get2, l_net := net2, l_rounds := rounds2\<rparr>)
           no_faults fs' url = Some (Some (restored t), fs')
    else cached_table (e\<lparr>l_now := now2, l_gumbo := gumbo2, l_get := get2, l_net := net2, l_rounds := rounds2\<rparr>)
           no_faults fs' key = Some (None, fs')"
proof -
  note down = downloaded_index_time [OF assms(1,2) key c]
  have on_disk: "fs' (table_file d key) = Some (table_bytes t)"
    using down(2) [OF assms(3)] by (simp add: LinkTable_disk_save_def no_faults_def)
  have open2: "LinkTable_disk_open d no_faults fs' key = (Some (restored t), fs')"
    by (rule open_saved [where fs = fs' and d = d and dirn = key, OF assms(6) on_disk]) (simp_all add: no_faults_def)
  have time: "index_time (restored t) = l_now e" using down(1) by (simp add: restored_def)
  obtain x where "CacheDir_create d (l_mkdir_fails e) key = Some x"
    using c assms(3) by (cases "CacheDir_create d (l_mkdir_fails e) key") (simp_all add: cached_table_def)
  then show ?thesis using assms(3) key open2 time by (simp add: LinkTable_new_def cached_table_def)
qed

section \<open>A scenario\<close>

definition demo_list_dirs :: cache_dirs where
  "demo_list_dirs = \<lparr>META_DIR = ''/c/meta'', DATA_DIR = ''/c/data''\<rparr>"

definition demo_list_env :: list_env where
  "demo_list_env =
    \<lparr>l_cfg = Config_init ''httpdirfs'' 15, l_unescape = Some, l_escape = Some,
     l_gumbo = (\<lambda>_. Some NoElement), l_root_url = Some ''http://h/'', l_root_offset = 8,
     l_dirs = Some demo_list_dirs, l_mkdir_fails = (\<lambda>_. False), l_now = 100,
     l_get = (\<lambda>_. [(429, [], 0), (200, ''<html>'', 7)]), l_net = demo_net, l_rounds = (\<lambda>_. [])\<rparr>"

definition demo_listing :: LinkTable where
  "demo_listing = \<lparr>index_time = 100, links = [(hd (links (LinkTable_alloc ''http://h/'')))\<lparr>link_time := 7\<rparr>],
     refcount = 0, orphaned = False, parent_tbl = None, parent_link = None\<rparr>"

lemma demo_listing_storable: "storable_table demo_listing"
  by (simp add: storable_table_def storable_def demo_listing_def LinkTable_alloc_def LinkTable_add_def Link_new_def
      LinkType_enum_def Let_def)

lemma demo_list_key: "url_to_cache_path (l_unescape demo_list_env) (l_root_url demo_list_env)
    (l_root_offset demo_list_env) (Some ''http://h/'') = Some ''/''"
  by code_simp

lemma demo_list_miss: "cached_table demo_list_env flt (\<lambda>_. None) ''/'' = Some (None, (\<lambda>_. None))"
  by (simp add: cached_table_def demo_list_env_def CacheDir_create_def Let_def LinkTable_disk_open_def)

lemma demo_list_download:
  "LinkTable_new demo_list_env no_faults (\<lambda>_. None) ''http://h/'' =
    Some (Some demo_listing, snd (LinkTable_disk_save demo_list_dirs no_faults (\<lambda>_. None) demo_listing ''/''))"
proof -
  let ?t = "(LinkTable_alloc ''http://h/'')\<lparr>index_time := 100\<rparr>"
  let ?h = "(hd (links (LinkTable_alloc ''http://h/'')))\<lparr>link_time := 7\<rparr>"
  have "Link_download_full (l_get demo_list_env ''http://h/'') (hd (links ?t)) = Some (''<html>'', ?h)"
    by code_simp
  moreover have "LinkTable_parse_html (l_cfg demo_list_env) (l_unescape demo_list_env) (l_gumbo demo_list_env)
      (?t\<lparr>links := [?h]\<rparr>) ''http://h/'' ''<html>'' = Some (?t\<lparr>links := [?h]\<rparr>)"
    by code_simp
  moreover have "map_option fst (LinkTable_fill (l_cfg demo_list_env) (l_unescape demo_list_env) (l_escape demo_list_env)
      (l_rounds demo_list_env ''http://h/'') (l_net demo_list_env) (?t\<lparr>links := [?h]\<rparr>)) = Some demo_listing"
    by code_simp
  moreover have "l_now demo_list_env = 100" "l_dirs demo_list_env = Some demo_list_dirs"
    by (simp_all add: demo_list_env_def)
  ultimately show ?thesis
    by (auto simp: LinkTable_new_def demo_list_key demo_list_miss Let_def)
qed

lemma demo_list_bounded: "pages_bounded demo_list_env"
  by (simp add: pages_bounded_def demo_list_env_def)

theorem reload_within_timeout_witness:
  "LinkTable_new (demo_list_env\<lparr>l_now := 200, l_gumbo := (\<lambda>_. None), l_get := (\<lambda>_. []), l_net := demo_net, l_rounds := (\<lambda>_. [])\<rparr>)
     no_faults (snd (LinkTable_disk_save demo_list_dirs no_faults (\<lambda>_. None) demo_listing ''/'')) ''http://h/'' =
   Some (Some (restored demo_listing), snd (LinkTable_disk_save demo_list_dirs no_faults (\<lambda>_. None) demo_listing ''/''))"
proof -
  have "l_dirs demo_list_env = Some demo_list_dirs" "200 - l_now demo_list_env \<le> refresh_timeout (l_cfg demo_list_env)"
    by (simp_all add: demo_list_env_def Config_init_def)
  with reload_within_timeout [OF demo_list_bounded demo_list_download _ demo_list_key demo_list_miss demo_listing_storable,
      of demo_list_dirs 200] show ?thesis by simp
qed

theorem LinkTable_disk_roundtrip_witness:
  "LinkTable_disk_open demo_list_dirs no_faults
     (snd (LinkTable_disk_save demo_list_dirs no_faults (\<lambda>_. None) demo_listing ''/'')) ''/'' =
   (Some (restored demo_listing), snd (LinkTable_disk_save demo_list_dirs no_faults (\<lambda>_. None) demo_listing ''/''))"
  using LinkTable_disk_roundtrip [OF demo_listing_storable] by blast

theorem LinkTable_disk_open_sound_witness:
  "LinkTable_disk_open demo_list_dirs no_faults
     (snd (LinkTable_disk_save demo_list_dirs (no_faults\<lparr>f_write := Some 40\<rparr>) (\<lambda>_. None) demo_listing ''/'')) ''/'' =
   (None, (\<lambda>_. None)(table_file demo_list_dirs ''/'' := None))"
proof -
  have "40 < length (table_bytes demo_listing)"
    by (simp add: table_bytes_def demo_listing_def LinkTable_alloc_def LinkTable_add_def)
  moreover have "links demo_listing \<noteq> [] \<and> length (links demo_listing) < 2 ^ 31" by (simp add: demo_listing_def)
  ultimately show ?thesis
    using LinkTable_disk_open_sound [where wflt = "no_faults\<lparr>f_write := Some 40\<rparr>" and u = demo_listing and k = 40
        and fs = "\<lambda>_. None" and d = demo_list_dirs and dirn = "''/''"]
    by (simp add: no_faults_def)
qed

theorem listing_feeds_resolution_witness:
  "\<exists>h r h'. tables h 0 \<noteq> None \<and>
    path_to_Link (mode (l_cfg demo_list_env)) (loader demo_list_env no_faults (\<lambda>_. None)) 6 ''/d/d'' h = Some (r, h')"
proof -
  obtain h where h: "tree_reachable (h, (\<lambda>_. 0)(1 := 1))" "card (dom (tables h)) = 2" "tables h 0 \<noteq> None"
    using demo_reachable by blast
  have e: "idle (l_net demo_list_env)" "mode (l_cfg demo_list_env) \<noteq> SINGLE"
    using demo_idle by (simp_all add: demo_list_env_def Config_init_def)
  have "card (dom (tables h)) + length ''/d/d'' \<le> 6" using h(2) by simp
  from listing_feeds_resolution [OF e(1) demo_list_bounded h(1) e(2) this] h(3) show ?thesis by blast
qed

end
