(* ===== verification/Request.thy ===== *)
theory Request
  imports LinkListing
begin

text \<open>
  The requests the program makes (\<open>src/link.c\<close>): \<open>Link_to_curl\<close> with the scope of the
  credentials, and the range of \<open>Link_download_curl_setup\<close>.

  A request is the set of options given to libcurl that this program chooses by its state; an
  option that is not set has libcurl's default, None or an empty list here.
\<close>

section \<open>Link_to_curl\<close>

record request =
  rq_url :: cstr
  rq_user_agent :: "cstr option"
  rq_follow :: bool
  rq_maxredirs :: int
  rq_keepalive :: bool
  rq_pipewait :: bool
  rq_http_version :: int
  rq_connect_timeout :: int
  rq_ca :: "(cstr option \<times> cstr option) option"
  rq_verify_peer :: bool
  rq_verbose :: bool
  rq_headers :: "cstr list"
  rq_username :: "cstr option"
  rq_password :: "cstr option"
  rq_proxy :: "cstr option"
  rq_proxy_username :: "cstr option"
  rq_proxy_password :: "cstr option"
  rq_proxy_ca :: "(cstr option \<times> cstr option) option"
  rq_nobody :: bool
  rq_filetime :: bool
  rq_range :: "cstr option"

text \<open>\<open>root_url\<close> is the URL of \<open>ROOT_LINK_TBL\<close>, None while there is no such table.\<close>

definition is_same_origin :: "ConfigStruct \<Rightarrow> cstr option \<Rightarrow> cstr \<Rightarrow> bool" where
  "is_same_origin cfg root_url link_url \<longleftrightarrow>
    \<not> external_links cfg \<or> root_url = None \<or> \<not> is_cross_origin root_url (Some link_url)"

text \<open>\<open>http3\<close>: whether this libcurl accepts HTTP/3.\<close>

definition Link_to_curl :: "ConfigStruct \<Rightarrow> cstr option \<Rightarrow> bool \<Rightarrow> Link \<Rightarrow> request" where
  "Link_to_curl cfg root_url http3 link =
    (let same = is_same_origin cfg root_url (f_url link)
     in \<lparr>rq_url = f_url link, rq_user_agent = user_agent cfg, rq_follow = True, rq_maxredirs = 2,
         rq_keepalive = True, rq_pipewait = True, rq_http_version = (if http3 then 3 else 2),
         rq_connect_timeout = 15,
         rq_ca = (if cafile cfg \<noteq> None \<or> capath cfg \<noteq> None then Some (capath cfg, cafile cfg) else None),
         rq_verify_peer = (\<not> insecure_tls cfg),
         rq_verbose = (log_type cfg AND libcurl_debug \<noteq> 0),
         rq_headers = (if http_headers cfg \<noteq> [] \<and> same then http_headers cfg else []),
         rq_username = (if http_username cfg \<noteq> None \<and> same then http_username cfg else None),
         rq_password = (if http_password cfg \<noteq> None \<and> same then http_password cfg else None),
         rq_proxy = proxy cfg, rq_proxy_username = proxy_username cfg, rq_proxy_password = proxy_password cfg,
         rq_proxy_ca = (if proxy_cafile cfg \<noteq> None \<or> proxy_capath cfg \<noteq> None
                        then Some (proxy_capath cfg, proxy_cafile cfg) else None),
         rq_nobody = False, rq_filetime = False, rq_range = None\<rparr>)"

text \<open>The request of \<open>Link_req_file_stat\<close>, whose bookkeeping is \<open>Network.Link_req_file_stat\<close>.\<close>

definition file_stat_request :: "ConfigStruct \<Rightarrow> cstr option \<Rightarrow> bool \<Rightarrow> Link \<Rightarrow> request" where
  "file_stat_request cfg root_url http3 link =
    (Link_to_curl cfg root_url http3 link)\<lparr>rq_nobody := True, rq_filetime := True\<rparr>"

section \<open>The range of a download\<close>

text \<open>The decimal digits of \<open>%lu\<close>.\<close>

definition digit :: "nat \<Rightarrow> char" where
  "digit n = char_of (48 + n)"

fun show_nat :: "nat \<Rightarrow> cstr" where
  "show_nat n = (if n < 10 then [digit n] else show_nat (n div 10) @ [digit (n mod 10)])"

declare show_nat.simps [simp del]

text \<open>The arithmetic is on \<open>size_t\<close> and wraps.\<close>

definition range_bounds :: "64 word \<Rightarrow> int \<Rightarrow> 64 word \<times> 64 word" where
  "range_bounds req_size offset = (let start = word_of_int offset in (start, start + req_size - 1))"

definition Link_download_curl_setup ::
    "ConfigStruct \<Rightarrow> cstr option \<Rightarrow> bool \<Rightarrow> Link \<Rightarrow> 64 word \<Rightarrow> int \<Rightarrow> request" where
  "Link_download_curl_setup cfg root_url http3 link req_size offset =
    (case range_bounds req_size offset of
       (start, end') \<Rightarrow>
         (Link_to_curl cfg root_url http3 link)
           \<lparr>rq_range := Some (take 63 (show_nat (unat start) @ ''-'' @ show_nat (unat end')))\<rparr>)"

text \<open>What a server reads in a range: two decimal numbers with a hyphen between them.\<close>

fun read_nat :: "nat \<Rightarrow> cstr \<Rightarrow> nat \<times> cstr" where
  "read_nat acc [] = (acc, [])"
| "read_nat acc (c # cs) =
    (let d = of_char c :: nat
     in if 48 \<le> d \<and> d < 58 then read_nat (10 * acc + (d - 48)) cs else (acc, c # cs))"

definition read_range :: "cstr \<Rightarrow> (nat \<times> nat) option" where
  "read_range s =
    (case read_nat 0 s of
       (a, c # rest) \<Rightarrow>
         (case read_nat 0 rest of (b, left) \<Rightarrow> if c = CHR ''-'' \<and> left = [] then Some (a, b) else None)
     | _ \<Rightarrow> None)"

section \<open>A range reads back as the bytes that are wanted\<close>

lemma digit_code: "d < 10 \<Longrightarrow> (of_char (digit d) :: nat) = 48 + d"
  by (simp add: digit_def)

lemma read_show_nat: "read_nat acc (show_nat n @ rest) = read_nat (acc * 10 ^ length (show_nat n) + n) rest"
proof (induction n arbitrary: acc rest rule: show_nat.induct)
  case (1 n)
  show ?case
  proof (cases "n < 10")
    case True
    then show ?thesis by (simp add: show_nat.simps [of n] digit_code mult.commute)
  next
    case False
    have "read_nat acc (show_nat n @ rest) = read_nat acc (show_nat (n div 10) @ digit (n mod 10) # rest)"
      using False by (simp add: show_nat.simps [of n])
    also have "\<dots> = read_nat (acc * 10 ^ length (show_nat (n div 10)) + n div 10) (digit (n mod 10) # rest)"
      using 1 False by blast
    also have "\<dots> = read_nat (10 * (acc * 10 ^ length (show_nat (n div 10)) + n div 10) + n mod 10) rest"
      by (simp add: digit_code)
    also have "10 * (acc * 10 ^ length (show_nat (n div 10)) + n div 10) + n mod 10 =
        acc * 10 ^ length (show_nat n) + n"
      using False by (simp add: show_nat.simps [of n] algebra_simps)
    finally show ?thesis .
  qed
qed

lemma length_show_nat: "0 < k \<Longrightarrow> n < 10 ^ k \<Longrightarrow> length (show_nat n) \<le> k"
proof (induction k arbitrary: n)
  case (Suc k)
  show ?case
  proof (cases "n < 10")
    case True
    then show ?thesis by (simp add: show_nat.simps [of n])
  next
    case False
    then have "n div 10 < 10 ^ k" "0 < k" using Suc.prems by (auto intro: less_mult_imp_div_less Suc_lessI gr0I)
    with Suc.IH False show ?thesis by (simp add: show_nat.simps [of n])
  qed
qed simp

lemma length_show_word: "length (show_nat (unat (w :: 64 word))) \<le> 20"
proof -
  have "unat w < 2 ^ LENGTH(64)" by (rule unsigned_less)
  then have "unat w < 10 ^ 20" by simp
  then show ?thesis by (rule length_show_nat [rotated]) simp
qed

lemma read_range_show: "read_range (show_nat a @ CHR ''-'' # show_nat b) = Some (a, b)"
proof -
  have b: "read_nat 0 (show_nat b) = (b, [])" using read_show_nat [of 0 b "[]"] by simp
  show ?thesis by (simp add: read_range_def read_show_nat b)
qed

lemma setup_range:
  "rq_range (Link_download_curl_setup cfg root_url http3 link req_size offset) =
    Some (show_nat (unat (fst (range_bounds req_size offset))) @ ''-'' @
          show_nat (unat (snd (range_bounds req_size offset))))"
proof -
  obtain a b where ab: "range_bounds req_size offset = (a, b)" by force
  have "length (show_nat (unat a) @ ''-'' @ show_nat (unat b)) \<le> 63"
    using length_show_word [of a] length_show_word [of b] by simp
  then show ?thesis unfolding Link_download_curl_setup_def ab by simp
qed

lemma range_bounds_exact:
  assumes "0 \<le> offset" "offset < 2 ^ 63" "0 < req_size" "nat offset + unat req_size \<le> n" "n < 2 ^ 64"
  shows "unat (fst (range_bounds req_size offset)) = nat offset"
    and "unat (snd (range_bounds req_size offset)) = nat offset + unat req_size - 1"
proof -
  let ?s = "word_of_int offset :: 64 word"
  have s: "unat ?s = nat offset" using assms(1,2) by (simp add: unat_eq_nat_uint uint_word_of_int)
  then show "unat (fst (range_bounds req_size offset)) = nat offset" by (simp add: range_bounds_def Let_def)
  have pos: "0 < unat req_size" using assms(3) by (simp add: unat_gt_0 word_gt_0)
  have sum: "unat (?s + req_size) = nat offset + unat req_size"
    using s assms(4,5) by (subst unat_add_lem [THEN iffD1]) simp_all
  have "1 \<le> ?s + req_size" using sum pos by (simp add: word_le_nat_alt)
  then have "unat (?s + req_size - 1) = unat (?s + req_size) - 1" by (simp add: unat_sub)
  with sum show "unat (snd (range_bounds req_size offset)) = nat offset + unat req_size - 1"
    by (simp add: range_bounds_def Let_def)
qed

section \<open>Properties\<close>


definition link_to :: "cstr \<Rightarrow> Link" where
  "link_to url = (Link_new ''x'' LINK_FILE)\<lparr>f_url := url\<rparr>"

definition demo_cfg :: ConfigStruct where
  "demo_cfg = (Config_init ''httpdirfs'' 15)\<lparr>external_links := True, http_username := Some ''me'', http_password := Some ''pw''\<rparr>"


text \<open>
  The exception is the listing of the root itself: while it is loaded \<open>ROOT_LINK_TBL\<close> is
  still NULL and \<open>is_same_origin\<close> accepts every URL, so the requests for the sizes of its
  external links carry the name, the password and the headers of the mounted server to other
  servers.
\<close>

theorem root_listing_leaks_credentials:
  assumes "external_links cfg" "is_external_url (Some href)" "is_cross_origin (Some url) (Some href)"
    and "anchor_entry cfg unescape url href = Some (name, link)" "length href \<le> PATH_MAX"
  shows "uninitialised link \<and> f_url link = href \<and>
    rq_username (file_stat_request cfg None http3 link) = http_username cfg \<and>
    rq_password (file_stat_request cfg None http3 link) = http_password cfg \<and>
    rq_headers (file_stat_request cfg None http3 link) = http_headers cfg"
  using assms
  by (auto simp: anchor_entry_def external_entry_def Let_def uninitialised_def Link_new_def file_stat_request_def
      Link_to_curl_def is_same_origin_def split: if_splits)

theorem root_listing_leaks_credentials_witness:
  "\<exists>name link. anchor_entry demo_cfg Some ''http://h/'' ''http://e/x'' = Some (name, link) \<and>
    rq_password (file_stat_request demo_cfg None True link) = Some ''pw''"
proof -
  have "anchor_entry demo_cfg Some ''http://h/'' ''http://e/x'' \<noteq> None" by code_simp
  then obtain name link where a: "anchor_entry demo_cfg Some ''http://h/'' ''http://e/x'' = Some (name, link)" by auto
  have "is_external_url (Some ''http://e/x'')" "is_cross_origin (Some ''http://h/'') (Some ''http://e/x'')" by code_simp+
  moreover have "external_links demo_cfg" "http_password demo_cfg = Some ''pw''" by (simp_all add: demo_cfg_def)
  ultimately show ?thesis using root_listing_leaks_credentials [OF _ _ _ a, of True] a by auto
qed

text \<open>
  C23.  The range that a download asks for is, for every part of a file that libcurl can address,
  exactly the wanted bytes as a server reads them: the first is the offset, the last is
  inclusive, the arithmetic does not wrap and the buffer of the text is never too short.
\<close>

theorem range_request_exact:
  assumes "0 \<le> offset" "offset < 2 ^ 63" "0 < req_size" "nat offset + unat req_size \<le> content_length link"
    and "content_length link < 2 ^ 64"
  shows "map_option read_range (rq_range (Link_download_curl_setup cfg root_url http3 link req_size offset)) =
    Some (Some (nat offset, nat offset + unat req_size - 1))"
  unfolding setup_range by (simp add: read_range_show range_bounds_exact [OF assms])

theorem range_request_exact_witness:
  "map_option read_range (rq_range (Link_download_curl_setup demo_cfg None True
      ((link_to ''http://h/x'')\<lparr>content_length := 5000\<rparr>) 904 4096)) = Some (Some (4096, 4999))"
  by (subst range_request_exact) simp_all

end
