(* ===== verification/Download.thy ===== *)
theory Download
  imports Request CacheDl CacheOpenProps
begin

text \<open>
  Reading a part of a file straight from the server: \<open>write_memory_callback\<close>
  (\<open>src/memcache.c\<close>) with its sizes as machine words, \<open>Link_download\<close> without a cache and
  \<open>path_download\<close> (\<open>src/link.c\<close>).  The transfers of cached files are in \<open>CacheDl\<close>.
\<close>

section \<open>The receive buffer\<close>

text \<open>
  \<open>data\<close> of a \<open>TransferStruct\<close>, None for NULL, with the terminator the callback writes behind
  the bytes, and \<open>curr_size\<close>.
\<close>

record buffer =
  data :: "byte list option"
  curr_size :: "64 word"

text \<open>None is the fatal overflow.  \<open>REALLOC\<close> keeps the bytes; \<open>memmove\<close> reads \<open>size * nmemb\<close> of them.\<close>

definition write_memory_callback :: "byte list \<Rightarrow> 64 word \<Rightarrow> 64 word \<Rightarrow> buffer \<Rightarrow> (64 word \<times> buffer) option" where
  "write_memory_callback recv_data sz nmemb ts =
    (if sz \<noteq> 0 \<and> nmemb > (- 1 - curr_size ts - 1) div sz then None
     else (let recv_size = sz * nmemb;
               old = (case data ts of None \<Rightarrow> [] | Some d \<Rightarrow> take (unat (curr_size ts)) d)
           in Some (recv_size,
                \<lparr>data = Some (old @ take (unat recv_size) recv_data @ [0]), curr_size = curr_size ts + recv_size\<rparr>)))"

text \<open>The state between two calls: as many bytes as counted, and the terminator.\<close>

definition buffer_holds :: "buffer \<Rightarrow> byte list \<Rightarrow> bool" where
  "buffer_holds ts bs \<longleftrightarrow> unat (curr_size ts) = length bs \<and> length bs + 1 < 2 ^ 64 \<and>
    (case data ts of None \<Rightarrow> bs = [] | Some d \<Rightarrow> d = bs @ [0])"

section \<open>One transfer\<close>

text \<open>
  A finished transfer: the bytes of the header buffer, NULL when no header came, the response
  code, the size that libcurl counted and the bytes of the body.
\<close>

record attempt =
  a_header :: "cstr option"
  a_code :: int
  a_size :: int
  a_body :: "byte list"

definition strcasestr :: "cstr \<Rightarrow> cstr \<Rightarrow> bool" where
  "strcasestr s pat \<longleftrightarrow>
    list_ex (\<lambda>i. map c_tolower (take (length pat) (drop i s)) = map c_tolower pat) [0..<Suc (length s)]"

text \<open>
  The range check of \<open>Link_download_cleanup\<close>: None when the process exits for a server without
  ranges, or dies on the null pointer of an empty header.
\<close>

definition range_check :: "ConfigStruct \<Rightarrow> cstr option \<Rightarrow> unit option" where
  "range_check cfg header =
    (if no_range_check cfg then Some ()
     else (case header of
             None \<Rightarrow> None
           | Some h \<Rightarrow> if strcasestr h ''Accept-Ranges: bytes'' \<or> strcasestr h ''Content-Range: bytes''
                       then Some () else None))"

text \<open>
  The loop of \<open>Link_download\<close> for \<open>cf = NULL\<close>.  The attempts are the server's answers in order;
  None means that they are used up, that the process is gone, or that \<open>memmove\<close> would read
  behind the buffer.
\<close>

fun download_loop :: "ConfigStruct \<Rightarrow> nat \<Rightarrow> attempt list \<Rightarrow> (int \<times> byte list) option" where
  "download_loop cfg req [] = None"
| "download_loop cfg req (a # as) =
    (case range_check cfg (a_header a) of
       None \<Rightarrow> None
     | Some _ \<Rightarrow>
         (let recv_sz = Link_download_cleanup (a_code a) (a_size a)
          in if recv_sz < 0 then
               (if recv_sz = - EAGAIN then download_loop cfg req as else Some (recv_sz, []))
             else if recv_sz \<noteq> to_off req then download_loop cfg req as
             else if length (a_body a) < nat recv_sz then None
             else Some (recv_sz, take (nat recv_sz) (a_body a))))"

definition Link_download :: "ConfigStruct \<Rightarrow> Link \<Rightarrow> nat \<Rightarrow> int \<Rightarrow> attempt list \<Rightarrow> (int \<times> byte list) option" where
  "Link_download cfg link req offset as =
    (if req = 0 \<or> content_length link = 0 \<or> offset < 0 \<or> to_size offset \<ge> content_length link then Some (0, [])
     else (let remaining = content_length link - to_size offset
           in download_loop cfg (if req > remaining then remaining else req) as))"

text \<open>The answers may depend on the URL and the range.\<close>

definition path_download ::
    "cache_env \<Rightarrow> (Link \<Rightarrow> nat \<Rightarrow> int \<Rightarrow> attempt list) \<Rightarrow> cstr \<Rightarrow> nat \<Rightarrow> int \<Rightarrow> cstate
     \<Rightarrow> (int \<times> byte list \<times> cstate) option" where
  "path_download e server path req offset s =
    (case find_link e path s of
       None \<Rightarrow> None
     | Some (None, s1) \<Rightarrow> Some (- ENOENT, [], s1)
     | Some (Some l, s1) \<Rightarrow>
         (case get_link l (tree s1) of
            None \<Rightarrow> None
          | Some link \<Rightarrow>
              (case Link_download (e_cfg e) link req offset (server link req offset) of
                 None \<Rightarrow> None
               | Some (res, bs) \<Rightarrow> map_option (\<lambda>s2. (res, bs, s2)) (drop_link e l s1))))"

section \<open>The buffer\<close>

lemma write_callback_room:
  assumes "buffer_holds ts bs"
  shows "write_memory_callback recv_data sz nmemb ts = None \<longleftrightarrow> length bs + unat sz * unat nmemb + 1 \<ge> 2 ^ 64"
proof -
  let ?c = "unat (curr_size ts)"
  have c: "?c = length bs" "?c + 1 < 2 ^ 64" using assms by (simp_all add: buffer_holds_def)
  have max: "unat (- 1 :: 64 word) = 2 ^ 64 - 1" by (simp add: unsigned_minus_1_eq_mask mask_eq_exp_minus_1)
  have "curr_size ts \<le> - 1" by simp
  then have top: "unat (- 1 - curr_size ts) = 2 ^ 64 - 1 - ?c" using max by (simp add: unat_sub)
  then have "1 \<le> - 1 - curr_size ts" using c(2) by (simp add: word_le_nat_alt)
  then have "unat (- 1 - curr_size ts - 1) = unat (- 1 - curr_size ts) - unat (1 :: 64 word)" by (rule unat_sub)
  also have "\<dots> = 2 ^ 64 - 2 - ?c" unfolding top by simp
  finally have left: "unat (- 1 - curr_size ts - 1) = 2 ^ 64 - 2 - ?c" .
  show ?thesis
  proof (cases "sz = 0")
    case True
    then show ?thesis using c by (simp add: write_memory_callback_def)
  next
    case False
    then have "0 < unat sz" by (simp add: unat_gt_0)
    then have "(2 ^ 64 - 2 - ?c) div unat sz < unat nmemb \<longleftrightarrow> 2 ^ 64 - 2 - ?c < unat nmemb * unat sz"
      by (rule div_less_iff_less_mult)
    moreover have "unat ((- 1 - curr_size ts - 1) div sz) = (2 ^ 64 - 2 - ?c) div unat sz"
      unfolding unat_div left ..
    ultimately have "nmemb > (- 1 - curr_size ts - 1) div sz \<longleftrightarrow> 2 ^ 64 - 2 - ?c < unat nmemb * unat sz"
      unfolding word_less_nat_alt by metis
    then show ?thesis using False c by (auto simp: write_memory_callback_def mult.commute Let_def)
  qed
qed

lemma write_callback_appends:
  assumes "buffer_holds ts bs" "length recv_data = unat sz * unat nmemb"
    and "write_memory_callback recv_data sz nmemb ts = Some (n, ts')"
  shows "unat n = length recv_data \<and> buffer_holds ts' (bs @ recv_data)"
proof -
  have room: "length bs + unat sz * unat nmemb + 1 < 2 ^ 64"
    using write_callback_room [OF assms(1), of recv_data sz nmemb] assms(3) by simp
  have c: "unat (curr_size ts) = length bs" using assms(1) by (simp add: buffer_holds_def)
  have prod: "unat (sz * nmemb) = length recv_data"
    using room assms(2) by (subst unat_mult_lem [THEN iffD1]) simp_all
  have sum: "unat (curr_size ts + sz * nmemb) = length bs + length recv_data"
    using room assms(2) c prod by (subst unat_add_lem [THEN iffD1]) simp_all
  have res: "n = sz * nmemb" "curr_size ts' = curr_size ts + sz * nmemb"
    "data ts' = Some ((case data ts of None \<Rightarrow> [] | Some d \<Rightarrow> take (unat (curr_size ts)) d) @
       take (unat (sz * nmemb)) recv_data @ [0])"
    using assms(3) by (auto simp: write_memory_callback_def Let_def split: if_splits)
  have "(case data ts of None \<Rightarrow> [] | Some d \<Rightarrow> take (unat (curr_size ts)) d) = bs"
    using assms(1) c by (auto simp: buffer_holds_def split: option.splits)
  then show ?thesis using res prod sum room assms(2) by (simp add: buffer_holds_def)
qed

section \<open>What a download can return\<close>

lemma cleanup_codes:
  "http_resp \<in> {200, 206, 416} \<Longrightarrow> Link_download_cleanup http_resp n = n"
  "HTTP_temp_failure http_resp \<Longrightarrow> Link_download_cleanup http_resp n = - EAGAIN"
  "http_resp \<notin> {200, 206, 416} \<Longrightarrow> Link_download_cleanup http_resp n < 0"
  by (auto simp: Link_download_cleanup_def HTTP_temp_failure_def)

text \<open>An attempt that the file server of a file \<open>remote\<close> may produce for a range.\<close>

definition honest :: "ConfigStruct \<Rightarrow> byte list \<Rightarrow> nat \<Rightarrow> nat \<Rightarrow> attempt \<Rightarrow> bool" where
  "honest cfg remote offset m a \<longleftrightarrow>
    range_check cfg (a_header a) \<noteq> None \<and> a_size a = int (length (a_body a)) \<and>
    (a_code a = 206 \<longrightarrow> (\<exists>k. a_body a = Prelude.slice offset k remote)) \<and>
    (a_code a = 200 \<longrightarrow> a_body a = remote) \<and>
    (a_code a = 416 \<longrightarrow> length (a_body a) \<noteq> m)"

lemma slice_of_length: "bs = Prelude.slice offset k remote \<Longrightarrow> bs = Prelude.slice offset (length bs) remote"
  by (cases "k \<le> length (drop offset remote)") (simp_all add: Prelude.slice_def)

lemma download_loop_bound:
  "download_loop cfg req as = Some (n, bs) \<Longrightarrow> n < 0 \<and> bs = [] \<or> n = to_off req \<and> 0 \<le> n \<and> int (length bs) = n"
proof (induction cfg req as rule: download_loop.induct)
  case (2 cfg req a as)
  then show ?case by (auto simp: Let_def split: option.splits if_splits)
qed simp

lemma download_loop_exact:
  assumes "\<forall>a \<in> set as. honest cfg remote offset m a" "m < 2 ^ 63" "0 < m" "offset + m \<le> length remote"
    and "download_loop cfg m as = Some (n, bs)" "0 \<le> n"
  shows "n = int m \<and> bs = Prelude.slice offset m remote"
  using assms(1,5)
proof (induction as)
  case (Cons a as)
  have a: "honest cfg remote offset m a" using Cons.prems(1) by simp
  let ?recv = "Link_download_cleanup (a_code a) (a_size a)"
  have m: "to_off m = int m" using assms(2) by (simp add: to_off_small)
  show ?case
  proof (cases "?recv < 0 \<or> ?recv \<noteq> int m")
    case True
    with Cons a assms(6) show ?thesis by (auto simp: honest_def m Let_def split: if_splits option.splits)
  next
    case False
    then have code: "a_code a \<in> {200, 206, 416}" using cleanup_codes(3) by blast
    then have "a_size a = int m" using False cleanup_codes(1) by simp
    then have len: "length (a_body a) = m" using a by (simp add: honest_def)
    have "a_body a = Prelude.slice offset m remote"
    proof (cases "a_code a = 200")
      case True
      then have "a_body a = remote" using a by (simp add: honest_def)
      then show ?thesis using len assms(4) by (simp add: Prelude.slice_def)
    next
      case False
      with code a len show ?thesis using slice_of_length by (auto simp: honest_def)
    qed
    with Cons.prems(2) False len show ?thesis by (auto simp: m Let_def split: option.splits)
  qed
qed simp

lemma download_loop_retries:
  assumes "\<forall>a \<in> set retries. range_check cfg (a_header a) \<noteq> None \<and> HTTP_temp_failure (a_code a)"
  shows "download_loop cfg m (retries @ as) = download_loop cfg m as"
  using assms
  by (induction retries) (auto simp: cleanup_codes(2) Let_def)

lemma Link_download_loop:
  assumes "0 < req" "0 \<le> offset" "nat offset < content_length link" "content_length link < 2 ^ 63"
  shows "Link_download cfg link req offset as =
    download_loop cfg (min req (content_length link - nat offset)) as"
proof -
  have "to_size offset = nat offset" using assms by (simp add: to_size_nonneg)
  with assms show ?thesis by (auto simp: Link_download_def min_def)
qed

section \<open>Properties\<close>

text \<open>
  The receive buffer never overflows.  A call of \<open>write_memory_callback\<close> appends exactly the
  bytes it is given and keeps the terminator behind them; it stops the program exactly when the
  new size with its terminator does not fit into a \<open>size_t\<close>, so the product and the sums never wrap.
\<close>

theorem write_callback_never_overflows:
  assumes "buffer_holds ts bs" "length recv_data = unat sz * unat nmemb"
  shows "(case write_memory_callback recv_data sz nmemb ts of
      None \<Rightarrow> 2 ^ 64 \<le> length bs + length recv_data + 1
    | Some (n, ts') \<Rightarrow> length bs + length recv_data + 1 < 2 ^ 64 \<and> unat n = length recv_data \<and>
        buffer_holds ts' (bs @ recv_data))"
proof (cases "write_memory_callback recv_data sz nmemb ts")
  case None
  then show ?thesis using write_callback_room [OF assms(1), of recv_data sz nmemb] assms(2) by simp
next
  case (Some r)
  then obtain n ts' where r: "write_memory_callback recv_data sz nmemb ts = Some (n, ts')" by (cases r) auto
  have "length bs + length recv_data + 1 < 2 ^ 64"
    using write_callback_room [OF assms(1), of recv_data sz nmemb] r assms(2) by simp
  with write_callback_appends [OF assms r] r show ?thesis by simp
qed

theorem write_callback_never_overflows_witness:
  "case write_memory_callback [1, 2, 3] 1 3 \<lparr>data = Some [7, 0], curr_size = 1\<rparr> of
     None \<Rightarrow> False | Some (n, ts') \<Rightarrow> unat n = 3 \<and> buffer_holds ts' [7, 1, 2, 3]"
proof -
  have "buffer_holds \<lparr>data = Some [7, 0], curr_size = 1\<rparr> [7]" by (simp add: buffer_holds_def)
  from write_callback_never_overflows [OF this, of "[1, 2, 3]" 1 3] show ?thesis
    by (auto split: option.splits prod.splits)
qed

text \<open>
  C24.  A download without a cache never writes more than the reader's buffer holds, whatever the
  server sends.  With a server that answers the range that was asked for, it returns exactly the
  wanted bytes of the file, clipped to its end: a short or cut answer is asked for again, never
  handed out, and temporary failures are waited for.
\<close>

theorem direct_read_exact:
  assumes "length remote = content_length link" "content_length link < 2 ^ 63" "0 < req" "0 \<le> offset"
    and "nat offset < content_length link" "m = min req (content_length link - nat offset)"
  shows "(\<forall>n bs. Link_download cfg link req offset as = Some (n, bs) \<longrightarrow>
      n \<le> int req \<and> length bs \<le> req \<and>
      ((\<forall>a \<in> set as. honest cfg remote (nat offset) m a) \<longrightarrow> 0 \<le> n \<longrightarrow>
         n = int m \<and> bs = Prelude.slice (nat offset) m remote)) \<and>
    (\<forall>retries a rest. as = retries @ a # rest \<longrightarrow> (\<forall>a \<in> set as. honest cfg remote (nat offset) m a) \<longrightarrow>
       (\<forall>a \<in> set retries. HTTP_temp_failure (a_code a)) \<longrightarrow> a_code a = 206 \<longrightarrow> length (a_body a) = m \<longrightarrow>
       Link_download cfg link req offset as = Some (int m, Prelude.slice (nat offset) m remote))"
proof -
  have L: "Link_download cfg link req offset as = download_loop cfg m as"
    using Link_download_loop assms(2-6) by simp
  have m: "m < 2 ^ 63" "0 < m" "nat offset + m \<le> length remote" "m \<le> req" using assms by auto
  have off: "to_off m = int m" using m(1) by (simp add: to_off_small)
  have 1: "n \<le> int req \<and> length bs \<le> req" if "download_loop cfg m as = Some (n, bs)" for n bs
    using download_loop_bound [OF that] m(4) off by auto
  have 2: "n = int m \<and> bs = Prelude.slice (nat offset) m remote"
    if "download_loop cfg m as = Some (n, bs)" "\<forall>a \<in> set as. honest cfg remote (nat offset) m a" "0 \<le> n" for n bs
    by (rule download_loop_exact [OF that(2) m(1-3) that(1,3)])
  have 3: "download_loop cfg m as = Some (int m, Prelude.slice (nat offset) m remote)"
    if as: "as = retries @ a # rest" and h: "\<forall>a \<in> set as. honest cfg remote (nat offset) m a"
      and "\<forall>a \<in> set retries. HTTP_temp_failure (a_code a)" "a_code a = 206" "length (a_body a) = m"
    for retries a rest
  proof -
    have "\<forall>a \<in> set retries. range_check cfg (a_header a) \<noteq> None \<and> HTTP_temp_failure (a_code a)"
      using that by (simp add: honest_def)
    then have "download_loop cfg m as = download_loop cfg m (a # rest)"
      unfolding as by (rule download_loop_retries)
    moreover have "a_size a = int m" "range_check cfg (a_header a) \<noteq> None" using that by (simp_all add: honest_def)
    then have "download_loop cfg m (a # rest) = Some (int m, take m (a_body a))"
      using that(4,5) by (auto simp: cleanup_codes(1) off Let_def)
    ultimately have r: "download_loop cfg m as = Some (int m, take m (a_body a))" by simp
    with 2 [OF r h] show ?thesis by simp
  qed
  from 1 2 3 show ?thesis unfolding L by blast
qed

definition demo_remote :: "byte list" where
  "demo_remote = [10, 11, 12, 13, 14]"

definition demo_attempts :: "attempt list" where
  "demo_attempts = [\<lparr>a_header = Some ''accept-ranges: bytes'', a_code = 429, a_size = 0, a_body = []\<rparr>,
     \<lparr>a_header = Some ''Content-Range: bytes 3-4/5'', a_code = 206, a_size = 2, a_body = [13, 14]\<rparr>]"

theorem direct_read_exact_witness:
  "Link_download (Config_init ''httpdirfs'' 15) ((link_to ''http://h/f'')\<lparr>content_length := 5\<rparr>) 9 3 demo_attempts =
    Some (2, [13, 14])"
proof -
  let ?link = "(link_to ''http://h/f'')\<lparr>content_length := 5\<rparr>"
  have h: "\<forall>a \<in> set demo_attempts. honest (Config_init ''httpdirfs'' 15) demo_remote (nat 3) 2 a"
  proof -
    have "range_check (Config_init ''httpdirfs'' 15) (Some ''accept-ranges: bytes'') = Some ()"
      "range_check (Config_init ''httpdirfs'' 15) (Some ''Content-Range: bytes 3-4/5'') = Some ()" by code_simp+
    then show ?thesis
      by (auto simp: demo_attempts_def honest_def demo_remote_def Prelude.slice_def intro!: exI [of _ 2])
  qed
  have prem: "length demo_remote = content_length ?link" "content_length ?link < 2 ^ 63" "(0::nat) < 9" "(0::int) \<le> 3"
    "nat 3 < content_length ?link" "2 = min 9 (content_length ?link - nat 3)"
    by (simp_all add: demo_remote_def)
  have "demo_attempts = [demo_attempts ! 0] @ demo_attempts ! 1 # []" "a_code (demo_attempts ! 1) = 206"
    "length (a_body (demo_attempts ! 1)) = 2" "\<forall>a \<in> set [demo_attempts ! 0]. HTTP_temp_failure (a_code a)"
    by (simp_all add: demo_attempts_def HTTP_temp_failure_def)
  with direct_read_exact [OF prem, of "Config_init ''httpdirfs'' 15" demo_attempts, THEN conjunct2] h
  have "Link_download (Config_init ''httpdirfs'' 15) ?link 9 3 demo_attempts = Some (int 2, Prelude.slice (nat 3) 2 demo_remote)"
    by blast
  then show ?thesis by (simp add: demo_remote_def Prelude.slice_def)
qed

text \<open>A transfer that fails before any header came kills the process while ranges are checked.\<close>

lemma no_header_kills: "\<not> no_range_check cfg \<Longrightarrow> a_header a = None \<Longrightarrow> download_loop cfg m (a # as) = None"
  by (simp add: range_check_def)

end
