(* ===== verification/Fuse.thy ===== *)
theory Fuse
  imports Download CacheOpenRepair
begin

text \<open>
  \<open>src/fuse_local.c\<close>: the operations that FUSE calls, over the state of \<open>CacheOpen\<close>, and the
  sessions they form.  An operation runs from its call to its return; None is an execution that
  does not return (the process exits, or a freed table is used).
\<close>

section \<open>The operations\<close>

text \<open>
  The environment: that of the cache, \<open>CACHE_SYSTEM_INIT\<close>, the second fill of a table
  (\<open>--invalid-refresh\<close>), the identity of the process, and the server's answers.
\<close>

record fuse_env =
  f_env :: cache_env
  f_cache_init :: bool
  f_refill :: "LinkTable \<Rightarrow> LinkTable"
  f_uid :: int
  f_gid :: int
  f_server :: "Link \<Rightarrow> nat \<Rightarrow> int \<Rightarrow> attempt list"

text \<open>\<open>fi->fh\<close> of an open file; \<open>BYPASS_FH\<close> is \<open>(uint64_t)-1\<close>.\<close>

datatype fh = NULL_FH | BYPASS_FH | CACHE_FH nat

definition fs_release :: "fuse_env \<Rightarrow> faults \<Rightarrow> fh \<Rightarrow> cstate \<Rightarrow> (int \<times> cstate) option" where
  "fs_release fe flt fi s =
    (case fi of
       CACHE_FH c \<Rightarrow>
         if f_cache_init fe then map_option (\<lambda>s'. (0, s')) (Cache_close (f_env fe) flt c s) else Some (0, s)
     | _ \<Rightarrow> Some (0, s))"

record stat =
  st_mode :: int
  st_nlink :: int
  st_size :: int
  st_blksize :: int
  st_blocks :: int
  st_mtime :: int
  st_uid :: int
  st_gid :: int

abbreviation (input) S_IFDIR :: int where "S_IFDIR \<equiv> 16384"
abbreviation (input) S_IFREG :: int where "S_IFREG \<equiv> 32768"

definition zero_stat :: stat where
  "zero_stat = \<lparr>st_mode = 0, st_nlink = 0, st_size = 0, st_blksize = 0, st_blocks = 0, st_mtime = 0, st_uid = 0, st_gid = 0\<rparr>"

text \<open>0755 is 493, 0444 is 292.\<close>

definition link_stat :: "Link \<Rightarrow> stat option" where
  "link_stat link =
    (let st = zero_stat\<lparr>st_mtime := link_time link\<rparr>
     in case link_type link of
          LINK_DIR \<Rightarrow> Some (st\<lparr>st_mode := S_IFDIR OR 493, st_nlink := 1\<rparr>)
        | LINK_FILE \<Rightarrow> Some (st\<lparr>st_mode := S_IFREG OR 292, st_nlink := 1, st_size := to_off (content_length link),
                              st_blksize := 128 * 1024, st_blocks := to_off (content_length link div 512)\<rparr>)
        | _ \<Rightarrow> None)"

definition fs_getattr :: "fuse_env \<Rightarrow> cstr \<Rightarrow> cstate \<Rightarrow> ((int \<times> stat) \<times> cstate) option" where
  "fs_getattr fe path s =
    (if path = ''/'' then
       Some ((0, zero_stat\<lparr>st_mode := S_IFDIR OR 493, st_nlink := 1, st_uid := f_uid fe, st_gid := f_gid fe\<rparr>), s)
     else (case find_link (f_env fe) path s of
             None \<Rightarrow> None
           | Some (None, s1) \<Rightarrow> Some ((- ENOENT, zero_stat), s1)
           | Some (Some l, s1) \<Rightarrow>
               (case get_link l (tree s1) of
                  None \<Rightarrow> None
                | Some link \<Rightarrow>
                    (case link_stat link of
                       None \<Rightarrow> map_option (\<lambda>s2. ((- ENOENT, zero_stat\<lparr>st_mtime := link_time link\<rparr>), s2))
                                 (drop_link (f_env fe) l s1)
                     | Some st \<Rightarrow> map_option (\<lambda>s2. ((0, st\<lparr>st_uid := f_uid fe, st_gid := f_gid fe\<rparr>), s2))
                                 (drop_link (f_env fe) l s1)))))"

text \<open>\<open>cached c n off\<close> is the result of \<open>Cache_read\<close>, whose threads are in \<open>CacheDl\<close>.\<close>

definition fs_read ::
    "fuse_env \<Rightarrow> (nat \<Rightarrow> nat \<Rightarrow> int \<Rightarrow> int \<times> byte list) \<Rightarrow> cstr \<Rightarrow> nat \<Rightarrow> int \<Rightarrow> fh \<Rightarrow> cstate
     \<Rightarrow> (int \<times> byte list \<times> cstate) option" where
  "fs_read fe cached path n offset fi s =
    (if f_cache_init fe then
       (case fi of
          BYPASS_FH \<Rightarrow> path_download (f_env fe) (f_server fe) path n offset s
        | CACHE_FH c \<Rightarrow> (case cached c n offset of (received, bs) \<Rightarrow> Some (received, bs, s))
        | NULL_FH \<Rightarrow> Some (0, [], s))
     else path_download (f_env fe) (f_server fe) path n offset s)"

abbreviation (input) O_RDONLY :: int where "O_RDONLY \<equiv> 0"
abbreviation (input) O_WRONLY :: int where "O_WRONLY \<equiv> 1"
abbreviation (input) O_RDWR :: int where "O_RDWR \<equiv> 2"

definition bypass_cache :: "ConfigStruct \<Rightarrow> Link \<Rightarrow> bool" where
  "bypass_cache cfg link \<longleftrightarrow>
    (let file_size = to_off (content_length link)
     in file_size < 0 \<or> to_size file_size \<noteq> content_length link \<or>
        (cache_min_size cfg \<ge> 0 \<and> file_size < cache_min_size cfg) \<or>
        (cache_max_size cfg \<ge> 0 \<and> file_size > cache_max_size cfg))"

text \<open>\<open>fi->fh\<close> is zero before the call.  A cache that cannot be opened ends the process.\<close>

definition fs_open :: "fuse_env \<Rightarrow> (nat \<Rightarrow> site_faults) \<Rightarrow> cstr \<Rightarrow> int \<Rightarrow> cstate \<Rightarrow> (int \<times> fh \<times> cstate) option" where
  "fs_open fe flt path flags s =
    (case find_link (f_env fe) path s of
       None \<Rightarrow> None
     | Some (None, s1) \<Rightarrow> Some (- ENOENT, NULL_FH, s1)
     | Some (Some l, s1) \<Rightarrow>
         (case get_link l (tree s1) of
            None \<Rightarrow> None
          | Some link \<Rightarrow>
              if flags AND O_RDWR \<noteq> O_RDONLY then
                map_option (\<lambda>s2. (- EROFS, NULL_FH, s2)) (drop_link (f_env fe) l s1)
              else if \<not> f_cache_init fe \<or> content_length link = 0 then
                map_option (\<lambda>s2. (0, NULL_FH, s2)) (drop_link (f_env fe) l s1)
              else if bypass_cache (e_cfg (f_env fe)) link then
                map_option (\<lambda>s2. (0, BYPASS_FH, s2)) (drop_link (f_env fe) l s1)
              else (case Cache_open (f_env fe) flt path s1 of
                      Some (Some c, s2) \<Rightarrow> map_option (\<lambda>s3. (0, CACHE_FH c, s3)) (drop_link (f_env fe) l s2)
                    | _ \<Rightarrow> None)))"

definition fs_opendir :: "fuse_env \<Rightarrow> cstr \<Rightarrow> cstate \<Rightarrow> (int \<times> tblptr option \<times> cstate) option" where
  "fs_opendir fe path s =
    (let e = f_env fe
     in case path_to_LinkTable (e_cfg e) (e_load e) (f_refill fe) (e_fuel e) path (tree s) of
          None \<Rightarrow> None
        | Some (None, h) \<Rightarrow> Some (- ENOENT, None, s\<lparr>tree := h\<rparr>)
        | Some (Some p, h) \<Rightarrow> Some (0, Some p, s\<lparr>tree := h\<rparr>))"

definition fs_releasedir :: "fuse_env \<Rightarrow> cstr \<Rightarrow> tblptr option \<Rightarrow> cstate \<Rightarrow> (int \<times> cstate) option" where
  "fs_releasedir fe path fi s =
    (case fi of
       None \<Rightarrow> Some (0, s)
     | Some linktbl \<Rightarrow>
         (case (if path \<noteq> ''/'' then LinkTable_mark_orphaned (Some linktbl) (tree s) else Some (tree s)) of
            None \<Rightarrow> None
          | Some h1 \<Rightarrow>
              (case LinkTable_unref (e_fuel (f_env fe)) (Some linktbl) h1 of
                 None \<Rightarrow> None
               | Some h2 \<Rightarrow> Some (0, s\<lparr>tree := h2\<rparr>))))"

text \<open>The names that \<open>dir_add\<close> is called with.\<close>

definition fs_readdir :: "tblptr option \<Rightarrow> cstate \<Rightarrow> (int \<times> cstr list) option" where
  "fs_readdir fi s =
    (case fi of
       None \<Rightarrow> Some (- ENOENT, [])
     | Some p \<Rightarrow>
         (case tables (tree s) p of
            None \<Rightarrow> None
          | Some linktbl \<Rightarrow>
              Some (0, ''.'' # ''..'' #
                map linkname (filter (\<lambda>link. link_type link \<noteq> LINK_INVALID) (drop 1 (links linktbl))))))"

section \<open>Each operation keeps the books\<close>

definition fuse_ok :: "fuse_env \<Rightarrow> bool" where
  "fuse_ok fe \<longleftrightarrow> env_ok (f_env fe) \<and> refill_clean (f_refill fe)"

lemma looked_up:
  assumes "open_inv g u s" "env_ok e" "room e (length fn) s"
  obtains (missing) s1 where "find_link e fn s = Some (None, s1)" "calm (length fn) s s1" "open_inv g u s1"
  | (found) l link s1 where "find_link e fn s = Some (Some l, s1)" "calm (length fn) s s1"
      "open_inv (g(fst l := g (fst l) + 1)) u s1" "get_link l (tree s1) = Some link"
proof -
  from find_link_inv [OF assms] obtain r s1 where r: "find_link e fn s = Some (r, s1)" "calm (length fn) s s1"
    "case r of None \<Rightarrow> open_inv g u s1
     | Some l \<Rightarrow> open_inv (g(fst l := g (fst l) + 1)) u s1 \<and> get_link l (tree s1) \<noteq> None" by blast
  show thesis
  proof (cases r)
    case None
    with r missing show ?thesis by simp
  next
    case (Some l)
    with r(3) obtain link where "open_inv (g(fst l := g (fst l) + 1)) u s1" "get_link l (tree s1) = Some link" by auto
    with r(1,2) Some show ?thesis by (intro found) simp_all
  qed
qed

lemma drop_found:
  assumes "open_inv (g(fst l := g (fst l) + 1)) u s1" "calm k s s1" "room e k s"
  obtains s2 where "drop_link e l s1 = Some s2" "calm k s s2" "open_inv g u s2"
proof -
  have "room e 0 s1" using room_calm [OF assms(2), of e 0] assms(3) by simp
  from drop_pinned [OF assms(1) this] obtain s2 where "drop_link e l s1 = Some s2" "calm 0 s1 s2" "open_inv g u s2"
    by blast
  with calm_trans [OF assms(2), of 0] that show thesis by simp
qed

lemma fs_getattr_inv:
  assumes "open_inv g u s" "fuse_ok fe" "room (f_env fe) (length path) s"
  shows "\<exists>r s'. fs_getattr fe path s = Some (r, s') \<and> calm (length path) s s' \<and> open_inv g u s'"
proof (cases "path = ''/''")
  case True
  with assms(1) show ?thesis by (simp add: fs_getattr_def)
next
  case False
  have env: "env_ok (f_env fe)" using assms(2) by (simp add: fuse_ok_def)
  from assms(1) env assms(3) show ?thesis
  proof (cases rule: looked_up)
    case (missing s1)
    with False show ?thesis by (simp add: fs_getattr_def)
  next
    case (found l link s1)
    from found(3,2) assms(3) obtain s2 where
      "drop_link (f_env fe) l s1 = Some s2" "calm (length path) s s2" "open_inv g u s2" by (rule drop_found)
    with False found show ?thesis by (cases "link_stat link") (simp_all add: fs_getattr_def)
  qed
qed

lemma path_download_inv:
  assumes "open_inv g u s" "env_ok e" "room e (length path) s" "path_download e server path n off s = Some (r, bs, s')"
  shows "calm (length path) s s' \<and> open_inv g u s'"
  using assms(1-3)
proof (cases rule: looked_up)
  case (missing s1)
  with assms(4) show ?thesis by (simp add: path_download_def)
next
  case (found l link s1)
  from found(3,2) assms(3) obtain s2 where
    s2: "drop_link e l s1 = Some s2" "calm (length path) s s2" "open_inv g u s2" by (rule drop_found)
  with assms(4) found have "s' = s2" by (auto simp: path_download_def split: option.splits)
  with s2 show ?thesis by simp
qed

lemma fs_read_inv:
  assumes "open_inv g u s" "fuse_ok fe" "room (f_env fe) (length path) s" "fs_read fe cached path n off fi s = Some (r, bs, s')"
  shows "calm (length path) s s' \<and> open_inv g u s'"
proof (cases "f_cache_init fe \<and> fi \<noteq> BYPASS_FH")
  case True
  with assms(1,4) have "s' = s" by (cases fi) (auto simp: fs_read_def split: prod.splits)
  then show ?thesis using assms(1) calm_mono [OF calm_refl] by simp
next
  case False
  then have "path_download (f_env fe) (f_server fe) path n off s = Some (r, bs, s')"
    using assms(4) by (cases "f_cache_init fe"; cases fi) (simp_all add: fs_read_def)
  with path_download_inv [OF assms(1) _ assms(3)] assms(2) show ?thesis by (simp add: fuse_ok_def)
qed

lemma fs_open_inv:
  assumes inv: "open_inv g u s" and ok: "fuse_ok fe" and room: "room (f_env fe) (8 * length path) s"
    and run: "fs_open fe flt path flags s = Some (r, fi, s')"
  shows "root_tbl (tree s') = root_tbl (tree s) \<and>
    (case fi of CACHE_FH c \<Rightarrow> r = 0 \<and> f_cache_init fe \<and> open_inv g (u(c := u c + 1)) s' | _ \<Rightarrow> open_inv g u s')"
proof -
  let ?e = "f_env fe"
  have env: "env_ok ?e" using ok by (simp add: fuse_ok_def)
  have room1: "room ?e (length path) s" by (rule room_mono [OF room]) simp
  have root: "root_tbl (tree s2) = root_tbl (tree s1)" if "calm k s1 s2" for k s1 s2
    using that by (simp add: calm_def keeps_def)
  from inv env room1 show ?thesis
  proof (cases rule: looked_up)
    case (missing s1)
    with run root show ?thesis by (auto simp: fs_open_def)
  next
    case (found l link s1)
    let ?g = "g(fst l := g (fst l) + 1)"
    show ?thesis
    proof (cases "flags AND O_RDWR = O_RDONLY \<and> f_cache_init fe \<and> content_length link \<noteq> 0 \<and>
        \<not> bypass_cache (e_cfg ?e) link")
      case False
      from found(3,2) room1 obtain s2 where
        s2: "drop_link ?e l s1 = Some s2" "calm (length path) s s2" "open_inv g u s2" by (rule drop_found)
      then have "s' = s2" "fi = NULL_FH \<or> fi = BYPASS_FH"
        using run found False by (auto simp: fs_open_def split: if_splits)
      with s2 root show ?thesis by auto
    next
      case True
      with run found obtain c s2 where
        c: "Cache_open ?e flt path s1 = Some (Some c, s2)" "drop_link ?e l s2 = Some s'" "r = 0" "fi = CACHE_FH c"
        by (auto simp: fs_open_def split: option.splits)
      have "room ?e (7 * length path) s1" by (rule room_calm [OF found(2)]) (use room in simp)
      from Cache_open_inv [OF found(3) env this c(1)] have
        g: "grown (7 * length path) s1 s2" and i2: "open_inv ?g (u(c := u c + 1)) s2" by simp_all
      have "room ?e 0 s2" using room_grown [OF g, of ?e 0] room_calm [OF found(2), of ?e "7 * length path"] room by simp
      from drop_pinned [OF i2 this] c(2) have "calm 0 s2 s'" "open_inv g (u(c := u c + 1)) s'" by auto
      then show ?thesis using c True g root found(2) by (simp add: grown_def)
    qed
  qed
qed

lemma fs_opendir_inv:
  assumes inv: "open_inv g u s" and ok: "fuse_ok fe" and room: "room (f_env fe) (length path + 1) s"
  shows "\<exists>r fi s'. fs_opendir fe path s = Some (r, fi, s') \<and> calm (length path + 1) s s' \<and>
    (case fi of None \<Rightarrow> r \<noteq> 0 \<and> open_inv g u s'
     | Some p \<Rightarrow> r = 0 \<and> open_inv (g(p := g p + 1)) u s' \<and> (path = ''/'' \<or> root_tbl (tree s') \<noteq> Some p))"
proof -
  let ?e = "f_env fe"
  have env: "load_ok (e_load ?e)" "load_clean (e_load ?e)" "refill_ok (f_refill fe)" "refill_clean (f_refill fe)"
    "mode (e_cfg ?e) \<noteq> SINGLE"
    using ok load_clean_ok by (auto simp: fuse_ok_def env_ok_def refill_clean_def)
  have fuel: "card (dom (tables (tree s))) + length path + 1 \<le> e_fuel ?e" using room by (simp add: room_def)
  note inv1 = open_invD(1) [OF inv]
  from path_to_LinkTable_safe_inv [OF env(1,3,5) inv1 fuel] obtain q h where
    q: "path_to_LinkTable (e_cfg ?e) (e_load ?e) (f_refill fe) (e_fuel ?e) path (tree s) = Some (q, h)"
      "card (dom (tables h)) \<le> card (dom (tables (tree s))) + length path + 1"
    and i: "case q of None \<Rightarrow> tree_inv (\<lambda>p. g p + cref (caches s) p) h
     | Some p \<Rightarrow> tree_inv ((\<lambda>p. g p + cref (caches s) p)(p := g p + cref (caches s) p + 1)) h \<and> tables h p \<noteq> None"
    by blast
  note k = path_to_LinkTable_keeps [OF env(2,4,5) inv1 fuel q(1)]
  let ?s = "s\<lparr>tree := h\<rparr>"
  have calm: "calm (length path + 1) s ?s" using k q(2) by (simp add: calm_def)
  show ?thesis
  proof (cases q)
    case None
    with i open_inv_calm [OF inv calm, of g] q(1) calm show ?thesis by (simp add: fs_opendir_def Let_def)
  next
    case (Some p)
    have "tree_inv (\<lambda>q. (g(p := g p + 1)) q + cref (caches s) q) (tree ?s)"
      unfolding fun_add_upd using i Some by simp
    from open_inv_calm [of g u s _ _ "g(p := g p + 1)", OF inv calm this] k Some q(1) calm
    show ?thesis by (auto simp: fs_opendir_def Let_def)
  qed
qed

lemma fs_releasedir_inv:
  assumes inv: "open_inv g u s" and p: "0 < g p" and room: "room (f_env fe) 0 s"
    and root: "path = ''/'' \<or> root_tbl (tree s) \<noteq> Some p"
  shows "\<exists>s'. fs_releasedir fe path (Some p) s = Some (0, s') \<and> calm 0 s s' \<and> open_inv (g(p := g p - 1)) u s'"
proof -
  obtain t where t: "tables (tree s) p = Some t" using held_live [OF open_invD(1) [OF inv], of p] p by auto
  let ?h = "if path \<noteq> ''/'' then put p (t\<lparr>orphaned := True\<rparr>) (tree s) else tree s"
  let ?s = "s\<lparr>tree := ?h\<rparr>"
  have mark: "(if path \<noteq> ''/'' then LinkTable_mark_orphaned (Some p) (tree s) else Some (tree s)) = Some ?h"
    using t by (simp add: LinkTable_mark_orphaned_def)
  have "keeps (tree s) ?h" using keeps_put [OF t] by (simp add: same_data_def)
  moreover have "dom (tables ?h) = dom (tables (tree s))" using t by auto
  ultimately have calm: "calm 0 s ?s" by (simp add: calm_def)
  have "tree_inv (\<lambda>q. g q + cref (caches s) q) ?h"
  proof (cases "path = ''/''")
    case False
    with root mark_orphaned_inv [OF open_invD(1) [OF inv], of p ?h] mark show ?thesis by simp
  qed (use open_invD(1) [OF inv] in simp)
  with open_inv_calm [OF inv calm, of g] have i: "open_inv g u ?s" by simp
  have "room (f_env fe) 0 ?s" using room_calm [OF calm, of "f_env fe" 0] room by simp
  from drop_link_inv [of g u ?s "(p, 0)" "f_env fe", OF i _ this] p obtain s' where
    s': "drop_link (f_env fe) (p, 0) ?s = Some s'" "calm 0 ?s s'" "open_inv (g(p := g p - 1)) u s'" by auto
  obtain h2 where h2: "LinkTable_unref (e_fuel (f_env fe)) (Some p) ?h = Some h2" "s' = s\<lparr>tree := h2\<rparr>"
    using s'(1) by (cases "LinkTable_unref (e_fuel (f_env fe)) (Some p) ?h") (simp_all add: drop_link_def)
  have "fs_releasedir fe path (Some p) s = Some (0, s')"
    unfolding fs_releasedir_def option.case mark h2 ..
  with s'(2,3) calm_trans [OF calm s'(2)] show ?thesis by auto
qed

lemma Cache_close_root:
  assumes "Cache_close e flt c s = Some s'"
  shows "root_tbl (tree s') = root_tbl (tree s)"
proof -
  have unref: "root_tbl h' = root_tbl h" if "LinkTable_unref n q h = Some h'" for n q h h'
    using LinkTable_unref_keeps [OF that] by (simp add: keeps_def)
  have drop: "root_tbl (tree s2) = root_tbl (tree s1)" if "drop_link e l s1 = Some s2" for l s1 s2
    using that unref by (auto simp: drop_link_def split: option.splits)
  have free: "tree s2 = tree s1" if "Cache_free c s1 = Some s2" for s1 s2
    using that by (auto simp: Cache_free_def split: option.splits if_splits)
  show ?thesis
    using assms drop free set_cache_ptr_root
    by (fastforce simp: Cache_close_def put_cache_def Let_def split: option.splits if_splits)
qed

section \<open>Sessions\<close>

text \<open>
  A mounted file system from start to any moment: FUSE calls operations, with the handles it was
  given, one after the other.  \<open>D\<close> holds the open directories with their paths, \<open>F\<close> the handles of
  the open files.  \<open>works\<close> is what readers and background workers do to the caches and the files.
\<close>

inductive mounted :: "fuse_env \<Rightarrow> cstate \<Rightarrow> (cstr \<times> tblptr) list \<Rightarrow> fh list \<Rightarrow> bool" for fe :: fuse_env where
  start: "tree_reachable (h, \<lambda>_. 0) \<Longrightarrow> (\<And>p t. tables h p = Some t \<Longrightarrow> no_cache t) \<Longrightarrow>
    mounted fe \<lparr>tree = h, files = f, caches = (\<lambda>_. None), next_cache = 0\<rparr> [] []"
| getattr: "mounted fe s D F \<Longrightarrow> room (f_env fe) (length path) s \<Longrightarrow> fs_getattr fe path s = Some (r, s') \<Longrightarrow>
    mounted fe s' D F"
| reads: "mounted fe s D F \<Longrightarrow> room (f_env fe) (length path) s \<Longrightarrow>
    fs_read fe cached path n off fi s = Some (r, bs, s') \<Longrightarrow> mounted fe s' D F"
| opens: "mounted fe s D F \<Longrightarrow> room (f_env fe) (8 * length path) s \<Longrightarrow>
    fs_open fe flt path flags s = Some (r, fi, s') \<Longrightarrow> mounted fe s' D (if r = 0 then fi # F else F)"
| releases: "mounted fe s D F \<Longrightarrow> fi \<in> set F \<Longrightarrow> room (f_env fe) 0 s \<Longrightarrow>
    fs_release fe fl fi s = Some (r, s') \<Longrightarrow> mounted fe s' D (remove1 fi F)"
| opendirs: "mounted fe s D F \<Longrightarrow> room (f_env fe) (length path + 1) s \<Longrightarrow>
    fs_opendir fe path s = Some (r, fi, s') \<Longrightarrow>
    mounted fe s' (case fi of Some p \<Rightarrow> (path, p) # D | None \<Rightarrow> D) F"
| releasedirs: "mounted fe s D F \<Longrightarrow> (path, p) \<in> set D \<Longrightarrow> room (f_env fe) 0 s \<Longrightarrow>
    fs_releasedir fe path (Some p) s = Some (r, s') \<Longrightarrow> mounted fe s' (remove1 (path, p) D) F"
| works: "mounted fe s D F \<Longrightarrow> caches s c = Some cf0 \<Longrightarrow> clink cf = clink cf0 \<Longrightarrow>
    cache_opened cf = cache_opened cf0 \<Longrightarrow> mounted fe (put_cache c cf (s\<lparr>files := f\<rparr>)) D F"

definition dir_refs :: "(cstr \<times> tblptr) list \<Rightarrow> tblptr \<Rightarrow> nat" where
  "dir_refs D p = cnt (\<lambda>d. snd d = p) D"

definition file_refs :: "fh list \<Rightarrow> nat \<Rightarrow> nat" where
  "file_refs F c = cnt (\<lambda>fi. fi = CACHE_FH c) F"

definition mount_inv :: "fuse_env \<Rightarrow> cstate \<Rightarrow> (cstr \<times> tblptr) list \<Rightarrow> fh list \<Rightarrow> bool" where
  "mount_inv fe s D F \<longleftrightarrow> open_inv (dir_refs D) (file_refs F) s \<and>
    (\<forall>d \<in> set D. fst d = ''/'' \<or> root_tbl (tree s) \<noteq> Some (snd d)) \<and>
    (\<forall>c. CACHE_FH c \<in> set F \<longrightarrow> f_cache_init fe)"

lemma refs_simps [simp]:
  "dir_refs [] = (\<lambda>_. 0)" "file_refs [] = (\<lambda>_. 0)"
  "dir_refs (d # D) = (dir_refs D)(snd d := dir_refs D (snd d) + 1)"
  "file_refs (CACHE_FH c # F) = (file_refs F)(c := file_refs F c + 1)"
  "file_refs (NULL_FH # F) = file_refs F" "file_refs (BYPASS_FH # F) = file_refs F"
  by (auto simp: dir_refs_def file_refs_def fun_eq_iff)

lemma cnt_remove1: "x \<in> set xs \<Longrightarrow> cnt P (remove1 x xs) = cnt P xs - (if P x then 1 else 0)"
proof -
  assume "x \<in> set xs"
  then have "cnt P xs = cnt P (remove1 x xs) + (if P x then 1 else 0)" by (induction xs) auto
  then show ?thesis by simp
qed

lemma refs_remove:
  "d \<in> set D \<Longrightarrow> dir_refs (remove1 d D) = (dir_refs D)(snd d := dir_refs D (snd d) - 1)"
  "CACHE_FH c \<in> set F \<Longrightarrow> file_refs (remove1 (CACHE_FH c) F) = (file_refs F)(c := file_refs F c - 1)"
  "(\<And>c. fi \<noteq> CACHE_FH c) \<Longrightarrow> file_refs (remove1 fi F) = file_refs F"
proof -
  show "d \<in> set D \<Longrightarrow> dir_refs (remove1 d D) = (dir_refs D)(snd d := dir_refs D (snd d) - 1)"
    by (auto simp: dir_refs_def fun_eq_iff cnt_remove1)
  show "CACHE_FH c \<in> set F \<Longrightarrow> file_refs (remove1 (CACHE_FH c) F) = (file_refs F)(c := file_refs F c - 1)"
    by (auto simp: file_refs_def fun_eq_iff cnt_remove1)
  show "(\<And>c. fi \<noteq> CACHE_FH c) \<Longrightarrow> file_refs (remove1 fi F) = file_refs F"
    by (cases "fi \<in> set F") (auto simp: file_refs_def fun_eq_iff cnt_remove1 remove1_idem)
qed

lemma refs_pos: "d \<in> set D \<Longrightarrow> 0 < dir_refs D (snd d)" "CACHE_FH c \<in> set F \<Longrightarrow> 0 < file_refs F c"
  using cnt_0 [of "\<lambda>e. snd e = snd d" D] cnt_0 [of "\<lambda>fi. fi = CACHE_FH c" F]
  by (auto simp: dir_refs_def file_refs_def)

lemma calm_root: "calm k s s' \<Longrightarrow> root_tbl (tree s') = root_tbl (tree s)"
  by (simp add: calm_def keeps_def)

lemma fs_release_inv:
  assumes inv: "mount_inv fe s D F" and "fi \<in> set F" "room (f_env fe) 0 s" "fs_release fe fl fi s = Some (r, s')"
  shows "mount_inv fe s' D (remove1 fi F)"
proof (cases fi)
  case (CACHE_FH c)
  have "f_cache_init fe" using inv assms(2) CACHE_FH by (auto simp: mount_inv_def)
  then have c: "Cache_close (f_env fe) fl c s = Some s'" using assms(4) CACHE_FH by (auto simp: fs_release_def)
  have i: "open_inv (dir_refs D) (file_refs F) s" using inv by (simp add: mount_inv_def)
  have "0 < file_refs F c" using refs_pos(2) assms(2) CACHE_FH by simp
  from Cache_close_inv [OF i this assms(3) c] inv Cache_close_root [OF c] assms(2) CACHE_FH
  show ?thesis using notin_set_remove1 [of _ F fi] by (auto simp: mount_inv_def refs_remove(2))
next
  case NULL_FH
  with assms notin_set_remove1 [of _ F fi] show ?thesis by (auto simp: mount_inv_def refs_remove(3) fs_release_def)
next
  case BYPASS_FH
  with assms notin_set_remove1 [of _ F fi] show ?thesis by (auto simp: mount_inv_def refs_remove(3) fs_release_def)
qed

lemma mounted_inv:
  assumes "fuse_ok fe" "mounted fe s D F"
  shows "mount_inv fe s D F"
  using assms(2)
proof (induction rule: mounted.induct)
  case (start h f)
  have "open_inv (\<lambda>_. 0) (\<lambda>_. 0) \<lparr>tree = h, files = f, caches = (\<lambda>_. None), next_cache = 0\<rparr>"
    using start by (intro start_inv) auto
  then show ?case by (simp add: mount_inv_def)
next
  case (getattr s D F path r s')
  then have "open_inv (dir_refs D) (file_refs F) s" by (simp add: mount_inv_def)
  from fs_getattr_inv [OF this assms(1) getattr.hyps(2)] getattr.hyps(3)
  have "calm (length path) s s'" "open_inv (dir_refs D) (file_refs F) s'" by auto
  with getattr.IH calm_root show ?case by (simp add: mount_inv_def)
next
  case (reads s D F path cached n off fi r bs s')
  then have "open_inv (dir_refs D) (file_refs F) s" by (simp add: mount_inv_def)
  from fs_read_inv [OF this assms(1) reads.hyps(2,3)]
  have "calm (length path) s s'" "open_inv (dir_refs D) (file_refs F) s'" by simp_all
  with reads.IH calm_root show ?case by (simp add: mount_inv_def)
next
  case (opens s D F path flt flags r fi s')
  then have "open_inv (dir_refs D) (file_refs F) s" by (simp add: mount_inv_def)
  from fs_open_inv [OF this assms(1) opens.hyps(2,3)] opens.IH show ?case
    by (cases fi) (auto simp: mount_inv_def)
next
  case (releases s D F fi fl r s')
  then show ?case by (intro fs_release_inv)
next
  case (opendirs s D F path r fi s')
  then have "open_inv (dir_refs D) (file_refs F) s" by (simp add: mount_inv_def)
  from fs_opendir_inv [OF this assms(1) opendirs.hyps(2)] opendirs.hyps(3) have
    c: "calm (length path + 1) s s'" and
    i: "case fi of None \<Rightarrow> r \<noteq> 0 \<and> open_inv (dir_refs D) (file_refs F) s'
     | Some p \<Rightarrow> r = 0 \<and> open_inv ((dir_refs D)(p := dir_refs D p + 1)) (file_refs F) s' \<and>
         (path = ''/'' \<or> root_tbl (tree s') \<noteq> Some p)" by auto
  with opendirs.IH calm_root [OF c] show ?case by (cases fi) (auto simp: mount_inv_def)
next
  case (releasedirs s D F path p r s')
  then have i: "open_inv (dir_refs D) (file_refs F) s" and root: "path = ''/'' \<or> root_tbl (tree s) \<noteq> Some p"
    by (auto simp: mount_inv_def)
  have "0 < dir_refs D p" using refs_pos(1) [OF releasedirs.hyps(2)] by simp
  from fs_releasedir_inv [OF i this releasedirs.hyps(3) root] releasedirs.hyps(4) have
    c: "calm 0 s s'" and "open_inv ((dir_refs D)(p := dir_refs D p - 1)) (file_refs F) s'" by auto
  with releasedirs.IH calm_root [OF c] notin_set_remove1 [of _ D "(path, p)"] show ?case
    by (auto simp: mount_inv_def refs_remove(1) [OF releasedirs.hyps(2)])
next
  case (works s D F c cf0 cf f)
  let ?u = "file_refs F"
  have i: "open_inv (dir_refs D) ?u s" using works.IH by (simp add: mount_inv_def)
  have "handle_ok (?u c) (Some cf0)"
    using open_invD(3) [OF i] works.hyps(2) by (metis handles_ok_def)
  then have "0 < ?u c" "cache_opened cf = int (?u c)" using works.hyps(4) by simp_all
  moreover have "open_inv (dir_refs D) ?u (s\<lparr>files := f\<rparr>)" using i by simp
  ultimately have "open_inv (dir_refs D) (?u(c := ?u c)) (put_cache c cf (s\<lparr>files := f\<rparr>))"
    using works.hyps(2,3) by (intro open_inv_handle) simp_all
  then show ?case using works.IH by (simp add: mount_inv_def)
qed

section \<open>The names of a directory\<close>

lemma walk_snoc:
  "walk h r ns = Found (p, i) \<Longrightarrow> tables h p = Some t \<Longrightarrow> next_table (links t ! i) = Some q \<Longrightarrow>
    walk h r (ns @ [n]) = walk h q [n]"
proof (induction ns arbitrary: r)
  case (Cons m ms)
  obtain t' where t': "tables h r = Some t'" using Cons.prems(1) by (cases "tables h r") simp_all
  obtain j where j: "lookup_entry m t' = Some j" using Cons.prems(1) t' by (cases "lookup_entry m t'") simp_all
  show ?case
  proof (cases "ms = []")
    case True
    with Cons.prems t' j show ?thesis by (simp del: walk.simps add: walk.simps(2) [of h r] walk.simps(2) [of h p m])
  next
    case False
    then obtain q' where q': "next_table (links t' ! j) = Some q'" "walk h q' ms = Found (p, i)"
      using Cons.prems(1) t' j by (cases "next_table (links t' ! j)") simp_all
    have "walk h r ((m # ms) @ [n]) = walk h q' (ms @ [n])"
      using t' j q'(1) by (simp del: walk.simps add: walk.simps(2) [of h r])
    with Cons.IH [OF q'(2) Cons.prems(2,3)] show ?thesis by simp
  qed
qed simp

text \<open>The table of the directory that a list of components names.\<close>

definition dir_table :: "lheap \<Rightarrow> cstr list \<Rightarrow> tblptr \<Rightarrow> bool" where
  "dir_table h ns q \<longleftrightarrow>
    (if ns = [] then root_tbl h = Some q
     else (\<exists>r p i t. root_tbl h = Some r \<and> walk h r ns = Found (p, i) \<and> tables h p = Some t \<and>
        next_table (links t ! i) = Some q))"

lemma walk_in_dir: "dir_table h ns q \<Longrightarrow> \<exists>r. root_tbl h = Some r \<and> walk h r (ns @ [n]) = walk h q [n]"
  using walk_snoc by (fastforce simp: dir_table_def split: if_splits)

lemma lookup_listed:
  assumes "l \<in> set (drop 1 (links t))" "length (linkname l) \<le> NAME_MAX"
  obtains i where "lookup_entry (linkname l) t = Some i" "1 \<le> i" "i < length (links t)"
    "take NAME_MAX (linkname (links t ! i)) = linkname l"
proof -
  have tl: "drop 1 (links t) = tl (links t)" by (simp add: drop_Suc)
  obtain i where i: "find_entry (linkname l) 1 (tl (links t)) = Some i"
    using assms find_entry_None [of "linkname l" 1 "tl (links t)"] tl by (cases "find_entry (linkname l) 1 (tl (links t))") auto
  have "1 \<le> i \<and> i < 1 + length (tl (links t)) \<and>
    take NAME_MAX (linkname (tl (links t) ! (i - 1))) = take NAME_MAX (linkname l)"
    using find_entry_Some [OF i] by simp
  then show thesis using i assms(2)
    by (intro that [of i]) (auto simp: lookup_entry_def nth_tl)
qed

section \<open>Properties\<close>

text \<open>
  C17.  The books of a mounted file system balance at every moment, whatever FUSE calls and
  whichever calls fail.  There is a cache exactly for the open files that go through it, and it
  counts their handles; the table behind every open directory is alive; every table counts its
  open directories, its open caches and its loaded sub-tables, and nothing else.  When
  everything is closed no cache is left.
\<close>

theorem fuse_references_balanced:
  assumes "fuse_ok fe" "mounted fe s D F"
  shows "(\<forall>c. caches s c \<noteq> None \<longleftrightarrow> CACHE_FH c \<in> set F) \<and>
    (\<forall>c cf. caches s c = Some cf \<longrightarrow> cache_opened cf = int (file_refs F c)) \<and>
    (\<forall>(path, p) \<in> set D. tables (tree s) p \<noteq> None) \<and>
    (\<forall>p t. tables (tree s) p = Some t \<longrightarrow>
       refcount t = int (dir_refs D p + card {c. \<exists>cf i. caches s c = Some cf \<and> clink cf = Some (p, i)} +
         card (children (tree s) p))) \<and>
    (F = [] \<longrightarrow> caches s = (\<lambda>_. None))"
proof -
  have mi: "mount_inv fe s D F" by (rule mounted_inv [OF assms])
  then have "open_inv (dir_refs D) (file_refs F) s" by (simp add: mount_inv_def)
  note inv = open_invD [OF this]
  have h: "handle_ok (file_refs F c) (caches s c)" for c using inv(3) by (simp add: handles_ok_def)
  have "0 < file_refs F c \<longleftrightarrow> CACHE_FH c \<in> set F" for c
    using cnt_0 [of "\<lambda>fi. fi = CACHE_FH c" F] by (auto simp: file_refs_def)
  then have pos: "0 < file_refs F c \<longleftrightarrow> CACHE_FH c \<in> set F" for c .
  have 1: "caches s c \<noteq> None \<longleftrightarrow> CACHE_FH c \<in> set F" for c
    using h [of c] pos [of c] by (cases "caches s c") simp_all
  have 2: "cache_opened cf = int (file_refs F c)" if "caches s c = Some cf" for c cf using h [of c] that by simp
  have 3: "tables (tree s) p \<noteq> None" if "(path, p) \<in> set D" for path p
    using held_live [OF inv(1), of p] refs_pos(1) [OF that] by auto
  have 4: "refcount t = int (dir_refs D p + cref (caches s) p + card (children (tree s) p))"
    if "tables (tree s) p = Some t" for p t
    using inv(1) that by (simp add: tree_inv_def counts_ok_def)
  have 5: "caches s = (\<lambda>_. None)" if "F = []" using 1 that by auto
  show ?thesis using 1 2 3 4 5 unfolding cref_def by blast
qed



text \<open>
  \<open>open\<close> refuses \<open>O_RDWR\<close> with \<open>EROFS\<close> and gives nothing away: no handle and no reference.
  But the test looks at that bit alone: a file opened with \<open>O_WRONLY\<close> is opened as if for reading.
\<close>

theorem open_refuses_only_rdwr:
  assumes "fuse_ok fe" "mounted fe s D F" "room (f_env fe) (8 * length path) s"
  shows "(flags AND O_RDWR \<noteq> 0 \<longrightarrow> (\<exists>r s'. fs_open fe flt path flags s = Some (r, NULL_FH, s') \<and>
      (r = - EROFS \<or> r = - ENOENT) \<and> mounted fe s' D F)) \<and>
    fs_open fe flt path O_WRONLY s = fs_open fe flt path O_RDONLY s"
proof -
  have "mount_inv fe s D F" by (rule mounted_inv [OF assms(1,2)])
  then have inv: "open_inv (dir_refs D) (file_refs F) s" by (simp add: mount_inv_def)
  have env: "env_ok (f_env fe)" using assms(1) by (simp add: fuse_ok_def)
  have room: "room (f_env fe) (length path) s" by (rule room_mono [OF assms(3)]) simp
  have "\<exists>r s'. fs_open fe flt path flags s = Some (r, NULL_FH, s') \<and> (r = - EROFS \<or> r = - ENOENT) \<and> mounted fe s' D F"
    if f: "flags AND O_RDWR \<noteq> 0"
    using inv env room
  proof (cases rule: looked_up)
    case (missing s1)
    then have "fs_open fe flt path flags s = Some (- ENOENT, NULL_FH, s1)" by (simp add: fs_open_def)
    with mounted.opens [OF assms(2,3) this] show ?thesis by auto
  next
    case (found l link s1)
    from found(3,2) room obtain s2 where "drop_link (f_env fe) l s1 = Some s2" by (rule drop_found)
    with found f have "fs_open fe flt path flags s = Some (- EROFS, NULL_FH, s2)" by (simp add: fs_open_def)
    with mounted.opens [OF assms(2,3) this] show ?thesis by auto
  qed
  moreover have bits: "((1 :: int) AND 2) = 0" "((0 :: int) AND 2) = 0" by simp_all
  have "fs_open fe flt path O_WRONLY s = fs_open fe flt path O_RDONLY s" unfolding fs_open_def bits ..
  ultimately show ?thesis by blast
qed

section \<open>A scenario\<close>

definition demo_fuse :: fuse_env where
  "demo_fuse = \<lparr>f_env = demo_env, f_cache_init = True, f_refill = id, f_uid = 1000, f_gid = 1000, f_server = (\<lambda>_ _ _. [])\<rparr>"

lemma demo_fuse_ok: "fuse_ok demo_fuse"
  using demo_env_ok by (simp add: fuse_ok_def demo_fuse_def refill_clean_def refill_ok_def same_links_def)

lemma demo_mounted: "mounted demo_fuse demo_start [] []"
proof -
  have "tree_reachable (\<lparr>tables = [0 \<mapsto> demo_root], root_tbl = Some 0, next_addr = 1\<rparr>, \<lambda>_. 0)"
    by (rule tree_reachable.init) (simp add: fresh_table_def demo_root_def demo_table_def LinkTreeRefs.demo_link_def demo_file_def)
  then show ?thesis unfolding demo_start_def
    by (rule mounted.start) (auto simp: demo_root_def LinkTreeRefs.demo_link_def demo_file_def no_cache_def split: if_splits)
qed

lemma demo_fuse_room: "k \<le> 99 \<Longrightarrow> room (f_env demo_fuse) k demo_start"
  by (simp add: room_def demo_fuse_def demo_env_def demo_start_def)

lemma demo_fuse_opened:
  obtains c s' where "fs_open demo_fuse (\<lambda>_ _. no_faults) ''/f'' 0 demo_start = Some (0, CACHE_FH c, s')"
proof -
  let ?s = "demo_start\<lparr>tree := put 0 (demo_root\<lparr>refcount := refcount demo_root + 1\<rparr>) (tree demo_start)\<rparr>"
  let ?link = "demo_file\<lparr>f_url := ''http://h/f''\<rparr>"
  have t: "tables (tree demo_start) (fst (0, 1 :: nat)) = Some demo_root" by (simp add: demo_start_def)
  have find: "find_link demo_env ''/f'' demo_start = Some (Some (0, 1), ?s)"
    using find_resolved [OF demo_resolved t, of demo_env] by simp
  have link: "get_link (0, 1) (tree ?s) = Some ?link" by (simp add: get_link_def demo_root_def)
  have inv0: "open_inv (\<lambda>_. 0) (\<lambda>_. 0) demo_start" by (rule session_inv [OF demo_env_ok demo_session])
  have room0: "room demo_env (length ''/f'') demo_start" using demo_room by (simp add: room_def)
  have inv: "open_inv ((\<lambda>_. 0)(0 := 1)) (\<lambda>_. 0) ?s"
    using find_link_inv [OF inv0 demo_env_ok room0] find by simp
  have room: "room demo_env (7 * length (join [''f''])) ?s"
    by (simp add: room_def demo_env_def demo_start_def)
  have ptr: "cache_ptr ?link = None" by (simp add: demo_file_def)
  have res: "resolved [''f''] (0, 1) (tree ?s)" using resolved_pinned [OF demo_resolved t] by simp
  obtain c s2 where c: "Cache_open demo_env (\<lambda>_ _. no_faults) ''/f'' ?s = Some (Some c, s2)"
    "open_inv ((\<lambda>_. 0)(0 := 1)) ((\<lambda>_. 0)(c := 1)) s2" "grown 14 ?s s2"
    using Cache_open_works [OF inv demo_env_ok room res link ptr demo_file_ok] by auto
  have "room demo_env 0 s2" by (rule room_grown [OF c(3)]) (simp add: room_def demo_env_def demo_start_def)
  then obtain s' where "drop_link demo_env (0, 1) s2 = Some s'"
    using drop_link_inv [OF c(2), of "(0, 1)"] by auto
  moreover have "\<not> bypass_cache (e_cfg demo_env) ?link"
    by (simp add: bypass_cache_def demo_env_def Config_init_def demo_file_def to_off_def to_size_def Let_def)
  moreover have "content_length ?link \<noteq> 0" by (simp add: demo_file_def)
  ultimately have "fs_open demo_fuse (\<lambda>_ _. no_faults) ''/f'' 0 demo_start = Some (0, CACHE_FH c, s')"
    using find link c(1) by (simp add: fs_open_def demo_fuse_def)
  then show thesis by (rule that)
qed

theorem fuse_references_balanced_witness:
  "\<exists>c s'. mounted demo_fuse s' [] [CACHE_FH c] \<and> caches s' c \<noteq> None"
proof -
  obtain c s' where o: "fs_open demo_fuse (\<lambda>_ _. no_faults) ''/f'' 0 demo_start = Some (0, CACHE_FH c, s')"
    by (rule demo_fuse_opened)
  have "mounted demo_fuse s' [] (if (0 :: int) = 0 then [CACHE_FH c] else [])"
    by (rule mounted.opens [OF demo_mounted _ o]) (simp add: demo_fuse_room)
  then have m: "mounted demo_fuse s' [] [CACHE_FH c]" by simp
  from fuse_references_balanced [OF demo_fuse_ok this] have "caches s' c \<noteq> None" by simp
  with m show ?thesis by blast
qed



theorem open_refuses_only_rdwr_witness:
  "\<exists>r s'. fs_open demo_fuse (\<lambda>_ _. no_faults) ''/f'' O_RDWR demo_start = Some (r, NULL_FH, s') \<and> r < 0"
proof -
  have "room (f_env demo_fuse) (8 * length ''/f'') demo_start" by (simp add: demo_fuse_room)
  from open_refuses_only_rdwr [OF demo_fuse_ok demo_mounted this, of O_RDWR "\<lambda>_ _. no_faults"]
  have "\<exists>r s'. fs_open demo_fuse (\<lambda>_ _. no_faults) ''/f'' O_RDWR demo_start = Some (r, NULL_FH, s') \<and>
    (r = - EROFS \<or> r = - ENOENT)" by auto
  then show ?thesis by force
qed

end
