(* ===== verification/Args.thy ===== *)
theory Args
  imports Fuse CacheDirs
begin

text \<open>
  \<open>src/main.c\<close>: the configuration file, the options, and the checks before the file system
  starts.  Arguments are \<open>getopt_long\<close>, whose results are a list of events and which \<open>Getopt\<close>
  fills in, the environment variables and \<open>realpath\<close>.  \<open>Inl\<close> is an exit of the process.
\<close>

section \<open>Numbers\<close>

text \<open>
  \<open>strtoll(s, &endptr, 10)\<close> with a clear \<open>errno\<close>: the value, the rest of the string and whether
  the value was out of range.  \<open>long\<close> and \<open>long long\<close> have 64 bits.
\<close>

definition is_digit :: "char \<Rightarrow> bool" where
  "is_digit c \<longleftrightarrow> 48 \<le> (of_char c :: nat) \<and> (of_char c :: nat) < 58"

definition strtoll :: "cstr \<Rightarrow> int \<times> cstr \<times> bool" where
  "strtoll s =
    (let body = dropWhile c_isspace s;
         neg = (body \<noteq> [] \<and> hd body = CHR ''-'');
         ds = (if body \<noteq> [] \<and> (hd body = CHR ''-'' \<or> hd body = CHR ''+'') then tl body else body)
     in if ds = [] \<or> \<not> is_digit (hd ds) then (0, s, False)
        else (case read_nat 0 ds of
                (n, rest) \<Rightarrow>
                  (let v = (if neg then - int n else int n)
                   in if v > INT64_MAX then (INT64_MAX, rest, True)
                      else if v < - INT64_MAX - 1 then (- INT64_MAX - 1, rest, True)
                      else (v, rest, False))))"

text \<open>\<open>(int)strtol(s, NULL, 10)\<close>.\<close>

definition int_option :: "cstr \<Rightarrow> int" where
  "int_option s = to_int32 (fst (strtoll s))"

text \<open>The value of \<open>--cache-min-size\<close> and \<open>--cache-max-size\<close>; None is the error exit.\<close>

definition size_argument :: "cstr \<Rightarrow> int option" where
  "size_argument s =
    (case strtoll s of
       (val, endptr, erange) \<Rightarrow>
         if erange \<or> endptr = s \<or> endptr \<noteq> [] \<or> val < 0 then None else Some val)"

section \<open>The configuration file\<close>

definition get_XDG_CONFIG_HOME :: "cstr option \<Rightarrow> cstr option \<Rightarrow> cstr option \<Rightarrow> cstr option" where
  "get_XDG_CONFIG_HOME xdg_config_home user_home cur_dir =
    (case xdg_config_home of
       Some x \<Rightarrow> Some (strndup x PATH_MAX)
     | None \<Rightarrow>
         (case user_home of
            Some h \<Rightarrow> Some (path_append h ''/.config'')
          | None \<Rightarrow> (case cur_dir of Some c \<Rightarrow> Some (path_append c ''/.config'') | None \<Rightarrow> None)))"

text \<open>The arguments that one line adds.\<close>

definition config_line :: "cstr \<Rightarrow> cstr list" where
  "config_line buf =
    (let line = dropWhile c_isspace (rev (dropWhile c_isspace (rev buf)))
     in if line = [] \<or> hd line \<noteq> CHR ''-'' then []
        else (case strpbrk line [CHR '' '', CHR 0x09] of
                None \<Rightarrow> [line]
              | Some i \<Rightarrow>
                  (let value = dropWhile c_isspace (drop (i + 1) line)
                   in take i line # (if value = [] then [] else [value]))))"

text \<open>
  The lines of the file at a path, None when it cannot be opened; without \<open>--config\<close> that is not
  an error.  A missing home directory is fatal in \<open>path_append\<close>.
\<close>

definition parse_config_file ::
    "cstr option \<Rightarrow> cstr option \<Rightarrow> (cstr \<Rightarrow> cstr list option) \<Rightarrow> cstr list \<Rightarrow> (unit + cstr list)" where
  "parse_config_file config_path xdg_config_home read_lines argv =
    (case (case config_path of None \<Rightarrow> path_append_ptr xdg_config_home (Some ''/httpdirfs/config'') | Some p \<Rightarrow> Some p) of
       None \<Rightarrow> Inl ()
     | Some full_path \<Rightarrow>
         (case read_lines full_path of
            None \<Rightarrow> if config_path = None then Inr argv else Inl ()
          | Some lines \<Rightarrow> Inr (argv @ concat (map config_line lines))))"

section \<open>The options\<close>

text \<open>What \<open>getopt_long\<close> returns: a short option with its argument, the index of a long one, or \<open>?\<close>.\<close>

datatype opt_event = Short char cstr | Long nat cstr | Bad

record args =
  cfg :: ConfigStruct
  fuse_argv :: "cstr list"
  cleared :: "cstr option"

definition add_arg :: "cstr list \<Rightarrow> cstr \<Rightarrow> cstr list" where
  "add_arg argv opt_string = argv @ [opt_string]"

text \<open>
  One event: go on with a new state, or stop with a result (\<open>Inr\<close>, the values 1 and 2 of the
  function) or an exit (\<open>Inl\<close> with the exit status).
\<close>

datatype verdict = Continue args | Skip int args | Exit_with int args

definition set_cfg :: "(ConfigStruct \<Rightarrow> ConfigStruct) \<Rightarrow> args \<Rightarrow> verdict" where
  "set_cfg f a = Continue (a\<lparr>cfg := f (cfg a)\<rparr>)"

definition short_option :: "char \<Rightarrow> cstr \<Rightarrow> args \<Rightarrow> verdict" where
  "short_option c optarg a =
    (if c = CHR ''o'' then Continue (a\<lparr>fuse_argv := add_arg (add_arg (fuse_argv a) ''-o'') optarg\<rparr>)
     else if c = CHR ''h'' then Skip 2 (a\<lparr>fuse_argv := add_arg (fuse_argv a) ''-h''\<rparr>)
     else if c = CHR ''V'' then Skip 1 (a\<lparr>fuse_argv := add_arg (fuse_argv a) ''-V''\<rparr>)
     else if c = CHR ''d'' then
       Continue (a\<lparr>fuse_argv := add_arg (fuse_argv a) ''-d'', cfg := (cfg a)\<lparr>log_type := log_type (cfg a) OR log_debug\<rparr>\<rparr>)
     else if c = CHR ''f'' then Continue (a\<lparr>fuse_argv := add_arg (fuse_argv a) ''-f''\<rparr>)
     else if c = CHR ''s'' then Continue (a\<lparr>fuse_argv := add_arg (fuse_argv a) ''-s''\<rparr>)
     else if c = CHR ''u'' then set_cfg (\<lambda>g. g\<lparr>http_username := Some optarg\<rparr>) a
     else if c = CHR ''p'' then set_cfg (\<lambda>g. g\<lparr>http_password := Some optarg\<rparr>) a
     else if c = CHR ''P'' then set_cfg (\<lambda>g. g\<lparr>proxy := Some optarg\<rparr>) a
     else Exit_with 1 a)"

text \<open>\<open>int\<close> arithmetic that overflows is undefined; here it wraps, as it does on the usual machines.\<close>

definition segment_bytes :: "int \<Rightarrow> int" where
  "segment_bytes mib = to_int32 (to_int32 (mib * 1024) * 1024)"

text \<open>\<open>clear_home\<close> is \<open>CacheSystem_get_cache_dir\<close> in the environment of the process.\<close>

definition long_option :: "(ConfigStruct \<Rightarrow> cstr) \<Rightarrow> nat \<Rightarrow> cstr \<Rightarrow> args \<Rightarrow> verdict" where
  "long_option clear_home long_index optarg a =
    (if long_index = 6 then set_cfg (\<lambda>g. g\<lparr>proxy_username := Some optarg\<rparr>) a
     else if long_index = 7 then set_cfg (\<lambda>g. g\<lparr>proxy_password := Some optarg\<rparr>) a
     else if long_index = 8 then set_cfg (\<lambda>g. g\<lparr>cache_enabled := True\<rparr>) a
     else if long_index = 9 then set_cfg (\<lambda>g. g\<lparr>data_blksz := segment_bytes (int_option optarg)\<rparr>) a
     else if long_index = 10 then set_cfg (\<lambda>g. g\<lparr>max_conns := int_option optarg\<rparr>) a
     else if long_index = 11 then set_cfg (\<lambda>g. g\<lparr>user_agent := Some optarg\<rparr>) a
     else if long_index = 12 then set_cfg (\<lambda>g. g\<lparr>http_wait_sec := int_option optarg\<rparr>) a
     else if long_index = 13 then set_cfg (\<lambda>g. g\<lparr>cfg_cache_dir := Some optarg\<rparr>) a
     else if long_index = 14 then set_cfg (\<lambda>g. g\<lparr>sonic_username := Some optarg\<rparr>) a
     else if long_index = 15 then set_cfg (\<lambda>g. g\<lparr>sonic_password := Some optarg\<rparr>) a
     else if long_index = 16 then set_cfg (\<lambda>g. g\<lparr>sonic_id3 := True\<rparr>) a
     else if long_index = 17 then set_cfg (\<lambda>g. g\<lparr>no_range_check := True\<rparr>) a
     else if long_index = 18 then set_cfg (\<lambda>g. g\<lparr>sonic_insecure := True\<rparr>) a
     else if long_index = 19 then set_cfg (\<lambda>g. g\<lparr>insecure_tls := True\<rparr>) a
     else if long_index = 20 then Continue a
     else if long_index = 21 then set_cfg (\<lambda>g. g\<lparr>mode := SINGLE\<rparr>) a
     else if long_index = 22 then set_cfg (\<lambda>g. g\<lparr>cafile := Some optarg\<rparr>) a
     else if long_index = 23 then set_cfg (\<lambda>g. g\<lparr>proxy_cafile := Some optarg\<rparr>) a
     else if long_index = 24 then set_cfg (\<lambda>g. g\<lparr>refresh_timeout := int_option optarg\<rparr>) a
     else if long_index = 25 then set_cfg (\<lambda>g. g\<lparr>http_headers := http_headers g @ [optarg]\<rparr>) a
     else if long_index = 26 then Exit_with 0 (a\<lparr>cleared := Some (CacheSystem_clear (cfg a) (clear_home (cfg a)))\<rparr>)
     else if long_index = 27 then set_cfg (\<lambda>g. g\<lparr>zero_len_is_dir := True\<rparr>) a
     else if long_index = 28 then set_cfg (\<lambda>g. g\<lparr>invalid_refresh := True\<rparr>) a
     else if long_index = 29 then set_cfg (\<lambda>g. g\<lparr>capath := Some optarg\<rparr>) a
     else if long_index = 30 then set_cfg (\<lambda>g. g\<lparr>proxy_capath := Some optarg\<rparr>) a
     else if long_index = 31 then set_cfg (\<lambda>g. g\<lparr>external_links := True\<rparr>) a
     else if long_index = 32 then
       (case size_argument optarg of None \<Rightarrow> Exit_with 1 a | Some v \<Rightarrow> set_cfg (\<lambda>g. g\<lparr>cache_min_size := v\<rparr>) a)
     else if long_index = 33 then
       (case size_argument optarg of None \<Rightarrow> Exit_with 1 a | Some v \<Rightarrow> set_cfg (\<lambda>g. g\<lparr>cache_max_size := v\<rparr>) a)
     else Exit_with 1 a)"

fun parse_arg_list :: "(ConfigStruct \<Rightarrow> cstr) \<Rightarrow> opt_event list \<Rightarrow> args \<Rightarrow> verdict" where
  "parse_arg_list clear_home [] a =
    (if cache_min_size (cfg a) \<ge> 0 \<and> cache_max_size (cfg a) \<ge> 0 \<and> cache_min_size (cfg a) > cache_max_size (cfg a)
     then Exit_with 1 a else Continue a)"
| "parse_arg_list clear_home (ev # evs) a =
    (case (case ev of
             Short c optarg \<Rightarrow> short_option c optarg a
           | Long i optarg \<Rightarrow> long_option clear_home i optarg a
           | Bad \<Rightarrow> Exit_with 1 a) of
       Continue a' \<Rightarrow> parse_arg_list clear_home evs a'
     | v \<Rightarrow> v)"

section \<open>Start-up\<close>

text \<open>
  The first pass over the command line, from the second argument on: the copied arguments and the
  path of the last \<open>--config\<close>; None is the exit for a missing path.
\<close>

fun scan_args :: "cstr option \<Rightarrow> cstr list \<Rightarrow> (cstr list \<times> cstr option) option" where
  "scan_args config_path [] = Some ([], config_path)"
| "scan_args config_path (x # xs) =
    (if take 9 x = ''--config='' then
       (if drop 9 x = [] then None
        else map_option (\<lambda>(as, p). (x # as, p)) (scan_args (Some (drop 9 x)) xs))
     else if x = ''--config'' then
       (case xs of
          [] \<Rightarrow> None
        | y # ys \<Rightarrow> if y = [] \<or> hd y = CHR ''-'' then None
                    else map_option (\<lambda>(as, p). (x # y # as, p)) (scan_args (Some y) ys))
     else map_option (\<lambda>(as, p). (x # as, p)) (scan_args config_path xs))"

text \<open>
  The world of \<open>main\<close>: \<open>getopt_long\<close> on an argument vector (its events, the permuted vector and
  \<open>optind\<close>), the configuration directory and files, the FUSE device, \<open>realpath\<close>, whether a path
  is a directory (None when \<open>stat\<close> fails), and whether \<open>LinkSystem_init\<close> yields a table.
\<close>

record world =
  w_getopt :: "cstr list \<Rightarrow> opt_event list \<times> cstr list \<times> nat"
  w_xdg :: "cstr option"
  w_read :: "cstr \<Rightarrow> cstr list option"
  w_clear_home :: "ConfigStruct \<Rightarrow> cstr"
  w_fuse :: bool
  w_realpath :: "cstr \<Rightarrow> cstr option"
  w_is_dir :: "cstr \<Rightarrow> bool option"
  w_init :: "ConfigStruct \<Rightarrow> cstr \<Rightarrow> bool"

text \<open>The process exits, or FUSE starts with arguments, a configuration and the value of \<open>skip\<close>.\<close>

datatype started = Exits int | Starts "cstr list" ConfigStruct int

definition http_url :: "cstr \<Rightarrow> bool" where
  "http_url base_url \<longleftrightarrow> take 7 base_url = ''http://'' \<or> take 8 base_url = ''https://''"

definition choose_mode :: "ConfigStruct \<Rightarrow> ConfigStruct option" where
  "choose_mode g =
    (if sonic_username g \<noteq> None \<and> sonic_password g \<noteq> None then Some (g\<lparr>mode := SONIC\<rparr>)
     else if sonic_username g \<noteq> None \<or> sonic_password g \<noteq> None then None
     else Some g)"

definition mount_checked :: "world \<Rightarrow> cstr list \<Rightarrow> nat \<Rightarrow> args \<Rightarrow> started" where
  "mount_checked w all_argv optind a =
    (if optind + 2 \<noteq> length all_argv then Exits 1
     else if \<not> w_fuse w then Exits 1
     else (case w_realpath w (all_argv ! (optind + 1)) of
             None \<Rightarrow> Exits 1
           | Some abs_mountpoint \<Rightarrow>
               if w_is_dir w abs_mountpoint \<noteq> Some True then Exits 1
               else (let base_url = all_argv ! optind
                     in if \<not> http_url base_url then Exits 1
                        else (case choose_mode (cfg a) of
                                None \<Rightarrow> Exits 1
                              | Some g \<Rightarrow> if w_init w g base_url
                                          then Starts (add_arg (fuse_argv a) abs_mountpoint) g 0 else Exits 1))))"

definition main_start :: "world \<Rightarrow> ConfigStruct \<Rightarrow> cstr list \<Rightarrow> started" where
  "main_start w init argv =
    (if length argv < 2 then Exits 1
     else (case scan_args None (tl argv) of
             None \<Rightarrow> Exits 1
           | Some (args, config_path) \<Rightarrow>
               (case parse_config_file config_path (w_xdg w) (w_read w) (hd argv # args) of
                  Inl _ \<Rightarrow> Exits 1
                | Inr all_argv \<Rightarrow>
                    (case w_getopt w all_argv of
                       (evs, permuted, optind) \<Rightarrow>
                         (case parse_arg_list (w_clear_home w) evs \<lparr>cfg = init, fuse_argv = [hd argv], cleared = None\<rparr> of
                            Exit_with n _ \<Rightarrow> Exits n
                          | Skip n a \<Rightarrow> Starts (fuse_argv a) (cfg a) n
                          | Continue a \<Rightarrow> mount_checked w permuted optind a)))))"

section \<open>Lemmas\<close>

lemma scan_args_copies: "scan_args p xs = Some (as, q) \<Longrightarrow> as = xs"
proof (induction p xs arbitrary: as q rule: scan_args.induct)
  case (2 p x xs)
  then show ?case by (cases xs) (auto split: if_splits)
qed simp

lemma is_digit_digit: "d < 10 \<Longrightarrow> is_digit (digit d)"
  by (simp add: is_digit_def digit_code)

lemma show_nat_head: "show_nat n \<noteq> [] \<and> is_digit (hd (show_nat n))"
proof (induction n rule: show_nat.induct)
  case (1 n)
  then show ?case
    by (cases "n < 10") (simp_all add: show_nat.simps [of n] is_digit_digit)
qed

lemma digit_class: "is_digit c \<Longrightarrow> \<not> c_isspace c \<and> c \<noteq> CHR ''-'' \<and> c \<noteq> CHR ''+''"
  by (auto simp: is_digit_def c_isspace_def)

lemma strtoll_show_nat:
  "strtoll (show_nat n) = (if int n > INT64_MAX then (INT64_MAX, [], True) else (int n, [], False))"
proof -
  have s: "show_nat n \<noteq> []" "is_digit (hd (show_nat n))" using show_nat_head by blast+
  note c = digit_class [OF s(2)]
  have "dropWhile c_isspace (show_nat n) = show_nat n" using s(1) c by (cases "show_nat n") simp_all
  moreover have "read_nat 0 (show_nat n) = (n, [])" using read_show_nat [of 0 n "[]"] by simp
  ultimately show ?thesis using s c by (simp add: strtoll_def Let_def)
qed

lemma strtoll_range: "strtoll s = (v, r, e) \<Longrightarrow> - INT64_MAX - 1 \<le> v \<and> v \<le> INT64_MAX"
  by (auto simp: strtoll_def Let_def split: if_splits prod.splits)

text \<open>What a successful run over the options keeps.\<close>

definition grows :: "args \<Rightarrow> args \<Rightarrow> bool" where
  "grows a a' \<longleftrightarrow> (\<exists>xs. fuse_argv a' = fuse_argv a @ xs) \<and> (mode (cfg a') = mode (cfg a) \<or> mode (cfg a') = SINGLE)"

lemma grows_refl [simp]: "grows a a"
  by (simp add: grows_def)

lemma grows_trans: "grows a b \<Longrightarrow> grows b c \<Longrightarrow> grows a c"
  by (auto simp: grows_def)

lemma short_option_grows: "short_option c v a = Continue a' \<Longrightarrow> grows a a'"
  by (auto simp: short_option_def set_cfg_def add_arg_def grows_def split: if_splits)

lemma long_option_grows: "long_option h i v a = Continue a' \<Longrightarrow> grows a a'"
  by (auto simp: long_option_def set_cfg_def grows_def split: if_splits option.splits)

lemma parse_arg_list_grows: "parse_arg_list h evs a = Continue a' \<Longrightarrow> grows a a'"
proof (induction h evs a rule: parse_arg_list.induct)
  case (2 h ev evs a)
  then obtain b where b: "(case ev of Short c v \<Rightarrow> short_option c v a | Long i v \<Rightarrow> long_option h i v a
      | Bad \<Rightarrow> Exit_with 1 a) = Continue b" "parse_arg_list h evs b = Continue a'"
    by (auto split: verdict.splits)
  then have "grows a b" using short_option_grows long_option_grows by (auto split: opt_event.splits)
  moreover have "grows b a'" using "2.IH" b by blast
  ultimately show ?case by (rule grows_trans)
qed (auto split: if_splits)

lemma parse_arg_list_skip: "parse_arg_list h evs a = Skip n a' \<Longrightarrow> n = 1 \<or> n = 2"
proof (induction h evs a rule: parse_arg_list.induct)
  case (2 h ev evs a)
  have "long_option h i v a \<noteq> Skip n a'" for i v
    by (auto simp: long_option_def set_cfg_def split: option.splits)
  moreover have "short_option c v a = Skip n a' \<Longrightarrow> n = 1 \<or> n = 2" for c v
    by (auto simp: short_option_def set_cfg_def split: if_splits)
  ultimately show ?case using 2 by (auto split: verdict.splits opt_event.splits)
qed (auto split: if_splits)

lemma parse_arg_list_sizes:
  "parse_arg_list h evs a = Continue a' \<Longrightarrow>
    cache_min_size (cfg a') < 0 \<or> cache_max_size (cfg a') < 0 \<or> cache_min_size (cfg a') \<le> cache_max_size (cfg a')"
  by (induction h evs a rule: parse_arg_list.induct) (auto split: if_splits verdict.splits)

lemma to_int32_range: "- (2 ^ 31) \<le> to_int32 i \<and> to_int32 i < 2 ^ 31"
  by (simp add: to_int32_def)

lemma strip_ws:
  assumes "list_all c_isspace w1" "list_all c_isspace w3" "body \<noteq> []" "\<not> c_isspace (hd body)" "\<not> c_isspace (last body)"
  shows "dropWhile c_isspace (rev (dropWhile c_isspace (rev (w1 @ body @ w3)))) = body"
proof -
  have 1: "dropWhile c_isspace (rev w3 @ xs) = dropWhile c_isspace xs" for xs
    using assms(2) by (intro dropWhile_append2) (simp add: list_all_iff)
  have "rev body = last body # rev (butlast body)"
    by (subst append_butlast_last_id [OF assms(3), symmetric]) simp
  then have 2: "dropWhile c_isspace (rev body @ xs) = rev body @ xs" for xs
    using assms(5) by (metis append_Cons dropWhile.simps(2))
  have 3: "dropWhile c_isspace (w1 @ xs) = dropWhile c_isspace xs" for xs
    using assms(1) by (intro dropWhile_append2) (simp add: list_all_iff)
  have "dropWhile c_isspace body = body" using assms(3,4) by (cases body) simp_all
  then show ?thesis by (simp add: 1 2 3)
qed

lemma strpbrk_word:
  assumes "\<forall>c \<in> set opt. c \<noteq> CHR '' '' \<and> c \<noteq> CHR 0x09"
  shows "strpbrk opt [CHR '' '', CHR 0x09] = None"
    and "x = CHR '' '' \<or> x = CHR 0x09 \<Longrightarrow> strpbrk (opt @ x # rest) [CHR '' '', CHR 0x09] = Some (length opt)"
  using assms by (induction opt) (auto simp: strpbrk_def)

section \<open>Properties\<close>

text \<open>
  A line of the configuration file gives the arguments that were written: an option alone one
  argument, an option and a value two, with the white space around them taken off and the value
  kept as it is, spaces inside it included.  Lines that do not start with a hyphen give none.
\<close>

theorem config_line_arguments:
  assumes "list_all c_isspace w1" "list_all c_isspace w3" "opt \<noteq> []" "hd opt = CHR ''-''"
    and "\<forall>c \<in> set opt. \<not> c_isspace c"
  shows "config_line (w1 @ opt @ w3) = [opt] \<and>
    (\<forall>x w2 val. x = CHR '' '' \<or> x = CHR 0x09 \<longrightarrow> list_all c_isspace w2 \<longrightarrow> val \<noteq> [] \<longrightarrow> \<not> c_isspace (hd val) \<longrightarrow>
       \<not> c_isspace (last val) \<longrightarrow> config_line (w1 @ (opt @ x # w2 @ val) @ w3) = [opt, val]) \<and>
    (\<forall>c rest. c \<noteq> CHR ''-'' \<longrightarrow> \<not> c_isspace c \<longrightarrow> config_line (w1 @ c # rest) = [])"
proof (intro conjI allI impI)
  have blank: "c_isspace (CHR '' '')" "c_isspace (CHR 0x09)" by (simp_all add: c_isspace_def)
  have word: "\<forall>c \<in> set opt. c \<noteq> CHR '' '' \<and> c \<noteq> CHR 0x09" using assms(5) blank by blast
  have ends: "\<not> c_isspace (hd opt)" "\<not> c_isspace (last opt)" using assms(3,5) by simp_all
  show "config_line (w1 @ opt @ w3) = [opt]"
    unfolding config_line_def strip_ws [OF assms(1,2,3) ends] using assms(3,4) strpbrk_word(1) [OF word] by simp
  show "config_line (w1 @ (opt @ x # w2 @ val) @ w3) = [opt, val]"
    if "x = CHR '' '' \<or> x = CHR 0x09" "list_all c_isspace w2" "val \<noteq> []" "\<not> c_isspace (hd val)" "\<not> c_isspace (last val)"
    for x w2 val
  proof -
    have "opt @ x # w2 @ val \<noteq> []" "\<not> c_isspace (hd (opt @ x # w2 @ val))" "\<not> c_isspace (last (opt @ x # w2 @ val))"
      using assms(3) ends that by simp_all
    note s = strip_ws [OF assms(1,2) this]
    have "dropWhile c_isspace (w2 @ val) = dropWhile c_isspace val"
      using that(2) by (intro dropWhile_append2) (simp add: list_all_iff)
    also have "\<dots> = val" using that(3,4) by (cases val) simp_all
    finally show ?thesis
      unfolding config_line_def s using assms(3,4) strpbrk_word(2) [OF word that(1)] that(3) by simp
  qed
  show "config_line (w1 @ c # rest) = []" if c: "c \<noteq> CHR ''-''" "\<not> c_isspace c" for c rest
  proof -
    let ?body = "rev (dropWhile c_isspace (rev rest))"
    have "dropWhile c_isspace (xs @ c # ys) = dropWhile c_isspace xs @ c # ys" for xs ys
      using c(2) by (induction xs) simp_all
    then have "rev (dropWhile c_isspace (rev (w1 @ c # rest))) = w1 @ c # ?body" by simp
    moreover have "dropWhile c_isspace (w1 @ c # ?body) = c # ?body"
      using assms(1) c(2) by (subst dropWhile_append2) (simp_all add: list_all_iff)
    ultimately show ?thesis using c(1) by (simp add: config_line_def)
  qed
qed

theorem config_line_arguments_witness:
  "config_line ''  --user-agent My Agent '' = [''--user-agent'', ''My Agent''] \<and> config_line ''# -f'' = []"
proof -
  have sp: "list_all c_isspace ''  ''" "list_all c_isspace '' ''" "list_all c_isspace []" by (simp_all add: c_isspace_def)
  have "\<forall>c \<in> set ''--user-agent''. \<not> c_isspace c" by (simp add: c_isspace_def)
  note P = config_line_arguments [OF sp(1,2) _ _ this, simplified list.sel, THEN conjunct2, THEN conjunct1, rule_format]
  have ends: "\<not> c_isspace (hd ''My Agent'')" "\<not> c_isspace (last ''My Agent'')" by (simp_all add: c_isspace_def)
  have "config_line (''  '' @ (''--user-agent'' @ CHR '' '' # [] @ ''My Agent'') @ '' '') = [''--user-agent'', ''My Agent'']"
    by (rule P [OF _ _ _ sp(3) _ ends]) simp_all
  moreover have "\<not> c_isspace (CHR ''#'')" "\<forall>c \<in> set ''-f''. \<not> c_isspace c" by (simp_all add: c_isspace_def)
  then have "config_line ([] @ CHR ''#'' # '' -f'') = []"
    using config_line_arguments [OF sp(3,3), of "''-f''"] by simp
  ultimately show ?thesis by simp
qed

text \<open>
  The size options accept exactly the numbers they promise, without wrapping: every decimal
  number up to the largest \<open>off_t\<close> is taken as it is, a larger one is refused, and whatever text
  is accepted gives a number in that range.  After all options the two limits are in order, and
  they alone decide whether a file goes through the cache.
\<close>

theorem size_options_decide_caching:
  "size_argument (show_nat n) = (if int n \<le> INT64_MAX then Some (int n) else None) \<and>
   (size_argument s = Some v \<longrightarrow> 0 \<le> v \<and> v \<le> INT64_MAX) \<and>
   (parse_arg_list h evs a = Continue a' \<longrightarrow> content_length link < 2 ^ 63 \<longrightarrow>
      (cache_min_size (cfg a') < 0 \<or> cache_max_size (cfg a') < 0 \<or> cache_min_size (cfg a') \<le> cache_max_size (cfg a')) \<and>
      (bypass_cache (cfg a') link \<longleftrightarrow>
         int (content_length link) < cache_min_size (cfg a') \<or>
         (0 \<le> cache_max_size (cfg a') \<and> cache_max_size (cfg a') < int (content_length link))))"
proof -
  have "size_argument (show_nat n) = (if int n \<le> INT64_MAX then Some (int n) else None)"
    using show_nat_head [of n] by (auto simp: size_argument_def strtoll_show_nat)
  moreover have "0 \<le> v \<and> v \<le> INT64_MAX" if "size_argument s = Some v"
  proof -
    obtain v' r e where s: "strtoll s = (v', r, e)" by (metis prod.exhaust)
    with that strtoll_range [OF s] show ?thesis by (auto simp: size_argument_def split: if_splits)
  qed
  moreover have "bypass_cache (cfg a') link \<longleftrightarrow>
      int (content_length link) < cache_min_size (cfg a') \<or>
      (0 \<le> cache_max_size (cfg a') \<and> cache_max_size (cfg a') < int (content_length link))"
    if "content_length link < 2 ^ 63"
  proof -
    have "to_off (content_length link) = int (content_length link)" "to_size (int (content_length link)) = content_length link"
      using that by (simp_all add: to_off_small to_size_nonneg)
    then show ?thesis by (auto simp: bypass_cache_def Let_def)
  qed
  ultimately show ?thesis using parse_arg_list_sizes by blast
qed

definition demo_args :: args where
  "demo_args = \<lparr>cfg = Config_init ''httpdirfs'' 15, fuse_argv = [''httpdirfs''], cleared = None\<rparr>"

theorem size_options_decide_caching_witness:
  "\<exists>a'. parse_arg_list (\<lambda>_. []) [Long 32 (show_nat 3), Long 33 (show_nat 10)] demo_args = Continue a' \<and>
    \<not> bypass_cache (cfg a') ((link_to ''http://h/f'')\<lparr>content_length := 5\<rparr>)"
proof -
  let ?link = "(link_to ''http://h/f'')\<lparr>content_length := 5\<rparr>"
  have "size_argument (show_nat 3) = Some 3" "size_argument (show_nat 10) = Some 10"
    using size_options_decide_caching [of 3] size_options_decide_caching [of 10] by simp_all
  then obtain a' where a: "parse_arg_list (\<lambda>_. []) [Long 32 (show_nat 3), Long 33 (show_nat 10)] demo_args = Continue a'"
    "cache_min_size (cfg a') = 3" "cache_max_size (cfg a') = 10"
    by (simp add: long_option_def set_cfg_def)
  moreover have "content_length ?link < 2 ^ 63" by simp
  ultimately show ?thesis using size_options_decide_caching [THEN conjunct2, THEN conjunct2, rule_format, OF a(1), of ?link]
    by auto
qed

text \<open>
  \<open>--dl-seg-size\<close> is taken in MiB and multiplied in \<open>int\<close>: below 2048 the segment size is what
  was asked for; 2048 gives a negative size and every multiple of 4096 gives 0, with which no
  cache can be created: the division by the segment size traps.
\<close>

theorem dl_seg_size_overflows:
  "(0 \<le> mib \<and> mib < 2048 \<longrightarrow> segment_bytes mib = mib * 2 ^ 20) \<and>
   segment_bytes 2048 < 0 \<and>
   (parse_arg_list h [Long 9 (show_nat 4096)] a = Continue a' \<longrightarrow>
      data_blksz (cfg a') = 0 \<and> create_files (e\<lparr>e_cfg := cfg a'\<rparr>) flt fn l link s = None)"
proof -
  have 1: "segment_bytes mib = mib * 2 ^ 20" if "0 \<le> mib" "mib < 2048"
    using that by (simp add: segment_bytes_def to_int32_small)
  have 2: "segment_bytes 2048 < 0" by (simp add: segment_bytes_def to_int32_def)
  have ints: "int_option (show_nat 4096) = 4096" "segment_bytes 4096 = 0"
    by (simp_all add: int_option_def strtoll_show_nat segment_bytes_def to_int32_def)
  have 3: "data_blksz (cfg a') = 0" if "parse_arg_list h [Long 9 (show_nat 4096)] a = Continue a'"
  proof -
    have "long_option h 9 (show_nat 4096) a = Continue (a\<lparr>cfg := (cfg a)\<lparr>data_blksz := 0\<rparr>\<rparr>)"
      using ints by (simp add: long_option_def set_cfg_def)
    with that show ?thesis by (auto split: if_splits)
  qed
  have 4: "create_files (e\<lparr>e_cfg := g\<rparr>) flt fn l link s = None" if "data_blksz g = 0" for g
    using that by (simp add: create_files_def Cache_new_def Let_def to_size_def)
  from 1 2 3 4 show ?thesis by blast
qed

theorem dl_seg_size_overflows_witness:
  "segment_bytes 8 = 8388608 \<and>
   (\<exists>a'. parse_arg_list (\<lambda>_. []) [Long 9 (show_nat 4096)] demo_args = Continue a' \<and> data_blksz (cfg a') = 0)"
proof -
  obtain a' where a: "parse_arg_list (\<lambda>_. []) [Long 9 (show_nat 4096)] demo_args = Continue a'"
    by (simp add: long_option_def set_cfg_def demo_args_def Config_init_def)
  from dl_seg_size_overflows [THEN conjunct2, THEN conjunct2, rule_format, OF a] a
    dl_seg_size_overflows [THEN conjunct1, rule_format, of 8] show ?thesis by auto
qed

text \<open>
  FUSE starts serving only after every check of \<open>main\<close>: exactly one URL and one mount point
  are left after the options, the URL is an HTTP one, the mount point exists and is a directory,
  and the root could be loaded.  FUSE gets the program's name first and the mount point last.
  Sonic mode is on exactly when both a name and a password for it are given; one of them alone
  never starts.
\<close>

theorem main_starts_checked:
  assumes "main_start w init argv = Starts fargv g 0" "mode init = NORMAL"
  shows "\<exists>all_argv evs permuted optind abs.
    w_getopt w (hd argv # tl argv @ all_argv) = (evs, permuted, optind) \<and> optind + 2 = length permuted \<and>
    http_url (permuted ! optind) \<and> w_realpath w (permuted ! (optind + 1)) = Some abs \<and> w_is_dir w abs = Some True \<and>
    w_init w g (permuted ! optind) \<and> hd fargv = hd argv \<and> last fargv = abs \<and>
    (mode g = SONIC \<longleftrightarrow> sonic_username g \<noteq> None) \<and> (sonic_username g = None \<longleftrightarrow> sonic_password g = None) \<and>
    (cache_min_size g < 0 \<or> cache_max_size g < 0 \<or> cache_min_size g \<le> cache_max_size g)"
proof -
  let ?a0 = "\<lparr>cfg = init, fuse_argv = [hd argv], cleared = None\<rparr>"
  obtain args path where s: "scan_args None (tl argv) = Some (args, path)"
    using assms(1) by (auto simp: main_start_def split: if_splits option.splits)
  note args = scan_args_copies [OF s]
  obtain all where p: "parse_config_file path (w_xdg w) (w_read w) (hd argv # args) = Inr all"
    using assms(1) s by (auto simp: main_start_def split: if_splits sum.splits)
  then obtain extra where all: "all = hd argv # args @ extra"
    by (auto simp: parse_config_file_def split: option.splits if_splits)
  obtain evs permuted optind where o: "w_getopt w all = (evs, permuted, optind)" by (metis prod.exhaust)
  have "length argv \<ge> 2" using assms(1) by (cases "length argv < 2") (simp_all add: main_start_def)
  then have run: "main_start w init argv =
      (case parse_arg_list (w_clear_home w) evs ?a0 of Exit_with n _ \<Rightarrow> Exits n
       | Skip n a \<Rightarrow> Starts (fuse_argv a) (cfg a) n | Continue a \<Rightarrow> mount_checked w permuted optind a)"
    by (simp add: main_start_def s p o)
  obtain a where a: "parse_arg_list (w_clear_home w) evs ?a0 = Continue a"
    and m: "mount_checked w permuted optind a = Starts fargv g 0"
    using assms(1) parse_arg_list_skip [of "w_clear_home w" evs ?a0]
    by (cases "parse_arg_list (w_clear_home w) evs ?a0") (auto simp: run)
  obtain xs where g: "fuse_argv a = hd argv # xs" "mode (cfg a) = NORMAL \<or> mode (cfg a) = SINGLE"
    using parse_arg_list_grows [OF a] assms(2) by (auto simp: grows_def)
  obtain abs where c: "optind + 2 = length permuted" "w_realpath w (permuted ! (optind + 1)) = Some abs"
    "w_is_dir w abs = Some True" "http_url (permuted ! optind)" "choose_mode (cfg a) = Some g"
    "w_init w g (permuted ! optind)" "fargv = fuse_argv a @ [abs]"
    using m by (auto simp: mount_checked_def add_arg_def Let_def split: if_splits option.splits)
  have "(mode g = SONIC \<longleftrightarrow> sonic_username g \<noteq> None) \<and> (sonic_username g = None \<longleftrightarrow> sonic_password g = None)"
    using c(5) g(2) by (auto simp: choose_mode_def split: if_splits)
  moreover have "cache_min_size g = cache_min_size (cfg a)" "cache_max_size g = cache_max_size (cfg a)"
    using c(5) by (auto simp: choose_mode_def split: if_splits)
  ultimately show ?thesis
    using o c g(1) all args parse_arg_list_sizes [OF a]
    by - (rule exI [of _ extra], rule exI [of _ evs], rule exI [of _ permuted], rule exI [of _ optind],
        rule exI [of _ abs], auto)
qed

definition demo_world :: world where
  "demo_world = \<lparr>w_getopt = (\<lambda>xs. ([Short CHR ''f'' []], [''httpdirfs'', ''-f'', ''http://h/'', ''m''], 2)),
     w_xdg = Some ''/home/u/.config'', w_read = (\<lambda>_. None), w_clear_home = (\<lambda>_. []), w_fuse = True,
     w_realpath = (\<lambda>p. Some (''/mnt/'' @ p)), w_is_dir = (\<lambda>_. Some True), w_init = (\<lambda>_ _. True)\<rparr>"

theorem main_starts_checked_witness:
  "\<exists>g. main_start demo_world (Config_init ''httpdirfs'' 15) [''httpdirfs'', ''http://h/'', ''m'', ''-f''] =
      Starts [''httpdirfs'', ''-f'', ''/mnt/m''] g 0 \<and> mode g \<noteq> SONIC"
proof -
  obtain g where g: "main_start demo_world (Config_init ''httpdirfs'' 15) [''httpdirfs'', ''http://h/'', ''m'', ''-f''] =
      Starts [''httpdirfs'', ''-f'', ''/mnt/m''] g 0" "sonic_username g = None"
    by (simp add: main_start_def demo_world_def parse_config_file_def path_append_ptr_def short_option_def add_arg_def
        mount_checked_def http_url_def choose_mode_def Config_init_def Let_def)
  have "mode (Config_init ''httpdirfs'' 15) = NORMAL" by (simp add: Config_init_def)
  from main_starts_checked [OF g(1) this] have "mode g = SONIC \<longleftrightarrow> sonic_username g \<noteq> None" by (elim exE conjE)
  then have "mode g \<noteq> SONIC" using g(2) by simp
  with g(1) show ?thesis by blast
qed

end
