(* ===== verification/Sonic.thy ===== *)
theory Sonic
  imports Args LinkStore
begin

text \<open>
  \<open>src/sonic.c\<close>: the client of Subsonic servers.  Request URLs, the link tables built from the
  server's XML in index and in ID3 mode, and the names they show.

  Expat is outside the program: a document is the list of the events it yields, the start of an
  element with its attributes or its end.  \<open>libuuid\<close>'s salt, MD5 and the parsing of dates are
  arguments too.
\<close>

section \<open>Configuration and request URLs\<close>

record SonicConfigStruct =
  sc_server :: cstr
  sc_username :: cstr
  sc_password :: cstr
  sc_client :: cstr
  sc_api_version :: cstr

definition sonic_config_init :: "ConfigStruct \<Rightarrow> cstr \<Rightarrow> cstr \<Rightarrow> cstr \<Rightarrow> cstr \<Rightarrow> SonicConfigStruct" where
  "sonic_config_init g default_user_agent server username password =
    (let sv = strndup server PATH_MAX
     in \<lparr>sc_server = (if sv \<noteq> [] \<and> last sv = slash then butlast sv else sv),
         sc_username = strndup username NAME_MAX, sc_password = strndup password NAME_MAX,
         sc_client = default_user_agent,
         sc_api_version = (if \<not> sonic_insecure g then ''1.13.0'' else ''1.8.0'')\<rparr>)"

text \<open>A request: the salt it draws, and MD5.\<close>

record sonic_env =
  s_cfg :: ConfigStruct
  s_conf :: SonicConfigStruct
  s_salt :: cstr
  s_md5 :: "cstr \<Rightarrow> cstr"
  s_time :: "cstr \<Rightarrow> int"
  s_get :: "cstr \<Rightarrow> (int \<times> cstr \<times> int) list"

definition sonic_gen_auth_str :: "sonic_env \<Rightarrow> cstr" where
  "sonic_gen_auth_str e =
    (let c = s_conf e
     in if \<not> sonic_insecure (s_cfg e) then
          (let token = s_md5 e (take NAME_MAX (sc_password c) @ take NAME_MAX (s_salt e))
           in take PATH_MAX (''.view?u='' @ sc_username c @ ''&t='' @ token @ ''&s='' @ s_salt e @
                ''&v='' @ sc_api_version c @ ''&c='' @ sc_client c))
        else take PATH_MAX (''.view?u='' @ sc_username c @ ''&p=enc:'' @ str_to_hex (sc_password c) @
               ''&v='' @ sc_api_version c @ ''&c='' @ sc_client c))"

definition sonic_gen_url_first_part :: "sonic_env \<Rightarrow> cstr \<Rightarrow> cstr" where
  "sonic_gen_url_first_part e method' =
    take PATH_MAX (sc_server (s_conf e) @ ''/rest/'' @ method' @ sonic_gen_auth_str e)"

definition sonic_getMusicDirectory_link :: "sonic_env \<Rightarrow> cstr \<Rightarrow> cstr" where
  "sonic_getMusicDirectory_link e ident =
    take PATH_MAX (sonic_gen_url_first_part e ''getMusicDirectory'' @ ''&id='' @ ident)"

definition sonic_getArtist_link :: "sonic_env \<Rightarrow> cstr \<Rightarrow> cstr" where
  "sonic_getArtist_link e ident = take PATH_MAX (sonic_gen_url_first_part e ''getArtist'' @ ''&id='' @ ident)"

definition sonic_getAlbum_link :: "sonic_env \<Rightarrow> cstr \<Rightarrow> cstr" where
  "sonic_getAlbum_link e ident = take PATH_MAX (sonic_gen_url_first_part e ''getAlbum'' @ ''&id='' @ ident)"

definition sonic_stream_link :: "sonic_env \<Rightarrow> cstr \<Rightarrow> cstr" where
  "sonic_stream_link e ident =
    take PATH_MAX (sonic_gen_url_first_part e ''stream'' @ ''&format=raw&id='' @ ident)"

section \<open>The handler of index mode, albums and songs\<close>

type_synonym attrs = "(cstr \<times> cstr) list"

text \<open>A link of \<open>CALLOC\<close>.\<close>

definition blank_link :: "LinkType \<Rightarrow> int \<Rightarrow> Link" where
  "blank_link ty d = \<lparr>linkname = [], linkpath = [], f_url = [], link_type = ty, content_length = 0,
     next_table = None, link_time = 0, cache_ptr = None, sonic = \<lparr>sonic_ident = None, depth = d\<rparr>\<rparr>"

definition element_link :: "int \<Rightarrow> cstr \<Rightarrow> Link option" where
  "element_link table_depth elem =
    (if elem = ''child'' \<or> (elem = ''artist'' \<and> table_depth \<noteq> 3) then Some (blank_link LINK_DIR 0)
     else if elem = ''album'' \<and> table_depth = 3 then Some (blank_link LINK_DIR 4)
     else if elem = ''song'' \<and> table_depth = 4 then Some (blank_link LINK_FILE 0)
     else None)"

record gstate =
  g_link :: Link
  g_id_set :: bool
  g_name_set :: bool
  g_track :: int
  g_title :: cstr
  g_suffix :: cstr

definition set_link :: "(Link \<Rightarrow> Link) \<Rightarrow> gstate \<Rightarrow> gstate" where
  "set_link f st = st\<lparr>g_link := f (g_link st)\<rparr>"

definition general_attr :: "(cstr \<Rightarrow> int) \<Rightarrow> cstr \<times> cstr \<Rightarrow> gstate \<Rightarrow> gstate" where
  "general_attr time a st =
    (case a of (k, v) \<Rightarrow>
      (if k = ''id'' then
         (set_link (\<lambda>l. l\<lparr>sonic := (sonic l)\<lparr>sonic_ident := Some (take NAME_MAX v)\<rparr>\<rparr>) st)\<lparr>g_id_set := True\<rparr>
       else if k = ''path'' then
         (set_link (\<lambda>l. l\<lparr>linkname := take NAME_MAX (case strrchr v slash of Some i \<Rightarrow> drop (i + 1) v | None \<Rightarrow> v)\<rparr>)
            st)\<lparr>g_name_set := True\<rparr>
       else if \<not> g_name_set st \<and> (k = ''title'' \<or> k = ''name'') then
         (set_link (\<lambda>l. l\<lparr>linkname := take NAME_MAX v\<rparr>) st)\<lparr>g_name_set := True\<rparr>
       else if k = ''isDir'' then
         (if v = ''false'' then set_link (\<lambda>l. l\<lparr>link_type := LINK_FILE\<rparr>) st else st)
       else if k = ''created'' then set_link (\<lambda>l. l\<lparr>link_time := time v\<rparr>) st
       else if k = ''size'' then set_link (\<lambda>l. l\<lparr>content_length := to_size (fst (strtoll v))\<rparr>) st
       else if k = ''track'' then st\<lparr>g_track := int_option v\<rparr>
       else if k = ''title'' then st\<lparr>g_title := v\<rparr>
       else if k = ''suffix'' then st\<lparr>g_suffix := v\<rparr>
       else st))"

fun general_attrs :: "(cstr \<Rightarrow> int) \<Rightarrow> attrs \<Rightarrow> gstate \<Rightarrow> gstate" where
  "general_attrs time [] st = st"
| "general_attrs time (a # as) st = general_attrs time as (general_attr time a st)"

text \<open>\<open>%02d\<close>.\<close>

definition show_02d :: "int \<Rightarrow> cstr" where
  "show_02d n = (if n < 0 then CHR ''-'' # show_nat (nat (- n))
     else if n < 10 then CHR ''0'' # show_nat (nat n) else show_nat (nat n))"

definition track_name :: "gstate \<Rightarrow> gstate" where
  "track_name st =
    (if \<not> g_name_set st \<and> g_title st \<noteq> [] \<and> g_suffix st \<noteq> [] then
       (set_link (\<lambda>l. l\<lparr>linkname := take NAME_MAX
          (show_02d (g_track st) @ '' - '' @ g_title st @ ''.'' @ g_suffix st)\<rparr>) st)\<lparr>g_name_set := True\<rparr>
     else st)"

text \<open>The entry that an element adds to a table of a depth, None when it adds none.\<close>

definition general_entry :: "sonic_env \<Rightarrow> int \<Rightarrow> cstr \<Rightarrow> attrs \<Rightarrow> Link option" where
  "general_entry e table_depth elem as =
    (case element_link table_depth elem of
       None \<Rightarrow> None
     | Some link \<Rightarrow>
         (let st = track_name (general_attrs (s_time e) as
                     \<lparr>g_link = link, g_id_set = False, g_name_set = False, g_track = 0, g_title = [], g_suffix = []\<rparr>)
          in if \<not> g_name_set st \<or> \<not> g_id_set st then None
             else (let l = g_link st
                   in Some (if link_type l = LINK_FILE
                            then (case sonic_ident (sonic l) of
                                    Some ident \<Rightarrow> l\<lparr>f_url := take PATH_MAX (sonic_stream_link e ident)\<rparr>
                                  | None \<Rightarrow> l)
                            else l))))"

definition XML_parser_general :: "sonic_env \<Rightarrow> cstr \<Rightarrow> attrs \<Rightarrow> LinkTable \<Rightarrow> LinkTable" where
  "XML_parser_general e elem as linktbl =
    (case general_entry e (depth (sonic (hd (links linktbl)))) elem as of
       None \<Rightarrow> linktbl
     | Some link \<Rightarrow> LinkTable_add link linktbl)"

section \<open>Names\<close>

definition sanitise_name :: "cstr \<Rightarrow> cstr" where
  "sanitise_name name =
    (let n1 = (if name = ''.'' then ''__DOT__'' else name);
         n2 = (if n1 = ''/'' then ''__FORWARD-SLASH__'' else n1)
     in map (\<lambda>c. if c = slash then CHR ''-'' else c) n2)"

definition sanitise_table :: "LinkTable \<Rightarrow> LinkTable" where
  "sanitise_table linktbl = linktbl\<lparr>links := map (\<lambda>l. l\<lparr>linkname := sanitise_name (linkname l)\<rparr>) (links linktbl)\<rparr>"

section \<open>The handler of the ID3 root\<close>

datatype xml_event = StartElement cstr attrs | EndElement cstr

text \<open>
  The root table and the tables of its indexes; the table \<open>k\<close> of \<open>id3_tables\<close> has the address
  \<open>base + k\<close>.  \<open>id3_current\<close> is \<open>id3_current_index_table\<close>.
\<close>

record id3 =
  id3_root :: LinkTable
  id3_tables :: "LinkTable list"
  id3_current :: "nat option"

text \<open>The attributes of an \<open>index\<close> element: each \<open>name\<close> sets the name and allocates a table.\<close>

fun index_attrs :: "nat \<Rightarrow> attrs \<Rightarrow> Link \<times> LinkTable list \<Rightarrow> Link \<times> LinkTable list" where
  "index_attrs base [] st = st"
| "index_attrs base ((k, v) # as) (link, ts) =
    index_attrs base as
      (if k = ''name''
       then (link\<lparr>linkname := take NAME_MAX v, next_table := Some (base + length ts)\<rparr>, ts @ [LinkTable_alloc ''/''])
       else (link, ts))"

fun artist_attrs :: "attrs \<Rightarrow> Link \<times> bool \<Rightarrow> Link \<times> bool" where
  "artist_attrs [] st = st"
| "artist_attrs ((k, v) # as) (link, name_set) =
    artist_attrs as
      (if k = ''name'' then (link\<lparr>linkname := take NAME_MAX v\<rparr>, True)
       else if k = ''id'' then (link\<lparr>sonic := (sonic link)\<lparr>sonic_ident := Some (take NAME_MAX v)\<rparr>\<rparr>, name_set)
       else (link, name_set))"

definition XML_parser_id3_root :: "nat \<Rightarrow> cstr \<Rightarrow> attrs \<Rightarrow> id3 \<Rightarrow> id3" where
  "XML_parser_id3_root base elem as st =
    (if elem = ''index'' then
       (case index_attrs base as (blank_link LINK_DIR 0, id3_tables st) of
          (link, ts) \<Rightarrow>
            (case next_table link of
               None \<Rightarrow> st
             | Some q \<Rightarrow> st\<lparr>id3_root := LinkTable_add link (id3_root st), id3_tables := ts, id3_current := Some (q - base)\<rparr>))
     else if elem = ''artist'' then
       (case id3_current st of
          None \<Rightarrow> st
        | Some k \<Rightarrow>
            (case artist_attrs as (blank_link LINK_DIR 3, False) of
               (link, name_set) \<Rightarrow>
                 if \<not> name_set \<or> sonic_ident (sonic link) = None then st
                 else st\<lparr>id3_tables := (id3_tables st)[k := LinkTable_add link (id3_tables st ! k)]\<rparr>))
     else st)"

definition XML_parser_id3_root_end :: "cstr \<Rightarrow> id3 \<Rightarrow> id3" where
  "XML_parser_id3_root_end elem st = (if elem = ''index'' then st\<lparr>id3_current := None\<rparr> else st)"

fun id3_events :: "nat \<Rightarrow> xml_event list \<Rightarrow> id3 \<Rightarrow> id3" where
  "id3_events base [] st = st"
| "id3_events base (StartElement elem as # evs) st = id3_events base evs (XML_parser_id3_root base elem as st)"
| "id3_events base (EndElement elem # evs) st = id3_events base evs (XML_parser_id3_root_end elem st)"

fun general_events :: "sonic_env \<Rightarrow> xml_event list \<Rightarrow> LinkTable \<Rightarrow> LinkTable" where
  "general_events e [] t = t"
| "general_events e (StartElement elem as # evs) t = general_events e evs (XML_parser_general e elem as t)"
| "general_events e (EndElement elem # evs) t = general_events e evs t"

section \<open>Tables\<close>

text \<open>
  \<open>sonic_url_to_LinkTable\<close> up to the parser: the new table and the document; the outer None is a
  download that never ends, the inner one an empty answer.
\<close>

definition sonic_fetch :: "sonic_env \<Rightarrow> cstr \<Rightarrow> int \<Rightarrow> (LinkTable \<times> cstr) option option" where
  "sonic_fetch e url table_depth =
    (let linktbl = LinkTable_alloc url;
         head = (hd (links linktbl))\<lparr>sonic := \<lparr>sonic_ident = None, depth = table_depth\<rparr>\<rparr>
     in case Link_download_full (s_get e url) head of
          None \<Rightarrow> None
        | Some (page, head') \<Rightarrow> Some (if page = [] then None else Some (linktbl\<lparr>links := [head']\<rparr>, page)))"

text \<open>With \<open>XML_parser_general\<close>; \<open>expat\<close> yields the events of a document.\<close>

definition sonic_url_to_LinkTable ::
    "sonic_env \<Rightarrow> (cstr \<Rightarrow> xml_event list) \<Rightarrow> cstr \<Rightarrow> int \<Rightarrow> LinkTable option option" where
  "sonic_url_to_LinkTable e expat url table_depth =
    map_option (map_option (\<lambda>(t, page). sanitise_table (general_events e (expat page) t))) (sonic_fetch e url table_depth)"

text \<open>With \<open>XML_parser_id3_root\<close>: \<open>sanitise_LinkTable\<close> goes into the sub-tables.\<close>

definition sonic_id3_root ::
    "sonic_env \<Rightarrow> (cstr \<Rightarrow> xml_event list) \<Rightarrow> nat \<Rightarrow> cstr \<Rightarrow> (LinkTable \<times> LinkTable list) option option" where
  "sonic_id3_root e expat base url =
    map_option (map_option (\<lambda>(t, page).
      (let st = id3_events base (expat page) \<lparr>id3_root = t, id3_tables = [], id3_current = None\<rparr>
       in (sanitise_table (id3_root st), map sanitise_table (id3_tables st))))) (sonic_fetch e url 0)"

definition sonic_LinkTable_new_index ::
    "sonic_env \<Rightarrow> (cstr \<Rightarrow> xml_event list) \<Rightarrow> cstr \<Rightarrow> LinkTable option option" where
  "sonic_LinkTable_new_index e expat ident =
    (let url = (if ident \<noteq> ''0'' then sonic_getMusicDirectory_link e ident else sonic_gen_url_first_part e ''getIndexes'')
     in sonic_url_to_LinkTable e expat url 0)"

text \<open>What \<open>path_to_Link\<close> and \<open>path_to_LinkTable\<close> load in index mode.\<close>

definition sonic_index_loader :: "sonic_env \<Rightarrow> (cstr \<Rightarrow> xml_event list) \<Rightarrow> Link \<Rightarrow> LinkTable option" where
  "sonic_index_loader e expat link =
    (case sonic_ident (sonic link) of
       None \<Rightarrow> None
     | Some ident \<Rightarrow> (case sonic_LinkTable_new_index e expat ident of Some (Some t) \<Rightarrow> Some t | _ \<Rightarrow> None))"

text \<open>A table below the root; the root of ID3 mode is \<open>sonic_id3_root\<close>, other depths are fatal.\<close>

definition sonic_LinkTable_new_id3 ::
    "sonic_env \<Rightarrow> (cstr \<Rightarrow> xml_event list) \<Rightarrow> int \<Rightarrow> cstr \<Rightarrow> LinkTable option option" where
  "sonic_LinkTable_new_id3 e expat d ident =
    (if d = 3 then sonic_url_to_LinkTable e expat (sonic_getArtist_link e ident) d
     else if d = 4 then sonic_url_to_LinkTable e expat (sonic_getAlbum_link e ident) d
     else None)"

end
