(* ===== verification/SonicProps.thy ===== *)
theory SonicProps
  imports Sonic
begin

text \<open>
  What the Subsonic client puts into its tables, and what becomes of the tables of ID3 mode.
\<close>

section \<open>Entries\<close>

text \<open>The effect of one attribute, component by component.\<close>

definition base_name :: "cstr \<Rightarrow> cstr" where
  "base_name v = (case strrchr v slash of Some i \<Rightarrow> drop (i + 1) v | None \<Rightarrow> v)"

lemma attr_flags:
  "g_id_set (general_attr time (k, v) st) \<longleftrightarrow> k = ''id'' \<or> g_id_set st"
  "g_name_set (general_attr time (k, v) st) \<longleftrightarrow> k = ''path'' \<or> k = ''title'' \<or> k = ''name'' \<or> g_name_set st"
  by (simp_all add: general_attr_def set_link_def)

lemma attr_title:
  "g_title (general_attr time (k, v) st) = (if g_name_set st \<and> k = ''title'' then v else g_title st)"
  by (simp add: general_attr_def set_link_def)

lemma attr_link:
  "g_link (general_attr time (k, v) st) =
    (let l = g_link st in
     if k = ''id'' then l\<lparr>sonic := (sonic l)\<lparr>sonic_ident := Some (take NAME_MAX v)\<rparr>\<rparr>
     else if k = ''path'' then l\<lparr>linkname := take NAME_MAX (base_name v)\<rparr>
     else if \<not> g_name_set st \<and> (k = ''title'' \<or> k = ''name'') then l\<lparr>linkname := take NAME_MAX v\<rparr>
     else if k = ''isDir'' then (if v = ''false'' then l\<lparr>link_type := LINK_FILE\<rparr> else l)
     else if k = ''created'' then l\<lparr>link_time := time v\<rparr>
     else if k = ''size'' then l\<lparr>content_length := to_size (fst (strtoll v))\<rparr>
     else l)"
  by (simp add: general_attr_def set_link_def base_name_def Let_def if_distrib [of g_link]
      split del: if_split cong: if_cong)

lemma general_attrs_append: "general_attrs time (as @ bs) st = general_attrs time bs (general_attrs time as st)"
  by (induction time as st rule: general_attrs.induct) simp_all

text \<open>A \<open>title\<close> is kept for the track name only when the name is set already.\<close>

lemma title_named:
  "(g_title st \<noteq> [] \<Longrightarrow> g_name_set st) \<Longrightarrow> g_title (general_attrs time as st) \<noteq> [] \<Longrightarrow> g_name_set (general_attrs time as st)"
proof (induction time as st rule: general_attrs.induct)
  case (2 time a as st)
  have "g_title (general_attr time a st) \<noteq> [] \<Longrightarrow> g_name_set (general_attr time a st)"
    using 2(2) by (cases a) (auto simp: attr_flags attr_title split: if_splits)
  with 2 show ?case by simp
qed simp

definition g_start :: "Link \<Rightarrow> gstate" where
  "g_start link = \<lparr>g_link = link, g_id_set = False, g_name_set = False, g_track = 0, g_title = [], g_suffix = []\<rparr>"

lemma track_name_dead: "track_name (general_attrs time as (g_start link)) = general_attrs time as (g_start link)"
  using title_named [of "g_start link" time as] by (auto simp: track_name_def g_start_def)

lemma general_entry_eq:
  "general_entry e d elem as =
    (case element_link d elem of
       None \<Rightarrow> None
     | Some link \<Rightarrow>
         (let st = general_attrs (s_time e) as (g_start link); l = g_link st
          in if \<not> g_name_set st \<or> \<not> g_id_set st then None
             else Some (if link_type l = LINK_FILE
                        then (case sonic_ident (sonic l) of
                                Some ident \<Rightarrow> l\<lparr>f_url := take PATH_MAX (sonic_stream_link e ident)\<rparr>
                              | None \<Rightarrow> l)
                        else l)))"
  using track_name_dead by (simp add: general_entry_def g_start_def Let_def split: option.split)

text \<open>States that differ in what only the track name reads.\<close>

definition same_entry :: "gstate \<Rightarrow> gstate \<Rightarrow> bool" where
  "same_entry s t \<longleftrightarrow> g_link s = g_link t \<and> g_id_set s = g_id_set t \<and> g_name_set s = g_name_set t"

lemma same_entry_attr: "same_entry s t \<Longrightarrow> same_entry (general_attr time a s) (general_attr time a t)"
  by (cases a) (simp add: same_entry_def attr_flags attr_link Let_def split del: if_split cong: if_cong)

lemma track_attr: "fst a \<in> {''track'', ''suffix''} \<Longrightarrow> same_entry s t \<Longrightarrow> same_entry (general_attr time a s) t"
  by (cases a) (elim insertE; simp add: same_entry_def attr_flags attr_link Let_def)

lemma same_entry_attrs:
  "same_entry s t \<Longrightarrow> same_entry (general_attrs time as s)
     (general_attrs time (filter (\<lambda>a. fst a \<notin> {''track'', ''suffix''}) as) t)"
proof (induction as arbitrary: s t)
  case (Cons a as)
  show ?case
  proof (cases "fst a \<in> {''track'', ''suffix''}")
    case True
    with Cons.IH [OF track_attr [OF True Cons.prems]] show ?thesis by auto
  next
    case False
    with Cons.IH [OF same_entry_attr [OF Cons.prems]] show ?thesis by auto
  qed
qed simp

lemma same_entry_result:
  assumes "\<And>link. same_entry (general_attrs (s_time e) as (g_start link)) (general_attrs (s_time e) bs (g_start link))"
  shows "general_entry e d elem as = general_entry e d elem bs"
  using assms by (simp add: general_entry_eq same_entry_def Let_def split: option.split)

text \<open>Which attribute names the entry, when no key is repeated.\<close>

text \<open>\<open>path\<close> gives the name; without it the first of \<open>title\<close> and \<open>name\<close> does.\<close>

definition named_by :: "attrs \<Rightarrow> cstr option" where
  "named_by as =
    (case map_of as ''path'' of
       Some v \<Rightarrow> Some (take NAME_MAX (base_name v))
     | None \<Rightarrow> map_option (\<lambda>a. take NAME_MAX (snd a)) (find (\<lambda>a. fst a = ''title'' \<or> fst a = ''name'') as))"

lemma attr_name:
  "g_name_set (general_attr time a st) \<longleftrightarrow> g_name_set st \<or> fst a \<in> {''path'', ''title'', ''name''}"
  "fst a = ''path'' \<Longrightarrow> linkname (g_link (general_attr time a st)) = take NAME_MAX (base_name (snd a))"
  "\<not> g_name_set st \<Longrightarrow> fst a \<in> {''title'', ''name''} \<Longrightarrow>
     linkname (g_link (general_attr time a st)) = take NAME_MAX (snd a)"
  "fst a \<noteq> ''path'' \<Longrightarrow> g_name_set st \<or> fst a \<notin> {''title'', ''name''} \<Longrightarrow>
     linkname (g_link (general_attr time a st)) = linkname (g_link st)"
  by (cases a; auto simp: attr_flags attr_link Let_def)+

lemma attrs_keep_name:
  "g_name_set st \<Longrightarrow> ''path'' \<notin> fst ` set as \<Longrightarrow>
    g_name_set (general_attrs time as st) \<and> linkname (g_link (general_attrs time as st)) = linkname (g_link st)"
  by (induction time as st rule: general_attrs.induct) (auto simp: attr_name)

lemma attrs_path_name:
  "distinct (map fst as) \<Longrightarrow> map_of as ''path'' = Some v \<Longrightarrow>
    g_name_set (general_attrs time as st) \<and> linkname (g_link (general_attrs time as st)) = take NAME_MAX (base_name v)"
proof (induction time as st rule: general_attrs.induct)
  case (2 time a as st)
  show ?case
  proof (cases "fst a = ''path''")
    case True
    with 2(2,3) have "''path'' \<notin> fst ` set as" "snd a = v" by (cases a; force)+
    with attrs_keep_name [of "general_attr time a st" as time] True show ?thesis by (simp add: attr_name)
  next
    case False
    with 2 show ?thesis by (cases a) auto
  qed
qed simp

lemma attrs_other_name:
  "\<not> g_name_set st \<Longrightarrow> ''path'' \<notin> fst ` set as \<Longrightarrow>
    (case find (\<lambda>a. fst a = ''title'' \<or> fst a = ''name'') as of
       None \<Rightarrow> \<not> g_name_set (general_attrs time as st)
     | Some a \<Rightarrow> g_name_set (general_attrs time as st) \<and>
         linkname (g_link (general_attrs time as st)) = take NAME_MAX (snd a))"
proof (induction time as st rule: general_attrs.induct)
  case (2 time a as st)
  show ?case
  proof (cases "fst a = ''title'' \<or> fst a = ''name''")
    case True
    with 2(2,3) attrs_keep_name [of "general_attr time a st" as time] show ?thesis by (auto simp: attr_name)
  next
    case False
    with 2(2,3) have "\<not> g_name_set (general_attr time a st)" by (auto simp: attr_name)
    from 2(1) [OF this] 2(3) False show ?thesis by (simp cong: option.case_cong)
  qed
qed simp

lemma attrs_name:
  assumes "distinct (map fst as)" "\<not> g_name_set st"
  shows "case named_by as of
       None \<Rightarrow> \<not> g_name_set (general_attrs time as st)
     | Some n \<Rightarrow> g_name_set (general_attrs time as st) \<and> linkname (g_link (general_attrs time as st)) = n"
proof (cases "map_of as ''path''")
  case (Some v)
  with attrs_path_name [OF assms(1) Some] show ?thesis by (simp add: named_by_def)
next
  case None
  then have "''path'' \<notin> fst ` set as" by (simp add: map_of_eq_None_iff)
  from attrs_other_name [OF assms(2) this, of time] None show ?thesis by (simp add: named_by_def split: option.splits)
qed

lemma attr_ident:
  "fst a \<noteq> ''id'' \<Longrightarrow> g_id_set (general_attr time a st) = g_id_set st \<and>
     sonic_ident (sonic (g_link (general_attr time a st))) = sonic_ident (sonic (g_link st))"
  "fst a = ''id'' \<Longrightarrow> g_id_set (general_attr time a st) \<and>
     sonic_ident (sonic (g_link (general_attr time a st))) = Some (take NAME_MAX (snd a))"
  by (cases a; auto simp: attr_flags attr_link Let_def)+

lemma attrs_no_ident: "''id'' \<notin> fst ` set as \<Longrightarrow> g_id_set (general_attrs time as st) = g_id_set st \<and>
     sonic_ident (sonic (g_link (general_attrs time as st))) = sonic_ident (sonic (g_link st))"
  by (induction time as st rule: general_attrs.induct) (auto simp: attr_ident)

lemma attrs_ident:
  "distinct (map fst as) \<Longrightarrow> \<not> g_id_set st \<Longrightarrow>
    (case map_of as ''id'' of
       None \<Rightarrow> \<not> g_id_set (general_attrs time as st)
     | Some v \<Rightarrow> g_id_set (general_attrs time as st) \<and>
         sonic_ident (sonic (g_link (general_attrs time as st))) = Some (take NAME_MAX v))"
proof (induction time as st rule: general_attrs.induct)
  case (2 time a as st)
  show ?case
  proof (cases "fst a = ''id''")
    case True
    with 2(2) have "''id'' \<notin> fst ` set as" by auto
    with attrs_no_ident [of as time "general_attr time a st"] True show ?thesis by (cases a) (auto simp: attr_ident)
  next
    case False
    with 2(3) have "\<not> g_id_set (general_attr time a st)" by (simp add: attr_ident)
    from 2(1) [OF _ this] 2(2) False show ?thesis by (cases a) (simp cong: option.case_cong)
  qed
qed simp

lemma attr_type:
  "link_type (g_link (general_attr time a st)) =
    (if fst a = ''isDir'' \<and> snd a = ''false'' then LINK_FILE else link_type (g_link st))"
  by (cases a) (auto simp: attr_link Let_def)

lemma attrs_type:
  "link_type (g_link (general_attrs time as st)) =
    (if (''isDir'', ''false'') \<in> set as then LINK_FILE else link_type (g_link st))"
  by (induction time as st rule: general_attrs.induct) (auto simp: attr_type)

section \<open>Tables\<close>

lemma element_link_new: "element_link d elem = Some link \<Longrightarrow>
    new_link link \<and> linkname link = [] \<and> link_type link \<in> {LINK_DIR, LINK_FILE}"
  by (auto simp: element_link_def blank_link_def new_link_def split: if_splits)

lemma attr_new:
  "new_link (g_link (general_attr time a st)) = new_link (g_link st)"
  "length (linkname (g_link st)) \<le> NAME_MAX \<Longrightarrow> length (linkname (g_link (general_attr time a st))) \<le> NAME_MAX"
  by (cases a; simp add: attr_link Let_def new_link_def)+

lemma attrs_new:
  "new_link (g_link (general_attrs time as st)) = new_link (g_link st)"
  "length (linkname (g_link st)) \<le> NAME_MAX \<Longrightarrow> length (linkname (g_link (general_attrs time as st))) \<le> NAME_MAX"
  by (induction time as st rule: general_attrs.induct) (simp_all add: attr_new)

lemma attrs_has_ident:
  "(g_id_set st \<Longrightarrow> sonic_ident (sonic (g_link st)) \<noteq> None) \<Longrightarrow> g_id_set (general_attrs time as st) \<Longrightarrow>
    sonic_ident (sonic (g_link (general_attrs time as st))) \<noteq> None"
proof (induction time as st rule: general_attrs.induct)
  case (2 time a as st)
  have "sonic_ident (sonic (g_link (general_attr time a st))) \<noteq> None" if "g_id_set (general_attr time a st)"
    using that 2(2) by (cases "fst a = ''id''") (simp_all add: attr_ident)
  from 2(1) [OF this] 2(3) show ?case by simp
qed simp

text \<open>What holds of every entry.\<close>

definition sound_entry :: "sonic_env \<Rightarrow> Link \<Rightarrow> bool" where
  "sound_entry e l \<longleftrightarrow> new_link l \<and> length (linkname l) \<le> NAME_MAX \<and> link_type l \<in> {LINK_DIR, LINK_FILE} \<and>
    (\<exists>ident. sonic_ident (sonic l) = Some ident \<and>
      (link_type l = LINK_FILE \<longrightarrow> f_url l = take PATH_MAX (sonic_stream_link e ident)))"

lemma general_entry_sound:
  assumes "general_entry e d elem as = Some l"
  shows "sound_entry e l"
proof -
  obtain link where link: "element_link d elem = Some link"
    using assms by (cases "element_link d elem") (simp_all add: general_entry_eq)
  let ?st = "general_attrs (s_time e) as (g_start link)"
  have g: "g_link (g_start link) = link" "\<not> g_id_set (g_start link)" by (simp_all add: g_start_def)
  have set: "g_name_set ?st" "g_id_set ?st" using assms link by (auto simp: general_entry_eq Let_def split: if_splits)
  note new = element_link_new [OF link]
  obtain ident where ident: "sonic_ident (sonic (g_link ?st)) = Some ident"
    using attrs_has_ident [of "g_start link" "s_time e" as] set(2) g(2) by auto
  have l: "l = (if link_type (g_link ?st) = LINK_FILE
      then (g_link ?st)\<lparr>f_url := take PATH_MAX (sonic_stream_link e ident)\<rparr> else g_link ?st)"
    using assms link set ident by (simp add: general_entry_eq Let_def split: if_splits)
  have "new_link (g_link ?st)" "length (linkname (g_link ?st)) \<le> NAME_MAX" "link_type (g_link ?st) \<in> {LINK_DIR, LINK_FILE}"
    using attrs_new [where st = "g_start link" and time = "s_time e" and as = as] new g(1) by (simp_all add: attrs_type)
  then show ?thesis using ident unfolding l sound_entry_def by auto
qed

lemma events_sound:
  "new_table t \<Longrightarrow> links t \<noteq> [] \<Longrightarrow> \<forall>l \<in> set (tl (links t)). sound_entry e l \<Longrightarrow>
    new_table (general_events e evs t) \<and> links (general_events e evs t) \<noteq> [] \<and>
    hd (links (general_events e evs t)) = hd (links t) \<and>
    (\<forall>l \<in> set (tl (links (general_events e evs t))). sound_entry e l)"
proof (induction e evs t rule: general_events.induct)
  case (2 e elem as evs t)
  let ?t = "XML_parser_general e elem as t"
  have "new_table ?t \<and> links ?t \<noteq> [] \<and> hd (links ?t) = hd (links t) \<and> (\<forall>l \<in> set (tl (links ?t)). sound_entry e l)"
  proof (cases "general_entry e (depth (sonic (hd (links t)))) elem as")
    case None
    with 2(2-) show ?thesis by (simp add: XML_parser_general_def)
  next
    case (Some l)
    from general_entry_sound [OF Some] have "sound_entry e l" "new_link l" by (simp_all add: sound_entry_def)
    with 2(2-) Some show ?thesis
      by (cases "links t") (auto simp: XML_parser_general_def LinkTable_add_def new_table_iff)
  qed
  with 2(1) show ?case by simp
qed simp_all

lemma sanitise_name_ok:
  "slash \<notin> set (sanitise_name n)" "sanitise_name n \<noteq> ''.''" "n \<noteq> [] \<Longrightarrow> sanitise_name n \<noteq> []"
  "length n \<le> NAME_MAX \<Longrightarrow> length (sanitise_name n) \<le> NAME_MAX"
  by (auto simp: sanitise_name_def Let_def split: if_splits)

lemma fetched_table:
  assumes "sonic_fetch e url d = Some (Some (t, page))"
  shows "new_table t \<and> length (links t) = 1 \<and> depth (sonic (hd (links t))) = d"
proof -
  let ?head = "(hd (links (LinkTable_alloc url)))\<lparr>sonic := \<lparr>sonic_ident = None, depth = d\<rparr>\<rparr>"
  obtain head' where h: "Link_download_full (s_get e url) ?head = Some (page, head')" "t = (LinkTable_alloc url)\<lparr>links := [head']\<rparr>"
    using assms by (auto simp: sonic_fetch_def Let_def split: option.splits if_splits)
  from download_link [OF h(1)] obtain ti where head': "head' = ?head\<lparr>link_time := ti\<rparr>" by blast
  have "new_link ?head" using alloc_new [of url] by (simp add: new_table_iff LinkTable_alloc_def LinkTable_add_def new_link_def)
  then have "new_link head'" unfolding head' by simp
  then show ?thesis using alloc_new [of url] h(2) head' by (simp add: new_table_iff)
qed

lemma sanitise_new: "new_table t \<Longrightarrow> new_table (sanitise_table t)"
  by (auto simp: new_table_iff sanitise_table_def)

lemma sanitised_sound:
  "sound_entry e l \<Longrightarrow> sound_entry e (l\<lparr>linkname := sanitise_name (linkname l)\<rparr>)"
  using sanitise_name_ok(4) by (simp add: sound_entry_def)

lemma sonic_table_sound:
  assumes "sonic_url_to_LinkTable e expat url d = Some (Some t)"
  shows "new_table t \<and> links t \<noteq> [] \<and>
    (\<forall>l \<in> set (tl (links t)). sound_entry e l \<and> slash \<notin> set (linkname l) \<and> linkname l \<noteq> ''.'')"
proof -
  obtain t0 page where f: "sonic_fetch e url d = Some (Some (t0, page))"
    and t: "t = sanitise_table (general_events e (expat page) t0)"
    using assms by (auto simp: sonic_url_to_LinkTable_def)
  let ?u = "general_events e (expat page) t0"
  from fetched_table [OF f] have "new_table t0" "links t0 \<noteq> []" "tl (links t0) = []" by (auto simp: length_Suc_conv)
  with events_sound [of t0 e "expat page"] have u: "new_table ?u" "links ?u \<noteq> []" "\<forall>l \<in> set (tl (links ?u)). sound_entry e l"
    by auto
  have "links t \<noteq> []" using u(2) unfolding t sanitise_table_def by simp
  moreover have "tl (links t) = map (\<lambda>l. l\<lparr>linkname := sanitise_name (linkname l)\<rparr>) (tl (links ?u))"
    unfolding t sanitise_table_def by (simp add: map_tl)
  ultimately show ?thesis
    using sanitise_new [OF u(1)] u(3) sanitised_sound sanitise_name_ok(1,2) unfolding t by auto
qed

lemma sonic_index_loader_clean: "load_clean (sonic_index_loader e expat)"
proof -
  have "new_table t" if "sonic_index_loader e expat l = Some t" for l t
    using that sonic_table_sound
    by (fastforce simp: sonic_index_loader_def sonic_LinkTable_new_index_def Let_def split: option.splits)
  then show ?thesis by (auto simp: load_clean_def new_table_def)
qed

section \<open>The tables of ID3 mode\<close>

text \<open>The heap after the root of ID3 mode has been loaded at address 0, its indexes after it.\<close>

definition id3_heap :: "LinkTable \<times> LinkTable list \<Rightarrow> lheap" where
  "id3_heap r = \<lparr>tables = (\<lambda>p. if p = 0 then Some (fst r) else if p \<le> length (snd r) then Some (snd r ! (p - 1)) else None),
     root_tbl = Some 0, next_addr = Suc (length (snd r))\<rparr>"

definition id3_ok :: "id3 \<Rightarrow> bool" where
  "id3_ok st \<longleftrightarrow>
    (let r = id3_root st; ts = id3_tables st
     in refcount r = 0 \<and> \<not> orphaned r \<and> parent_tbl r = None \<and> links r \<noteq> [] \<and>
        (\<forall>l \<in> set (links r). case next_table l of None \<Rightarrow> True | Some q \<Rightarrow> 1 \<le> q \<and> q \<le> length ts) \<and>
        (\<forall>t \<in> set ts. new_table t) \<and> (case id3_current st of None \<Rightarrow> True | Some k \<Rightarrow> k < length ts))"

lemma index_attrs_ok:
  "index_attrs base as (link, ts) = (link', ts') \<Longrightarrow> \<forall>t \<in> set ts. new_table t \<Longrightarrow>
    (case next_table link of None \<Rightarrow> True | Some q \<Rightarrow> base \<le> q \<and> q < base + length ts) \<Longrightarrow>
    length ts \<le> length ts' \<and> (\<forall>t \<in> set ts'. new_table t) \<and>
    (case next_table link' of None \<Rightarrow> True | Some q \<Rightarrow> base \<le> q \<and> q < base + length ts')"
proof (induction as arbitrary: link ts)
  case (Cons a as)
  obtain k v where a: "a = (k, v)" by (cases a)
  show ?case
  proof (cases "k = ''name''")
    case True
    let ?l = "link\<lparr>linkname := take NAME_MAX v, next_table := Some (base + length ts)\<rparr>"
    have "length (ts @ [LinkTable_alloc ''/'']) \<le> length ts' \<and> (\<forall>t \<in> set ts'. new_table t) \<and>
      (case next_table link' of None \<Rightarrow> True | Some q \<Rightarrow> base \<le> q \<and> q < base + length ts')"
      using Cons.prems(1,2) a True alloc_new by (intro Cons.IH [of ?l]) auto
    then show ?thesis by simp
  next
    case False
    with Cons a show ?thesis by simp
  qed
qed simp

lemma artist_attrs_new: "new_link (fst (artist_attrs as st)) = new_link (fst st)"
  by (induction as st rule: artist_attrs.induct) (auto simp: new_link_def)

lemma id3_step_ok:
  assumes "id3_ok st"
  shows "id3_ok (XML_parser_id3_root 1 elem as st)"
proof (cases "elem = ''index''")
  case True
  obtain link ts where i: "index_attrs 1 as (blank_link LINK_DIR 0, id3_tables st) = (link, ts)" by fastforce
  from assms have "\<forall>t \<in> set (id3_tables st). new_table t" by (simp add: id3_ok_def Let_def)
  from index_attrs_ok [OF i this] have ok: "length (id3_tables st) \<le> length ts" "\<forall>t \<in> set ts. new_table t"
    "case next_table link of None \<Rightarrow> True | Some q \<Rightarrow> 1 \<le> q \<and> q < 1 + length ts"
    by (simp_all add: blank_link_def)
  have old: "case next_table l of None \<Rightarrow> True | Some q \<Rightarrow> 1 \<le> q \<and> q \<le> length ts"
    if "l \<in> set (links (id3_root st))" for l
    using assms that ok(1) by (fastforce simp: id3_ok_def Let_def split: option.splits)
  show ?thesis
  proof (cases "next_table link")
    case None
    with assms True i show ?thesis by (simp add: XML_parser_id3_root_def)
  next
    case (Some q)
    have "XML_parser_id3_root 1 elem as st =
        st\<lparr>id3_root := LinkTable_add link (id3_root st), id3_tables := ts, id3_current := Some (q - 1)\<rparr>"
      using True i Some by (simp add: XML_parser_id3_root_def)
    moreover have "q - 1 < length ts" "1 \<le> q" "q \<le> length ts" using ok(3) Some by auto
    ultimately show ?thesis using assms ok(2) old Some by (auto simp: id3_ok_def LinkTable_add_def Let_def)
  qed
next
  case False
  show ?thesis
  proof (cases "XML_parser_id3_root 1 elem as st = st")
    case True
    with assms show ?thesis by simp
  next
    case changed: False
    with False obtain k link where k: "id3_current st = Some k" "fst (artist_attrs as (blank_link LINK_DIR 3, False)) = link"
      "XML_parser_id3_root 1 elem as st = st\<lparr>id3_tables := (id3_tables st)[k := LinkTable_add link (id3_tables st ! k)]\<rparr>"
      by (auto simp: XML_parser_id3_root_def split: if_splits option.splits prod.splits)
    have "new_link link" using artist_attrs_new [of as "(blank_link LINK_DIR 3, False)"] k(2)
      by (simp add: blank_link_def new_link_def)
    moreover have "k < length (id3_tables st)" "\<forall>t \<in> set (id3_tables st). new_table t"
      using assms k(1) by (simp_all add: id3_ok_def Let_def)
    ultimately have "\<forall>t \<in> set ((id3_tables st)[k := LinkTable_add link (id3_tables st ! k)]). new_table t"
      using set_update_subset_insert [of "id3_tables st" k "LinkTable_add link (id3_tables st ! k)"] nth_mem
      by (fastforce simp: LinkTable_add_def new_table_iff)
    with assms k(3) show ?thesis by (simp add: id3_ok_def Let_def cong: option.case_cong)
  qed
qed

lemma id3_events_ok: "id3_ok st \<Longrightarrow> id3_ok (id3_events 1 evs st)"
proof (induction evs arbitrary: st)
  case (Cons ev evs)
  show ?case
  proof (cases ev)
    case (StartElement elem as)
    with Cons id3_step_ok show ?thesis by simp
  next
    case (EndElement elem)
    have "id3_ok (XML_parser_id3_root_end elem st)" using Cons.prems
      by (simp add: XML_parser_id3_root_end_def id3_ok_def Let_def cong: option.case_cong)
    with EndElement Cons.IH show ?thesis by simp
  qed
qed simp

lemma id3_root_shape:
  assumes "sonic_id3_root e expat 1 url = Some (Some (r, ts))"
  shows "refcount r = 0 \<and> \<not> orphaned r \<and> parent_tbl r = None \<and>
    (\<forall>l \<in> set (links r). \<forall>q. next_table l = Some q \<longrightarrow> 1 \<le> q \<and> q \<le> length ts) \<and> (\<forall>t \<in> set ts. new_table t)"
proof -
  obtain t page where f: "sonic_fetch e url 0 = Some (Some (t, page))"
    and r: "r = sanitise_table (id3_root (id3_events 1 (expat page) \<lparr>id3_root = t, id3_tables = [], id3_current = None\<rparr>))"
      "ts = map sanitise_table (id3_tables (id3_events 1 (expat page) \<lparr>id3_root = t, id3_tables = [], id3_current = None\<rparr>))"
    using assms by (auto simp: sonic_id3_root_def Let_def)
  let ?st = "\<lparr>id3_root = t, id3_tables = [], id3_current = None\<rparr>"
  from fetched_table [OF f] have "id3_ok ?st"
    by (auto simp: id3_ok_def new_table_iff new_link_def Let_def)
  from id3_events_ok [OF this] have "id3_ok (id3_events 1 (expat page) ?st)" .
  then show ?thesis unfolding r
    using sanitise_new by (fastforce simp: id3_ok_def sanitise_table_def Let_def split: option.splits)
qed

lemma free_new_entries: "\<forall>l \<in> set ls. next_table l = None \<Longrightarrow> LinkTable_free_entries fuel ls h = Some h"
  by (induction ls) simp_all

lemma last_unref_frees:
  assumes "tables h q = Some t" "refcount t = 1" "orphaned t" "parent_tbl t = None" "parent_link t = None"
    and "\<forall>l \<in> set (links t). next_table l = None"
  shows "LinkTable_unref (Suc fuel) (Some q) h = Some (unput q (put q (t\<lparr>refcount := 0\<rparr>) h))"
proof -
  have "LinkTable_free (Suc fuel) (Some q) (put q (t\<lparr>refcount := 0\<rparr>) h) = Some (unput q (put q (t\<lparr>refcount := 0\<rparr>) h))"
    using free_new_entries [OF assms(6)] by (simp add: put_def)
  then show ?thesis using assms by (simp add: unref_step_def Let_def)
qed

lemma keep_unref:
  assumes "tables h p = Some t" "\<not> orphaned t"
  shows "LinkTable_unref (Suc fuel) (Some p) h = Some (put p (t\<lparr>refcount := refcount t - 1\<rparr>) h)"
  using assms by (simp add: unref_step_def Let_def)

lemma opendir_loaded:
  assumes "root_tbl (tree s) = Some p" "tables (tree s) p = Some r" "\<not> orphaned r" "lookup_entry n r = Some i"
    and "next_table (links r ! i) = Some q" "p \<noteq> q" "component n" "length n < PATH_MAX" "e_fuel (f_env fe) = Suc fuel"
  shows "fs_opendir fe (slash # n) s =
    (case tables (tree s) q of
       None \<Rightarrow> None
     | Some t \<Rightarrow> Some (0, Some q, s\<lparr>tree := put p r (put q (t\<lparr>refcount := refcount t + 1, orphaned := False\<rparr>) (tree s))\<rparr>))"
proof -
  let ?h1 = "put p (r\<lparr>refcount := refcount r + 1\<rparr>) (tree s)"
  have ns: "list_all component [n]" "[n] \<noteq> []" "length (join [n]) \<le> PATH_MAX" "join [n] = slash # n"
    using assms(7,8) by simp_all
  have w: "walk (tree s) p [n] = Found (p, i)" using assms(2,4) by simp
  have i: "i < length (links r)" using lookup_entry_Some [OF assms(4)] by simp
  have find: "path_to_Link (mode (e_cfg (f_env fe))) (e_load (f_env fe)) (e_fuel (f_env fe)) (slash # n) (tree s) =
      Some (Some (p, i), ?h1)"
    using path_to_Link_resolves_parts(2) [OF ns(1-3) assms(1) w assms(2)] ns(4) by simp
  have link: "get_link (p, i) ?h1 = Some (links r ! i)" using i by (simp add: get_link_def put_def)
  have "slash # n \<noteq> [slash]" using assms(7) by (simp add: component_def)
  note opendir = fs_opendir_def path_to_LinkTable_def Let_def
  show ?thesis
  proof (cases "tables (tree s) q")
    case None
    then have "LinkTable_ref (Some q) ?h1 = None" using assms(6) by (simp add: LinkTable_ref_def put_def)
    with None assms(5) \<open>slash # n \<noteq> [slash]\<close> show ?thesis by (simp add: opendir find link)
  next
    case (Some t)
    let ?h2 = "put q (t\<lparr>refcount := refcount t + 1, orphaned := False\<rparr>) ?h1"
    have ref: "LinkTable_ref (Some q) ?h1 = Some ?h2" using Some assms(6) by (simp add: LinkTable_ref_def put_def)
    have "tables ?h2 p = Some (r\<lparr>refcount := refcount r + 1\<rparr>)" using assms(6) by (simp add: put_def)
    from keep_unref [OF this] assms(3) have un: "LinkTable_unref (Suc fuel) (Some p) ?h2 = Some (put p r ?h2)" by simp
    have "put p r ?h2 = put p r (put q (t\<lparr>refcount := refcount t + 1, orphaned := False\<rparr>) (tree s))"
      using assms(6) by (simp add: put_def fun_upd_twist)
    then show ?thesis using Some assms(5,9) \<open>slash # n \<noteq> [slash]\<close>
      by (simp add: opendir find [unfolded assms(9)] link ref un del: LinkTable_unref.simps)
  qed
qed

section \<open>Properties\<close>

text \<open>
  The attributes \<open>track\<close> and \<open>suffix\<close> have no effect: the branch that builds a name
  \<open>NN - title.suffix\<close> out of them is never taken, since a title is either used as the name itself or
  ignored because there is a name.
\<close>

theorem track_naming_is_dead:
  "general_entry e d elem as =
    general_entry e d elem (filter (\<lambda>a. fst a \<notin> {''track'', ''suffix''}) as)"
  by (rule same_entry_result, rule same_entry_attrs) (simp add: same_entry_def)

text \<open>
  The entry of an element.  Attributes are distinct, as in any document.  An element adds an
  entry exactly when it is a structural one for the depth of the table, has an \<open>id\<close>, and has a
  \<open>path\<close>, a \<open>title\<close> or a \<open>name\<close>; \<open>path\<close> is preferred wherever it stands, and only its last component
  counts.  A song has the streaming URL of its identifier.
\<close>

theorem sonic_entry_spec:
  assumes "distinct (map fst as)"
  shows "case (element_link d elem, named_by as, map_of as ''id'') of
      (Some link, Some name, Some ident) \<Rightarrow>
        (\<exists>l. general_entry e d elem as = Some l \<and> linkname l = name \<and>
           sonic_ident (sonic l) = Some (take NAME_MAX ident) \<and>
           link_type l = (if (''isDir'', ''false'') \<in> set as then LINK_FILE else link_type link) \<and>
           (link_type l = LINK_FILE \<longrightarrow> f_url l = take PATH_MAX (sonic_stream_link e (take NAME_MAX ident))))
    | _ \<Rightarrow> general_entry e d elem as = None"
proof (cases "element_link d elem")
  case None
  then show ?thesis by (simp add: general_entry_eq)
next
  case (Some link)
  let ?st = "general_attrs (s_time e) as (g_start link)"
  have g: "\<not> g_name_set (g_start link)" "\<not> g_id_set (g_start link)" "g_link (g_start link) = link"
    by (simp_all add: g_start_def)
  note name = attrs_name [OF assms g(1), of "s_time e"]
  note ident = attrs_ident [OF assms g(2), of "s_time e"]
  note type = attrs_type [of "s_time e" as "g_start link", unfolded g(3)]
  show ?thesis
  proof (cases "named_by as")
    case None
    with Some name show ?thesis by (simp add: general_entry_eq Let_def)
  next
    case n: (Some n)
    show ?thesis
    proof (cases "map_of as ''id''")
      case None
      with Some n ident show ?thesis by (simp add: general_entry_eq Let_def)
    next
      case i: (Some v)
      have st: "g_name_set ?st" "linkname (g_link ?st) = n" "g_id_set ?st"
        "sonic_ident (sonic (g_link ?st)) = Some (take NAME_MAX v)"
        using name ident n i by simp_all
      then show ?thesis using Some n i type by (simp add: general_entry_eq Let_def)
    qed
  qed
qed


text \<open>
  C36.  The tables of ID3 indexes are freed under their parent.  \<open>XML_parser_id3_root\<close> creates them
  without \<open>parent_table\<close> and \<open>parent_link\<close>, so when the first directory handle on an index is
  released the table is freed and the entry of the root keeps its pointer: opening the same
  directory again uses the freed table.
\<close>

theorem id3_index_dangles:
  assumes "sonic_id3_root e expat 1 url = Some (Some (r, ts))" "tree s = id3_heap (r, ts)"
    and "lookup_entry n r = Some i" "next_table (links r ! i) = Some q"
    and "component n" "length n < PATH_MAX" "0 < e_fuel (f_env fe)"
  shows "\<exists>s1 s2. fs_opendir fe (slash # n) s = Some (0, Some q, s1) \<and>
    fs_releasedir fe (slash # n) (Some q) s1 = Some (0, s2) \<and>
    tables (tree s2) q = None \<and> next_table (links (the (tables (tree s2) 0)) ! i) = Some q \<and>
    fs_opendir fe (slash # n) s2 = None"
proof -
  obtain fuel where fuel: "e_fuel (f_env fe) = Suc fuel" using assms(7) by (cases "e_fuel (f_env fe)") auto
  note r = id3_root_shape [OF assms(1)]
  have "i < length (links r)" using lookup_entry_Some [OF assms(3)] by simp
  then have q: "1 \<le> q" "q \<le> length ts" using r assms(4) by force+
  let ?t = "ts ! (q - 1)"
  have "?t \<in> set ts" using q by simp
  then have t: "new_table ?t" using r by simp
  let ?u = "?t\<lparr>refcount := refcount ?t + 1, orphaned := False\<rparr>"
  let ?h1 = "put 0 r (put q ?u (tree s))"
  let ?h2 = "put q (?u\<lparr>orphaned := True\<rparr>) ?h1"
  let ?h3 = "unput q (put q (?u\<lparr>orphaned := True, refcount := 0\<rparr>) ?h2)"
  have h: "root_tbl (tree s) = Some 0" "tables (tree s) 0 = Some r" "tables (tree s) q = Some ?t"
    using assms(2) q by (simp_all add: id3_heap_def)
  note opens = opendir_loaded [where r = r and n = n and i = i and q = q and p = 0 and fe = fe and fuel = fuel,
      OF _ _ _ assms(3,4) _ assms(5,6) fuel]
  have o1: "fs_opendir fe (slash # n) s = Some (0, Some q, s\<lparr>tree := ?h1\<rparr>)"
    using opens [of s] h q r by simp
  have mark: "LinkTable_mark_orphaned (Some q) ?h1 = Some ?h2"
    using q by (simp add: LinkTable_mark_orphaned_def put_def)
  have "LinkTable_unref (Suc fuel) (Some q) ?h2 = Some ?h3"
    using t by (intro last_unref_frees [THEN trans]) (auto simp: new_table_iff new_link_def put_def)
  then have o2: "fs_releasedir fe (slash # n) (Some q) (s\<lparr>tree := ?h1\<rparr>) = Some (0, s\<lparr>tree := ?h3\<rparr>)"
    using mark assms(5) fuel by (simp add: fs_releasedir_def component_def)
  have "root_tbl ?h3 = Some 0" "tables ?h3 0 = Some r" "tables ?h3 q = None"
    using h q by (simp_all add: put_def unput_def)
  then have "fs_opendir fe (slash # n) (s\<lparr>tree := ?h3\<rparr>) = None" "tables ?h3 q = None" "tables ?h3 0 = Some r"
    using opens [of "s\<lparr>tree := ?h3\<rparr>"] q r by simp_all
  with o1 o2 assms(4) show ?thesis by auto
qed

section \<open>A scenario\<close>

definition demo_sonic :: sonic_env where
  "demo_sonic =
    \<lparr>s_cfg = Config_init ''httpdirfs'' 15,
     s_conf = sonic_config_init (Config_init ''httpdirfs'' 15) ''httpdirfs'' ''http://h/'' ''u'' ''p'',
     s_salt = ''0'', s_md5 = (\<lambda>x. ''m''), s_time = (\<lambda>x. 0), s_get = (\<lambda>_. [(200, ''<xml>'', 7)])\<rparr>"

definition demo_id3_events :: "xml_event list" where
  "demo_id3_events = [StartElement ''index'' [(''name'', ''A'')],
     StartElement ''artist'' [(''id'', ''1''), (''name'', ''Abba'')], EndElement ''artist'', EndElement ''index'']"

lemma demo_id3:
  "\<exists>r ts. sonic_id3_root demo_sonic (\<lambda>_. demo_id3_events) 1 ''u'' = Some (Some (r, ts)) \<and>
    lookup_entry ''A'' r = Some 1 \<and> next_table (links r ! 1) = Some 1"
proof -
  have "case sonic_id3_root demo_sonic (\<lambda>_. demo_id3_events) 1 ''u'' of
      Some (Some (r, ts)) \<Rightarrow> lookup_entry ''A'' r = Some 1 \<and> next_table (links r ! 1) = Some 1 | _ \<Rightarrow> False"
    by code_simp
  then show ?thesis by (auto split: option.splits)
qed

theorem id3_index_dangles_witness:
  "\<exists>s s1 s2. fs_opendir demo_fuse ''/A'' s = Some (0, Some 1, s1) \<and>
    fs_releasedir demo_fuse ''/A'' (Some 1) s1 = Some (0, s2) \<and> fs_opendir demo_fuse ''/A'' s2 = None"
proof -
  obtain r ts where r: "sonic_id3_root demo_sonic (\<lambda>_. demo_id3_events) 1 ''u'' = Some (Some (r, ts))"
    "lookup_entry ''A'' r = Some 1" "next_table (links r ! 1) = Some 1" using demo_id3 by blast
  let ?s = "\<lparr>tree = id3_heap (r, ts), files = (\<lambda>_. None), caches = (\<lambda>_. None), next_cache = 0\<rparr>"
  have "component ''A''" "length ''A'' < PATH_MAX" "0 < e_fuel (f_env demo_fuse)" "tree ?s = id3_heap (r, ts)"
    by (simp_all add: component_def demo_fuse_def demo_env_def)
  from id3_index_dangles [OF r(1) this(4) r(2,3) this(1,2,3)] show ?thesis by auto
qed

theorem sonic_entry_spec_witness:
  "\<exists>l. general_entry demo_sonic 0 ''child''
      [(''id'', ''7''), (''title'', ''T''), (''isDir'', ''false''), (''path'', ''a/b.mp3''), (''track'', ''3'')] = Some l \<and>
    linkname l = ''b.mp3''"
proof -
  let ?as = "[(''id'', ''7''), (''title'', ''T''), (''isDir'', ''false''), (''path'', ''a/b.mp3''), (''track'', ''3'')]"
  have d: "distinct (map fst ?as)" by simp
  have "map_option linkname (element_link 0 ''child'') = Some []" by code_simp
  then obtain link where link: "element_link 0 ''child'' = Some link" by (cases "element_link 0 ''child''") simp_all
  have n: "named_by ?as = Some ''b.mp3''" by code_simp
  have i: "map_of ?as ''id'' = Some ''7''" by simp
  from sonic_entry_spec [OF d, where e = demo_sonic and d = 0 and elem = "''child''"] link n i show ?thesis by auto
qed

definition demo_index_events :: "xml_event list" where
  "demo_index_events = [StartElement ''artist'' [(''id'', ''1''), (''name'', ''AC/DC'')]]"


end
