(* ===== verification/Getopt.thy ===== *)
theory Getopt
  imports Args
begin

text \<open>
  \<open>src/main.c\<close>: the tables of options and \<open>getopt_long\<close> as the program uses it, with the
  operands moved behind the options.  The theory of \<open>Args\<close> takes the events of \<open>getopt_long\<close> as
  an argument; here they come from the words of the command line and of the configuration file,
  up to the start of FUSE.  \<open>POSIXLY_CORRECT\<close> is not set.
\<close>

section \<open>The tables\<close>

datatype has_arg = no_argument | required_argument

text \<open>An entry of \<open>long_opts\<close>: the name, whether it has an argument, and what \<open>getopt_long\<close> returns.\<close>

type_synonym long_entry = "cstr \<times> has_arg \<times> char"

definition short_opts :: cstr where
  "short_opts = ''o:hVdfsp:u:P:''"

definition long_opts :: "long_entry list" where
  "long_opts =
    [(''help'', no_argument, CHR ''h''),
     (''version'', no_argument, CHR ''V''),
     (''debug'', no_argument, CHR ''d''),
     (''username'', required_argument, CHR ''u''),
     (''password'', required_argument, CHR ''p''),
     (''proxy'', required_argument, CHR ''P''),
     (''proxy-username'', required_argument, CHR ''L''),
     (''proxy-password'', required_argument, CHR ''L''),
     (''cache'', no_argument, CHR ''L''),
     (''dl-seg-size'', required_argument, CHR ''L''),
     (''max-conns'', required_argument, CHR ''L''),
     (''user-agent'', required_argument, CHR ''L''),
     (''retry-wait'', required_argument, CHR ''L''),
     (''cache-location'', required_argument, CHR ''L''),
     (''sonic-username'', required_argument, CHR ''L''),
     (''sonic-password'', required_argument, CHR ''L''),
     (''sonic-id3'', no_argument, CHR ''L''),
     (''no-range-check'', no_argument, CHR ''L''),
     (''sonic-insecure'', no_argument, CHR ''L''),
     (''insecure-tls'', no_argument, CHR ''L''),
     (''config'', required_argument, CHR ''L''),
     (''single-file-mode'', no_argument, CHR ''L''),
     (''cacert'', required_argument, CHR ''L''),
     (''proxy-cacert'', required_argument, CHR ''L''),
     (''refresh-timeout'', required_argument, CHR ''L''),
     (''http-header'', required_argument, CHR ''L''),
     (''cache-clear'', no_argument, CHR ''L''),
     (''zero-len-is-dir'', no_argument, CHR ''L''),
     (''invalid-refresh'', no_argument, CHR ''L''),
     (''capath'', required_argument, CHR ''L''),
     (''proxy-capath'', required_argument, CHR ''L''),
     (''external-links'', no_argument, CHR ''L''),
     (''cache-min-size'', required_argument, CHR ''L''),
     (''cache-max-size'', required_argument, CHR ''L'')]"

section \<open>\<open>getopt_long\<close>\<close>

text \<open>Whether a short option takes an argument: a colon after it in the table; None when it is not there.\<close>

fun short_kind :: "cstr \<Rightarrow> char \<Rightarrow> has_arg option" where
  "short_kind [] c = None"
| "short_kind (x # xs) c =
    (if x = c then Some (if xs \<noteq> [] \<and> hd xs = CHR '':'' then required_argument else no_argument)
     else short_kind xs c)"

text \<open>
  The entry that a name stands for: the one of that name, or the only one it abbreviates.  With
  \<open>gnu\<close>, as in the GNU C library, several candidates that agree in everything but the name are no
  conflict, and the first is taken.
\<close>

definition candidates :: "long_entry list \<Rightarrow> cstr \<Rightarrow> nat list" where
  "candidates longs name = filter (\<lambda>i. take (length name) (fst (longs ! i)) = name) [0..<length longs]"

definition find_long :: "bool \<Rightarrow> long_entry list \<Rightarrow> cstr \<Rightarrow> nat option" where
  "find_long gnu longs name =
    (case find (\<lambda>i. fst (longs ! i) = name) [0..<length longs] of
       Some i \<Rightarrow> Some i
     | None \<Rightarrow>
         (case candidates longs name of
            [] \<Rightarrow> None
          | i # js \<Rightarrow> if js = [] \<or> gnu \<and> (\<forall>j \<in> set js. snd (longs ! j) = snd (longs ! i)) then Some i else None))"

text \<open>
  What the caller gets for the entry at an index: the index is of interest where \<open>L\<close> is
  returned, elsewhere the option counts as the short one.
\<close>

definition long_event :: "long_entry list \<Rightarrow> nat \<Rightarrow> cstr \<Rightarrow> opt_event" where
  "long_event longs i optarg =
    (case longs ! i of (_, _, val) \<Rightarrow> if val = CHR ''L'' then Long i optarg else Short val optarg)"

definition long_arg :: "long_entry list \<Rightarrow> nat \<Rightarrow> has_arg" where
  "long_arg longs i = fst (snd (longs ! i))"

text \<open>A word gives events, the last of which may still need the next word as its argument.\<close>

datatype word_events = Ready "opt_event list" | Awaits "opt_event list" "cstr \<Rightarrow> opt_event"

fun after :: "opt_event \<Rightarrow> word_events \<Rightarrow> word_events" where
  "after ev (Ready evs) = Ready (ev # evs)"
| "after ev (Awaits evs last_ev) = Awaits (ev # evs) last_ev"

text \<open>A word of short options, after the hyphen.\<close>

fun short_word :: "cstr \<Rightarrow> cstr \<Rightarrow> word_events" where
  "short_word shorts [] = Ready []"
| "short_word shorts (c # cs) =
    (case (if c = CHR '':'' then None else short_kind shorts c) of
       None \<Rightarrow> after Bad (short_word shorts cs)
     | Some no_argument \<Rightarrow> after (Short c []) (short_word shorts cs)
     | Some required_argument \<Rightarrow> if cs = [] then Awaits [] (Short c) else Ready [Short c cs])"

text \<open>A long option, after the two hyphens: a name, or a name, an equals sign and the argument.\<close>

definition long_word :: "bool \<Rightarrow> long_entry list \<Rightarrow> cstr \<Rightarrow> word_events" where
  "long_word gnu longs body =
    (let name = takeWhile (\<lambda>c. c \<noteq> CHR ''='') body;
         rest = dropWhile (\<lambda>c. c \<noteq> CHR ''='') body
     in case find_long gnu longs name of
          None \<Rightarrow> Ready [Bad]
        | Some i \<Rightarrow>
            if rest \<noteq> []
            then (if long_arg longs i = required_argument then Ready [long_event longs i (tl rest)] else Ready [Bad])
            else (if long_arg longs i = required_argument then Awaits [] (long_event longs i)
                  else Ready [long_event longs i []]))"

text \<open>
  The words after the program's name: the events, the words that make up the options, and the
  others.  A word \<open>--\<close> ends the options.
\<close>

fun scan_words :: "bool \<Rightarrow> cstr \<Rightarrow> long_entry list \<Rightarrow> cstr list \<Rightarrow> opt_event list \<times> cstr list \<times> cstr list" where
  "scan_words gnu shorts longs [] = ([], [], [])"
| "scan_words gnu shorts longs (x # xs) =
    (if x = ''--'' then ([], [x], xs)
     else if length x < 2 \<or> hd x \<noteq> CHR ''-'' then
       (case scan_words gnu shorts longs xs of (evs, opts, operands) \<Rightarrow> (evs, opts, x # operands))
     else
       (case (if take 2 x = ''--'' then long_word gnu longs (drop 2 x) else short_word shorts (drop 1 x)) of
          Ready es \<Rightarrow>
            (case scan_words gnu shorts longs xs of (evs, opts, operands) \<Rightarrow> (es @ evs, x # opts, operands))
        | Awaits es ev \<Rightarrow>
            (case xs of
               [] \<Rightarrow> (es @ [Bad], [x], [])
             | y # ys \<Rightarrow>
                 (case scan_words gnu shorts longs ys of
                    (evs, opts, operands) \<Rightarrow> (es @ ev y # evs, x # y # opts, operands)))))"

text \<open>The events until the value -1, the permuted vector and \<open>optind\<close> then.\<close>

definition getopt_long :: "bool \<Rightarrow> cstr \<Rightarrow> long_entry list \<Rightarrow> cstr list \<Rightarrow> opt_event list \<times> cstr list \<times> nat" where
  "getopt_long gnu shorts longs argv =
    (case scan_words gnu shorts longs (tl argv) of
       (evs, opts, operands) \<Rightarrow> (evs, hd argv # opts @ operands, 1 + length opts))"

text \<open>The world of \<open>main\<close> with this \<open>getopt_long\<close>.\<close>

definition with_getopt :: "bool \<Rightarrow> world \<Rightarrow> world" where
  "with_getopt gnu w = w\<lparr>w_getopt := getopt_long gnu short_opts long_opts\<rparr>"

section \<open>Command lines\<close>

text \<open>
  The words a user writes: an operand, or an option with its argument in the same word or in the
  next one.
\<close>

datatype item = Operand cstr | Short_in char cstr | Short_next char cstr | Long_in nat cstr | Long_next nat cstr

fun render :: "long_entry list \<Rightarrow> item \<Rightarrow> cstr list" where
  "render longs (Operand x) = [x]"
| "render longs (Short_in c v) = [CHR ''-'' # c # v]"
| "render longs (Short_next c v) = [[CHR ''-'', c], v]"
| "render longs (Long_in i v) =
    [''--'' @ fst (longs ! i) @ (if long_arg longs i = required_argument then CHR ''='' # v else [])]"
| "render longs (Long_next i v) = [''--'' @ fst (longs ! i), v]"

fun well_formed :: "cstr \<Rightarrow> long_entry list \<Rightarrow> item \<Rightarrow> bool" where
  "well_formed shorts longs (Operand x) \<longleftrightarrow> length x < 2 \<or> hd x \<noteq> CHR ''-''"
| "well_formed shorts longs (Short_in c v) \<longleftrightarrow> c \<noteq> CHR ''-'' \<and> c \<noteq> CHR '':'' \<and>
     short_kind shorts c = Some (if v = [] then no_argument else required_argument)"
| "well_formed shorts longs (Short_next c v) \<longleftrightarrow> c \<noteq> CHR ''-'' \<and> c \<noteq> CHR '':'' \<and>
     short_kind shorts c = Some required_argument"
| "well_formed shorts longs (Long_in i v) \<longleftrightarrow> i < length longs \<and> (long_arg longs i = required_argument \<or> v = [])"
| "well_formed shorts longs (Long_next i v) \<longleftrightarrow> i < length longs \<and> long_arg longs i = required_argument"

text \<open>What the items mean: their events, the words of the options, and the operands.\<close>

fun item_events :: "long_entry list \<Rightarrow> item \<Rightarrow> opt_event list" where
  "item_events longs (Operand x) = []"
| "item_events longs (Short_in c v) = [Short c v]"
| "item_events longs (Short_next c v) = [Short c v]"
| "item_events longs (Long_in i v) = [long_event longs i v]"
| "item_events longs (Long_next i v) = [long_event longs i v]"

fun item_operands :: "item \<Rightarrow> cstr list" where
  "item_operands (Operand x) = [x]"
| "item_operands _ = []"

fun option_words :: "long_entry list \<Rightarrow> item \<Rightarrow> cstr list" where
  "option_words longs (Operand x) = []"
| "option_words longs it = render longs it"

definition meaning ::
    "long_entry list \<Rightarrow> item list \<Rightarrow> opt_event list \<times> cstr list \<times> cstr list \<Rightarrow> opt_event list \<times> cstr list \<times> cstr list" where
  "meaning longs its r =
    (case r of (evs, opts, operands) \<Rightarrow>
       (concat (map (item_events longs) its) @ evs, concat (map (option_words longs) its) @ opts,
        concat (map item_operands its) @ operands))"

text \<open>The interface to a pair of tables: the names of the long one are distinct and have no equals sign.\<close>

locale option_tables =
  fixes shorts :: cstr and longs :: "long_entry list"
  assumes names_distinct: "distinct (map fst longs)"
    and names_proper: "n \<in> set (map fst longs) \<Longrightarrow> n \<noteq> [] \<and> CHR ''='' \<notin> set n"
begin

lemma find_long_name: "i < length longs \<Longrightarrow> find_long gnu longs (fst (longs ! i)) = Some i"
proof -
  assume i: "i < length longs"
  have "j = i" if "j < length longs" "fst (longs ! j) = fst (longs ! i)" for j
    using that i names_distinct by (metis distinct_conv_nth length_map nth_map)
  then have "find (\<lambda>j. fst (longs ! j) = fst (longs ! i)) [0..<length longs] = Some i"
    unfolding find_Some_iff using i by (intro exI [of _ i]) (metis (no_types, lifting) add_0 diff_zero length_upt less_irrefl less_trans nth_upt)
  then show ?thesis by (simp add: find_long_def)
qed

lemma name_splits:
  assumes "i < length longs"
  shows "takeWhile (\<lambda>c. c \<noteq> CHR ''='') (fst (longs ! i) @ CHR ''='' # v) = fst (longs ! i)"
    and "dropWhile (\<lambda>c. c \<noteq> CHR ''='') (fst (longs ! i) @ CHR ''='' # v) = CHR ''='' # v"
    and "takeWhile (\<lambda>c. c \<noteq> CHR ''='') (fst (longs ! i)) = fst (longs ! i)"
    and "dropWhile (\<lambda>c. c \<noteq> CHR ''='') (fst (longs ! i)) = []"
    and "fst (longs ! i) \<noteq> []"
proof -
  have n: "fst (longs ! i) \<noteq> [] \<and> CHR ''='' \<notin> set (fst (longs ! i))"
    using assms by (intro names_proper) simp
  then have "\<forall>c \<in> set (fst (longs ! i)). c \<noteq> CHR ''=''" by metis
  then show "takeWhile (\<lambda>c. c \<noteq> CHR ''='') (fst (longs ! i) @ CHR ''='' # v) = fst (longs ! i)"
    "dropWhile (\<lambda>c. c \<noteq> CHR ''='') (fst (longs ! i) @ CHR ''='' # v) = CHR ''='' # v"
    "takeWhile (\<lambda>c. c \<noteq> CHR ''='') (fst (longs ! i)) = fst (longs ! i)"
    "dropWhile (\<lambda>c. c \<noteq> CHR ''='') (fst (longs ! i)) = []" "fst (longs ! i) \<noteq> []"
    using n by (simp_all add: takeWhile_append2 dropWhile_append2 takeWhile_eq_all_conv dropWhile_eq_Nil_conv)
qed

lemma long_word_in:
  "i < length longs \<Longrightarrow> long_word gnu longs (fst (longs ! i) @ CHR ''='' # v) =
    (if long_arg longs i = required_argument then Ready [long_event longs i v] else Ready [Bad])"
  unfolding long_word_def Let_def name_splits(1,2) by (simp add: find_long_name)

lemma long_word_bare:
  "i < length longs \<Longrightarrow> long_word gnu longs (fst (longs ! i)) =
    (if long_arg longs i = required_argument then Awaits [] (long_event longs i) else Ready [long_event longs i []])"
  unfolding long_word_def Let_def name_splits(3,4) by (simp add: find_long_name)

lemma scan_item:
  assumes "well_formed shorts longs it"
  shows "scan_words gnu shorts longs (render longs it @ xs) = meaning longs [it] (scan_words gnu shorts longs xs)"
proof -
  obtain evs opts operands where r: "scan_words gnu shorts longs xs = (evs, opts, operands)" by (metis prod.exhaust)
  show ?thesis
  proof (cases it)
    case (Operand x)
    then have "x \<noteq> ''--''" "length x < 2 \<or> hd x \<noteq> CHR ''-''" using assms by auto
    then show ?thesis by (simp add: Operand r meaning_def)
  next
    case (Short_in c v)
    then have "c \<noteq> CHR ''-''" "c \<noteq> CHR '':''"
      "short_kind shorts c = Some (if v = [] then no_argument else required_argument)" using assms by simp_all
    then show ?thesis by (cases v) (simp_all add: Short_in r meaning_def)
  next
    case (Short_next c v)
    then have "c \<noteq> CHR ''-''" "c \<noteq> CHR '':''" "short_kind shorts c = Some required_argument" using assms by simp_all
    then show ?thesis by (simp add: Short_next r meaning_def)
  next
    case (Long_in i v)
    then have "i < length longs" "long_arg longs i = required_argument \<or> v = []" using assms by simp_all
    then show ?thesis using has_arg.exhaust [of "long_arg longs i"]
      by (cases "long_arg longs i") (simp_all add: Long_in r meaning_def long_word_in long_word_bare name_splits(5))
  next
    case (Long_next i v)
    then have "i < length longs" "long_arg longs i = required_argument" using assms by simp_all
    then show ?thesis by (simp add: Long_next r meaning_def long_word_bare name_splits(5))
  qed
qed

lemma scan_items:
  "list_all (well_formed shorts longs) its \<Longrightarrow>
    scan_words gnu shorts longs (concat (map (render longs) its) @ xs) = meaning longs its (scan_words gnu shorts longs xs)"
proof (induction its)
  case Nil
  then show ?case by (simp add: meaning_def split: prod.split)
next
  case (Cons it its)
  then show ?case using scan_item [of it gnu "concat (map (render longs) its) @ xs"]
    by (simp add: meaning_def split: prod.splits)
qed

lemma getopt_items:
  "list_all (well_formed shorts longs) its \<Longrightarrow>
    getopt_long gnu shorts longs (prog # concat (map (render longs) its)) =
      (concat (map (item_events longs) its),
       prog # concat (map (option_words longs) its) @ concat (map item_operands its),
       1 + length (concat (map (option_words longs) its)))"
  using scan_items [of its gnu "[]"] by (simp add: getopt_long_def meaning_def)

lemma getopt_items_end:
  "list_all (well_formed shorts longs) its \<Longrightarrow>
    getopt_long gnu shorts longs (prog # concat (map (render longs) its) @ ''--'' # rest) =
      (concat (map (item_events longs) its),
       prog # concat (map (option_words longs) its) @ ''--'' # concat (map item_operands its) @ rest,
       2 + length (concat (map (option_words longs) its)))"
  using scan_items [of its gnu "''--'' # rest"] by (simp add: getopt_long_def meaning_def)

end

interpretation options: option_tables short_opts long_opts
proof
  show "distinct (map fst long_opts)" by (simp add: long_opts_def)
  show "n \<noteq> [] \<and> CHR ''='' \<notin> set n" if "n \<in> set (map fst long_opts)" for n
    using that by (auto simp: long_opts_def)
qed

section \<open>What the options set\<close>

text \<open>The arguments given for one option, in their order; \<open>[]\<close> stands for each use of a flag.\<close>

fun short_given :: "char \<Rightarrow> opt_event list \<Rightarrow> cstr list" where
  "short_given c [] = []"
| "short_given c (Short c' v # evs) = (if c' = c then v # short_given c evs else short_given c evs)"
| "short_given c (_ # evs) = short_given c evs"

fun long_given :: "nat \<Rightarrow> opt_event list \<Rightarrow> cstr list" where
  "long_given i [] = []"
| "long_given i (Long i' v # evs) = (if i' = i then v # long_given i evs else long_given i evs)"
| "long_given i (_ # evs) = long_given i evs"

text \<open>The last of the arguments, or the old value.\<close>

definition newest :: "'a \<Rightarrow> 'a list \<Rightarrow> 'a" where
  "newest old xs = last (old # xs)"

text \<open>
  The configuration that a list of options stands for: a value is the last one given, a flag is
  set when its option is there, the headers are all of them in order.
\<close>

definition configured :: "opt_event list \<Rightarrow> ConfigStruct \<Rightarrow> ConfigStruct" where
  "configured evs g = g\<lparr>
     mode := (if long_given 21 evs = [] then mode g else SINGLE),
     log_type := (if short_given CHR ''d'' evs = [] then log_type g else log_type g OR log_debug),
     http_username := newest (http_username g) (map Some (short_given CHR ''u'' evs)),
     http_password := newest (http_password g) (map Some (short_given CHR ''p'' evs)),
     proxy := newest (proxy g) (map Some (short_given CHR ''P'' evs)),
     proxy_username := newest (proxy_username g) (map Some (long_given 6 evs)),
     proxy_password := newest (proxy_password g) (map Some (long_given 7 evs)),
     proxy_cafile := newest (proxy_cafile g) (map Some (long_given 23 evs)),
     proxy_capath := newest (proxy_capath g) (map Some (long_given 30 evs)),
     max_conns := newest (max_conns g) (map int_option (long_given 10 evs)),
     user_agent := newest (user_agent g) (map Some (long_given 11 evs)),
     http_wait_sec := newest (http_wait_sec g) (map int_option (long_given 12 evs)),
     http_headers := http_headers g @ long_given 25 evs,
     no_range_check := (no_range_check g \<or> long_given 17 evs \<noteq> []),
     zero_len_is_dir := (zero_len_is_dir g \<or> long_given 27 evs \<noteq> []),
     insecure_tls := (insecure_tls g \<or> long_given 19 evs \<noteq> []),
     cafile := newest (cafile g) (map Some (long_given 22 evs)),
     capath := newest (capath g) (map Some (long_given 29 evs)),
     refresh_timeout := newest (refresh_timeout g) (map int_option (long_given 24 evs)),
     invalid_refresh := (invalid_refresh g \<or> long_given 28 evs \<noteq> []),
     external_links := (external_links g \<or> long_given 31 evs \<noteq> []),
     cache_enabled := (cache_enabled g \<or> long_given 8 evs \<noteq> []),
     cfg_cache_dir := newest (cfg_cache_dir g) (map Some (long_given 13 evs)),
     data_blksz := newest (data_blksz g) (map (\<lambda>v. segment_bytes (int_option v)) (long_given 9 evs)),
     cache_min_size := newest (cache_min_size g) (map (\<lambda>v. fst (strtoll v)) (long_given 32 evs)),
     cache_max_size := newest (cache_max_size g) (map (\<lambda>v. fst (strtoll v)) (long_given 33 evs)),
     sonic_username := newest (sonic_username g) (map Some (long_given 14 evs)),
     sonic_password := newest (sonic_password g) (map Some (long_given 15 evs)),
     sonic_id3 := (sonic_id3 g \<or> long_given 16 evs \<noteq> []),
     sonic_insecure := (sonic_insecure g \<or> long_given 18 evs \<noteq> [])\<rparr>"

text \<open>The words for FUSE.\<close>

fun fuse_words :: "opt_event list \<Rightarrow> cstr list" where
  "fuse_words [] = []"
| "fuse_words (Short c v # evs) =
    (if c = CHR ''o'' then [''-o'', v]
     else if c \<in> {CHR ''d'', CHR ''f'', CHR ''s''} then [[CHR ''-'', c]] else []) @ fuse_words evs"
| "fuse_words (_ # evs) = fuse_words evs"

definition applied :: "opt_event list \<Rightarrow> args \<Rightarrow> args" where
  "applied evs a = a\<lparr>cfg := configured evs (cfg a), fuse_argv := fuse_argv a @ fuse_words evs\<rparr>"

text \<open>The options after which the loop goes on, and what the others do.\<close>

fun accepted :: "opt_event \<Rightarrow> bool" where
  "accepted (Short c v) \<longleftrightarrow> c \<in> set ''odfsupP''"
| "accepted (Long i v) \<longleftrightarrow> 6 \<le> i \<and> i < 34 \<and> i \<noteq> 26 \<and> (i = 32 \<or> i = 33 \<longrightarrow> size_argument v \<noteq> None)"
| "accepted Bad \<longleftrightarrow> False"

definition crossed_limits :: "ConfigStruct \<Rightarrow> bool" where
  "crossed_limits g \<longleftrightarrow> cache_min_size g \<ge> 0 \<and> cache_max_size g \<ge> 0 \<and> cache_min_size g > cache_max_size g"

fun stopping :: "(ConfigStruct \<Rightarrow> cstr) \<Rightarrow> opt_event \<Rightarrow> args \<Rightarrow> verdict" where
  "stopping h (Short c v) a =
    (if c = CHR ''h'' then Skip 2 (a\<lparr>fuse_argv := fuse_argv a @ [''-h'']\<rparr>)
     else if c = CHR ''V'' then Skip 1 (a\<lparr>fuse_argv := fuse_argv a @ [''-V'']\<rparr>)
     else Exit_with 1 a)"
| "stopping h (Long i v) a =
    (if i = 26 then Exit_with 0 (a\<lparr>cleared := Some (CacheSystem_clear (cfg a) (h (cfg a)))\<rparr>) else Exit_with 1 a)"
| "stopping h Bad a = Exit_with 1 a"

lemma short_given_append [simp]: "short_given c (xs @ ys) = short_given c xs @ short_given c ys"
  by (induction c xs rule: short_given.induct) auto

lemma long_given_append [simp]: "long_given i (xs @ ys) = long_given i xs @ long_given i ys"
  by (induction i xs rule: long_given.induct) auto

lemma fuse_words_append [simp]: "fuse_words (xs @ ys) = fuse_words xs @ fuse_words ys"
  by (induction xs rule: fuse_words.induct) auto

lemma newest_simps [simp]: "newest d [] = d" "newest d [x] = x" "newest d (xs @ ys) = newest (newest d xs) ys"
  by (auto simp: newest_def last_append)

lemma configured_append: "configured (xs @ ys) g = configured ys (configured xs g)"
  by (rule ConfigStruct.equality) (auto simp: configured_def bit_simps or.assoc)

lemma applied_append: "applied (xs @ ys) a = applied ys (applied xs a)"
  by (simp add: applied_def configured_append)

lemma applied_Nil [simp]: "applied [] a = a"
  by (simp add: applied_def configured_def)

lemma size_argument_value: "size_argument v = Some x \<Longrightarrow> x = fst (strtoll v)"
  by (auto simp: size_argument_def split: prod.splits if_splits)

lemma short_option_accepted:
  "accepted (Short c v) \<Longrightarrow> short_option c v a = Continue (applied [Short c v] a)"
  by (auto simp: short_option_def applied_def configured_def set_cfg_def add_arg_def)

lemma long_option_accepted:
  assumes "accepted (Long i v)"
  shows "long_option h i v a = Continue (applied [Long i v] a)"
proof -
  have "6 \<le> i" "i < 34" "i \<noteq> 26" using assms by simp_all
  then have "i \<in> set ([6 ..< 26] @ [27 ..< 34])"
    unfolding set_append set_upt Un_iff atLeastLessThan_iff by linarith
  then show ?thesis
    by (simp add: upt_rec_numeral, elim disjE)
      (use assms in \<open>auto simp: long_option_def applied_def configured_def set_cfg_def dest: size_argument_value\<close>)
qed

lemma short_option_stops:
  "\<not> accepted (Short c v) \<Longrightarrow> short_option c v a = stopping h (Short c v) a"
  by (auto simp: short_option_def add_arg_def)

lemma long_option_stops:
  assumes "\<not> accepted (Long i v)"
  shows "long_option h i v a = stopping h (Long i v) a"
proof -
  have "i < 6 \<or> 34 \<le> i \<or> i = 26 \<or> i = 32 \<and> size_argument v = None \<or> i = 33 \<and> size_argument v = None"
    using assms by auto
  then show ?thesis by (elim disjE) (simp_all add: long_option_def)
qed

lemma parse_arg_list_run:
  "parse_arg_list h evs a =
    (let b = applied (takeWhile accepted evs) a
     in case dropWhile accepted evs of
          [] \<Rightarrow> if crossed_limits (cfg b) then Exit_with 1 b else Continue b
        | ev # _ \<Rightarrow> stopping h ev b)"
proof (induction evs arbitrary: a)
  case Nil
  then show ?case by (simp add: crossed_limits_def)
next
  case (Cons ev evs)
  show ?case
  proof (cases "accepted ev")
    case True
    then have "parse_arg_list h (ev # evs) a = parse_arg_list h evs (applied [ev] a)"
      by (cases ev) (simp_all add: short_option_accepted long_option_accepted del: accepted.simps(1,2))
    moreover have "applied (ev # takeWhile accepted evs) a = applied (takeWhile accepted evs) (applied [ev] a)"
      by (metis append_Cons append_Nil applied_append)
    ultimately show ?thesis using True Cons by (simp add: Let_def)
  next
    case False
    have stops: "\<exists>n b. stopping h ev a = Skip n b \<or> stopping h ev a = Exit_with n b" by (cases ev) auto
    have "(case ev of Short c v \<Rightarrow> short_option c v a | Long i v \<Rightarrow> long_option h i v a | Bad \<Rightarrow> Exit_with 1 a) = stopping h ev a"
      using False by (cases ev) (simp_all add: short_option_stops long_option_stops del: accepted.simps(1,2) stopping.simps(1,2))
    then have "parse_arg_list h (ev # evs) a = stopping h ev a" using stops by (auto split: verdict.splits)
    then show ?thesis using False by simp
  qed
qed

section \<open>The two passes over the command line\<close>

text \<open>
  \<open>main\<close> looks for \<open>--config\<close> word by word before \<open>getopt_long\<close> sees the command line.  An item is
  unmistaken when that cannot misread it: the argument of another option in a word of its own does not
  look like \<open>--config\<close>, and the path is not empty and in a word of its own does not begin with a
  hyphen.
\<close>

definition looks_config :: "cstr \<Rightarrow> bool" where
  "looks_config x \<longleftrightarrow> take 9 x = ''--config='' \<or> x = ''--config''"

fun unmistaken :: "item \<Rightarrow> bool" where
  "unmistaken (Short_next c v) \<longleftrightarrow> \<not> looks_config v"
| "unmistaken (Long_in i v) \<longleftrightarrow> (i = 20 \<longrightarrow> v \<noteq> [])"
| "unmistaken (Long_next i v) \<longleftrightarrow> (if i = 20 then v \<noteq> [] \<and> hd v \<noteq> CHR ''-'' else \<not> looks_config v)"
| "unmistaken _ \<longleftrightarrow> True"

definition events_of :: "item list \<Rightarrow> opt_event list" where
  "events_of its = concat (map (item_events long_opts) its)"

definition words_of :: "item list \<Rightarrow> cstr list" where
  "words_of its = concat (map (render long_opts) its)"

lemma events_of_simps [simp]:
  "events_of [] = []" "events_of (it # its) = item_events long_opts it @ events_of its"
  "events_of (xs @ ys) = events_of xs @ events_of ys"
  by (simp_all add: events_of_def)

lemma words_of_simps [simp]:
  "words_of [] = []" "words_of (it # its) = render long_opts it @ words_of its" "words_of (xs @ ys) = words_of xs @ words_of ys"
  by (simp_all add: words_of_def)

lemma other_name: "n \<in> set (map fst long_opts) \<Longrightarrow> n \<noteq> ''config'' \<Longrightarrow> \<not> looks_config (''--'' @ n @ s)"
proof
  assume n: "n \<in> set (map fst long_opts)" "n \<noteq> ''config''" and l: "looks_config (''--'' @ n @ s)"
  have "list_all (\<lambda>n. n = ''config'' \<or> take 6 n \<noteq> take (length n) ''config'') (map fst long_opts)" by code_simp
  then have "take 6 n \<noteq> take (length n) ''config''" using n by (auto simp: list_all_iff)
  moreover have "take 6 (n @ s) = ''config''"
  proof -
    from l have "take 9 (''--'' @ n @ s) = ''--config='' \<or> ''--'' @ n @ s = ''--config''"
      unfolding looks_config_def .
    then have "take 8 (''--'' @ n @ s) = ''--config''"
    proof
      assume "take 9 (''--'' @ n @ s) = ''--config=''"
      then have "take 8 (take 9 (''--'' @ n @ s)) = take 8 ''--config=''" by (rule arg_cong)
      then show ?thesis by (simp add: min_def del: take_append)
    next
      assume "''--'' @ n @ s = ''--config''"
      then have "take 8 (''--'' @ n @ s) = take 8 ''--config''" by (rule arg_cong)
      then show ?thesis by (simp del: take_append)
    qed
    then show ?thesis by (simp del: take_append)
  qed
  then have "take (length n) (take 6 (n @ s)) = take (length n) ''config''" by simp
  then have "take 6 n = take (length n) ''config''" by (simp add: min_def split: if_splits)
  ultimately show False by simp
qed

lemma config_entry: "long_opts ! 20 = (''config'', required_argument, CHR ''L'')" "length long_opts = 34"
  by (simp_all add: long_opts_def)

lemma config_facts [simp]: "long_event long_opts 20 v = Long 20 v" "long_arg long_opts 20 = required_argument"
  by (simp_all add: long_event_def long_arg_def config_entry)

lemma not_config:
  assumes "i < length long_opts" "i \<noteq> 20"
  shows "\<not> looks_config (''--'' @ fst (long_opts ! i) @ s)" "long_given 20 [long_event long_opts i v] = []"
proof -
  have "fst (long_opts ! i) \<noteq> fst (long_opts ! 20)"
    using options.names_distinct assms nth_eq_iff_index_eq [of "map fst long_opts" i 20] by (simp add: config_entry(2))
  moreover have "fst (long_opts ! i) \<in> set (map fst long_opts)" using assms(1) by simp
  ultimately show "\<not> looks_config (''--'' @ fst (long_opts ! i) @ s)" using other_name by (simp add: config_entry)
  show "long_given 20 [long_event long_opts i v] = []"
    using assms(2) by (simp add: long_event_def split: prod.splits)
qed

lemma scan_args_word:
  assumes "\<not> looks_config x"
  shows "scan_args p (x # xs) = map_option (\<lambda>(as, q). (x # as, q)) (scan_args p xs)"
proof -
  have "take 9 x \<noteq> ''--config=''" "x \<noteq> ''--config''" using assms unfolding looks_config_def by blast+
  then show ?thesis unfolding scan_args.simps by (simp only: if_False)
qed

lemma looks_config_hyphens: "looks_config x \<Longrightarrow> take 2 x = ''--''"
  unfolding looks_config_def using take_take [of 2 9 x] by fastforce

lemma scan_args_item:
  assumes "well_formed short_opts long_opts it" "unmistaken it"
  shows "scan_args p (render long_opts it @ xs) =
    map_option (\<lambda>(as, q). (render long_opts it @ as, q))
      (scan_args (newest p (map Some (long_given 20 (item_events long_opts it)))) xs)"
proof (cases it)
  case (Operand x)
  then have "\<not> looks_config x" using assms(1) looks_config_hyphens [of x] by (cases x) (auto simp: take_Suc_conv_app_nth)
  then show ?thesis by (simp add: Operand scan_args_word del: scan_args.simps(2))
next
  case (Short_in c v)
  then have "\<not> looks_config (CHR ''-'' # c # v)" using assms(1) looks_config_hyphens [of "CHR ''-'' # c # v"] by auto
  then show ?thesis by (simp add: Short_in scan_args_word del: scan_args.simps(2))
next
  case (Short_next c v)
  then have "\<not> looks_config [CHR ''-'', c]" "\<not> looks_config v" using assms by (auto simp: looks_config_def)
  then show ?thesis by (simp add: Short_next scan_args_word option.map_comp o_def split_def del: scan_args.simps(2))
next
  case (Long_in i v)
  show ?thesis
  proof (cases "i = 20")
    case True
    then show ?thesis using assms by (simp add: Long_in config_entry)
  next
    case False
    then show ?thesis using assms not_config [of i] by (simp add: Long_in scan_args_word del: scan_args.simps(2))
  qed
next
  case (Long_next i v)
  show ?thesis
  proof (cases "i = 20")
    case True
    then show ?thesis using assms by (auto simp: Long_next config_entry option.map_comp o_def split_def)
  next
    case False
    then have "i < length long_opts" "i \<noteq> 20" "\<not> looks_config v" using assms by (simp_all add: Long_next)
    then show ?thesis using not_config [of i] not_config(1) [of i "[]"]
      by (simp add: Long_next scan_args_word option.map_comp o_def split_def del: scan_args.simps(2))
  qed
qed

lemma scan_args_items:
  "list_all (\<lambda>it. well_formed short_opts long_opts it \<and> unmistaken it) its \<Longrightarrow>
    scan_args p (words_of its) = Some (words_of its, newest p (map Some (long_given 20 (events_of its))))"
  by (induction its arbitrary: p) (simp_all add: scan_args_item del: scan_args.simps(2))

lemma stopping_stops: "stopping h ev a \<noteq> Continue b"
  by (cases ev) auto

lemma parse_arg_list_Continue:
  "parse_arg_list h evs a = Continue b \<longleftrightarrow> list_all accepted evs \<and> \<not> crossed_limits (cfg b) \<and> b = applied evs a"
proof (cases "list_all accepted evs")
  case True
  then have all: "takeWhile accepted evs = evs" "dropWhile accepted evs = []"
    by (auto simp: list_all_iff takeWhile_eq_all_conv dropWhile_eq_Nil_conv)
  show ?thesis using True by (auto simp: parse_arg_list_run Let_def all)
next
  case False
  then have "dropWhile accepted evs \<noteq> []" by (auto simp: list_all_iff dropWhile_eq_Nil_conv)
  then show ?thesis using False stopping_stops by (cases "dropWhile accepted evs") (auto simp: parse_arg_list_run Let_def)
qed

lemma parse_config_file_append:
  "parse_config_file p xdg rd [] = Inr ws \<Longrightarrow> parse_config_file p xdg rd argv = Inr (argv @ ws)"
  by (auto simp: parse_config_file_def split: option.splits if_splits)

lemma two_words: "length xs = 2 \<Longrightarrow> \<exists>x y. xs = [x, y]"
  by (cases xs; cases "tl xs") auto

lemma render_nonempty: "render longs it \<noteq> []"
  by (cases it) simp_all

section \<open>Properties\<close>


definition demo_items :: "item list" where
  "demo_items = [Operand ''http://h/'', Short_in CHR ''f'' [], Long_in 8 [], Long_next 11 ''My Agent'',
     Operand ''m'', Short_next CHR ''u'' ''--'', Long_in 32 ''10'']"

lemma demo_items_fine: "list_all (\<lambda>it. well_formed short_opts long_opts it \<and> unmistaken it) demo_items"
  by code_simp


text \<open>
  C39.  The loop over the options is a declarative specification of the configuration: up to the
  first option that stops it, every value in the configuration is the last argument given for its
  option, or the old value, a flag is set exactly when its option is there, the headers are all
  there in order, and FUSE gets its words in order.  The first other option decides the result:
  help, version, the clearing of the cache, or an error; without one only crossed size limits
  stop the program.
\<close>

theorem parse_arg_list_spec:
  "parse_arg_list h evs a =
    (let b = applied (takeWhile accepted evs) a
     in case dropWhile accepted evs of
          [] \<Rightarrow> if crossed_limits (cfg b) then Exit_with 1 b else Continue b
        | ev # _ \<Rightarrow> stopping h ev b)"
  by (rule parse_arg_list_run)


text \<open>A world in which the configuration file asks for another user name and for debug messages.\<close>

definition file_world :: world where
  "file_world = demo_world\<lparr>w_read := (\<lambda>p. if p = ''/c'' then Some [''# mine'', ''--username file'', ''-d''] else None)\<rparr>"

definition file_items :: "item list" where
  "file_items = [Long_next 3 ''file'', Short_in CHR ''d'' []]"

definition start_items :: "item list" where
  "start_items = [Short_next CHR ''u'' ''me'', Long_in 20 ''/c'', Operand ''http://h/'', Operand ''m'']"


text \<open>
  The two passes over the command line can disagree about the configuration file.  An
  abbreviation of \<open>--config\<close> is accepted by \<open>getopt_long\<close> and then means nothing: the first pass
  does not know it, so the default file is read.  An argument of another option that looks like
  \<open>--config=\<close> is taken as the configuration file by the first pass.  With the GNU library an
  ambiguous abbreviation is taken as the first candidate when the candidates are of one kind, as
  most of the options are, which all return \<open>L\<close>.
\<close>

theorem config_passes_disagree:
  "list_all (\<lambda>name. scan_args p [''--'' @ name @ ''='' @ v] = Some ([''--'' @ name @ ''='' @ v], p) \<and>
      fst (getopt_long gnu short_opts long_opts [prog, ''--'' @ name @ ''='' @ v]) = [Long 20 v])
    [''co'', ''con'', ''conf'', ''confi''] \<and>
   scan_args p [''--user-agent'', ''--config=/c''] = Some ([''--user-agent'', ''--config=/c''], Some ''/c'') \<and>
   fst (getopt_long gnu short_opts long_opts [prog, ''--user-agent'', ''--config=/c'']) = [Long 11 ''--config=/c''] \<and>
   find_long True long_opts ''proxy-'' = Some 6 \<and> find_long False long_opts ''proxy-'' = None \<and>
   find_long True long_opts ''cache-m'' = Some 32 \<and> find_long False long_opts ''cache-m'' = None"
proof -
  have "find_long b long_opts n = Some 20" if "n \<in> set [''co'', ''con'', ''conf'', ''confi'']" for n b
  proof -
    have "list_all (\<lambda>n. find_long True long_opts n = Some 20 \<and> find_long False long_opts n = Some 20)
        [''co'', ''con'', ''conf'', ''confi'']" by code_simp
    then show ?thesis using that by (cases b) (auto simp: list_all_iff simp del: set_simps)
  qed
  moreover have "find_long gnu long_opts ''user-agent'' = Some 11"
    using options.find_long_name [of 11 gnu] by (simp add: long_opts_def)
  moreover have "long_event long_opts 11 x = Long 11 x" "long_arg long_opts 11 = required_argument" for x
    by (simp_all add: long_event_def long_arg_def long_opts_def)
  moreover have "find_long True long_opts ''proxy-'' = Some 6" "find_long False long_opts ''proxy-'' = None"
    "find_long True long_opts ''cache-m'' = Some 32" "find_long False long_opts ''cache-m'' = None" by code_simp+
  ultimately show ?thesis by (simp add: getopt_long_def long_word_def)
qed

end
