(* ===== verification/HelpText.thy ===== *)
theory HelpText
  imports Getopt
begin

text \<open>
  \<open>src/main.c\<close>: the text that \<open>--help\<close> prints, and that it documents exactly the options that
  the program takes.
\<close>

abbreviation (input) DEFAULT_DATA_BLKSZ_MB :: nat where "DEFAULT_DATA_BLKSZ_MB \<equiv> 8"

definition print_help :: "cstr \<Rightarrow> cstr" where
  "print_help program_name = ''usage: '' @ program_name @ '' [options] URL mountpoint''"

text \<open>The lines; the version of the program is part of the default user agent.\<close>

definition print_long_help :: "cstr \<Rightarrow> cstr list" where
  \<open>print_long_help default_user_agent =
    [[],
     ''general options:'',
     ''        --config            Specify a configuration file '',
     ''    -o opt,[opt...]         Mount options'',
     ''    -h  --help              Print help'',
     ''    -V  --version           Print version'',
     ''    -f                      Foreground operation'',
     ''    -s                      Disable multi-threaded operation'',
     ''    -d  --debug             Enable debug output (implies -f)'',
     [],
     ''HTTPDirFS options:'',
     ''    -u  --username          HTTP authentication username'',
     ''    -p  --password          HTTP authentication password'',
     ''    -P  --proxy             Proxy for libcurl, for more details refer to'',
     ''                            https://curl.haxx.se/libcurl/c/CURLOPT_PROXY.html'',
     ''        --proxy-username    Username for the proxy'',
     ''        --proxy-password    Password for the proxy'',
     ''        --proxy-cacert      Certificate authority for the proxy'',
     ''        --proxy-capath      Certificate authority directory for the proxy'',
     ''        --cache             Enable cache (default: off)'',
     ''        --cache-location    Set a custom cache location'',
     ''                            (default: "${XDG_CACHE_HOME}/httpdirfs")'',
     ''        --cache-clear       Delete the cache directory or the custom location'',
     ''                            specified with `--cache-location`, if the option is'',
     ''                            seen first. Then exit in either case.'',
     ''        --cache-min-size    Set minimum file size threshold for caching, in bytes'',
     ''                            (default: none)'',
     ''        --cache-max-size    Set maximum file size threshold for caching, in bytes'',
     ''                            (default: none)'',
     ''        --cacert            Certificate authority for the server'',
     ''        --capath            Certificate authority directory for the server'',
     ''        --dl-seg-size       Set cache download segment size, in MB (default: '' @ show_nat DEFAULT_DATA_BLKSZ_MB @ '')'',
     ''                            Note: this setting is ignored if previously'',
     ''                            cached data is found for the requested file.'',
     ''        --http-header       Set one or more HTTP headers'',
     ''        --max-conns         Set maximum number of network connections that'',
     ''                            libcurl is allowed to make. (default: '' @ show_nat (nat DEFAULT_NETWORK_MAX_CONNS) @ '')'',
     ''        --refresh-timeout   The directories are refreshed after the specified'',
     ''                            time, in seconds (default: '' @ show_nat (nat DEFAULT_REFRESH_TIMEOUT) @ '')'',
     ''        --retry-wait        Set delay in seconds before retrying an HTTP request'',
     ''                            after encountering an error. (default: '' @ show_nat (nat DEFAULT_HTTP_WAIT_SEC) @ '')'',
     ''        --invalid-refresh   Try refreshing invalid links when reading a directory.'',
     ''        --user-agent        Set user agent string (default: "'' @ default_user_agent @ ''")'',
     ''        --no-range-check    Disable the built-in check for the server's support'',
     ''                            for HTTP range requests'',
     ''        --zero-len-is-dir   If a file has a zero length, treat it as a directory'',
     ''        --insecure-tls      Disable libcurl TLS certificate verification by'',
     ''                            setting CURLOPT_SSL_VERIFYHOST to 0'',
     ''        --external-links    Include external (cross-origin) links from'',
     ''                            directory listings (default: off)'',
     ''        --single-file-mode  Single file mode - rather than mounting a whole'',
     ''                            directory, present a single file inside a virtual'',
     ''                            directory.'',
     [],
     ''    For mounting a Airsonic / Subsonic server:'',
     ''        --sonic-username    The username for your Airsonic / Subsonic server'',
     ''        --sonic-password    The password for your Airsonic / Subsonic server'',
     ''        --sonic-id3         Enable ID3 mode - this present the server content in'',
     ''                            Artist/Album/Song layout '',
     ''        --sonic-insecure    Authenticate against your Airsonic / Subsonic server'',
     ''                            using the insecure username / hex encoded password'',
     ''                            scheme'',
     []]\<close>

text \<open>
  The options that a line documents: a hyphen and a letter in the fourth column, two hyphens and a
  name in the eighth.
\<close>

definition short_of_line :: "cstr \<Rightarrow> char list" where
  "short_of_line l = (if take 5 l = ''    -'' then take 1 (drop 5 l) else [])"

definition long_of_line :: "cstr \<Rightarrow> cstr list" where
  "long_of_line l =
    (if take 4 l = ''    '' \<and> take 2 (drop 8 l) = ''--'' then [takeWhile (\<lambda>c. c \<noteq> CHR '' '') (drop 10 l)] else [])"

definition documented_shorts :: "cstr list \<Rightarrow> char list" where
  "documented_shorts ls = concat (map short_of_line ls)"

definition documented_longs :: "cstr list \<Rightarrow> cstr list" where
  "documented_longs ls = concat (map long_of_line ls)"

text \<open>The pairs of a letter and a name that share a line.\<close>

definition documented_pairs :: "cstr list \<Rightarrow> (char \<times> cstr) list" where
  "documented_pairs ls = concat (map (\<lambda>l. List.product (short_of_line l) (long_of_line l)) ls)"

lemma help_shorts: "documented_shorts (print_long_help ua) = ''ohVfsdupP''"
  by (simp add: documented_shorts_def print_long_help_def short_of_line_def)

lemma help_longs:
  "documented_longs (print_long_help ua) =
    [''config'', ''help'', ''version'', ''debug'', ''username'', ''password'', ''proxy'', ''proxy-username'',
     ''proxy-password'', ''proxy-cacert'', ''proxy-capath'', ''cache'', ''cache-location'', ''cache-clear'',
     ''cache-min-size'', ''cache-max-size'', ''cacert'', ''capath'', ''dl-seg-size'', ''http-header'', ''max-conns'',
     ''refresh-timeout'', ''retry-wait'', ''invalid-refresh'', ''user-agent'', ''no-range-check'', ''zero-len-is-dir'',
     ''insecure-tls'', ''external-links'', ''single-file-mode'', ''sonic-username'', ''sonic-password'', ''sonic-id3'',
     ''sonic-insecure'']"
  by (simp add: documented_longs_def print_long_help_def long_of_line_def)

lemma help_pairs:
  "documented_pairs (print_long_help ua) =
    [(CHR ''h'', ''help''), (CHR ''V'', ''version''), (CHR ''d'', ''debug''), (CHR ''u'', ''username''),
     (CHR ''p'', ''password''), (CHR ''P'', ''proxy'')]"
  by (simp add: documented_pairs_def print_long_help_def short_of_line_def long_of_line_def)

lemma sets_equal: "list_all (\<lambda>x. x \<in> set ys) xs \<Longrightarrow> list_all (\<lambda>y. y \<in> set xs) ys \<Longrightarrow> set xs = set ys"
  by (auto simp: list_all_iff)

text \<open>
  The tables of options and the help text agree: the text documents exactly the long options
  of the table and exactly the letters of the short ones, each once; a letter and a name that it
  shows on one line are two forms of the same option, all such pairs are shown, and the two
  tables agree on whether it takes an argument.
\<close>

theorem help_documents_options:
  "set (documented_longs (print_long_help ua)) = set (map fst long_opts) \<and> distinct (documented_longs (print_long_help ua)) \<and>
   set (documented_shorts (print_long_help ua)) = set short_opts - {CHR '':''} \<and> distinct (documented_shorts (print_long_help ua)) \<and>
   documented_pairs (print_long_help ua) = map (\<lambda>(n, k, v). (v, n)) (filter (\<lambda>(n, k, v). v \<noteq> CHR ''L'') long_opts) \<and>
   list_all (\<lambda>(n, k, v). v = CHR ''L'' \<or> short_kind short_opts v = Some k) long_opts"
proof (intro conjI)
  show "set (documented_longs (print_long_help ua)) = set (map fst long_opts)"
    unfolding help_longs by (rule sets_equal; code_simp)
  show "distinct (documented_longs (print_long_help ua))" unfolding help_longs by code_simp
  show "set (documented_shorts (print_long_help ua)) = set short_opts - {CHR '':''}"
    unfolding help_shorts by (auto simp: short_opts_def)
  show "distinct (documented_shorts (print_long_help ua))" by (simp add: help_shorts)
  show "documented_pairs (print_long_help ua) = map (\<lambda>(n, k, v). (v, n)) (filter (\<lambda>(n, k, v). v \<noteq> CHR ''L'') long_opts)"
    unfolding help_pairs by code_simp
  show "list_all (\<lambda>(n, k, v). v = CHR ''L'' \<or> short_kind short_opts v = Some k) long_opts" by code_simp
qed

end
