(* ===== verification/LockTrace.thy ===== *)
theory LockTrace
  imports LockOrder
begin

text \<open>
  The runs of the programs of \<open>LockOrder\<close> as traces: what one thread does to the mutexes, in
  order, is a word of the regular language of its program, and threads whose words fit together
  run in the lock model.
\<close>

section \<open>The language of a program\<close>

datatype lock_op = Take lock_name | Give lock_name | Pause wait_for

definition conc :: "'a list set \<Rightarrow> 'a list set \<Rightarrow> 'a list set" where
  "conc A B = {u @ v | u v. u \<in> A \<and> v \<in> B}"

inductive_set star :: "'a list set \<Rightarrow> 'a list set" for A where
  star_Nil [intro]: "[] \<in> star A"
| star_app: "u \<in> A \<Longrightarrow> v \<in> star A \<Longrightarrow> u @ v \<in> star A"

fun lang :: "prog \<Rightarrow> lock_op list set" where
  "lang Skip = {[]}"
| "lang (Lock l) = {[Take l]}"
| "lang (Unlock l) = {[Give l]}"
| "lang (Wait_for c) = {[Pause c]}"
| "lang (Seq p q) = conc (lang p) (lang q)"
| "lang (Or p q) = lang p \<union> lang q"
| "lang (Loop p) = star (lang p)"

fun langs :: "prog list \<Rightarrow> lock_op list set" where
  "langs [] = {[]}"
| "langs (p # k) = conc (lang p) (langs k)"

lemma concI [intro]: "u \<in> A \<Longrightarrow> v \<in> B \<Longrightarrow> u @ v \<in> conc A B"
  by (auto simp: conc_def)

lemma concE: "w \<in> conc A B \<Longrightarrow> (\<And>u v. w = u @ v \<Longrightarrow> u \<in> A \<Longrightarrow> v \<in> B \<Longrightarrow> P) \<Longrightarrow> P"
  by (auto simp: conc_def)

lemma conc_simps [simp]: "conc {[]} A = A" "conc A {[]} = A"
  by (auto simp: conc_def)

lemma conc_assoc: "conc (conc A B) C = conc A (conc B C)"
proof (intro set_eqI iffI)
  show "w \<in> conc A (conc B C)" if "w \<in> conc (conc A B) C" for w
    using that unfolding conc_def by (auto simp: append_assoc) (metis append_assoc)
  show "w \<in> conc (conc A B) C" if "w \<in> conc A (conc B C)" for w
    using that unfolding conc_def by (auto simp: append_assoc) (metis append_assoc)
qed

lemma conc_mono: "A \<subseteq> A' \<Longrightarrow> B \<subseteq> B' \<Longrightarrow> conc A B \<subseteq> conc A' B'"
  by (auto simp: conc_def)

lemma star_one: "u \<in> A \<Longrightarrow> u \<in> star A"
  using star_app [of u A "[]"] by auto

lemma star_append: "u \<in> star A \<Longrightarrow> v \<in> star A \<Longrightarrow> u @ v \<in> star A"
  by (induction rule: star.induct) (auto intro: star_app)

lemma star_mono: "A \<subseteq> B \<Longrightarrow> star A \<subseteq> star B"
proof
  fix w
  assume "w \<in> star A" "A \<subseteq> B"
  then show "w \<in> star B" by (induction rule: star.induct) (auto intro: star_app)
qed

lemma langs_append: "langs (a @ b) = conc (langs a) (langs b)"
  by (induction a) (simp_all add: conc_assoc)

lemma lang_block [simp]: "lang (block ps) = langs ps"
proof (induction ps)
  case (Cons p ps)
  then show ?case by (simp add: block_def)
qed (simp add: block_def)

lemma lang_any_of: "p \<in> set ps \<Longrightarrow> lang p \<subseteq> lang (any_of ps)"
  by (induction ps) (auto simp: any_of_def)

lemma lang_maybe [simp]: "lang (maybe p) = lang p \<union> {[]}"
  by (simp add: maybe_def)

lemma lang_nonempty: "\<exists>w. w \<in> lang p"
  by (induction p) auto

lemma langs_nonempty: "\<exists>w. w \<in> langs k"
proof (induction k)
  case (Cons p k)
  then show ?case using lang_nonempty [of p] by auto
qed simp

section \<open>Inclusion\<close>

text \<open>Every trace of the first list of programs is one of the second.\<close>

definition below :: "prog list \<Rightarrow> prog list \<Rightarrow> bool" where
  "below a b \<longleftrightarrow> langs a \<subseteq> langs b"

lemma below_refl [simp]: "below a a"
  by (simp add: below_def)

lemma below_trans: "below a b \<Longrightarrow> below b c \<Longrightarrow> below a c"
  by (auto simp: below_def)

lemma below_append: "below a a' \<Longrightarrow> below b b' \<Longrightarrow> below (a @ b) (a' @ b')"
  unfolding below_def langs_append by (rule conc_mono)

lemma below_left: "below b b' \<Longrightarrow> below (a @ b) (a @ b')"
  by (rule below_append) simp_all

lemma below_right: "below a a' \<Longrightarrow> below (a @ b) (a' @ b)"
  by (rule below_append) simp_all

lemma below_Cons: "below b b' \<Longrightarrow> below (p # b) (p # b')"
  using below_left [of b b' "[p]"] by simp

lemma below_block: "below [block ps] ps" "below ps [block ps]"
  by (simp_all add: below_def)

lemma below_block_append: "below a (ps @ b) \<Longrightarrow> below a (block ps # b)"
  unfolding below_def by (simp add: langs_append)

lemma below_any_of: "p \<in> set ps \<Longrightarrow> below a (p # b) \<Longrightarrow> below a (any_of ps # b)"
  using lang_any_of [of p ps] conc_mono [of "lang p" "lang (any_of ps)" "langs b" "langs b"]
  unfolding below_def langs.simps by blast

lemma below_Or1: "below a (p # b) \<Longrightarrow> below a (Or p q # b)"
  using conc_mono [of "lang p" "lang p \<union> lang q" "langs b" "langs b"] unfolding below_def by auto

lemma below_Or2: "below a (q # b) \<Longrightarrow> below a (Or p q # b)"
  using conc_mono [of "lang q" "lang p \<union> lang q" "langs b" "langs b"] unfolding below_def by auto

lemma below_maybe: "below a (p # b) \<Longrightarrow> below a (maybe p # b)"
  unfolding maybe_def by (rule below_Or1)

lemma below_skip_maybe: "below a b \<Longrightarrow> below a (maybe p # b)"
  unfolding maybe_def by (rule below_Or2) (simp add: below_def)

lemma below_skip_loop: "below a b \<Longrightarrow> below a (Loop p # b)"
  unfolding below_def langs.simps lang.simps by (auto simp: conc_def)

text \<open>One more round of a loop.\<close>

lemma below_loop_end: "below [Loop p, p] [Loop p]"
  unfolding below_def langs.simps lang.simps conc_simps
  by (auto elim!: concE intro: star_append star_one)

lemma below_loop: "below a [p] \<Longrightarrow> below (Loop p # a) [Loop p]"
  using below_trans [OF below_Cons below_loop_end] by blast

lemma below_loops: "below a (Loop p # p # b) \<Longrightarrow> below a (Loop p # b)"
  using below_right [OF below_loop_end, of p b] by (auto intro: below_trans)

lemma below_inner: "below (x # a) y \<Longrightarrow> below (x # a @ b) (y @ b)"
  using below_right [of "x # a" y b] by simp

section \<open>Words drive programs\<close>

fun op_prog :: "lock_op \<Rightarrow> prog" where
  "op_prog (Take l) = Lock l"
| "op_prog (Give l) = Unlock l"
| "op_prog (Pause c) = Wait_for c"

lemma lang_empties: "[] \<in> lang p \<Longrightarrow> unfold_prog\<^sup>*\<^sup>* (p # k) k"
proof (induction p arbitrary: k)
  case (Seq p q)
  then have "[] \<in> lang p" "[] \<in> lang q" by (auto simp: conc_def)
  then have "unfold_prog\<^sup>*\<^sup>* (p # q # k) (q # k)" "unfold_prog\<^sup>*\<^sup>* (q # k) k" using Seq.IH by blast+
  then show ?case by (meson converse_rtranclp_into_rtranclp rtranclp_trans unfold_prog.intros(2))
next
  case (Or p q)
  then show ?case by (auto intro: converse_rtranclp_into_rtranclp unfold_prog.intros)
qed (auto intro: unfold_prog.intros r_into_rtranclp)

lemma langs_empties: "[] \<in> langs k \<Longrightarrow> unfold_prog\<^sup>*\<^sup>* k []"
proof (induction k)
  case (Cons p k)
  then have "[] \<in> lang p" "[] \<in> langs k" by (auto simp: conc_def)
  with Cons.IH lang_empties [of p k] show ?case by (meson rtranclp_trans)
qed simp

lemma star_first: "w \<in> star A \<Longrightarrow> w = x # r \<Longrightarrow> \<exists>u v. x # u \<in> A \<and> v \<in> star A \<and> r = u @ v"
proof (induction rule: star.induct)
  case (star_app u v)
  show ?case
  proof (cases u)
    case Nil
    with star_app show ?thesis by simp
  next
    case (Cons y u')
    with star_app show ?thesis by auto
  qed
qed simp

lemma lang_first: "x # r \<in> lang p \<Longrightarrow> \<exists>k'. (\<forall>k. unfold_prog\<^sup>*\<^sup>* (p # k) (op_prog x # k' @ k)) \<and> r \<in> langs k'"
proof (induction p arbitrary: r)
  case (Seq p q)
  obtain u v where uv: "x # r = u @ v" "u \<in> lang p" "v \<in> lang q" using Seq.prems by (auto elim: concE)
  have s: "unfold_prog\<^sup>*\<^sup>* (Seq p q # k) (p # q # k)" for k by (rule r_into_rtranclp) (rule unfold_prog.intros)
  show ?case
  proof (cases u)
    case Nil
    with uv have "x # r \<in> lang q" "[] \<in> lang p" by simp_all
    from Seq.IH(2) [OF this(1)] obtain k' where
      k: "\<forall>k. unfold_prog\<^sup>*\<^sup>* (q # k) (op_prog x # k' @ k)" "r \<in> langs k'" by blast
    have "unfold_prog\<^sup>*\<^sup>* (Seq p q # k) (op_prog x # k' @ k)" for k
      using s [of k] lang_empties [OF \<open>[] \<in> lang p\<close>, of "q # k"] k(1) by (meson rtranclp_trans)
    with k(2) show ?thesis by blast
  next
    case (Cons y u')
    with uv have "x # u' \<in> lang p" "r = u' @ v" by simp_all
    from Seq.IH(1) [OF this(1)] obtain k' where
      k: "\<forall>k. unfold_prog\<^sup>*\<^sup>* (p # k) (op_prog x # k' @ k)" "u' \<in> langs k'" by blast
    have "unfold_prog\<^sup>*\<^sup>* (Seq p q # k) (op_prog x # (k' @ [q]) @ k)" for k
      using s [of k] k(1) [rule_format, of "q # k"] by (simp add: rtranclp_trans)
    moreover have "r \<in> langs (k' @ [q])" using k(2) uv(3) \<open>r = u' @ v\<close> by (auto simp: langs_append)
    ultimately show ?thesis by blast
  qed
next
  case (Or p q)
  have o: "unfold_prog\<^sup>*\<^sup>* (Or p q # k) k'" if "unfold_prog\<^sup>*\<^sup>* (p # k) k' \<or> unfold_prog\<^sup>*\<^sup>* (q # k) k'" for k k'
    using that by (auto intro: converse_rtranclp_into_rtranclp unfold_prog.intros)
  from Or.prems have "x # r \<in> lang p \<or> x # r \<in> lang q" by simp
  then show ?case
  proof
    assume "x # r \<in> lang p"
    from Or.IH(1) [OF this] o show ?thesis by blast
  next
    assume "x # r \<in> lang q"
    from Or.IH(2) [OF this] o show ?thesis by blast
  qed
next
  case (Loop p)
  then have "x # r \<in> star (lang p)" by simp
  from star_first [OF this refl] obtain u v where uv: "x # u \<in> lang p" "v \<in> star (lang p)" "r = u @ v" by blast
  from Loop.IH [OF uv(1)] obtain k' where
    k: "\<forall>k. unfold_prog\<^sup>*\<^sup>* (p # k) (op_prog x # k' @ k)" "u \<in> langs k'" by blast
  have "unfold_prog\<^sup>*\<^sup>* (Loop p # k) (op_prog x # (k' @ [Loop p]) @ k)" for k
    using converse_rtranclp_into_rtranclp [OF unfold_prog.intros(6) k(1) [rule_format, of "Loop p # k"]] by simp
  moreover have "r \<in> langs (k' @ [Loop p])" using k(2) uv(2,3) by (auto simp: langs_append)
  ultimately show ?case by blast
qed (auto intro: exI [of _ "[]"])

lemma langs_first: "x # r \<in> langs k \<Longrightarrow> \<exists>k'. unfold_prog\<^sup>*\<^sup>* k (op_prog x # k') \<and> r \<in> langs k'"
proof (induction k arbitrary: r)
  case (Cons p k)
  then obtain u v where uv: "x # r = u @ v" "u \<in> lang p" "v \<in> langs k" by (auto elim: concE)
  show ?case
  proof (cases u)
    case Nil
    with uv have "x # r \<in> langs k" "[] \<in> lang p" by simp_all
    with Cons.IH lang_empties [of p k] show ?thesis by (meson rtranclp_trans)
  next
    case (Cons y u')
    with uv have "x # u' \<in> lang p" "r = u' @ v" by simp_all
    from lang_first [OF this(1)] obtain k' where "unfold_prog\<^sup>*\<^sup>* (p # k) (op_prog x # k' @ k)" "u' \<in> langs k'" by blast
    moreover from this(2) uv(3) \<open>r = u' @ v\<close> have "r \<in> langs (k' @ k)" by (auto simp: langs_append)
    ultimately show ?thesis by blast
  qed
qed simp

section \<open>What a word does to the locks of its thread\<close>

fun replay :: "lock_op list \<Rightarrow> lock_name list \<Rightarrow> lock_name list option" where
  "replay [] H = Some H"
| "replay (Take l # w) H = (if l \<in> set H then None else replay w (l # H))"
| "replay (Give l # w) H = (if l \<in> set H then replay w (remove1 l H) else None)"
| "replay (Pause c # w) H = replay w H"

lemma replay_append: "replay (u @ v) H = Option.bind (replay u H) (replay v)"
  by (induction u H rule: replay.induct) simp_all

lemma chk_replay: "w \<in> lang p \<Longrightarrow> chk p H = Some H' \<Longrightarrow> replay w H = Some H'"
proof (induction p arbitrary: w H H')
  case (Lock l)
  then show ?case by (auto split: if_splits)
next
  case (Seq p q)
  then show ?case by (auto simp: replay_append bind_eq_Some_conv elim!: concE)
next
  case (Or p q)
  then have "chk p H = Some H'" "chk q H = Some H'" by (auto split: if_splits)
  with Or show ?case by auto
next
  case (Loop p)
  have p: "replay u H = Some H" if "u \<in> lang p" for u using Loop.IH [OF that] Loop.prems(2) by (simp split: if_splits)
  have "w \<in> star (lang p)" using Loop.prems(1) by simp
  then have "replay w H = Some H" by (induction rule: star.induct) (simp_all add: replay_append p)
  with Loop.prems(2) show ?case by (simp split: if_splits)
qed (auto split: if_splits)

lemma chks_replay: "w \<in> langs k \<Longrightarrow> chks k H = Some H' \<Longrightarrow> replay w H = Some H'"
proof (induction k arbitrary: w H)
  case (Cons p k)
  then obtain u v H1 where "w = u @ v" "u \<in> lang p" "v \<in> langs k" "chk p H = Some H1" "chks k H1 = Some H'"
    by (auto simp: bind_eq_Some_conv elim!: concE)
  with Cons.IH [of v H1] chk_replay [of u p H H1] show ?case by (simp add: replay_append)
qed simp

text \<open>A program that never takes a lock.\<close>

fun never_takes :: "lock_name \<Rightarrow> prog \<Rightarrow> bool" where
  "never_takes l (Lock m) = (m \<noteq> l)"
| "never_takes l (Seq p q) = (never_takes l p \<and> never_takes l q)"
| "never_takes l (Or p q) = (never_takes l p \<and> never_takes l q)"
| "never_takes l (Loop p) = never_takes l p"
| "never_takes l _ = True"

lemma never_takes_block [simp]: "never_takes l (block ps) = list_all (never_takes l) ps"
  by (induction ps) (simp_all add: block_def)

lemma never_takes_any_of [simp]: "never_takes l (any_of ps) = list_all (never_takes l) ps"
  by (induction ps) (simp_all add: any_of_def)

lemma never_takes_lang: "w \<in> lang p \<Longrightarrow> never_takes l p \<Longrightarrow> Take l \<notin> set w"
proof (induction p arbitrary: w)
  case (Seq p q)
  then show ?case by (auto elim!: concE)
next
  case (Loop p)
  then have "w \<in> star (lang p)" "\<And>u. u \<in> lang p \<Longrightarrow> Take l \<notin> set u" by simp_all
  then show ?case by (induction rule: star.induct) auto
qed auto

lemma never_takes_langs: "w \<in> langs k \<Longrightarrow> list_all (never_takes l) k \<Longrightarrow> Take l \<notin> set w"
proof (induction k arbitrary: w)
  case (Cons p k)
  then show ?case using never_takes_lang [of _ p l] by (auto elim!: concE)
qed simp

section \<open>Runs of the lock model with their traces\<close>

inductive lock_trace :: "lock_state \<Rightarrow> (nat \<times> lock_op) list \<Rightarrow> lock_state \<Rightarrow> bool" for x where
  trace_here: "lock_trace x [] x"
| trace_silent: "lock_trace x G (h, th) \<Longrightarrow> unfold_prog (th t) k \<Longrightarrow> lock_trace x G (h, th(t := k))"
| trace_take: "lock_trace x G (h, th) \<Longrightarrow> th t = Lock l # k \<Longrightarrow> h l = None \<Longrightarrow>
    lock_trace x (G @ [(t, Take l)]) (h(l := Some t), th(t := k))"
| trace_give: "lock_trace x G (h, th) \<Longrightarrow> th t = Unlock l # k \<Longrightarrow> h l = Some t \<Longrightarrow>
    lock_trace x (G @ [(t, Give l)]) (h(l := None), th(t := k))"
| trace_pause: "lock_trace x G (h, th) \<Longrightarrow> th t = Wait_for c # k \<Longrightarrow> lock_trace x (G @ [(t, Pause c)]) (h, th(t := k))"

text \<open>It is a run of the lock model.\<close>

lemma lock_trace_moves: "lock_trace x G y \<Longrightarrow> lock_move\<^sup>*\<^sup>* x y"
  by (induction rule: lock_trace.induct) (auto intro: rtranclp.rtrancl_into_rtrancl lock_move.intros)

lemma trace_unfolds:
  assumes "unfold_prog\<^sup>*\<^sup>* k k'" "lock_trace x G (h, th)" "th t = k"
  shows "lock_trace x G (h, th(t := k'))"
  using assms
proof (induction rule: rtranclp_induct)
  case base
  then have "th(t := k) = th" by (simp add: fun_upd_idem)
  with base.prems show ?case by simp
next
  case (step k1 k2)
  have "lock_trace x G (h, (th(t := k1))(t := k2))"
    by (rule trace_silent [OF step.IH [OF step.prems]]) (simp add: step.hyps(2))
  then show ?case by (simp only: fun_upd_upd)
qed

text \<open>The owners of the locks after a thread that held \<open>H\<close> before holds \<open>H'\<close>.\<close>

definition owners_after :: "nat \<Rightarrow> lock_name list \<Rightarrow> (lock_name \<Rightarrow> nat option) \<Rightarrow> lock_name \<Rightarrow> nat option" where
  "owners_after t H' h l = (if l \<in> set H' then Some t else if h l = Some t then None else h l)"

lemma trace_word:
  assumes "lock_trace x G (h, th)" "w @ r \<in> langs (th t)" "distinct H" "set H = {l. h l = Some t}" "replay w H = Some H'"
    and "\<forall>l. Take l \<in> set w \<longrightarrow> h l = None \<or> h l = Some t"
  shows "\<exists>k. lock_trace x (G @ map (Pair t) w) (owners_after t H' h, th(t := k)) \<and> r \<in> langs k"
  using assms
proof (induction w arbitrary: G h th H)
  case Nil
  then have "owners_after t H' h = h" by (auto simp: owners_after_def)
  moreover have "th(t := th t) = th" by simp
  ultimately show ?case using Nil by (intro exI [of _ "th t"]) simp
next
  case (Cons op w)
  from Cons.prems(2) obtain k where k: "unfold_prog\<^sup>*\<^sup>* (th t) (op_prog op # k)" "w @ r \<in> langs k"
    using langs_first [of op "w @ r" "th t"] by auto
  have at: "lock_trace x G (h, th(t := op_prog op # k))" by (rule trace_unfolds [OF k(1) Cons.prems(1)]) simp
  have go: ?case
    if tr: "lock_trace x (G @ [(t, op)]) (h1, (th(t := op_prog op # k))(t := k))" and H1: "distinct H1" "set H1 = {m. h1 m = Some t}"
      and w: "replay w H1 = Some H'" "\<forall>m. Take m \<in> set w \<longrightarrow> h1 m = None \<or> h1 m = Some t"
      and o: "owners_after t H' h1 = owners_after t H' h" for h1 H1
  proof -
    have "w @ r \<in> langs ((th(t := k)) t)" using k(2) by simp
    from Cons.IH [OF tr [unfolded fun_upd_upd] this H1 w] o obtain k' where
      "lock_trace x ((G @ [(t, op)]) @ map (Pair t) w) (owners_after t H' h, (th(t := k))(t := k'))" "r \<in> langs k'"
      by metis
    then show ?thesis
      by (intro exI [of _ k'] conjI) (simp_all only: fun_upd_upd append_assoc append_Cons append_Nil list.map)
  qed
  show ?case
  proof (cases op)
    case (Take l)
    have l: "l \<notin> set H" "replay w (l # H) = Some H'" using Cons.prems(5) by (simp_all add: Take split: if_splits)
    then have free: "h l = None" using Cons.prems(4,6) by (auto simp: Take)
    have tr: "lock_trace x (G @ [(t, op)]) (h(l := Some t), (th(t := op_prog op # k))(t := k))"
      by (subst Take) (rule trace_take [OF at _ free], simp add: Take)
    show ?thesis
      by (rule go [OF tr _ _ l(2)]) (use l(1) free Cons.prems(3,4,6) in \<open>auto simp: owners_after_def\<close>)
  next
    case (Give l)
    have l: "l \<in> set H" "replay w (remove1 l H) = Some H'" using Cons.prems(5) by (simp_all add: Give split: if_splits)
    then have own: "h l = Some t" using Cons.prems(4) by auto
    have tr: "lock_trace x (G @ [(t, op)]) (h(l := None), (th(t := op_prog op # k))(t := k))"
      by (subst Give) (rule trace_give [OF at _ own], simp add: Give)
    show ?thesis
      by (rule go [OF tr _ _ l(2)]) (use own Cons.prems(3,4,6) in \<open>auto simp: owners_after_def\<close>)
  next
    case (Pause c)
    have tr: "lock_trace x (G @ [(t, op)]) (h, (th(t := op_prog op # k))(t := k))"
      by (subst Pause) (rule trace_pause [OF at], simp add: Pause)
    show ?thesis by (rule go [OF tr Cons.prems(3,4)]) (use Cons.prems(5,6) Pause in auto)
  qed
qed

text \<open>The part of one thread in a trace.\<close>

definition part :: "nat \<Rightarrow> (nat \<times> lock_op) list \<Rightarrow> lock_op list" where
  "part t G = map snd (filter (\<lambda>x. fst x = t) G)"

lemma part_simps [simp]: "part t [] = []" "part t (G @ map (Pair u) w) = part t G @ (if u = t then w else [])"
  by (auto simp: part_def filter_map o_def)

end
