(* ===== verification/CacheDlLocks.thy ===== *)
theory CacheDlLocks
  imports LockTrace CacheDlProps
begin

text \<open>
  The two models of the cached read agree: what the threads of \<open>CacheDl\<close> do to the mutexes, step
  by step, are runs of the programs that \<open>LockOrder\<close> reduces \<open>Cache_read\<close> and \<open>Cache_bgdl\<close> to, with
  the same owner of \<open>w_lock\<close> at every moment.
\<close>

section \<open>The calls of the macros, step by step\<close>

definition dl_section :: "nat \<Rightarrow> prog" where
  "dl_section n = locked (Dl_lock n) []"

text \<open>A thread in the loop of \<open>Cache_read_segment\<close> that stays in it waits, and one that leaves it does not.\<close>

definition wait_locks :: "nat \<Rightarrow> pc \<Rightarrow> prog list" where
  "wait_locks n p = (case p of R_wait _ \<Rightarrow> [Unlock (Dl_lock n), Wait_for (Ad_cond n)] | _ \<Rightarrow> [Unlock (Dl_lock n)])"

text \<open>
  The calls between two program counters, in the order of the code.  A chunk arrives in whichever
  thread runs \<open>curl_multi_perform\<close>, which the calls at the end of a transfer stand for.
\<close>

definition step_locks :: "nat list \<Rightarrow> nat \<Rightarrow> nat \<Rightarrow> event \<Rightarrow> dl \<Rightarrow> dl \<Rightarrow> prog list" where
  "step_locks cs n t ev s s' =
    (let th = threads s ! t; dl_offset = dl_offset_of s (cur th); p' = pc (threads s' ! t)
     in case ev of
          Chunk _ \<Rightarrow> []
        | Complete _ _ \<Rightarrow> [curl_call, transfer_blocking_locks cs, curl_call]
        | Go _ \<Rightarrow>
            (case pc th of
               R_retry \<Rightarrow>
                 if Seg_exist (cache s) dl_offset \<noteq> 0 then [Lock (W_lock n), Data_read_locks n, Unlock (W_lock n)]
                 else if ActiveDownload_find s dl_offset \<noteq> None
                 then [Lock (W_lock n), Lock (Dl_lock n), Unlock (W_lock n)] @ wait_locks n p'
                 else [Lock (W_lock n), dl_section n]
             | R_bgadd \<Rightarrow> [dl_section n]
             | R_launch \<Rightarrow> [dl_section n]
             | R_create \<Rightarrow> [Unlock (W_lock n)]
             | R_syncdl \<Rightarrow> [dl_section n, Unlock (W_lock n)]
             | R_wait _ \<Rightarrow> Lock (Dl_lock n) # wait_locks n p'
             | R_relock \<Rightarrow>
                 Lock (W_lock n) #
                   (if Seg_exist (cache s) dl_offset \<noteq> 0 then [Data_read_locks n, Unlock (W_lock n)] else [])
             | L_attach \<Rightarrow> (if p' = L_recv then [dl_section n] else [])
             | L_fin _ \<Rightarrow> [dl_section n]
             | D_done recv \<Rightarrow>
                 (case kind th of
                    Reader _ _ \<Rightarrow>
                      [Lock (W_lock n)] @
                      (if 0 \<le> recv \<and> full_or_last s recv dl_offset \<and> cur th - dl_offset + seg_len s th \<le> recv
                       then [Data_write_locks n] else []) @
                      [dl_section n, Unlock (W_lock n)]
                  | Worker off \<Rightarrow>
                      if recv < 0 then [dl_section n]
                      else [Lock (W_lock n)] @ (if full_or_last s recv off then [Data_write_locks n] else []) @
                        [Unlock (W_lock n)])
             | R_bgdl _ \<Rightarrow> (if next_offset s t < flen s then [Lock (W_lock n), Unlock (W_lock n)] else [])
             | R_bgdl3 _ \<Rightarrow> [Lock (W_lock n), Lock (Dl_lock n), Unlock (Dl_lock n), Unlock (W_lock n)]
             | R_bglaunch _ \<Rightarrow> [dl_section n]
             | B_remove \<Rightarrow> [dl_section n]
             | _ \<Rightarrow> []))"

section \<open>What a thread has done when it is at a program counter\<close>

definition retries :: "nat \<Rightarrow> prog" where
  "retries n = Loop (retry_locks n)"

text \<open>The ways from \<open>retry\<close> to the label \<open>bgdl\<close> or to a return.\<close>

definition answers :: "nat list \<Rightarrow> nat \<Rightarrow> prog" where
  "answers cs n =
    any_of [locked (W_lock n) [Data_read_locks n],
      block [Lock (W_lock n), wait_on_locks n, maybe (locked (W_lock n) [Data_read_locks n])],
      block [to_sync_dl_locks n, sync_dl_locks cs n]]"

definition attempt_locks :: "nat list \<Rightarrow> nat \<Rightarrow> prog" where
  "attempt_locks cs n =
    block [dl_section n, curl_call, transfer_blocking_locks cs, curl_call, dl_section n]"

fun download_at :: "nat list \<Rightarrow> nat \<Rightarrow> pc \<Rightarrow> prog list" where
  "download_at cs n L_attach = [Loop (attempt_locks cs n)]"
| "download_at cs n L_recv = [Loop (attempt_locks cs n), dl_section n]"
| "download_at cs n (L_fin _) = [Loop (attempt_locks cs n), dl_section n, curl_call, transfer_blocking_locks cs, curl_call]"
| "download_at cs n _ = [Link_download_locks cs (Some n)]"

fun reader_at :: "nat list \<Rightarrow> nat \<Rightarrow> pc \<Rightarrow> prog list" where
  "reader_at cs n R_retry = [retries n]"
| "reader_at cs n R_trysem = [retries n, Lock (W_lock n), dl_section n]"
| "reader_at cs n R_bgadd = [retries n, Lock (W_lock n), dl_section n]"
| "reader_at cs n R_launch = [retries n, Lock (W_lock n), dl_section n, dl_section n]"
| "reader_at cs n R_create = [retries n, Lock (W_lock n), dl_section n, dl_section n, dl_section n]"
| "reader_at cs n R_syncdl = [retries n, to_sync_dl_locks n]"
| "reader_at cs n (R_wait _) =
    [retries n, Lock (W_lock n), Lock (Dl_lock n), Unlock (W_lock n), Loop (cond_wait (Ad_cond n) (Dl_lock n)),
     Unlock (Dl_lock n), Wait_for (Ad_cond n)]"
| "reader_at cs n R_relock = [retries n, Lock (W_lock n), wait_on_locks n]"
| "reader_at cs n (R_bgdl _) = [retries n, answers cs n]"
| "reader_at cs n (R_bgdl2 _) = [retries n, answers cs n, maybe (locked (W_lock n) [])]"
| "reader_at cs n (R_bgdl3 _) = [retries n, answers cs n, maybe (locked (W_lock n) [])]"
| "reader_at cs n (R_bglaunch _) =
    [retries n, answers cs n, maybe (locked (W_lock n) []), Lock (W_lock n), Lock (Dl_lock n), Unlock (Dl_lock n), Unlock (W_lock n)]"
| "reader_at cs n (R_bgcreate _) =
    [retries n, answers cs n, maybe (locked (W_lock n) []), Lock (W_lock n), Lock (Dl_lock n), Unlock (Dl_lock n), Unlock (W_lock n),
     dl_section n]"
| "reader_at cs n (R_ret _) = [Cache_read_segment_locks cs n]"
| "reader_at cs n (Finished _) = []"
| "reader_at cs n p = [retries n, to_sync_dl_locks n, dl_section n, Unlock (W_lock n)] @ download_at cs n p"

fun worker_at :: "nat list \<Rightarrow> nat \<Rightarrow> pc \<Rightarrow> prog list" where
  "worker_at cs n B_remove = [Link_download_locks cs (Some n), Lock (W_lock n), Data_write_locks n, Unlock (W_lock n)]"
| "worker_at cs n B_post = [Cache_bgdl_locks cs n]"
| "worker_at cs n B_exit = [Cache_bgdl_locks cs n]"
| "worker_at cs n p = download_at cs n p"

definition thread_at :: "nat list \<Rightarrow> nat \<Rightarrow> thread \<Rightarrow> prog list" where
  "thread_at cs n th =
    (case kind th of
       Reader _ _ \<Rightarrow> Loop (Cache_read_segment_locks cs n) # reader_at cs n (pc th)
     | Worker _ \<Rightarrow> worker_at cs n (pc th))"

section \<open>The edges\<close>

lemma below_flat [simp]:
  "below a (block ps # b) = below a (ps @ b)" "below (block ps # a) b = below (ps @ a) b"
  by (simp_all add: below_def langs_append)

lemmas sections = dl_section_def locked_def

lemma Link_download_attempts:
  "Link_download_locks cs (Some n) = maybe (block [Loop (attempt_locks cs n), attempt_locks cs n])"
  by (simp add: Link_download_locks_def attempt_locks_def Link_download_finish_transfer_locks_def dl_section_def Let_def)

lemma Cache_read_segment_answers:
  "Cache_read_segment_locks cs n = maybe (block [retries n, answers cs n, maybe (bgdl_locks n)])"
  by (simp add: Cache_read_segment_locks_def retries_def answers_def)

lemma star_last: "w \<in> star A \<Longrightarrow> w = [] \<or> w \<in> conc (star A) A"
proof (induction rule: star.induct)
  case (star_app u v)
  from star_app.IH show ?case
  proof
    assume "v = []"
    with star_app.hyps(1) concI [OF star_Nil star_app.hyps(1)] show ?thesis by simp
  next
    assume "v \<in> conc (star A) A"
    then obtain x y where "v = x @ y" "x \<in> star A" "y \<in> A" by (auto elim: concE)
    then have "(u @ x) @ y \<in> conc (star A) A" using star_app.hyps(1) by (blast intro: star.star_app)
    with \<open>v = x @ y\<close> show ?thesis by simp
  qed
qed simp

lemma attempts_download: "below [Loop (attempt_locks cs n)] [Link_download_locks cs (Some n)]"
  unfolding below_def Link_download_attempts using star_last by (auto simp: maybe_def)

lemma attempt_ends: "below (download_at cs n (L_fin r) @ [dl_section n]) [Loop (attempt_locks cs n)]"
  using below_loop [of "[dl_section n, curl_call, transfer_blocking_locks cs, curl_call, dl_section n]" "attempt_locks cs n"]
  by (simp add: attempt_locks_def)

lemma edge_cached: "below [Lock (W_lock n), Data_read_locks n, Unlock (W_lock n)] [answers cs n]"
  unfolding answers_def by (rule below_any_of [where p = "locked (W_lock n) [Data_read_locks n]"]) (simp_all add: locked_def)

lemma edge_left: "below [Lock (W_lock n), wait_on_locks n] [answers cs n]"
  unfolding answers_def
  by (rule below_any_of [where p = "block [Lock (W_lock n), wait_on_locks n, maybe (locked (W_lock n) [Data_read_locks n])]"])
    (simp_all, intro below_Cons below_skip_maybe below_refl)

lemma edge_left_cached: "below [Lock (W_lock n), wait_on_locks n, Lock (W_lock n), Data_read_locks n, Unlock (W_lock n)] [answers cs n]"
  unfolding answers_def
  by (rule below_any_of [where p = "block [Lock (W_lock n), wait_on_locks n, maybe (locked (W_lock n) [Data_read_locks n])]"])
    (simp_all, intro below_Cons below_maybe, simp add: locked_def)

lemma edge_answers: "below [retries n, answers cs n] [Cache_read_segment_locks cs n]"
  unfolding Cache_read_segment_answers by (rule below_maybe) (simp, intro below_Cons below_skip_maybe below_refl)

lemma edge_create: "below [retries n, Lock (W_lock n), dl_section n, dl_section n, dl_section n, Unlock (W_lock n)] [retries n]"
  unfolding retries_def retry_locks_def Cache_bgdl_launcher_locks_def sections
  by (rule below_loop, rule below_Or1) (rule below_refl | rule below_Cons | simp only: below_flat append.simps | rule below_skip_maybe | rule below_skip_loop)+

lemma edge_found: "below [retries n, to_sync_dl_locks n, dl_section n, Unlock (W_lock n)] [retries n]"
  unfolding retries_def retry_locks_def sections
  by (rule below_loop, rule below_Or2) (rule below_refl | rule below_Cons | simp only: below_flat append.simps | rule below_skip_maybe | rule below_skip_loop)+

lemma edge_no_slot: "below [Lock (W_lock n), dl_section n] [to_sync_dl_locks n]"
  unfolding to_sync_dl_locks_def sections by (rule below_Or2) (rule below_refl | rule below_Cons | simp only: below_flat append.simps | rule below_skip_maybe | rule below_skip_loop)+

lemma edge_slot_back: "below [Lock (W_lock n), dl_section n, dl_section n] [to_sync_dl_locks n]"
  unfolding to_sync_dl_locks_def sections by (rule below_Or2) (rule below_refl | rule below_Cons | simp only: below_flat append.simps | rule below_maybe)+

lemma edge_relock: "below [Lock (W_lock n), wait_on_locks n, Lock (W_lock n)] [to_sync_dl_locks n]"
  unfolding to_sync_dl_locks_def by (rule below_Or1) simp

text \<open>Leaving the loop at once, or after waiting.\<close>

lemma edge_not_waited:
  "below [Lock (W_lock n), Lock (Dl_lock n), Unlock (W_lock n), Unlock (Dl_lock n)] [Lock (W_lock n), wait_on_locks n]"
  unfolding wait_on_locks_def by (rule below_Cons) (simp, intro below_Cons below_skip_loop below_refl)

lemma edge_waited:
  "below [Lock (W_lock n), Lock (Dl_lock n), Unlock (W_lock n), Loop (cond_wait (Ad_cond n) (Dl_lock n)),
      Unlock (Dl_lock n), Wait_for (Ad_cond n), Lock (Dl_lock n), Unlock (Dl_lock n)]
    [Lock (W_lock n), wait_on_locks n]"
  unfolding wait_on_locks_def
  by (rule below_Cons, simp only: below_flat append.simps, rule below_Cons, rule below_Cons, rule below_loops, rule below_Cons)
    (simp add: cond_wait_def)

lemma edge_waits_on:
  "below [Loop (cond_wait (Ad_cond n) (Dl_lock n)), Unlock (Dl_lock n), Wait_for (Ad_cond n), Lock (Dl_lock n),
      Unlock (Dl_lock n), Wait_for (Ad_cond n)]
    [Loop (cond_wait (Ad_cond n) (Dl_lock n)), Unlock (Dl_lock n), Wait_for (Ad_cond n)]"
  by (rule below_loops, rule below_Cons) (simp add: cond_wait_def)

lemma edge_sync_done:
  "below [to_sync_dl_locks n, dl_section n, Unlock (W_lock n), Link_download_locks cs (Some n), Lock (W_lock n), dl_section n, Unlock (W_lock n)]
    [answers cs n]"
  unfolding answers_def
  by (rule below_any_of [where p = "block [to_sync_dl_locks n, sync_dl_locks cs n]"], simp, unfold sync_dl_locks_def sections) (rule below_refl | rule below_Cons | simp only: below_flat append.simps | rule below_skip_maybe | rule below_skip_loop)+

lemma edge_sync_stored:
  "below [to_sync_dl_locks n, dl_section n, Unlock (W_lock n), Link_download_locks cs (Some n), Lock (W_lock n), Data_write_locks n,
      dl_section n, Unlock (W_lock n)]
    [answers cs n]"
  unfolding answers_def
  by (rule below_any_of [where p = "block [to_sync_dl_locks n, sync_dl_locks cs n]"], simp, unfold sync_dl_locks_def sections) (rule below_refl | rule below_Cons | simp only: below_flat append.simps | rule below_maybe)+

lemma edge_no_ahead:
  "below [retries n, answers cs n, maybe (locked (W_lock n) [])] [Cache_read_segment_locks cs n]"
  unfolding Cache_read_segment_answers bgdl_locks_def
  by (rule below_maybe, simp only: below_flat append.simps, intro below_Cons, rule below_maybe) (rule below_refl | rule below_Cons | simp only: below_flat append.simps | rule below_skip_maybe | rule below_skip_loop)+

lemma edge_ahead_found:
  "below [retries n, answers cs n, maybe (locked (W_lock n) []), Lock (W_lock n), Lock (Dl_lock n), Unlock (Dl_lock n), Unlock (W_lock n)]
    [Cache_read_segment_locks cs n]"
  unfolding Cache_read_segment_answers bgdl_locks_def
  by (rule below_maybe, simp only: below_flat append.simps, intro below_Cons, rule below_maybe,
      simp only: below_flat append.simps, rule below_Cons, rule below_maybe) (rule below_refl | rule below_Cons | simp only: below_flat append.simps | rule below_skip_maybe | rule below_skip_loop)+

lemma edge_ahead:
  "below [retries n, answers cs n, maybe (locked (W_lock n) []), Lock (W_lock n), Lock (Dl_lock n), Unlock (Dl_lock n), Unlock (W_lock n),
      dl_section n]
    [Cache_read_segment_locks cs n]"
  unfolding Cache_read_segment_answers bgdl_locks_def Cache_bgdl_launcher_locks_def sections
  by (rule below_maybe, simp only: below_flat append.simps, intro below_Cons, rule below_maybe,
      simp only: below_flat append.simps, rule below_Cons, rule below_maybe, simp only: below_flat append.simps,
      intro below_Cons, rule below_maybe) (rule below_refl | rule below_Cons | simp only: below_flat append.simps | rule below_skip_maybe | rule below_skip_loop)+

lemma edge_segment: "below [Loop (Cache_read_segment_locks cs n), Cache_read_segment_locks cs n] [Loop (Cache_read_segment_locks cs n)]"
  by (rule below_loop_end)

lemma edge_worker:
  "below [Link_download_locks cs (Some n), dl_section n] [Cache_bgdl_locks cs n]"
  "below [Link_download_locks cs (Some n), Lock (W_lock n), Unlock (W_lock n)]
     [Link_download_locks cs (Some n), Lock (W_lock n), Data_write_locks n, Unlock (W_lock n)]"
  "below [Link_download_locks cs (Some n), Lock (W_lock n), Data_write_locks n, Unlock (W_lock n), dl_section n] [Cache_bgdl_locks cs n]"
proof -
  show "below [Link_download_locks cs (Some n), dl_section n] [Cache_bgdl_locks cs n]"
    unfolding Cache_bgdl_locks_def by (simp, rule below_Cons, rule below_Or1) (simp add: sections)
  show "below [Link_download_locks cs (Some n), Lock (W_lock n), Unlock (W_lock n)]
     [Link_download_locks cs (Some n), Lock (W_lock n), Data_write_locks n, Unlock (W_lock n)]"
    unfolding Data_write_locks_def by (intro below_Cons below_skip_maybe below_refl)
  show "below [Link_download_locks cs (Some n), Lock (W_lock n), Data_write_locks n, Unlock (W_lock n), dl_section n] [Cache_bgdl_locks cs n]"
    unfolding Cache_bgdl_locks_def by (simp, rule below_Cons, rule below_Or2) (simp add: sections)
qed

section \<open>Every step follows an edge\<close>

definition follows :: "nat list \<Rightarrow> nat \<Rightarrow> nat \<Rightarrow> prog list \<Rightarrow> dl \<Rightarrow> dl \<Rightarrow> bool" where
  "follows cs n t ops s s' \<longleftrightarrow>
    (\<exists>x ys. threads s' = (threads s)[t := x] @ ys \<and> kind x = kind (threads s ! t) \<and>
       (\<forall>y \<in> set ys. \<exists>off. kind y = Worker off \<and> pc y = L_attach) \<and>
       below (thread_at cs n (threads s ! t) @ ops) (thread_at cs n x))"

lemma follows_reader:
  assumes "threads s' = (threads s)[t := x]" "kind (threads s ! t) = Reader off len" "kind x = kind (threads s ! t)"
    and "below (reader_at cs n (pc (threads s ! t)) @ ops) (reader_at cs n (pc x))"
  shows "follows cs n t ops s s'"
  unfolding follows_def using assms by (intro exI [of _ x] exI [of _ "[]"]) (auto simp: thread_at_def intro: below_Cons)

lemma follows_worker:
  assumes "threads s' = (threads s)[t := x]" "kind (threads s ! t) = Worker off" "kind x = kind (threads s ! t)"
    and "below (worker_at cs n (pc (threads s ! t)) @ ops) (worker_at cs n (pc x))"
  shows "follows cs n t ops s s'"
  unfolding follows_def using assms by (intro exI [of _ x] exI [of _ "[]"]) (auto simp: thread_at_def)

lemma follows_nth: "follows cs n t ops s s' \<Longrightarrow> t < length (threads s) \<Longrightarrow> u < length (threads s) \<Longrightarrow>
    (u \<noteq> t \<longrightarrow> threads s' ! u = threads s ! u) \<and> kind (threads s' ! u) = kind (threads s ! u) \<and>
    (u = t \<longrightarrow> below (thread_at cs n (threads s ! t) @ ops) (thread_at cs n (threads s' ! t)))"
  unfolding follows_def by (auto simp: nth_append nth_list_update)

lemma cinv_not_bad: "cinv s \<Longrightarrow> \<not> bad s"
  using cinvD(1) ginvD(4) unfolding ainv_def by blast

lemma bad_unref [simp]: "bad s \<Longrightarrow> bad (ActiveDownload_unref a s)"
  by (simp add: ActiveDownload_unref_def split: option.split)

text \<open>Where the waiting loop leaves a thread.\<close>

lemma wait_check_pc:
  assumes "\<not> bad (wait_check t a s)" "t < length (threads s)"
  shows "\<exists>x. threads (wait_check t a s) = (threads s)[t := x] \<and> kind x = kind (threads s ! t) \<and>
    (pc x = R_wait a \<or> pc x = R_relock \<or> (\<exists>r. pc x = R_ret r) \<or> (\<exists>l. pc x = R_bgdl l))"
proof (cases "ads s a")
  case None
  with assms show ?thesis by (simp add: wait_check_def)
next
  case (Some A)
  let ?th = "threads s ! t"
  show ?thesis
  proof (cases "shutting_down (cache s) \<or> ad_unlinked A")
    case True
    with Some show ?thesis
      by (intro exI [of _ "?th\<lparr>pc := if shutting_down (cache s) then R_ret (- EIO) else R_relock\<rparr>"])
        (auto simp: wait_check_def goto_pc_def Let_def)
  next
    case False
    show ?thesis
    proof (cases "threads (wait_check t a s) = (threads s)[t := ?th\<lparr>pc := R_wait a\<rparr>]")
      case True
      then show ?thesis by (intro exI [of _ "?th\<lparr>pc := R_wait a\<rparr>"]) simp
    next
      case no: False
      with False Some assms(1) have "\<exists>l b. threads (wait_check t a s) = (threads s)[t := ?th\<lparr>pc := R_bgdl l, seg_out := b\<rparr>]"
        by (auto simp: wait_check_def goto_pc_def Let_def split: option.splits if_splits)
      then obtain l b where "threads (wait_check t a s) = (threads s)[t := ?th\<lparr>pc := R_bgdl l, seg_out := b\<rparr>]" by blast
      then show ?thesis by (intro exI [of _ "?th\<lparr>pc := R_bgdl l, seg_out := b\<rparr>"]) simp
    qed
  qed
qed

text \<open>Both ways to leave the loop.\<close>

lemma edge_leave:
  assumes "p = R_relock \<or> (\<exists>r. p = R_ret r) \<or> (\<exists>l. p = R_bgdl l)"
  shows "below [retries n, Lock (W_lock n), wait_on_locks n] (reader_at cs n p)"
proof -
  have a: "below [retries n, Lock (W_lock n), wait_on_locks n] [retries n, answers cs n]"
    by (rule below_Cons) (rule edge_left)
  then show ?thesis using assms below_trans [OF a edge_answers] by auto
qed

lemma wait_edge:
  assumes pc: "p = R_wait a \<or> p = R_relock \<or> (\<exists>r. p = R_ret r) \<or> (\<exists>l. p = R_bgdl l)"
  shows "below ([retries n, Lock (W_lock n), Lock (Dl_lock n), Unlock (W_lock n)] @ wait_locks n p) (reader_at cs n p)"
    and "below (reader_at cs n (R_wait b) @ Lock (Dl_lock n) # wait_locks n p) (reader_at cs n p)"
proof -
  have "\<exists>a. p = R_wait a" if "\<not> (p = R_relock \<or> (\<exists>r. p = R_ret r) \<or> (\<exists>l. p = R_bgdl l))" using pc that by blast
  note cases = this
  show "below ([retries n, Lock (W_lock n), Lock (Dl_lock n), Unlock (W_lock n)] @ wait_locks n p) (reader_at cs n p)"
  proof (cases "p = R_relock \<or> (\<exists>r. p = R_ret r) \<or> (\<exists>l. p = R_bgdl l)")
    case True
    then have w: "wait_locks n p = [Unlock (Dl_lock n)]" by (auto simp: wait_locks_def)
    show ?thesis using below_trans [OF below_Cons [OF edge_not_waited] edge_leave [OF True]] by (simp add: w)
  next
    case False
    with cases obtain c where "p = R_wait c" by blast
    then show ?thesis by (simp add: wait_locks_def) (intro below_Cons below_skip_loop below_refl)
  qed
  show "below (reader_at cs n (R_wait b) @ Lock (Dl_lock n) # wait_locks n p) (reader_at cs n p)"
  proof (cases "p = R_relock \<or> (\<exists>r. p = R_ret r) \<or> (\<exists>l. p = R_bgdl l)")
    case True
    then have w: "wait_locks n p = [Unlock (Dl_lock n)]" by (auto simp: wait_locks_def)
    show ?thesis using below_trans [OF below_Cons [OF edge_waited] edge_leave [OF True]] by (simp add: w)
  next
    case False
    with cases obtain c where "p = R_wait c" by blast
    then show ?thesis
      by (simp add: wait_locks_def) (rule below_Cons, rule below_Cons, rule below_Cons, rule below_Cons, rule edge_waits_on)
  qed
qed

lemma follows_read_cached:
  assumes "kind (threads s ! t) = Reader off len" "threads s1 = threads s"
    and "below (reader_at cs n (pc (threads s ! t)) @ ops) [retries n, answers cs n]"
  shows "follows cs n t ops s (read_cached t flt s1)"
proof -
  obtain send bytes where "threads (read_cached t flt s1) = (threads s1)[t := (threads s1 ! t)\<lparr>pc := R_bgdl send, seg_out := bytes\<rparr>]"
    using read_cached_threads by blast
  with assms show ?thesis by (intro follows_reader [where x = "(threads s ! t)\<lparr>pc := R_bgdl send, seg_out := bytes\<rparr>"]) auto
qed

lemma at_reader_kind: "at t p s \<Longrightarrow> \<not> worker_pc p \<Longrightarrow> \<exists>off len. kind (threads s ! t) = Reader off len"
  using at_reader by metis

text \<open>The steps of \<open>Cache_read_segment\<close>.\<close>

lemma retry_follows:
  assumes at: "at t R_retry s" and bad: "\<not> bad (st_retry t flt s)"
  shows "follows cs n t (step_locks cs n t (Go flt) s (st_retry t flt s)) s (st_retry t flt s)"
proof -
  have t: "t < length (threads s)" "pc (threads s ! t) = R_retry" using at by (simp_all add: at_def)
  obtain off len where k: "kind (threads s ! t) = Reader off len" using at_reader_kind [OF at] by auto
  let ?o = "dl_offset_of s (cur (threads s ! t))"
  show ?thesis
  proof (cases "Seg_exist (cache s) ?o \<noteq> 0")
    case True
    then have "st_retry t flt s = read_cached t flt (lock_w t s)" by (simp add: st_retry_def Let_def)
    moreover have "step_locks cs n t (Go flt) s (st_retry t flt s) = [Lock (W_lock n), Data_read_locks n, Unlock (W_lock n)]"
      using True t by (simp add: step_locks_def Let_def)
    ultimately show ?thesis using t k edge_cached
      by (auto intro!: follows_read_cached below_Cons)
  next
    case seg: False
    show ?thesis
    proof (cases "ActiveDownload_find s ?o")
      case None
      then have f: "ActiveDownload_find (lock_w t s) ?o = None" by (simp add: ActiveDownload_find_def)
      with seg have "st_retry t flt s = goto_pc t R_trysem (lock_w t s)" by (simp add: st_retry_def Let_def)
      moreover have "step_locks cs n t (Go flt) s (st_retry t flt s) = [Lock (W_lock n), dl_section n]"
        using seg None t by (simp add: step_locks_def Let_def)
      ultimately show ?thesis using t k
        by (intro follows_reader [where x = "(threads s ! t)\<lparr>pc := R_trysem\<rparr>"]) auto
    next
      case (Some a)
      then have f: "ActiveDownload_find (lock_w t s) ?o = Some a" by (simp add: ActiveDownload_find_def)
      let ?s1 = "waiter_add 1 (ad_ref a (unlock_w (lock_w t s)))"
      have e: "st_retry t flt s = wait_check t a ?s1" using seg f by (simp add: st_retry_def Let_def)
      have th: "threads ?s1 = threads s" by simp
      from wait_check_pc [of t a ?s1] bad t obtain x where x: "threads (st_retry t flt s) = (threads s)[t := x]"
        "kind x = kind (threads s ! t)" "pc x = R_wait a \<or> pc x = R_relock \<or> (\<exists>r. pc x = R_ret r) \<or> (\<exists>l. pc x = R_bgdl l)"
        unfolding e th by auto
      have "step_locks cs n t (Go flt) s (st_retry t flt s) =
          [Lock (W_lock n), Lock (Dl_lock n), Unlock (W_lock n)] @ wait_locks n (pc x)"
        using seg Some t x(1) by (simp add: step_locks_def Let_def)
      then show ?thesis
        using wait_edge(1) [OF x(3), of n cs] t
        by (intro follows_reader [OF x(1) k x(2)]) simp
    qed
  qed
qed

lemma wait_follows:
  assumes at: "at t (R_wait a) s" and bad: "\<not> bad (wait_check t a s)"
  shows "follows cs n t (step_locks cs n t (Go flt) s (wait_check t a s)) s (wait_check t a s)"
proof -
  have t: "t < length (threads s)" "pc (threads s ! t) = R_wait a" using at by (simp_all add: at_def)
  obtain off len where k: "kind (threads s ! t) = Reader off len" using at_reader_kind [OF at] by auto
  from wait_check_pc [OF bad t(1)] obtain x where x: "threads (wait_check t a s) = (threads s)[t := x]"
    "kind x = kind (threads s ! t)" "pc x = R_wait a \<or> pc x = R_relock \<or> (\<exists>r. pc x = R_ret r) \<or> (\<exists>l. pc x = R_bgdl l)"
    by auto
  have "step_locks cs n t (Go flt) s (wait_check t a s) = Lock (Dl_lock n) # wait_locks n (pc x)"
    using t x(1) by (simp add: step_locks_def Let_def)
  then show ?thesis
    using wait_edge(2) [OF x(3), of cs n a] t by (intro follows_reader [OF x(1) k x(2)]) simp
qed

lemma relock_follows:
  assumes at: "at t R_relock s"
  shows "follows cs n t (step_locks cs n t (Go flt) s (st_relock t flt s)) s (st_relock t flt s)"
proof -
  have t: "t < length (threads s)" "pc (threads s ! t) = R_relock" using at by (simp_all add: at_def)
  obtain off len where k: "kind (threads s ! t) = Reader off len" using at_reader_kind [OF at] by auto
  let ?o = "dl_offset_of s (cur (threads s ! t))"
  show ?thesis
  proof (cases "Seg_exist (cache s) ?o \<noteq> 0")
    case True
    then have "st_relock t flt s = read_cached t flt (lock_w t s)" by (simp add: st_relock_def Let_def)
    moreover have "step_locks cs n t (Go flt) s (st_relock t flt s) = [Lock (W_lock n), Data_read_locks n, Unlock (W_lock n)]"
      using True t by (simp add: step_locks_def Let_def)
    ultimately show ?thesis using t k edge_left_cached by (auto intro!: follows_read_cached below_Cons)
  next
    case False
    then have "st_relock t flt s = goto_pc t R_syncdl (lock_w t s)" by (simp add: st_relock_def Let_def)
    moreover have "step_locks cs n t (Go flt) s (st_relock t flt s) = [Lock (W_lock n)]"
      using False t by (simp add: step_locks_def Let_def)
    ultimately show ?thesis using t k edge_relock
      by (intro follows_reader [where x = "(threads s ! t)\<lparr>pc := R_syncdl\<rparr>"]) (auto intro: below_Cons)
  qed
qed

text \<open>A step that only moves the program counter.\<close>

lemma follows_goto:
  assumes "at t p s" "\<not> worker_pc p" "threads s' = (threads s)[t := (threads s ! t)\<lparr>pc := q\<rparr>]"
    and "below (reader_at cs n p @ ops) (reader_at cs n q)"
  shows "follows cs n t ops s s'"
proof -
  obtain off len where "kind (threads s ! t) = Reader off len" using at_reader_kind [OF assms(1,2)] by auto
  from follows_reader [OF assms(3) this] assms show ?thesis by (simp add: at_def)
qed

lemma trysem_follows:
  assumes "at t R_trysem s"
  shows "follows cs n t (step_locks cs n t (Go flt) s (st_trysem t s)) s (st_trysem t s)"
  by (rule follows_goto [OF assms, where q = "if fst (sem_trywait (bgt_sem (cache s))) = 0 then R_bgadd else R_syncdl"])
    (use assms edge_no_slot in \<open>auto simp: st_trysem_def at_def step_locks_def Let_def intro: below_Cons split: prod.split\<close>)

lemma bgadd_follows:
  assumes "at t R_bgadd s"
  shows "follows cs n t (step_locks cs n t (Go flt) s (st_bgadd t s)) s (st_bgadd t s)"
  by (rule follows_goto [OF assms,
        where q = "if ActiveDownload_find s (dl_offset_of s (cur (threads s ! t))) = None then R_launch else R_syncdl"])
    (use assms edge_slot_back in \<open>auto simp: st_bgadd_def at_def step_locks_def Let_def intro: below_Cons split: option.split\<close>)

lemma launch_follows:
  assumes "at t R_launch s"
  shows "follows cs n t (step_locks cs n t (Go flt) s (st_launch t s)) s (st_launch t s)"
  by (rule follows_goto [OF assms, where q = R_create]) (use assms in \<open>auto simp: st_launch_def at_def step_locks_def Let_def\<close>)

lemma syncdl_follows:
  assumes "at t R_syncdl s"
  shows "follows cs n t (step_locks cs n t (Go flt) s (st_syncdl t s)) s (st_syncdl t s)"
  by (rule follows_goto [OF assms,
        where q = "if ActiveDownload_find s (dl_offset_of s (cur (threads s ! t))) = None then L_attach else R_retry"])
    (use assms in \<open>auto simp: st_syncdl_def at_def step_locks_def Let_def edge_found intro!: below_Cons below_skip_loop split: option.split\<close>)

lemma create_follows:
  assumes at: "at t R_create s"
  shows "follows cs n t (step_locks cs n t (Go flt) s (st_create t s)) s (st_create t s)"
proof -
  have t: "t < length (threads s)" "pc (threads s ! t) = R_create" using at by (simp_all add: at_def)
  obtain off len where k: "kind (threads s ! t) = Reader off len" using at_reader_kind [OF at] by auto
  have "step_locks cs n t (Go flt) s (st_create t s) = [Unlock (W_lock n)]" using t by (simp add: step_locks_def Let_def)
  then show ?thesis unfolding follows_def using t k
    by (intro exI [of _ "(threads s ! t)\<lparr>pc := R_retry\<rparr>"] exI [of _ "[new_thread (Worker (dl_offset_of s (cur (threads s ! t)))) L_attach (dl_offset_of s (cur (threads s ! t))) 0]"])
      (auto simp: st_create_def spawn_worker_def thread_at_def new_thread_def intro!: below_Cons edge_create)
qed

text \<open>The read-ahead and the end of a round.\<close>

lemma bgdl_follows:
  assumes "at t (R_bgdl send) s"
  shows "follows cs n t (step_locks cs n t (Go flt) s (st_bgdl t send s)) s (st_bgdl t send s)"
proof -
  let ?q = "if next_offset s t < flen s \<and> Seg_exist (cache s) (next_offset s t) = 0 then R_bgdl2 send else R_ret send"
  let ?ops = "if next_offset s t < flen s then [Lock (W_lock n), Unlock (W_lock n)] else []"
  have m: "below ([retries n, answers cs n] @ ?ops) [retries n, answers cs n, maybe (locked (W_lock n) [])]"
    by (cases "next_offset s t < flen s")
      (simp, intro below_Cons below_maybe, simp add: locked_def, simp, intro below_Cons below_skip_maybe below_refl)
  have "below (reader_at cs n (R_bgdl send) @ ?ops) (reader_at cs n ?q)"
    using m below_trans [OF m edge_no_ahead] by (auto split: if_splits)
  then show ?thesis
    by (intro follows_goto [OF assms, where q = ?q]) (use assms in \<open>simp_all add: st_bgdl_def at_def step_locks_def Let_def\<close>)
qed

lemma bgdl2_follows:
  assumes "at t (R_bgdl2 send) s"
  shows "follows cs n t (step_locks cs n t (Go flt) s (st_bgdl2 t send s)) s (st_bgdl2 t send s)"
  by (rule follows_goto [OF assms, where q = "if fst (sem_trywait (bgt_sem (cache s))) = 0 then R_bgdl3 send else R_ret send"])
    (use assms edge_no_ahead in \<open>auto simp: st_bgdl2_def at_def step_locks_def Let_def split: prod.split\<close>)

lemma bgdl3_follows:
  assumes "at t (R_bgdl3 send) s"
  shows "follows cs n t (step_locks cs n t (Go flt) s (st_bgdl3 t send s)) s (st_bgdl3 t send s)"
  by (rule follows_goto [OF assms, where q = "if Seg_exist (cache s) (next_offset s t) = 0 \<and> ActiveDownload_find s (next_offset s t) = None
        then R_bglaunch send else R_ret send"])
    (use assms edge_ahead_found in \<open>auto simp: st_bgdl3_def at_def step_locks_def Let_def\<close>)

lemma bglaunch_follows:
  assumes "at t (R_bglaunch send) s"
  shows "follows cs n t (step_locks cs n t (Go flt) s (st_bglaunch t send s)) s (st_bglaunch t send s)"
  by (rule follows_goto [OF assms, where q = "R_bgcreate send"])
    (use assms in \<open>auto simp: st_bglaunch_def at_def step_locks_def Let_def\<close>)

lemma bgcreate_follows:
  assumes at: "at t (R_bgcreate send) s"
  shows "follows cs n t (step_locks cs n t (Go flt) s (st_bgcreate t send s)) s (st_bgcreate t send s)"
proof -
  have t: "t < length (threads s)" "pc (threads s ! t) = R_bgcreate send" using at by (simp_all add: at_def)
  obtain off len where k: "kind (threads s ! t) = Reader off len" using at_reader_kind [OF at] by auto
  have "step_locks cs n t (Go flt) s (st_bgcreate t send s) = []" using t by (simp add: step_locks_def Let_def)
  then show ?thesis unfolding follows_def using t k edge_ahead
    by (intro exI [of _ "(threads s ! t)\<lparr>pc := R_ret send\<rparr>"] exI [of _ "[new_thread (Worker (next_offset s t)) L_attach (next_offset s t) 0]"])
      (auto simp: st_bgcreate_def spawn_worker_def thread_at_def new_thread_def intro: below_Cons)
qed

lemma ret_follows:
  assumes at: "at t (R_ret send) s"
  shows "follows cs n t (step_locks cs n t (Go flt) s (st_ret t send s)) s (st_ret t send s)"
proof -
  have t: "t < length (threads s)" "pc (threads s ! t) = R_ret send" using at by (simp_all add: at_def)
  obtain off len where k: "kind (threads s ! t) = Reader off len" using at_reader_kind [OF at] by auto
  have ops: "step_locks cs n t (Go flt) s (st_ret t send s) = []" using t by (simp add: step_locks_def Let_def)
  have "\<exists>x. threads (st_ret t send s) = (threads s)[t := x] \<and> kind x = kind (threads s ! t) \<and> (pc x = R_retry \<or> (\<exists>r. pc x = Finished r))"
    by (auto simp: st_ret_def Let_def intro: exI)
  then obtain x where x: "threads (st_ret t send s) = (threads s)[t := x]" "kind x = kind (threads s ! t)"
    "pc x = R_retry \<or> (\<exists>r. pc x = Finished r)" by blast
  let ?seg = "Loop (Cache_read_segment_locks cs n)"
  have "below [?seg] [?seg, retries n]" unfolding retries_def by (rule below_Cons, rule below_skip_loop) simp
  with below_trans [OF edge_segment] have "below [?seg, Cache_read_segment_locks cs n] (?seg # reader_at cs n (pc x))"
    using x(3) edge_segment by auto
  then show ?thesis unfolding follows_def ops using t k x by (intro exI [of _ x] exI [of _ "[]"]) (auto simp: thread_at_def)
qed

text \<open>\<open>Link_download\<close>, in a reader or in a worker.\<close>

lemma download_parts:
  "in_download p \<Longrightarrow> reader_at cs n p = [retries n, to_sync_dl_locks n, dl_section n, Unlock (W_lock n)] @ download_at cs n p"
  "in_download p \<Longrightarrow> worker_at cs n p = download_at cs n p"
  by (cases p; simp)+

lemma follows_download:
  assumes "threads s' = (threads s)[t := x]" "kind x = kind (threads s ! t)"
    and "in_download (pc (threads s ! t))" "in_download (pc x)"
    and "below (download_at cs n (pc (threads s ! t)) @ ops) (download_at cs n (pc x))"
  shows "follows cs n t ops s s'"
proof (cases "kind (threads s ! t)")
  case (Reader off len)
  show ?thesis
    by (rule follows_reader [OF assms(1) Reader assms(2)])
      (unfold download_parts(1) [OF assms(3)] download_parts(1) [OF assms(4)] append_assoc, rule below_left, rule assms(5))
next
  case (Worker off)
  show ?thesis
    by (rule follows_worker [OF assms(1) Worker assms(2)])
      (unfold download_parts(2) [OF assms(3)] download_parts(2) [OF assms(4)], rule assms(5))
qed

lemma attach_follows:
  assumes at: "at t L_attach s" and bad: "\<not> bad (st_attach t s)"
  shows "follows cs n t (step_locks cs n t (Go flt) s (st_attach t s)) s (st_attach t s)"
proof -
  have t: "t < length (threads s)" "pc (threads s ! t) = L_attach" using at by (simp_all add: at_def)
  have "\<exists>x. threads (st_attach t s) = (threads s)[t := x] \<and> kind x = kind (threads s ! t) \<and> (pc x = L_recv \<or> pc x = D_done 0)"
    using bad unfolding st_attach_def Let_def by (auto simp: intro: exI split: option.splits if_splits)
  then obtain x where x: "threads (st_attach t s) = (threads s)[t := x]" "kind x = kind (threads s ! t)"
    "pc x = L_recv \<or> pc x = D_done 0" by blast
  have "step_locks cs n t (Go flt) s (st_attach t s) = (if pc x = L_recv then [dl_section n] else [])"
    using t x(1) by (simp add: step_locks_def Let_def)
  then have "below (download_at cs n L_attach @ step_locks cs n t (Go flt) s (st_attach t s)) (download_at cs n (pc x))"
    using x(3) attempts_download by auto
  then show ?thesis by (intro follows_download [OF x(1,2)]) (use t x(3) in auto)
qed

lemma fin_follows:
  assumes at: "at t (L_fin r) s"
  shows "follows cs n t (step_locks cs n t (Go flt) s (st_fin t r s)) s (st_fin t r s)"
proof -
  have t: "t < length (threads s)" "pc (threads s ! t) = L_fin r" using at by (simp_all add: at_def)
  have "\<exists>x. threads (st_fin t r s) = (threads s)[t := x] \<and> kind x = kind (threads s ! t) \<and> (pc x = L_attach \<or> (\<exists>d. pc x = D_done d))"
    using t unfolding st_fin_def Let_def by (auto intro: exI)
  then obtain x where x: "threads (st_fin t r s) = (threads s)[t := x]" "kind x = kind (threads s ! t)"
    "pc x = L_attach \<or> (\<exists>d. pc x = D_done d)" by blast
  have ops: "step_locks cs n t (Go flt) s (st_fin t r s) = [dl_section n]" using t by (simp add: step_locks_def Let_def)
  have "below (download_at cs n (L_fin r) @ [dl_section n]) (download_at cs n (pc x))"
    using x(3) attempt_ends [of cs n r] below_trans [OF attempt_ends attempts_download, of cs n r] by auto
  then show ?thesis unfolding ops by (intro follows_download [OF x(1,2)]) (use t x(3) in auto)
qed

lemma transfer_follows:
  assumes at: "at t L_recv s"
  shows "follows cs n t (step_locks cs n t (Chunk c) s (st_chunk t c s)) s (st_chunk t c s)"
    and "follows cs n t (step_locks cs n t (Complete resp m) s (goto_pc t (L_fin r) s)) s (goto_pc t (L_fin r) s)"
proof -
  have t: "t < length (threads s)" "pc (threads s ! t) = L_recv" using at by (simp_all add: at_def)
  show "follows cs n t (step_locks cs n t (Chunk c) s (st_chunk t c s)) s (st_chunk t c s)"
    unfolding st_chunk_def Let_def
    by (rule follows_download [where x = "(threads s ! t)\<lparr>tdata := Some ((case tdata (threads s ! t) of Some d \<Rightarrow> d | None \<Rightarrow> []) @ c)\<rparr>"])
      (use t in \<open>simp_all add: step_locks_def\<close>)
  show "follows cs n t (step_locks cs n t (Complete resp m) s (goto_pc t (L_fin r) s)) s (goto_pc t (L_fin r) s)"
    by (rule follows_download [where x = "(threads s ! t)\<lparr>pc := L_fin r\<rparr>"]) (use t in \<open>simp_all add: step_locks_def\<close>)
qed

lemma sync_done_follows:
  assumes at: "at t (D_done recv) s" and k: "kind (threads s ! t) = Reader off len"
  shows "follows cs n t (step_locks cs n t (Go flt) s (st_sync_done t flt recv s)) s (st_sync_done t flt recv s)"
proof -
  have t: "t < length (threads s)" "pc (threads s ! t) = D_done recv" using at by (simp_all add: at_def)
  let ?o = "dl_offset_of s (cur (threads s ! t))"
  let ?store = "0 \<le> recv \<and> full_or_last s recv ?o \<and> cur (threads s ! t) - ?o + seg_len s (threads s ! t) \<le> recv"
  have ops: "step_locks cs n t (Go flt) s (st_sync_done t flt recv s) =
      [Lock (W_lock n)] @ (if ?store then [Data_write_locks n] else []) @ [dl_section n, Unlock (W_lock n)]"
    using t k by (simp add: step_locks_def Let_def)
  have "\<exists>x. threads (st_sync_done t flt recv s) = (threads s)[t := x] \<and> kind x = kind (threads s ! t) \<and>
      ((\<exists>r. pc x = R_ret r) \<or> (\<exists>r. pc x = R_bgdl r))"
    unfolding st_sync_done_def Let_def by (auto intro: exI)
  then obtain x where x: "threads (st_sync_done t flt recv s) = (threads s)[t := x]" "kind x = kind (threads s ! t)"
    "(\<exists>r. pc x = R_ret r) \<or> (\<exists>r. pc x = R_bgdl r)" by blast
  have a: "below (reader_at cs n (D_done recv) @ [Lock (W_lock n)] @ (if ?store then [Data_write_locks n] else []) @
      [dl_section n, Unlock (W_lock n)]) [retries n, answers cs n]"
    using edge_sync_done edge_sync_stored by (cases ?store) (simp_all add: below_Cons)
  with below_trans [OF a edge_answers] x(3) show ?thesis unfolding ops
    by (intro follows_reader [OF x(1) k x(2)]) (auto simp: t)
qed

lemma worker_follows:
  assumes at: "at t p s" and k: "kind (threads s ! t) = Worker off"
  shows "p = D_done recv \<Longrightarrow>
      follows cs n t (step_locks cs n t (Go flt) s (st_bg_done t flt recv off s)) s (st_bg_done t flt recv off s)"
    and "p = B_remove \<Longrightarrow>
      follows cs n t (step_locks cs n t (Go flt) s (st_bg_remove t off s)) s (st_bg_remove t off s)"
    and "p = B_post \<Longrightarrow> follows cs n t (step_locks cs n t (Go flt) s (st_bg_post t s)) s (st_bg_post t s)"
proof -
  have t: "t < length (threads s)" "pc (threads s ! t) = p" using at by (simp_all add: at_def)
  show "follows cs n t (step_locks cs n t (Go flt) s (st_bg_done t flt recv off s)) s (st_bg_done t flt recv off s)"
    if p: "p = D_done recv"
    by (rule follows_worker [OF _ k, where x = "(threads s ! t)\<lparr>pc := if recv < 0 then B_post else B_remove\<rparr>"])
      (use t k p edge_worker in \<open>auto simp: st_bg_done_def step_locks_def Let_def\<close>)
  show "follows cs n t (step_locks cs n t (Go flt) s (st_bg_remove t off s)) s (st_bg_remove t off s)" if p: "p = B_remove"
    by (rule follows_worker [OF _ k, where x = "(threads s ! t)\<lparr>pc := B_post\<rparr>"])
      (use t k p edge_worker in \<open>auto simp: st_bg_remove_def step_locks_def Let_def\<close>)
  show "follows cs n t (step_locks cs n t (Go flt) s (st_bg_post t s)) s (st_bg_post t s)" if p: "p = B_post"
    by (rule follows_worker [OF _ k, where x = "(threads s ! t)\<lparr>pc := B_exit\<rparr>"])
      (use t k p in \<open>auto simp: st_bg_post_def step_locks_def Let_def\<close>)
qed

lemma step_follows:
  assumes inv: "cinv s" and step: "step_thread t ev s = Some s'"
  shows "follows cs n t (step_locks cs n t ev s s') s s'"
proof -
  have tl: "t < length (threads s)" using step by (auto simp: step_thread_def split: if_splits)
  have at: "at t (pc (threads s ! t)) s" by (rule cinv_at [OF inv tl])
  have good: "\<not> bad s'" by (rule cinv_not_bad [OF cinv_step [OF inv step]])
  show ?thesis
  proof (cases ev)
    case (Chunk c)
    with step have p: "pc (threads s ! t) = L_recv" "s' = st_chunk t c s"
      by (auto simp: step_thread_def Let_def split: if_splits)
    with at Chunk transfer_follows(1) show ?thesis by simp
  next
    case (Complete resp m)
    with step have "pc (threads s ! t) = L_recv" "s' = goto_pc t (L_fin (Link_download_cleanup resp m)) s"
      by (auto simp: step_thread_def Let_def split: if_splits)
    with at Complete transfer_follows(2) show ?thesis by simp
  next
    case (Go flt)
    note e = step [unfolded Go step_thread_def Let_def]
    show ?thesis
    proof (cases "pc (threads s ! t)")
      case R_retry
      with e have "s' = st_retry t flt s" by (auto split: if_splits)
      with at R_retry good retry_follows Go show ?thesis by simp
    next
      case R_trysem
      with e have "s' = st_trysem t s" by (auto split: if_splits)
      with at R_trysem trysem_follows Go show ?thesis by simp
    next
      case R_bgadd
      with e have "s' = st_bgadd t s" by (auto split: if_splits)
      with at R_bgadd bgadd_follows Go show ?thesis by simp
    next
      case R_launch
      with e have "s' = st_launch t s" by (auto split: if_splits)
      with at R_launch launch_follows Go show ?thesis by simp
    next
      case R_create
      with e have "s' = st_create t s" by (auto split: if_splits)
      with at R_create create_follows Go show ?thesis by simp
    next
      case R_syncdl
      with e have "s' = st_syncdl t s" by (auto split: if_splits)
      with at R_syncdl syncdl_follows Go show ?thesis by simp
    next
      case (R_wait a)
      with e have "s' = wait_check t a s" by (auto split: if_splits)
      with at R_wait good wait_follows Go show ?thesis by simp
    next
      case R_relock
      with e have "s' = st_relock t flt s" by (auto split: if_splits)
      with at R_relock relock_follows Go show ?thesis by simp
    next
      case L_attach
      with e have "s' = st_attach t s" by (auto split: if_splits)
      with at L_attach good attach_follows Go show ?thesis by simp
    next
      case (L_fin r)
      with e have "s' = st_fin t r s" by (auto split: if_splits)
      with at L_fin fin_follows Go show ?thesis by simp
    next
      case (D_done r)
      show ?thesis
      proof (cases "kind (threads s ! t)")
        case (Reader off len)
        with e D_done have "s' = st_sync_done t flt r s" by (auto split: if_splits)
        with at D_done Reader sync_done_follows Go show ?thesis by simp
      next
        case (Worker off)
        with e D_done have "s' = st_bg_done t flt r off s" by (auto split: if_splits)
        with at D_done worker_follows(1) [OF _ Worker] Go show ?thesis by simp
      qed
    next
      case (R_bgdl r)
      with e have "s' = st_bgdl t r s" by (auto split: if_splits)
      with at R_bgdl bgdl_follows Go show ?thesis by simp
    next
      case (R_bgdl2 r)
      with e have "s' = st_bgdl2 t r s" by (auto split: if_splits)
      with at R_bgdl2 bgdl2_follows Go show ?thesis by simp
    next
      case (R_bgdl3 r)
      with e have "s' = st_bgdl3 t r s" by (auto split: if_splits)
      with at R_bgdl3 bgdl3_follows Go show ?thesis by simp
    next
      case (R_bglaunch r)
      with e have "s' = st_bglaunch t r s" by (auto split: if_splits)
      with at R_bglaunch bglaunch_follows Go show ?thesis by simp
    next
      case (R_bgcreate r)
      with e have "s' = st_bgcreate t r s" by (auto split: if_splits)
      with at R_bgcreate bgcreate_follows Go show ?thesis by simp
    next
      case (R_ret r)
      with e have "s' = st_ret t r s" by (auto split: if_splits)
      with at R_ret ret_follows Go show ?thesis by simp
    next
      case B_remove
      then obtain off where k: "kind (threads s ! t) = Worker off" using at by (cases "kind (threads s ! t)") (auto simp: at_def valid_def)
      with e B_remove have "s' = st_bg_remove t off s" by (auto split: if_splits)
      with at B_remove worker_follows(2) [OF _ k] Go show ?thesis by simp
    next
      case B_post
      then obtain off where k: "kind (threads s ! t) = Worker off" using at by (cases "kind (threads s ! t)") (auto simp: at_def valid_def)
      from e B_post have "s' = st_bg_post t s" by (auto split: if_splits)
      with at B_post worker_follows(3) [OF _ k] Go show ?thesis by simp
    qed (use e in \<open>auto split: if_splits\<close>)
  qed
qed

section \<open>The locks that are held\<close>

lemma chk_sections [simp]:
  "Dl_lock n \<notin> set H \<Longrightarrow> \<forall>m \<in> set H. rank m < 5 \<Longrightarrow> chk (dl_section n) H = Some H"
  "chk (Data_read_locks n) [W_lock n] = Some [W_lock n]" "chk (Data_write_locks n) [W_lock n] = Some [W_lock n]"
  by (simp_all add: dl_section_def Data_read_locks_def Data_write_locks_def lock_defs)

lemma chk_loops [simp]:
  "chk (retries n) [] = Some []" "chk (answers cs n) [] = Some []" "chk (Cache_read_segment_locks cs n) [] = Some []"
  "chk (attempt_locks cs n) [] = Some []"
proof -
  show r: "chk (retries n) [] = Some []" by (simp add: retries_def retry_locks_def lock_defs)
  have s: "chk (sync_dl_locks cs n) [W_lock n] = Some []" by (simp add: sync_dl_locks_def lock_defs)
  show a: "chk (answers cs n) [] = Some []" unfolding answers_def using s by (intro chk_any_of) (simp add: lock_defs)
  show "chk (Cache_read_segment_locks cs n) [] = Some []" using r a by (simp add: Cache_read_segment_answers maybe_def)
  show "chk (attempt_locks cs n) [] = Some []" by (simp add: attempt_locks_def)
qed

lemma held_at:
  assumes "valid th"
  shows "chks (thread_at cs n th) [] = Some (if holds_w th then [W_lock n] else [])"
proof (cases "kind th")
  case (Reader off len)
  with assms show ?thesis by (cases "pc th") (simp_all add: valid_def thread_at_def holds_w_def lock_defs)
next
  case (Worker off)
  with assms show ?thesis by (cases "pc th") (simp_all add: valid_def thread_at_def holds_w_def lock_defs)
qed

text \<open>A step that may run while another thread has \<open>w_lock\<close> does not ask for it.\<close>

lemma transfer_never_takes: "never_takes (W_lock n) curl_call" "never_takes (W_lock n) (transfer_blocking_locks cs)"
proof -
  show c: "never_takes (W_lock n) curl_call" by (simp add: curl_call_def lock_defs)
  have "never_takes (W_lock n) (curl_multi_perform_once_locks cs)"
    using c by (auto simp: curl_multi_perform_once_locks_def write_memory_callback_locks_def lock_defs list_all_iff)
  with c show "never_takes (W_lock n) (transfer_blocking_locks cs)" by (simp add: transfer_blocking_locks_def lock_defs)
qed

lemma step_never_takes:
  assumes "step_thread t ev s = Some s'" "\<not> needs_w (threads s ! t)"
  shows "list_all (never_takes (W_lock n)) (step_locks cs n t ev s s')"
proof (cases ev)
  case (Go flt)
  with assms(2) show ?thesis
    by (cases "pc (threads s ! t)"; cases "kind (threads s ! t)")
      (auto simp: step_locks_def Let_def needs_w_def sections wait_locks_def split: pc.splits)
qed (use transfer_never_takes in \<open>simp_all add: step_locks_def\<close>)

section \<open>Traces of the detailed model\<close>

inductive traced :: "nat list \<Rightarrow> nat \<Rightarrow> dl \<Rightarrow> (nat \<times> lock_op) list \<Rightarrow> dl \<Rightarrow> bool" for cs n s0 where
  traced_start: "traced cs n s0 [] s0"
| traced_read: "traced cs n s0 G s \<Longrightarrow> traced cs n s0 G (start_read len off s)"
| traced_step: "traced cs n s0 G s \<Longrightarrow> step_thread t ev s = Some s' \<Longrightarrow> w \<in> langs (step_locks cs n t ev s s') \<Longrightarrow>
    traced cs n s0 (G @ map (Pair t) w) s'"

lemma traced_reachable: "traced cs n s0 G s \<Longrightarrow> dl_reachable s0 s"
proof (induction rule: traced.induct)
  case (traced_read G s len off)
  from dl_next [OF traced_read.IH, of "Read len off"] show ?case by (simp add: dl_move_def)
next
  case (traced_step G s t ev s' w)
  from dl_next [OF traced_step.IH, of "Step t ev"] traced_step.hyps(2) show ?case by (simp add: dl_move_def)
qed (rule dl_here)

lemma reachable_traced: "dl_reachable s0 s \<Longrightarrow> \<exists>G. traced cs n s0 G s"
proof (induction rule: dl_reachable.induct)
  case dl_here
  show ?case by (rule exI) (rule traced_start)
next
  case (dl_next s m s')
  then obtain G where G: "traced cs n s0 G s" by blast
  show ?case
  proof (cases m)
    case (Read len off)
    with dl_next.hyps(2) traced_read [OF G] show ?thesis by (auto simp: dl_move_def)
  next
    case (Step t ev)
    with dl_next.hyps(2) have "step_thread t ev s = Some s'" by (simp add: dl_move_def)
    with traced_step [OF G] langs_nonempty show ?thesis by blast
  qed
qed

text \<open>What each thread has done fits where it is.\<close>

definition fits :: "nat list \<Rightarrow> nat \<Rightarrow> (nat \<times> lock_op) list \<Rightarrow> dl \<Rightarrow> bool" where
  "fits cs n G s \<longleftrightarrow> (\<forall>t. if t < length (threads s) then part t G \<in> langs (thread_at cs n (threads s ! t)) else part t G = [])"

lemma fits_start: "fits cs n [] (dl_init cf lk fs)"
  by (simp add: fits_def dl_init_def)

lemma fits_read:
  assumes "fits cs n G s"
  shows "fits cs n G (start_read len off s)"
proof -
  let ?x = "Cache_read_start len off s"
  have "kind ?x = Reader off len" "pc ?x = R_retry \<or> (\<exists>r. pc ?x = Finished r)"
    by (auto simp: Cache_read_start_def new_thread_def Let_def)
  then have "[] \<in> langs (thread_at cs n ?x)" by (auto simp: thread_at_def retries_def conc_def)
  with assms show ?thesis by (auto simp: fits_def start_read_def nth_append)
qed

lemma fits_step:
  assumes fits: "fits cs n G s" and f: "follows cs n t ops s s'" and t: "t < length (threads s)" and w: "w \<in> langs ops"
  shows "fits cs n (G @ map (Pair t) w) s'"
proof -
  obtain x ys where th: "threads s' = (threads s)[t := x] @ ys" and ys: "\<forall>y \<in> set ys. \<exists>off. kind y = Worker off \<and> pc y = L_attach"
    and b: "below (thread_at cs n (threads s ! t) @ ops) (thread_at cs n x)"
    using f unfolding follows_def by (elim exE conjE)
  have "part t G \<in> langs (thread_at cs n (threads s ! t))" using fits t unfolding fits_def by (metis (full_types))
  with w have "part t G @ w \<in> langs (thread_at cs n (threads s ! t) @ ops)" by (auto simp: langs_append)
  with b have x: "part t G @ w \<in> langs (thread_at cs n x)" unfolding below_def by blast
  have new: "[] \<in> langs (thread_at cs n y)" if y: "y \<in> set ys" for y
  proof -
    from bspec [OF ys y] obtain off where "kind y = Worker off" "pc y = L_attach" by blast
    then have "thread_at cs n y = [Loop (attempt_locks cs n)]" by (simp add: thread_at_def)
    then show ?thesis by (simp add: star_Nil)
  qed
  show ?thesis unfolding fits_def
  proof
    fix u
    consider "u = t" | "u \<noteq> t" "u < length (threads s)" | "length (threads s) \<le> u" "u < length (threads s')" | "length (threads s') \<le> u"
      by linarith
    then show "if u < length (threads s') then part u (G @ map (Pair t) w) \<in> langs (thread_at cs n (threads s' ! u))
      else part u (G @ map (Pair t) w) = []"
    proof cases
      case 1
      with t x show ?thesis by (simp add: th nth_append)
    next
      case 2
      with fits show ?thesis by (auto simp: fits_def th nth_append)
    next
      case 3
      then have "threads s' ! u \<in> set ys" by (simp add: th nth_append)
      moreover have "part u G = []" using fits 3(1) unfolding fits_def by (metis leD)
      ultimately show ?thesis using 3 t new by simp
    next
      case 4
      then have "\<not> u < length (threads s)" by (simp add: th)
      then have "part u G = []" using fits unfolding fits_def by metis
      with 4 \<open>\<not> u < length (threads s)\<close> t show ?thesis by auto
    qed
  qed
qed

lemma traced_fits:
  assumes "traced cs n (dl_init cf lk fs) G s" "fresh_cache cf"
  shows "fits cs n G s"
  using assms(1)
proof (induction rule: traced.induct)
  case (traced_step G s t ev s' w)
  have "cinv s" by (rule cinv_from_init [OF traced_reachable [OF traced_step.hyps(1)] assms(2)])
  then have "follows cs n t (step_locks cs n t ev s s') s s'" by (rule step_follows [OF _ traced_step.hyps(2)])
  moreover have "t < length (threads s)" using traced_step.hyps(2) by (auto simp: step_thread_def split: if_splits)
  ultimately show ?case by (rule fits_step [OF traced_step.IH _ _ traced_step.hyps(3)])
qed (auto intro: fits_start fits_read)

text \<open>From every program counter a call can be brought to its end.\<close>

definition completable :: "nat list \<Rightarrow> nat \<Rightarrow> prog list \<Rightarrow> bool" where
  "completable cs n a \<longleftrightarrow> (\<exists>r. below (a @ r) [Cache_read_segment_locks cs n])"

lemma completable_step: "below (a @ ops) b \<Longrightarrow> completable cs n b \<Longrightarrow> completable cs n a"
  unfolding completable_def using below_right [of "a @ ops" b] below_trans by (metis append.assoc)

lemma completable_parts:
  "completable cs n [retries n, answers cs n]" "completable cs n [retries n]"
  "completable cs n [retries n, Lock (W_lock n), wait_on_locks n]" "completable cs n [retries n, to_sync_dl_locks n]"
proof -
  show a: "completable cs n [retries n, answers cs n]" unfolding completable_def using edge_answers by (intro exI [of _ "[]"]) simp
  show "completable cs n [retries n]" by (rule completable_step [OF _ a, where ops = "[answers cs n]"]) simp
  show "completable cs n [retries n, Lock (W_lock n), wait_on_locks n]"
    by (rule completable_step [OF _ a, where ops = "[]"]) (simp add: below_Cons edge_left)
  show "completable cs n [retries n, to_sync_dl_locks n]"
    by (rule completable_step [OF _ a, where ops = "[dl_section n, Unlock (W_lock n), Link_download_locks cs (Some n), Lock (W_lock n), dl_section n, Unlock (W_lock n)]"])
      (simp add: below_Cons edge_sync_done)
qed

lemma download_completable:
  assumes "in_download p"
  shows "completable cs n (reader_at cs n p)" "\<exists>r. below (worker_at cs n p @ r) [Cache_bgdl_locks cs n]"
proof -
  have "\<exists>r. below (download_at cs n p @ r) [Link_download_locks cs (Some n)]"
  proof (cases p)
    case L_attach
    then show ?thesis using attempts_download by (intro exI [of _ "[]"]) simp
  next
    case L_recv
    then show ?thesis using below_trans [OF attempt_ends attempts_download, of cs n 0]
      by (intro exI [of _ "[curl_call, transfer_blocking_locks cs, curl_call, dl_section n]"]) simp
  next
    case (L_fin r)
    then show ?thesis using below_trans [OF attempt_ends attempts_download, of cs n r] by (intro exI [of _ "[dl_section n]"]) simp
  next
    case (D_done r)
    then show ?thesis by (intro exI [of _ "[]"]) simp
  qed (use assms in auto)
  then obtain r where r: "below (download_at cs n p @ r) [Link_download_locks cs (Some n)]" by blast
  let ?pre = "[retries n, to_sync_dl_locks n, dl_section n, Unlock (W_lock n)]"
  have "below (reader_at cs n p @ r) (?pre @ [Link_download_locks cs (Some n)])"
    using below_left [OF r, of ?pre] by (simp add: download_parts(1) [OF assms])
  moreover have "completable cs n (?pre @ [Link_download_locks cs (Some n)])"
    by (rule completable_step [OF _ completable_parts(1), where ops = "[Lock (W_lock n), dl_section n, Unlock (W_lock n)]"])
      (simp add: below_Cons edge_sync_done)
  ultimately show "completable cs n (reader_at cs n p)" by (rule completable_step)
  have "below ((worker_at cs n p @ r) @ [dl_section n]) [Cache_bgdl_locks cs n]"
    using below_trans [OF below_right [OF r, of "[dl_section n]", unfolded append.simps] edge_worker(1)]
    by (simp add: download_parts(2) [OF assms])
  then show "\<exists>r. below (worker_at cs n p @ r) [Cache_bgdl_locks cs n]" by (metis append.assoc)
qed

lemma reader_completable:
  assumes "reader_pc p" "\<And>r. p \<noteq> Finished r"
  shows "completable cs n (reader_at cs n p)"
proof -
  have [simp]: "completable cs n [Cache_read_segment_locks cs n]" unfolding completable_def by (intro exI [of _ "[]"]) simp
  note parts = completable_parts [of cs n]
  show ?thesis
  proof (cases p)
    case R_trysem
    show ?thesis unfolding R_trysem
      by (rule completable_step [OF _ parts(4), where ops = "[]"]) (simp add: below_Cons edge_no_slot)
  next
    case R_bgadd
    show ?thesis unfolding R_bgadd
      by (rule completable_step [OF _ parts(4), where ops = "[]"]) (simp add: below_Cons edge_no_slot)
  next
    case R_launch
    show ?thesis unfolding R_launch
      by (rule completable_step [OF _ parts(4), where ops = "[]"]) (simp add: below_Cons edge_slot_back)
  next
    case R_create
    show ?thesis unfolding R_create
      by (rule completable_step [OF _ parts(2), where ops = "[Unlock (W_lock n)]"]) (simp add: edge_create)
  next
    case (R_wait a)
    show ?thesis unfolding R_wait
      by (rule completable_step [OF _ parts(3), where ops = "[Lock (Dl_lock n), Unlock (Dl_lock n)]"]) (simp add: below_Cons edge_waited)
  next
    case (R_bgdl2 r)
    show ?thesis unfolding R_bgdl2 by (rule completable_step [where ops = "[]" and b = "[Cache_read_segment_locks cs n]"]) (simp_all add: edge_no_ahead)
  next
    case (R_bgdl3 r)
    show ?thesis unfolding R_bgdl3 by (rule completable_step [where ops = "[]" and b = "[Cache_read_segment_locks cs n]"]) (simp_all add: edge_no_ahead)
  next
    case (R_bglaunch r)
    show ?thesis unfolding R_bglaunch
      by (rule completable_step [where ops = "[]" and b = "[Cache_read_segment_locks cs n]"]) (simp_all add: edge_ahead_found)
  next
    case (R_bgcreate r)
    show ?thesis unfolding R_bgcreate
      by (rule completable_step [where ops = "[]" and b = "[Cache_read_segment_locks cs n]"]) (simp_all add: edge_ahead)
  qed (use assms parts download_completable(1) [of p] in auto)
qed

section \<open>The detailed model runs in the lock model\<close>

text \<open>What the threads are for \<open>LockOrder\<close>.\<close>

definition program_of :: "nat list \<Rightarrow> nat \<Rightarrow> thread \<Rightarrow> prog" where
  "program_of cs n th = (case kind th of Reader _ _ \<Rightarrow> fuse_thread cs | Worker _ \<Rightarrow> bgdl_thread cs n)"

lemma read_in_fuse:
  assumes "n \<in> set cs"
  shows "below [Cache_read_locks cs n] [fuse_thread cs]"
proof -
  have "below [Cache_read_locks cs n] [fs_read_locks cs n]"
    unfolding fs_read_locks_def by (rule below_any_of [where p = "Cache_read_locks cs n"]) simp_all
  then have "below [Cache_read_locks cs n] [any_of ([fs_getattr_locks cs, fs_opendir_locks cs, fs_releasedir_locks] @
     map (fs_open_locks cs) cs @ map (fs_read_locks cs) cs @ map fs_release_locks cs)]"
    by (rule below_any_of [rotated]) (simp add: imageI [OF assms])
  then show ?thesis unfolding fuse_thread_def by (rule below_loops [OF below_skip_loop])
qed

lemma thread_completable:
  assumes "valid th" "n \<in> set cs"
  shows "\<exists>r. below (thread_at cs n th @ r) [program_of cs n th]"
proof (cases "kind th")
  case (Reader off len)
  have "\<exists>r. below (thread_at cs n th @ r) [Cache_read_locks cs n]"
  proof (cases "\<exists>r. pc th = Finished r")
    case True
    then show ?thesis using Reader by (intro exI [of _ "[]"]) (auto simp: thread_at_def Cache_read_locks_def)
  next
    case False
    then have "completable cs n (reader_at cs n (pc th))"
      using assms(1) Reader by (intro reader_completable) (auto simp: valid_def)
    then obtain r where "below (reader_at cs n (pc th) @ r) [Cache_read_segment_locks cs n]" unfolding completable_def by blast
    from below_loop [OF this] Reader show ?thesis by (intro exI [of _ r]) (simp add: thread_at_def Cache_read_locks_def)
  qed
  then show ?thesis using below_trans [OF _ read_in_fuse [OF assms(2)]] Reader by (auto simp: program_of_def)
next
  case (Worker off)
  have "\<exists>r. below (worker_at cs n (pc th) @ r) [Cache_bgdl_locks cs n]"
  proof (cases "in_download (pc th)")
    case True
    then show ?thesis by (rule download_completable(2))
  next
    case False
    then have "pc th = B_remove \<or> pc th = B_post \<or> pc th = B_exit"
      using assms(1) Worker by (cases "pc th") (auto simp: valid_def)
    then show ?thesis
    proof (elim disjE)
      assume "pc th = B_remove"
      then show ?thesis using edge_worker(3) [of cs n] by (intro exI [of _ "[dl_section n]"]) simp
    qed (intro exI [of _ "[]"], simp)+
  qed
  then show ?thesis using Worker by (simp add: thread_at_def program_of_def bgdl_thread_def)
qed

text \<open>The owner of \<open>w_lock\<close> as the lock model sees it.\<close>

definition owners :: "nat \<Rightarrow> dl \<Rightarrow> lock_name \<Rightarrow> nat option" where
  "owners n s l = (if l = W_lock n then w_lock s else None)"

definition held_by :: "nat \<Rightarrow> dl \<Rightarrow> nat \<Rightarrow> lock_name list" where
  "held_by n s t = (if w_lock s = Some t then [W_lock n] else [])"

lemma part_replays:
  assumes "cinv s" "fits cs n G s"
  shows "replay (part t G) [] = Some (held_by n s t)"
proof (cases "t < length (threads s)")
  case True
  then have "part t G \<in> langs (thread_at cs n (threads s ! t))" using assms(2) unfolding fits_def by metis
  moreover have "valid (threads s ! t)" using assms(1) True by (simp add: cinv_def all_valid_def)
  moreover have "holds_w (threads s ! t) \<longleftrightarrow> w_lock s = Some t"
    using cinv_holds [OF assms(1) True] cinv_not_holds [OF assms(1)] by blast
  ultimately show ?thesis using chks_replay [OF _ held_at] by (simp add: held_by_def)
next
  case False
  then have "part t G = []" using assms(2) unfolding fits_def by metis
  moreover have "w_lock s \<noteq> Some t" using assms(1) False unfolding cinv_def CacheDlSafe.lock_ok_def by blast
  ultimately show ?thesis by (simp add: held_by_def)
qed

lemma step_owners:
  assumes inv: "cinv s" "cinv s'" and f: "follows cs n t ops s s'" and t: "t < length (threads s)"
  shows "owners_after t (held_by n s' t) (owners n s) = owners n s'"
proof -
  have ws: "w_lock x = Some u \<longleftrightarrow> u < length (threads x) \<and> holds_w (threads x ! u)" if "cinv x" for x u
    using that unfolding cinv_def CacheDlSafe.lock_ok_def by blast
  obtain x ys where th: "threads s' = (threads s)[t := x] @ ys" and ys: "\<forall>y \<in> set ys. \<exists>off. kind y = Worker off \<and> pc y = L_attach"
    using f unfolding follows_def by blast
  have other: "w_lock s' = Some u \<longleftrightarrow> w_lock s = Some u" if "u \<noteq> t" for u
  proof -
    have "\<not> holds_w (threads s' ! u)" if u: "u < length (threads s')" "\<not> u < length (threads s)"
    proof -
      from u have "threads s' ! u \<in> set ys" by (simp add: th nth_append)
      with ys show ?thesis by (auto simp: holds_w_def)
    qed
    moreover have "threads s' ! u = threads s ! u" if "u < length (threads s)" using \<open>u \<noteq> t\<close> that by (simp add: th nth_append)
    moreover have "length (threads s) \<le> length (threads s')" by (simp add: th)
    ultimately show ?thesis unfolding ws [OF inv(1)] ws [OF inv(2)] by (metis order_less_le_trans)
  qed
  have "owners_after t (held_by n s' t) (owners n s) l = owners n s' l" for l
  proof (cases "l = W_lock n")
    case True
    show ?thesis
    proof (cases "w_lock s'")
      case None
      have "w_lock s = None \<or> w_lock s = Some t"
      proof (cases "w_lock s")
        case (Some u)
        with None other [of u] show ?thesis by (cases "u = t") auto
      qed simp
      with None True show ?thesis by (auto simp: owners_after_def owners_def held_by_def)
    next
      case (Some u)
      with True other [of u] show ?thesis by (cases "u = t") (auto simp: owners_after_def owners_def held_by_def)
    qed
  next
    case False
    then show ?thesis by (simp add: owners_after_def owners_def held_by_def)
  qed
  then show ?thesis by blast
qed

text \<open>Given how the calls end, the trace so far is a run of the programs, with what is left of each.\<close>

lemma traced_runs:
  assumes "traced cs n (dl_init cf lk fs) G s" "fresh_cache cf"
    and "\<forall>t. \<exists>r. v t = part t G @ r" "\<forall>t. v t \<in> langs (progs t)"
  shows "\<exists>th. lock_trace (\<lambda>_. None, progs) G (owners n s, th) \<and> (\<forall>t. drop (length (part t G)) (v t) \<in> langs (th t))"
  using assms(1,3)
proof (induction rule: traced.induct)
  case traced_start
  have "owners n (dl_init cf lk fs) = (\<lambda>_. None)" by (simp add: owners_def dl_init_def fun_eq_iff)
  then show ?case using assms(4) by (intro exI [of _ progs]) (simp add: trace_here)
next
  case (traced_read G s len off)
  have "owners n (start_read len off s) = owners n s" by (simp add: owners_def start_read_def fun_eq_iff)
  with traced_read show ?case by simp
next
  case (traced_step G s t ev s' w)
  let ?G = "G @ map (Pair t) w"
  have inv: "cinv s" by (rule cinv_from_init [OF traced_reachable [OF traced_step.hyps(1)] assms(2)])
  have inv': "cinv s'" by (rule cinv_step [OF inv traced_step.hyps(2)])
  have f: "follows cs n t (step_locks cs n t ev s s') s s'" by (rule step_follows [OF inv traced_step.hyps(2)])
  have t: "t < length (threads s)" using traced_step.hyps(2) by (auto simp: step_thread_def split: if_splits)
  have fit: "fits cs n G s" by (rule traced_fits [OF traced_step.hyps(1) assms(2)])
  have fit': "fits cs n ?G s'" by (rule fits_step [OF fit f t traced_step.hyps(3)])
  have "\<forall>u. \<exists>r. v u = part u G @ r"
  proof
    fix u
    from traced_step.prems obtain r where "v u = part u ?G @ r" by blast
    then show "\<exists>r. v u = part u G @ r" by auto
  qed
  with traced_step.IH obtain th where th: "lock_trace (\<lambda>_. None, progs) G (owners n s, th)"
    "\<forall>u. drop (length (part u G)) (v u) \<in> langs (th u)" by blast
  from traced_step.prems obtain r where "v t = part t ?G @ r" by blast
  then have r: "v t = part t G @ w @ r" by simp
  then have word: "w @ r \<in> langs (th t)" using th(2) [rule_format, of t] by simp
  have before: "replay (part t G) [] = Some (held_by n s t)" by (rule part_replays [OF inv fit])
  have "replay (part t ?G) [] = Some (held_by n s' t)" by (rule part_replays [OF inv' fit'])
  then have w: "replay w (held_by n s t) = Some (held_by n s' t)" using before by (simp add: replay_append)
  have takes: "\<forall>l. Take l \<in> set w \<longrightarrow> owners n s l = None \<or> owners n s l = Some t"
  proof (intro allI impI)
    fix l
    assume l: "Take l \<in> set w"
    show "owners n s l = None \<or> owners n s l = Some t"
    proof (cases "l = W_lock n \<and> w_lock s \<noteq> None")
      case True
      then have "\<not> needs_w (threads s ! t)"
        using traced_step.hyps(2) by (auto simp: step_thread_def Let_def split: if_splits)
      from never_takes_langs [OF traced_step.hyps(3) step_never_takes [OF traced_step.hyps(2) this]] l True
      show ?thesis by blast
    qed (auto simp: owners_def)
  qed
  have "distinct (held_by n s t)" "set (held_by n s t) = {l. owners n s l = Some t}"
    by (auto simp: held_by_def owners_def split: if_splits)
  from trace_word [OF th(1) word this w takes] obtain k where
    k: "lock_trace (\<lambda>_. None, progs) ?G (owners_after t (held_by n s' t) (owners n s), th(t := k))" "r \<in> langs k" by blast
  have "drop (length (part u ?G)) (v u) \<in> langs ((th(t := k)) u)" for u
    using th(2) k(2) r by (cases "u = t") auto
  with k(1) show ?case unfolding step_owners [OF inv inv' f t] by blast
qed

text \<open>The call that a thread makes, without the loop of FUSE around it.\<close>

definition call_of :: "nat list \<Rightarrow> nat \<Rightarrow> thread \<Rightarrow> prog" where
  "call_of cs n th = (case kind th of Reader _ _ \<Rightarrow> Cache_read_locks cs n | Worker _ \<Rightarrow> Cache_bgdl_locks cs n)"

lemma ended_call: "ended th \<Longrightarrow> valid th \<Longrightarrow> langs (thread_at cs n th) = lang (call_of cs n th)"
  by (auto simp: ended_def valid_def thread_at_def call_of_def Cache_read_locks_def split: pc.splits kind.splits)

lemma runs_exist:
  assumes fresh: "fresh_cache cf" and n: "n \<in> set cs" and tr: "traced cs n (dl_init cf lk fs) G s"
  shows "\<exists>progs th. lock_start cs (\<lambda>_. None, progs) \<and> lock_trace (\<lambda>_. None, progs) G (owners n s, th) \<and>
    (\<forall>t < length (threads s). progs t = [program_of cs n (threads s ! t)])"
proof -
  have inv: "cinv s" by (rule cinv_from_init [OF traced_reachable [OF tr] fresh])
  have fit: "fits cs n G s" by (rule traced_fits [OF tr fresh])
  let ?progs = "\<lambda>t. if t < length (threads s) then [program_of cs n (threads s ! t)] else []"
  have "\<forall>t. \<exists>r. part t G @ r \<in> langs (?progs t)"
  proof
    fix t
    show "\<exists>r. part t G @ r \<in> langs (?progs t)"
    proof (cases "t < length (threads s)")
      case True
      then have "valid (threads s ! t)" using inv by (simp add: cinv_def all_valid_def)
      from thread_completable [OF this n] obtain k where
        k: "below (thread_at cs n (threads s ! t) @ k) [program_of cs n (threads s ! t)]" by blast
      obtain r where "r \<in> langs k" using langs_nonempty by blast
      moreover have "part t G \<in> langs (thread_at cs n (threads s ! t))" using fit True unfolding fits_def by metis
      ultimately have "part t G @ r \<in> langs (thread_at cs n (threads s ! t) @ k)" by (auto simp: langs_append)
      with k True show ?thesis unfolding below_def by (intro exI [of _ r]) auto
    next
      case False
      then have "part t G = []" using fit unfolding fits_def by metis
      with False show ?thesis by simp
    qed
  qed
  then obtain r where "\<forall>t. part t G @ r t \<in> langs (?progs t)" by metis
  then obtain th where "lock_trace (\<lambda>_. None, ?progs) G (owners n s, th)"
    using traced_runs [OF tr fresh, of "\<lambda>t. part t G @ r t" ?progs] by blast
  moreover have "lock_start cs (\<lambda>_. None, ?progs)"
    by (auto simp: lock_start_def program_of_def split: kind.split)
  ultimately show ?thesis by (intro exI [of _ ?progs] exI [of _ th]) simp
qed

section \<open>Properties\<close>

text \<open>
  C8.  The detailed model of the cached read and the lock model of the whole program agree.  In
  every reachable state of any number of readers and background downloads, what the threads have
  done to the mutexes so far, in the order of their steps, is a run of the lock model in which the
  readers are FUSE threads and the workers background downloads; \<open>w_lock\<close> has the same owner in
  both, and no other mutex is held between two steps.  A call that has ended has made exactly one
  of the sequences of lock operations that its program allows.
\<close>

theorem detailed_runs_in_lock_model:
  assumes "fresh_cache cf" "n \<in> set cs" "dl_reachable (dl_init cf lk fs) s"
  shows "(\<exists>G. traced cs n (dl_init cf lk fs) G s) \<and>
    (\<forall>G. traced cs n (dl_init cf lk fs) G s \<longrightarrow>
       (\<exists>progs h th. lock_start cs (\<lambda>_. None, progs) \<and> lock_trace (\<lambda>_. None, progs) G (h, th) \<and>
          (\<forall>l. h l = (if l = W_lock n then w_lock s else None)) \<and>
          (\<forall>t < length (threads s). progs t = [program_of cs n (threads s ! t)] \<and>
             (ended (threads s ! t) \<longrightarrow> part t G \<in> lang (call_of cs n (threads s ! t))))))"
proof (intro conjI allI impI)
  show "\<exists>G. traced cs n (dl_init cf lk fs) G s" by (rule reachable_traced [OF assms(3)])
next
  fix G
  assume tr: "traced cs n (dl_init cf lk fs) G s"
  obtain progs th where r: "lock_start cs (\<lambda>_. None, progs)" "lock_trace (\<lambda>_. None, progs) G (owners n s, th)"
    "\<forall>t < length (threads s). progs t = [program_of cs n (threads s ! t)]"
    using runs_exist [OF assms(1,2) tr] by blast
  have inv: "cinv s" by (rule cinv_from_init [OF assms(3,1)])
  have "part t G \<in> lang (call_of cs n (threads s ! t))" if "t < length (threads s)" "ended (threads s ! t)" for t
  proof -
    have "part t G \<in> langs (thread_at cs n (threads s ! t))"
      using traced_fits [OF tr assms(1)] that(1) unfolding fits_def by metis
    moreover have "valid (threads s ! t)" using inv that(1) by (simp add: cinv_def all_valid_def)
    ultimately show ?thesis using ended_call [OF that(2)] by simp
  qed
  with r show "\<exists>progs h th. lock_start cs (\<lambda>_. None, progs) \<and> lock_trace (\<lambda>_. None, progs) G (h, th) \<and>
      (\<forall>l. h l = (if l = W_lock n then w_lock s else None)) \<and>
      (\<forall>t < length (threads s). progs t = [program_of cs n (threads s ! t)] \<and>
         (ended (threads s ! t) \<longrightarrow> part t G \<in> lang (call_of cs n (threads s ! t))))"
    by (intro exI [of _ progs] exI [of _ "owners n s"] exI [of _ th]) (simp add: owners_def)
qed

theorem detailed_runs_in_lock_model_witness:
  "\<exists>G progs h th. traced [0] 0 (dl_init demo_open demo_file [''d'' \<mapsto> [0, 0, 0, 0, 0]]) G (demo_state 10) \<and>
    lock_start [0] (\<lambda>_. None, progs) \<and> lock_trace (\<lambda>_. None, progs) G (h, th) \<and> h (W_lock 0) = w_lock (demo_state 10)"
proof -
  have "0 \<in> set [0 :: nat]" by simp
  from detailed_runs_in_lock_model [OF demo_fresh this demo_state_reach [of 10]]
  obtain G where G: "traced [0] 0 (dl_init demo_open demo_file [''d'' \<mapsto> [0, 0, 0, 0, 0]]) G (demo_state 10)"
    and runs: "\<exists>progs h th. lock_start [0] (\<lambda>_. None, progs) \<and> lock_trace (\<lambda>_. None, progs) G (h, th) \<and>
      (\<forall>l. h l = (if l = W_lock 0 then w_lock (demo_state 10) else None))"
    by blast
  from runs obtain progs h th where "lock_start [0] (\<lambda>_. None, progs)" "lock_trace (\<lambda>_. None, progs) G (h, th)"
    "h (W_lock 0) = w_lock (demo_state 10)"
    by auto
  with G show ?thesis by blast
qed

end
