(* ===== verification/FuseRead.thy ===== *)
theory FuseRead
  imports Fuse CacheLife
begin

text \<open>
  From \<open>open\<close> to the bytes: a file of a mounted file system is opened through \<open>fs_open\<close> and read
  through \<open>fs_read\<close>, with the cache, past it, or without one.  It joins the operations of \<open>Fuse\<close>,
  the life of the cached files in \<open>CacheLife\<close> and the reads without a cache of \<open>Download\<close>.
\<close>

section \<open>Looking a path up and letting go of it\<close>

text \<open>The state while a lookup holds its table.\<close>

definition pinned :: "linkptr \<Rightarrow> cstate \<Rightarrow> cstate" where
  "pinned l s = (case tables (tree s) (fst l) of
     None \<Rightarrow> s | Some t \<Rightarrow> s\<lparr>tree := put (fst l) (t\<lparr>refcount := refcount t + 1\<rparr>) (tree s)\<rparr>)"

lemma link_table:
  assumes "get_link l h = Some lk"
  obtains t where "tables h (fst l) = Some t"
  using assms by (auto simp: get_link_def split: option.splits)

lemma find_pinned:
  assumes "resolved ns l (tree s)" "get_link l (tree s) = Some lk"
  shows "find_link e (join ns) s = Some (Some l, pinned l s)" "get_link l (tree (pinned l s)) = Some lk"
    "resolved ns l (tree (pinned l s))" "files (pinned l s) = files s"
proof -
  obtain t where t: "tables (tree s) (fst l) = Some t" using assms(2) by (rule link_table)
  show "find_link e (join ns) s = Some (Some l, pinned l s)"
    using find_resolved [OF assms(1) t] t by (simp add: pinned_def)
  show "get_link l (tree (pinned l s)) = Some lk"
    using assms(2) get_link_refcount [OF t] t by (simp add: pinned_def)
  show "resolved ns l (tree (pinned l s))"
    using resolved_pinned [OF assms(1) t] t by (simp add: pinned_def)
  show "files (pinned l s) = files s" using t by (simp add: pinned_def)
qed

lemma drop_caches: "drop_link e l s = Some s' \<Longrightarrow> caches s' = caches s"
  by (auto simp: drop_link_def split: option.splits)

section \<open>Opening\<close>

text \<open>What \<open>fs_open\<close> does with a path that is loaded.\<close>

lemma fs_open_resolved:
  assumes path: "resolved ns l (tree s)" "get_link l (tree s) = Some lk"
    and run: "fs_open fe flt (join ns) flags s = Some (0, fi, s')"
  obtains (no_cache) "fi = NULL_FH" "\<not> f_cache_init fe \<or> content_length lk = 0"
  | (past) "fi = BYPASS_FH" "f_cache_init fe" "bypass_cache (e_cfg (f_env fe)) lk"
  | (through) c s2 where "fi = CACHE_FH c" "f_cache_init fe"
      "Cache_open (f_env fe) flt (join ns) (pinned l s) = Some (Some c, s2)" "drop_link (f_env fe) l s2 = Some s'"
proof -
  note p = find_pinned [OF path]
  consider "flags AND O_RDWR = O_RDONLY" "\<not> f_cache_init fe \<or> content_length lk = 0" "fi = NULL_FH"
    | "f_cache_init fe" "bypass_cache (e_cfg (f_env fe)) lk" "fi = BYPASS_FH"
    | c s2 where "f_cache_init fe" "fi = CACHE_FH c" "Cache_open (f_env fe) flt (join ns) (pinned l s) = Some (Some c, s2)"
      "drop_link (f_env fe) l s2 = Some s'"
    using run p(1,2) by (auto simp: fs_open_def split: if_splits option.splits)
  then show thesis
    by cases (use no_cache past through in blast)+
qed

text \<open>A cache that was just opened is a live one, and the files were sound before.\<close>

lemma opened_live:
  assumes mounted: "fuse_ok fe" "mounted fe s D F" "room (f_env fe) (8 * length (join ns)) s"
    and path: "resolved ns l (tree s)" "get_link l (tree s) = Some lk" "cache_ptr lk = None"
    and ok: "file_ok (f_env fe) key lk" "content_length lk = length R"
    and disk: "disk_true R lk (meta_fn (f_env fe) key) (data_fn (f_env fe) key) (files s)"
    and run: "Cache_open (f_env fe) flt (join ns) (pinned l s) = Some (Some c, s2)"
  obtains cf where "caches s2 c = Some cf"
    "life_inv R full (e_dirs (f_env fe)) key lk (Live (dl_init cf lk (files s2)))"
proof -
  let ?e = "f_env fe"
  note p = find_pinned [OF path(1,2)]
  have "open_inv (dir_refs D) (file_refs F) s" using mounted_inv [OF mounted(1,2)] by (simp add: mount_inv_def)
  moreover have "env_ok ?e" using mounted(1) by (simp add: fuse_ok_def)
  moreover have "room ?e (length (join ns)) s" by (rule room_mono [OF mounted(3)]) simp
  ultimately have inv: "open_inv ((dir_refs D)(fst l := dir_refs D (fst l) + 1)) (file_refs F) (pinned l s)"
    using find_link_inv [of "dir_refs D" "file_refs F" s ?e "join ns"] p(1) by simp
  have "disk_true R lk (meta_fn ?e key) (data_fn ?e key) (files (pinned l s))" using disk p(4) by simp
  from Cache_open_true [OF run inv p(3,2) path(3) ok(1) this]
  have t: "disk_true R lk (meta_fn ?e key) (data_fn ?e key) (files s2)" "checked ?e key l lk c s2" by simp_all
  obtain cf where cf: "caches s2 c = Some cf" using t(2) by (auto simp: checked_def)
  have ne: "meta_fn ?e key \<noteq> data_fn ?e key" using ok(1) by (simp add: file_ok_def)
  note sv = opened_serves [OF t(2) cf t(1) ok(2) ne]
  have "life_inv R full (e_dirs ?e) key lk (Live (dl_init cf lk (files s2)))"
    using sv(3) dinv_from_init [OF honest_here sv(2,1), of full] cinv_init [OF sv(2)]
    by (simp add: life_inv_def Let_def same_file_def dl_init_def)
  with cf that show thesis by blast
qed

text \<open>
  A result of \<open>Cache_read\<close> of \<open>n\<close> bytes at \<open>off\<close>, in a life of the file that goes on from the opened
  cache: other readers and workers, and whatever else happens to the files and to the program.
\<close>

definition delivered ::
    "byte list \<Rightarrow> bool \<Rightarrow> cache_dirs \<Rightarrow> cstr \<Rightarrow> Link \<Rightarrow> dl \<Rightarrow> nat \<Rightarrow> int \<Rightarrow> int \<times> byte list \<Rightarrow> bool" where
  "delivered R full dirs key lk s0 n off r \<longleftrightarrow>
    (\<exists>S t. (life_step R full dirs key lk)\<^sup>*\<^sup>* (Live s0) (Live S) \<and> t < length (threads S) \<and>
       kind (threads S ! t) = Reader off (int n) \<and> pc (threads S ! t) = Finished (fst r) \<and> out (threads S ! t) = snd r)"

lemma delivered_right:
  assumes "delivered R full dirs key lk s0 n off (res, bs)" "life_inv R full dirs key lk (Live s0)"
    and "content_length lk = length R" "0 \<le> res" "0 < n" "0 \<le> off" "off < int (length R)"
  shows "bs = Prelude.slice (nat off) (nat res) R \<and> nat res \<le> min n (length R - nat off) \<and>
    (full \<longrightarrow> nat res = min n (length R - nat off))"
proof -
  obtain S t where S: "(life_step R full dirs key lk)\<^sup>*\<^sup>* (Live s0) (Live S)" "t < length (threads S)"
    "kind (threads S ! t) = Reader off (int n)" "pc (threads S ! t) = Finished res" "out (threads S ! t) = bs"
    using assms(1) by (auto simp: delivered_def)
  have "dinv R full S" using life.steps_inv [OF S(1) assms(2)] assms(3) by (simp add: life_inv_def Let_def)
  from finished_read [OF this S(2-4) assms(4)] S(5) assms(5-7) show ?thesis by auto
qed

section \<open>Properties\<close>


section \<open>A scenario\<close>

text \<open>
  The file of \<open>CacheLife\<close>, of which only torn metadata are on disk: \<open>open\<close> creates its cache, and
  a read of three bytes waits for the background download of the first segment.
\<close>

definition read_env :: fuse_env where
  "read_env = demo_fuse\<lparr>f_env := life_env\<rparr>"

lemma read_env_ok: "fuse_ok read_env"
  using demo_fuse_ok life_env_ok by (simp add: fuse_ok_def read_env_def demo_fuse_def)

lemma read_mounted: "mounted read_env demo_start [] []"
proof -
  have "tree_reachable (\<lparr>tables = [0 \<mapsto> demo_root], root_tbl = Some 0, next_addr = 1\<rparr>, \<lambda>_. 0)"
    by (rule tree_reachable.init)
      (simp add: fresh_table_def demo_root_def demo_table_def LinkTreeRefs.demo_link_def CacheFile.demo_file_def)
  then show ?thesis unfolding demo_start_def
    by (rule mounted.start)
      (auto simp: demo_root_def LinkTreeRefs.demo_link_def CacheFile.demo_file_def no_cache_def split: if_splits)
qed

lemma first_entry_resolved:
  assumes "root_tbl h = Some 0" "tables h 0 = Some t" "1 < length (links t)" "linkname (links t ! 1) = ''f''"
  shows "resolved [''f''] (0, 1) h" "get_link (0, 1) h = Some (links t ! 1)"
proof -
  obtain a b xs where l: "links t = a # b # xs" using assms(3) by (cases "links t"; cases "tl (links t)") auto
  then have "lookup_entry ''f'' t = Some 1" using assms(4) by (simp add: lookup_entry_def strncmp_eq_def)
  then show "resolved [''f''] (0, 1) h" using assms(1,2) by (simp add: resolved_def component_def)
  show "get_link (0, 1) h = Some (links t ! 1)" using assms(2,3) by (simp add: get_link_def)
qed

lemma read_opened:
  obtains c s' f lk2 where "fs_open read_env (\<lambda>_ _. no_faults) ''/f'' 0 demo_start = Some (0, CACHE_FH c, s')"
    "files s' = new_files life_env ''f'' (0, 1) life_link f" "caches s' c = Some life_cf"
    "resolved [''f''] (0, 1) (tree s')" "get_link (0, 1) (tree s') = Some lk2" "same_file life_link lk2"
proof -
  let ?s = "pinned (0, 1) demo_start"
  have l: "resolved [''f''] (0, 1) (tree demo_start)" "get_link (0, 1) (tree demo_start) = Some life_link" "cache_ptr life_link = None"
    using demo_file_link demo_resolved by (simp_all add: life_link_def CacheFile.demo_file_def)
  note p = find_pinned [OF l(1,2)]
  have find: "find_link life_env ''/f'' demo_start = Some (Some (0, 1), ?s)" using p(1) by simp
  have inv0: "open_inv (\<lambda>_. 0) (\<lambda>_. 0) demo_start"
    using mounted_inv [OF read_env_ok read_mounted] by (simp add: mount_inv_def)
  have "room life_env (length ''/f'') demo_start" by (simp add: room_def life_env_def demo_env_def demo_start_def)
  from find_link_inv [OF inv0 life_env_ok this] find have inv: "open_inv ((\<lambda>_. 0)(0 := 1)) (\<lambda>_. 0) ?s" "calm 2 demo_start ?s"
    by (simp_all add: numeral_2_eq_2)
  have none: "contents (files ?s) (data_fn life_env ''f'') = []"
    unfolding p(4) by (simp add: life_env_def demo_env_def demo_paths demo_start_def contents_def)
  have b: "blksz (blank life_env ''f'' (0, 1) life_link) = 4" "segbc (blank life_env ''f'' (0, 1) life_link) = 2"
    "seg (blank life_env ''f'' (0, 1) life_link) = [0, 0]"
    by (simp_all add: blank_def Let_def life_env_def life_link_def CacheFile.demo_file_def max_segbc_of_def cint_simps c_mod_nonneg
        numeral_2_eq_2)
  have fn: "meta_fn life_env ''f'' = ''m/f''" "data_fn life_env ''f'' = ''d/f''"
    by (simp_all add: life_env_def demo_env_def demo_paths)
  from Cache_open_created [OF inv(1) p(3,2) l(3) life_file_ok none] obtain c s2 f where o:
    "Cache_open life_env (\<lambda>_ _. no_faults) ''/f'' ?s = Some (Some c, s2)"
    "files s2 = new_files life_env ''f'' (0, 1) life_link f"
    "get_link (0, 1) (tree s2) = Some (life_link\<lparr>cache_ptr := Some c\<rparr>)" "caches s2 c = Some life_cf"
    unfolding b fn life_alloc by (auto simp: life_cf_def)
  have "room life_env 14 ?s" using room_calm [OF inv(2), of life_env 14]
    by (simp add: room_def life_env_def demo_env_def demo_start_def)
  from Cache_open_inv [OF inv(1) life_env_ok _ o(1)] this
  have inv2: "open_inv ((\<lambda>_. 0)(0 := 1)) ((\<lambda>_. 0)(c := 1)) s2" "grown 14 ?s s2" by simp_all
  have "room life_env 0 s2" by (rule room_grown [OF inv2(2)])
      (use room_calm [OF inv(2), of life_env 14] in \<open>simp add: room_def life_env_def demo_env_def demo_start_def\<close>)
  from drop_pinned [of "\<lambda>_. 0" "(0, 1)" _ s2 life_env] inv2(1) this obtain s' where s':
    "drop_link life_env (0, 1) s2 = Some s'" "calm 0 s2 s'" "open_inv (\<lambda>_. 0) ((\<lambda>_. 0)(c := 1)) s'" by auto
  have cfg: "\<not> bypass_cache (e_cfg life_env) life_link" "content_length life_link \<noteq> 0" "f_cache_init read_env" "f_env read_env = life_env"
    by (simp_all add: bypass_cache_def life_env_def life_link_def Config_init_def CacheFile.demo_file_def to_off_def
        to_size_def Let_def read_env_def demo_fuse_def)
  have opened: "fs_open read_env (\<lambda>_ _. no_faults) ''/f'' 0 demo_start = Some (0, CACHE_FH c, s')"
    using find p(2) o(1) s'(1) cfg by (simp add: fs_open_def)
  have root: "root_tbl (tree s') = Some 0"
    using fs_open_inv [OF inv0 read_env_ok _ opened] cfg(4)
    by (simp add: room_def life_env_def demo_env_def demo_start_def)
  obtain t' where t': "tables (tree s') 0 = Some t'"
    using tree_invD(3) [OF open_invD(1) [OF s'(3)]] root by (auto simp: root_ok_def)
  obtain t where t: "tables (tree s2) 0 = Some t" "1 < length (links t)" "links t ! 1 = life_link\<lparr>cache_ptr := Some c\<rparr>"
    using o(3) by (auto simp: get_link_def split: option.splits if_splits)
  have "0 < next_addr (tree s2)" using tree_invD(4) [OF open_invD(1) [OF inv2(1)]] t(1) by (auto simp: addr_ok_def)
  with s'(2) t' t(1) have same: "same_data t t'" by (fastforce simp: calm_def keeps_def)
  have n: "1 < length (links t')" "(links t' ! 1)\<lparr>next_table := None\<rparr> = (life_link\<lparr>cache_ptr := Some c\<rparr>)\<lparr>next_table := None\<rparr>"
    using same_data_nth(1) [OF same] same_data_nth(2) [OF same, of 1] t(2,3) by simp_all
  have e: "x (links t' ! 1) = x life_link"
    if "\<And>l v. x (l\<lparr>next_table := v\<rparr>) = x l" "\<And>l v. x (l\<lparr>cache_ptr := v\<rparr>) = x l" for x :: "Link \<Rightarrow> 'z"
    using arg_cong [OF n(2), of x] that by simp
  have "linkname (links t' ! 1) = ''f''" using e [of linkname] by (simp add: life_link_def CacheFile.demo_file_def)
  note r = first_entry_resolved [OF root t' n(1) this]
  have "same_file life_link (links t' ! 1)" using e [of link_time] e [of content_length] by (simp add: same_file_def)
  with that opened r o(2,4) drop_caches [OF s'(1)] drop_files [OF s'(1)] show thesis by simp
qed


end
