(* ===== verification/Spec2Isabelle.thy ===== *)
theory Spec2Isabelle
  imports Util LinkNames LinkHashSet Url Config LinkTreeRefs LinkTreePath CacheFile CacheDlProps CacheDlData CacheDirs
    CacheOpenRepair CacheLife LinkConc Locks Memory NetConc LockOrder LinkListing LinkStore Request Download Fuse Args SonicProps
    Getopt HelpText CacheDlLocks FuseRead
begin

text \<open>
  HTTPDirFS: a FUSE file system that presents HTTP directory listings as directories and
  downloads the files on demand, with an optional permanent cache.  The theories follow the
  program's source files under \<open>src/\<close>; every definition is translated from the function or
  type of the same name where it has one, and everything below runs in HOL.

  How the parts fit together.  \<open>main\<close> (\<open>Args\<close>) parses the options and loads the root table.  FUSE
  then calls the operations of \<open>fuse_local.c\<close> (\<open>Fuse\<close>).  They resolve paths in the tree of link
  tables (\<open>LinkTree*\<close>), which loads a directory when it is first entered: from the cache on disk
  (\<open>LinkStore\<close>), by scanning a page (\<open>LinkListing\<close>) and asking for the type and the length of each
  entry (\<open>Network\<close>), or from a Subsonic server (\<open>Sonic\<close>).  Opening a file pins its table and opens
  its cache (\<open>CacheOpen*\<close>); reading it goes through the segments of the cache (\<open>CacheFile\<close>,
  \<open>CacheDl*\<close>) or straight to the server (\<open>Download\<close>, \<open>Request\<close>).

  The theories.

  \<^item> \<open>Prelude\<close>: bytes and C strings as lists without the terminating zero, list lemmas, and the
  locales \<open>machine\<close> (an invariant of the reachable states) and \<open>refined_machine\<close> (a machine that
  implements another), which the theories with interleavings interpret.

  \<^item> \<open>Util\<close> (\<open>src/util.c\<close>): paths, hexadecimal, semaphores, the allocation tracker.
  \<open>Locks\<close>: the wrappers of mutexes and condition variables, and the semaphore that is built from
  them where the system has none, which refines the count of \<open>Util\<close>.  \<open>Memory\<close>: the allocation
  wrappers over a heap of blocks, with the tracker and the leak report, the salt and the hash.
  \<open>Config\<close> (\<open>src/config.c\<close>, \<open>src/log.c\<close>): the configuration and the log.

  \<^item> \<open>LinkNames\<close>, \<open>LinkHashSet\<close>, \<open>Url\<close> (\<open>src/link.c\<close>): classification and comparison of link names;
  the open-addressing set that removes duplicates, which refines a set; origins of URLs, cache
  paths and names derived from foreign URLs, and relative links.

  \<^item> \<open>LinkTree\<close>, \<open>LinkTreeRefs\<close>, \<open>LinkTreePath\<close>, \<open>LinkTreeKeeps\<close> (\<open>src/link.c\<close>): the heap of link
  tables with reference counts, orphaning and freeing, and path resolution.  A pointer is an
  address in the heap and a freed table is not there, so an access to it has the value None;
  that this does not happen is a theorem.  Loading a directory is an argument, whose contract the
  loaders of \<open>LinkStore\<close> and of \<open>Sonic\<close> in index mode are shown to keep.  \<open>LinkConc\<close>: lookups of
  several threads, interleaved where a download releases the lock.

  \<^item> \<open>LinkListing\<close>, \<open>LinkStore\<close> (\<open>src/link.c\<close>): from a parsed page to the entries of a table, the
  tables on disk, and \<open>LinkTable_new\<close>, which chooses between them.

  \<^item> \<open>Network\<close> (\<open>src/network.c\<close>, \<open>src/link.c\<close>): the messages of the multi handle, blocking and
  non-blocking transfers, and the loop that fills a table.  \<open>NetConc\<close>: the start of the network
  with its locks and callbacks, and threads that share the multi handle; they are safe as long
  as no thread gives a transfer up while another is at its message (\<open>careful\<close>), which the code
  does not ensure (\<open>early_return_race\<close>).  \<open>Request\<close>: the options of a request, with the scope of the
  credentials, and the range.  \<open>Download\<close> (\<open>src/memcache.c\<close>, \<open>src/link.c\<close>): the receive buffer on
  64-bit sizes and reads without a cache.

  \<^item> \<open>CacheFile\<close> (\<open>src/cache.c\<close>): the metadata file, the sparse data file, the segment map and
  the pairing of the two files, over a file system in which calls may fail or write less.
  \<open>CacheDirs\<close>: the directories of the cache.

  \<^item> \<open>CacheDl\<close>, \<open>CacheDlInv\<close>, \<open>CacheDlSafe\<close>, \<open>CacheDlProps\<close>, \<open>CacheDlData\<close> (\<open>src/cache.c\<close>,
  \<open>src/link.c\<close>, \<open>src/memcache.c\<close>): reading a cached file while other readers and background
  workers do the same, as an interleaving of steps; a step is what a thread does between two
  points where another may run.  The first two hold the model and its invariant, the others
  memory safety, progress and closing, and that the bytes read are the remote ones.

  \<^item> \<open>CacheOpen\<close>, \<open>CacheOpenInv\<close>, \<open>CacheOpenProps\<close>, \<open>CacheOpenRepair\<close> (\<open>src/cache.c\<close>):
  opening, creating, deleting and closing caches over the link tree and the files, any call of
  which may fail; the books of handles and references, and the repair of broken caches.
  \<open>CacheDisk\<close>: what the files then hold.  \<open>CacheLife\<close>: a cached file over openings, downloads,
  closings and restarts of the program, which joins \<open>CacheOpen\<close> and \<open>CacheDl\<close>.

  \<^item> \<open>LockOrder\<close>: the mutexes of all these files.  Every function is reduced to its calls of the
  mutex, condition and semaphore macros; a checker for such programs is proved sound, and the
  program passes it.  \<open>LockTrace\<close>: the sequences of lock operations that such a program can make,
  and what they do to the owners of the locks.  \<open>CacheDlLocks\<close>: what the steps of \<open>CacheDl\<close> do to the
  mutexes is a run of those programs, so that the two models of the cached read agree.

  \<^item> \<open>Fuse\<close> (\<open>src/fuse_local.c\<close>): the operations and the sessions they form.
  \<open>FuseRead\<close>: from the opening of a path to the bytes that are read from it, which joins them to
  \<open>CacheLife\<close> and \<open>Download\<close>.  \<open>Args\<close> (\<open>src/main.c\<close>): the
  configuration file, the options and the checks before FUSE starts.  \<open>Getopt\<close>: the tables of options
  and \<open>getopt_long\<close> on them, from the words a user writes to the start of FUSE.  \<open>HelpText\<close>: the help
  text, which documents exactly those options.

  \<^item> \<open>Sonic\<close>, \<open>SonicProps\<close> (\<open>src/sonic.c\<close>): the Subsonic client in both modes.

  Outside the program, and arguments of the model: the answers of servers and what one round of
  libcurl does, Gumbo's and Expat's trees and events, curl's string functions,
  \<open>realpath\<close>, the environment, time, MD5 and random salts.  What is assumed of them is named where
  it is used: a page has at most \<open>2 ^ 29\<close> anchors (the filter's size is a C \<open>int\<close>), no
  request for an entry of a table is under way when its fill starts (\<open>idle\<close>), a multi handle
  reports a handle once and only while it is there (\<open>proper_round\<close>), a block that the allocator
  returns is new (\<open>allocator_ok\<close>), a server that answers a range answers it truly (\<open>honest\<close>).

  Bounds and fuel.  The recursion of \<open>LinkTable_free\<close> and \<open>LinkTable_unref\<close> takes fuel; the number
  of live tables, plus one for each component a path may still load, is enough (\<open>room\<close>).  Loops
  that wait for the network consume a list of answers, and running out of it is None; the theorems
  that such a loop returns say which answers suffice.  Machine integers are words or are reduced
  where the code can wrap.

  Concurrency.  Readers and background workers of one cache are interleaved step by step in \<open>CacheDl\<close>.
  The operations of \<open>Fuse\<close> and \<open>CacheOpen\<close> run one at a time: they hold \<open>cf_lock\<close> or \<open>link_lock\<close>
  while they change the tree.  Lookups, which release the lock while they download, are
  interleaved in \<open>LinkConc\<close>, users of the multi handle in \<open>NetConc\<close>, and the calls of the built
  semaphore in \<open>Locks\<close>.  That the mutexes of the whole program cannot end in a circle is
  \<open>mutexes_deadlock_free\<close> in \<open>LockOrder\<close>.  \<open>CacheDlLocks\<close> joins it to \<open>CacheDl\<close>: every run of readers and
  workers is one of the lock model, step by step and with the same owner of \<open>w_lock\<close>.

  Not modelled: the version text, the backtrace of \<open>exit_failure\<close>, and file
  descriptors and their closing.  In ID3 mode the tables of the root are modelled as they are
  created, and what becomes of them is \<open>id3_index_dangles\<close>; sessions (\<open>mounted\<close>) start from a root
  with no loaded sub-table, as the other modes have it.
\<close>

end
